(* ===== verification/Prelude.thy ===== *)
theory Prelude
  imports Main "HOL-Library.Char_ord" "HOL-Library.List_Lexorder" "HOL-Library.Sublist"
    "HOL-Library.Word"
begin

text \<open>
  The vocabulary every component shares: JavaScript strings (lists of code units, here
  the Latin-1 range of \<^typ>\<open>char\<close>), exceptions as the left summand of a sum, the
  insertion-ordered \<^verbatim>\<open>Map\<close> and \<^verbatim>\<open>Set\<close> of the language as association lists, and
  the string operations the sources call (\<^verbatim>\<open>startsWith\<close>, \<^verbatim>\<open>split\<close>, \<^verbatim>\<open>indexOf\<close>,
  \<^verbatim>\<open>lastIndexOf\<close>, \<^verbatim>\<open>join\<close>).  The collection \<open>js_map_simps\<close> holds the laws of the
  ordered map, \<open>res_simps\<close> those of results.
\<close>

named_theorems js_map_simps
named_theorems res_simps

section \<open>Results: a thrown error or a value\<close>

type_synonym bytes = "8 word list"

text \<open>A thrown \<^verbatim>\<open>Error\<close> is its message.\<close>

datatype js_error = JsError string

type_synonym 'a res = "js_error + 'a"

definition res_bind :: "('e + 'a) \<Rightarrow> ('a \<Rightarrow> 'e + 'b) \<Rightarrow> 'e + 'b" where
  "res_bind r f = (case r of Inl e \<Rightarrow> Inl e | Inr x \<Rightarrow> f x)"

lemma res_bind_simps [simp, res_simps]:
  "res_bind (Inl e) f = Inl e"
  "res_bind (Inr x) f = f x"
  by (simp_all add: res_bind_def)

lemma res_bind_Inr_iff [res_simps]:
  "res_bind r f = Inr y \<longleftrightarrow> (\<exists>x. r = Inr x \<and> f x = Inr y)"
  by (cases r) auto

fun res_all :: "('e + 'a) list \<Rightarrow> 'e + 'a list" where
  "res_all [] = Inr []"
| "res_all (r # rs) = res_bind r (\<lambda>x. res_bind (res_all rs) (\<lambda>xs. Inr (x # xs)))"

lemma res_all_Inr [res_simps]: "res_all (map Inr xs) = Inr xs"
  by (induction xs) auto

lemma res_all_Inr_iff: "res_all rs = Inr xs \<longleftrightarrow> rs = map Inr xs"
  by (induction rs arbitrary: xs) (auto simp: res_bind_Inr_iff)

text \<open>\<^verbatim>\<open>every\<close> and \<^verbatim>\<open>some\<close> with a callback that may throw: they stop at the first answer.\<close>

fun res_every :: "('a \<Rightarrow> 'e + bool) \<Rightarrow> 'a list \<Rightarrow> 'e + bool" where
  "res_every f [] = Inr True"
| "res_every f (x # xs) = res_bind (f x) (\<lambda>b. if b then res_every f xs else Inr False)"

fun res_some :: "('a \<Rightarrow> 'e + bool) \<Rightarrow> 'a list \<Rightarrow> 'e + bool" where
  "res_some f [] = Inr False"
| "res_some f (x # xs) = res_bind (f x) (\<lambda>b. if b then Inr True else res_some f xs)"

lemma res_every_True_iff [res_simps]: "res_every f xs = Inr True \<longleftrightarrow> (\<forall>x\<in>set xs. f x = Inr True)"
  by (induction xs) (auto simp: res_bind_Inr_iff)

lemma res_some_TrueD: "res_some f xs = Inr True \<Longrightarrow> \<exists>x\<in>set xs. f x = Inr True"
  by (induction xs) (auto simp: res_bind_Inr_iff split: if_splits)

lemma res_every_Inr [res_simps]: "res_every (\<lambda>x. Inr (P x)) xs = Inr (list_all P xs)"
  by (induction xs) auto

lemma res_some_Inr [res_simps]: "res_some (\<lambda>x. Inr (P x)) xs = Inr (list_ex P xs)"
  by (induction xs) auto

definition res_and :: "('e + bool) \<Rightarrow> ('e + bool) \<Rightarrow> 'e + bool" where
  "res_and a b = res_bind a (\<lambda>x. if x then b else Inr False)"

lemma res_and_True_iff [res_simps]: "res_and a b = Inr True \<longleftrightarrow> a = Inr True \<and> b = Inr True"
  by (auto simp: res_and_def res_bind_Inr_iff)

definition is_ok :: "'e + 'a \<Rightarrow> bool" where
  "is_ok r = (case r of Inl _ \<Rightarrow> False | Inr _ \<Rightarrow> True)"

lemma is_ok_simps [simp]: "is_ok (Inr x)" "\<not> is_ok (Inl e)"
  by (simp_all add: is_ok_def)

section \<open>The insertion-ordered Map and Set of the language\<close>

text \<open>
  \<^verbatim>\<open>Map.set\<close> overwrites in place and appends a new key at the end; iteration is in
  insertion order.  \<^verbatim>\<open>Set\<close> is the same without values.
\<close>

definition jm_get :: "('k \<times> 'v) list \<Rightarrow> 'k \<Rightarrow> 'v option" where
  "jm_get m k = map_of m k"

definition jm_has :: "('k \<times> 'v) list \<Rightarrow> 'k \<Rightarrow> bool" where
  "jm_has m k = (k \<in> set (map fst m))"

fun jm_set :: "('k \<times> 'v) list \<Rightarrow> 'k \<Rightarrow> 'v \<Rightarrow> ('k \<times> 'v) list" where
  "jm_set [] k v = [(k, v)]"
| "jm_set ((k', v') # m) k v =
     (if k' = k then (k, v) # m else (k', v') # jm_set m k v)"

definition jm_delete :: "('k \<times> 'v) list \<Rightarrow> 'k \<Rightarrow> ('k \<times> 'v) list" where
  "jm_delete m k = filter (\<lambda>(k', _). k' \<noteq> k) m"

definition jm_wf :: "('k \<times> 'v) list \<Rightarrow> bool" where
  "jm_wf m = distinct (map fst m)"

definition js_add :: "'a list \<Rightarrow> 'a \<Rightarrow> 'a list" where
  "js_add xs x = (if x \<in> set xs then xs else xs @ [x])"

lemma jm_get_empty [simp, js_map_simps]: "jm_get [] k = None"
  by (simp add: jm_get_def)

lemma jm_get_set [simp, js_map_simps]:
  "jm_get (jm_set m k v) k' = (if k' = k then Some v else jm_get m k')"
  by (induction m k v rule: jm_set.induct) (auto simp: jm_get_def)

lemma jm_get_delete [simp, js_map_simps]:
  "jm_get (jm_delete m k) k' = (if k' = k then None else jm_get m k')"
  by (induction m) (auto simp: jm_get_def jm_delete_def)

lemma jm_has_iff [js_map_simps]: "jm_has m k \<longleftrightarrow> (\<exists>v. jm_get m k = Some v)"
proof -
  have "jm_has m k \<longleftrightarrow> map_of m k \<noteq> None"
    by (simp add: jm_has_def map_of_eq_None_iff)
  then show ?thesis by (simp add: jm_get_def)
qed

lemma jm_get_None_iff: "jm_get m k = None \<longleftrightarrow> k \<notin> fst ` set m"
  by (simp add: jm_get_def map_of_eq_None_iff)

lemma jm_get_SomeD: "jm_get m k = Some v \<Longrightarrow> (k, v) \<in> set m"
  by (simp add: jm_get_def map_of_SomeD)

lemma jm_get_wfI: "jm_wf m \<Longrightarrow> (k, v) \<in> set m \<Longrightarrow> jm_get m k = Some v"
  by (simp add: jm_get_def jm_wf_def map_of_is_SomeI)

lemma keys_jm_set: "fst ` set (jm_set m k v) = insert k (fst ` set m)"
  by (induction m k v rule: jm_set.induct) auto

lemma jm_wf_empty [simp]: "jm_wf []"
  by (simp add: jm_wf_def)

lemma jm_wf_set [simp]: "jm_wf m \<Longrightarrow> jm_wf (jm_set m k v)"
proof (induction m k v rule: jm_set.induct)
  case (2 k' v' m k v)
  then show ?case
    using keys_jm_set [of m k v] by (auto simp: jm_wf_def image_iff)
qed (simp add: jm_wf_def)

lemma jm_wf_delete [simp]: "jm_wf m \<Longrightarrow> jm_wf (jm_delete m k)"
  by (induction m) (auto simp: jm_wf_def jm_delete_def)

lemma set_jm_delete: "set (jm_delete m k) = {p \<in> set m. fst p \<noteq> k}"
  by (auto simp: jm_delete_def)

lemma set_jm_set: "jm_wf m \<Longrightarrow> set (jm_set m k v) = insert (k, v) {p \<in> set m. fst p \<noteq> k}"
  by (induction m k v rule: jm_set.induct) (auto simp: jm_wf_def)

lemma set_jm_set_subset: "set (jm_set m k v) \<subseteq> insert (k, v) (set m)"
  by (induction m k v rule: jm_set.induct) auto

lemma filter_jm_set: "\<not> P k \<Longrightarrow> filter (\<lambda>(k, _). P k) (jm_set m k v) = filter (\<lambda>(k, _). P k) m"
  by (induction m k v rule: jm_set.induct) auto

lemma length_jm_delete_le: "length (jm_delete m k) \<le> length m"
  by (simp add: jm_delete_def)

lemma length_jm_delete_less: "jm_get m k = Some v \<Longrightarrow> length (jm_delete m k) < length m"
  unfolding jm_delete_def by (rule length_filter_less [of "(k, v)"]) (auto dest: jm_get_SomeD)

lemma set_js_add [simp]: "set (js_add xs x) = insert x (set xs)"
  by (auto simp: js_add_def)

lemma distinct_js_add [simp]: "distinct xs \<Longrightarrow> distinct (js_add xs x)"
  by (simp add: js_add_def)

lemma sort_eq_iff_set:
  fixes xs ys :: "'a :: linorder list"
  assumes "distinct xs" "distinct ys"
  shows "sort xs = sort ys \<longleftrightarrow> set xs = set ys"
proof
  assume "set xs = set ys"
  then show "sort xs = sort ys"
    using assms by (intro sorted_distinct_set_unique) simp_all
next
  assume "sort xs = sort ys"
  then show "set xs = set ys" by (metis set_sort)
qed

section \<open>Strings\<close>

definition starts_with :: "string \<Rightarrow> string \<Rightarrow> bool" where
  "starts_with s p = prefix p s"

definition ends_with :: "string \<Rightarrow> string \<Rightarrow> bool" where
  "ends_with s p = suffix p s"

fun includes_str :: "string \<Rightarrow> string \<Rightarrow> bool" where
  "includes_str s p =
     (starts_with s p \<or> (case s of [] \<Rightarrow> False | _ # s' \<Rightarrow> includes_str s' p))"

declare includes_str.simps [simp del]

lemma starts_with_refl [simp]: "starts_with s s"
  by (simp add: starts_with_def)

lemma starts_with_append [simp]: "starts_with (p @ s) p"
  by (simp add: starts_with_def)

lemma starts_with_trans: "starts_with a b \<Longrightarrow> starts_with b c \<Longrightarrow> starts_with a c"
  unfolding starts_with_def by (rule prefix_order.trans)

lemma starts_with_Nil [simp]: "starts_with s []"
  by (simp add: starts_with_def)

lemma includes_str_iff: "includes_str s p \<longleftrightarrow> (\<exists>a b. s = a @ p @ b)"
proof (induction s)
  case Nil
  show ?case by (subst includes_str.simps) (simp add: starts_with_def)
next
  case (Cons c s)
  have "includes_str (c # s) p \<longleftrightarrow> prefix p (c # s) \<or> (\<exists>a b. s = a @ p @ b)"
    by (subst includes_str.simps) (simp add: Cons.IH starts_with_def)
  also have "\<dots> \<longleftrightarrow> (\<exists>a b. c # s = a @ p @ b)"
    by (auto simp: prefix_def Cons_eq_append_conv)
  finally show ?case .
qed

text \<open>\<^verbatim>\<open>s.split(sep)\<close> for a non-empty separator: leftmost, non-overlapping matches.\<close>

function split_go :: "string \<Rightarrow> string \<Rightarrow> string \<Rightarrow> string list" where
  "split_go sep acc s =
     (if s = [] \<or> sep = [] then [rev acc @ s]
      else if starts_with s sep then rev acc # split_go sep [] (drop (length sep) s)
      else split_go sep (hd s # acc) (tl s))"
  by pat_completeness auto
termination
  by (relation "measure (\<lambda>(sep, acc, s). length s)") (auto simp: neq_Nil_conv)

declare split_go.simps [simp del]

definition js_split :: "string \<Rightarrow> string \<Rightarrow> string list" where
  "js_split s sep = split_go sep [] s"

fun js_join :: "string \<Rightarrow> string list \<Rightarrow> string" where
  "js_join sep [] = []"
| "js_join sep [x] = x"
| "js_join sep (x # y # xs) = x @ sep @ js_join sep (y # xs)"

lemma js_join_Cons: "xs \<noteq> [] \<Longrightarrow> js_join sep (x # xs) = x @ sep @ js_join sep xs"
  by (cases xs) auto

lemma split_go_not_Nil [simp]: "split_go sep acc s \<noteq> []"
proof (induction sep acc s rule: split_go.induct)
  case (1 sep acc s)
  then show ?case by (subst split_go.simps) simp
qed

text \<open>Joining what was split gives the string back.\<close>

lemma js_join_split_go: "js_join sep (split_go sep acc s) = rev acc @ s"
proof (induction sep acc s rule: split_go.induct)
  case (1 sep acc s)
  show ?case
  proof (cases "s = [] \<or> sep = []")
    case True
    then show ?thesis by (simp add: split_go.simps [of sep acc s])
  next
    case ne: False
    show ?thesis
    proof (cases "starts_with s sep")
      case True
      then have eq: "sep @ drop (length sep) s = s"
        by (auto simp: starts_with_def prefix_def)
      from ne True 1(1) have "js_join sep (split_go sep [] (drop (length sep) s)) = drop (length sep) s"
        by simp
      with ne True eq show ?thesis
        by (subst split_go.simps) (simp add: js_join_Cons)
    next
      case False
      with ne 1(2) have "js_join sep (split_go sep (hd s # acc) (tl s)) = rev (hd s # acc) @ tl s"
        by simp
      with ne False show ?thesis
        by (subst split_go.simps) simp
    qed
  qed
qed

lemma js_join_split [simp]: "js_join sep (js_split s sep) = s"
  by (simp add: js_split_def js_join_split_go)

lemma takeWhile_span:
  "(\<And>c. c \<in> set a \<Longrightarrow> P c) \<Longrightarrow> b = [] \<or> \<not> P (hd b) \<Longrightarrow> takeWhile P (a @ b) = a"
  by (cases b) (simp_all add: takeWhile_append)

lemma dropWhile_span:
  "(\<And>c. c \<in> set a \<Longrightarrow> P c) \<Longrightarrow> b = [] \<or> \<not> P (hd b) \<Longrightarrow> dropWhile P (a @ b) = b"
  by (cases b) (simp_all add: dropWhile_append)

text \<open>The first and the last index of a character.\<close>

fun index_of :: "char \<Rightarrow> string \<Rightarrow> nat option" where
  "index_of c [] = None"
| "index_of c (x # xs) = (if x = c then Some 0 else map_option Suc (index_of c xs))"

fun last_index_of :: "char \<Rightarrow> string \<Rightarrow> nat option" where
  "last_index_of c [] = None"
| "last_index_of c (x # xs) =
     (case last_index_of c xs of
        Some i \<Rightarrow> Some (Suc i)
      | None \<Rightarrow> if x = c then Some 0 else None)"

lemma index_of_None_iff: "index_of c s = None \<longleftrightarrow> c \<notin> set s"
  by (induction s) auto

lemma index_of_append: "c \<notin> set a \<Longrightarrow> index_of c (a @ c # b) = Some (length a)"
  by (induction a) auto

lemma index_of_SomeD:
  "index_of c s = Some i \<Longrightarrow> i < length s \<and> s ! i = c \<and> c \<notin> set (take i s)"
  by (induction s arbitrary: i) (auto split: if_splits)

lemma last_index_of_None_iff: "last_index_of c s = None \<longleftrightarrow> c \<notin> set s"
  by (induction s) (auto split: option.splits)

lemma last_index_of_append:
  "c \<notin> set b \<Longrightarrow> last_index_of c (a @ c # b) = Some (length a)"
proof (induction a)
  case Nil
  then show ?case by (simp add: last_index_of_None_iff [THEN iffD2])
qed simp

lemma last_index_of_SomeD:
  "last_index_of c s = Some i \<Longrightarrow> i < length s \<and> s ! i = c \<and> c \<notin> set (drop (Suc i) s)"
proof (induction s arbitrary: i)
  case (Cons x xs)
  show ?case
  proof (cases "last_index_of c xs")
    case None
    with Cons.prems show ?thesis by (auto simp: last_index_of_None_iff split: if_splits)
  next
    case (Some j)
    with Cons.prems Cons.IH [of j] show ?thesis by auto
  qed
qed simp

end
