(* ===== verification/JsNumber.thy ===== *)
theory JsNumber
  imports Prelude
begin

text \<open>
  Numbers of the language.  A finite double is represented by its shortest decimal
  \<open>m * 10 ^ e\<close>, the form ECMAScript's \<^verbatim>\<open>Number::toString\<close> is defined on: \<open>m\<close> has no
  trailing zero, and zero is \<open>Dec 0 0\<close> (the sign of zero is not represented: \<^verbatim>\<open>-0\<close> prints and
  compares as \<^verbatim>\<open>0\<close>).  \<open>num_to_string\<close> is \<^verbatim>\<open>String(n)\<close>, which \<^verbatim>\<open>JSON.stringify\<close> uses too, and
  \<open>js_number\<close> is \<^verbatim>\<open>Number(s)\<close> up to the final rounding to a double.  The main result is
  that \<^verbatim>\<open>Number(String(n))\<close> gives \<open>n\<close> back, so \<^verbatim>\<open>String\<close> is injective.
\<close>

section \<open>Decimal digits of naturals\<close>

definition digit_char :: "nat \<Rightarrow> char" where
  "digit_char d = char_of (48 + d)"

definition char_digit :: "char \<Rightarrow> nat" where
  "char_digit c = of_char c - 48"

definition is_digit :: "char \<Rightarrow> bool" where
  "is_digit c = (48 \<le> (of_char c :: nat) \<and> (of_char c :: nat) \<le> 57)"

fun show_nat :: "nat \<Rightarrow> string" where
  "show_nat n = (if n < 10 then [digit_char n] else show_nat (n div 10) @ [digit_char (n mod 10)])"

declare show_nat.simps [simp del]

definition read_nat :: "string \<Rightarrow> nat" where
  "read_nat s = foldl (\<lambda>a c. 10 * a + char_digit c) 0 s"

lemma of_char_digit_char: "d < 10 \<Longrightarrow> (of_char (digit_char d) :: nat) = 48 + d"
  unfolding digit_char_def by (subst of_char_of) simp

lemma char_digit_digit_char [simp]: "d < 10 \<Longrightarrow> char_digit (digit_char d) = d"
  by (simp add: char_digit_def of_char_digit_char)

lemma is_digit_digit_char [simp]: "d < 10 \<Longrightarrow> is_digit (digit_char d)"
  by (simp add: is_digit_def of_char_digit_char)

lemma read_nat_Nil [simp]: "read_nat [] = 0"
  by (simp add: read_nat_def)

lemma read_nat_snoc: "read_nat (s @ [c]) = 10 * read_nat s + char_digit c"
  by (simp add: read_nat_def)

lemma read_show_nat [simp]: "read_nat (show_nat n) = n"
proof (induction n rule: show_nat.induct)
  case (1 n)
  show ?case
  proof (cases "n < 10")
    case True
    then show ?thesis
      by (subst show_nat.simps) (simp add: read_nat_def)
  next
    case False
    with 1 show ?thesis
      by (subst show_nat.simps) (simp add: read_nat_snoc)
  qed
qed

lemma show_nat_digits: "c \<in> set (show_nat n) \<Longrightarrow> is_digit c"
proof (induction n rule: show_nat.induct)
  case (1 n)
  show ?case
  proof (cases "n < 10")
    case True
    with 1(2) show ?thesis by (subst (asm) show_nat.simps) simp
  next
    case False
    with 1 show ?thesis by (subst (asm) (2) show_nat.simps) auto
  qed
qed

lemma show_nat_not_Nil [simp]: "show_nat n \<noteq> []"
  by (subst show_nat.simps) simp

lemma read_nat_append_zeros: "read_nat (s @ replicate k CHR ''0'') = read_nat s * 10 ^ k"
proof (induction k)
  case (Suc k)
  have "read_nat (s @ replicate (Suc k) CHR ''0'') = 10 * read_nat (s @ replicate k CHR ''0'')"
    by (simp only: replicate_Suc replicate_append_same [symmetric] append_assoc [symmetric]
        read_nat_snoc) (simp add: char_digit_def)
  with Suc show ?case by simp
qed simp

lemma read_nat_zeros_append: "read_nat (replicate k CHR ''0'' @ s) = read_nat s"
proof -
  have "foldl (\<lambda>a c. 10 * a + char_digit c) 0 (replicate k CHR ''0'') = 0"
    by (induction k) (simp_all add: char_digit_def)
  then show ?thesis by (simp add: read_nat_def)
qed

section \<open>The number type\<close>

datatype jsnum = NaN | Infinite bool | Dec int int

definition dec_wf :: "jsnum \<Rightarrow> bool" where
  "dec_wf n = (case n of Dec m e \<Rightarrow> (if m = 0 then e = 0 else \<not> 10 dvd m) | _ \<Rightarrow> True)"

function strip_zeros :: "int \<Rightarrow> int \<Rightarrow> jsnum" where
  "strip_zeros m e =
     (if m = 0 then Dec 0 0 else if 10 dvd m then strip_zeros (m div 10) (e + 1) else Dec m e)"
  by pat_completeness auto
termination
proof (relation "measure (\<lambda>(m, e). nat \<bar>m\<bar>)")
  fix m :: int and e :: int
  assume "m \<noteq> 0" and "10 dvd m"
  then obtain k where "m = 10 * k" "k \<noteq> 0" by auto
  then show "((m div 10, e + 1), (m, e)) \<in> measure (\<lambda>(m, e). nat \<bar>m\<bar>)" by simp
qed simp

declare strip_zeros.simps [simp del]

text \<open>The number with the integer value \<open>i\<close>.\<close>

definition num_of_int :: "int \<Rightarrow> jsnum" where
  "num_of_int i = strip_zeros i 0"

lemma dec_wf_strip_zeros [simp]: "dec_wf (strip_zeros m e)"
proof (induction m e rule: strip_zeros.induct)
  case (1 m e)
  then show ?case by (subst strip_zeros.simps) (auto simp: dec_wf_def)
qed

lemma strip_zeros_wf: "dec_wf (Dec m e) \<Longrightarrow> strip_zeros m e = Dec m e"
  by (subst strip_zeros.simps) (auto simp: dec_wf_def split: if_splits)

lemma strip_zeros_shift: "strip_zeros (m * 10 ^ k) e = strip_zeros m (e + int k)"
proof (induction k arbitrary: e)
  case (Suc k)
  show ?case
  proof (cases "m = 0")
    case True
    then show ?thesis by (simp add: strip_zeros.simps)
  next
    case False
    then have "strip_zeros (m * 10 ^ Suc k) e = strip_zeros (m * 10 ^ k) (e + 1)"
      by (subst strip_zeros.simps) (simp add: mult.left_commute)
    also have "\<dots> = strip_zeros m (e + int (Suc k))"
      by (simp add: Suc.IH algebra_simps)
    finally show ?thesis .
  qed
qed simp

section \<open>Comparison\<close>

text \<open>The integers of two decimals on their common exponent.\<close>

definition scale2 :: "int \<Rightarrow> int \<Rightarrow> int \<Rightarrow> int \<Rightarrow> int \<times> int" where
  "scale2 m1 e1 m2 e2 =
     (let e = min e1 e2 in (m1 * 10 ^ nat (e1 - e), m2 * 10 ^ nat (e2 - e)))"

instantiation jsnum :: ord
begin

fun less_jsnum :: "jsnum \<Rightarrow> jsnum \<Rightarrow> bool" where
  "less_jsnum NaN _ = False"
| "less_jsnum _ NaN = False"
| "less_jsnum (Infinite a) (Infinite b) = (a \<and> \<not> b)"
| "less_jsnum (Infinite a) (Dec _ _) = a"
| "less_jsnum (Dec _ _) (Infinite b) = (\<not> b)"
| "less_jsnum (Dec m1 e1) (Dec m2 e2) = (case scale2 m1 e1 m2 e2 of (a, b) \<Rightarrow> a < b)"

definition less_eq_jsnum :: "jsnum \<Rightarrow> jsnum \<Rightarrow> bool" where
  "less_eq_jsnum x y = (x \<noteq> NaN \<and> y \<noteq> NaN \<and> \<not> y < x)"

instance ..

end

text \<open>\<^verbatim>\<open>===\<close> on numbers, \<^verbatim>\<open>x + y\<close> and \<^verbatim>\<open>x - y\<close> on finite numbers.\<close>

definition num_eq :: "jsnum \<Rightarrow> jsnum \<Rightarrow> bool" where
  "num_eq x y = (x = y \<and> x \<noteq> NaN)"

fun num_add :: "jsnum \<Rightarrow> jsnum \<Rightarrow> jsnum" where
  "num_add (Dec m1 e1) (Dec m2 e2) =
     (case scale2 m1 e1 m2 e2 of (a, b) \<Rightarrow> strip_zeros (a + b) (min e1 e2))"
| "num_add NaN _ = NaN"
| "num_add _ NaN = NaN"
| "num_add (Infinite a) (Infinite b) = (if a = b then Infinite a else NaN)"
| "num_add (Infinite a) _ = Infinite a"
| "num_add _ (Infinite b) = Infinite b"

fun num_neg :: "jsnum \<Rightarrow> jsnum" where
  "num_neg NaN = NaN"
| "num_neg (Infinite a) = Infinite (\<not> a)"
| "num_neg (Dec m e) = Dec (- m) e"

fun num_abs :: "jsnum \<Rightarrow> jsnum" where
  "num_abs NaN = NaN"
| "num_abs (Infinite a) = Infinite False"
| "num_abs (Dec m e) = Dec \<bar>m\<bar> e"

definition num_sub :: "jsnum \<Rightarrow> jsnum \<Rightarrow> jsnum" where
  "num_sub x y = num_add x (num_neg y)"

definition num_finite :: "jsnum \<Rightarrow> bool" where
  "num_finite n = (case n of Dec _ _ \<Rightarrow> True | _ \<Rightarrow> False)"

definition num_is_integer :: "jsnum \<Rightarrow> bool" where
  "num_is_integer n = (case n of Dec m e \<Rightarrow> m = 0 \<or> 0 \<le> e \<or> m mod 10 ^ nat (- e) = 0 | _ \<Rightarrow> False)"

lemma num_of_int_less: "num_of_int a < num_of_int b \<longleftrightarrow> a < b"
proof -
  have val: "\<exists>m k. strip_zeros x e = Dec m (e + int k) \<and> m * 10 ^ k = x" if "x \<noteq> 0" for x e
    using that
  proof (induction x e rule: strip_zeros.induct)
    case (1 m e)
    show ?case
    proof (cases "10 dvd m")
      case True
      with 1 have "m div 10 \<noteq> 0" by auto
      with 1 True obtain m' k where
        eq: "strip_zeros (m div 10) (e + 1) = Dec m' (e + 1 + int k)" "m' * 10 ^ k = m div 10"
        by auto
      from eq(2) True have "m' * 10 ^ k * 10 = m" by (metis dvd_div_mult_self)
      then have "m' * 10 ^ Suc k = m" by (simp add: mult.assoc mult.commute [of _ "10"])
      with eq(1) True 1(2) show ?thesis
        by (intro exI [of _ m'] exI [of _ "Suc k"]) (subst strip_zeros.simps, simp)
    next
      case False
      with 1(2) show ?thesis
        by (intro exI [of _ m] exI [of _ 0]) (subst strip_zeros.simps, simp)
    qed
  qed
  have rep: "\<exists>m k. num_of_int x = Dec m (int k) \<and> m * 10 ^ k = x" for x
  proof (cases "x = 0")
    case True
    then show ?thesis
      by (intro exI [of _ 0] exI [of _ 0]) (simp add: num_of_int_def strip_zeros.simps)
  next
    case False
    with val [of x 0] show ?thesis by (simp add: num_of_int_def)
  qed
  obtain m1 k1 m2 k2 where *: "num_of_int a = Dec m1 (int k1)" "m1 * 10 ^ k1 = a"
    "num_of_int b = Dec m2 (int k2)" "m2 * 10 ^ k2 = b"
    using rep [of a] rep [of b] by blast
  define e where "e = min k1 k2"
  have a: "a = (m1 * 10 ^ (k1 - e)) * 10 ^ e" and b: "b = (m2 * 10 ^ (k2 - e)) * 10 ^ e"
    using *(2,4) by (simp_all add: e_def mult.assoc power_add [symmetric])
  have "a < b \<longleftrightarrow> m1 * 10 ^ (k1 - e) < m2 * 10 ^ (k2 - e)"
    by (subst a, subst b) (rule mult_less_cancel_right_pos, simp)
  moreover have "nat (int k1 - min (int k1) (int k2)) = k1 - e"
    "nat (int k2 - min (int k1) (int k2)) = k2 - e"
    by (auto simp: e_def)
  ultimately show ?thesis
    by (simp add: * scale2_def Let_def)
qed

section \<open>The order is a strict order on numbers other than NaN\<close>

lemma less_dec_scale:
  assumes "e \<le> e1" "e \<le> e2"
  shows "Dec m1 e1 < Dec m2 e2 \<longleftrightarrow> m1 * 10 ^ nat (e1 - e) < m2 * 10 ^ nat (e2 - e)"
proof -
  define f where "f = min e1 e2"
  have e: "e \<le> f" "f \<le> e1" "f \<le> e2" using assms by (auto simp: f_def)
  have split: "m * 10 ^ nat (x - e) = (m * 10 ^ nat (x - f)) * 10 ^ nat (f - e)" if "f \<le> x" for m :: int and x
    using that e(1) by (simp add: mult.assoc power_add [symmetric] nat_add_distrib [symmetric])
  have "Dec m1 e1 < Dec m2 e2 \<longleftrightarrow> m1 * 10 ^ nat (e1 - f) < m2 * 10 ^ nat (e2 - f)"
    by (simp add: scale2_def f_def Let_def)
  also have "\<dots> \<longleftrightarrow> m1 * 10 ^ nat (e1 - e) < m2 * 10 ^ nat (e2 - e)"
    unfolding split [OF e(2)] split [OF e(3)] by (rule mult_less_cancel_right_pos [symmetric]) simp
  finally show ?thesis .
qed

lemma num_less_NaN [simp]: "\<not> NaN < (y :: jsnum)" "\<not> (x :: jsnum) < NaN"
  by (simp, cases x) simp_all

lemma num_less_irrefl [simp]: "\<not> (x :: jsnum) < x"
  by (cases x) (simp_all add: scale2_def)

lemma num_less_le_trans:
  fixes x y z :: jsnum
  assumes "\<not> y < x" "x \<noteq> NaN" "y \<noteq> NaN" "y < z"
  shows "x < z"
proof (cases "\<exists>m1 e1 m2 e2 m3 e3. x = Dec m1 e1 \<and> y = Dec m2 e2 \<and> z = Dec m3 e3")
  case True
  then obtain m1 e1 m2 e2 m3 e3 where eq: "x = Dec m1 e1" "y = Dec m2 e2" "z = Dec m3 e3" by blast
  define e where "e = min e1 (min e2 e3)"
  have "e \<le> e1" "e \<le> e2" "e \<le> e3" by (auto simp: e_def)
  with assms(1,4) show ?thesis unfolding eq by (simp only: less_dec_scale [of e])
next
  case False
  with assms show ?thesis by (cases x; cases y; cases z) auto
qed

lemma num_less_trans: "x < y \<Longrightarrow> y < z \<Longrightarrow> x < (z :: jsnum)"
proof -
  assume *: "x < y" "y < z"
  have "\<not> y < x"
  proof
    assume "y < x"
    from * have ne: "x \<noteq> NaN" "y \<noteq> NaN" by auto
    show False
    proof (cases x; cases y)
      fix m1 e1 m2 e2 assume eq: "x = Dec m1 e1" "y = Dec m2 e2"
      with *(1) \<open>y < x\<close> show False
        using less_dec_scale [of "min e1 e2" e1 e2 m1 m2] less_dec_scale [of "min e1 e2" e2 e1 m2 m1] by simp
    qed (use ne * \<open>y < x\<close> in \<open>auto\<close>)
  qed
  moreover from * have "x \<noteq> NaN" "y \<noteq> NaN" by auto
  ultimately show "x < z" using num_less_le_trans [of y x z] * by blast
qed

section \<open>String(n)\<close>

text \<open>
  \<^verbatim>\<open>Number::toString\<close>: with \<open>k\<close> significant digits and the value in
  \<open>[10 ^ (n-1), 10 ^ n)\<close>, an integer is printed in full up to \<open>n = 21\<close>, a fraction down
  to \<open>n = -5\<close>, and every other value with an exponent.
\<close>

definition show_exponent :: "int \<Rightarrow> string" where
  "show_exponent x =
     CHR ''e'' # (if x < 0 then CHR ''-'' else CHR ''+'') # show_nat (nat \<bar>x\<bar>)"

definition show_positive :: "nat \<Rightarrow> int \<Rightarrow> string" where
  "show_positive m e =
     (let ds = show_nat m; k = int (length ds); n = k + e in
      if k \<le> n \<and> n \<le> 21 then ds @ replicate (nat (n - k)) CHR ''0''
      else if 0 < n \<and> n \<le> 21 then take (nat n) ds @ CHR ''.'' # drop (nat n) ds
      else if - 6 < n \<and> n \<le> 0 then ''0.'' @ replicate (nat (- n)) CHR ''0'' @ ds
      else if k = 1 then ds @ show_exponent (n - 1)
      else take 1 ds @ CHR ''.'' # drop 1 ds @ show_exponent (n - 1))"

definition num_to_string :: "jsnum \<Rightarrow> string" where
  "num_to_string n = (case n of
     NaN \<Rightarrow> ''NaN''
   | Infinite neg \<Rightarrow> if neg then ''-Infinity'' else ''Infinity''
   | Dec m e \<Rightarrow>
       if m = 0 then ''0''
       else if m < 0 then CHR ''-'' # show_positive (nat (- m)) e
       else show_positive (nat m) e)"

section \<open>Number(s)\<close>

definition digits :: "string \<Rightarrow> bool" where
  "digits s = list_all is_digit s"

definition is_space :: "char \<Rightarrow> bool" where
  "is_space c = ((of_char c :: nat) \<in> {9, 10, 11, 12, 13, 32, 160})"

definition js_trim :: "string \<Rightarrow> string" where
  "js_trim s = rev (dropWhile is_space (rev (dropWhile is_space s)))"

fun read_exponent :: "string \<Rightarrow> int option" where
  "read_exponent [] = Some 0"
| "read_exponent (_ # s) =
     (case s of
        [] \<Rightarrow> None
      | c # s' \<Rightarrow>
          if c = CHR ''-'' then (if s' \<noteq> [] \<and> digits s' then Some (- int (read_nat s')) else None)
          else if c = CHR ''+'' then (if s' \<noteq> [] \<and> digits s' then Some (int (read_nat s')) else None)
          else if digits s then Some (int (read_nat s)) else None)"

definition not_exp :: "char \<Rightarrow> bool" where
  "not_exp c = (c \<noteq> CHR ''e'' \<and> c \<noteq> CHR ''E'')"

definition read_unsigned :: "string \<Rightarrow> jsnum" where
  "read_unsigned s =
     (let man = takeWhile not_exp s;
          ip = takeWhile (\<lambda>c. c \<noteq> CHR ''.'') man;
          fp = drop 1 (dropWhile (\<lambda>c. c \<noteq> CHR ''.'') man) in
      if s = ''Infinity'' then Infinite False
      else if digits ip \<and> digits fp \<and> (ip \<noteq> [] \<or> fp \<noteq> []) then
        (case read_exponent (dropWhile not_exp s) of
           None \<Rightarrow> NaN
         | Some x \<Rightarrow> strip_zeros (int (read_nat (ip @ fp))) (x - int (length fp)))
      else NaN)"

definition hex_value :: "char \<Rightarrow> nat option" where
  "hex_value c =
     (let n = (of_char c :: nat) in
      if is_digit c then Some (n - 48)
      else if 65 \<le> n \<and> n \<le> 70 then Some (n - 55)
      else if 97 \<le> n \<and> n \<le> 102 then Some (n - 87)
      else None)"

fun read_radix :: "nat \<Rightarrow> nat \<Rightarrow> string \<Rightarrow> nat option" where
  "read_radix r a [] = Some a"
| "read_radix r a (c # s) =
     (case hex_value c of
        Some d \<Rightarrow> if d < r then read_radix r (r * a + d) s else None
      | None \<Rightarrow> None)"

definition radix_number :: "nat \<Rightarrow> string \<Rightarrow> jsnum" where
  "radix_number r s =
     (if s = [] then NaN
      else case read_radix r 0 s of Some n \<Rightarrow> num_of_int (int n) | None \<Rightarrow> NaN)"

definition js_number :: "string \<Rightarrow> jsnum" where
  "js_number str =
     (let s = js_trim str in
      if s = [] then Dec 0 0
      else if starts_with s ''0x'' \<or> starts_with s ''0X'' then radix_number 16 (drop 2 s)
      else if starts_with s ''0o'' \<or> starts_with s ''0O'' then radix_number 8 (drop 2 s)
      else if starts_with s ''0b'' \<or> starts_with s ''0B'' then radix_number 2 (drop 2 s)
      else if hd s = CHR ''-'' then num_neg (read_unsigned (tl s))
      else if hd s = CHR ''+'' then read_unsigned (tl s)
      else read_unsigned s)"

section \<open>Number(String(n)) = n\<close>

lemma digits_append [simp]: "digits (a @ b) \<longleftrightarrow> digits a \<and> digits b"
  by (simp add: digits_def)

lemma digits_simps [simp]: "digits []" "digits (c # s) \<longleftrightarrow> is_digit c \<and> digits s"
  by (simp_all add: digits_def)

lemma digits_show_nat [simp]: "digits (show_nat n)"
  by (auto simp: digits_def list_all_iff dest: show_nat_digits)

lemma digits_zeros [simp]: "digits (replicate k CHR ''0'')"
  by (induction k) (simp_all add: is_digit_def)

lemma digits_take_drop: "digits s \<Longrightarrow> digits (take n s)" "digits s \<Longrightarrow> digits (drop n s)"
  by (auto simp: digits_def list_all_iff dest: in_set_takeD in_set_dropD)

lemma digit_plain:
  assumes "is_digit c"
  shows "not_exp c" "c \<noteq> CHR ''.''" "c \<noteq> CHR ''-''" "c \<noteq> CHR ''+''" "\<not> is_space c"
    "c \<noteq> CHR ''I''" "c \<noteq> CHR ''x''" "c \<noteq> CHR ''X''" "c \<noteq> CHR ''o''" "c \<noteq> CHR ''O''"
    "c \<noteq> CHR ''b''" "c \<noteq> CHR ''B''" "c \<noteq> CHR ''e''" "c \<noteq> CHR ''E''" "c \<noteq> CHR ''N''"
  using assms by (auto simp: is_digit_def not_exp_def is_space_def)

text \<open>The shapes \<open>show_positive\<close> produces, and what \<open>read_unsigned\<close> makes of each.\<close>

definition frac :: "string \<Rightarrow> string" where
  "frac fp = (if fp = [] then [] else CHR ''.'' # fp)"

definition expo :: "int option \<Rightarrow> string" where
  "expo x = (case x of None \<Rightarrow> [] | Some i \<Rightarrow> show_exponent i)"

lemma read_exponent_expo: "read_exponent (expo x) = Some (case x of None \<Rightarrow> 0 | Some i \<Rightarrow> i)"
  by (auto simp: expo_def show_exponent_def split: option.splits)

lemma digits_not_exp: "digits s \<Longrightarrow> c \<in> set s \<Longrightarrow> not_exp c"
  by (auto simp: digits_def list_all_iff digit_plain)

lemma digits_not_dot: "digits s \<Longrightarrow> CHR ''.'' \<notin> set s"
  using digit_plain(2) by (auto simp: digits_def list_all_iff)

lemma read_unsigned_pieces:
  assumes "digits ip" "digits fp" "ip \<noteq> []"
  shows "read_unsigned (ip @ frac fp @ expo x) =
    strip_zeros (int (read_nat (ip @ fp))) ((case x of None \<Rightarrow> 0 | Some i \<Rightarrow> i) - int (length fp))"
proof -
  let ?s = "ip @ frac fp @ expo x"
  have ne: "not_exp c" if "c \<in> set (ip @ frac fp)" for c
    using that assms digits_not_exp by (auto simp: frac_def not_exp_def split: if_splits)
  have ex: "expo x = [] \<or> \<not> not_exp (hd (expo x))"
    by (auto simp: expo_def show_exponent_def not_exp_def split: option.splits)
  have man: "takeWhile not_exp ?s = ip @ frac fp"
    using takeWhile_span [of "ip @ frac fp" not_exp "expo x"] ne ex by simp
  have rest: "dropWhile not_exp ?s = expo x"
    using dropWhile_span [of "ip @ frac fp" not_exp "expo x"] ne ex by simp
  have ip: "takeWhile (\<lambda>c. c \<noteq> CHR ''.'') (ip @ frac fp) = ip"
    "drop 1 (dropWhile (\<lambda>c. c \<noteq> CHR ''.'') (ip @ frac fp)) = fp"
    using digits_not_dot [OF assms(1)] by (auto simp: frac_def takeWhile_append dropWhile_append)
  have "?s \<noteq> ''Infinity''"
    using assms by (cases ip) (auto simp: digit_plain)
  then show ?thesis
    unfolding read_unsigned_def Let_def man rest ip read_exponent_expo using assms by simp
qed

definition number_text :: "string \<Rightarrow> string \<Rightarrow> string \<Rightarrow> int option \<Rightarrow> bool" where
  "number_text s ip fp x =
     (s = ip @ frac fp @ expo x \<and> digits ip \<and> digits fp \<and> ip \<noteq> [])"

lemma number_textI:
  "number_text s ip fp x \<and> f ip fp x = v \<Longrightarrow> \<exists>ip fp x. number_text s ip fp x \<and> f ip fp x = v"
  by blast

lemma show_positive_text:
  assumes "m > 0"
  shows "\<exists>ip fp x. number_text (show_positive m e) ip fp x \<and>
    strip_zeros (int (read_nat (ip @ fp))) ((case x of None \<Rightarrow> 0 | Some i \<Rightarrow> i) - int (length fp)) =
    strip_zeros (int m) e"
proof -
  define ds where "ds = show_nat m"
  define n where "n = int (length ds) + e"
  have ds: "digits ds" "ds \<noteq> []" "read_nat ds = m" by (simp_all add: ds_def)
  have len: "length ds > 0" using ds by simp
  have sp: "show_positive m e =
     (if int (length ds) \<le> n \<and> n \<le> 21 then ds @ replicate (nat (n - int (length ds))) CHR ''0''
      else if 0 < n \<and> n \<le> 21 then take (nat n) ds @ CHR ''.'' # drop (nat n) ds
      else if - 6 < n \<and> n \<le> 0 then ''0.'' @ replicate (nat (- n)) CHR ''0'' @ ds
      else if int (length ds) = 1 then ds @ show_exponent (n - 1)
      else take 1 ds @ CHR ''.'' # drop 1 ds @ show_exponent (n - 1))"
    by (simp add: show_positive_def Let_def ds_def n_def)
  consider (full) "int (length ds) \<le> n" "n \<le> 21" | (mid) "n < int (length ds)" "0 < n" "n \<le> 21"
    | (small) "- 6 < n" "n \<le> 0"
    | (one) "\<not> (int (length ds) \<le> n \<and> n \<le> 21)" "\<not> (0 < n \<and> n \<le> 21)" "\<not> (- 6 < n \<and> n \<le> 0)"
        "length ds = 1"
    | (many) "\<not> (int (length ds) \<le> n \<and> n \<le> 21)" "\<not> (0 < n \<and> n \<le> 21)" "\<not> (- 6 < n \<and> n \<le> 0)"
        "length ds \<noteq> 1"
    by linarith
  then show ?thesis
  proof cases
    case full
    then have "strip_zeros (int m * 10 ^ nat (n - int (length ds))) 0 = strip_zeros (int m) e"
      by (simp add: strip_zeros_shift) (simp add: n_def)
    with full ds show ?thesis
      by (intro number_textI [of _ "ds @ replicate (nat (n - int (length ds))) CHR ''0''" "[]" None])
        (simp add: number_text_def sp frac_def expo_def read_nat_append_zeros)
  next
    case mid
    then have "drop (nat n) ds \<noteq> []" "take (nat n) ds \<noteq> []"
      "- int (length (drop (nat n) ds)) = e"
      using ds by (auto simp: n_def)
    with mid ds show ?thesis
      by (intro number_textI [of _ "take (nat n) ds" "drop (nat n) ds" None])
        (simp add: number_text_def sp frac_def expo_def digits_take_drop del: length_drop)
  next
    case small
    then have e: "- int (length (replicate (nat (- n)) CHR ''0'' @ ds)) = e"
      by (simp add: n_def)
    have "read_nat (''0'' @ replicate (nat (- n)) CHR ''0'' @ ds) = m"
      using read_nat_zeros_append [of "Suc (nat (- n))" ds] ds by simp
    moreover from small len have "\<not> int (length ds) \<le> n" by linarith
    ultimately show ?thesis using small ds e
      by (intro number_textI [of _ "''0''" "replicate (nat (- n)) CHR ''0'' @ ds" None])
        (simp add: number_text_def sp frac_def expo_def is_digit_def del: length_append)
  next
    case one
    then have "show_positive m e = ds @ show_exponent (n - 1)" unfolding sp by auto
    moreover from one have "n - 1 = e" by (simp add: n_def)
    ultimately show ?thesis using ds
      by (intro number_textI [of _ ds "[]" "Some (n - 1)"])
        (simp add: number_text_def frac_def expo_def)
  next
    case many
    then have "1 < length ds" using len by linarith
    then have "drop 1 ds \<noteq> []" by simp
    moreover have "n - 1 - int (length (drop 1 ds)) = e"
      using \<open>1 < length ds\<close> by (simp add: n_def of_nat_diff)
    ultimately show ?thesis using many ds
      by (intro number_textI [of _ "take 1 ds" "drop 1 ds" "Some (n - 1)"])
        (auto simp add: number_text_def sp frac_def expo_def digits_take_drop simp del: length_drop)
  qed
qed

lemma number_text_chars:
  assumes "number_text s ip fp x" "c \<in> set s"
  shows "is_digit c \<or> c \<in> {CHR ''.'', CHR ''e'', CHR ''+'', CHR ''-''}"
proof -
  have dig: "is_digit c" if "digits t" "c \<in> set t" for t
    using that by (auto simp: digits_def list_all_iff)
  have "c \<in> set ip \<or> c \<in> set (frac fp) \<or> c \<in> set (expo x)"
    using assms by (auto simp: number_text_def)
  then show ?thesis
    using assms dig [of ip] dig [of fp] dig [OF digits_show_nat]
    by (auto simp: number_text_def frac_def expo_def show_exponent_def split: if_splits option.splits)
qed

lemma number_text_plain:
  assumes "number_text s ip fp x"
  shows "c \<in> set s \<Longrightarrow> \<not> is_space c" "CHR ''x'' \<notin> set s" "CHR ''X'' \<notin> set s" "CHR ''o'' \<notin> set s"
    "CHR ''O'' \<notin> set s" "CHR ''b'' \<notin> set s" "CHR ''B'' \<notin> set s"
    "s \<noteq> []" "hd s \<noteq> CHR ''-''" "hd s \<noteq> CHR ''+''"
proof -
  show "c \<in> set s \<Longrightarrow> \<not> is_space c"
    using number_text_chars [OF assms, of c] digit_plain(5) [of c]
    by (cases "is_digit c") (auto simp: is_space_def)
  show "CHR ''x'' \<notin> set s" "CHR ''X'' \<notin> set s" "CHR ''o'' \<notin> set s"
    "CHR ''O'' \<notin> set s" "CHR ''b'' \<notin> set s" "CHR ''B'' \<notin> set s"
    using number_text_chars [OF assms] by (force simp: is_digit_def)+
  show "s \<noteq> []" "hd s \<noteq> CHR ''-''" "hd s \<noteq> CHR ''+''"
    using assms by (cases ip; auto simp: number_text_def digit_plain)+
qed

lemma js_trim_id: "(\<And>c. c \<in> set s \<Longrightarrow> \<not> is_space c) \<Longrightarrow> js_trim s = s"
proof -
  assume ns: "\<And>c. c \<in> set s \<Longrightarrow> \<not> is_space c"
  have "dropWhile is_space t = t" if "set t \<subseteq> set s" for t
    using that ns by (cases t) auto
  then show ?thesis by (simp add: js_trim_def)
qed

lemma not_starts_with: "c \<in> set p \<Longrightarrow> c \<notin> set s \<Longrightarrow> \<not> starts_with s p"
  by (auto simp: starts_with_def prefix_def)

lemma js_number_positive:
  assumes "m > 0"
  shows "js_number (show_positive m e) = strip_zeros (int m) e"
    "js_number (CHR ''-'' # show_positive m e) = num_neg (strip_zeros (int m) e)"
proof -
  obtain ip fp x where nt: "number_text (show_positive m e) ip fp x"
    and val: "strip_zeros (int (read_nat (ip @ fp)))
      ((case x of None \<Rightarrow> 0 | Some i \<Rightarrow> i) - int (length fp)) = strip_zeros (int m) e"
    using show_positive_text [OF assms] by blast
  have ru: "read_unsigned (show_positive m e) = strip_zeros (int m) e"
    using nt val read_unsigned_pieces [of ip fp x] by (simp add: number_text_def)
  note plain = number_text_plain [OF nt]
  have trim: "js_trim (show_positive m e) = show_positive m e"
    by (rule js_trim_id) (rule plain(1))
  have trim': "js_trim (CHR ''-'' # show_positive m e) = CHR ''-'' # show_positive m e"
    by (rule js_trim_id) (use plain(1) in \<open>auto simp: is_space_def\<close>)
  have nr: "\<not> starts_with s ''0x''" "\<not> starts_with s ''0X''" "\<not> starts_with s ''0o''"
    "\<not> starts_with s ''0O''" "\<not> starts_with s ''0b''" "\<not> starts_with s ''0B''"
    if "s = show_positive m e \<or> s = CHR ''-'' # show_positive m e" for s
    by (rule not_starts_with [of "CHR ''x''"] not_starts_with [of "CHR ''X''"]
        not_starts_with [of "CHR ''o''"] not_starts_with [of "CHR ''O''"]
        not_starts_with [of "CHR ''b''"] not_starts_with [of "CHR ''B''"];
        use that plain in auto)+
  show "js_number (show_positive m e) = strip_zeros (int m) e"
    using plain nr ru by (simp add: js_number_def Let_def trim)
  show "js_number (CHR ''-'' # show_positive m e) = num_neg (strip_zeros (int m) e)"
    using nr ru by (simp add: js_number_def Let_def trim')
qed

theorem js_number_num_to_string: "dec_wf n \<Longrightarrow> js_number (num_to_string n) = n"
proof (cases n)
  case (Dec m e)
  assume wf: "dec_wf n"
  show ?thesis
  proof (cases "m = 0")
    case True
    with Dec wf show ?thesis
      by (simp add: num_to_string_def dec_wf_def js_number_def js_trim_def is_space_def Let_def
          starts_with_def read_unsigned_def not_exp_def is_digit_def read_nat_def char_digit_def
          strip_zeros.simps)
  next
    case False
    with Dec wf have "dec_wf (Dec \<bar>m\<bar> e)" by (simp add: dec_wf_def)
    then have "strip_zeros \<bar>m\<bar> e = Dec \<bar>m\<bar> e" by (rule strip_zeros_wf)
    with Dec False js_number_positive [of "nat \<bar>m\<bar>" e] show ?thesis
      by (auto simp: num_to_string_def abs_if split: if_splits)
  qed
qed (simp_all add: num_to_string_def js_number_def js_trim_def is_space_def Let_def
    starts_with_def read_unsigned_def not_exp_def is_digit_def)

lemma num_to_string_inj: "dec_wf a \<Longrightarrow> dec_wf b \<Longrightarrow> num_to_string a = num_to_string b \<Longrightarrow> a = b"
  by (metis js_number_num_to_string)

lemma num_to_string_chars:
  assumes "c \<in> set (num_to_string (Dec m e))"
  shows "is_digit c \<or> c \<in> {CHR ''.'', CHR ''e'', CHR ''+'', CHR ''-''}"
proof (cases "m = 0")
  case True
  with assms show ?thesis by (simp add: num_to_string_def is_digit_def)
next
  case False
  then obtain ip fp x where "number_text (show_positive (nat \<bar>m\<bar>) e) ip fp x"
    using show_positive_text [of "nat \<bar>m\<bar>" e] by auto
  from number_text_chars [OF this, of c] False assms show ?thesis
    by (auto simp: num_to_string_def split: if_splits)
qed

lemma num_to_string_hd:
  "num_to_string (Dec m e) \<noteq> [] \<and>
   (is_digit (hd (num_to_string (Dec m e))) \<or> hd (num_to_string (Dec m e)) = CHR ''-'')"
proof (cases "m = 0")
  case True
  then show ?thesis by (simp add: num_to_string_def is_digit_def)
next
  case False
  then obtain ip fp x where "number_text (show_positive (nat \<bar>m\<bar>) e) ip fp x"
    using show_positive_text [of "nat \<bar>m\<bar>" e] by auto
  then have "show_positive (nat \<bar>m\<bar>) e \<noteq> [] \<and> is_digit (hd (show_positive (nat \<bar>m\<bar>) e))"
    by (cases ip) (auto simp: number_text_def)
  with False show ?thesis by (auto simp: num_to_string_def split: if_splits)
qed

end
