(* ===== verification/Jcs.thy ===== *)
theory Jcs
  imports JsNumber "HOL-Library.Multiset"
begin

text \<open>
  JSON values and the canonical form of \<^verbatim>\<open>protocol/jcs.ts\<close> (RFC 8785), the byte string under
  every signature.  Properties of an object are kept in insertion order and have distinct
  names; a property whose value is \<^verbatim>\<open>undefined\<close> is an absent property.  Values with a
  \<^verbatim>\<open>toJSON\<close> method, symbols and cycles are not JSON values and are not represented.
  The lemmas show that the canonical form ignores property order and nothing else.
\<close>

section \<open>JSON values\<close>

datatype json =
    JNull | JBool bool | JNum jsnum | JStr string | JArr "json list" | JObj "(string \<times> json) list"

text \<open>\<^verbatim>\<open>value[k]\<close> on an object; \<open>None\<close> is \<^verbatim>\<open>undefined\<close>.\<close>

definition field :: "string \<Rightarrow> json \<Rightarrow> json option" where
  "field k j = (case j of JObj kvs \<Rightarrow> map_of kvs k | _ \<Rightarrow> None)"

lemma field_JObj [simp]: "field k (JObj kvs) = map_of kvs k"
  by (simp add: field_def)

text \<open>Numbers in normal form and distinct property names, at every level.\<close>

primrec json_ok :: "json \<Rightarrow> bool" where
  "json_ok JNull = True"
| "json_ok (JBool b) = True"
| "json_ok (JNum n) = dec_wf n"
| "json_ok (JStr s) = True"
| "json_ok (JArr xs) = list_all id (map json_ok xs)"
| "json_ok (JObj kvs) =
     (distinct (map fst kvs) \<and> list_all snd (map (map_prod id json_ok) kvs))"

primrec json_finite :: "json \<Rightarrow> bool" where
  "json_finite JNull = True"
| "json_finite (JBool b) = True"
| "json_finite (JNum n) = num_finite n"
| "json_finite (JStr s) = True"
| "json_finite (JArr xs) = list_all id (map json_finite xs)"
| "json_finite (JObj kvs) = list_all snd (map (map_prod id json_finite) kvs)"

text \<open>The same value with the properties of every object sorted by name.\<close>

primrec jnorm :: "json \<Rightarrow> json" where
  "jnorm JNull = JNull"
| "jnorm (JBool b) = JBool b"
| "jnorm (JNum n) = JNum n"
| "jnorm (JStr s) = JStr s"
| "jnorm (JArr xs) = JArr (map jnorm xs)"
| "jnorm (JObj kvs) = JObj (sort_key fst (map (map_prod id jnorm) kvs))"

text \<open>Whether a value counts as true in a condition.\<close>

definition js_truthy :: "json \<Rightarrow> bool" where
  "js_truthy j = (case j of JNull \<Rightarrow> False | JBool b \<Rightarrow> b | JNum n \<Rightarrow> \<not> num_eq n (num_of_int 0) \<and> n \<noteq> NaN
     | JStr s \<Rightarrow> s \<noteq> [] | _ \<Rightarrow> True)"

section \<open>JSON.stringify on strings\<close>

definition hex_char :: "nat \<Rightarrow> char" where
  "hex_char d = (if d < 10 then char_of (48 + d) else char_of (87 + d))"

definition quote_char :: "char \<Rightarrow> string" where
  "quote_char c =
     (let n = (of_char c :: nat) in
      if n = 34 then [CHR 0x5C, CHR 0x22]
      else if n = 92 then [CHR 0x5C, CHR 0x5C]
      else if n = 8 then [CHR 0x5C, CHR ''b'']
      else if n = 12 then [CHR 0x5C, CHR ''f'']
      else if n = 10 then [CHR 0x5C, CHR ''n'']
      else if n = 13 then [CHR 0x5C, CHR ''r'']
      else if n = 9 then [CHR 0x5C, CHR ''t'']
      else if n < 32 then
        [CHR 0x5C, CHR ''u'', CHR ''0'', CHR ''0'', hex_char (n div 16), hex_char (n mod 16)]
      else [c])"

definition json_quote :: "string \<Rightarrow> string" where
  "json_quote s = CHR 0x22 # concat (map quote_char s) @ [CHR 0x22]"

section \<open>The canonical form\<close>

definition canonical_part :: "string \<times> string res \<Rightarrow> string res" where
  "canonical_part p = res_bind (snd p) (\<lambda>v. Inr (json_quote (fst p) @ '':'' @ v))"

primrec canonicalize :: "json \<Rightarrow> string res" where
  "canonicalize JNull = Inr ''null''"
| "canonicalize (JBool b) = Inr (if b then ''true'' else ''false'')"
| "canonicalize (JNum n) = (case n of
     NaN \<Rightarrow> Inl (JsError ''NaN is not allowed'')
   | Infinite _ \<Rightarrow> Inl (JsError ''Infinity is not allowed'')
   | Dec _ _ \<Rightarrow> Inr (num_to_string n))"
| "canonicalize (JStr s) = Inr (json_quote s)"
| "canonicalize (JArr xs) =
     res_bind (res_all (map canonicalize xs)) (\<lambda>values. Inr (''['' @ js_join '','' values @ '']''))"
| "canonicalize (JObj kvs) =
     res_bind
       (res_all (map canonical_part (sort_key fst (map (map_prod id canonicalize) kvs))))
       (\<lambda>parts. Inr (''{'' @ js_join '','' parts @ ''}''))"

definition jcs_canonicalize :: "json \<Rightarrow> string res" where
  "jcs_canonicalize value = canonicalize value"

text \<open>\<^verbatim>\<open>TextEncoder.encode\<close>: UTF-8 of code units below 256.\<close>

definition utf8_char :: "char \<Rightarrow> bytes" where
  "utf8_char c =
     (let n = (of_char c :: nat) in
      if n < 128 then [of_nat n] else [of_nat (192 + n div 64), of_nat (128 + n mod 64)])"

definition utf8 :: "string \<Rightarrow> bytes" where
  "utf8 s = concat (map utf8_char s)"

definition jcs_canonicalize_bytes :: "json \<Rightarrow> bytes res" where
  "jcs_canonicalize_bytes value = res_bind (jcs_canonicalize value) (\<lambda>s. Inr (utf8 s))"

section \<open>When there is a canonical form, and its text\<close>

definition text_of :: "json \<Rightarrow> string" where
  "text_of j = (case canonicalize j of Inr s \<Rightarrow> s | Inl _ \<Rightarrow> [])"

lemma insort_key_map_prod:
  "insort_key fst (map_prod id f x) (map (map_prod id f) xs) = map (map_prod id f) (insort_key fst x xs)"
  by (induction xs) (auto simp: map_prod_def split: prod.splits)

lemma sort_key_map_prod:
  "sort_key fst (map (map_prod id f) xs) = map (map_prod id f) (sort_key fst xs)"
proof (induction xs)
  case (Cons x xs)
  then show ?case using insort_key_map_prod [of f x "sort_key fst xs"] by (simp add: id_def)
qed simp

lemma text_ofI: "canonicalize j = Inr s \<Longrightarrow> canonicalize j = Inr (text_of j)"
  by (simp add: text_of_def)

text \<open>An item of an object: \<^verbatim>\<open>JSON.stringify(key) : value\<close>.\<close>

definition part_of :: "string \<times> json \<Rightarrow> string" where
  "part_of p = json_quote (fst p) @ CHR '':'' # text_of (snd p)"

lemma canonical_parts:
  assumes "\<And>p. p \<in> set kvs \<Longrightarrow> canonicalize (snd p) = Inr (text_of (snd p))"
  shows "map canonical_part (sort_key fst (map (map_prod id canonicalize) kvs)) =
    map Inr (map part_of (sort_key fst kvs))"
  using assms by (simp add: sort_key_map_prod canonical_part_def part_of_def)

lemma canonicalize_finite: "json_finite j \<Longrightarrow> canonicalize j = Inr (text_of j)"
proof (induction j)
  case (JNum n)
  then show ?case by (cases n) (simp_all add: text_of_def num_finite_def)
next
  case (JArr xs)
  then have eq: "map canonicalize xs = map Inr (map text_of xs)" by (simp add: list_all_iff)
  show ?case
    by (rule text_ofI) (simp only: canonicalize.simps eq res_all_Inr res_bind_simps)
next
  case (JObj kvs)
  have "canonicalize (snd p) = Inr (text_of (snd p))" if "p \<in> set kvs" for p
    using JObj.IH [OF that, of "snd p"] JObj.prems that
    by (cases p) (auto simp: list_all_iff)
  note eq = canonical_parts [OF this]
  show ?case
    by (rule text_ofI) (simp only: canonicalize.simps eq res_all_Inr res_bind_simps)
qed (simp_all add: text_of_def)

lemma canonicalize_ok_iff: "is_ok (canonicalize j) \<longleftrightarrow> json_finite j"
proof
  show "json_finite j \<Longrightarrow> is_ok (canonicalize j)" by (simp add: canonicalize_finite)
  have "canonicalize j = Inr s \<Longrightarrow> json_finite j" for s
  proof (induction j arbitrary: s)
    case (JNum n)
    then show ?case by (cases n) (simp_all add: num_finite_def)
  next
    case (JArr xs)
    then obtain vs where "map canonicalize xs = map Inr vs"
      by (auto simp: res_bind_Inr_iff res_all_Inr_iff)
    then have "\<exists>v. canonicalize x = Inr v" if "x \<in> set xs" for x
      using that by (metis (no_types, lifting) imageE image_eqI list.set_map)
    with JArr.IH show ?case by (fastforce simp: list_all_iff)
  next
    case (JObj kvs)
    from JObj.prems obtain vs where
      "map canonical_part (sort_key fst (map (map_prod id canonicalize) kvs)) = map Inr vs"
      by (auto simp: res_bind_Inr_iff res_all_Inr_iff)
    then have "canonical_part ` set (map (map_prod id canonicalize) kvs) = Inr ` set vs"
      by (metis list.set_map set_sort)
    then have all: "canonical_part p \<in> range Inr" if "p \<in> set (map (map_prod id canonicalize) kvs)" for p
      using that by blast
    have "\<exists>v. canonicalize x = Inr v" if "(k, x) \<in> set kvs" for k x
    proof -
      from that have "(k, canonicalize x) \<in> set (map (map_prod id canonicalize) kvs)"
        by (auto intro!: image_eqI [of _ _ "(k, x)"])
      from all [OF this] show ?thesis
        by (auto simp: canonical_part_def res_bind_def split: sum.splits)
    qed
    with JObj.IH show ?case by (fastforce simp: list_all_iff)
  qed simp_all
  then show "is_ok (canonicalize j) \<Longrightarrow> json_finite j"
    by (auto simp: is_ok_def split: sum.splits)
qed

lemma text_of_simps:
  "text_of JNull = ''null''" "text_of (JBool b) = (if b then ''true'' else ''false'')"
  "text_of (JNum (Dec m e)) = num_to_string (Dec m e)" "text_of (JStr s) = json_quote s"
  by (simp_all add: text_of_def)

lemma text_of_JArr:
  assumes "json_finite (JArr xs)"
  shows "text_of (JArr xs) = CHR ''['' # js_join '','' (map text_of xs) @ '']''"
proof -
  have eq: "map canonicalize xs = map Inr (map text_of xs)"
    using assms by (auto simp: list_all_iff canonicalize_finite)
  show ?thesis
    by (subst text_of_def) (simp only: canonicalize.simps eq res_all_Inr res_bind_simps sum.case append.simps)
qed

lemma text_of_JObj:
  assumes "json_finite (JObj kvs)"
  shows "text_of (JObj kvs) = CHR ''{'' # js_join '','' (map part_of (sort_key fst kvs)) @ ''}''"
proof -
  have "canonicalize (snd p) = Inr (text_of (snd p))" if "p \<in> set kvs" for p
    using assms that by (auto simp: list_all_iff intro: canonicalize_finite)
  note eq = canonical_parts [OF this]
  show ?thesis
    by (subst text_of_def) (simp only: canonicalize.simps eq res_all_Inr res_bind_simps sum.case append.simps)
qed

section \<open>The canonical form determines the value\<close>

lemma of_char_hex_char: "d < 16 \<Longrightarrow> (of_char (hex_char d) :: nat) = (if d < 10 then 48 + d else 87 + d)"
  by (auto simp: hex_char_def of_char_of)

lemma of_char_inj: "(of_char c :: nat) = of_char d \<longleftrightarrow> c = d"
  by (metis char_of_char)

lemma quote_char_hd: "quote_char c @ x \<noteq> CHR 0x22 # y"
  by (auto simp: quote_char_def Let_def split: if_splits)

text \<open>The code of the character a quoted text begins with.\<close>

definition hex_code :: "char \<Rightarrow> nat" where
  "hex_code c = (if (of_char c :: nat) < 58 then of_char c - 48 else of_char c - 87)"

definition unquote_code :: "string \<Rightarrow> nat" where
  "unquote_code s =
     (if hd s \<noteq> CHR 0x5C then of_char (hd s)
      else let t = s ! 1 in
        if t = CHR ''b'' then 8 else if t = CHR ''f'' then 12 else if t = CHR ''n'' then 10
        else if t = CHR ''r'' then 13 else if t = CHR ''t'' then 9
        else if t = CHR ''u'' then 16 * hex_code (s ! 4) + hex_code (s ! 5)
        else of_char t)"

lemma hex_code_hex_char: "d < 16 \<Longrightarrow> hex_code (hex_char d) = d"
  by (simp add: hex_code_def of_char_hex_char)

lemma unquote_quote_char: "unquote_code (quote_char c @ x) = of_char c"
proof -
  define n where "n = (of_char c :: nat)"
  have "c = CHR 0x5C \<Longrightarrow> n = 92" by (simp add: n_def)
  moreover have "n < 32 \<Longrightarrow> n div 16 < 16" "n mod 16 < 16" by (simp_all add: less_mult_imp_div_less)
  ultimately show ?thesis
    unfolding quote_char_def n_def [symmetric] Let_def
    by (auto simp: unquote_code_def Let_def hex_code_hex_char n_def)
qed

lemma quote_char_cancel: "quote_char c @ x = quote_char d @ y \<Longrightarrow> c = d \<and> x = y"
proof -
  assume eq: "quote_char c @ x = quote_char d @ y"
  then have "c = d" using unquote_quote_char [of c x] unquote_quote_char [of d y] by (simp add: of_char_inj)
  with eq show ?thesis by simp
qed

lemma json_quote_cancel: "json_quote a @ x = json_quote b @ y \<Longrightarrow> a = b \<and> x = y"
proof (induction a arbitrary: b)
  case Nil
  then show ?case using quote_char_hd by (cases b) (auto simp: json_quote_def dest: sym)
next
  case (Cons c a)
  then obtain d b' where b: "b = d # b'"
    using quote_char_hd by (cases b) (auto simp: json_quote_def)
  with Cons.prems have "quote_char c @ (concat (map quote_char a) @ CHR 0x22 # x) =
      quote_char d @ (concat (map quote_char b') @ CHR 0x22 # y)"
    by (simp add: json_quote_def)
  from quote_char_cancel [OF this] Cons.IH [of b'] b show ?case
    by (simp add: json_quote_def)
qed

text \<open>What may follow a value inside a canonical text.\<close>

definition stops :: "string \<Rightarrow> bool" where
  "stops r = (r = [] \<or> hd r \<in> {CHR '','', CHR '']'', CHR ''}''})"

lemma num_cancel:
  assumes "num_to_string (Dec m e) @ x = num_to_string (Dec m' e') @ y" "stops x" "stops y"
  shows "num_to_string (Dec m e) = num_to_string (Dec m' e') \<and> x = y"
proof -
  define P where "P c = (is_digit c \<or> c \<in> {CHR ''.'', CHR ''e'', CHR ''+'', CHR ''-''})" for c
  have P: "c \<in> set (num_to_string (Dec a b)) \<Longrightarrow> P c" for c a b
    unfolding P_def by (rule num_to_string_chars)
  have S: "z = [] \<or> \<not> P (hd z)" if "stops z" for z
    using that by (auto simp: stops_def P_def is_digit_def)
  have tw: "takeWhile P (num_to_string (Dec a b) @ z) = num_to_string (Dec a b)" if "stops z" for a b z
    by (rule takeWhile_span) (use P S that in auto)
  have "num_to_string (Dec m e) = num_to_string (Dec m' e')"
    using tw [OF assms(2), of m e] tw [OF assms(3), of m' e'] assms(1) by simp
  with assms(1) show ?thesis by simp
qed

text \<open>The first character tells the kind of value.\<close>

definition kind_char :: "json \<Rightarrow> char \<Rightarrow> bool" where
  "kind_char j c = (case j of
     JNull \<Rightarrow> c = CHR ''n'' | JBool b \<Rightarrow> c = (if b then CHR ''t'' else CHR ''f'')
   | JNum _ \<Rightarrow> is_digit c \<or> c = CHR ''-'' | JStr _ \<Rightarrow> c = CHR 0x22
   | JArr _ \<Rightarrow> c = CHR ''['' | JObj _ \<Rightarrow> c = CHR ''{'')"

lemma text_of_hd:
  assumes "json_finite j"
  shows "text_of j \<noteq> [] \<and> kind_char j (hd (text_of j))"
proof (cases j)
  case (JNum n)
  with assms show ?thesis using num_to_string_hd
    by (cases n) (auto simp: num_finite_def text_of_simps kind_char_def)
qed (use assms text_of_JArr text_of_JObj in \<open>auto simp: text_of_simps kind_char_def json_quote_def\<close>)

lemma text_of_not_stop:
  assumes "json_finite j"
  shows "\<not> stops (text_of j @ r)"
  using text_of_hd [OF assms]
  by (auto simp: stops_def kind_char_def is_digit_def split: json.splits if_splits)

lemma js_join_Cons_if:
  "js_join sep (x # xs) = x @ (if xs = [] then [] else sep @ js_join sep xs)"
  by (cases xs) auto

lemma join_cancel:
  assumes "\<And>x y r s. x \<in> set xs \<Longrightarrow> y \<in> set ys \<Longrightarrow> stops r \<Longrightarrow> stops s \<Longrightarrow>
      enc x @ r = enc y @ s \<Longrightarrow> N x = N y \<and> r = s"
    and "\<And>x r. x \<in> set xs \<union> set ys \<Longrightarrow> \<not> stops (enc x @ r)"
    and c: "c = CHR '']'' \<or> c = CHR ''}''"
    and "js_join '','' (map enc xs) @ c # r = js_join '','' (map enc ys) @ c # s"
  shows "map N xs = map N ys \<and> r = s"
  using assms(1,2,4)
proof (induction xs arbitrary: ys)
  case Nil
  have "stops (c # r)" using c by (auto simp: stops_def)
  with Nil show ?case by (cases ys) (auto simp: js_join_Cons_if)
next
  case (Cons x xs)
  have "stops (c # s)" using c by (auto simp: stops_def)
  then have "ys \<noteq> []"
    using Cons.prems(2) [of x] Cons.prems(3) [symmetric] by (auto simp: js_join_Cons_if)
  then obtain y ys' where ys: "ys = y # ys'" by (cases ys) auto
  define R where "R = (if xs = [] then [] else '','' @ js_join '','' (map enc xs)) @ c # r"
  define S where "S = (if ys' = [] then [] else '','' @ js_join '','' (map enc ys')) @ c # s"
  have st: "stops R" "stops S" using c by (auto simp: R_def S_def stops_def)
  have "enc x @ R = enc y @ S"
    using Cons.prems(3) by (simp add: ys js_join_Cons_if R_def S_def)
  with Cons.prems(1) [of x y R S] st ys have *: "N x = N y" "R = S" by auto
  from * c have "(xs = [] \<longleftrightarrow> ys' = [])" by (auto simp: R_def S_def split: if_splits)
  then have "js_join '','' (map enc xs) @ c # r = js_join '','' (map enc ys') @ c # s"
    using * by (auto simp: R_def S_def split: if_splits)
  then have "map N xs = map N ys' \<and> r = s"
    using Cons.prems(1,2) ys by (intro Cons.IH) auto
  with * ys show ?case by simp
qed

lemma part_of_cancel:
  assumes "part_of p @ r = part_of q @ s"
    and "text_of (snd p) @ r = text_of (snd q) @ s \<Longrightarrow> jnorm (snd p) = jnorm (snd q) \<and> r = s"
  shows "map_prod id jnorm p = map_prod id jnorm q \<and> r = s"
proof -
  have "json_quote (fst p) @ (CHR '':'' # text_of (snd p) @ r) =
      json_quote (fst q) @ (CHR '':'' # text_of (snd q) @ s)"
    using assms(1) by (simp add: part_of_def)
  from json_quote_cancel [OF this] assms(2) show ?thesis
    by (cases p; cases q) simp
qed

lemma part_of_not_stop: "\<not> stops (part_of p @ r)"
  by (simp add: part_of_def json_quote_def stops_def)

lemma same_kind:
  assumes "text_of a @ r = text_of b @ s" "json_finite a" "json_finite b"
  shows "kind_char a (hd (text_of b))" "kind_char b (hd (text_of b))"
proof -
  have "hd (text_of a) = hd (text_of b)"
    using assms text_of_hd [of a] text_of_hd [of b] by (metis hd_append2)
  with text_of_hd [OF assms(2)] text_of_hd [OF assms(3)]
  show "kind_char a (hd (text_of b))" "kind_char b (hd (text_of b))" by simp_all
qed

lemma json_items:
  "p \<in> set kvs \<Longrightarrow> json_ok (JObj kvs) \<Longrightarrow> json_ok (snd p)"
  "p \<in> set kvs \<Longrightarrow> json_finite (JObj kvs) \<Longrightarrow> json_finite (snd p)"
  by (auto simp: list_all_iff)

lemmas json_kind_simps = kind_char_def is_digit_def

lemma text_of_cancel:
  assumes "json_ok a" "json_finite a" "json_ok b" "json_finite b" "stops r" "stops s"
    "text_of a @ r = text_of b @ s"
  shows "jnorm a = jnorm b \<and> r = s"
  using assms
proof (induction a arbitrary: b r s)
  case JNull
  from same_kind [OF JNull.prems(7,2,4)] JNull.prems show ?case
    by (cases b) (auto simp: json_kind_simps text_of_simps split: if_splits)
next
  case (JBool v)
  from same_kind [OF JBool.prems(7,2,4)] JBool.prems show ?case
    by (cases b) (auto simp: json_kind_simps text_of_simps split: if_splits)
next
  case (JNum n)
  from same_kind [OF JNum.prems(7,2,4)] obtain k where b: "b = JNum k"
    by (cases b) (auto simp: json_kind_simps split: if_splits)
  from JNum.prems b obtain m e m' e' where n: "n = Dec m e" "k = Dec m' e'"
    by (auto simp: num_finite_def split: jsnum.splits)
  from num_cancel [of m e r m' e' s] num_to_string_inj [of n k] JNum.prems b n show ?case
    by (simp add: text_of_simps)
next
  case (JStr t)
  from same_kind [OF JStr.prems(7,2,4)] obtain u where b: "b = JStr u"
    by (cases b) (auto simp: json_kind_simps split: if_splits)
  from json_quote_cancel [of t r u s] JStr.prems b show ?case by (simp add: text_of_simps)
next
  case (JArr xs)
  from same_kind [OF JArr.prems(7,2,4)] obtain ys where b: "b = JArr ys"
    by (cases b) (auto simp: json_kind_simps split: if_splits)
  have "map jnorm xs = map jnorm ys \<and> r = s"
  proof (rule join_cancel [where enc = text_of and c = "CHR '']''"])
    show "js_join '','' (map text_of xs) @ CHR '']'' # r = js_join '','' (map text_of ys) @ CHR '']'' # s"
      using JArr.prems(2,4,7) by (simp add: b text_of_JArr)
    show "\<not> stops (text_of x @ r)" if "x \<in> set xs \<union> set ys" for x r
      using that JArr.prems(2,4) by (auto simp: b list_all_iff dest!: text_of_not_stop)
    show "jnorm x = jnorm y \<and> r = s"
      if "x \<in> set xs" "y \<in> set ys" "stops r" "stops s" "text_of x @ r = text_of y @ s" for x y r s
      using JArr.IH [OF that(1), of y r s] that JArr.prems b by (auto simp: list_all_iff)
  qed simp
  with b show ?case by simp
next
  case (JObj kvs)
  from same_kind [OF JObj.prems(7,2,4)] obtain kvs' where b: "b = JObj kvs'"
    by (cases b) (auto simp: json_kind_simps split: if_splits)
  have "map (map_prod id jnorm) (sort_key fst kvs) = map (map_prod id jnorm) (sort_key fst kvs') \<and> r = s"
  proof (rule join_cancel [where enc = part_of and c = "CHR ''}''"])
    show "js_join '','' (map part_of (sort_key fst kvs)) @ CHR ''}'' # r =
        js_join '','' (map part_of (sort_key fst kvs')) @ CHR ''}'' # s"
      using JObj.prems(2,4,7) by (simp add: b text_of_JObj)
    show "map_prod id jnorm p = map_prod id jnorm q \<and> r = s"
      if "p \<in> set (sort_key fst kvs)" "q \<in> set (sort_key fst kvs')" "stops r" "stops s"
        "part_of p @ r = part_of q @ s" for p q r s
    proof (rule part_of_cancel [OF that(5)])
      assume "text_of (snd p) @ r = text_of (snd q) @ s"
      moreover from that have "p \<in> set kvs" "q \<in> set kvs'" by simp_all
      ultimately show "jnorm (snd p) = jnorm (snd q) \<and> r = s"
        using JObj.IH [of p "snd p" "snd q" r s] that(3,4) JObj.prems(1-4)
          json_items [of p kvs] json_items [of q kvs'] unfolding b
        by (cases p) simp
    qed
  qed (simp_all add: part_of_not_stop)
  with b show ?case by (simp add: sort_key_map_prod)
qed

lemma canonicalize_jnorm: "canonicalize (jnorm j) = canonicalize j"
proof (induction j)
  case (JArr xs)
  then have "map (canonicalize \<circ> jnorm) xs = map canonicalize xs" by simp
  then show ?case by (simp only: jnorm.simps canonicalize.simps map_map)
next
  case (JObj kvs)
  have "map_prod id canonicalize (map_prod id jnorm p) = map_prod id canonicalize p" if "p \<in> set kvs" for p
    using JObj.IH [OF that] by (cases p) simp
  then have eq: "map (map_prod id canonicalize) (map (map_prod id jnorm) kvs) =
      map (map_prod id canonicalize) kvs" by simp
  have "sort_key fst (map (map_prod id canonicalize) (sort_key fst (map (map_prod id jnorm) kvs))) =
    sort_key fst (sort_key fst (map (map_prod id canonicalize) (map (map_prod id jnorm) kvs)))"
    by (simp only: sort_key_map_prod)
  also have "\<dots> = sort_key fst (map (map_prod id canonicalize) kvs)"
    unfolding eq by (rule sort_key_id_if_sorted) (rule sorted_sort_key)
  finally show ?case by (simp only: jnorm.simps canonicalize.simps)
qed simp_all

lemma filter_key_single:
  "distinct (map fst xs) \<Longrightarrow> p \<in> set xs \<Longrightarrow> filter (\<lambda>x. fst p = fst x) xs = [p]"
proof (induction xs)
  case (Cons y ys)
  show ?case
  proof (cases "p = y")
    case True
    with Cons.prems have "filter (\<lambda>x. fst p = fst x) ys = []"
      by (auto simp: filter_empty_conv image_iff)
    with True show ?thesis by simp
  next
    case False
    with Cons show ?thesis by (auto simp: image_iff)
  qed
qed simp

lemma sort_key_distinct:
  fixes xs ys :: "('k :: linorder \<times> 'v) list"
  assumes "distinct (map fst xs)" "mset xs = mset ys"
  shows "sort_key fst xs = sort_key fst ys"
proof (rule properties_for_sort_key)
  have d: "distinct (map fst ys)" "distinct (map fst (sort_key fst ys))"
    using assms mset_eq_imp_distinct_iff [of "map fst xs" "map fst ys"]
      mset_eq_imp_distinct_iff [of "map fst xs" "map fst (sort_key fst ys)"] by simp_all
  show "mset (sort_key fst ys) = mset xs" using assms by simp
  fix k assume "k \<in> set (sort_key fst ys)"
  moreover from this have "k \<in> set xs" using assms(2) by (metis set_mset_mset set_sort)
  ultimately show "filter (\<lambda>x. fst k = fst x) (sort_key fst ys) = filter (\<lambda>x. fst k = fst x) xs"
    by (simp add: filter_key_single [OF d(2)] filter_key_single [OF assms(1)] del: set_sort)
qed simp

section \<open>The bytes determine the text\<close>

lemma unat_byte: "i < 256 \<Longrightarrow> unat (of_nat i :: 8 word) = i"
  by (simp add: unat_of_nat)

definition utf8_code :: "bytes \<Rightarrow> nat" where
  "utf8_code bs =
     (if unat (hd bs) < 128 then unat (hd bs)
      else 64 * (unat (hd bs) - 192) + (unat (bs ! 1) - 128))"

lemma utf8_code_char: "utf8_code (utf8_char c @ x) = of_char c"
proof -
  define n where "n = (of_char c :: nat)"
  have "n < 256" by (simp add: n_def)
  then have "192 + n div 64 < 256" "128 + n mod 64 < 256" by auto
  then have "unat (of_nat (192 + n div 64) :: 8 word) = 192 + n div 64"
    "unat (of_nat (128 + n mod 64) :: 8 word) = 128 + n mod 64"
    by (simp_all only: unat_byte)
  then show ?thesis
    unfolding utf8_code_def utf8_char_def Let_def n_def [symmetric]
    by (simp add: unat_byte del: of_nat_add)
qed

lemma utf8_char_cancel: "utf8_char c @ x = utf8_char d @ y \<Longrightarrow> c = d \<and> x = y"
proof -
  assume eq: "utf8_char c @ x = utf8_char d @ y"
  then have "c = d" using utf8_code_char [of c x] utf8_code_char [of d y] by (simp add: of_char_inj)
  with eq show ?thesis by simp
qed

lemma utf8_char_not_Nil [simp]: "utf8_char c \<noteq> []"
  by (simp add: utf8_char_def Let_def)

lemma utf8_simps [simp]: "utf8 [] = []" "utf8 (c # s) = utf8_char c @ utf8 s"
  by (simp_all add: utf8_def)

lemma utf8_inj: "utf8 a = utf8 b \<Longrightarrow> a = b"
proof (induction a arbitrary: b)
  case Nil
  then show ?case by (cases b) auto
next
  case (Cons c a)
  then obtain d b' where b: "b = d # b'" by (cases b) auto
  with Cons.prems have "utf8_char c @ utf8 a = utf8_char d @ utf8 b'" by simp
  from utf8_char_cancel [OF this] Cons.IH b show ?case by simp
qed

lemma jcs_bytes_eq_iff:
  assumes "json_ok a" "json_ok b" "jcs_canonicalize_bytes a = Inr s"
  shows "jcs_canonicalize_bytes b = Inr s \<longleftrightarrow> jnorm a = jnorm b"
proof
  from assms(3) obtain t where a: "canonicalize a = Inr t" "s = utf8 t"
    by (auto simp: jcs_canonicalize_bytes_def jcs_canonicalize_def res_bind_Inr_iff)
  {
    assume "jcs_canonicalize_bytes b = Inr s"
    then obtain u where b: "canonicalize b = Inr u" "s = utf8 u"
      by (auto simp: jcs_canonicalize_bytes_def jcs_canonicalize_def res_bind_Inr_iff)
    with a utf8_inj have "t = u" by blast
    with a b assms text_of_cancel [of a b "[]" "[]"] show "jnorm a = jnorm b"
      by (simp add: canonicalize_ok_iff [symmetric] text_of_def stops_def)
  }
  assume "jnorm a = jnorm b"
  then have "canonicalize a = canonicalize b" by (metis canonicalize_jnorm)
  with a show "jcs_canonicalize_bytes b = Inr s"
    by (simp add: jcs_canonicalize_bytes_def jcs_canonicalize_def)
qed

section \<open>Properties\<close>

text \<open>The canonical form of an object does not depend on the order in which its
  properties were inserted, so a signature survives any reordering in transit.\<close>

theorem canonicalize_key_order:
  assumes "distinct (map fst kvs)" "mset kvs = mset kvs'"
  shows "jcs_canonicalize (JObj kvs) = jcs_canonicalize (JObj kvs')"
proof -
  have "sort_key fst (map (map_prod id canonicalize) kvs) = sort_key fst (map (map_prod id canonicalize) kvs')"
    using assms by (intro sort_key_distinct) (simp_all add: comp_def)
  then show ?thesis by (simp add: jcs_canonicalize_def)
qed

theorem canonicalize_key_order_witness:
  "jcs_canonicalize (JObj [(''b'', JNull), (''a'', JBool True)]) =
   jcs_canonicalize (JObj [(''a'', JBool True), (''b'', JNull)])"
  by (rule canonicalize_key_order) simp_all

text \<open>C6: Two values have the same canonical bytes exactly when they are the same JSON
  value up to property order: the bytes under a signature identify the signed value.\<close>

theorem jcs_bytes_inj:
  assumes "json_ok a" "json_ok b" "jcs_canonicalize_bytes a = Inr s"
  shows "jcs_canonicalize_bytes b = Inr s \<longleftrightarrow> jnorm a = jnorm b"
  using assms by (rule jcs_bytes_eq_iff)

theorem jcs_bytes_inj_witness:
  "\<exists>s. jcs_canonicalize_bytes (JObj [(''b'', JNull), (''a'', JNull)]) = Inr s \<and>
     (jcs_canonicalize_bytes (JObj [(''a'', JNull), (''b'', JNull)]) = Inr s \<longleftrightarrow>
      jnorm (JObj [(''b'', JNull), (''a'', JNull)]) = jnorm (JObj [(''a'', JNull), (''b'', JNull)]))"
proof -
  let ?a = "JObj [(''b'', JNull), (''a'', JNull)]"
  let ?b = "JObj [(''a'', JNull), (''b'', JNull)]"
  have "jcs_canonicalize_bytes ?a = Inr (utf8 (text_of ?a))"
    by (simp add: jcs_canonicalize_bytes_def jcs_canonicalize_def canonicalize_finite del: canonicalize.simps)
  then show ?thesis using jcs_bytes_inj [of ?a ?b] by (auto simp del: jnorm.simps)
qed

end
