(* ===== verification/Crypto.thy ===== *)
theory Crypto
  imports Jcs
begin

unbundle bit_operations_syntax

text \<open>
  \<^verbatim>\<open>crypto/cryptoProvider.ts\<close> (the base64url codec, principals, key ids and the one seam
  that resolves a signing key) and \<^verbatim>\<open>crypto/sha256.ts\<close>.  The bit operations of the sources
  act on 32-bit words here as there; a thrown error is an \<open>Inl\<close>.
\<close>

section \<open>base64url\<close>

definition b64url_alphabet :: string where
  "b64url_alphabet = ''ABCDEFGHIJKLMNOPQRSTUVWXYZabcdefghijklmnopqrstuvwxyz0123456789-_''"

definition b64_digit :: "32 word \<Rightarrow> char" where
  "b64_digit w = b64url_alphabet ! unat (w AND 63)"

definition u32 :: "8 word \<Rightarrow> 32 word" where
  "u32 b = ucast b"

fun bytes_to_base64url :: "bytes \<Rightarrow> string" where
  "bytes_to_base64url (b0 # b1 # b2 # bs) =
     (let n = push_bit 16 (u32 b0) OR push_bit 8 (u32 b1) OR u32 b2 in
      [b64_digit (drop_bit 18 n), b64_digit (drop_bit 12 n), b64_digit (drop_bit 6 n), b64_digit n]
        @ bytes_to_base64url bs)"
| "bytes_to_base64url [b0, b1] =
     (let n = push_bit 16 (u32 b0) OR push_bit 8 (u32 b1) in
      [b64_digit (drop_bit 18 n), b64_digit (drop_bit 12 n), b64_digit (drop_bit 6 n)])"
| "bytes_to_base64url [b0] =
     (let n = push_bit 16 (u32 b0) in
      [b64_digit (drop_bit 18 n), b64_digit (drop_bit 12 n)])"
| "bytes_to_base64url [] = []"

text \<open>\<^verbatim>\<open>_lookup\<close>: the value of one character, or an error naming its position.\<close>

definition b64_lookup :: "nat \<Rightarrow> char \<Rightarrow> 32 word res" where
  "b64_lookup i c = (case index_of c b64url_alphabet of
     Some v \<Rightarrow> Inr (of_nat v)
   | None \<Rightarrow> Inl (JsError (''base64UrlToBytes: invalid char at '' @ show_nat i)))"

definition byte_at :: "nat \<Rightarrow> 32 word \<Rightarrow> 8 word" where
  "byte_at k n = ucast (drop_bit k n AND 0xff)"

fun base64url_groups :: "nat \<Rightarrow> string \<Rightarrow> bytes res" where
  "base64url_groups i (c0 # c1 # c2 # c3 # s) =
     res_bind (b64_lookup i c0) (\<lambda>v0.
     res_bind (b64_lookup (i + 1) c1) (\<lambda>v1.
     res_bind (b64_lookup (i + 2) c2) (\<lambda>v2.
     res_bind (b64_lookup (i + 3) c3) (\<lambda>v3.
       let n = push_bit 18 v0 OR push_bit 12 v1 OR push_bit 6 v2 OR v3 in
       res_bind (base64url_groups (i + 4) s) (\<lambda>bs.
         Inr (byte_at 16 n # byte_at 8 n # byte_at 0 n # bs))))))"
| "base64url_groups i [c0, c1, c2] =
     res_bind (b64_lookup i c0) (\<lambda>v0.
     res_bind (b64_lookup (i + 1) c1) (\<lambda>v1.
     res_bind (b64_lookup (i + 2) c2) (\<lambda>v2.
       let n = push_bit 18 v0 OR push_bit 12 v1 OR push_bit 6 v2 in
       Inr [byte_at 16 n, byte_at 8 n])))"
| "base64url_groups i [c0, c1] =
     res_bind (b64_lookup i c0) (\<lambda>v0.
     res_bind (b64_lookup (i + 1) c1) (\<lambda>v1.
       let n = push_bit 18 v0 OR push_bit 12 v1 in
       Inr [byte_at 16 n]))"
| "base64url_groups i [c0] = Inl (JsError ''base64UrlToBytes: invalid length'')"
| "base64url_groups i [] = Inr []"

text \<open>The length is checked before any character is looked at.\<close>

definition base64url_to_bytes :: "string \<Rightarrow> bytes res" where
  "base64url_to_bytes s =
     (if length s mod 4 = 1 then Inl (JsError ''base64UrlToBytes: invalid length'')
      else base64url_groups 0 s)"

lemma and_63: "(w :: 32 word) AND 63 = take_bit 6 w"
  by (simp add: take_bit_eq_mask mask_eq_exp_minus_1)

lemma and_255: "(w :: 32 word) AND 0xff = take_bit 8 w"
  by (simp add: take_bit_eq_mask mask_eq_exp_minus_1)

lemma alphabet_index: "i < 64 \<Longrightarrow> index_of (b64url_alphabet ! i) b64url_alphabet = Some i"
proof -
  have "list_all (\<lambda>i. index_of (b64url_alphabet ! i) b64url_alphabet = Some i) [0..<64]"
    by code_simp
  then show "i < 64 \<Longrightarrow> ?thesis" by (simp add: list_all_iff)
qed

lemma unat_take_bit_6: "unat (take_bit 6 (w :: 32 word)) < 64"
proof -
  have "unat w AND 63 = take_bit 6 (unat w)" by (simp add: take_bit_eq_mask mask_eq_exp_minus_1)
  then show ?thesis
    using take_bit_nat_less_exp [of 6 "unat w"] by (simp add: and_63 [symmetric] unsigned_and_eq)
qed

lemma b64_lookup_digit [simp]: "b64_lookup i (b64_digit w) = Inr (take_bit 6 w)"
  using alphabet_index [OF unat_take_bit_6, of w]
  by (simp add: b64_lookup_def b64_digit_def and_63)

lemma bit_u32: "bit (u32 b) k \<longleftrightarrow> bit b k"
  by (auto simp: u32_def bit_simps dest: bit_imp_le_length)

lemma byte_at_bit: "bit (byte_at k n) j \<longleftrightarrow> j < 8 \<and> bit n (k + j)"
  by (auto simp: byte_at_def and_255 bit_simps)

lemmas b64_bits = byte_at_bit bit_u32 bit_simps

lemma not_bit_high [simp]: "8 \<le> k \<Longrightarrow> \<not> bit (b :: 8 word) k"
  by (auto dest: bit_imp_le_length)

text \<open>Four six-bit groups put together again give the 24 bits they were cut from.\<close>

lemma b64_regroup:
  fixes n :: "32 word"
  shows "j < 24 \<Longrightarrow> bit (push_bit 18 (take_bit 6 (drop_bit 18 n)) OR push_bit 12 (take_bit 6 (drop_bit 12 n))
      OR push_bit 6 (take_bit 6 (drop_bit 6 n)) OR take_bit 6 n) j \<longleftrightarrow> bit n j"
    "6 \<le> j \<Longrightarrow> j < 24 \<Longrightarrow> bit (push_bit 18 (take_bit 6 (drop_bit 18 n)) OR
      push_bit 12 (take_bit 6 (drop_bit 12 n)) OR push_bit 6 (take_bit 6 (drop_bit 6 n))) j \<longleftrightarrow> bit n j"
    "12 \<le> j \<Longrightarrow> j < 24 \<Longrightarrow> bit (push_bit 18 (take_bit 6 (drop_bit 18 n)) OR
      push_bit 12 (take_bit 6 (drop_bit 12 n))) j \<longleftrightarrow> bit n j"
  by (cases "j < 6"; cases "j < 12"; cases "j < 18"; force simp: bit_simps not_less)+

lemma byte_at_parts:
  "byte_at 16 (push_bit 16 (u32 b0) OR push_bit 8 (u32 b1) OR u32 b2) = b0"
  "byte_at 8 (push_bit 16 (u32 b0) OR push_bit 8 (u32 b1) OR u32 b2) = b1"
  "byte_at 0 (push_bit 16 (u32 b0) OR push_bit 8 (u32 b1) OR u32 b2) = b2"
  "byte_at 16 (push_bit 16 (u32 b0) OR push_bit 8 (u32 b1)) = b0"
  "byte_at 8 (push_bit 16 (u32 b0) OR push_bit 8 (u32 b1)) = b1"
  "byte_at 16 (push_bit 16 (u32 b0)) = b0"
  by (rule bit_word_eqI, simp add: b64_bits)+

lemma byte_at_cong: "(\<And>j. k \<le> j \<Longrightarrow> j < k + 8 \<Longrightarrow> bit m j \<longleftrightarrow> bit n j) \<Longrightarrow> byte_at k m = byte_at k n"
  by (rule bit_word_eqI) (auto simp: byte_at_bit)

lemma byte_at_regroup:
  fixes n :: "32 word"
  shows "k \<le> 16 \<Longrightarrow> byte_at k (push_bit 18 (take_bit 6 (drop_bit 18 n)) OR
      push_bit 12 (take_bit 6 (drop_bit 12 n)) OR push_bit 6 (take_bit 6 (drop_bit 6 n)) OR take_bit 6 n) = byte_at k n"
    "6 \<le> k \<Longrightarrow> k \<le> 16 \<Longrightarrow> byte_at k (push_bit 18 (take_bit 6 (drop_bit 18 n)) OR
      push_bit 12 (take_bit 6 (drop_bit 12 n)) OR push_bit 6 (take_bit 6 (drop_bit 6 n))) = byte_at k n"
    "12 \<le> k \<Longrightarrow> k \<le> 16 \<Longrightarrow> byte_at k (push_bit 18 (take_bit 6 (drop_bit 18 n)) OR
      push_bit 12 (take_bit 6 (drop_bit 12 n))) = byte_at k n"
  by (rule byte_at_cong, rule b64_regroup; linarith)+

lemma base64url_groups_encode: "base64url_groups i (bytes_to_base64url bs) = Inr bs"
  by (induction bs arbitrary: i rule: bytes_to_base64url.induct)
    (simp_all add: Let_def byte_at_regroup byte_at_parts del: push_bit_or drop_bit_or take_bit_or)

lemma length_base64url [simp]: "length (bytes_to_base64url bs) mod 4 \<noteq> Suc 0"
  by (induction bs rule: bytes_to_base64url.induct) (simp_all add: Let_def)

lemma base64url_decode_encode [simp]: "base64url_to_bytes (bytes_to_base64url bs) = Inr bs"
  by (simp add: base64url_to_bytes_def base64url_groups_encode)

lemma bytes_to_base64url_inj: "bytes_to_base64url a = bytes_to_base64url b \<Longrightarrow> a = b"
  by (metis base64url_groups_encode Inr_inject)

section \<open>Principals and key ids\<close>

definition KEY_ID_PREFIX :: string where "KEY_ID_PREFIX = ''key:''"
definition PRINCIPAL_PREFIX :: string where "PRINCIPAL_PREFIX = ''id:''"

definition key_id_for_public_key :: "bytes \<Rightarrow> string" where
  "key_id_for_public_key pk = KEY_ID_PREFIX @ bytes_to_base64url pk"

definition principal_for_public_key :: "bytes \<Rightarrow> string" where
  "principal_for_public_key pk = PRINCIPAL_PREFIX @ key_id_for_public_key pk"

definition key_id_for_principal :: "string \<Rightarrow> string res" where
  "key_id_for_principal prin =
     (if \<not> starts_with prin PRINCIPAL_PREFIX then
        Inl (JsError (''malformed principal (missing \"'' @ PRINCIPAL_PREFIX @ ''\" prefix): '' @ prin))
      else Inr (drop (length PRINCIPAL_PREFIX) prin))"

definition public_key_for_key_id :: "string \<Rightarrow> bytes res" where
  "public_key_for_key_id keyId =
     (if \<not> starts_with keyId KEY_ID_PREFIX then
        Inl (JsError (''unsupported keyId (expected \"'' @ KEY_ID_PREFIX @ ''\" prefix): '' @ keyId))
      else base64url_to_bytes (drop (length KEY_ID_PREFIX) keyId))"

text \<open>\<^verbatim>\<open>undefined\<close> is \<open>None\<close>: the verifier rejects.\<close>

definition resolve_signing_key :: "string \<Rightarrow> string \<Rightarrow> bytes option" where
  "resolve_signing_key prin keyId =
     (if \<not> starts_with keyId KEY_ID_PREFIX then None
      else if PRINCIPAL_PREFIX @ keyId \<noteq> prin then None
      else case base64url_to_bytes (drop (length KEY_ID_PREFIX) keyId) of
        Inr pk \<Rightarrow> Some pk
      | Inl _ \<Rightarrow> None)"

section \<open>SHA-256\<close>

text \<open>The constants of the source, each written by its upper and lower 16 bits.\<close>

definition halves :: "32 word \<Rightarrow> 32 word \<Rightarrow> 32 word" where
  "halves hi lo = push_bit 16 hi OR lo"

definition sha_K :: "32 word list" where
  "sha_K = [
    halves 0x428a 0x2f98, halves 0x7137 0x4491, halves 0xb5c0 0xfbcf, halves 0xe9b5 0xdba5,
    halves 0x3956 0xc25b, halves 0x59f1 0x11f1, halves 0x923f 0x82a4, halves 0xab1c 0x5ed5,
    halves 0xd807 0xaa98, halves 0x1283 0x5b01, halves 0x2431 0x85be, halves 0x550c 0x7dc3,
    halves 0x72be 0x5d74, halves 0x80de 0xb1fe, halves 0x9bdc 0x06a7, halves 0xc19b 0xf174,
    halves 0xe49b 0x69c1, halves 0xefbe 0x4786, halves 0x0fc1 0x9dc6, halves 0x240c 0xa1cc,
    halves 0x2de9 0x2c6f, halves 0x4a74 0x84aa, halves 0x5cb0 0xa9dc, halves 0x76f9 0x88da,
    halves 0x983e 0x5152, halves 0xa831 0xc66d, halves 0xb003 0x27c8, halves 0xbf59 0x7fc7,
    halves 0xc6e0 0x0bf3, halves 0xd5a7 0x9147, halves 0x06ca 0x6351, halves 0x1429 0x2967,
    halves 0x27b7 0x0a85, halves 0x2e1b 0x2138, halves 0x4d2c 0x6dfc, halves 0x5338 0x0d13,
    halves 0x650a 0x7354, halves 0x766a 0x0abb, halves 0x81c2 0xc92e, halves 0x9272 0x2c85,
    halves 0xa2bf 0xe8a1, halves 0xa81a 0x664b, halves 0xc24b 0x8b70, halves 0xc76c 0x51a3,
    halves 0xd192 0xe819, halves 0xd699 0x0624, halves 0xf40e 0x3585, halves 0x106a 0xa070,
    halves 0x19a4 0xc116, halves 0x1e37 0x6c08, halves 0x2748 0x774c, halves 0x34b0 0xbcb5,
    halves 0x391c 0x0cb3, halves 0x4ed8 0xaa4a, halves 0x5b9c 0xca4f, halves 0x682e 0x6ff3,
    halves 0x748f 0x82ee, halves 0x78a5 0x636f, halves 0x84c8 0x7814, halves 0x8cc7 0x0208,
    halves 0x90be 0xfffa, halves 0xa450 0x6ceb, halves 0xbef9 0xa3f7, halves 0xc671 0x78f2]"

definition sha_H0 :: "32 word list" where
  "sha_H0 = [
    halves 0x6a09 0xe667, halves 0xbb67 0xae85, halves 0x3c6e 0xf372, halves 0xa54f 0xf53a,
    halves 0x510e 0x527f, halves 0x9b05 0x688c, halves 0x1f83 0xd9ab, halves 0x5be0 0xcd19]"

definition rotr :: "32 word \<Rightarrow> nat \<Rightarrow> 32 word" where
  "rotr x n = drop_bit n x OR push_bit (32 - n) x"

text \<open>\<^verbatim>\<open>setUint32\<close> and \<^verbatim>\<open>getUint32\<close>, big-endian.\<close>

definition put_u32 :: "32 word \<Rightarrow> bytes" where
  "put_u32 w = [byte_at 24 w, byte_at 16 w, byte_at 8 w, byte_at 0 w]"

definition get_u32 :: "bytes \<Rightarrow> nat \<Rightarrow> 32 word" where
  "get_u32 view i = push_bit 24 (u32 (view ! i)) OR push_bit 16 (u32 (view ! (i + 1)))
     OR push_bit 8 (u32 (view ! (i + 2))) OR u32 (view ! (i + 3))"

text \<open>The padded input: the marker byte, zeros, and the length in bits in the last eight
  bytes of a multiple of 64.\<close>

definition padded_len :: "nat \<Rightarrow> nat" where
  "padded_len inputLen = (inputLen + 9 + 63) div 64 * 64"

definition sha_pad :: "bytes \<Rightarrow> bytes" where
  "sha_pad data =
     (let inputLen = length data; bitLen = inputLen * 8 in
      data @ [0x80] @ replicate (padded_len inputLen - inputLen - 9) 0
        @ put_u32 (of_nat (bitLen div 0x100000000)) @ put_u32 (of_nat bitLen))"

text \<open>The message schedule: \<^verbatim>\<open>W[t]\<close> for \<open>t\<close> from 16 to 63.\<close>

definition sha_extend :: "32 word list \<Rightarrow> nat \<Rightarrow> 32 word list" where
  "sha_extend W t =
     (let w15 = W ! (t - 15); w2 = W ! (t - 2);
          s0 = rotr w15 7 XOR rotr w15 18 XOR drop_bit 3 w15;
          s1 = rotr w2 17 XOR rotr w2 19 XOR drop_bit 10 w2 in
      W @ [W ! (t - 16) + s0 + W ! (t - 7) + s1])"

definition sha_schedule :: "bytes \<Rightarrow> nat \<Rightarrow> 32 word list" where
  "sha_schedule view block =
     foldl sha_extend (map (\<lambda>t. get_u32 view (block + t * 4)) [0..<16]) [16..<64]"

record sha_vars =
  sv_a :: "32 word" sv_b :: "32 word" sv_c :: "32 word" sv_d :: "32 word"
  sv_e :: "32 word" sv_f :: "32 word" sv_g :: "32 word" sv_h :: "32 word"

definition sha_round :: "32 word list \<Rightarrow> sha_vars \<Rightarrow> nat \<Rightarrow> sha_vars" where
  "sha_round W v t =
     (let S1 = rotr (sv_e v) 6 XOR rotr (sv_e v) 11 XOR rotr (sv_e v) 25;
          ch = (sv_e v AND sv_f v) XOR (NOT (sv_e v) AND sv_g v);
          temp1 = sv_h v + S1 + ch + sha_K ! t + W ! t;
          S0 = rotr (sv_a v) 2 XOR rotr (sv_a v) 13 XOR rotr (sv_a v) 22;
          mj = (sv_a v AND sv_b v) XOR (sv_a v AND sv_c v) XOR (sv_b v AND sv_c v);
          temp2 = S0 + mj in
      \<lparr>sv_a = temp1 + temp2, sv_b = sv_a v, sv_c = sv_b v, sv_d = sv_c v,
       sv_e = sv_d v + temp1, sv_f = sv_e v, sv_g = sv_f v, sv_h = sv_g v\<rparr>)"

definition sha_block :: "bytes \<Rightarrow> 32 word list \<Rightarrow> nat \<Rightarrow> 32 word list" where
  "sha_block view H block =
     (let W = sha_schedule view block;
          v0 = \<lparr>sv_a = H ! 0, sv_b = H ! 1, sv_c = H ! 2, sv_d = H ! 3,
                sv_e = H ! 4, sv_f = H ! 5, sv_g = H ! 6, sv_h = H ! 7\<rparr>;
          v = foldl (sha_round W) v0 [0..<64] in
      [H ! 0 + sv_a v, H ! 1 + sv_b v, H ! 2 + sv_c v, H ! 3 + sv_d v,
       H ! 4 + sv_e v, H ! 5 + sv_f v, H ! 6 + sv_g v, H ! 7 + sv_h v])"

definition sha256 :: "bytes \<Rightarrow> bytes" where
  "sha256 data =
     (let view = sha_pad data;
          H = foldl (sha_block view) sha_H0 (map (\<lambda>i. i * 64) [0..<padded_len (length data) div 64]) in
      concat (map put_u32 H))"

section \<open>Shapes\<close>

lemma length_put_u32 [simp]: "length (put_u32 w) = 4"
  by (simp add: put_u32_def)

lemma padded_len_bounds:
  "n + 9 \<le> padded_len n" "padded_len n \<le> n + 72" "64 dvd padded_len n"
proof -
  have "(n + 72) div 64 * 64 + (n + 72) mod 64 = n + 72" by (rule div_mult_mod_eq)
  moreover have "(n + 72) mod 64 < 64" by simp
  ultimately show "n + 9 \<le> padded_len n" "padded_len n \<le> n + 72"
    by (simp_all add: padded_len_def)
qed (simp add: padded_len_def)

lemma length_sha_pad [simp]: "length (sha_pad data) = padded_len (length data)"
  using padded_len_bounds(1) [of "length data"] by (simp add: sha_pad_def Let_def)

lemma length_sha_extend: "length (foldl sha_extend W ts) = length W + length ts"
  by (induction ts arbitrary: W) (simp_all add: sha_extend_def Let_def)

lemma length_sha_schedule: "length (sha_schedule view block) = 64"
  unfolding sha_schedule_def length_sha_extend length_map length_upt by simp

lemma length_sha_blocks: "length H = 8 \<Longrightarrow> length (foldl (sha_block view) H bs) = 8"
  by (induction bs arbitrary: H) (simp_all add: sha_block_def Let_def)

lemma length_sha256: "length (sha256 data) = 32"
proof -
  have "length (concat (map put_u32 H)) = 4 * length H" for H
    by (induction H) simp_all
  then show ?thesis
    by (simp add: sha256_def Let_def length_sha_blocks sha_H0_def)
qed

text \<open>The four bytes of a word determine it.\<close>

lemma put_u32_inj: "put_u32 w = put_u32 v \<longleftrightarrow> w = v"
proof
  assume "put_u32 w = put_u32 v"
  then have eq: "byte_at 24 w = byte_at 24 v" "byte_at 16 w = byte_at 16 v"
    "byte_at 8 w = byte_at 8 v" "byte_at 0 w = byte_at 0 v"
    by (simp_all add: put_u32_def)
  have part: "bit w (k + j) = bit v (k + j)" if "byte_at k w = byte_at k v" "j < 8" for k j
    using that byte_at_bit [of k w j] byte_at_bit [of k v j] by simp
  show "w = v"
  proof (rule bit_word_eqI)
    fix n assume n: "n < LENGTH(32)"
    consider "n < 8" | "8 \<le> n" "n < 16" | "16 \<le> n" "n < 24" | "24 \<le> n" "n < 32"
      using n by fastforce
    then show "bit w n = bit v n"
    proof cases
      case 1
      with part [OF eq(4), of n] show ?thesis by simp
    next
      case 2
      with part [OF eq(3), of "n - 8"] show ?thesis by simp
    next
      case 3
      with part [OF eq(2), of "n - 16"] show ?thesis by simp
    next
      case 4
      with part [OF eq(1), of "n - 24"] show ?thesis by simp
    qed
  qed
qed simp

lemma of_nat_word32_eq:
  "(of_nat a :: 32 word) = of_nat b \<longleftrightarrow> a mod 0x100000000 = b mod 0x100000000"
  by (simp add: word_of_nat_eq_iff take_bit_eq_mod)

lemma sha_pad_length_inj:
  assumes "sha_pad a = sha_pad b" "length a < 0x2000000000000000" "length b < 0x2000000000000000"
  shows "length a = length b"
proof -
  have last8: "drop (length (sha_pad x) - 8) (sha_pad x) =
      put_u32 (of_nat (length x * 8 div 0x100000000)) @ put_u32 (of_nat (length x * 8))" for x
  proof -
    have "length (sha_pad x) - 8 = length (x @ [0x80] @ replicate (padded_len (length x) - length x - 9) 0)"
      using padded_len_bounds(1) [of "length x"] by simp
    then show ?thesis by (simp add: sha_pad_def Let_def del: of_nat_mult)
  qed
  from assms(1) have
    "put_u32 (of_nat (length a * 8 div 0x100000000)) @ put_u32 (of_nat (length a * 8)) =
     put_u32 (of_nat (length b * 8 div 0x100000000)) @ put_u32 (of_nat (length b * 8))"
    using last8 by metis
  then have "(of_nat (length a * 8 div 0x100000000) :: 32 word) = of_nat (length b * 8 div 0x100000000)"
    "(of_nat (length a * 8) :: 32 word) = of_nat (length b * 8)"
    by (simp_all add: put_u32_inj del: of_nat_mult)
  then have "length a * 8 div 0x100000000 mod 0x100000000 = length b * 8 div 0x100000000 mod 0x100000000"
    "length a * 8 mod 0x100000000 = length b * 8 mod 0x100000000"
    by (simp_all only: of_nat_word32_eq)
  moreover have "length x * 8 div 0x100000000 < 0x100000000" if "length x < 0x2000000000000000" for x :: bytes
    using that by (simp add: less_mult_imp_div_less)
  ultimately have "length a * 8 div 0x100000000 = length b * 8 div 0x100000000"
    "length a * 8 mod 0x100000000 = length b * 8 mod 0x100000000"
    using assms(2,3) by simp_all
  then have "length a * 8 = length b * 8" by (metis div_mult_mod_eq)
  then show ?thesis by simp
qed

section \<open>Properties\<close>

text \<open>Decoding the base64url text of any byte string gives the bytes back.\<close>

theorem base64url_roundtrip: "base64url_to_bytes (bytes_to_base64url bs) = Inr bs"
  by simp

lemma resolve_for_public_key:
  "resolve_signing_key (principal_for_public_key pk) (key_id_for_public_key pk) = Some pk"
  by (simp add: resolve_signing_key_def principal_for_public_key_def key_id_for_public_key_def
      base64url_decode_encode)

lemma resolve_signing_key_Some:
  "resolve_signing_key prin keyId = Some pk \<longleftrightarrow>
     starts_with keyId KEY_ID_PREFIX \<and> prin = PRINCIPAL_PREFIX @ keyId \<and>
     base64url_to_bytes (drop (length KEY_ID_PREFIX) keyId) = Inr pk"
  by (auto simp: resolve_signing_key_def split: sum.splits)

text \<open>Genesis self-certification.  A key id speaks for a principal exactly when it is the key
  embedded in the principal's name: the resolver accepts no other pair, so the key bytes are a
  function of the name, and the name built from a public key resolves to that key.\<close>

theorem resolve_signing_key_genesis:
  "(resolve_signing_key prin keyId = Some pk) \<longleftrightarrow>
     key_id_for_principal prin = Inr keyId \<and> public_key_for_key_id keyId = Inr pk"
proof -
  have "prin = PRINCIPAL_PREFIX @ keyId \<longleftrightarrow>
      starts_with prin PRINCIPAL_PREFIX \<and> drop (length PRINCIPAL_PREFIX) prin = keyId"
    by (auto simp: starts_with_def prefix_def)
  then show ?thesis
    by (auto simp: resolve_signing_key_Some key_id_for_principal_def public_key_for_key_id_def)
qed

text \<open>The padding of SHA-256 is injective below 2^61 bytes: no two inputs are hashed as the
  same sequence of blocks.\<close>

theorem sha_pad_inj:
  assumes "sha_pad a = sha_pad b" "length a < 0x2000000000000000" "length b < 0x2000000000000000"
  shows "a = b"
proof -
  have "take (length x) (sha_pad x) = x" for x by (simp add: sha_pad_def Let_def)
  with assms sha_pad_length_inj [OF assms] show ?thesis by metis
qed

theorem sha_pad_inj_witness: "sha_pad [0] = sha_pad [0] \<and> ([0 :: 8 word] = [0])"
  using sha_pad_inj [of "[0]" "[0]"] by simp

text \<open>A principal is not a unique name of its key: the decoder ignores the unused low bits of the
  last character, so different genesis principals resolve to the same key bytes.\<close>

theorem principal_alias:
  "''id:key:AA'' \<noteq> ''id:key:AB'' \<and>
   resolve_signing_key ''id:key:AA'' ''key:AA'' = resolve_signing_key ''id:key:AB'' ''key:AB'' \<and>
   resolve_signing_key ''id:key:AB'' ''key:AB'' = Some [0]"
  by code_simp

end
