(* ===== verification/SignedObject.thy ===== *)
theory SignedObject
  imports Crypto
begin

text \<open>
  The signed-object standard of \<^verbatim>\<open>protocol/signedObject.ts\<close> (the bytes a signature covers, the
  signature map on an object) and \<^verbatim>\<open>identity/signedObject.ts\<close> (signing and verifying).  The
  Ed25519 primitives of the Web Crypto API are parameters: \<open>verify key message signature\<close>,
  and the \<open>sign\<close> of a signing identity.  The lemmas show domain separation, that the two
  reserved keys never enter the signed bytes, and that what an identity signs verifies.
\<close>

section \<open>Object spread\<close>

text \<open>\<^verbatim>\<open>{ ...value }\<close>: the own properties; arrays and strings spread by index, the other
  primitives to nothing.\<close>

definition spread :: "json option \<Rightarrow> (string \<times> json) list" where
  "spread v = (case v of
     Some (JObj kvs) \<Rightarrow> kvs
   | Some (JArr xs) \<Rightarrow> zip (map show_nat [0..<length xs]) xs
   | Some (JStr s) \<Rightarrow> zip (map show_nat [0..<length s]) (map (\<lambda>c. JStr [c]) s)
   | _ \<Rightarrow> [])"

lemma spread_simps [simp]: "spread (Some (JObj kvs)) = kvs" "spread None = []"
  by (simp_all add: spread_def)

section \<open>The bytes under a signature\<close>

definition HUBRPC_SIGNATURE_KEY :: string where "HUBRPC_SIGNATURE_KEY = ''$hubrpcSignature''"
definition HUBRPC_UNSIGNED_KEY :: string where "HUBRPC_UNSIGNED_KEY = ''$hubrpcUnsigned''"
definition HUBRPC_META_KEY :: string where "HUBRPC_META_KEY = ''$hubrpc''"

lemmas hubrpc_keys = HUBRPC_SIGNATURE_KEY_def HUBRPC_UNSIGNED_KEY_def HUBRPC_META_KEY_def

definition signing_domain_value :: "string \<Rightarrow> string" where
  "signing_domain_value domain = ''hubrpc-sig/v1/'' @ domain"

definition signed_part :: "json \<Rightarrow> (string \<times> json) list" where
  "signed_part obj = jm_delete (jm_delete (spread (Some obj)) HUBRPC_SIGNATURE_KEY) HUBRPC_UNSIGNED_KEY"

definition signing_input :: "string \<Rightarrow> json \<Rightarrow> bytes res" where
  "signing_input domain obj =
     jcs_canonicalize_bytes (JObj [(signing_domain_value domain, JObj (signed_part obj))])"

definition signed_hash :: "string \<Rightarrow> json \<Rightarrow> string res" where
  "signed_hash domain obj =
     res_bind (signing_input domain obj) (\<lambda>bs. Inr (bytes_to_base64url (sha256 bs)))"

section \<open>The signature map\<close>

record signature_envelope =
  env_keyId :: string
  env_sig :: string

definition envelope_json :: "signature_envelope \<Rightarrow> json" where
  "envelope_json e = JObj [(''keyId'', JStr (env_keyId e)), (''sig'', JStr (env_sig e))]"

definition read_signature :: "json \<Rightarrow> string \<Rightarrow> signature_envelope option" where
  "read_signature obj domain = (case field HUBRPC_SIGNATURE_KEY obj of
     Some sigs \<Rightarrow> (case field domain sigs of
        Some entry \<Rightarrow> (case (field ''keyId'' entry, field ''sig'' entry) of
           (Some (JStr keyId), Some (JStr sig)) \<Rightarrow> Some \<lparr>env_keyId = keyId, env_sig = sig\<rparr>
         | _ \<Rightarrow> None)
      | None \<Rightarrow> None)
   | None \<Rightarrow> None)"

definition get_key_id :: "json \<Rightarrow> string \<Rightarrow> string option" where
  "get_key_id obj domain = map_option env_keyId (read_signature obj domain)"

definition with_signature :: "json \<Rightarrow> string \<Rightarrow> signature_envelope \<Rightarrow> json" where
  "with_signature obj domain envelope =
     (let prev = field HUBRPC_SIGNATURE_KEY obj in
      JObj (jm_set (spread (Some obj)) HUBRPC_SIGNATURE_KEY
        (JObj (jm_set (spread prev) domain (envelope_json envelope)))))"

section \<open>Signing and verifying\<close>

text \<open>A \<^verbatim>\<open>SigningIdentity\<close>: its principal and its signing primitive; the key id is derived
  from the principal.\<close>

record signing_identity =
  si_principal :: string
  si_sign :: "bytes \<Rightarrow> bytes"

definition si_keyId :: "signing_identity \<Rightarrow> string res" where
  "si_keyId idn = key_id_for_principal (si_principal idn)"

definition sign_object :: "string \<Rightarrow> json \<Rightarrow> signing_identity \<Rightarrow> json res" where
  "sign_object domain obj idn =
     res_bind (signing_input domain obj) (\<lambda>input.
     res_bind (si_keyId idn) (\<lambda>keyId.
       Inr (with_signature obj domain
         \<lparr>env_keyId = keyId, env_sig = bytes_to_base64url (si_sign idn input)\<rparr>)))"

type_synonym verifier = "bytes \<Rightarrow> bytes \<Rightarrow> bytes \<Rightarrow> bool"

definition verify_object :: "verifier \<Rightarrow> string \<Rightarrow> json \<Rightarrow> bytes \<Rightarrow> bool res" where
  "verify_object verify domain obj signerKey = (case read_signature obj domain of
     None \<Rightarrow> Inr False
   | Some env \<Rightarrow> (case base64url_to_bytes (env_sig env) of
        Inl _ \<Rightarrow> Inr False
      | Inr sigBytes \<Rightarrow>
          res_bind (signing_input domain obj) (\<lambda>input. Inr (verify signerKey input sigBytes))))"

definition verify_object_by_principal :: "verifier \<Rightarrow> string \<Rightarrow> json \<Rightarrow> string \<Rightarrow> bool res" where
  "verify_object_by_principal verify domain obj prin = (case read_signature obj domain of
     None \<Rightarrow> Inr False
   | Some env \<Rightarrow> (case resolve_signing_key prin (env_keyId env) of
        None \<Rightarrow> Inr False
      | Some pk \<Rightarrow> verify_object verify domain obj pk))"

text \<open>The identity holds the private half of \<open>pk\<close>: what it signs verifies under \<open>pk\<close> (the
  correctness of the signature scheme), and its name is the one built from \<open>pk\<close>.\<close>

definition holds_key :: "verifier \<Rightarrow> signing_identity \<Rightarrow> bytes \<Rightarrow> bool" where
  "holds_key verify idn pk \<longleftrightarrow>
     si_principal idn = principal_for_public_key pk \<and> (\<forall>m. verify pk m (si_sign idn m))"

section \<open>Lemmas\<close>

lemma jm_delete_set [js_map_simps]: "jm_delete (jm_set m k v) k = jm_delete m k"
  by (induction m k v rule: jm_set.induct) (auto simp: jm_delete_def)

lemma jm_delete_set_other [js_map_simps]:
  "k \<noteq> k' \<Longrightarrow> jm_delete (jm_set m k v) k' = jm_set (jm_delete m k') k v"
  by (induction m k v rule: jm_set.induct) (auto simp: jm_delete_def)

lemma map_of_jm_set [simp, js_map_simps]: "map_of (jm_set m k v) k' = (if k' = k then Some v else map_of m k')"
  using jm_get_set [of m k v k'] by (simp add: jm_get_def)

lemma jm_delete_commute: "jm_delete (jm_delete m a) b = jm_delete (jm_delete m b) a"
  by (induction m) (auto simp: jm_delete_def)

lemma map_of_jm_delete [simp, js_map_simps]:
  "map_of (jm_delete m k) k' = (if k' = k then None else map_of m k')"
  using jm_get_delete [of m k k'] by (simp add: jm_get_def)

lemma signed_part_JObj [simp]:
  "signed_part (JObj kvs) = jm_delete (jm_delete kvs HUBRPC_SIGNATURE_KEY) HUBRPC_UNSIGNED_KEY"
  by (simp add: signed_part_def)

text \<open>Neither reserved key can be seen in the signed bytes.\<close>

lemma signing_input_set_reserved:
  assumes "k = HUBRPC_SIGNATURE_KEY \<or> k = HUBRPC_UNSIGNED_KEY"
  shows "signing_input d (JObj (jm_set kvs k v)) = signing_input d (JObj kvs)"
proof -
  have "signed_part (JObj (jm_set kvs k v)) = signed_part (JObj kvs)"
    using assms
  proof
    assume "k = HUBRPC_SIGNATURE_KEY"
    then show ?thesis by (simp add: js_map_simps)
  next
    assume "k = HUBRPC_UNSIGNED_KEY"
    then show ?thesis
      by (simp add: js_map_simps jm_delete_commute [of _ HUBRPC_SIGNATURE_KEY])
  qed
  then show ?thesis unfolding signing_input_def by simp
qed

lemma signing_input_with_signature:
  "signing_input d (with_signature obj d' e) = signing_input d (JObj (spread (Some obj)))"
  by (simp add: with_signature_def Let_def signing_input_set_reserved)

lemma read_with_signature:
  "read_signature (with_signature obj d e) d = Some e"
  by (simp add: read_signature_def with_signature_def envelope_json_def Let_def)

lemma read_with_signature_other:
  "d \<noteq> d' \<Longrightarrow> read_signature (with_signature (JObj kvs) d e) d' =
     (case map_of kvs HUBRPC_SIGNATURE_KEY of
        Some (JObj sigs) \<Rightarrow> read_signature (JObj kvs) d'
      | Some v \<Rightarrow> read_signature (JObj [(HUBRPC_SIGNATURE_KEY, JObj (spread (Some v)))]) d'
      | None \<Rightarrow> None)"
  by (auto simp: read_signature_def with_signature_def Let_def split: option.splits json.splits)

lemma signing_input_ok:
  "json_finite (JObj kvs) \<Longrightarrow> is_ok (signing_input d (JObj kvs))"
proof -
  assume fin: "json_finite (JObj kvs)"
  then have "json_finite (JObj (signed_part (JObj kvs)))"
    by (auto simp: list_all_iff set_jm_delete)
  then have "is_ok (canonicalize (JObj [(signing_domain_value d, JObj (signed_part (JObj kvs)))]))"
    by (simp only: canonicalize_ok_iff) simp
  then show ?thesis
    by (auto simp: signing_input_def jcs_canonicalize_bytes_def jcs_canonicalize_def is_ok_def
        split: sum.splits simp del: canonicalize.simps)
qed

lemma json_ok_signed_part:
  "json_ok (JObj kvs) \<Longrightarrow> json_ok (JObj (signed_part (JObj kvs)))"
  by (auto simp: list_all_iff set_jm_delete jm_wf_def [symmetric])

lemma sign_object_ok:
  assumes "holds_key verify idn pk" "json_finite (JObj kvs)"
  shows "\<exists>input. signing_input domain (JObj kvs) = Inr input \<and>
    sign_object domain (JObj kvs) idn = Inr (with_signature (JObj kvs) domain
      \<lparr>env_keyId = key_id_for_public_key pk, env_sig = bytes_to_base64url (si_sign idn input)\<rparr>)"
proof -
  obtain input where i: "signing_input domain (JObj kvs) = Inr input"
    using signing_input_ok [OF assms(2), of domain] by (auto simp: is_ok_def split: sum.splits)
  have "si_keyId idn = Inr (key_id_for_public_key pk)"
    using assms(1) by (simp add: holds_key_def si_keyId_def key_id_for_principal_def
        principal_for_public_key_def)
  with i show ?thesis by (simp add: sign_object_def)
qed

lemma sign_object_verifies:
  assumes "holds_key verify idn pk" "sign_object domain (JObj kvs) idn = Inr sgn_obj"
    "json_finite (JObj kvs)"
  shows "verify_object_by_principal verify domain sgn_obj (si_principal idn) = Inr True"
proof -
  obtain input where i: "signing_input domain (JObj kvs) = Inr input"
    and signed: "sgn_obj = with_signature (JObj kvs) domain
      \<lparr>env_keyId = key_id_for_public_key pk, env_sig = bytes_to_base64url (si_sign idn input)\<rparr>"
    using sign_object_ok [OF assms(1,3), of domain] assms(2) by auto
  have "resolve_signing_key (si_principal idn) (key_id_for_public_key pk) = Some pk"
    using assms(1) resolve_for_public_key by (simp add: holds_key_def)
  with assms(1) i show ?thesis
    by (simp add: signed verify_object_by_principal_def read_with_signature verify_object_def
        signing_input_with_signature holds_key_def)
qed

section \<open>Properties\<close>

text \<open>C7: A signature commits to its domain and to the whole object, up to property order and
  the two reserved keys, and to nothing else: two signed inputs are the same bytes exactly then.
  In particular a \<^verbatim>\<open>call\<close> signature never verifies as a \<^verbatim>\<open>capability\<close> one.\<close>

theorem signing_input_commits:
  assumes "json_ok (JObj a)" "json_ok (JObj b)" "signing_input d (JObj a) = Inr s"
  shows "signing_input d' (JObj b) = Inr s \<longleftrightarrow>
    d' = d \<and> jnorm (JObj (signed_part (JObj b))) = jnorm (JObj (signed_part (JObj a)))"
proof -
  let ?w = "\<lambda>d kvs. JObj [(signing_domain_value d, JObj (signed_part (JObj kvs)))]"
  have "json_ok (?w d a)" "json_ok (?w d' b)"
    using json_ok_signed_part [OF assms(1)] json_ok_signed_part [OF assms(2)] by simp_all
  from jcs_bytes_eq_iff [OF this] assms(3)
  have "signing_input d' (JObj b) = Inr s \<longleftrightarrow> jnorm (?w d a) = jnorm (?w d' b)"
    by (simp add: signing_input_def del: jnorm.simps)
  then show ?thesis by (auto simp: signing_domain_value_def)
qed

theorem signing_input_commits_witness:
  "\<exists>s. signing_input ''call'' (JObj [(''a'', JNull)]) = Inr s \<and>
     signing_input ''capability'' (JObj [(''a'', JNull)]) \<noteq> Inr s"
proof -
  have "is_ok (signing_input ''call'' (JObj [(''a'', JNull)]))" by (rule signing_input_ok) simp
  then obtain s where s: "signing_input ''call'' (JObj [(''a'', JNull)]) = Inr s"
    by (auto simp: is_ok_def split: sum.splits)
  have "json_ok (JObj [(''a'', JNull)])" by simp
  from signing_input_commits [OF this this s, of "''capability''"] s show ?thesis by auto
qed

text \<open>Signing then verifying: whatever object an identity signs verifies under the identity's
  principal, and its sibling signatures are preserved.\<close>

theorem sign_verify_roundtrip:
  assumes "holds_key verify idn pk" "json_finite (JObj kvs)"
  shows "\<exists>sgn_obj. sign_object domain (JObj kvs) idn = Inr sgn_obj \<and>
    verify_object_by_principal verify domain sgn_obj (si_principal idn) = Inr True \<and>
    signing_input domain sgn_obj = signing_input domain (JObj kvs)"
proof -
  from sign_object_ok [OF assms, of domain] obtain sgn_obj e where
    "sign_object domain (JObj kvs) idn = Inr sgn_obj" "sgn_obj = with_signature (JObj kvs) domain e"
    by auto
  with sign_object_verifies [OF assms(1) _ assms(2)] show ?thesis
    by (auto simp: signing_input_with_signature)
qed

theorem sign_verify_roundtrip_witness:
  "\<exists>sgn_obj. sign_object ''call'' (JObj [(''a'', JNull)])
       \<lparr>si_principal = principal_for_public_key [7], si_sign = (\<lambda>m. 7 # m)\<rparr> = Inr sgn_obj \<and>
     verify_object_by_principal (\<lambda>pk m s. s = pk @ m) ''call'' sgn_obj (principal_for_public_key [7])
       = Inr True"
  using sign_verify_roundtrip [of "\<lambda>pk m s. s = pk @ m"
      "\<lparr>si_principal = principal_for_public_key [7], si_sign = (\<lambda>m. 7 # m)\<rparr>" "[7]"
      "[(''a'', JNull)]" "''call''"]
  by (auto simp: holds_key_def)

end
