(* ===== verification/Permission.thy ===== *)
theory Permission
  imports SignedObject
begin

text \<open>
  \<^verbatim>\<open>protocol/capability.ts\<close>: the wire shapes of capabilities and the pure matchers that decide
  whether a call falls inside a permission.  A value that passed
  \<^verbatim>\<open>hasSignedCapabilityShape\<close> is read into records by the \<open>_of\<close> functions; a parameter matcher
  stays the JSON object it is, since the shape check admits objects with several keys and the
  matcher looks at the keys in a fixed order.  Matching may throw (a value without a canonical
  form, a member function missing on an ill-typed matcher), so its result is a \<open>res\<close>.
\<close>

section \<open>Types\<close>

text \<open>\<^verbatim>\<open>{ exact }\<close> or \<^verbatim>\<open>{ prefix }\<close>; the key \<^verbatim>\<open>exact\<close> wins when both are present, and only
  then can its value be something other than a string.\<close>

datatype pattern = Exact json | Prefix string

type_synonym param_matcher = json

record call_bind =
  cb_alg :: string
  cb_payloadHash :: string

record target_pattern =
  tp_serviceId :: pattern
  tp_interfaceId :: pattern
  tp_interfaceHash :: "string option"
  tp_members :: "pattern list"

record permission =
  perm_target :: target_pattern
  perm_canInvoke :: "bool option"
  perm_canDelegate :: "bool option"
  perm_params :: "(string \<times> param_matcher) list option"
  perm_callBind :: "call_bind option"

record capability =
  cap_issuer :: string
  cap_audience :: string
  cap_permissions :: "permission list"
  cap_expiresAtMs :: "jsnum option"
  cap_parentHash :: "string option"
  cap_nonce :: string

text \<open>A signed capability is the object itself; \<open>sc_raw\<close> is that object, which the signature and
  the content hash are computed over.\<close>

record signed_capability = capability +
  sc_raw :: json

record call_target =
  ct_serviceId :: string
  ct_interfaceId :: string
  ct_member :: string
  ct_interfaceHash :: "string option"

datatype ability = Invoke | Delegate

record call =
  call_target :: call_target
  call_params :: "json option"
  call_nonce :: string
  call_signedAtMs :: jsnum
  call_signer :: string
  call_callHash :: string

datatype verdict = Ok | Deny string

section \<open>Wire-shape check\<close>

definition is_record :: "json option \<Rightarrow> bool" where
  "is_record v = (case v of Some (JObj _) \<Rightarrow> True | _ \<Rightarrow> False)"

definition is_str :: "json option \<Rightarrow> bool" where
  "is_str v = (case v of Some (JStr _) \<Rightarrow> True | _ \<Rightarrow> False)"

definition is_num :: "json option \<Rightarrow> bool" where
  "is_num v = (case v of Some (JNum _) \<Rightarrow> True | _ \<Rightarrow> False)"

definition is_bool :: "json option \<Rightarrow> bool" where
  "is_bool v = (case v of Some (JBool _) \<Rightarrow> True | _ \<Rightarrow> False)"

definition arr_all :: "(json \<Rightarrow> bool) \<Rightarrow> json option \<Rightarrow> bool" where
  "arr_all P v = (case v of Some (JArr xs) \<Rightarrow> list_all P xs | _ \<Rightarrow> False)"

text \<open>\<^verbatim>\<open>k in value\<close> on an object.\<close>

definition in_obj :: "string \<Rightarrow> json \<Rightarrow> bool" where
  "in_obj k v = (field k v \<noteq> None)"

definition has_pattern_shape :: "json option \<Rightarrow> bool" where
  "has_pattern_shape v = (case v of
     Some (JObj kvs) \<Rightarrow> is_str (map_of kvs ''exact'') \<or> is_str (map_of kvs ''prefix'')
   | _ \<Rightarrow> False)"

definition has_param_matcher_shape :: "json \<Rightarrow> bool" where
  "has_param_matcher_shape v =
     (if \<not> is_record (Some v) then False
      else if in_obj ''exact'' v then True
      else if in_obj ''enum'' v then arr_all (\<lambda>_. True) (field ''enum'' v)
      else if in_obj ''prefix'' v then is_str (field ''prefix'' v)
      else if in_obj ''subsetOf'' v then arr_all (\<lambda>item. is_str (Some item)) (field ''subsetOf'' v)
      else field ''any'' v = Some (JBool True))"

definition has_permission_shape :: "json \<Rightarrow> bool" where
  "has_permission_shape v =
     (is_record (Some v) \<and> is_record (field ''target'' v) \<and>
      (let target = the (field ''target'' v) in
        has_pattern_shape (field ''serviceId'' target) \<and>
        has_pattern_shape (field ''interfaceId'' target) \<and>
        arr_all (\<lambda>m. has_pattern_shape (Some m)) (field ''members'' target) \<and>
        (field ''interfaceHash'' target = None \<or> is_str (field ''interfaceHash'' target)) \<and>
        (field ''canInvoke'' v = None \<or> is_bool (field ''canInvoke'' v)) \<and>
        (field ''canDelegate'' v = None \<or> is_bool (field ''canDelegate'' v))) \<and>
      (case field ''params'' v of
         None \<Rightarrow> True
       | Some (JObj kvs) \<Rightarrow> list_all (\<lambda>p. has_param_matcher_shape (snd p)) kvs
       | Some _ \<Rightarrow> False) \<and>
      (case field ''callBind'' v of
         None \<Rightarrow> True
       | Some cb \<Rightarrow> is_record (Some cb) \<and> field ''alg'' cb = Some (JStr ''sha256'') \<and>
           is_str (field ''payloadHash'' cb)))"

definition has_signed_capability_shape :: "json \<Rightarrow> bool" where
  "has_signed_capability_shape v =
     (is_record (Some v) \<and>
      is_str (field ''issuer'' v) \<and> is_str (field ''audience'' v) \<and> is_str (field ''nonce'' v) \<and>
      arr_all has_permission_shape (field ''permissions'' v) \<and>
      (field ''expiresAtMs'' v = None \<or> is_num (field ''expiresAtMs'' v)) \<and>
      (field ''parentHash'' v = None \<or> is_str (field ''parentHash'' v)) \<and>
      read_signature v ''capability'' \<noteq> None)"

section \<open>Reading a value that passed the check\<close>

definition str_of :: "json option \<Rightarrow> string" where
  "str_of v = (case v of Some (JStr s) \<Rightarrow> s | _ \<Rightarrow> [])"

definition opt_str :: "json option \<Rightarrow> string option" where
  "opt_str v = (case v of Some (JStr s) \<Rightarrow> Some s | _ \<Rightarrow> None)"

definition opt_bool :: "json option \<Rightarrow> bool option" where
  "opt_bool v = (case v of Some (JBool b) \<Rightarrow> Some b | _ \<Rightarrow> None)"

definition opt_num :: "json option \<Rightarrow> jsnum option" where
  "opt_num v = (case v of Some (JNum n) \<Rightarrow> Some n | _ \<Rightarrow> None)"

definition arr_of :: "json option \<Rightarrow> json list" where
  "arr_of v = (case v of Some (JArr xs) \<Rightarrow> xs | _ \<Rightarrow> [])"

lemmas shape_defs = is_record_def is_str_def is_num_def is_bool_def arr_all_def in_obj_def
  str_of_def opt_str_def opt_bool_def opt_num_def arr_of_def

definition pattern_of :: "json option \<Rightarrow> pattern" where
  "pattern_of v = (case v of
     Some p \<Rightarrow> (case field ''exact'' p of
        Some e \<Rightarrow> Exact e
      | None \<Rightarrow> Prefix (str_of (field ''prefix'' p)))
   | None \<Rightarrow> Prefix [])"

definition target_pattern_of :: "json \<Rightarrow> target_pattern" where
  "target_pattern_of t =
     \<lparr>tp_serviceId = pattern_of (field ''serviceId'' t),
      tp_interfaceId = pattern_of (field ''interfaceId'' t),
      tp_interfaceHash = opt_str (field ''interfaceHash'' t),
      tp_members = map (\<lambda>m. pattern_of (Some m)) (arr_of (field ''members'' t))\<rparr>"

definition permission_of :: "json \<Rightarrow> permission" where
  "permission_of p =
     \<lparr>perm_target = target_pattern_of (the (field ''target'' p)),
      perm_canInvoke = opt_bool (field ''canInvoke'' p),
      perm_canDelegate = opt_bool (field ''canDelegate'' p),
      perm_params = map_option (\<lambda>ps. spread (Some ps)) (field ''params'' p),
      perm_callBind = map_option (\<lambda>cb.
        \<lparr>cb_alg = str_of (field ''alg'' cb), cb_payloadHash = str_of (field ''payloadHash'' cb)\<rparr>)
        (field ''callBind'' p)\<rparr>"

definition signed_capability_of :: "json \<Rightarrow> signed_capability" where
  "signed_capability_of c =
     \<lparr>cap_issuer = str_of (field ''issuer'' c),
      cap_audience = str_of (field ''audience'' c),
      cap_permissions = map permission_of (arr_of (field ''permissions'' c)),
      cap_expiresAtMs = opt_num (field ''expiresAtMs'' c),
      cap_parentHash = opt_str (field ''parentHash'' c),
      cap_nonce = str_of (field ''nonce'' c),
      sc_raw = c\<rparr>"

section \<open>Addressing\<close>

datatype target_mismatch =
    ServiceIdMismatch string pattern
  | InterfaceIdMismatch string pattern
  | InterfaceHashMismatch "string option" string
  | MemberMismatch string "pattern list"

definition pattern_matches :: "string \<Rightarrow> pattern \<Rightarrow> string \<Rightarrow> bool" where
  "pattern_matches val pat delim = (case pat of
     Exact e \<Rightarrow> e = JStr val
   | Prefix p \<Rightarrow>
       if p = [] then True
       else if val = p then True
       else if delim = [] then starts_with val p
       else starts_with val (p @ delim))"

text \<open>\<^verbatim>\<open>members\<close> is an array here, so the branch that reports a missing array has no value to
  fire on.\<close>

definition target_mismatch_reason :: "call_target \<Rightarrow> permission \<Rightarrow> target_mismatch option" where
  "target_mismatch_reason target perm =
     (let t = perm_target perm in
      if \<not> pattern_matches (ct_serviceId target) (tp_serviceId t) ''/'' then
        Some (ServiceIdMismatch (ct_serviceId target) (tp_serviceId t))
      else if \<not> pattern_matches (ct_interfaceId target) (tp_interfaceId t) ''.'' then
        Some (InterfaceIdMismatch (ct_interfaceId target) (tp_interfaceId t))
      else if tp_interfaceHash t \<noteq> None \<and> ct_interfaceHash target \<noteq> tp_interfaceHash t then
        Some (InterfaceHashMismatch (ct_interfaceHash target) (the (tp_interfaceHash t)))
      else if \<not> list_ex (\<lambda>m. pattern_matches (ct_member target) m '''') (tp_members t) then
        Some (MemberMismatch (ct_member target) (tp_members t))
      else None)"

definition permission_matches_target :: "call_target \<Rightarrow> permission \<Rightarrow> bool" where
  "permission_matches_target target perm = (target_mismatch_reason target perm = None)"

definition format_pattern :: "pattern \<Rightarrow> string" where
  "format_pattern p = (case p of
     Exact (JStr e) \<Rightarrow> ''exact '' @ json_quote e
   | Exact e \<Rightarrow> ''exact '' @ text_of e
   | Prefix q \<Rightarrow> ''prefix '' @ json_quote q)"

definition mismatch_to_string :: "target_mismatch \<Rightarrow> string" where
  "mismatch_to_string m = (case m of
     ServiceIdMismatch actual expected \<Rightarrow>
       ''serviceId '' @ json_quote actual @ '' does not match '' @ format_pattern expected
   | InterfaceIdMismatch actual expected \<Rightarrow>
       ''interfaceId '' @ json_quote actual @ '' does not match '' @ format_pattern expected
   | InterfaceHashMismatch actual expected \<Rightarrow>
       ''interfaceHash '' @ (case actual of None \<Rightarrow> ''<none>'' | Some a \<Rightarrow> json_quote a)
         @ '' does not match required '' @ json_quote expected
   | MemberMismatch actual expected \<Rightarrow>
       (let allowed = js_join '', '' (map format_pattern expected) in
        ''member '' @ json_quote actual @ '' does not match allowed patterns [''
          @ (if allowed = [] then ''<none>'' else allowed) @ '']''))"

section \<open>Parameter allowlist\<close>

text \<open>\<^verbatim>\<open>String(value)\<close>, for a matcher whose prefix is not a string.\<close>

primrec js_string :: "json \<Rightarrow> string" where
  "js_string JNull = ''null''"
| "js_string (JBool b) = (if b then ''true'' else ''false'')"
| "js_string (JNum n) = num_to_string n"
| "js_string (JStr s) = s"
| "js_string (JArr xs) = js_join '','' (map (\<lambda>(x, t). if x = JNull then [] else t) (map (\<lambda>x. (x, js_string x)) xs))"
| "js_string (JObj kvs) = ''[object Object]''"

definition js_includes :: "json option \<Rightarrow> string \<Rightarrow> bool res" where
  "js_includes c v = (case c of
     Some (JArr xs) \<Rightarrow> Inr (JStr v \<in> set xs)
   | Some (JStr s) \<Rightarrow> Inr (includes_str s v)
   | _ \<Rightarrow> Inl (JsError ''matcher.subsetOf.includes is not a function''))"

definition match_param_value :: "param_matcher \<Rightarrow> json \<Rightarrow> bool res" where
  "match_param_value matcher val =
     (if in_obj ''any'' matcher then Inr True
      else if in_obj ''prefix'' matcher then
        Inr (case val of JStr s \<Rightarrow> starts_with s (js_string (the (field ''prefix'' matcher))) | _ \<Rightarrow> False)
      else if in_obj ''subsetOf'' matcher then
        (case val of
           JArr vs \<Rightarrow> res_every (\<lambda>v. case v of
               JStr s \<Rightarrow> js_includes (field ''subsetOf'' matcher) s
             | _ \<Rightarrow> Inr False) vs
         | _ \<Rightarrow> Inr False)
      else if in_obj ''exact'' matcher then
        res_bind (jcs_canonicalize (the (field ''exact'' matcher))) (\<lambda>a.
        res_bind (jcs_canonicalize val) (\<lambda>b. Inr (a = b)))
      else if in_obj ''enum'' matcher then
        res_bind (jcs_canonicalize val) (\<lambda>v.
          case field ''enum'' matcher of
            Some (JArr opts) \<Rightarrow> res_some (\<lambda>opt. res_bind (jcs_canonicalize opt) (\<lambda>w. Inr (w = v))) opts
          | _ \<Rightarrow> Inl (JsError ''matcher.enum.some is not a function''))
      else Inr False)"

fun match_each :: "(string \<times> param_matcher) list \<Rightarrow> (string \<times> json) list \<Rightarrow> string list \<Rightarrow> verdict res" where
  "match_each declared actual [] = Inr Ok"
| "match_each declared actual (k # ks) =
     res_bind (match_param_value (the (map_of declared k)) (the (map_of actual k))) (\<lambda>ok.
       if ok then match_each declared actual ks
       else Inr (Deny (''param \"'' @ k @ ''\" does not match'')))"

definition match_params :: "(string \<times> param_matcher) list \<Rightarrow> json option \<Rightarrow> verdict res" where
  "match_params declared actualParams =
     (let declaredKeys = sort (map fst declared);
          actual = (case actualParams of Some (JObj kvs) \<Rightarrow> kvs | _ \<Rightarrow> []);
          actualKeys = sort (map fst actual) in
      if declaredKeys \<noteq> actualKeys then
        Inr (Deny (''param keys mismatch (declared='' @ js_join '','' declaredKeys
          @ '', actual='' @ js_join '','' actualKeys @ '')''))
      else match_each declared actual declaredKeys)"

section \<open>Membership of a call\<close>

definition permission_permits :: "call \<Rightarrow> permission \<Rightarrow> ability \<Rightarrow> verdict res" where
  "permission_permits c perm ab =
     (let granted = (case ab of Invoke \<Rightarrow> perm_canInvoke perm = Some True
                      | Delegate \<Rightarrow> perm_canDelegate perm = Some True) in
      if \<not> granted then
        Inr (Deny (''permission does not grant '' @ (case ab of Invoke \<Rightarrow> ''invoke'' | Delegate \<Rightarrow> ''delegate'')))
      else case target_mismatch_reason (call_target c) perm of
        Some m \<Rightarrow> Inr (Deny (''permission does not address this call: '' @ mismatch_to_string m))
      | None \<Rightarrow>
          res_bind (case perm_params perm of
              None \<Rightarrow> Inr Ok
            | Some declared \<Rightarrow> match_params declared (call_params c)) (\<lambda>r.
          case r of
            Deny reason \<Rightarrow> Inr (Deny (''params: '' @ reason))
          | Ok \<Rightarrow> (case perm_callBind perm of
              None \<Rightarrow> Inr Ok
            | Some cb \<Rightarrow>
                if cb_alg cb \<noteq> ''sha256'' then
                  Inr (Deny (''callBind: unsupported hash alg ('' @ cb_alg cb @ '')''))
                else if call_callHash c \<noteq> cb_payloadHash cb then
                  Inr (Deny ''callBind: payload hash mismatch'')
                else Inr Ok)))"

fun permits_go :: "call \<Rightarrow> ability \<Rightarrow> string \<Rightarrow> permission list \<Rightarrow> verdict res" where
  "permits_go c ab lastReason [] = Inr (Deny lastReason)"
| "permits_go c ab lastReason (perm # ps) =
     res_bind (permission_permits c perm ab) (\<lambda>r. case r of
       Ok \<Rightarrow> Inr Ok
     | Deny reason \<Rightarrow> permits_go c ab reason ps)"

definition capability_permits :: "call \<Rightarrow> 'a capability_scheme \<Rightarrow> ability \<Rightarrow> verdict res" where
  "capability_permits c cap ab =
     permits_go c ab
       (''no permission grants '' @ (case ab of Invoke \<Rightarrow> ''invoke'' | Delegate \<Rightarrow> ''delegate'') @ '' for this call'')
       (cap_permissions cap)"

section \<open>What admission means\<close>

lemma not_Deny_iff [simp]: "(\<forall>r. x \<noteq> Deny r) \<longleftrightarrow> x = Ok"
  by (cases x) auto

lemma match_each_Ok_iff:
  "match_each d a ks = Inr Ok \<longleftrightarrow>
     (\<forall>k\<in>set ks. match_param_value (the (map_of d k)) (the (map_of a k)) = Inr True)"
  by (induction d a ks rule: match_each.induct) (auto simp: res_bind_Inr_iff)

lemma match_params_Ok_iff:
  "match_params d (Some (JObj a)) = Inr Ok \<longleftrightarrow>
     sort (map fst d) = sort (map fst a) \<and>
     (\<forall>k\<in>fst ` set d. match_param_value (the (map_of d k)) (the (map_of a k)) = Inr True)"
proof -
  have "sort (map fst d) = sort (map fst a) \<Longrightarrow> fst ` set a = fst ` set d"
    by (metis list.set_map set_sort)
  then show ?thesis by (simp add: match_params_def Let_def match_each_Ok_iff)
qed

lemma match_params_single:
  "match_params [(k, m)] (Some (JObj [(k, v)])) = Inr Ok \<longleftrightarrow> match_param_value m v = Inr True"
  by (simp add: match_params_Ok_iff)

definition grants :: "permission \<Rightarrow> ability \<Rightarrow> bool" where
  "grants perm ab = (case ab of Invoke \<Rightarrow> perm_canInvoke perm = Some True
     | Delegate \<Rightarrow> perm_canDelegate perm = Some True)"

lemma permission_permits_Ok_iff:
  "permission_permits c perm ab = Inr Ok \<longleftrightarrow>
     grants perm ab \<and> permission_matches_target (call_target c) perm \<and>
     (\<forall>d. perm_params perm = Some d \<longrightarrow> match_params d (call_params c) = Inr Ok) \<and>
     (\<forall>cb. perm_callBind perm = Some cb \<longrightarrow>
        cb_alg cb = ''sha256'' \<and> call_callHash c = cb_payloadHash cb)"
  unfolding permission_permits_def grants_def permission_matches_target_def Let_def
  by (cases ab)
    (auto simp: res_bind_Inr_iff split: option.splits verdict.splits if_splits)

lemma permission_matches_target_iff:
  "permission_matches_target t perm \<longleftrightarrow>
     (let tp = perm_target perm in
      pattern_matches (ct_serviceId t) (tp_serviceId tp) ''/'' \<and>
      pattern_matches (ct_interfaceId t) (tp_interfaceId tp) ''.'' \<and>
      (tp_interfaceHash tp = None \<or> ct_interfaceHash t = tp_interfaceHash tp) \<and>
      (\<exists>m\<in>set (tp_members tp). pattern_matches (ct_member t) m ''''))"
  by (auto simp: permission_matches_target_def target_mismatch_reason_def Let_def list_ex_iff)

lemma permits_go_Ok: "permits_go c ab r ps = Inr Ok \<Longrightarrow> \<exists>p\<in>set ps. permission_permits c p ab = Inr Ok"
proof (induction c ab r ps rule: permits_go.induct)
  case (2 c ab r perm ps)
  then obtain v where v: "permission_permits c perm ab = Inr v" by (auto simp: res_bind_Inr_iff)
  with 2 show ?case by (cases v) auto
qed simp

lemma permits_go_complete:
  "\<forall>p\<in>set ps. is_ok (permission_permits c p ab) \<Longrightarrow> p \<in> set ps \<Longrightarrow>
   permission_permits c p ab = Inr Ok \<Longrightarrow> permits_go c ab r ps = Inr Ok"
proof (induction c ab r ps rule: permits_go.induct)
  case (2 c ab r perm ps)
  from 2(2) obtain v where v: "permission_permits c perm ab = Inr v"
    by (auto simp: is_ok_def split: sum.splits)
  with 2 show ?case by (cases v) auto
qed simp

lemma capability_permits_Ok:
  "capability_permits c cap ab = Inr Ok \<Longrightarrow> \<exists>p\<in>set (cap_permissions cap). permission_permits c p ab = Inr Ok"
  unfolding capability_permits_def by (rule permits_go_Ok)

section \<open>Properties\<close>

text \<open>The parameter allowlist is strict: a call passes exactly when its parameter names are the
  declared ones, none missing and none extra, and every value satisfies its own matcher.\<close>

theorem match_params_strict_allowlist:
  assumes "distinct (map fst d)" "distinct (map fst a)"
  shows "match_params d (Some (JObj a)) = Inr Ok \<longleftrightarrow>
    fst ` set d = fst ` set a \<and>
    (\<forall>k v. (k, v) \<in> set a \<longrightarrow> (\<exists>m. map_of d k = Some m \<and> match_param_value m v = Inr True))"
proof -
  have srt: "sort (map fst d) = sort (map fst a) \<longleftrightarrow> fst ` set d = fst ` set a"
    using sort_eq_iff_set [OF assms] by simp
  have get: "map_of a k = Some v" if "(k, v) \<in> set a" for k v
    using that assms(2) by (simp add: map_of_is_SomeI)
  have dget: "\<exists>m. map_of d k = Some m" if "k \<in> fst ` set d" for k
    using that by (metis map_of_eq_None_iff option.exhaust)
  show ?thesis
    unfolding match_params_Ok_iff srt
  proof (rule conj_cong [OF refl], rule iffI)
    assume keys: "fst ` set d = fst ` set a"
    { assume all: "\<forall>k\<in>fst ` set d. match_param_value (the (map_of d k)) (the (map_of a k)) = Inr True"
      show "\<forall>k v. (k, v) \<in> set a \<longrightarrow> (\<exists>m. map_of d k = Some m \<and> match_param_value m v = Inr True)"
      proof (intro allI impI)
        fix k v assume kv: "(k, v) \<in> set a"
        then have "k \<in> fst ` set d" using keys by force
        with dget all get [OF kv] show "\<exists>m. map_of d k = Some m \<and> match_param_value m v = Inr True"
          by fastforce
      qed }
    assume all: "\<forall>k v. (k, v) \<in> set a \<longrightarrow> (\<exists>m. map_of d k = Some m \<and> match_param_value m v = Inr True)"
    show "\<forall>k\<in>fst ` set d. match_param_value (the (map_of d k)) (the (map_of a k)) = Inr True"
    proof
      fix k assume "k \<in> fst ` set d"
      with keys obtain v where "(k, v) \<in> set a" by auto
      with all get show "match_param_value (the (map_of d k)) (the (map_of a k)) = Inr True" by fastforce
    qed
  qed
qed

theorem match_params_strict_allowlist_witness:
  "match_params [(''a'', JObj [(''any'', JBool True)])] (Some (JObj [(''a'', JNull), (''b'', JNull)])) \<noteq> Inr Ok"
proof -
  have "distinct (map fst [(''a'', JObj [(''any'', JBool True)])])"
    "distinct (map fst [(''a'', JNull), (''b'', JNull)])" by simp_all
  from match_params_strict_allowlist [OF this] show ?thesis by auto
qed

text \<open>What a permission admits: the ability flag is exactly \<^verbatim>\<open>true\<close>, all four address axes
  match (a non-empty prefix only at a segment boundary), the parameters pass the allowlist when
  there is one, and the call hash is the bound one when there is a binding.\<close>

theorem permission_permits_exactly:
  "permission_permits c perm ab = Inr Ok \<longleftrightarrow>
     (case ab of Invoke \<Rightarrow> perm_canInvoke perm | Delegate \<Rightarrow> perm_canDelegate perm) = Some True \<and>
     (let t = call_target c; tp = perm_target perm in
      pattern_matches (ct_serviceId t) (tp_serviceId tp) ''/'' \<and>
      pattern_matches (ct_interfaceId t) (tp_interfaceId tp) ''.'' \<and>
      (tp_interfaceHash tp = None \<or> ct_interfaceHash t = tp_interfaceHash tp) \<and>
      list_ex (\<lambda>m. pattern_matches (ct_member t) m '''') (tp_members tp)) \<and>
     (case perm_params perm of None \<Rightarrow> True | Some d \<Rightarrow> match_params d (call_params c) = Inr Ok) \<and>
     (case perm_callBind perm of None \<Rightarrow> True
      | Some cb \<Rightarrow> cb_alg cb = ''sha256'' \<and> call_callHash c = cb_payloadHash cb)"
  by (cases ab) (auto simp: permission_permits_Ok_iff grants_def permission_matches_target_iff Let_def
      list_ex_iff split: option.splits)

text \<open>The shape check lets an object with several matcher keys through, and the key \<^verbatim>\<open>any\<close>, with
  whatever value, then wins over the others: \<^verbatim>\<open>{ exact: x, any: false }\<close> admits every value.\<close>

theorem multi_key_matcher_admits_all:
  "has_param_matcher_shape (JObj [(''exact'', x), (''any'', JBool False)]) \<and>
   match_param_value (JObj [(''exact'', x), (''any'', JBool False)]) v = Inr True"
  by (simp add: has_param_matcher_shape_def match_param_value_def in_obj_def is_record_def)

end
