(* ===== verification/Coverage.thy ===== *)
theory Coverage
  imports Permission
begin

text \<open>
  \<^verbatim>\<open>identity/permissionCoverage.ts\<close>: the conservative containment test between two permissions
  that issuance uses.  The main lemma is its soundness against the matcher of \<open>Permission\<close>: a
  call the requested permission admits is admitted by every permission that covers it.
\<close>

text \<open>\<^verbatim>\<open>===\<close> on two values that are not the same reference.\<close>

definition js_strict_eq :: "json \<Rightarrow> json \<Rightarrow> bool" where
  "js_strict_eq a b = (case a of
     JObj _ \<Rightarrow> False | JArr _ \<Rightarrow> False
   | JNum n \<Rightarrow> (case b of JNum k \<Rightarrow> num_eq n k | _ \<Rightarrow> False)
   | _ \<Rightarrow> a = b)"

definition pattern_covers :: "pattern \<Rightarrow> pattern \<Rightarrow> string \<Rightarrow> bool res" where
  "pattern_covers granted requested delim = (case granted of
     Exact g \<Rightarrow> Inr (case requested of Exact r \<Rightarrow> js_strict_eq g r | Prefix _ \<Rightarrow> False)
   | Prefix g \<Rightarrow>
       (let val = (case requested of Exact r \<Rightarrow> r | Prefix r \<Rightarrow> JStr r) in
        if g = [] \<or> val = JStr g then Inr True
        else case val of
          JStr v \<Rightarrow> Inr (starts_with v (g @ delim))
        | _ \<Rightarrow> Inl (JsError ''value.startsWith is not a function'')))"

definition object_keys :: "json \<Rightarrow> string list" where
  "object_keys j = map fst (spread (Some j))"

definition value_matches :: "param_matcher \<Rightarrow> json \<Rightarrow> bool res" where
  "value_matches granted v =
     res_bind (match_params [(''value'', granted)] (Some (JObj [(''value'', v)]))) (\<lambda>r. Inr (r = Ok))"

definition param_covers :: "param_matcher \<Rightarrow> param_matcher \<Rightarrow> bool res" where
  "param_covers granted requested =
     (if length (object_keys granted) \<noteq> 1 \<or> length (object_keys requested) \<noteq> 1 then Inr False
      else if in_obj ''any'' granted then Inr True
      else if in_obj ''any'' requested then Inr False
      else if in_obj ''exact'' requested then value_matches granted (the (field ''exact'' requested))
      else if in_obj ''enum'' requested then
        res_every (\<lambda>v. value_matches granted v) (arr_of (field ''enum'' requested))
      else if in_obj ''prefix'' requested then
        Inr (in_obj ''prefix'' granted \<and>
          starts_with (str_of (field ''prefix'' requested)) (str_of (field ''prefix'' granted)))
      else Inr (in_obj ''subsetOf'' requested \<and> in_obj ''subsetOf'' granted \<and>
          list_all (\<lambda>v. v \<in> set (arr_of (field ''subsetOf'' granted)))
            (arr_of (field ''subsetOf'' requested))))"

definition permission_scope_covers :: "permission \<Rightarrow> permission \<Rightarrow> bool res" where
  "permission_scope_covers granted requested =
     (let g = perm_target granted; r = perm_target requested in
      res_and (pattern_covers (tp_serviceId g) (tp_serviceId r) ''/'')
     (res_and (pattern_covers (tp_interfaceId g) (tp_interfaceId r) ''.'')
     (res_and (Inr (tp_interfaceHash g = None \<or> tp_interfaceHash g = tp_interfaceHash r))
     (res_and (res_every (\<lambda>member. res_some (\<lambda>allowed. pattern_covers allowed member '''') (tp_members g))
                (tp_members r))
     (res_and (Inr (case perm_callBind granted of
                  None \<Rightarrow> True
                | Some gb \<Rightarrow> (case perm_callBind requested of
                     None \<Rightarrow> False
                   | Some rb \<Rightarrow> cb_alg rb = cb_alg gb \<and> cb_payloadHash rb = cb_payloadHash gb)))
      (case perm_params granted of
         None \<Rightarrow> Inr True
       | Some gp \<Rightarrow> (case perm_params requested of
            None \<Rightarrow> Inr False
          | Some rp \<Rightarrow>
              res_and (Inr (length gp = length rp))
                (res_every (\<lambda>key. if jm_has rp key
                    then param_covers (the (map_of gp key)) (the (map_of rp key)) else Inr False)
                  (map fst gp)))))))))"

section \<open>Soundness of the axes\<close>

lemma js_strict_eq_str: "js_strict_eq a (JStr s) \<longleftrightarrow> a = JStr s"
  by (cases a) (auto simp: js_strict_eq_def)

lemma starts_with_join: "starts_with v (p @ d) \<Longrightarrow> starts_with p (q @ d) \<Longrightarrow> starts_with v (q @ d)"
  unfolding starts_with_def by (metis append.assoc prefix_def)

lemma pattern_covers_sound:
  assumes "pattern_covers g r d = Inr True" "pattern_matches v r d"
  shows "pattern_matches v g d"
proof (cases g)
  case (Exact ge)
  with assms obtain re where "r = Exact re" "js_strict_eq ge re"
    by (auto simp: pattern_covers_def split: pattern.splits)
  with assms Exact show ?thesis by (auto simp: pattern_matches_def js_strict_eq_str)
next
  case (Prefix gp)
  show ?thesis
  proof (cases "gp = []")
    case True
    with Prefix show ?thesis by (simp add: pattern_matches_def)
  next
    case ne: False
    show ?thesis
    proof (cases r)
      case (Exact re)
      with assms(2) have "re = JStr v" by (simp add: pattern_matches_def)
      with Exact assms(1) Prefix ne show ?thesis
        by (auto simp: pattern_covers_def pattern_matches_def Let_def)
    next
      case rp: (Prefix p)
      with assms(1) Prefix ne have p: "p = gp \<or> starts_with p (gp @ d)"
        by (auto simp: pattern_covers_def Let_def split: if_splits)
      then have "p \<noteq> []" using ne by (auto simp: starts_with_def)
      with rp assms(2) have v: "v = p \<or> starts_with v (p @ d)"
        by (auto simp: pattern_matches_def split: if_splits)
      show ?thesis
      proof (cases "p = gp")
        case True
        with rp assms(2) Prefix show ?thesis by (simp add: pattern_matches_def)
      next
        case False
        with p have "starts_with p (gp @ d)" by simp
        with v have "starts_with v (gp @ d)" using starts_with_join by blast
        with Prefix show ?thesis by (auto simp: pattern_matches_def)
      qed
    qed
  qed
qed

lemma jnorm_JStr: "jnorm v = JStr s \<longleftrightarrow> v = JStr s"
  by (cases v) auto

text \<open>A matcher cannot tell two values with the same canonical form apart.\<close>

lemma match_param_value_cong:
  assumes "json_ok a" "json_ok b" "jcs_canonicalize a = Inr s" "jcs_canonicalize b = Inr s"
    "match_param_value m a = Inr True"
  shows "match_param_value m b = Inr True"
proof -
  have "jcs_canonicalize_bytes a = Inr (utf8 s)" "jcs_canonicalize_bytes b = Inr (utf8 s)"
    using assms(3,4) by (simp_all add: jcs_canonicalize_bytes_def)
  with jcs_bytes_eq_iff [OF assms(1,2)] have eq: "jnorm a = jnorm b" by blast
  have str: "a = JStr t \<Longrightarrow> b = JStr t" for t using eq jnorm_JStr by (metis jnorm.simps(4))
  have arr: "\<exists>ys. b = JArr ys \<and> map jnorm xs = map jnorm ys" if "a = JArr xs" for xs
    using eq that by (cases b) auto
  show ?thesis
  proof (cases a)
    case (JStr t)
    with str assms show ?thesis by simp
  next
    case (JArr xs)
    with arr obtain ys where b: "b = JArr ys" and ys: "map jnorm xs = map jnorm ys" by blast
    let ?f = "\<lambda>v. case v of JStr s \<Rightarrow> js_includes (field ''subsetOf'' m) s | _ \<Rightarrow> Inr False"
    have "\<forall>y\<in>set ys. ?f y = Inr True" if all: "\<forall>x\<in>set xs. ?f x = Inr True"
    proof
      fix y assume "y \<in> set ys"
      then have "jnorm y \<in> jnorm ` set xs" using ys by (metis image_eqI list.set_map)
      then obtain x where x: "x \<in> set xs" "jnorm y = jnorm x" by auto
      with all obtain t where "x = JStr t" by (cases x) auto
      with x have "y = JStr t" by (simp add: jnorm_JStr)
      with x all \<open>x = JStr t\<close> show "?f y = Inr True" by fastforce
    qed
    then show ?thesis using assms(3-5) JArr b
      by (auto simp: match_param_value_def res_every_True_iff split: if_splits)
  qed (use assms arr str in \<open>auto simp: match_param_value_def split: if_splits json.splits\<close>)
qed

lemma value_matches_True: "value_matches g v = Inr True \<longleftrightarrow> match_param_value g v = Inr True"
  by (auto simp: value_matches_def res_bind_Inr_iff match_params_single)

lemma single_key: "length (object_keys m) = 1 \<Longrightarrow> is_record (Some m) \<Longrightarrow> \<exists>k v. m = JObj [(k, v)]"
  by (cases m) (auto simp: object_keys_def is_record_def length_Suc_conv)

text \<open>What a well-shaped matcher with one key can be.\<close>

lemma matcher_cases:
  assumes "has_param_matcher_shape m" "length (object_keys m) = 1"
  obtains (exact) e where "m = JObj [(''exact'', e)]" | (enum) opts where "m = JObj [(''enum'', JArr opts)]"
  | (pre) p where "m = JObj [(''prefix'', JStr p)]"
  | (subset) ss where "m = JObj [(''subsetOf'', JArr ss)]" "\<forall>s\<in>set ss. \<exists>t. s = JStr t"
  | (any) "m = JObj [(''any'', JBool True)]"
proof -
  have "is_record (Some m)" using assms(1) by (auto simp: has_param_matcher_shape_def split: if_splits)
  with assms(2) obtain k v where m: "m = JObj [(k, v)]" using single_key by blast
  consider "k = ''exact''" | "k = ''enum''" | "k = ''prefix''" | "k = ''subsetOf''"
    | "k \<notin> {''exact'', ''enum'', ''prefix'', ''subsetOf''}" by blast
  then show ?thesis
  proof cases
    case 1
    with m exact show ?thesis by blast
  next
    case 2
    with assms(1) m enum show ?thesis
      by (auto simp: has_param_matcher_shape_def shape_defs split: json.splits)
  next
    case 3
    with assms(1) m pre show ?thesis
      by (auto simp: has_param_matcher_shape_def shape_defs split: json.splits)
  next
    case 4
    with assms(1) m have "arr_all (\<lambda>i. is_str (Some i)) (Some v)"
      by (auto simp: has_param_matcher_shape_def is_record_def in_obj_def)
    then obtain ss where ss: "v = JArr ss" "\<forall>s\<in>set ss. is_str (Some s)"
      by (cases v) (auto simp: arr_all_def list_all_iff)
    have "\<exists>t. s = JStr t" if "is_str (Some s)" for s
      using that by (cases s) (auto simp: is_str_def)
    with ss have "\<forall>s\<in>set ss. \<exists>t. s = JStr t" by blast
    with 4 m ss subset show ?thesis by blast
  next
    case 5
    with assms(1) m any show ?thesis
      by (auto simp: has_param_matcher_shape_def shape_defs split: if_splits)
  qed
qed

lemmas matcher_simps = match_param_value_def in_obj_def js_includes_def

lemma param_covers_sound:
  assumes "param_covers g r = Inr True" "match_param_value r v = Inr True"
    "has_param_matcher_shape g" "has_param_matcher_shape r" "json_ok r" "json_ok v"
  shows "match_param_value g v = Inr True"
proof -
  have len: "length (object_keys g) = 1" "length (object_keys r) = 1"
    using assms(1) by (auto simp: param_covers_def split: if_splits)
  show ?thesis
  proof (cases "in_obj ''any'' g")
    case True
    then show ?thesis by (simp add: match_param_value_def)
  next
    case g_any: False
    from assms(4) len(2) show ?thesis
    proof (cases rule: matcher_cases)
      case (exact e)
      with assms(1) g_any len have "match_param_value g e = Inr True"
        by (auto simp: param_covers_def value_matches_True in_obj_def split: if_splits)
      moreover from exact assms(2) obtain s where "jcs_canonicalize e = Inr s" "jcs_canonicalize v = Inr s"
        by (auto simp: matcher_simps res_bind_Inr_iff)
      ultimately show ?thesis
        using match_param_value_cong [of e v s g] assms(5,6) exact by simp
    next
      case (enum opts)
      from enum assms(2) obtain w where w: "jcs_canonicalize v = Inr w"
        "res_some (\<lambda>opt. res_bind (jcs_canonicalize opt) (\<lambda>u. Inr (u = w))) opts = Inr True"
        by (auto simp: matcher_simps res_bind_Inr_iff)
      from res_some_TrueD [OF w(2)] obtain e where e: "e \<in> set opts" "jcs_canonicalize e = Inr w"
        by (auto simp: res_bind_Inr_iff)
      from enum assms(1) g_any len e(1) have "match_param_value g e = Inr True"
        by (auto simp: param_covers_def res_every_True_iff value_matches_True in_obj_def arr_of_def
            split: if_splits)
      moreover have "json_ok e" using assms(5) enum e(1) by (simp add: list_all_iff)
      ultimately show ?thesis using match_param_value_cong e w assms(6) by blast
    next
      case (pre p)
      with assms(1) g_any len have g: "in_obj ''prefix'' g" "starts_with p (str_of (field ''prefix'' g))"
        by (auto simp: param_covers_def in_obj_def str_of_def split: if_splits)
      from assms(3) len(1) g(1) obtain q where "g = JObj [(''prefix'', JStr q)]"
        by (cases rule: matcher_cases) (auto simp: in_obj_def)
      with g pre assms(2) show ?thesis
        by (auto simp: matcher_simps str_of_def split: json.splits intro: starts_with_trans)
    next
      case (subset ss)
      with assms(1) g_any len have g: "in_obj ''subsetOf'' g"
        "\<forall>s\<in>set ss. s \<in> set (arr_of (field ''subsetOf'' g))"
        by (auto simp: param_covers_def in_obj_def arr_of_def list_all_iff split: if_splits)
      from assms(3) len(1) g(1) obtain gs where "g = JObj [(''subsetOf'', JArr gs)]"
        by (cases rule: matcher_cases) (auto simp: in_obj_def)
      with g subset assms(2) show ?thesis
        by (auto simp: matcher_simps arr_of_def res_every_True_iff split: json.splits)
    next
      case any
      with assms(1) g_any len show ?thesis by (auto simp: param_covers_def in_obj_def split: if_splits)
    qed
  qed
qed

text \<open>A permission read from JSON: distinct parameter names, well-shaped matchers over proper JSON.\<close>

definition permission_ok :: "permission \<Rightarrow> bool" where
  "permission_ok p = (case perm_params p of
     None \<Rightarrow> True
   | Some ps \<Rightarrow> distinct (map fst ps) \<and>
       list_all (\<lambda>m. has_param_matcher_shape (snd m) \<and> json_ok (snd m)) ps)"

lemma params_cover_sound:
  assumes "length gp = length rp"
    "res_every (\<lambda>key. if jm_has rp key then param_covers (the (map_of gp key)) (the (map_of rp key))
       else Inr False) (map fst gp) = Inr True"
    "distinct (map fst gp)" "distinct (map fst rp)"
    "\<forall>p\<in>set gp. has_param_matcher_shape (snd p)"
    "\<forall>p\<in>set rp. has_param_matcher_shape (snd p) \<and> json_ok (snd p)"
    "\<forall>j. params = Some j \<longrightarrow> json_ok j" "match_params rp params = Inr Ok"
  shows "match_params gp params = Inr Ok"
proof -
  have cov: "jm_has rp k \<and> param_covers (the (map_of gp k)) (the (map_of rp k)) = Inr True"
    if "k \<in> set (map fst gp)" for k
    using assms(2) that by (auto simp: res_every_True_iff split: if_splits)
  have sub: "set (map fst gp) \<subseteq> set (map fst rp)" using cov by (auto simp: jm_has_def)
  have keys: "set (map fst gp) = set (map fst rp)"
    by (rule card_subset_eq [OF _ sub]) (use assms(1,3,4) in \<open>simp_all only: distinct_card length_map finite_set\<close>)
  then have srt: "sort (map fst gp) = sort (map fst rp)"
    using sort_eq_iff_set [OF assms(3,4)] by simp
  define a where "a = (case params of Some (JObj kvs) \<Rightarrow> kvs | _ \<Rightarrow> [])"
  have mp: "match_params d params = match_params d (Some (JObj a))" for d
    by (auto simp: match_params_def a_def split: option.splits json.splits)
  have ok: "json_ok (JObj a)" using assms(7) by (auto simp: a_def split: option.splits json.splits)
  have "match_param_value (the (map_of gp k)) (the (map_of a k)) = Inr True" if k: "k \<in> fst ` set gp" for k
  proof -
    have r: "sort (map fst rp) = sort (map fst a)"
      "match_param_value (the (map_of rp k)) (the (map_of a k)) = Inr True"
      using assms(8) k keys unfolding mp match_params_Ok_iff by auto
    then have "k \<in> fst ` set a" using k keys by (metis list.set_map set_sort)
    then obtain v where v: "map_of a k = Some v" "v \<in> snd ` set a"
      by (metis (no_types, lifting) imageI map_of_SomeD map_of_eq_None_iff option.exhaust snd_conv)
    obtain g where g: "map_of gp k = Some g" "(k, g) \<in> set gp"
      using k by (metis map_of_SomeD map_of_eq_None_iff option.exhaust)
    obtain m where m: "map_of rp k = Some m" "(k, m) \<in> set rp"
      using k keys by (metis list.set_map map_of_SomeD map_of_eq_None_iff option.exhaust)
    have "json_ok v" using v(2) json_items(1) [OF _ ok] by auto
    have "param_covers g m = Inr True" "match_param_value m v = Inr True"
      using cov [of k] k g m v r(2) by auto
    moreover have "has_param_matcher_shape g" "has_param_matcher_shape m" "json_ok m"
      using assms(5,6) g(2) m(2) by auto
    ultimately have "match_param_value g v = Inr True"
      using \<open>json_ok v\<close> by (rule param_covers_sound)
    with g v show ?thesis by simp
  qed
  moreover have "sort (map fst rp) = sort (map fst a)"
    using assms(8) unfolding mp match_params_Ok_iff by simp
  ultimately show ?thesis unfolding mp match_params_Ok_iff srt by blast
qed

lemma permission_scope_covers_sound:
  assumes "permission_scope_covers g r = Inr True" "permission_permits c r ab = Inr Ok"
    "permission_ok g" "permission_ok r" "grants g ab" "\<forall>j. call_params c = Some j \<longrightarrow> json_ok j"
  shows "permission_permits c g ab = Inr Ok"
proof -
  let ?g = "perm_target g" and ?r = "perm_target r"
  from assms(2) have r: "permission_matches_target (call_target c) r"
    "\<And>d. perm_params r = Some d \<Longrightarrow> match_params d (call_params c) = Inr Ok"
    "\<And>cb. perm_callBind r = Some cb \<Longrightarrow> cb_alg cb = ''sha256'' \<and> call_callHash c = cb_payloadHash cb"
    by (auto simp: permission_permits_Ok_iff)
  from assms(1) have cov: "pattern_covers (tp_serviceId ?g) (tp_serviceId ?r) ''/'' = Inr True"
    "pattern_covers (tp_interfaceId ?g) (tp_interfaceId ?r) ''.'' = Inr True"
    "tp_interfaceHash ?g = None \<or> tp_interfaceHash ?g = tp_interfaceHash ?r"
    "\<forall>m\<in>set (tp_members ?r). res_some (\<lambda>a. pattern_covers a m '''') (tp_members ?g) = Inr True"
    by (auto simp: permission_scope_covers_def Let_def res_and_True_iff res_every_True_iff)
  have "permission_matches_target (call_target c) g"
  proof -
    from r(1) obtain m where m: "m \<in> set (tp_members ?r)" "pattern_matches (ct_member (call_target c)) m ''''"
      by (auto simp: permission_matches_target_iff Let_def)
    with cov(4) obtain a where "a \<in> set (tp_members ?g)" "pattern_covers a m '''' = Inr True"
      by (blast dest: res_some_TrueD)
    with m r(1) cov(1-3) show ?thesis
      by (auto simp: permission_matches_target_iff Let_def intro: pattern_covers_sound)
  qed
  moreover have "match_params d (call_params c) = Inr Ok" if d: "perm_params g = Some d" for d
  proof -
    from assms(1) d obtain rp where rp: "perm_params r = Some rp" "length d = length rp"
      "res_every (\<lambda>key. if jm_has rp key then param_covers (the (map_of d key)) (the (map_of rp key))
        else Inr False) (map fst d) = Inr True"
      by (auto simp: permission_scope_covers_def Let_def res_and_True_iff split: option.splits)
    show ?thesis
      by (rule params_cover_sound [OF rp(2,3)])
        (use assms(3,4,6) d rp(1) r(2) in \<open>auto simp: permission_ok_def list_all_iff\<close>)
  qed
  moreover have "cb_alg cb = ''sha256'' \<and> call_callHash c = cb_payloadHash cb"
    if "perm_callBind g = Some cb" for cb
    using that assms(1) r(3)
    by (auto simp: permission_scope_covers_def Let_def res_and_True_iff split: option.splits)
  ultimately show ?thesis using assms(5) by (simp add: permission_permits_Ok_iff)
qed

section \<open>Properties\<close>

text \<open>C4: Coverage is sound.  If a granted permission covers a requested one and carries the
  ability, then every call the requested permission admits is admitted by the granted one:
  issuing under covered clauses can only narrow authority.\<close>

theorem coverage_sound:
  assumes "permission_scope_covers granted requested = Inr True"
    and "permission_ok granted" "permission_ok requested" "grants granted ab"
    and "\<forall>j. call_params c = Some j \<longrightarrow> json_ok j"
    and "permission_permits c requested ab = Inr Ok"
  shows "permission_permits c granted ab = Inr Ok"
  using permission_scope_covers_sound assms by blast

definition demo_granted :: permission where
  "demo_granted =
     \<lparr>perm_target = \<lparr>tp_serviceId = Prefix ''a'', tp_interfaceId = Prefix [], tp_interfaceHash = None,
        tp_members = [Prefix ''get'']\<rparr>,
      perm_canInvoke = Some True, perm_canDelegate = None,
      perm_params = Some [(''url'', JObj [(''prefix'', JStr ''h'')])], perm_callBind = None\<rparr>"

definition demo_requested :: permission where
  "demo_requested =
     \<lparr>perm_target = \<lparr>tp_serviceId = Exact (JStr ''a/b''), tp_interfaceId = Exact (JStr ''i''),
        tp_interfaceHash = None, tp_members = [Exact (JStr ''getX'')]\<rparr>,
      perm_canInvoke = Some True, perm_canDelegate = None,
      perm_params = Some [(''url'', JObj [(''exact'', JStr ''hx'')])], perm_callBind = None\<rparr>"

definition demo_call :: call where
  "demo_call =
     \<lparr>call_target = \<lparr>ct_serviceId = ''a/b'', ct_interfaceId = ''i'', ct_member = ''getX'',
        ct_interfaceHash = None\<rparr>,
      call_params = Some (JObj [(''url'', JStr ''hx'')]), call_nonce = ''n'',
      call_signedAtMs = Dec 1 0, call_signer = ''id:key:AA'', call_callHash = ''h''\<rparr>"

theorem coverage_sound_witness: "permission_permits demo_call demo_granted Invoke = Inr Ok"
proof (rule coverage_sound)
  show "permission_scope_covers demo_granted demo_requested = Inr True" by code_simp
  show "permission_ok demo_granted" "permission_ok demo_requested" "grants demo_granted Invoke"
    by code_simp+
  show "\<forall>j. call_params demo_call = Some j \<longrightarrow> json_ok j" by (simp add: demo_call_def)
  show "permission_permits demo_call demo_requested Invoke = Inr Ok" by code_simp
qed

end
