(* ===== verification/Wire.thy ===== *)
theory Wire
  imports Permission
begin

text \<open>
  The message layer: \<^verbatim>\<open>protocol/jsonRpc.ts\<close> (request, notification, success and error
  messages, error codes) and \<^verbatim>\<open>protocol/methodName.ts\<close> (the \<^verbatim>\<open>::\<close> dialect of method
  names).  The lemmas relate parsing to the segments of the name, so the routing layers can be
  stated on segments.
\<close>

section \<open>JSON-RPC messages\<close>

datatype request_id = IdNum jsnum | IdStr string

record rpc_error =
  err_code :: int
  err_message :: string
  err_data :: "json option"

text \<open>The wire object is told apart by the presence of \<^verbatim>\<open>method\<close> and \<^verbatim>\<open>id\<close>; a response
  may have a \<^verbatim>\<open>null\<close> id.\<close>

datatype message =
    Request request_id string "json option"
  | Notification string "json option"
  | Success "request_id option" json
  | Failure "request_id option" rpc_error

definition is_request :: "message \<Rightarrow> bool" where
  "is_request m = (case m of Request _ _ _ \<Rightarrow> True | _ \<Rightarrow> False)"

definition is_notification :: "message \<Rightarrow> bool" where
  "is_notification m = (case m of Notification _ _ \<Rightarrow> True | _ \<Rightarrow> False)"

definition is_response :: "message \<Rightarrow> bool" where
  "is_response m = (case m of Success _ _ \<Rightarrow> True | Failure _ _ \<Rightarrow> True | _ \<Rightarrow> False)"

definition method_of :: "message \<Rightarrow> string option" where
  "method_of m = (case m of Request _ meth _ \<Rightarrow> Some meth | Notification meth _ \<Rightarrow> Some meth | _ \<Rightarrow> None)"

definition params_of :: "message \<Rightarrow> json option" where
  "params_of m = (case m of Request _ _ p \<Rightarrow> p | Notification _ p \<Rightarrow> p | _ \<Rightarrow> None)"

definition ERR_invalidRequest :: int where "ERR_invalidRequest = - 32600"
definition ERR_methodNotFound :: int where "ERR_methodNotFound = - 32601"
definition ERR_invalidParams :: int where "ERR_invalidParams = - 32602"
definition ERR_internalError :: int where "ERR_internalError = - 32603"
definition ERR_permissionRequired :: int where "ERR_permissionRequired = - 32401"
definition ERR_peerDisconnected :: int where "ERR_peerDisconnected = - 32402"
definition ERR_requestTimeout :: int where "ERR_requestTimeout = - 32403"
definition ERR_cancelled :: int where "ERR_cancelled = - 32800"

lemmas error_codes = ERR_invalidRequest_def ERR_methodNotFound_def ERR_invalidParams_def
  ERR_internalError_def ERR_permissionRequired_def ERR_peerDisconnected_def ERR_requestTimeout_def
  ERR_cancelled_def

section \<open>Method names\<close>

datatype parsed_method =
    Bare string | Interface string string | Full string string string

definition parse_method_name :: "string \<Rightarrow> parsed_method option" where
  "parse_method_name meth =
     (let parts = js_split meth ''::'' in
      if length parts = 3 \<and> parts ! 0 = [] \<and> parts ! 1 \<noteq> [] \<and> parts ! 2 \<noteq> [] then
        Some (Interface (parts ! 1) (parts ! 2))
      else if list_ex (\<lambda>p. p = []) parts then None
      else if length parts = 1 then Some (Bare (parts ! 0))
      else if length parts = 2 then Some (Interface (parts ! 0) (parts ! 1))
      else if length parts = 3 then Some (Full (parts ! 0) (parts ! 1) (parts ! 2))
      else None)"

definition method_name_to_target :: "string \<Rightarrow> call_target res" where
  "method_name_to_target meth = (case parse_method_name meth of
     None \<Rightarrow> Inl (JsError (''linkrpc: malformed method: '' @ meth))
   | Some (Bare _) \<Rightarrow> Inl (JsError (''linkrpc: bare method has no interface context: '' @ meth))
   | Some (Interface i m) \<Rightarrow>
       Inr \<lparr>ct_serviceId = '''', ct_interfaceId = i, ct_member = m, ct_interfaceHash = None\<rparr>
   | Some (Full s i m) \<Rightarrow>
       Inr \<lparr>ct_serviceId = s, ct_interfaceId = i, ct_member = m, ct_interfaceHash = None\<rparr>)"

section \<open>Splitting at a colon pair\<close>

lemma split_go_segment:
  assumes "CHR '':'' \<notin> set a"
  shows "split_go ''::'' acc (a @ ''::'' @ r) = (rev acc @ a) # split_go ''::'' [] r"
  using assms
proof (induction a arbitrary: acc)
  case Nil
  then show ?case by (subst split_go.simps) (simp add: starts_with_def)
next
  case (Cons c a)
  then have "\<not> starts_with (c # a @ ''::'' @ r) ''::''" by (simp add: starts_with_def)
  with Cons show ?case by (subst split_go.simps) simp
qed

lemma split_go_last:
  assumes "CHR '':'' \<notin> set a"
  shows "split_go ''::'' acc a = [rev acc @ a]"
  using assms
proof (induction a arbitrary: acc)
  case Nil
  then show ?case by (subst split_go.simps) simp
next
  case (Cons c a)
  then have "\<not> starts_with (c # a) ''::''" by (simp add: starts_with_def)
  with Cons show ?case by (subst split_go.simps) simp
qed

lemma js_split_segments:
  assumes "CHR '':'' \<notin> set a" "CHR '':'' \<notin> set b" "CHR '':'' \<notin> set c"
  shows "js_split a ''::'' = [a]" "js_split (a @ ''::'' @ b) ''::'' = [a, b]"
    "js_split (a @ ''::'' @ b @ ''::'' @ c) ''::'' = [a, b, c]"
  using split_go_last [OF assms(1), of "[]"]
    split_go_segment [OF assms(1), of "[]" b] split_go_last [OF assms(2), of "[]"]
    split_go_segment [OF assms(1), of "[]" "b @ ''::'' @ c"] split_go_segment [OF assms(2), of "[]" c]
    split_go_last [OF assms(3), of "[]"]
  by (simp_all add: js_split_def)

lemma js_split_join3: "js_split m sep = [a, b, c] \<Longrightarrow> m = a @ sep @ b @ sep @ c"
  by (metis js_join_split js_join.simps(2,3))

lemma js_split_join2: "js_split m sep = [a, b] \<Longrightarrow> m = a @ sep @ b"
  by (metis js_join_split js_join.simps(2,3))

lemma js_split_join1: "js_split m sep = [a] \<Longrightarrow> m = a"
  by (metis js_join_split js_join.simps(2))

lemma parse_Full_D:
  "parse_method_name m = Some (Full s i n) \<Longrightarrow>
     js_split m ''::'' = [s, i, n] \<and> m = s @ ''::'' @ i @ ''::'' @ n \<and> s \<noteq> [] \<and> i \<noteq> [] \<and> n \<noteq> []"
proof -
  assume p: "parse_method_name m = Some (Full s i n)"
  then have l: "length (js_split m ''::'') = 3"
    by (auto simp: parse_method_name_def Let_def split: if_splits)
  then obtain a b c where abc: "js_split m ''::'' = [a, b, c]"
    by (auto simp: length_Suc_conv numeral_eq_Suc)
  with p have "s = a" "i = b" "n = c" "s \<noteq> []" "i \<noteq> []" "n \<noteq> []"
    by (auto simp: parse_method_name_def Let_def split: if_splits)
  with abc js_split_join3 show ?thesis by metis
qed

lemma parse_Interface_D:
  "parse_method_name m = Some (Interface i n) \<Longrightarrow>
     (m = i @ ''::'' @ n \<or> m = ''::'' @ i @ ''::'' @ n) \<and> i \<noteq> [] \<and> n \<noteq> []"
proof -
  assume p: "parse_method_name m = Some (Interface i n)"
  show ?thesis
  proof (cases "length (js_split m ''::'') = 3")
    case True
    then obtain a b c where abc: "js_split m ''::'' = [a, b, c]"
      by (auto simp: length_Suc_conv numeral_eq_Suc)
    with p js_split_join3 [OF abc] show ?thesis
      by (auto simp: parse_method_name_def Let_def split: if_splits)
  next
    case False
    with p have "length (js_split m ''::'') = 2"
      by (auto simp: parse_method_name_def Let_def split: if_splits)
    then obtain a b where ab: "js_split m ''::'' = [a, b]"
      by (auto simp: length_Suc_conv numeral_eq_Suc)
    with p js_split_join2 [OF ab] show ?thesis
      by (auto simp: parse_method_name_def Let_def split: if_splits)
  qed
qed

lemma parse_Bare_D: "parse_method_name m = Some (Bare n) \<Longrightarrow> m = n \<and> n \<noteq> []"
proof -
  assume p: "parse_method_name m = Some (Bare n)"
  then have "length (js_split m ''::'') = 1"
    by (auto simp: parse_method_name_def Let_def split: if_splits)
  then obtain a where a: "js_split m ''::'' = [a]" by (auto simp: length_Suc_conv)
  with p js_split_join1 [OF a] show ?thesis
    by (auto simp: parse_method_name_def Let_def split: if_splits)
qed

lemma parse_segments:
  assumes "CHR '':'' \<notin> set s" "CHR '':'' \<notin> set i" "CHR '':'' \<notin> set n" "s \<noteq> []" "i \<noteq> []" "n \<noteq> []"
  shows "parse_method_name n = Some (Bare n)"
    "parse_method_name (i @ ''::'' @ n) = Some (Interface i n)"
    "parse_method_name (''::'' @ i @ ''::'' @ n) = Some (Interface i n)"
    "parse_method_name (s @ ''::'' @ i @ ''::'' @ n) = Some (Full s i n)"
  using js_split_segments [OF assms(1-3)] js_split_segments(1) [OF assms(3,3,3)]
    js_split_segments(2) [OF assms(2,3,3)]
    js_split_segments(3) [of "[]" i n] assms
  by (simp_all add: parse_method_name_def Let_def)

section \<open>Properties\<close>

text \<open>Method names round-trip through the parser: three segments without colons joined by
  \<^verbatim>\<open>::\<close> parse to the full form with these segments, two (also with an explicit empty service)
  to the interface form, one to the bare form; and whatever parses is the join of its segments,
  none of them empty, so the three forms are disjoint.\<close>

theorem method_name_roundtrip:
  assumes "CHR '':'' \<notin> set s" "CHR '':'' \<notin> set i" "CHR '':'' \<notin> set n" "s \<noteq> []" "i \<noteq> []" "n \<noteq> []"
  shows "parse_method_name n = Some (Bare n) \<and>
    parse_method_name (i @ ''::'' @ n) = Some (Interface i n) \<and>
    parse_method_name (''::'' @ i @ ''::'' @ n) = Some (Interface i n) \<and>
    parse_method_name (s @ ''::'' @ i @ ''::'' @ n) = Some (Full s i n) \<and>
    (case parse_method_name m of
       None \<Rightarrow> True
     | Some (Bare n') \<Rightarrow> m = n' \<and> n' \<noteq> []
     | Some (Interface i' n') \<Rightarrow> (m = i' @ ''::'' @ n' \<or> m = ''::'' @ i' @ ''::'' @ n') \<and> i' \<noteq> [] \<and> n' \<noteq> []
     | Some (Full s' i' n') \<Rightarrow>
         m = s' @ ''::'' @ i' @ ''::'' @ n' \<and> s' \<noteq> [] \<and> i' \<noteq> [] \<and> n' \<noteq> [])"
proof -
  have "case parse_method_name m of
       None \<Rightarrow> True
     | Some (Bare n') \<Rightarrow> m = n' \<and> n' \<noteq> []
     | Some (Interface i' n') \<Rightarrow> (m = i' @ ''::'' @ n' \<or> m = ''::'' @ i' @ ''::'' @ n') \<and> i' \<noteq> [] \<and> n' \<noteq> []
     | Some (Full s' i' n') \<Rightarrow>
         m = s' @ ''::'' @ i' @ ''::'' @ n' \<and> s' \<noteq> [] \<and> i' \<noteq> [] \<and> n' \<noteq> []"
    using parse_Full_D [of m] parse_Interface_D [of m] parse_Bare_D [of m]
    by (simp split: option.split parsed_method.split)
  with parse_segments [OF assms] show ?thesis by blast
qed

theorem method_name_roundtrip_witness:
  "parse_method_name (''s'' @ ''::'' @ ''i'' @ ''::'' @ ''m'') = Some (Full ''s'' ''i'' ''m'')"
  using method_name_roundtrip [of "''s''" "''i''" "''m''" "''x''"] by simp

end
