(* ===== verification/Envelope.thy ===== *)
theory Envelope
  imports Wire
begin

text \<open>
  The identity envelope of a call: \<^verbatim>\<open>protocol/linkRpcEnvelope.ts\<close>,
  \<^verbatim>\<open>identity/signedRpcEnvelope.ts\<close> and \<^verbatim>\<open>identity/metaEnvelope.ts\<close>.  The clock, the
  random nonce and the signature primitives are arguments.  The lemmas show that a signed call
  verifies and gives the user's parameters back, that attaching capabilities disturbs neither
  the signature nor the call hash, and what a successful verification establishes.
\<close>

section \<open>Parameters\<close>

record call_meta =
  cm_method :: string
  cm_nonce :: string
  cm_signedAtMs :: jsnum
  cm_principal :: "string option"
  cm_interfaceHash :: "string option"

definition call_meta_json :: "call_meta \<Rightarrow> json" where
  "call_meta_json m = JObj
     ([(''method'', JStr (cm_method m)), (''nonce'', JStr (cm_nonce m)),
       (''signedAtMs'', JNum (cm_signedAtMs m))]
      @ (case cm_principal m of None \<Rightarrow> [] | Some p \<Rightarrow> [(''principal'', JStr p)])
      @ (case cm_interfaceHash m of None \<Rightarrow> [] | Some h \<Rightarrow> [(''interfaceHash'', JStr h)]))"

definition require_object_params :: "json option \<Rightarrow> (string \<times> json) list res" where
  "require_object_params userParams = (case userParams of
     None \<Rightarrow> Inr []
   | Some (JObj kvs) \<Rightarrow> Inr kvs
   | Some _ \<Rightarrow> Inl (JsError ''linkrpc: user params must be a plain JSON object or undefined''))"

definition reserved_keys :: "string list" where
  "reserved_keys = [HUBRPC_META_KEY, HUBRPC_SIGNATURE_KEY, HUBRPC_UNSIGNED_KEY]"

definition strip_wire_meta :: "json option \<Rightarrow> json option" where
  "strip_wire_meta wireParams = (case wireParams of
     Some (JObj kvs) \<Rightarrow>
       if \<not> list_ex (\<lambda>key. key \<in> fst ` set kvs) reserved_keys then Some (JObj kvs)
       else Some (JObj (filter (\<lambda>(key, _). key \<notin> set reserved_keys) kvs))
   | _ \<Rightarrow> wireParams)"

section \<open>Signing a call\<close>

record sign_opts =
  so_method :: string
  so_params :: "json option"
  so_identity :: signing_identity
  so_nowMs :: jsnum
  so_nonce :: bytes
  so_interfaceHash :: "string option"

record signed_rpc_call =
  sr_wireParams :: json
  sr_callMeta :: call_meta
  sr_callHash :: string

definition call_meta_for :: "sign_opts \<Rightarrow> call_meta" where
  "call_meta_for opts =
     \<lparr>cm_method = so_method opts, cm_nonce = bytes_to_base64url (so_nonce opts),
      cm_signedAtMs = so_nowMs opts, cm_principal = Some (si_principal (so_identity opts)),
      cm_interfaceHash = so_interfaceHash opts\<rparr>"

definition sign_rpc_call :: "sign_opts \<Rightarrow> signed_rpc_call res" where
  "sign_rpc_call opts =
     res_bind (require_object_params (so_params opts)) (\<lambda>userParams.
       let callMeta = call_meta_for opts;
           signedParams = JObj (jm_set userParams HUBRPC_META_KEY (call_meta_json callMeta)) in
       res_bind (signed_hash ''call'' signedParams) (\<lambda>callHash.
       res_bind (sign_object ''call'' signedParams (so_identity opts)) (\<lambda>wireParams.
         Inr \<lparr>sr_wireParams = wireParams, sr_callMeta = callMeta, sr_callHash = callHash\<rparr>)))"

definition attach_capabilities :: "json \<Rightarrow> json list \<Rightarrow> json" where
  "attach_capabilities wireParams capabilities =
     (if capabilities = [] then wireParams
      else JObj (jm_set (spread (Some wireParams)) HUBRPC_UNSIGNED_KEY
        (JObj (jm_set (spread (field HUBRPC_UNSIGNED_KEY wireParams)) ''capabilities''
          (JArr capabilities)))))"

section \<open>Verifying a call\<close>

record verify_opts =
  vo_wireMethod :: string
  vo_wireParams :: "json option"
  vo_nowMs :: jsnum
  vo_maxSkewMs :: "jsnum option"
  vo_requireSigned :: bool

record call_identity =
  ci_callMeta :: call_meta
  ci_signer :: string
  ci_callHash :: string
  ci_capabilities :: "json list"

datatype verify_rpc_result =
    RpcOk "call_identity option" "json option"
  | RpcFail string

definition extract_object :: "json option \<Rightarrow> string \<Rightarrow> json option" where
  "extract_object wireParams key = (case wireParams of
     Some (JObj kvs) \<Rightarrow> (case map_of kvs key of Some (JObj env) \<Rightarrow> Some (JObj env) | _ \<Rightarrow> None)
   | _ \<Rightarrow> None)"

definition call_meta_of :: "json \<Rightarrow> call_meta option" where
  "call_meta_of meta = (case (field ''method'' meta, field ''nonce'' meta, field ''signedAtMs'' meta) of
     (Some (JStr m), Some (JStr n), Some (JNum t)) \<Rightarrow>
       if (field ''principal'' meta \<noteq> None \<and> \<not> is_str (field ''principal'' meta)) \<or>
          (field ''interfaceHash'' meta \<noteq> None \<and> \<not> is_str (field ''interfaceHash'' meta)) then None
       else Some \<lparr>cm_method = m, cm_nonce = n, cm_signedAtMs = t,
         cm_principal = opt_str (field ''principal'' meta),
         cm_interfaceHash = opt_str (field ''interfaceHash'' meta)\<rparr>
   | _ \<Rightarrow> None)"

definition max_skew :: "verify_opts \<Rightarrow> jsnum" where
  "max_skew opts = (case vo_maxSkewMs opts of Some s \<Rightarrow> s | None \<Rightarrow> num_of_int 300000)"

definition presented_capabilities :: "json option \<Rightarrow> json list" where
  "presented_capabilities wireParams = (case extract_object wireParams HUBRPC_UNSIGNED_KEY of
     Some u \<Rightarrow> arr_of (field ''capabilities'' u)
   | None \<Rightarrow> [])"

definition verify_rpc_call :: "verifier \<Rightarrow> verify_opts \<Rightarrow> verify_rpc_result res" where
  "verify_rpc_call verify opts =
     (let wireParams = vo_wireParams opts; userParams = strip_wire_meta wireParams in
      case extract_object wireParams HUBRPC_META_KEY of
        None \<Rightarrow>
          if vo_requireSigned opts then Inr (RpcFail ''missing $hubrpc envelope'')
          else Inr (RpcOk None userParams)
      | Some metaObj \<Rightarrow> (case call_meta_of metaObj of
          None \<Rightarrow> Inr (RpcFail ''malformed linkrpc envelope'')
        | Some meta \<Rightarrow>
            if cm_method meta \<noteq> vo_wireMethod opts then Inr (RpcFail ''method mismatch'')
            else if max_skew opts < num_abs (num_sub (cm_signedAtMs meta) (vo_nowMs opts)) then
              Inr (RpcFail (''timestamp skew > '' @ num_to_string (max_skew opts) @ ''ms''))
            else (case (cm_principal meta, read_signature (the wireParams) ''call'') of
              (Some prin, Some signature) \<Rightarrow>
                (case resolve_signing_key prin (env_keyId signature) of
                  None \<Rightarrow> Inr (RpcFail (''unresolvable signing key for principal '' @ prin))
                | Some pk \<Rightarrow>
                    res_bind (verify_object verify ''call'' (the wireParams) pk) (\<lambda>sigOk.
                    if \<not> sigOk then Inr (RpcFail ''bad signature'')
                    else res_bind (signed_hash ''call'' (the wireParams)) (\<lambda>callHash.
                      Inr (RpcOk
                        (Some \<lparr>ci_callMeta = meta, ci_signer = prin, ci_callHash = callHash,
                               ci_capabilities = presented_capabilities wireParams\<rparr>)
                        userParams))))
            | _ \<Rightarrow>
                if vo_requireSigned opts then Inr (RpcFail ''unsigned call'')
                else Inr (RpcOk None userParams))))"

section \<open>From a verified envelope to a call\<close>

definition sign_params :: "sign_opts \<Rightarrow> json list \<Rightarrow> json res" where
  "sign_params opts capabilities =
     (case so_params opts of
        Some (JArr _) \<Rightarrow> Inl (JsError ''signParams: params must be an object or undefined'')
      | Some (JStr _) \<Rightarrow> Inl (JsError ''signParams: params must be an object or undefined'')
      | Some (JNum _) \<Rightarrow> Inl (JsError ''signParams: params must be an object or undefined'')
      | Some (JBool _) \<Rightarrow> Inl (JsError ''signParams: params must be an object or undefined'')
      | p \<Rightarrow>
          res_bind (sign_rpc_call (opts\<lparr>so_params := (if p = Some JNull then None else p)\<rparr>)) (\<lambda>c.
            Inr (if capabilities \<noteq> [] then attach_capabilities (sr_wireParams c) capabilities
                 else sr_wireParams c)))"

datatype fail_kind = CapabilityFail | EnvelopeFail

record verified_call =
  vc_signer :: string
  vc_call :: call
  vc_strippedParams :: "json option"
  vc_capabilities :: "json list"
  vc_nonce :: string
  vc_callHash :: string
  vc_callMeta :: call_meta
  vc_interfaceHash :: "string option"

datatype verify_result = VerifyOk verified_call | VerifyFail fail_kind string

definition verify_call ::
  "verifier \<Rightarrow> (string \<Rightarrow> call_target res) \<Rightarrow> string \<Rightarrow> json option \<Rightarrow> jsnum \<Rightarrow> jsnum option \<Rightarrow> bool
     \<Rightarrow> verify_result res" where
  "verify_call verify parseMethod meth params nowMs maxSkewMs requireCapability =
     res_bind (verify_rpc_call verify
       \<lparr>vo_wireMethod = meth, vo_wireParams = params, vo_nowMs = nowMs, vo_maxSkewMs = maxSkewMs,
        vo_requireSigned = requireCapability\<rparr>) (\<lambda>r.
     case r of
       RpcFail reason \<Rightarrow> Inr (VerifyFail EnvelopeFail reason)
     | RpcOk None _ \<Rightarrow> Inr (VerifyFail EnvelopeFail ''missing identity envelope'')
     | RpcOk (Some idn) userParams \<Rightarrow>
         if requireCapability \<and> ci_capabilities idn = [] then
           Inr (VerifyFail CapabilityFail ''capability required but none provided'')
         else res_bind (parseMethod meth) (\<lambda>target0.
           let meta = ci_callMeta idn;
               target = (case cm_interfaceHash meta of
                 Some h \<Rightarrow> target0\<lparr>ct_interfaceHash := Some h\<rparr> | None \<Rightarrow> target0);
               c = \<lparr>call_target = target, call_params = userParams, call_nonce = cm_nonce meta,
                    call_signedAtMs = cm_signedAtMs meta, call_signer = ci_signer idn,
                    call_callHash = ci_callHash idn\<rparr> in
           Inr (VerifyOk
             \<lparr>vc_signer = ci_signer idn, vc_call = c,
              vc_strippedParams = (case userParams of Some (JObj kvs) \<Rightarrow> Some (JObj kvs) | _ \<Rightarrow> None),
              vc_capabilities = ci_capabilities idn, vc_nonce = cm_nonce meta,
              vc_callHash = ci_callHash idn, vc_callMeta = meta,
              vc_interfaceHash = cm_interfaceHash meta\<rparr>)))"

section \<open>What a verification establishes\<close>

lemma call_meta_of_D:
  "call_meta_of j = Some m \<Longrightarrow>
     field ''method'' j = Some (JStr (cm_method m)) \<and> field ''nonce'' j = Some (JStr (cm_nonce m)) \<and>
     field ''signedAtMs'' j = Some (JNum (cm_signedAtMs m))"
  by (auto simp: call_meta_of_def split: option.splits json.splits if_splits)

lemma verify_rpc_call_RpcOk_D:
  assumes "verify_rpc_call verify opts = Inr (RpcOk (Some idn) p)"
  shows "\<exists>kvs metaObj. vo_wireParams opts = Some (JObj kvs) \<and>
    map_of kvs HUBRPC_META_KEY = Some metaObj \<and> call_meta_of metaObj = Some (ci_callMeta idn) \<and>
    cm_method (ci_callMeta idn) = vo_wireMethod opts \<and>
    cm_principal (ci_callMeta idn) = Some (ci_signer idn) \<and>
    \<not> max_skew opts < num_abs (num_sub (cm_signedAtMs (ci_callMeta idn)) (vo_nowMs opts)) \<and>
    verify_object_by_principal verify ''call'' (JObj kvs) (ci_signer idn) = Inr True \<and>
    signed_hash ''call'' (JObj kvs) = Inr (ci_callHash idn) \<and>
    ci_capabilities idn = presented_capabilities (vo_wireParams opts) \<and>
    p = strip_wire_meta (vo_wireParams opts)"
proof -
  obtain metaObj where mo: "extract_object (vo_wireParams opts) HUBRPC_META_KEY = Some metaObj"
    using assms by (auto simp: verify_rpc_call_def Let_def split: option.splits if_splits)
  then obtain kvs where kvs: "vo_wireParams opts = Some (JObj kvs)" "map_of kvs HUBRPC_META_KEY = Some metaObj"
    by (auto simp: extract_object_def split: option.splits json.splits)
  obtain meta where meta: "call_meta_of metaObj = Some meta"
    using assms mo by (auto simp: verify_rpc_call_def Let_def split: option.splits)
  have m: "cm_method meta = vo_wireMethod opts"
    "\<not> max_skew opts < num_abs (num_sub (cm_signedAtMs meta) (vo_nowMs opts))"
    using assms mo meta by (auto simp: verify_rpc_call_def Let_def split: if_splits)
  obtain prin sig where ps: "cm_principal meta = Some prin" "read_signature (JObj kvs) ''call'' = Some sig"
    using assms mo meta m kvs
    by (auto simp: verify_rpc_call_def Let_def split: option.splits if_splits)
  obtain pk where pk: "resolve_signing_key prin (env_keyId sig) = Some pk"
    using assms mo meta m kvs ps by (auto simp: verify_rpc_call_def Let_def split: option.splits)
  from assms mo meta m kvs ps pk have
    "verify_object verify ''call'' (JObj kvs) pk = Inr True"
    "signed_hash ''call'' (JObj kvs) = Inr (ci_callHash idn)"
    "ci_callMeta idn = meta" "ci_signer idn = prin"
    "ci_capabilities idn = presented_capabilities (vo_wireParams opts)"
    "p = strip_wire_meta (vo_wireParams opts)"
    by (auto simp: verify_rpc_call_def Let_def res_bind_Inr_iff split: if_splits)
  with kvs meta m ps pk show ?thesis
    by (auto simp: verify_object_by_principal_def)
qed

lemma call_meta_roundtrip: "call_meta_of (call_meta_json m) = Some m"
  by (cases "cm_principal m"; cases "cm_interfaceHash m")
    (simp_all add: call_meta_of_def call_meta_json_def is_str_def opt_str_def)

lemma json_finite_jm_set: "json_finite (JObj kvs) \<Longrightarrow> json_finite v \<Longrightarrow> json_finite (JObj (jm_set kvs k v))"
  using set_jm_set_subset [of kvs k v] by (auto simp: list_all_iff)

lemma json_finite_call_meta: "num_finite (cm_signedAtMs m) \<Longrightarrow> json_finite (call_meta_json m)"
  by (auto simp: call_meta_json_def split: option.splits)

lemma attach_capabilities_JObj:
  "attach_capabilities (JObj kvs) caps =
     (if caps = [] then JObj kvs
      else JObj (jm_set kvs HUBRPC_UNSIGNED_KEY
        (JObj (jm_set (spread (map_of kvs HUBRPC_UNSIGNED_KEY)) ''capabilities'' (JArr caps)))))"
  by (simp add: attach_capabilities_def)

text \<open>Attaching capabilities changes neither the signed bytes, nor the signatures.\<close>

lemma attach_preserves:
  "signing_input d (attach_capabilities (JObj kvs) caps) = signing_input d (JObj kvs)"
  "read_signature (attach_capabilities (JObj kvs) caps) d = read_signature (JObj kvs) d"
  by (auto simp: attach_capabilities_JObj signing_input_set_reserved read_signature_def hubrpc_keys)

lemma reserved_distinct [simp]:
  "HUBRPC_META_KEY \<noteq> HUBRPC_SIGNATURE_KEY" "HUBRPC_META_KEY \<noteq> HUBRPC_UNSIGNED_KEY"
  "HUBRPC_SIGNATURE_KEY \<noteq> HUBRPC_UNSIGNED_KEY" "HUBRPC_SIGNATURE_KEY \<noteq> HUBRPC_META_KEY"
  "HUBRPC_UNSIGNED_KEY \<noteq> HUBRPC_META_KEY" "HUBRPC_UNSIGNED_KEY \<noteq> HUBRPC_SIGNATURE_KEY"
  by (simp_all add: hubrpc_keys)

definition user_params_ok :: "(string \<times> json) list \<Rightarrow> bool" where
  "user_params_ok kvs = (json_finite (JObj kvs) \<and> list_all (\<lambda>k. k \<notin> fst ` set kvs) reserved_keys)"

text \<open>The wire parameters of a signed call.\<close>

definition wire_kvs :: "(string \<times> json) list \<Rightarrow> call_meta \<Rightarrow> json \<Rightarrow> (string \<times> json) list" where
  "wire_kvs user meta sigs =
     jm_set (jm_set user HUBRPC_META_KEY (call_meta_json meta)) HUBRPC_SIGNATURE_KEY sigs"

lemma sign_rpc_call_ok:
  assumes "holds_key verify (so_identity opts) pk" "so_params opts = Some (JObj user)"
    "user_params_ok user" "num_finite (so_nowMs opts)"
  shows "\<exists>c sigs. sign_rpc_call opts = Inr c \<and>
    sr_wireParams c = JObj (wire_kvs user (sr_callMeta c) sigs) \<and>
    sr_callMeta c = call_meta_for opts \<and>
    signed_hash ''call'' (sr_wireParams c) = Inr (sr_callHash c) \<and>
    verify_object_by_principal verify ''call'' (sr_wireParams c) (si_principal (so_identity opts)) = Inr True"
proof -
  let ?sp = "jm_set user HUBRPC_META_KEY (call_meta_json (call_meta_for opts))"
  have fin: "json_finite (JObj ?sp)"
    using assms(3,4) json_finite_call_meta [of "call_meta_for opts"]
    by (intro json_finite_jm_set) (simp_all add: user_params_ok_def call_meta_for_def)
  from sign_object_ok [OF assms(1) fin, of "''call''"] obtain input e where
    i: "signing_input ''call'' (JObj ?sp) = Inr input" and
    s: "sign_object ''call'' (JObj ?sp) (so_identity opts) = Inr (with_signature (JObj ?sp) ''call'' e)"
    by blast
  have v: "verify_object_by_principal verify ''call'' (with_signature (JObj ?sp) ''call'' e)
      (si_principal (so_identity opts)) = Inr True"
    by (rule sign_object_verifies [OF assms(1) s fin])
  obtain h where h: "signed_hash ''call'' (JObj ?sp) = Inr h"
    using i by (simp add: signed_hash_def)
  then have h': "signed_hash ''call'' (with_signature (JObj ?sp) ''call'' e) = Inr h"
    by (simp add: signed_hash_def signing_input_with_signature)
  have w: "\<exists>sigs. with_signature (JObj ?sp) ''call'' e = JObj (wire_kvs user (call_meta_for opts) sigs)"
    unfolding with_signature_def wire_kvs_def Let_def spread_simps by blast
  show ?thesis
    using h h' s v w assms(2) by (auto simp: sign_rpc_call_def require_object_params_def Let_def)
qed

lemma strip_wire_kvs:
  assumes "user_params_ok user"
  shows "strip_wire_meta (Some (attach_capabilities (JObj (wire_kvs user meta sigs)) caps)) = Some (JObj user)"
proof -
  have keep: "filter (\<lambda>(key, _). key \<notin> set reserved_keys) user = user"
    using assms by (auto simp: filter_id_conv user_params_ok_def list_all_iff image_iff)
  have set3: "filter (\<lambda>(key, _). key \<notin> set reserved_keys) (jm_set m k v) =
      filter (\<lambda>(key, _). key \<notin> set reserved_keys) m" if "k \<in> set reserved_keys" for m k v
    using that by (intro filter_jm_set) simp
  have mem: "HUBRPC_META_KEY \<in> set reserved_keys" "HUBRPC_SIGNATURE_KEY \<in> set reserved_keys"
    "HUBRPC_UNSIGNED_KEY \<in> set reserved_keys" by (simp_all add: reserved_keys_def)
  show ?thesis
    using mem keep
    by (auto simp: strip_wire_meta_def attach_capabilities_JObj wire_kvs_def keys_jm_set set3 list_ex_iff
        split: if_splits)
qed

lemma extract_wire_kvs:
  "user_params_ok user \<Longrightarrow>
   extract_object (Some (attach_capabilities (JObj (wire_kvs user meta sigs)) caps)) HUBRPC_META_KEY =
     Some (call_meta_json meta)"
  by (auto simp: extract_object_def attach_capabilities_JObj wire_kvs_def call_meta_json_def)

lemma presented_wire_kvs:
  assumes "user_params_ok user"
  shows "presented_capabilities (Some (attach_capabilities (JObj (wire_kvs user meta sigs)) caps)) = caps"
proof -
  have "map_of user HUBRPC_UNSIGNED_KEY = None"
    using assms by (auto simp: user_params_ok_def reserved_keys_def map_of_eq_None_iff)
  then show ?thesis
    by (auto simp: presented_capabilities_def extract_object_def attach_capabilities_JObj wire_kvs_def arr_of_def)
qed

lemma verify_object_attach:
  "verify_object verify d (attach_capabilities (JObj kvs) caps) k = verify_object verify d (JObj kvs) k"
  unfolding verify_object_def attach_preserves ..

lemma verify_object_by_principal_attach:
  "verify_object_by_principal verify d (attach_capabilities (JObj kvs) caps) prin =
   verify_object_by_principal verify d (JObj kvs) prin"
  unfolding verify_object_by_principal_def verify_object_attach attach_preserves ..

lemma sign_verify_rpc:
  assumes "holds_key verify (so_identity opts) pk" "so_params opts = Some (JObj user)"
    "user_params_ok user" "num_finite (so_nowMs opts)"
    and v: "vo_wireMethod vo = so_method opts"
      "\<not> max_skew vo < num_abs (num_sub (so_nowMs opts) (vo_nowMs vo))"
  shows "\<exists>c. sign_rpc_call opts = Inr c \<and>
    (vo_wireParams vo = Some (attach_capabilities (sr_wireParams c) caps) \<longrightarrow>
     verify_rpc_call verify vo = Inr (RpcOk
       (Some \<lparr>ci_callMeta = sr_callMeta c, ci_signer = si_principal (so_identity opts),
              ci_callHash = sr_callHash c, ci_capabilities = caps\<rparr>)
       (Some (JObj user))))"
proof -
  from sign_rpc_call_ok [OF assms(1-4)] obtain c sigs where
    c: "sign_rpc_call opts = Inr c" "sr_wireParams c = JObj (wire_kvs user (sr_callMeta c) sigs)"
      "sr_callMeta c = call_meta_for opts" "signed_hash ''call'' (sr_wireParams c) = Inr (sr_callHash c)"
      "verify_object_by_principal verify ''call'' (sr_wireParams c) (si_principal (so_identity opts)) = Inr True"
    by blast
  let ?w = "attach_capabilities (sr_wireParams c) caps"
  let ?prin = "si_principal (so_identity opts)"
  have "verify_object_by_principal verify ''call'' ?w ?prin = Inr True"
    using c(2,5) by (simp add: verify_object_by_principal_attach)
  then obtain sig pk' where s: "read_signature ?w ''call'' = Some sig"
    "resolve_signing_key ?prin (env_keyId sig) = Some pk'" "verify_object verify ''call'' ?w pk' = Inr True"
    by (auto simp: verify_object_by_principal_def split: option.splits)
  have h: "signed_hash ''call'' ?w = Inr (sr_callHash c)"
    using c(2,4) by (simp add: signed_hash_def attach_preserves)
  have meta: "cm_method (sr_callMeta c) = so_method opts" "cm_signedAtMs (sr_callMeta c) = so_nowMs opts"
    "cm_principal (sr_callMeta c) = Some ?prin"
    using c(3) by (simp_all add: call_meta_for_def)
  have "verify_rpc_call verify vo = Inr (RpcOk
       (Some \<lparr>ci_callMeta = sr_callMeta c, ci_signer = ?prin, ci_callHash = sr_callHash c,
              ci_capabilities = caps\<rparr>) (Some (JObj user)))"
    if "vo_wireParams vo = Some ?w"
    using that s h v c(2) meta assms(3)
    by (simp add: verify_rpc_call_def extract_wire_kvs call_meta_roundtrip strip_wire_kvs
        presented_wire_kvs Let_def)
  with c(1) show ?thesis by blast
qed

section \<open>Properties\<close>

text \<open>C21: What a verified signed call establishes: the signed method is the method on the wire, the
  timestamp is inside the skew window, the signature of the named principal verifies over the
  parameters received, the call hash is the hash of exactly these parameters, and the handler
  sees them without the reserved keys.  With \<^verbatim>\<open>requireSigned\<close> no unsigned call is accepted.\<close>

theorem verify_rpc_call_sound:
  assumes "verify_rpc_call verify opts = Inr (RpcOk (Some idn) p)"
  shows "cm_method (ci_callMeta idn) = vo_wireMethod opts \<and>
    cm_principal (ci_callMeta idn) = Some (ci_signer idn) \<and>
    \<not> max_skew opts < num_abs (num_sub (cm_signedAtMs (ci_callMeta idn)) (vo_nowMs opts)) \<and>
    (\<exists>kvs. vo_wireParams opts = Some (JObj kvs) \<and>
       verify_object_by_principal verify ''call'' (JObj kvs) (ci_signer idn) = Inr True \<and>
       signed_hash ''call'' (JObj kvs) = Inr (ci_callHash idn) \<and>
       p = strip_wire_meta (Some (JObj kvs))) \<and>
    (vo_requireSigned opts \<longrightarrow> verify_rpc_call verify opts \<noteq> Inr (RpcOk None q))"
  using verify_rpc_call_RpcOk_D [OF assms] assms by auto

text \<open>The values the witnesses of this and later theories use: a scheme whose signature is the key
  followed by the message.\<close>

definition demo_verify :: verifier where
  "demo_verify pk m s = (s = pk @ m)"

definition demo_identity :: "8 word \<Rightarrow> signing_identity" where
  "demo_identity k = \<lparr>si_principal = principal_for_public_key [k], si_sign = (\<lambda>m. k # m)\<rparr>"

definition demo_opts :: sign_opts where
  "demo_opts =
     \<lparr>so_method = ''s::i::m'', so_params = Some (JObj [(''x'', JNull)]), so_identity = demo_identity 7,
      so_nowMs = Dec 5 0, so_nonce = [1, 2, 3], so_interfaceHash = None\<rparr>"

lemma demo_holds_key: "holds_key demo_verify (demo_identity k) [k]"
  by (simp add: holds_key_def demo_verify_def demo_identity_def)

lemma demo_user_ok: "user_params_ok [(''x'', JNull)]"
  by (simp add: user_params_ok_def reserved_keys_def hubrpc_keys)

theorem verify_rpc_call_sound_witness:
  "\<exists>idn p vo. verify_rpc_call demo_verify vo = Inr (RpcOk (Some idn) p) \<and>
     cm_method (ci_callMeta idn) = ''s::i::m''"
proof -
  define vo where "vo w = \<lparr>vo_wireMethod = ''s::i::m'', vo_wireParams = Some w, vo_nowMs = Dec 6 0,
    vo_maxSkewMs = None, vo_requireSigned = True\<rparr>" for w
  have skew: "\<not> max_skew (vo w) < num_abs (num_sub (so_nowMs demo_opts) (vo_nowMs (vo w)))" for w
    unfolding vo_def max_skew_def demo_opts_def by simp code_simp
  have hk: "holds_key demo_verify (so_identity demo_opts) [7]"
    using demo_holds_key by (simp add: demo_opts_def)
  have par: "so_params demo_opts = Some (JObj [(''x'', JNull)])" "num_finite (so_nowMs demo_opts)"
    by (simp_all add: demo_opts_def num_finite_def)
  have meth: "vo_wireMethod (vo w) = so_method demo_opts" for w by (simp add: vo_def demo_opts_def)
  obtain c where "sign_rpc_call demo_opts = Inr c"
    using sign_verify_rpc [OF hk par(1) demo_user_ok par(2) meth skew] by blast
  moreover obtain idn p where
    "verify_rpc_call demo_verify (vo (attach_capabilities (sr_wireParams c) [])) = Inr (RpcOk (Some idn) p)"
    using sign_verify_rpc [OF hk par(1) demo_user_ok par(2) meth skew, of
        "attach_capabilities (sr_wireParams c) []" "[]"] calculation
    by (auto simp: vo_def)
  moreover from verify_rpc_call_sound [OF this(1)] have "cm_method (ci_callMeta idn) = ''s::i::m''"
    by (simp add: vo_def)
  ultimately show ?thesis by blast
qed

text \<open>Round trip of a call: what a sender signs, with capabilities attached afterwards, the
  verifier accepts inside the skew window; it recovers the sender's principal, call hash, meta,
  capabilities and exactly the user's parameters.\<close>

theorem sign_verify_rpc_roundtrip:
  assumes "holds_key verify (so_identity opts) pk" "so_params opts = Some (JObj user)"
    "user_params_ok user" "num_finite (so_nowMs opts)"
    "\<not> skew < num_abs (num_sub (so_nowMs opts) now)"
  shows "\<exists>c. sign_rpc_call opts = Inr c \<and>
    verify_rpc_call verify
      \<lparr>vo_wireMethod = so_method opts, vo_wireParams = Some (attach_capabilities (sr_wireParams c) caps),
       vo_nowMs = now, vo_maxSkewMs = Some skew, vo_requireSigned = req\<rparr> =
    Inr (RpcOk
       (Some \<lparr>ci_callMeta = sr_callMeta c, ci_signer = si_principal (so_identity opts),
              ci_callHash = sr_callHash c, ci_capabilities = caps\<rparr>)
       (Some (JObj user)))"
proof -
  define vo where "vo w = \<lparr>vo_wireMethod = so_method opts, vo_wireParams = Some w,
    vo_nowMs = now, vo_maxSkewMs = Some skew, vo_requireSigned = req\<rparr>" for w
  have sk: "vo_wireMethod (vo w) = so_method opts"
    "\<not> max_skew (vo w) < num_abs (num_sub (so_nowMs opts) (vo_nowMs (vo w)))" for w
    using assms(5) by (simp_all add: vo_def max_skew_def)
  from sign_verify_rpc [OF assms(1-4) sk] obtain c where c: "sign_rpc_call opts = Inr c" by blast
  from sign_verify_rpc [OF assms(1-4) sk, of "attach_capabilities (sr_wireParams c) caps" caps] c
  have "verify_rpc_call verify (vo (attach_capabilities (sr_wireParams c) caps)) =
    Inr (RpcOk
       (Some \<lparr>ci_callMeta = sr_callMeta c, ci_signer = si_principal (so_identity opts),
              ci_callHash = sr_callHash c, ci_capabilities = caps\<rparr>)
       (Some (JObj user)))"
    by (simp add: vo_def)
  with c show ?thesis by (auto simp: vo_def)
qed

theorem sign_verify_rpc_roundtrip_witness:
  "\<exists>c. sign_rpc_call demo_opts = Inr c \<and>
    verify_rpc_call demo_verify
      \<lparr>vo_wireMethod = ''s::i::m'', vo_wireParams = Some (attach_capabilities (sr_wireParams c) [JNull]),
       vo_nowMs = Dec 6 0, vo_maxSkewMs = Some (Dec 3 1), vo_requireSigned = True\<rparr> =
    Inr (RpcOk
       (Some \<lparr>ci_callMeta = sr_callMeta c, ci_signer = si_principal (demo_identity 7),
              ci_callHash = sr_callHash c, ci_capabilities = [JNull]\<rparr>)
       (Some (JObj [(''x'', JNull)])))"
proof -
  have "holds_key demo_verify (so_identity demo_opts) [7]"
    "so_params demo_opts = Some (JObj [(''x'', JNull)])" "num_finite (so_nowMs demo_opts)"
    using demo_holds_key by (simp_all add: demo_opts_def num_finite_def)
  moreover have "\<not> Dec 3 1 < num_abs (num_sub (so_nowMs demo_opts) (Dec 6 0))"
    unfolding demo_opts_def by simp code_simp
  ultimately show ?thesis
    using sign_verify_rpc_roundtrip [of demo_verify demo_opts "[7]" "[(''x'', JNull)]" "Dec 3 1" "Dec 6 0"
        "[JNull]" True] demo_user_ok
    by (simp add: demo_opts_def)
qed

end
