(* ===== verification/Chain.thy ===== *)
theory Chain
  imports Coverage Envelope
begin

text \<open>
  \<^verbatim>\<open>identity/capability.ts\<close>, the authorization half: freshness, the recursive link verifier,
  the chain verifier over a presented bag, and \<^verbatim>\<open>permits\<close>.  The link verifier is generic in
  the permission check its caller passes; the locale \<open>link_check\<close> is that interface, and the
  callers (\<open>permits\<close> here, issuance later) interpret it on their own checks.  The
  abstract specification is a delegation chain: a list of links from the leaf to the root.
\<close>

section \<open>Freshness\<close>

definition capability_fresh_at :: "'a capability_scheme \<Rightarrow> jsnum \<Rightarrow> jsnum \<Rightarrow> bool" where
  "capability_fresh_at cap now margin = (case cap_expiresAtMs cap of
     None \<Rightarrow> True
   | Some e \<Rightarrow> num_add now margin < e)"

definition cap_bag_fresh_at :: "'a capability_scheme list \<Rightarrow> jsnum \<Rightarrow> jsnum \<Rightarrow> bool" where
  "cap_bag_fresh_at caps now margin = list_all (\<lambda>c. capability_fresh_at c now margin) caps"

section \<open>One link\<close>

datatype link_result = LinkOk string | LinkFail string

type_synonym cap_check = "signed_capability \<Rightarrow> bool \<Rightarrow> verdict res"

definition link_expired :: "signed_capability \<Rightarrow> jsnum \<Rightarrow> bool" where
  "link_expired link nowMs = (case cap_expiresAtMs link of None \<Rightarrow> False | Some e \<Rightarrow> e < nowMs)"

definition link_key_id :: "signed_capability \<Rightarrow> string" where
  "link_key_id link = (case read_signature (sc_raw link) ''capability'' of
     Some env \<Rightarrow> env_keyId env | None \<Rightarrow> [])"

fun verify_link ::
  "verifier \<Rightarrow> (string \<Rightarrow> signed_capability option) \<Rightarrow> cap_check \<Rightarrow> jsnum \<Rightarrow> nat
     \<Rightarrow> signed_capability \<Rightarrow> string \<Rightarrow> bool \<Rightarrow> link_result res" where
  "verify_link verify resolveParent checkPermission nowMs 0 link expectedAudience isLeaf =
     Inr (LinkFail ''chain too deep'')"
| "verify_link verify resolveParent checkPermission nowMs (Suc depthLeft) link expectedAudience isLeaf =
     (if cap_audience link \<noteq> expectedAudience then
        Inr (LinkFail (''audience mismatch (expected '' @ expectedAudience @ '', got '' @ cap_audience link @ '')''))
      else if link_expired link nowMs then Inr (LinkFail ''expired'')
      else res_bind (checkPermission link isLeaf) (\<lambda>permitted.
        case permitted of
          Deny reason \<Rightarrow> Inr (LinkFail reason)
        | Ok \<Rightarrow> (case resolve_signing_key (cap_issuer link) (link_key_id link) of
            None \<Rightarrow> Inr (LinkFail ''unresolvable issuer key'')
          | Some issuerKey \<Rightarrow>
              res_bind (verify_object verify ''capability'' (sc_raw link) issuerKey) (\<lambda>sigOk.
              if \<not> sigOk then Inr (LinkFail ''bad signature'')
              else (case cap_parentHash link of
                None \<Rightarrow> Inr (LinkOk (cap_issuer link))
              | Some parentHash \<Rightarrow> (case resolveParent parentHash of
                  None \<Rightarrow> Inr (LinkFail ''parent capability not presented'')
                | Some parent \<Rightarrow>
                    res_bind (signed_hash ''capability'' (sc_raw parent)) (\<lambda>h.
                    if h \<noteq> parentHash then Inr (LinkFail ''parent hash mismatch'')
                    else verify_link verify resolveParent checkPermission nowMs depthLeft
                      parent (cap_issuer link) False)))))))"

section \<open>The chain over a presented bag\<close>

text \<open>\<^verbatim>\<open>byHash\<close>: the bag by content hash, the last entry with a hash winning.\<close>

fun content_index :: "(string \<times> signed_capability) list \<Rightarrow> signed_capability list
    \<Rightarrow> (string \<times> signed_capability) list res" where
  "content_index idx [] = Inr idx"
| "content_index idx (c # cs) =
     res_bind (signed_hash ''capability'' (sc_raw c)) (\<lambda>h. content_index (jm_set idx h c) cs)"

datatype chain_result =
    ChainOk string string
  | ChainFail string "string option"

record chain_state =
  cs_leafReason :: "string option"
  cs_anyReason :: string
  cs_unacceptedRoot :: "string option"

fun chain_go ::
  "(signed_capability \<Rightarrow> link_result res) \<Rightarrow> string \<Rightarrow> (string \<Rightarrow> bool) \<Rightarrow> chain_state
     \<Rightarrow> signed_capability list \<Rightarrow> chain_result res" where
  "chain_go vl expectedAudience acceptRoot st [] = Inr (case cs_unacceptedRoot st of
       Some r \<Rightarrow> ChainFail ''no chain roots at an accepted issuer'' (Some r)
     | None \<Rightarrow> ChainFail (case cs_leafReason st of Some r \<Rightarrow> r | None \<Rightarrow> cs_anyReason st) None)"
| "chain_go vl expectedAudience acceptRoot st (leaf # rest) =
     res_bind (vl leaf) (\<lambda>r. case r of
       LinkFail reason \<Rightarrow>
         chain_go vl expectedAudience acceptRoot
           (st\<lparr>cs_anyReason := reason,
               cs_leafReason := (if cap_audience leaf = expectedAudience then Some reason
                 else cs_leafReason st)\<rparr>) rest
     | LinkOk rootIssuer \<Rightarrow>
         if \<not> acceptRoot rootIssuer then
           chain_go vl expectedAudience acceptRoot (st\<lparr>cs_unacceptedRoot := Some rootIssuer\<rparr>) rest
         else Inr (ChainOk rootIssuer (cap_nonce leaf)))"

definition call_check :: "call \<Rightarrow> cap_check" where
  "call_check c link isLeaf = capability_permits c link (if isLeaf then Invoke else Delegate)"

definition verify_chain ::
  "verifier \<Rightarrow> signed_capability list \<Rightarrow> call \<Rightarrow> string \<Rightarrow> jsnum \<Rightarrow> (string \<Rightarrow> bool) \<Rightarrow> nat
     \<Rightarrow> chain_result res" where
  "verify_chain verify capabilities c expectedAudience nowMs acceptRoot maxDepth =
     res_bind (content_index [] capabilities) (\<lambda>byHash.
       chain_go
         (\<lambda>leaf. verify_link verify (jm_get byHash) (call_check c) nowMs maxDepth leaf expectedAudience True)
         expectedAudience acceptRoot
         \<lparr>cs_leafReason = None, cs_anyReason = ''no presented capability addresses this call'',
          cs_unacceptedRoot = None\<rparr>
         capabilities)"

section \<open>The authorization predicate\<close>

record accepted_root =
  ar_principal :: string
  ar_isPublic :: bool

datatype permit_result = Permitted string string | NotPermitted string

definition root_issuer_rejected_reason :: "string \<Rightarrow> string \<Rightarrow> accepted_root list \<Rightarrow> string" where
  "root_issuer_rejected_reason serviceId rootIssuer accepted =
     (let head = ''capability root issuer '' @ rootIssuer @ '' is not accepted for service \"'' @ serviceId @ ''\"'';
          publicIds = map ar_principal (filter ar_isPublic accepted) in
      if accepted = [] then head @ '' (no root issuers are accepted for this service)''
      else if publicIds = [] then head
      else head @ ''; accepted root issuer(s): '' @ js_join '', '' publicIds)"

text \<open>\<^verbatim>\<open>opts.maxDepth ?? 16\<close>.\<close>

definition permit_depth :: "nat option \<Rightarrow> nat" where
  "permit_depth maxDepth = (case maxDepth of Some d \<Rightarrow> d | None \<Rightarrow> 16)"

definition permits ::
  "verifier \<Rightarrow> call \<Rightarrow> json list \<Rightarrow> (string \<Rightarrow> accepted_root list) \<Rightarrow> jsnum \<Rightarrow> nat option
     \<Rightarrow> permit_result res" where
  "permits verify c capabilities acceptedRootIssuers nowMs maxDepth =
     (if capabilities = [] then Inr (NotPermitted ''no capabilities were presented with this call'')
      else if \<not> list_all has_signed_capability_shape capabilities then
        Inr (NotPermitted ''malformed capability'')
      else
        let accepted = acceptedRootIssuers (ct_serviceId (call_target c));
            acceptedIds = map ar_principal accepted in
        res_bind (verify_chain verify (map signed_capability_of capabilities) c (call_signer c) nowMs
            (\<lambda>rootIssuer. rootIssuer \<in> set acceptedIds)
            (permit_depth maxDepth)) (\<lambda>chain.
        case chain of
          ChainOk rootIssuer leafNonce \<Rightarrow> Inr (Permitted leafNonce rootIssuer)
        | ChainFail reason (Some root) \<Rightarrow>
            Inr (NotPermitted (root_issuer_rejected_reason (ct_serviceId (call_target c)) root accepted))
        | ChainFail reason None \<Rightarrow> Inr (NotPermitted reason)))"

section \<open>Specification: delegation chains\<close>

text \<open>The issuer of the link really signed it.\<close>

definition authentic :: "verifier \<Rightarrow> signed_capability \<Rightarrow> bool" where
  "authentic verify link \<longleftrightarrow>
     (\<exists>pk. resolve_signing_key (cap_issuer link) (link_key_id link) = Some pk \<and>
        verify_object verify ''capability'' (sc_raw link) pk = Inr True)"

text \<open>A chain from a leaf held by \<open>aud\<close> up to a root: every link authentic, unexpired and
  passing the check, each held by the issuer of the one before and named by its hash.\<close>

fun delegation_chain ::
  "verifier \<Rightarrow> cap_check \<Rightarrow> jsnum \<Rightarrow> string \<Rightarrow> bool \<Rightarrow> signed_capability list \<Rightarrow> bool" where
  "delegation_chain verify check nowMs aud leaf [] = False"
| "delegation_chain verify check nowMs aud leaf (l # ls) =
     (cap_audience l = aud \<and> \<not> link_expired l nowMs \<and> check l leaf = Inr Ok \<and> authentic verify l \<and>
      (case ls of
         [] \<Rightarrow> cap_parentHash l = None
       | p # _ \<Rightarrow> (\<exists>h. cap_parentHash l = Some h \<and> signed_hash ''capability'' (sc_raw p) = Inr h) \<and>
           delegation_chain verify check nowMs (cap_issuer l) False ls))"

text \<open>The links are found in the bag under the hashes that name them.\<close>

fun resolved_chain :: "(string \<Rightarrow> signed_capability option) \<Rightarrow> signed_capability list \<Rightarrow> bool" where
  "resolved_chain resolve (l # p # ls) =
     ((case cap_parentHash l of Some h \<Rightarrow> resolve h = Some p | None \<Rightarrow> False) \<and>
      resolved_chain resolve (p # ls))"
| "resolved_chain resolve _ = True"

lemma verify_link_step:
  "verify_link verify resolve check nowMs (Suc d) link aud leaf = Inr (LinkOk root) \<longleftrightarrow>
     cap_audience link = aud \<and> \<not> link_expired link nowMs \<and> check link leaf = Inr Ok \<and>
     authentic verify link \<and>
     (case cap_parentHash link of
        None \<Rightarrow> root = cap_issuer link
      | Some h \<Rightarrow> (\<exists>p. resolve h = Some p \<and> signed_hash ''capability'' (sc_raw p) = Inr h \<and>
          verify_link verify resolve check nowMs d p (cap_issuer link) False = Inr (LinkOk root)))"
proof (cases "cap_audience link = aud \<and> \<not> link_expired link nowMs \<and> check link leaf = Inr Ok")
  case True
  show ?thesis
  proof (cases "resolve_signing_key (cap_issuer link) (link_key_id link)")
    case None
    with True show ?thesis by (simp add: authentic_def)
  next
    case (Some pk)
    then have auth: "authentic verify link \<longleftrightarrow> verify_object verify ''capability'' (sc_raw link) pk = Inr True"
      by (simp add: authentic_def)
    have tail: "(case cap_parentHash link of
                None \<Rightarrow> Inr (LinkOk (cap_issuer link))
              | Some parentHash \<Rightarrow> (case resolve parentHash of
                  None \<Rightarrow> Inr (LinkFail ''parent capability not presented'')
                | Some parent \<Rightarrow>
                    res_bind (signed_hash ''capability'' (sc_raw parent)) (\<lambda>h.
                    if h \<noteq> parentHash then Inr (LinkFail ''parent hash mismatch'')
                    else verify_link verify resolve check nowMs d parent (cap_issuer link) False))) =
        Inr (LinkOk root) \<longleftrightarrow>
      (case cap_parentHash link of
        None \<Rightarrow> root = cap_issuer link
      | Some h \<Rightarrow> (\<exists>p. resolve h = Some p \<and> signed_hash ''capability'' (sc_raw p) = Inr h \<and>
          verify_link verify resolve check nowMs d p (cap_issuer link) False = Inr (LinkOk root)))"
      by (auto simp: res_bind_Inr_iff split: option.split if_splits)
    show ?thesis
    proof (cases "verify_object verify ''capability'' (sc_raw link) pk")
      case (Inl e)
      with True Some auth show ?thesis by simp
    next
      case (Inr b)
      with True Some auth tail show ?thesis by (cases b) (simp_all del: not_Deny_iff)
    qed
  qed
next
  case False
  then consider "cap_audience link \<noteq> aud" | "link_expired link nowMs"
    | e where "check link leaf = Inl e" | r where "check link leaf = Inr (Deny r)"
    by (cases "check link leaf"; cases "projr (check link leaf)") auto
  then show ?thesis by cases simp_all
qed

lemma verify_link_ok_iff:
  "verify_link verify resolve check nowMs d link aud leaf = Inr (LinkOk root) \<longleftrightarrow>
     (\<exists>ls. delegation_chain verify check nowMs aud leaf (link # ls) \<and> resolved_chain resolve (link # ls) \<and>
        length (link # ls) \<le> d \<and> root = cap_issuer (last (link # ls)))"
  (is "?v d link aud leaf \<longleftrightarrow> ?chain d link aud leaf")
proof (induction d arbitrary: link aud leaf)
  case (Suc d)
  let ?head = "cap_audience link = aud \<and> \<not> link_expired link nowMs \<and> check link leaf = Inr Ok \<and>
    authentic verify link"
  note step = verify_link_step [of verify resolve check nowMs d link aud leaf root]
  show ?case
  proof (cases "cap_parentHash link")
    case None
    have "?chain (Suc d) link aud leaf \<longleftrightarrow> ?head \<and> root = cap_issuer link"
    proof
      assume "?chain (Suc d) link aud leaf"
      then obtain ls where "delegation_chain verify check nowMs aud leaf (link # ls)"
        "root = cap_issuer (last (link # ls))" by blast
      with None show "?head \<and> root = cap_issuer link" by (cases ls) auto
    next
      assume "?head \<and> root = cap_issuer link"
      with None show "?chain (Suc d) link aud leaf" by (intro exI [of _ "[]"]) auto
    qed
    with step None show ?thesis by simp
  next
    case (Some h)
    have "?chain (Suc d) link aud leaf \<longleftrightarrow> ?head \<and> (\<exists>p. resolve h = Some p \<and>
        signed_hash ''capability'' (sc_raw p) = Inr h \<and> ?chain d p (cap_issuer link) False)"
    proof
      assume "?chain (Suc d) link aud leaf"
      then obtain ls where ls: "delegation_chain verify check nowMs aud leaf (link # ls)"
        "resolved_chain resolve (link # ls)" "length (link # ls) \<le> Suc d"
        "root = cap_issuer (last (link # ls))" by blast
      with Some obtain p ps where "ls = p # ps" by (cases ls) auto
      with ls Some have "?head" "resolve h = Some p" "signed_hash ''capability'' (sc_raw p) = Inr h"
        "delegation_chain verify check nowMs (cap_issuer link) False (p # ps)"
        "resolved_chain resolve (p # ps)" "length (p # ps) \<le> d" "root = cap_issuer (last (p # ps))"
        by simp_all
      then show "?head \<and> (\<exists>p. resolve h = Some p \<and>
        signed_hash ''capability'' (sc_raw p) = Inr h \<and> ?chain d p (cap_issuer link) False)"
        by blast
    next
      assume *: "?head \<and> (\<exists>p. resolve h = Some p \<and>
        signed_hash ''capability'' (sc_raw p) = Inr h \<and> ?chain d p (cap_issuer link) False)"
      then obtain p ps where "resolve h = Some p" "signed_hash ''capability'' (sc_raw p) = Inr h"
        "delegation_chain verify check nowMs (cap_issuer link) False (p # ps)"
        "resolved_chain resolve (p # ps)" "length (p # ps) \<le> d" "root = cap_issuer (last (p # ps))"
        by blast
      with * Some show "?chain (Suc d) link aud leaf" by (intro exI [of _ "p # ps"]) simp
    qed
    with step Some Suc.IH show ?thesis by simp
  qed
qed simp

declare verify_link.simps [simp del]

section \<open>The permission check as an interface\<close>

text \<open>What a caller of the link verifier owes it: a check whose \<open>Ok\<close> means that the link
  admits what the caller asks (\<open>True\<close> for the leaf, \<open>False\<close> for an ancestor).  What it gets:
  a chain every link of which admits it.\<close>

fun linked :: "signed_capability list \<Rightarrow> bool" where
  "linked [] = False"
| "linked [l] = (cap_parentHash l = None)"
| "linked (l # p # ls) =
     (cap_audience p = cap_issuer l \<and>
      (\<exists>h. cap_parentHash l = Some h \<and> signed_hash ''capability'' (sc_raw p) = Inr h) \<and> linked (p # ls))"

locale link_check =
  fixes check :: cap_check
    and admits :: "signed_capability \<Rightarrow> bool \<Rightarrow> bool"
  assumes check_Ok: "check l leaf = Inr Ok \<Longrightarrow> admits l leaf"
begin

lemma chain_admits:
  "delegation_chain verify check nowMs aud leaf (l # ls) \<Longrightarrow>
     cap_audience l = aud \<and> admits l leaf \<and> (\<forall>p\<in>set ls. admits p False) \<and> linked (l # ls) \<and>
     (\<forall>p\<in>set (l # ls). authentic verify p \<and> \<not> link_expired p nowMs)"
proof (induction ls arbitrary: l aud leaf)
  case Nil
  then show ?case by (simp add: check_Ok)
next
  case (Cons p ps)
  from Cons.prems have "delegation_chain verify check nowMs (cap_issuer l) False (p # ps)" by simp
  from Cons.IH [OF this] have tail: "cap_audience p = cap_issuer l" "admits p False"
    "\<forall>q\<in>set ps. admits q False" "linked (p # ps)"
    "\<forall>q\<in>set (p # ps). authentic verify q \<and> \<not> link_expired q nowMs" by blast+
  from Cons.prems have "cap_audience l = aud" "check l leaf = Inr Ok" "authentic verify l"
    "\<not> link_expired l nowMs"
    "\<exists>h. cap_parentHash l = Some h \<and> signed_hash ''capability'' (sc_raw p) = Inr h" by simp_all
  with tail check_Ok show ?case by simp
qed

lemma verified_link_admits:
  assumes "verify_link verify resolve check nowMs d l aud leaf = Inr (LinkOk root)"
  shows "\<exists>ls. resolved_chain resolve (l # ls) \<and> linked (l # ls) \<and> length (l # ls) \<le> d \<and>
    root = cap_issuer (last (l # ls)) \<and> cap_audience l = aud \<and> admits l leaf \<and>
    (\<forall>p\<in>set ls. admits p False) \<and>
    (\<forall>p\<in>set (l # ls). authentic verify p \<and> \<not> link_expired p nowMs)"
proof -
  from assms obtain ls where ls: "delegation_chain verify check nowMs aud leaf (l # ls)"
    "resolved_chain resolve (l # ls)" "length (l # ls) \<le> d" "root = cap_issuer (last (l # ls))"
    unfolding verify_link_ok_iff by blast
  from chain_admits [OF ls(1)] ls(2-) show ?thesis by blast
qed

end

text \<open>The check of \<open>permits\<close>: some permission of the link admits the call, with the ability its
  place in the chain needs.\<close>

definition link_admits_call :: "call \<Rightarrow> signed_capability \<Rightarrow> bool \<Rightarrow> bool" where
  "link_admits_call c l leaf \<longleftrightarrow>
     (\<exists>p\<in>set (cap_permissions l). permission_permits c p (if leaf then Invoke else Delegate) = Inr Ok)"

interpretation call_link: link_check "call_check c" "link_admits_call c" for c
  by unfold_locales (auto simp: call_check_def link_admits_call_def dest: capability_permits_Ok)

section \<open>The bag and the search\<close>

lemma content_index_get:
  "content_index idx cs = Inr idx' \<Longrightarrow> jm_get idx' h = Some c \<Longrightarrow>
     (c \<in> set cs \<and> signed_hash ''capability'' (sc_raw c) = Inr h) \<or> jm_get idx h = Some c"
proof (induction idx cs rule: content_index.induct)
  case (2 idx c0 cs)
  then show ?case by (fastforce simp: res_bind_Inr_iff split: if_splits)
qed simp

lemma resolved_chain_members:
  assumes "content_index [] cs = Inr idx" "resolved_chain (jm_get idx) (l # ls)" "l \<in> set cs"
  shows "set (l # ls) \<subseteq> set cs"
  using assms(2,3)
proof (induction ls arbitrary: l)
  case (Cons p ps)
  then obtain h where "jm_get idx h = Some p" by (auto split: option.splits)
  with content_index_get [OF assms(1)] have "p \<in> set cs" by fastforce
  with Cons show ?case by (auto split: option.splits)
qed simp

lemma chain_go_ok:
  "chain_go vl aud acc st cs = Inr (ChainOk root nonce) \<Longrightarrow>
     \<exists>leaf\<in>set cs. vl leaf = Inr (LinkOk root) \<and> acc root \<and> nonce = cap_nonce leaf"
proof (induction vl aud acc st cs rule: chain_go.induct)
  case (2 vl aud acc st leaf rest)
  from 2(3) obtain r where r: "vl leaf = Inr r" by (auto simp: res_bind_Inr_iff)
  with 2 show ?case by (cases r) (auto split: if_splits)
qed (simp split: option.splits)

lemma chain_go_complete:
  assumes "\<forall>c\<in>set cs. is_ok (vl c)" "leaf \<in> set cs" "vl leaf = Inr (LinkOk root)" "acc root"
  shows "\<exists>root' nonce. chain_go vl aud acc st cs = Inr (ChainOk root' nonce)"
  using assms
proof (induction vl aud acc st cs rule: chain_go.induct)
  case (2 vl aud acc st c rest)
  then obtain r where r: "vl c = Inr r" by (auto simp: is_ok_def split: sum.splits)
  with 2 show ?case by (cases r) auto
qed simp

lemma permits_Permitted_D:
  assumes "permits verify c caps acc nowMs md = Inr (Permitted nonce root)"
  shows "caps \<noteq> [] \<and> list_all has_signed_capability_shape caps \<and>
    root \<in> ar_principal ` set (acc (ct_serviceId (call_target c))) \<and>
    (\<exists>idx. content_index [] (map signed_capability_of caps) = Inr idx \<and>
      (\<exists>leaf\<in>set (map signed_capability_of caps). nonce = cap_nonce leaf \<and>
         verify_link verify (jm_get idx) (call_check c) nowMs (permit_depth md) leaf (call_signer c) True =
           Inr (LinkOk root)))"
proof -
  let ?accept = "\<lambda>r. r \<in> set (map ar_principal (acc (ct_serviceId (call_target c))))"
  have ne: "caps \<noteq> []" "list_all has_signed_capability_shape caps"
    using assms by (auto simp: permits_def split: if_splits)
  with assms obtain r where r: "verify_chain verify (map signed_capability_of caps) c (call_signer c) nowMs
      ?accept (permit_depth md) = Inr r"
    by (auto simp: permits_def Let_def res_bind_Inr_iff)
  with ne assms have "r = ChainOk root nonce"
    by (cases r) (auto simp: permits_def Let_def split: option.splits)
  with r have "verify_chain verify (map signed_capability_of caps) c (call_signer c) nowMs ?accept
      (permit_depth md) = Inr (ChainOk root nonce)" by simp
  then obtain idx where idx: "content_index [] (map signed_capability_of caps) = Inr idx"
    and "chain_go (\<lambda>leaf. verify_link verify (jm_get idx) (call_check c) nowMs (permit_depth md) leaf
        (call_signer c) True) (call_signer c) ?accept
        \<lparr>cs_leafReason = None, cs_anyReason = ''no presented capability addresses this call'',
          cs_unacceptedRoot = None\<rparr> (map signed_capability_of caps) = Inr (ChainOk root nonce)"
    by (auto simp: verify_chain_def res_bind_Inr_iff)
  from chain_go_ok [OF this(2)] idx ne show ?thesis by auto
qed

section \<open>Issuing\<close>

definition capability_object ::
  "string \<Rightarrow> string \<Rightarrow> json list \<Rightarrow> string \<Rightarrow> jsnum option \<Rightarrow> string option \<Rightarrow> json" where
  "capability_object issuer audience permissions nonce expiresAtMs parentHash = JObj
     ([(''issuer'', JStr issuer), (''audience'', JStr audience), (''permissions'', JArr permissions),
       (''nonce'', JStr nonce)]
      @ (case expiresAtMs of None \<Rightarrow> [] | Some e \<Rightarrow> [(''expiresAtMs'', JNum e)])
      @ (case parentHash of None \<Rightarrow> [] | Some h \<Rightarrow> [(''parentHash'', JStr h)]))"

definition sign_capability :: "json \<Rightarrow> signing_identity \<Rightarrow> json res" where
  "sign_capability cap issuer = sign_object ''capability'' cap issuer"

record issue_opts =
  iss_audience :: string
  iss_permissions :: "json list"
  iss_expiresAtMs :: "jsnum option"
  iss_parent :: "json option"

text \<open>The random bytes of the nonce are an argument.\<close>

definition issue_capability :: "signing_identity \<Rightarrow> issue_opts \<Rightarrow> bytes \<Rightarrow> json res" where
  "issue_capability issuer opts nonceBytes =
     res_bind (case iss_parent opts of
         None \<Rightarrow> Inr None
       | Some parent \<Rightarrow> res_bind (signed_hash ''capability'' parent) (\<lambda>h. Inr (Some h))) (\<lambda>parentHash.
     sign_capability
       (capability_object (si_principal issuer) (iss_audience opts) (iss_permissions opts)
         (bytes_to_base64url nonceBytes) (iss_expiresAtMs opts) parentHash)
       issuer)"

record mint_opts =
  mo_issuer :: signing_identity
  mo_audience :: string
  mo_permissions :: "json list"
  mo_expiresAtMs :: "jsnum option"
  mo_nonce :: "string option"
  mo_parentHash :: "string option"

definition mint_capability :: "mint_opts \<Rightarrow> bytes \<Rightarrow> json res" where
  "mint_capability opts randomBytes =
     sign_capability
       (capability_object (si_principal (mo_issuer opts)) (mo_audience opts) (mo_permissions opts)
         (case mo_nonce opts of Some n \<Rightarrow> n | None \<Rightarrow> bytes_to_base64url randomBytes)
         (mo_expiresAtMs opts) (mo_parentHash opts))
       (mo_issuer opts)"

definition permissions_ok :: "json list \<Rightarrow> bool" where
  "permissions_ok ps = list_all (\<lambda>p. has_permission_shape p \<and> json_finite p) ps"

text \<open>What signing a capability object gives: a well-shaped value that reads back as its fields.\<close>

lemma signed_capability_fields:
  fixes issuer audience nonce expiresAtMs parentHash permissions
  assumes "holds_key verify idn pk" "permissions_ok permissions" "\<forall>e. expiresAtMs = Some e \<longrightarrow> num_finite e"
    "sign_capability (capability_object (si_principal idn) audience permissions nonce expiresAtMs parentHash) idn
       = Inr cap"
  shows "has_signed_capability_shape cap" "is_ok (signed_hash ''capability'' cap)"
    "authentic verify (signed_capability_of cap)"
    "signed_capability_of cap =
       \<lparr>cap_issuer = si_principal idn, cap_audience = audience, cap_permissions = map permission_of permissions,
        cap_expiresAtMs = expiresAtMs, cap_parentHash = parentHash, cap_nonce = nonce, sc_raw = cap\<rparr>"
proof -
  define kvs where "kvs = [(''issuer'', JStr (si_principal idn)), (''audience'', JStr audience),
       (''permissions'', JArr permissions), (''nonce'', JStr nonce)]
      @ (case expiresAtMs of None \<Rightarrow> [] | Some e \<Rightarrow> [(''expiresAtMs'', JNum e)])
      @ (case parentHash of None \<Rightarrow> [] | Some h \<Rightarrow> [(''parentHash'', JStr h)])"
  have obj: "capability_object (si_principal idn) audience permissions nonce expiresAtMs parentHash = JObj kvs"
    by (simp add: capability_object_def kvs_def)
  have "list_all json_finite permissions" using assms(2) by (simp add: permissions_ok_def list_all_iff)
  then have fin: "json_finite (JObj kvs)"
    using assms(3) by (auto simp: kvs_def list_all_iff split: option.splits)
  from sign_object_ok [OF assms(1) fin, of "''capability''"] obtain input e where
    i: "signing_input ''capability'' (JObj kvs) = Inr input" and
    s: "sign_object ''capability'' (JObj kvs) idn = Inr (with_signature (JObj kvs) ''capability'' e)"
    by blast
  with assms(4) obj have cap: "cap = with_signature (JObj kvs) ''capability'' e"
    by (simp add: sign_capability_def)
  then obtain sigs where sigs: "cap = JObj (jm_set kvs HUBRPC_SIGNATURE_KEY sigs)"
    by (auto simp: with_signature_def Let_def)
  have rs: "read_signature cap ''capability'' = Some e" by (simp add: cap read_with_signature)
  have f: "field k cap = map_of kvs k" if "k \<noteq> HUBRPC_SIGNATURE_KEY" for k
    using that by (simp add: sigs)
  have fields: "field ''issuer'' cap = Some (JStr (si_principal idn))"
    "field ''audience'' cap = Some (JStr audience)" "field ''permissions'' cap = Some (JArr permissions)"
    "field ''nonce'' cap = Some (JStr nonce)"
    "field ''expiresAtMs'' cap = map_option JNum expiresAtMs"
    "field ''parentHash'' cap = map_option JStr parentHash"
    by (simp_all add: f HUBRPC_SIGNATURE_KEY_def) (auto simp: kvs_def split: option.splits)
  show "has_signed_capability_shape cap"
    using assms(2) rs fields sigs
    by (auto simp: has_signed_capability_shape_def is_record_def is_str_def is_num_def arr_all_def
        permissions_ok_def list_all_iff split: option.splits)
  show eq: "signed_capability_of cap =
       \<lparr>cap_issuer = si_principal idn, cap_audience = audience, cap_permissions = map permission_of permissions,
        cap_expiresAtMs = expiresAtMs, cap_parentHash = parentHash, cap_nonce = nonce, sc_raw = cap\<rparr>"
    using fields by (cases expiresAtMs; cases parentHash)
      (simp_all add: signed_capability_of_def str_of_def arr_of_def opt_num_def opt_str_def)
  have "signing_input ''capability'' cap = Inr input"
    using i by (simp add: cap signing_input_with_signature)
  then show "is_ok (signed_hash ''capability'' cap)" by (simp add: signed_hash_def)
  have "verify_object_by_principal verify ''capability'' cap (si_principal idn) = Inr True"
    using sign_object_verifies [OF assms(1) s fin] by (simp add: cap)
  then show "authentic verify (signed_capability_of cap)"
    using rs unfolding eq
    by (auto simp: authentic_def link_key_id_def verify_object_by_principal_def split: option.splits)
qed

lemma sign_capability_total:
  assumes "holds_key verify idn pk" "permissions_ok permissions" "\<forall>e. expiresAtMs = Some e \<longrightarrow> num_finite e"
  shows "\<exists>cap. sign_capability (capability_object issuer audience permissions nonce expiresAtMs parentHash) idn
    = Inr cap"
proof -
  have "list_all json_finite permissions" using assms(2) by (simp add: permissions_ok_def list_all_iff)
  then have "json_finite (capability_object issuer audience permissions nonce expiresAtMs parentHash)"
    using assms(3) by (auto simp: capability_object_def list_all_iff split: option.splits)
  then show ?thesis
    using sign_object_ok [OF assms(1)] unfolding capability_object_def sign_capability_def by blast
qed

lemma issue_capability_total:
  assumes "holds_key verify idn pk" "permissions_ok (iss_permissions opts)"
    "\<forall>e. iss_expiresAtMs opts = Some e \<longrightarrow> num_finite e"
    "\<forall>p. iss_parent opts = Some p \<longrightarrow> is_ok (signed_hash ''capability'' p)"
  shows "\<exists>cap. issue_capability idn opts nonce = Inr cap"
proof (cases "iss_parent opts")
  case None
  then show ?thesis using sign_capability_total [OF assms(1-3)] by (simp add: issue_capability_def)
next
  case (Some p)
  with assms(4) obtain h where "signed_hash ''capability'' p = Inr h"
    by (auto simp: is_ok_def split: sum.splits)
  with Some show ?thesis using sign_capability_total [OF assms(1-3)] by (simp add: issue_capability_def)
qed

lemma issued_capability_fields:
  assumes "holds_key verify idn pk" "permissions_ok (iss_permissions opts)"
    "\<forall>e. iss_expiresAtMs opts = Some e \<longrightarrow> num_finite e" "issue_capability idn opts nonce = Inr cap"
  shows "has_signed_capability_shape cap \<and> is_ok (signed_hash ''capability'' cap) \<and>
    authentic verify (signed_capability_of cap) \<and>
    (\<exists>ph. (case iss_parent opts of None \<Rightarrow> ph = None | Some p \<Rightarrow> \<exists>h. signed_hash ''capability'' p = Inr h \<and> ph = Some h) \<and>
     signed_capability_of cap =
       \<lparr>cap_issuer = si_principal idn, cap_audience = iss_audience opts,
        cap_permissions = map permission_of (iss_permissions opts),
        cap_expiresAtMs = iss_expiresAtMs opts, cap_parentHash = ph, cap_nonce = bytes_to_base64url nonce,
        sc_raw = cap\<rparr>)"
proof -
  from assms(4) obtain ph where ph: "case iss_parent opts of None \<Rightarrow> ph = None
      | Some p \<Rightarrow> \<exists>h. signed_hash ''capability'' p = Inr h \<and> ph = Some h"
    and s: "sign_capability (capability_object (si_principal idn) (iss_audience opts) (iss_permissions opts)
         (bytes_to_base64url nonce) (iss_expiresAtMs opts) ph) idn = Inr cap"
    by (auto simp: issue_capability_def res_bind_Inr_iff split: option.splits)
  from signed_capability_fields [OF assms(1-3) s] ph show ?thesis by blast
qed

lemma content_index_single:
  "signed_hash ''capability'' (sc_raw c) = Inr h \<Longrightarrow> content_index [] [c] = Inr [(h, c)]"
  by simp

lemma permits_single:
  assumes "has_signed_capability_shape cap" "is_ok (signed_hash ''capability'' cap)"
    "\<And>resolve. verify_link verify resolve (call_check c) nowMs (permit_depth md) (signed_capability_of cap)
       (call_signer c) True = Inr (LinkOk root)"
    "root \<in> ar_principal ` set (acc (ct_serviceId (call_target c)))"
  shows "permits verify c [cap] acc nowMs md = Inr (Permitted (cap_nonce (signed_capability_of cap)) root)"
proof -
  obtain h where "signed_hash ''capability'' (sc_raw (signed_capability_of cap)) = Inr h"
    using assms(2) by (auto simp: is_ok_def signed_capability_of_def split: sum.splits)
  with assms show ?thesis
    by (simp add: permits_def verify_chain_def Let_def)
qed

lemma issued_root_permits:
  assumes "holds_key verify idn pk" "permissions_ok (iss_permissions opts)"
    "\<forall>e. iss_expiresAtMs opts = Some e \<longrightarrow> num_finite e \<and> \<not> e < nowMs"
    "iss_parent opts = None" "issue_capability idn opts nonce = Inr cap" "call_signer c = iss_audience opts"
    "\<forall>p\<in>set (iss_permissions opts). is_ok (permission_permits c (permission_of p) Invoke)"
    "p \<in> set (iss_permissions opts)" "permission_permits c (permission_of p) Invoke = Inr Ok"
    "si_principal idn \<in> ar_principal ` set (acc (ct_serviceId (call_target c)))"
  shows "permits verify c [cap] acc nowMs None = Inr (Permitted (bytes_to_base64url nonce) (si_principal idn))"
proof -
  have "\<forall>e. iss_expiresAtMs opts = Some e \<longrightarrow> num_finite e" using assms(3) by simp
  from issued_capability_fields [OF assms(1,2) this assms(5)] assms(4)
  have f: "has_signed_capability_shape cap" "is_ok (signed_hash ''capability'' cap)"
    "authentic verify (signed_capability_of cap)"
    "signed_capability_of cap =
       \<lparr>cap_issuer = si_principal idn, cap_audience = iss_audience opts,
        cap_permissions = map permission_of (iss_permissions opts),
        cap_expiresAtMs = iss_expiresAtMs opts, cap_parentHash = None, cap_nonce = bytes_to_base64url nonce,
        sc_raw = cap\<rparr>"
    by auto
  have "capability_permits c (signed_capability_of cap) Invoke = Inr Ok"
    unfolding capability_permits_def
    by (rule permits_go_complete [of _ _ _ "permission_of p"]) (use assms(7-9) f(4) in auto)
  then have chk: "call_check c (signed_capability_of cap) True = Inr Ok" by (simp add: call_check_def)
  have exp: "\<not> link_expired (signed_capability_of cap) nowMs"
    using assms(3) f(4) by (auto simp: link_expired_def split: option.splits)
  have "verify_link verify resolve (call_check c) nowMs (permit_depth None) (signed_capability_of cap)
       (call_signer c) True = Inr (LinkOk (si_principal idn))" for resolve
    unfolding permit_depth_def option.case numeral_eq_Suc pred_numeral_simps verify_link_step
    using chk exp f(3) assms(6) by (simp add: f(4))
  from permits_single [OF f(1,2) this] assms(10) f(4) show ?thesis by simp
qed

lemma child_link_verifies:
  assumes "holds_key verify idn pk" "permissions_ok (iss_permissions opts)"
    "\<forall>e. iss_expiresAtMs opts = Some e \<longrightarrow> num_finite e \<and> \<not> e < nowMs"
    "iss_parent opts = Some (sc_raw parent)" "issue_capability idn opts nonce = Inr cap"
    "\<forall>p\<in>set (iss_permissions opts). is_ok (permission_permits c (permission_of p) Invoke)"
    "p \<in> set (iss_permissions opts)" "permission_permits c (permission_of p) Invoke = Inr Ok"
    "\<And>h. signed_hash ''capability'' (sc_raw parent) = Inr h \<Longrightarrow> resolve h = Some parent"
    "verify_link verify resolve (call_check c) nowMs d parent (si_principal idn) False = Inr (LinkOk root)"
  shows "verify_link verify resolve (call_check c) nowMs (Suc d) (signed_capability_of cap)
    (iss_audience opts) True = Inr (LinkOk root)"
proof -
  have "\<forall>e. iss_expiresAtMs opts = Some e \<longrightarrow> num_finite e" using assms(3) by simp
  from issued_capability_fields [OF assms(1,2) this assms(5)] assms(4) obtain h where
    f: "authentic verify (signed_capability_of cap)" "signed_hash ''capability'' (sc_raw parent) = Inr h"
    "signed_capability_of cap =
       \<lparr>cap_issuer = si_principal idn, cap_audience = iss_audience opts,
        cap_permissions = map permission_of (iss_permissions opts),
        cap_expiresAtMs = iss_expiresAtMs opts, cap_parentHash = Some h, cap_nonce = bytes_to_base64url nonce,
        sc_raw = cap\<rparr>"
    by auto
  have "capability_permits c (signed_capability_of cap) Invoke = Inr Ok"
    unfolding capability_permits_def
    by (rule permits_go_complete [of _ _ _ "permission_of p"]) (use assms(6-8) f(3) in auto)
  then have "call_check c (signed_capability_of cap) True = Inr Ok" by (simp add: call_check_def)
  moreover have "\<not> link_expired (signed_capability_of cap) nowMs"
    using assms(3) f(3) by (auto simp: link_expired_def split: option.splits)
  ultimately show ?thesis
    unfolding verify_link_step using f assms(9) [OF f(2)] assms(10) by (simp add: f(3))
qed

section \<open>Properties\<close>

text \<open>C1: Soundness of \<^verbatim>\<open>permits\<close>.  A permitted call is backed by a chain of presented
  capabilities: the leaf is held by the signer and some permission of it grants \<^verbatim>\<open>invoke\<close> for
  the call, every ancestor grants \<^verbatim>\<open>delegate\<close> for it, every link is signed by its issuer and
  unexpired, each issuer is the audience of the next link, which is named by its hash, there are
  at most 16 links, and the last issuer is an accepted root for the service.  With no accepted
  root nothing is permitted.\<close>

theorem permits_sound:
  assumes "permits verify c caps acc nowMs None = Inr (Permitted nonce root)"
  shows "root \<in> ar_principal ` set (acc (ct_serviceId (call_target c))) \<and>
    (\<exists>leaf ls. set (leaf # ls) \<subseteq> signed_capability_of ` set caps \<and> nonce = cap_nonce leaf \<and>
       cap_audience leaf = call_signer c \<and> linked (leaf # ls) \<and> length (leaf # ls) \<le> 16 \<and>
       root = cap_issuer (last (leaf # ls)) \<and>
       (\<forall>l\<in>set (leaf # ls). authentic verify l \<and> \<not> link_expired l nowMs) \<and>
       (\<exists>p\<in>set (cap_permissions leaf). permission_permits c p Invoke = Inr Ok) \<and>
       (\<forall>l\<in>set ls. \<exists>p\<in>set (cap_permissions l). permission_permits c p Delegate = Inr Ok))"
proof -
  from permits_Permitted_D [OF assms] obtain idx leaf where
    root: "root \<in> ar_principal ` set (acc (ct_serviceId (call_target c)))" and
    idx: "content_index [] (map signed_capability_of caps) = Inr idx" and
    leaf: "leaf \<in> set (map signed_capability_of caps)" "nonce = cap_nonce leaf" and
    v: "verify_link verify (jm_get idx) (call_check c) nowMs 16 leaf (call_signer c) True = Inr (LinkOk root)"
    unfolding permit_depth_def option.case by blast
  from call_link.verified_link_admits [OF v] obtain ls where
    ls: "resolved_chain (jm_get idx) (leaf # ls)" "linked (leaf # ls)" "length (leaf # ls) \<le> 16"
      "root = cap_issuer (last (leaf # ls))" "cap_audience leaf = call_signer c"
      "link_admits_call c leaf True" "\<forall>p\<in>set ls. link_admits_call c p False"
      "\<forall>p\<in>set (leaf # ls). authentic verify p \<and> \<not> link_expired p nowMs" by blast
  have "set (leaf # ls) \<subseteq> signed_capability_of ` set caps"
    using resolved_chain_members [OF idx ls(1) leaf(1)] by simp
  with root leaf(2) ls show ?thesis
    unfolding link_admits_call_def if_True if_False by blast
qed

definition demo_permission :: json where
  "demo_permission = JObj
     [(''target'', JObj [(''serviceId'', JObj [(''prefix'', JStr [])]), (''interfaceId'', JObj [(''prefix'', JStr [])]),
        (''members'', JArr [JObj [(''prefix'', JStr [])]])]),
      (''canInvoke'', JBool True)]"

definition demo_issue :: issue_opts where
  "demo_issue = \<lparr>iss_audience = ''id:key:AA'', iss_permissions = [demo_permission], iss_expiresAtMs = None,
     iss_parent = None\<rparr>"

definition demo_roots :: "string \<Rightarrow> accepted_root list" where
  "demo_roots s = [\<lparr>ar_principal = si_principal (demo_identity 7), ar_isPublic = True\<rparr>]"

lemma demo_permission_permits: "permission_permits demo_call (permission_of demo_permission) Invoke = Inr Ok"
  by code_simp

lemma demo_permissions_ok: "permissions_ok [demo_permission]"
  by code_simp

lemma demo_issue_ok: "\<exists>cap. issue_capability (demo_identity 7) demo_issue [1] = Inr cap"
  by (rule issue_capability_total [OF demo_holds_key])
    (simp_all add: demo_issue_def demo_permissions_ok)

lemma demo_permitted:
  "\<exists>cap. permits demo_verify demo_call [cap] demo_roots (Dec 1 0) None =
     Inr (Permitted (bytes_to_base64url [1]) (si_principal (demo_identity 7)))"
proof -
  obtain cap where cap: "issue_capability (demo_identity 7) demo_issue [1] = Inr cap" using demo_issue_ok by blast
  have "permits demo_verify demo_call [cap] demo_roots (Dec 1 0) None =
     Inr (Permitted (bytes_to_base64url [1]) (si_principal (demo_identity 7)))"
    using demo_permission_permits
    by (intro issued_root_permits [OF demo_holds_key _ _ _ cap, where p = demo_permission])
      (simp_all add: demo_issue_def demo_permissions_ok demo_call_def demo_roots_def)
  then show ?thesis by blast
qed

theorem permits_sound_witness:
  "\<exists>cap. permits demo_verify demo_call [cap] demo_roots (Dec 1 0) None =
     Inr (Permitted (bytes_to_base64url [1]) (si_principal (demo_identity 7))) \<and>
     authentic demo_verify (signed_capability_of cap)"
proof -
  from demo_permitted obtain cap where p: "permits demo_verify demo_call [cap] demo_roots (Dec 1 0) None =
     Inr (Permitted (bytes_to_base64url [1]) (si_principal (demo_identity 7)))" by blast
  from permits_sound [OF this] have "authentic demo_verify (signed_capability_of cap)" by auto
  with p show ?thesis by blast
qed

text \<open>Completeness of the search.  When no check throws, one presented capability with a valid
  chain to an accepted root is enough, whatever else is in the bag and wherever it stands.\<close>

theorem permits_complete:
  assumes "list_all has_signed_capability_shape caps"
    and "content_index [] (map signed_capability_of caps) = Inr idx"
    and "\<forall>cap\<in>set caps. is_ok (verify_link verify (jm_get idx) (call_check c) nowMs 16
           (signed_capability_of cap) (call_signer c) True)"
    and "cap \<in> set caps"
    and "verify_link verify (jm_get idx) (call_check c) nowMs 16 (signed_capability_of cap) (call_signer c) True
           = Inr (LinkOk root)"
    and "root \<in> ar_principal ` set (acc (ct_serviceId (call_target c)))"
  shows "\<exists>nonce root'. permits verify c caps acc nowMs None = Inr (Permitted nonce root')"
proof -
  let ?vl = "\<lambda>leaf. verify_link verify (jm_get idx) (call_check c) nowMs 16 leaf (call_signer c) True"
  let ?acc = "\<lambda>r. r \<in> set (map ar_principal (acc (ct_serviceId (call_target c))))"
  let ?st = "\<lparr>cs_leafReason = None, cs_anyReason = ''no presented capability addresses this call'',
          cs_unacceptedRoot = None\<rparr>"
  have "\<exists>root' nonce. chain_go ?vl (call_signer c) ?acc ?st (map signed_capability_of caps) =
      Inr (ChainOk root' nonce)"
    by (rule chain_go_complete [where leaf = "signed_capability_of cap" and root = root])
      (use assms in auto)
  with assms(1,2,4) show ?thesis
    by (auto simp: permits_def verify_chain_def permit_depth_def Let_def)
qed

theorem permits_complete_witness:
  "\<exists>cap nonce root. permits demo_verify demo_call [cap] demo_roots (Dec 1 0) None = Inr (Permitted nonce root)"
proof -
  from demo_permitted obtain cap where p: "permits demo_verify demo_call [cap] demo_roots (Dec 1 0) None =
     Inr (Permitted (bytes_to_base64url [1]) (si_principal (demo_identity 7)))" by blast
  from permits_Permitted_D [OF this] obtain idx where
    "list_all has_signed_capability_shape [cap]" "content_index [] (map signed_capability_of [cap]) = Inr idx"
    "verify_link demo_verify (jm_get idx) (call_check demo_call) (Dec 1 0) 16 (signed_capability_of cap)
       (call_signer demo_call) True = Inr (LinkOk (si_principal (demo_identity 7)))"
    by (auto simp: permit_depth_def)
  from permits_complete [OF this(1,2) _ _ this(3), of demo_roots] this(3) show ?thesis
    by (auto simp: demo_roots_def)
qed

text \<open>Issuing a root capability and presenting it: if the issuer is an accepted root, the
  audience signs a call some issued permission admits, and the capability has not expired, the
  call is permitted, and the verdict names the capability's nonce and the issuer.\<close>

theorem issue_permits_roundtrip:
  assumes "holds_key verify idn pk" "permissions_ok (iss_permissions opts)"
    "\<forall>e. iss_expiresAtMs opts = Some e \<longrightarrow> num_finite e \<and> \<not> e < nowMs"
    "iss_parent opts = None" "issue_capability idn opts nonce = Inr cap" "call_signer c = iss_audience opts"
    "\<forall>p\<in>set (iss_permissions opts). is_ok (permission_permits c (permission_of p) Invoke)"
    "p \<in> set (iss_permissions opts)" "permission_permits c (permission_of p) Invoke = Inr Ok"
    "si_principal idn \<in> ar_principal ` set (acc (ct_serviceId (call_target c)))"
  shows "permits verify c [cap] acc nowMs None = Inr (Permitted (bytes_to_base64url nonce) (si_principal idn))"
  using issued_root_permits assms by blast

theorem issue_permits_roundtrip_witness:
  "\<exists>cap. issue_capability (demo_identity 7) demo_issue [1] = Inr cap \<and>
     permits demo_verify demo_call [cap] demo_roots (Dec 1 0) None =
       Inr (Permitted (bytes_to_base64url [1]) (si_principal (demo_identity 7)))"
proof -
  obtain cap where cap: "issue_capability (demo_identity 7) demo_issue [1] = Inr cap" using demo_issue_ok by blast
  have "permits demo_verify demo_call [cap] demo_roots (Dec 1 0) None =
     Inr (Permitted (bytes_to_base64url [1]) (si_principal (demo_identity 7)))"
    using demo_permission_permits
    by (intro issue_permits_roundtrip [OF demo_holds_key _ _ _ cap, where p = demo_permission])
      (simp_all add: demo_issue_def demo_permissions_ok demo_call_def demo_roots_def)
  with cap show ?thesis by blast
qed

text \<open>Delegating: a holder who issues a child of a capability whose chain verifies, with a
  permission that admits the call, extends the chain by one verified link with the same root.
  The remaining depth is what bounds the number of delegations.\<close>

theorem delegation_extends:
  assumes "holds_key verify idn pk" "permissions_ok (iss_permissions opts)"
    "\<forall>e. iss_expiresAtMs opts = Some e \<longrightarrow> num_finite e \<and> \<not> e < nowMs"
    "iss_parent opts = Some (sc_raw parent)" "issue_capability idn opts nonce = Inr cap"
    "\<forall>p\<in>set (iss_permissions opts). is_ok (permission_permits c (permission_of p) Invoke)"
    "p \<in> set (iss_permissions opts)" "permission_permits c (permission_of p) Invoke = Inr Ok"
    "\<And>h. signed_hash ''capability'' (sc_raw parent) = Inr h \<Longrightarrow> resolve h = Some parent"
    "verify_link verify resolve (call_check c) nowMs d parent (si_principal idn) False = Inr (LinkOk root)"
  shows "verify_link verify resolve (call_check c) nowMs (Suc d) (signed_capability_of cap)
    (iss_audience opts) True = Inr (LinkOk root)"
  using child_link_verifies assms by blast

definition demo_parent_issue :: issue_opts where
  "demo_parent_issue = \<lparr>iss_audience = si_principal (demo_identity 9),
     iss_permissions = [JObj [(''target'', the (field ''target'' demo_permission)), (''canDelegate'', JBool True)]],
     iss_expiresAtMs = None, iss_parent = None\<rparr>"

theorem delegation_extends_witness:
  "\<exists>(parent :: signed_capability) cap resolve. issue_capability (demo_identity 9)
       (demo_issue\<lparr>iss_parent := Some (sc_raw parent)\<rparr>) [2] = Inr cap \<and>
     verify_link demo_verify resolve (call_check demo_call) (Dec 1 0) (Suc 1) (signed_capability_of cap)
       (iss_audience demo_issue) True = Inr (LinkOk (si_principal (demo_identity 7)))"
proof -
  have pok: "permissions_ok (iss_permissions demo_parent_issue)" "iss_expiresAtMs demo_parent_issue = None"
    by code_simp+
  from issue_capability_total [OF demo_holds_key pok(1), of 7 "[1]"] obtain pcap where
    pc: "issue_capability (demo_identity 7) demo_parent_issue [1] = Inr pcap"
    using pok(2) by (auto simp: demo_parent_issue_def)
  define parent where "parent = signed_capability_of pcap"
  from issued_capability_fields [OF demo_holds_key pok(1) _ pc] pok(2)
  have pf: "is_ok (signed_hash ''capability'' pcap)" "authentic demo_verify parent"
    "cap_issuer parent = si_principal (demo_identity 7)" "cap_audience parent = si_principal (demo_identity 9)"
    "cap_permissions parent = map permission_of (iss_permissions demo_parent_issue)"
    "cap_expiresAtMs parent = None" "cap_parentHash parent = None" "sc_raw parent = pcap"
    by (auto simp: parent_def demo_parent_issue_def)
  have chk: "call_check demo_call parent False = Inr Ok"
    unfolding call_check_def capability_permits_def pf(5) by simp code_simp
  have pv: "verify_link demo_verify (\<lambda>_. Some parent) (call_check demo_call) (Dec 1 0) 1 parent
      (si_principal (demo_identity 9)) False = Inr (LinkOk (si_principal (demo_identity 7)))"
    unfolding One_nat_def verify_link_step using pf chk by (simp add: link_expired_def)
  obtain h where h: "signed_hash ''capability'' pcap = Inr h" using pf(1) by (auto simp: is_ok_def split: sum.splits)
  let ?o = "demo_issue\<lparr>iss_parent := Some (sc_raw parent)\<rparr>"
  have "\<exists>cap. issue_capability (demo_identity 9) ?o [2] = Inr cap"
    by (rule issue_capability_total [OF demo_holds_key])
      (use h pf(8) in \<open>simp_all add: demo_issue_def demo_permissions_ok\<close>)
  then obtain cap where c: "issue_capability (demo_identity 9) ?o [2] = Inr cap" by blast
  have "verify_link demo_verify (\<lambda>_. Some parent) (call_check demo_call) (Dec 1 0) (Suc 1) (signed_capability_of cap)
      (iss_audience ?o) True = Inr (LinkOk (si_principal (demo_identity 7)))"
    using demo_permission_permits demo_permissions_ok
    by (intro delegation_extends [OF demo_holds_key [of 9] _ _ _ c, where p = demo_permission and parent = parent] pv)
      (simp_all add: demo_issue_def)
  then have "verify_link demo_verify (\<lambda>_. Some parent) (call_check demo_call) (Dec 1 0) (Suc 1)
      (signed_capability_of cap) (iss_audience demo_issue) True = Inr (LinkOk (si_principal (demo_identity 7)))"
    by simp
  with c show ?thesis by blast
qed

end
