(* ===== verification/Gate.thy ===== *)
theory Gate
  imports Chain
begin

text \<open>
  \<^verbatim>\<open>hub/server/forwardedCallGate.ts\<close>: the signature front door of a hub link.  One step
  processes one inbound message against the gate's state (the nonces already admitted on this
  link) and yields what is passed downstream to the hub and what is answered to the peer.  The
  serial queue is the order of the steps; when processing throws, the promise chain the queue
  is made of stays rejected and no later message is processed (\<open>gs_poisoned\<close>).
\<close>

section \<open>State and options\<close>

record gate_opts =
  go_exempt :: "string list"
  go_requireCapability :: bool
  go_trustedRoots :: "string list option"
  go_acceptedRootIssuers :: "string \<Rightarrow> accepted_root list"

record gate_state =
  gs_seenNonces :: "string list"
  gs_downstream :: bool
  gs_poisoned :: bool

datatype gate_out = Downstream message | Answer message

definition gate_init :: gate_state where
  "gate_init = \<lparr>gs_seenNonces = [], gs_downstream = True, gs_poisoned = False\<rparr>"

section \<open>Steps\<close>

definition accepted_root_issuers :: "gate_opts \<Rightarrow> string \<Rightarrow> accepted_root list" where
  "accepted_root_issuers opts serviceId =
     (if \<not> go_requireCapability opts then []
      else case go_trustedRoots opts of
        Some roots \<Rightarrow> map (\<lambda>p. \<lparr>ar_principal = p, ar_isPublic = True\<rparr>) roots
      | None \<Rightarrow> go_acceptedRootIssuers opts serviceId)"

definition gate_reject :: "message \<Rightarrow> int \<Rightarrow> string \<Rightarrow> gate_out list" where
  "gate_reject m code msg = (case m of
     Request i _ _ \<Rightarrow>
       [Answer (Failure (Some i) \<lparr>err_code = code, err_message = msg, err_data = None\<rparr>)]
   | _ \<Rightarrow> [])"

definition pass_down :: "gate_state \<Rightarrow> message \<Rightarrow> gate_out list" where
  "pass_down st m = (if gs_downstream st then [Downstream m] else [])"

text \<open>\<open>nowV\<close> is the clock reading the envelope is checked at, \<open>nowP\<close> the one \<^verbatim>\<open>permits\<close> gets.\<close>

definition gate_call ::
  "verifier \<Rightarrow> gate_opts \<Rightarrow> jsnum \<Rightarrow> jsnum \<Rightarrow> gate_state \<Rightarrow> message \<Rightarrow> (gate_state \<times> gate_out list) res" where
  "gate_call verify opts nowV nowP st m =
     res_bind (verify_call verify method_name_to_target (the (method_of m)) (params_of m) nowV None
         (go_requireCapability opts)) (\<lambda>r.
     case r of
       VerifyFail kind reason \<Rightarrow>
         Inr (st, gate_reject m
           (case kind of CapabilityFail \<Rightarrow> ERR_permissionRequired | EnvelopeFail \<Rightarrow> ERR_invalidRequest) reason)
     | VerifyOk vc \<Rightarrow>
         if vc_nonce vc \<in> set (gs_seenNonces st) then
           Inr (st, gate_reject m ERR_invalidRequest ''replayed request nonce'')
         else
           res_bind
             (if go_requireCapability opts then
                permits verify (vc_call vc) (vc_capabilities vc) (accepted_root_issuers opts) nowP None
              else Inr (Permitted '''' '''')) (\<lambda>verdict.
           case verdict of
             NotPermitted reason \<Rightarrow> Inr (st, gate_reject m ERR_permissionRequired reason)
           | Permitted _ _ \<Rightarrow>
               Inr (st\<lparr>gs_seenNonces := js_add (gs_seenNonces st) (vc_nonce vc)\<rparr>, pass_down st m)))"

text \<open>Is the message a call the gate must check: fully qualified, and to no exempt service?\<close>

definition gated :: "gate_opts \<Rightarrow> message \<Rightarrow> bool" where
  "gated opts m = (case method_of m of
     None \<Rightarrow> False
   | Some meth \<Rightarrow> (case parse_method_name meth of
        Some (Full s i n) \<Rightarrow> s \<notin> set (go_exempt opts)
      | _ \<Rightarrow> False))"

definition gate_process ::
  "verifier \<Rightarrow> gate_opts \<Rightarrow> jsnum \<Rightarrow> jsnum \<Rightarrow> gate_state \<Rightarrow> message \<Rightarrow> (gate_state \<times> gate_out list) res" where
  "gate_process verify opts nowV nowP st m =
     (if \<not> gated opts m then Inr (st, pass_down st m)
      else gate_call verify opts nowV nowP st m)"

definition gate_receive ::
  "verifier \<Rightarrow> gate_opts \<Rightarrow> gate_state \<Rightarrow> message \<times> jsnum \<times> jsnum \<Rightarrow> gate_state \<times> gate_out list" where
  "gate_receive verify opts st inp = (case inp of (m, nowV, nowP) \<Rightarrow>
     if gs_poisoned st then (st, [])
     else case gate_process verify opts nowV nowP st m of
       Inl _ \<Rightarrow> (st\<lparr>gs_poisoned := True\<rparr>, [])
     | Inr r \<Rightarrow> r)"

fun gate_run ::
  "verifier \<Rightarrow> gate_opts \<Rightarrow> gate_state \<Rightarrow> (message \<times> jsnum \<times> jsnum) list \<Rightarrow> gate_state \<times> gate_out list" where
  "gate_run verify opts st [] = (st, [])"
| "gate_run verify opts st (inp # inps) =
     (case gate_receive verify opts st inp of (st', out) \<Rightarrow>
        case gate_run verify opts st' inps of (st'', out') \<Rightarrow> (st'', out @ out'))"

text \<open>\<^verbatim>\<open>send\<close>: from the hub to the participant, never gated.\<close>

definition gate_send :: "message \<Rightarrow> message" where
  "gate_send m = m"

section \<open>What a step can do\<close>

text \<open>The nonce a call carries in its envelope.\<close>

definition message_nonce :: "message \<Rightarrow> string" where
  "message_nonce m = (case extract_object (params_of m) HUBRPC_META_KEY of
     Some meta \<Rightarrow> str_of (field ''nonce'' meta) | None \<Rightarrow> [])"

text \<open>The call was authenticated at the reading \<open>nowV\<close>, and permitted at \<open>nowP\<close> when the gate
  enforces capabilities.\<close>

definition admitted :: "verifier \<Rightarrow> gate_opts \<Rightarrow> jsnum \<Rightarrow> jsnum \<Rightarrow> message \<Rightarrow> bool" where
  "admitted verify opts nowV nowP m \<longleftrightarrow>
     (\<exists>vc. verify_call verify method_name_to_target (the (method_of m)) (params_of m) nowV None
          (go_requireCapability opts) = Inr (VerifyOk vc) \<and>
        (go_requireCapability opts \<longrightarrow>
          (\<exists>n r. permits verify (vc_call vc) (vc_capabilities vc) (accepted_root_issuers opts) nowP None =
             Inr (Permitted n r))))"

lemma verify_call_VerifyOk_D:
  assumes "verify_call verify pm meth params now skew req = Inr (VerifyOk vc)"
  shows "\<exists>idn p. verify_rpc_call verify \<lparr>vo_wireMethod = meth, vo_wireParams = params, vo_nowMs = now,
      vo_maxSkewMs = skew, vo_requireSigned = req\<rparr> = Inr (RpcOk (Some idn) p) \<and>
    (req \<longrightarrow> ci_capabilities idn \<noteq> []) \<and>
    vc_signer vc = ci_signer idn \<and> vc_nonce vc = cm_nonce (ci_callMeta idn) \<and>
    vc_capabilities vc = ci_capabilities idn \<and> vc_callHash vc = ci_callHash idn \<and>
    (\<exists>t. pm meth = Inr t \<and> vc_call vc =
      \<lparr>call_target = (case cm_interfaceHash (ci_callMeta idn) of
          Some h \<Rightarrow> t\<lparr>ct_interfaceHash := Some h\<rparr> | None \<Rightarrow> t),
       call_params = p, call_nonce = cm_nonce (ci_callMeta idn),
       call_signedAtMs = cm_signedAtMs (ci_callMeta idn), call_signer = ci_signer idn,
       call_callHash = ci_callHash idn\<rparr>)"
proof -
  from assms obtain r where r: "verify_rpc_call verify \<lparr>vo_wireMethod = meth, vo_wireParams = params,
      vo_nowMs = now, vo_maxSkewMs = skew, vo_requireSigned = req\<rparr> = Inr r"
    by (auto simp: verify_call_def res_bind_Inr_iff)
  with assms obtain idn p where "r = RpcOk (Some idn) p"
    by (cases r) (auto simp: verify_call_def split: option.splits)
  with r assms show ?thesis
    by (auto simp: verify_call_def res_bind_Inr_iff Let_def split: if_splits)
qed

lemma verified_nonce:
  assumes "verify_call verify pm meth (params_of m) now skew req = Inr (VerifyOk vc)"
  shows "vc_nonce vc = message_nonce m"
proof -
  from verify_call_VerifyOk_D [OF assms] obtain idn p where
    v: "verify_rpc_call verify \<lparr>vo_wireMethod = meth, vo_wireParams = params_of m, vo_nowMs = now,
      vo_maxSkewMs = skew, vo_requireSigned = req\<rparr> = Inr (RpcOk (Some idn) p)"
    and n: "vc_nonce vc = cm_nonce (ci_callMeta idn)" by blast
  from verify_rpc_call_RpcOk_D [OF v] obtain kvs metaObj where
    k: "params_of m = Some (JObj kvs)" "map_of kvs HUBRPC_META_KEY = Some metaObj"
    "call_meta_of metaObj = Some (ci_callMeta idn)" by auto
  then have f: "field ''nonce'' metaObj = Some (JStr (cm_nonce (ci_callMeta idn)))"
    using call_meta_of_D by blast
  then obtain mk where "metaObj = JObj mk" by (auto simp: field_def split: json.splits)
  with k f n show ?thesis by (simp add: message_nonce_def extract_object_def str_of_def)
qed

lemma gate_receive_cases:
  assumes "gate_receive verify opts st (m, nowV, nowP) = (st', out)"
  obtains (dropped) "out = []" "gs_seenNonces st' = gs_seenNonces st" "gs_downstream st' = gs_downstream st"
  | (passed) "\<not> gated opts m" "st' = st" "out = pass_down st m" "\<not> gs_poisoned st"
  | (rejected) i meth ps code msg where "m = Request i meth ps" "st' = st" "gated opts m"
      "out = [Answer (Failure (Some i) \<lparr>err_code = code, err_message = msg, err_data = None\<rparr>)]"
  | (admit) "gated opts m" "admitted verify opts nowV nowP m" "message_nonce m \<notin> set (gs_seenNonces st)"
      "gs_seenNonces st' = gs_seenNonces st @ [message_nonce m]" "gs_downstream st' = gs_downstream st"
      "out = pass_down st m"
proof (cases "gs_poisoned st \<or> \<not> gated opts m")
  case True
  with assms dropped passed show ?thesis
    by (auto simp: gate_receive_def gate_process_def split: if_splits)
next
  case False
  have rej: thesis if "st' = st" "out = gate_reject m code msg" for code msg
    using that dropped rejected False by (cases m) (auto simp: gate_reject_def)
  from False assms have *: "(case gate_call verify opts nowV nowP st m of
      Inl _ \<Rightarrow> (st\<lparr>gs_poisoned := True\<rparr>, []) | Inr r \<Rightarrow> r) = (st', out)"
    by (simp add: gate_receive_def gate_process_def)
  show ?thesis
  proof (cases "gate_call verify opts nowV nowP st m")
    case (Inl e)
    with * dropped show ?thesis by auto
  next
    case (Inr r)
    with * have call: "gate_call verify opts nowV nowP st m = Inr (st', out)" by simp
    then obtain v where v: "verify_call verify method_name_to_target (the (method_of m)) (params_of m) nowV None
        (go_requireCapability opts) = Inr v"
      by (auto simp: gate_call_def res_bind_Inr_iff)
    show ?thesis
    proof (cases v)
      case (VerifyFail k reason)
      with call v rej show ?thesis by (auto simp: gate_call_def)
    next
      case (VerifyOk vc)
      note nonce = verified_nonce [OF v [unfolded VerifyOk]]
      show ?thesis
      proof (cases "vc_nonce vc \<in> set (gs_seenNonces st)")
        case True
        with call v VerifyOk rej show ?thesis by (auto simp: gate_call_def)
      next
        case fresh: False
        with call v VerifyOk obtain w where
          w: "(if go_requireCapability opts then
                permits verify (vc_call vc) (vc_capabilities vc) (accepted_root_issuers opts) nowP None
              else Inr (Permitted '''' '''')) = Inr w"
          by (auto simp: gate_call_def res_bind_Inr_iff simp del: if_split_asm)
        show ?thesis
        proof (cases w)
          case (NotPermitted reason)
          with call v VerifyOk fresh w have "st' = st" "out = gate_reject m ERR_permissionRequired reason"
            by (simp_all add: gate_call_def)
          then show ?thesis by (rule rej)
        next
          case (Permitted n r)
          with call v VerifyOk fresh w have
            "st' = st\<lparr>gs_seenNonces := js_add (gs_seenNonces st) (vc_nonce vc)\<rparr>" "out = pass_down st m"
            by (simp_all add: gate_call_def)
          moreover have "admitted verify opts nowV nowP m"
            using v VerifyOk w Permitted by (auto simp: admitted_def)
          ultimately show ?thesis using admit False fresh nonce by (simp add: js_add_def)
        qed
      qed
    qed
  qed
qed

lemma gate_call_out:
  assumes "gate_call verify opts nowV nowP st m = Inr r"
  shows "snd r = pass_down st m \<or> (\<exists>code msg. snd r = gate_reject m code msg)"
proof -
  from assms obtain v where v: "verify_call verify method_name_to_target (the (method_of m)) (params_of m) nowV None
      (go_requireCapability opts) = Inr v"
    by (auto simp: gate_call_def res_bind_Inr_iff)
  show ?thesis
  proof (cases v)
    case (VerifyFail k reason)
    with assms v have "snd r = gate_reject m
        (case k of CapabilityFail \<Rightarrow> ERR_permissionRequired | EnvelopeFail \<Rightarrow> ERR_invalidRequest) reason"
      by (auto simp: gate_call_def)
    then show ?thesis by blast
  next
    case (VerifyOk vc)
    show ?thesis
    proof (cases "vc_nonce vc \<in> set (gs_seenNonces st)")
      case True
      with assms v VerifyOk have "snd r = gate_reject m ERR_invalidRequest ''replayed request nonce''"
        by (auto simp: gate_call_def)
      then show ?thesis by blast
    next
      case False
      with assms v VerifyOk obtain w where
        "(case w of NotPermitted reason \<Rightarrow> Inr (st, gate_reject m ERR_permissionRequired reason)
          | Permitted _ _ \<Rightarrow>
              Inr (st\<lparr>gs_seenNonces := js_add (gs_seenNonces st) (vc_nonce vc)\<rparr>, pass_down st m)) =
         (Inr r :: (gate_state \<times> gate_out list) res)"
        by (auto simp: gate_call_def res_bind_Inr_iff)
      then have "r = (st\<lparr>gs_seenNonces := js_add (gs_seenNonces st) (vc_nonce vc)\<rparr>, pass_down st m) \<or>
          (\<exists>reason. r = (st, gate_reject m ERR_permissionRequired reason))"
        by (cases w) auto
      then show ?thesis by (metis snd_conv)
    qed
  qed
qed

section \<open>Runs\<close>

fun forwarded :: "gate_out list \<Rightarrow> message list" where
  "forwarded [] = []"
| "forwarded (Downstream m # os) = m # forwarded os"
| "forwarded (Answer _ # os) = forwarded os"

lemma forwarded_append [simp]: "forwarded (a @ b) = forwarded a @ forwarded b"
  by (induction a rule: forwarded.induct) simp_all

lemma forwarded_pass_down [simp]: "forwarded (pass_down st m) = (if gs_downstream st then [m] else [])"
  by (simp add: pass_down_def)

lemma gate_receive_forwarded:
  assumes "gate_receive verify opts st (m, nowV, nowP) = (st', out)" "distinct (gs_seenNonces st)"
    "gs_downstream st"
  shows "gs_downstream st' \<and> distinct (gs_seenNonces st') \<and>
    gs_seenNonces st' = gs_seenNonces st @ map message_nonce (filter (gated opts) (forwarded out)) \<and>
    (forwarded out = [] \<or> forwarded out = [m] \<and> (gated opts m \<longrightarrow> admitted verify opts nowV nowP m))"
  using assms(1)
proof (cases rule: gate_receive_cases)
  case dropped
  with assms show ?thesis by simp
next
  case passed
  with assms show ?thesis by simp
next
  case rejected
  with assms show ?thesis by simp
next
  case admit
  with assms show ?thesis by simp
qed

lemma gate_run_invariant:
  assumes "gate_run verify opts st inps = (st', out)" "distinct (gs_seenNonces st)" "gs_downstream st"
  shows "distinct (gs_seenNonces st') \<and>
    gs_seenNonces st' = gs_seenNonces st @ map message_nonce (filter (gated opts) (forwarded out)) \<and>
    subseq (forwarded out) (map fst inps) \<and>
    (\<forall>m\<in>set (forwarded out). gated opts m \<longrightarrow>
       (\<exists>nowV nowP. (m, nowV, nowP) \<in> set inps \<and> admitted verify opts nowV nowP m))"
  using assms
proof (induction verify opts st inps arbitrary: out rule: gate_run.induct)
  case (2 verify opts st inp inps)
  obtain m nowV nowP where inp: "inp = (m, nowV, nowP)" by (cases inp)
  obtain st1 out1 where step: "gate_receive verify opts st inp = (st1, out1)" by (cases "gate_receive verify opts st inp")
  obtain st2 out2 where rest: "gate_run verify opts st1 inps = (st2, out2)" by (cases "gate_run verify opts st1 inps")
  from 2(2) step rest have out: "out = out1 @ out2" "st' = st2" by auto
  from gate_receive_forwarded [OF step [unfolded inp] 2(3,4)] have s: "gs_downstream st1"
    "distinct (gs_seenNonces st1)"
    "gs_seenNonces st1 = gs_seenNonces st @ map message_nonce (filter (gated opts) (forwarded out1))"
    "forwarded out1 = [] \<or> forwarded out1 = [m] \<and> (gated opts m \<longrightarrow> admitted verify opts nowV nowP m)"
    by auto
  from 2(1) [OF step [symmetric] rest [folded out(2)] s(2,1)]
  have r: "distinct (gs_seenNonces st2)"
    "gs_seenNonces st2 = gs_seenNonces st1 @ map message_nonce (filter (gated opts) (forwarded out2))"
    "subseq (forwarded out2) (map fst inps)"
    "\<forall>m\<in>set (forwarded out2). gated opts m \<longrightarrow>
       (\<exists>nowV nowP. (m, nowV, nowP) \<in> set inps \<and> admitted verify opts nowV nowP m)"
    unfolding out(2) by blast+
  note st2 = out(2) and out = out(1)
  from s(4) have "subseq (forwarded out) (map fst (inp # inps))"
    using r(3) by (auto simp: out inp)
  moreover from s(4) have "\<forall>m\<in>set (forwarded out). gated opts m \<longrightarrow>
       (\<exists>nowV nowP. (m, nowV, nowP) \<in> set (inp # inps) \<and> admitted verify opts nowV nowP m)"
    using r(4) unfolding out inp forwarded_append
    by (metis UnE empty_iff empty_set list.set_intros(1,2) set_ConsD set_append)
  ultimately show ?case using r(1,2) s(3) by (simp add: out st2)
qed simp

lemma verify_call_signed:
  assumes "holds_key verify (so_identity so) pk" "so_params so = Some (JObj user)" "user_params_ok user"
    "num_finite (so_nowMs so)"
    "\<not> num_of_int 300000 < num_abs (num_sub (so_nowMs so) nowV)"
    "parse_method_name (so_method so) = Some (Full s i n)" "req \<longrightarrow> caps \<noteq> []"
  shows "\<exists>c. sign_rpc_call so = Inr c \<and>
    (\<exists>vc. verify_call verify method_name_to_target (so_method so)
       (Some (attach_capabilities (sr_wireParams c) caps)) nowV None req = Inr (VerifyOk vc) \<and>
       vc_nonce vc = bytes_to_base64url (so_nonce so) \<and> vc_capabilities vc = caps \<and>
       vc_call vc = \<lparr>call_target = \<lparr>ct_serviceId = s, ct_interfaceId = i, ct_member = n,
            ct_interfaceHash = so_interfaceHash so\<rparr>,
          call_params = Some (JObj user), call_nonce = bytes_to_base64url (so_nonce so),
          call_signedAtMs = so_nowMs so, call_signer = si_principal (so_identity so),
          call_callHash = sr_callHash c\<rparr>)"
proof -
  define vo where "vo w = \<lparr>vo_wireMethod = so_method so, vo_wireParams = Some w, vo_nowMs = nowV,
      vo_maxSkewMs = None, vo_requireSigned = req\<rparr>" for w
  have v: "vo_wireMethod (vo w) = so_method so"
    "\<not> max_skew (vo w) < num_abs (num_sub (so_nowMs so) (vo_nowMs (vo w)))" for w
    using assms(5) by (simp_all add: vo_def max_skew_def)
  from sign_verify_rpc [OF assms(1-4) v] obtain c where c: "sign_rpc_call so = Inr c" by blast
  from sign_verify_rpc [OF assms(1-4) v, of "attach_capabilities (sr_wireParams c) caps" caps] c
  have r: "verify_rpc_call verify (vo (attach_capabilities (sr_wireParams c) caps)) = Inr (RpcOk
       (Some \<lparr>ci_callMeta = sr_callMeta c, ci_signer = si_principal (so_identity so),
              ci_callHash = sr_callHash c, ci_capabilities = caps\<rparr>) (Some (JObj user)))"
    by (simp add: vo_def)
  have m: "sr_callMeta c = call_meta_for so"
    using sign_rpc_call_ok [OF assms(1-4)] c by auto
  have t: "method_name_to_target (so_method so) =
      Inr \<lparr>ct_serviceId = s, ct_interfaceId = i, ct_member = n, ct_interfaceHash = None\<rparr>"
    using assms(6) by (simp add: method_name_to_target_def)
  show ?thesis
    using c r t m assms(7)
    by (auto simp: verify_call_def vo_def call_meta_for_def Let_def split: option.split)
qed

lemma signed_call_admitted:
  assumes "holds_key verify (so_identity so) pk" "so_params so = Some (JObj user)" "user_params_ok user"
    "num_finite (so_nowMs so)" "\<not> num_of_int 300000 < num_abs (num_sub (so_nowMs so) nowV)"
    "parse_method_name (so_method so) = Some (Full s i n)" "s \<notin> set (go_exempt opts)"
    "\<not> gs_poisoned st" "gs_downstream st" "bytes_to_base64url (so_nonce so) \<notin> set (gs_seenNonces st)"
    "go_requireCapability opts \<longrightarrow> caps \<noteq> [] \<and> (\<exists>nonce root. permits verify
        \<lparr>call_target = \<lparr>ct_serviceId = s, ct_interfaceId = i, ct_member = n, ct_interfaceHash = so_interfaceHash so\<rparr>,
         call_params = Some (JObj user), call_nonce = bytes_to_base64url (so_nonce so),
         call_signedAtMs = so_nowMs so, call_signer = si_principal (so_identity so),
         call_callHash = sr_callHash c\<rparr>
        caps (accepted_root_issuers opts) nowP None = Inr (Permitted nonce root))"
    "sign_rpc_call so = Inr c"
    "m = Request rid (so_method so) (Some (attach_capabilities (sr_wireParams c) caps))"
  shows "gate_receive verify opts st (m, nowV, nowP) =
    (st\<lparr>gs_seenNonces := gs_seenNonces st @ [bytes_to_base64url (so_nonce so)]\<rparr>, [Downstream m])"
proof -
  have "go_requireCapability opts \<longrightarrow> caps \<noteq> []" using assms(11) by blast
  from verify_call_signed [OF assms(1-6) this] assms(12) obtain vc where
    v: "verify_call verify method_name_to_target (so_method so)
       (Some (attach_capabilities (sr_wireParams c) caps)) nowV None (go_requireCapability opts) = Inr (VerifyOk vc)"
      "vc_nonce vc = bytes_to_base64url (so_nonce so)" "vc_capabilities vc = caps"
      "vc_call vc = \<lparr>call_target = \<lparr>ct_serviceId = s, ct_interfaceId = i, ct_member = n,
            ct_interfaceHash = so_interfaceHash so\<rparr>,
          call_params = Some (JObj user), call_nonce = bytes_to_base64url (so_nonce so),
          call_signedAtMs = so_nowMs so, call_signer = si_principal (so_identity so),
          call_callHash = sr_callHash c\<rparr>" by auto
  have m: "method_of m = Some (so_method so)" "params_of m = Some (attach_capabilities (sr_wireParams c) caps)"
    by (simp_all add: assms(13) method_of_def params_of_def)
  have g: "gated opts m" using assms(6,7) m by (simp add: gated_def)
  have p: "\<exists>nn rr. (if go_requireCapability opts then
                permits verify (vc_call vc) (vc_capabilities vc) (accepted_root_issuers opts) nowP None
              else Inr (Permitted '''' '''')) = Inr (Permitted nn rr)"
    using assms(11) v(3,4) by auto
  then obtain nn rr where p: "(if go_requireCapability opts then
                permits verify (vc_call vc) (vc_capabilities vc) (accepted_root_issuers opts) nowP None
              else Inr (Permitted '''' '''')) = Inr (Permitted nn rr)" by blast
  have "gate_call verify opts nowV nowP st m =
     Inr (st\<lparr>gs_seenNonces := js_add (gs_seenNonces st) (vc_nonce vc)\<rparr>, pass_down st m)"
    unfolding gate_call_def m option.sel v(1) res_bind_simps verify_result.case p permit_result.case
    using assms(10) v(2) by simp
  then show ?thesis
    using g assms(8-10) v(2) by (simp add: gate_receive_def gate_process_def pass_down_def js_add_def)
qed


text \<open>A gate that checks authenticity only, and the call of the witnesses going through it.\<close>

definition demo_gate :: gate_opts where
  "demo_gate = \<lparr>go_exempt = [], go_requireCapability = False, go_trustedRoots = None,
     go_acceptedRootIssuers = \<lambda>_. []\<rparr>"

definition demo_request :: "signed_rpc_call \<Rightarrow> message" where
  "demo_request c = Request (IdNum (Dec 1 0)) (so_method demo_opts) (Some (attach_capabilities (sr_wireParams c) []))"

lemma demo_sign: "\<exists>c. sign_rpc_call demo_opts = Inr c"
proof -
  have "holds_key demo_verify (so_identity demo_opts) [7]" using demo_holds_key by (simp add: demo_opts_def)
  moreover have "so_params demo_opts = Some (JObj [(''x'', JNull)])" "num_finite (so_nowMs demo_opts)"
    by (simp_all add: demo_opts_def num_finite_def)
  ultimately show ?thesis using sign_rpc_call_ok demo_user_ok by blast
qed

lemma demo_skew: "\<not> num_of_int 300000 < num_abs (num_sub (Dec 5 0) (Dec 6 0))"
  by code_simp

lemma demo_method: "parse_method_name ''s::i::m'' = Some (Full ''s'' ''i'' ''m'')"
  by code_simp

lemma demo_premises:
  "holds_key demo_verify (so_identity demo_opts) [7]" "so_params demo_opts = Some (JObj [(''x'', JNull)])"
  "num_finite (so_nowMs demo_opts)" "\<not> num_of_int 300000 < num_abs (num_sub (so_nowMs demo_opts) (Dec 6 0))"
  "parse_method_name (so_method demo_opts) = Some (Full ''s'' ''i'' ''m'')"
  "bytes_to_base64url (so_nonce demo_opts) \<notin> set (gs_seenNonces gate_init)"
  using demo_holds_key demo_skew demo_method
  by (simp_all add: demo_opts_def num_finite_def gate_init_def del: less_jsnum.simps num_abs.simps)

lemma demo_admitted:
  assumes "sign_rpc_call demo_opts = Inr c"
  shows "gate_receive demo_verify demo_gate gate_init (demo_request c, Dec 6 0, Dec 6 0) =
    (gate_init\<lparr>gs_seenNonces := [bytes_to_base64url (so_nonce demo_opts)]\<rparr>, [Downstream (demo_request c)])"
proof -
  have "gate_receive demo_verify demo_gate gate_init (demo_request c, Dec 6 0, Dec 6 0) =
    (gate_init\<lparr>gs_seenNonces := gs_seenNonces gate_init @ [bytes_to_base64url (so_nonce demo_opts)]\<rparr>,
      [Downstream (demo_request c)])"
    by (rule signed_call_admitted [OF demo_premises(1,2) demo_user_ok demo_premises(3-5) _ _ _ demo_premises(6)
        _ assms demo_request_def]) (simp_all add: demo_gate_def gate_init_def)
  then show ?thesis by (simp add: gate_init_def)
qed

section \<open>Properties\<close>

text \<open>C2: Nothing fully qualified reaches the hub unchecked: whatever the inputs, every
  message the gate passes downstream that addresses a non-exempt service was authenticated at the
  clock reading of its own arrival, and, when capabilities are required, permitted.\<close>

theorem gate_forwards_only_admitted:
  assumes "gate_run verify opts gate_init inps = (st', out)" "m \<in> set (forwarded out)" "gated opts m"
  shows "\<exists>nowV nowP. (m, nowV, nowP) \<in> set inps \<and> admitted verify opts nowV nowP m"
  using gate_run_invariant [OF assms(1)] assms(2,3) by (auto simp: gate_init_def)

theorem gate_forwards_only_admitted_witness:
  "\<exists>c nowV nowP. admitted demo_verify demo_gate nowV nowP (demo_request c)"
proof -
  obtain c where c: "sign_rpc_call demo_opts = Inr c" using demo_sign by blast
  have "gate_run demo_verify demo_gate gate_init [(demo_request c, Dec 6 0, Dec 6 0)] =
    (gate_init\<lparr>gs_seenNonces := [bytes_to_base64url (so_nonce demo_opts)]\<rparr>, [Downstream (demo_request c)])"
    by (simp add: demo_admitted [OF c])
  moreover have "gated demo_gate (demo_request c)"
    using demo_premises(5) by (simp add: gated_def demo_request_def method_of_def demo_gate_def)
  ultimately show ?thesis
    using gate_forwards_only_admitted [of demo_verify demo_gate "[(demo_request c, Dec 6 0, Dec 6 0)]" _ _ "demo_request c"]
    by auto
qed

text \<open>C26: Replay and order.  Along any run the gated calls passed downstream carry pairwise distinct
  nonces, and what is passed is a subsequence of the input, message for message.\<close>

theorem gate_no_replay_in_order:
  assumes "gate_run verify opts gate_init inps = (st', out)"
  shows "distinct (map message_nonce (filter (gated opts) (forwarded out))) \<and>
    subseq (forwarded out) (map fst inps)"
  using gate_run_invariant [OF assms] by (auto simp: gate_init_def)

theorem gate_no_replay_in_order_witness:
  "subseq (forwarded (snd (gate_run demo_verify
      \<lparr>go_exempt = [], go_requireCapability = False, go_trustedRoots = None, go_acceptedRootIssuers = \<lambda>_. []\<rparr>
      gate_init [(Success None JNull, Dec 1 0, Dec 1 0)]))) [Success None JNull]"
proof -
  let ?o = "\<lparr>go_exempt = [], go_requireCapability = False, go_trustedRoots = None, go_acceptedRootIssuers = \<lambda>_. []\<rparr>"
  obtain st' out where r: "gate_run demo_verify ?o gate_init [(Success None JNull, Dec 1 0, Dec 1 0)] = (st', out)"
    by (cases "gate_run demo_verify ?o gate_init [(Success None JNull, Dec 1 0, Dec 1 0)]")
  from gate_no_replay_in_order [OF r] r show ?thesis by simp
qed

text \<open>C27: Liveness of the gate.  A call signed by the holder of a key, inside the skew window, with
  a fresh nonce, is passed downstream unchanged, and its nonce recorded; in capability mode this
  needs presented capabilities that permit the call it denotes.\<close>

theorem gate_admits_signed_call:
  assumes "holds_key verify (so_identity so) pk" "so_params so = Some (JObj user)" "user_params_ok user"
    "num_finite (so_nowMs so)" "\<not> num_of_int 300000 < num_abs (num_sub (so_nowMs so) nowV)"
    "parse_method_name (so_method so) = Some (Full s i n)" "s \<notin> set (go_exempt opts)"
    "\<not> gs_poisoned st" "gs_downstream st" "bytes_to_base64url (so_nonce so) \<notin> set (gs_seenNonces st)"
    "go_requireCapability opts \<longrightarrow> caps \<noteq> [] \<and> (\<exists>nonce root. permits verify
        \<lparr>call_target = \<lparr>ct_serviceId = s, ct_interfaceId = i, ct_member = n, ct_interfaceHash = so_interfaceHash so\<rparr>,
         call_params = Some (JObj user), call_nonce = bytes_to_base64url (so_nonce so),
         call_signedAtMs = so_nowMs so, call_signer = si_principal (so_identity so),
         call_callHash = sr_callHash c\<rparr>
        caps (accepted_root_issuers opts) nowP None = Inr (Permitted nonce root))"
    "sign_rpc_call so = Inr c"
    "m = Request rid (so_method so) (Some (attach_capabilities (sr_wireParams c) caps))"
  shows "gate_receive verify opts st (m, nowV, nowP) =
    (st\<lparr>gs_seenNonces := gs_seenNonces st @ [bytes_to_base64url (so_nonce so)]\<rparr>, [Downstream m])"
  using signed_call_admitted assms by blast

theorem gate_admits_signed_call_witness:
  "\<exists>c. gate_receive demo_verify demo_gate gate_init (demo_request c, Dec 6 0, Dec 6 0) =
    (gate_init\<lparr>gs_seenNonces := gs_seenNonces gate_init @ [bytes_to_base64url (so_nonce demo_opts)]\<rparr>,
      [Downstream (demo_request c)])"
proof -
  obtain c where c: "sign_rpc_call demo_opts = Inr c" using demo_sign by blast
  have "gate_receive demo_verify demo_gate gate_init (demo_request c, Dec 6 0, Dec 6 0) =
    (gate_init\<lparr>gs_seenNonces := gs_seenNonces gate_init @ [bytes_to_base64url (so_nonce demo_opts)]\<rparr>,
      [Downstream (demo_request c)])"
    by (rule gate_admits_signed_call [OF demo_premises(1,2) demo_user_ok demo_premises(3-5) _ _ _ demo_premises(6)
        _ c demo_request_def]) (simp_all add: demo_gate_def gate_init_def)
  then show ?thesis by blast
qed

text \<open>Answers.  While the queue is healthy and processing does not throw, a message has exactly
  one outcome: it is passed on unchanged, or it is a gated request and is answered once with an
  error under its own id, or it is a gated notification and is dropped.\<close>

theorem gate_one_outcome:
  assumes "\<not> gs_poisoned st" "gs_downstream st" "is_ok (gate_process verify opts nowV nowP st m)"
  shows "snd (gate_receive verify opts st (m, nowV, nowP)) = [Downstream m] \<or>
    (gated opts m \<and> (\<exists>i meth ps code msg. m = Request i meth ps \<and>
       snd (gate_receive verify opts st (m, nowV, nowP)) =
         [Answer (Failure (Some i) \<lparr>err_code = code, err_message = msg, err_data = None\<rparr>)])) \<or>
    (gated opts m \<and> is_notification m \<and> snd (gate_receive verify opts st (m, nowV, nowP)) = [])"
proof (cases "gated opts m")
  case False
  with assms show ?thesis by (simp add: gate_receive_def gate_process_def pass_down_def)
next
  case True
  with assms obtain r where r: "gate_call verify opts nowV nowP st m = Inr r"
    by (auto simp: gate_process_def is_ok_def split: sum.splits)
  note gate_call_out [OF r]
  with True r assms show ?thesis
    by (cases m) (auto simp: gate_receive_def gate_process_def pass_down_def gate_reject_def is_notification_def
        gated_def method_of_def)
qed

theorem gate_one_outcome_witness:
  "snd (gate_receive demo_verify demo_gate gate_init (Success None JNull, Dec 1 0, Dec 1 0)) =
     [Downstream (Success None JNull)]"
proof -
  have "\<not> gated demo_gate (Success None JNull)" by (simp add: gated_def method_of_def)
  moreover from this have "is_ok (gate_process demo_verify demo_gate (Dec 1 0) (Dec 1 0) gate_init (Success None JNull))"
    by (simp add: gate_process_def)
  ultimately show ?thesis
    using gate_one_outcome [of gate_init demo_verify demo_gate "Dec 1 0" "Dec 1 0" "Success None JNull"]
    by (simp add: gate_init_def)
qed

text \<open>A parameter without a canonical form (an overflowing literal such as \<^verbatim>\<open>1e999\<close> parses to
  \<^verbatim>\<open>Infinity\<close>) makes verification throw, and the queue processes nothing after it.\<close>

definition overflow_request :: message where
  "overflow_request = Request (IdNum (Dec 1 0)) ''s::i::m'' (Some (JObj
     [(''x'', JNum (Infinite False)),
      (HUBRPC_META_KEY, JObj [(''method'', JStr ''s::i::m''), (''nonce'', JStr ''n''),
         (''signedAtMs'', JNum (Dec 1 0)), (''principal'', JStr ''id:key:AA'')]),
      (HUBRPC_SIGNATURE_KEY, JObj [(''call'', JObj [(''keyId'', JStr ''key:AA''), (''sig'', JStr [])])])]))"

lemma overflow_poisons:
  "gate_receive demo_verify demo_gate gate_init (overflow_request, Dec 1 0, Dec 1 0) =
     (gate_init\<lparr>gs_poisoned := True\<rparr>, [])"
  by code_simp

lemma poisoned_queue_is_dead: "gs_poisoned st \<Longrightarrow> gate_run verify opts st inps = (st, [])"
  by (induction inps) (auto simp: gate_receive_def split: prod.splits)

text \<open>One signed call with a number that reads as \<^verbatim>\<open>Infinity\<close> silences the link for good: its
  signature check throws, the rejection stays in the queue, and whatever follows, valid calls and
  responses alike, is neither passed on nor answered.\<close>

theorem overflow_poisons_queue:
  "snd (gate_run demo_verify demo_gate gate_init ((overflow_request, Dec 1 0, Dec 1 0) # inps)) = []"
  by (simp add: overflow_poisons poisoned_queue_is_dead)

end
