(* ===== verification/Issuance.thy ===== *)
theory Issuance
  imports Chain
begin

text \<open>
  \<^verbatim>\<open>identity/capability.ts\<close>, the issuing half: \<^verbatim>\<open>prepareCapabilityIssuance\<close> selects, for each
  requested permission, a chain of the issuer's capabilities that fully covers it, caps the
  expiry at the earliest link of the chain, and \<^verbatim>\<open>issue\<close> revalidates the selection and signs
  the leaves.  The clock is read three times by the source and is three arguments here; the
  random nonces are a function of the grant's position.  Permissions stay raw JSON, as they are
  signed; \<open>permission_of\<close> reads them.
\<close>

section \<open>Coverage of a request by one link\<close>

definition restrict_member :: "permission \<Rightarrow> pattern \<Rightarrow> permission" where
  "restrict_member perm member = perm\<lparr>perm_target := (perm_target perm)\<lparr>tp_members := [member]\<rparr>\<rparr>"

definition delegation_covers :: "signed_capability \<Rightarrow> permission list \<Rightarrow> jsnum \<Rightarrow> verdict res" where
  "delegation_covers link permissions nowMs =
     res_bind (if capability_fresh_at link nowMs (Dec 0 0)
       then res_every (\<lambda>perm. res_every (\<lambda>member. res_some (\<lambda>granted.
              if perm_canDelegate granted = Some True
              then permission_scope_covers granted (restrict_member perm member) else Inr False)
            (cap_permissions link)) (tp_members (perm_target perm))) permissions
       else Inr False)
     (\<lambda>b. Inr (if b then Ok else Deny ''expired or insufficient delegation scope''))"

text \<open>The index skips what is not a signed capability or has no content hash.\<close>

fun issuance_cap_index :: "(string \<times> signed_capability) list \<Rightarrow> json list
    \<Rightarrow> (string \<times> signed_capability) list" where
  "issuance_cap_index idx [] = idx"
| "issuance_cap_index idx (cap # caps) =
     issuance_cap_index
       (if has_signed_capability_shape cap
        then (case signed_hash ''capability'' cap of
            Inr h \<Rightarrow> jm_set idx h (signed_capability_of cap)
          | Inl _ \<Rightarrow> idx)
        else idx) caps"

section \<open>Discovering roots\<close>

definition root_check :: "jsnum \<Rightarrow> cap_check" where
  "root_check nowMs link isLeaf = Inr
     (if capability_fresh_at link nowMs (Dec 0 0) \<and>
         list_ex (\<lambda>p. perm_canDelegate p = Some True \<and> tp_members (perm_target p) \<noteq> []) (cap_permissions link)
      then Ok else Deny ''expired or missing delegation authority'')"

fun root_ids_go :: "(signed_capability \<Rightarrow> link_result res) \<Rightarrow> string list \<Rightarrow> signed_capability list
    \<Rightarrow> string list res" where
  "root_ids_go vl roots [] = Inr roots"
| "root_ids_go vl roots (c # cs) = res_bind (vl c) (\<lambda>r.
     root_ids_go vl (case r of LinkOk root \<Rightarrow> js_add roots root | LinkFail _ \<Rightarrow> roots) cs)"

definition get_delegation_root_ids ::
  "verifier \<Rightarrow> string \<Rightarrow> json list \<Rightarrow> jsnum \<Rightarrow> string list res" where
  "get_delegation_root_ids verify issuer capabilities nowMs =
     (let byHash = issuance_cap_index [] capabilities in
      root_ids_go (\<lambda>candidate. verify_link verify (jm_get byHash) (root_check nowMs) nowMs 15
        candidate issuer False) [] (map snd byHash))"

section \<open>Preparing\<close>

record issuance_opts =
  io_audience :: string
  io_permissions :: "json list"
  io_capabilities :: "json list"
  io_expiresAtMs :: "jsnum option"
  io_acceptableRootIds :: "string list option"

datatype issuance_error = CapabilityIssuanceError string string | Thrown js_error

record proposal =
  pg_permissions :: "json list"
  pg_rootIssuer :: string
  pg_expiresAtMs :: "jsnum option"
  pg_parentHash :: "string option"

record prepared_grant = proposal +
  pg_ancestors :: "signed_capability list"

record issuance_plan =
  ip_issuerId :: string
  ip_audience :: string
  ip_grants :: "prepared_grant list"

definition ip_proposals :: "issuance_plan \<Rightarrow> proposal list" where
  "ip_proposals plan = map proposal.truncate (ip_grants plan)"

text \<open>The walk from the selected link to its root.  The chain has been verified with depth 15, so
  that many steps reach its end (\<open>ancestors_complete\<close>).\<close>

fun ancestors_of :: "(string \<Rightarrow> signed_capability option) \<Rightarrow> nat \<Rightarrow> signed_capability
    \<Rightarrow> signed_capability list" where
  "ancestors_of resolve 0 link = []"
| "ancestors_of resolve (Suc n) link =
     link # (case cap_parentHash link of
       None \<Rightarrow> []
     | Some h \<Rightarrow> (case resolve h of None \<Rightarrow> [] | Some p \<Rightarrow> ancestors_of resolve n p))"

definition covers_check :: "permission list \<Rightarrow> jsnum \<Rightarrow> cap_check" where
  "covers_check permissions nowMs link isLeaf = delegation_covers link permissions nowMs"

fun select_authority ::
  "verifier \<Rightarrow> string \<Rightarrow> jsnum \<Rightarrow> string list option \<Rightarrow> (string \<Rightarrow> signed_capability option) \<Rightarrow> permission
     \<Rightarrow> signed_capability list \<Rightarrow> (string \<times> signed_capability list) option res" where
  "select_authority verify issuer nowMs accepted resolve perm [] = Inr None"
| "select_authority verify issuer nowMs accepted resolve perm (candidate # rest) =
     (if cap_audience candidate \<noteq> issuer
      then select_authority verify issuer nowMs accepted resolve perm rest
      else res_bind (verify_link verify resolve (covers_check [perm] nowMs) nowMs 15 candidate issuer False)
        (\<lambda>verified. case verified of
          LinkFail _ \<Rightarrow> select_authority verify issuer nowMs accepted resolve perm rest
        | LinkOk root \<Rightarrow>
            if (case accepted of None \<Rightarrow> False | Some acc \<Rightarrow> root \<notin> set acc)
            then select_authority verify issuer nowMs accepted resolve perm rest
            else Inr (Some (root, ancestors_of resolve 15 candidate))))"

text \<open>\<^verbatim>\<open>Math.min\<close>, and the expiry capped at every link's.\<close>

definition num_min :: "jsnum \<Rightarrow> jsnum \<Rightarrow> jsnum" where
  "num_min a b = (if a = NaN \<or> b = NaN then NaN else if b < a then b else a)"

fun capped_expiry :: "jsnum option \<Rightarrow> 'a capability_scheme list \<Rightarrow> jsnum option" where
  "capped_expiry e [] = e"
| "capped_expiry e (cap # caps) = capped_expiry
     (case cap_expiresAtMs cap of
        None \<Rightarrow> e
      | Some x \<Rightarrow> Some (num_min (case e of None \<Rightarrow> Infinite False | Some v \<Rightarrow> v) x)) caps"

definition lift_err :: "'a res \<Rightarrow> issuance_error + 'a" where
  "lift_err r = (case r of Inl e \<Rightarrow> Inl (Thrown e) | Inr x \<Rightarrow> Inr x)"

definition self_grant :: "string \<Rightarrow> json list \<Rightarrow> jsnum option \<Rightarrow> prepared_grant" where
  "self_grant issuer perms e =
     \<lparr>pg_permissions = perms, pg_rootIssuer = issuer, pg_expiresAtMs = e, pg_parentHash = None,
      pg_ancestors = []\<rparr>"

definition prepare_grant ::
  "verifier \<Rightarrow> string \<Rightarrow> jsnum \<Rightarrow> jsnum option \<Rightarrow> string list option \<Rightarrow> (string \<times> signed_capability) list
     \<Rightarrow> json \<Rightarrow> issuance_error + prepared_grant" where
  "prepare_grant verify issuer nowMs requestedExpiry accepted byHash perm =
     res_bind (lift_err (select_authority verify issuer nowMs accepted (jm_get byHash) (permission_of perm)
         (map snd byHash))) (\<lambda>selected.
     case selected of
       None \<Rightarrow> (if accepted = None then Inr (self_grant issuer [perm] requestedExpiry)
         else Inl (CapabilityIssuanceError ''insufficientAuthority''
           ''Insufficient delegation authority: no valid accepted chain fully covers the requested permission''))
     | Some (root, sel) \<Rightarrow>
         res_bind (lift_err (signed_hash ''capability'' (sc_raw (hd sel)))) (\<lambda>h.
         Inr \<lparr>pg_permissions = [perm], pg_rootIssuer = root, pg_expiresAtMs = capped_expiry requestedExpiry sel,
           pg_parentHash = Some h, pg_ancestors = sel\<rparr>))"

definition request_error :: "issuance_opts \<Rightarrow> jsnum \<Rightarrow> string option" where
  "request_error opts nowMs =
     (if (case io_expiresAtMs opts of None \<Rightarrow> False | Some e \<Rightarrow> \<not> num_finite e \<or> e \<le> nowMs)
      then Some ''Capability expiration must be a finite future timestamp''
      else if io_permissions opts = [] \<or>
        list_ex (\<lambda>p. perm_canInvoke p \<noteq> Some True \<and> perm_canDelegate p \<noteq> Some True \<or>
            tp_members (perm_target p) = []) (map permission_of (io_permissions opts))
      then Some ''At least one non-empty invoke or delegate permission is required''
      else None)"

definition prepare_capability_issuance ::
  "verifier \<Rightarrow> signing_identity \<Rightarrow> issuance_opts \<Rightarrow> jsnum \<Rightarrow> issuance_error + issuance_plan" where
  "prepare_capability_issuance verify issuer opts nowMs =
     (case request_error opts nowMs of
        Some e \<Rightarrow> Inl (Thrown (JsError e))
      | None \<Rightarrow>
          let principal_id = si_principal issuer;
              accepted = io_acceptableRootIds opts;
              plan = (\<lambda>gs. \<lparr>ip_issuerId = principal_id, ip_audience = io_audience opts, ip_grants = gs\<rparr>) in
          if (case accepted of None \<Rightarrow> False | Some acc \<Rightarrow> principal_id \<in> set acc)
          then Inr (plan [self_grant principal_id (io_permissions opts) (io_expiresAtMs opts)])
          else
            let byHash = issuance_cap_index [] (io_capabilities opts) in
            res_bind (res_all (map (prepare_grant verify principal_id nowMs (io_expiresAtMs opts) accepted byHash)
              (io_permissions opts))) (\<lambda>gs. Inr (plan gs)))"

section \<open>Issuing\<close>

definition grant_expired :: "'a proposal_scheme \<Rightarrow> jsnum \<Rightarrow> bool" where
  "grant_expired grant nowMs = (case pg_expiresAtMs grant of None \<Rightarrow> False | Some e \<Rightarrow> e \<le> nowMs)"

definition revalidate_grant :: "verifier \<Rightarrow> string \<Rightarrow> jsnum \<Rightarrow> prepared_grant \<Rightarrow> unit res" where
  "revalidate_grant verify issuerId nowMs grant =
     (if grant_expired grant nowMs then Inl (JsError ''Prepared capability authority expired'')
      else case pg_ancestors grant of
        [] \<Rightarrow> Inr ()
      | head # _ \<Rightarrow>
          let byHash = issuance_cap_index [] (map sc_raw (pg_ancestors grant)) in
          res_bind (verify_link verify (jm_get byHash)
              (covers_check (map permission_of (pg_permissions grant)) nowMs) nowMs 15 head issuerId False)
            (\<lambda>verified. if verified = LinkOk (pg_rootIssuer grant) then Inr ()
              else Inl (JsError ''Prepared capability authority is no longer valid'')))"

definition issue_leaf :: "signing_identity \<Rightarrow> string \<Rightarrow> prepared_grant \<Rightarrow> bytes \<Rightarrow> json res" where
  "issue_leaf issuer audience grant nonceBytes = issue_capability issuer
     \<lparr>iss_audience = audience, iss_permissions = pg_permissions grant, iss_expiresAtMs = pg_expiresAtMs grant,
      iss_parent = (case pg_ancestors grant of [] \<Rightarrow> None | p # _ \<Rightarrow> Some (sc_raw p))\<rparr> nonceBytes"

fun add_results :: "(string \<times> json) list \<Rightarrow> json list \<Rightarrow> (string \<times> json) list res" where
  "add_results result [] = Inr result"
| "add_results result (cap # caps) =
     res_bind (signed_hash ''capability'' cap) (\<lambda>h. add_results (jm_set result h cap) caps)"

fun issue_grants ::
  "signing_identity \<Rightarrow> string \<Rightarrow> bytes list \<Rightarrow> prepared_grant list \<Rightarrow> (string \<times> json) list
     \<Rightarrow> (string \<times> json) list res" where
  "issue_grants issuer audience nonces [] result = Inr result"
| "issue_grants issuer audience nonces (grant # gs) result =
     res_bind (issue_leaf issuer audience grant (case nonces of [] \<Rightarrow> [] | n # _ \<Rightarrow> n)) (\<lambda>leaf.
     res_bind (add_results result (leaf # map sc_raw (pg_ancestors grant))) (\<lambda>result'.
     issue_grants issuer audience (tl nonces) gs result'))"

definition issue_plan ::
  "verifier \<Rightarrow> signing_identity \<Rightarrow> issuance_plan \<Rightarrow> bytes list \<Rightarrow> jsnum \<Rightarrow> jsnum \<Rightarrow> json list res" where
  "issue_plan verify issuer plan nonces nowMs endMs =
     (if si_principal issuer \<noteq> ip_issuerId plan then Inl (JsError ''Prepared capability issuer changed'')
      else res_bind (res_all (map (revalidate_grant verify (ip_issuerId plan) nowMs) (ip_grants plan))) (\<lambda>_.
        res_bind (issue_grants issuer (ip_audience plan) nonces (ip_grants plan) []) (\<lambda>result.
        if list_ex (\<lambda>g. grant_expired g endMs) (ip_grants plan)
        then Inl (JsError ''Prepared capability authority expired while signing'')
        else Inr (map snd result))))"

text \<open>\<^verbatim>\<open>issueCapabilities\<close>: prepare, then issue.\<close>

definition issue_capabilities ::
  "verifier \<Rightarrow> signing_identity \<Rightarrow> issuance_opts \<Rightarrow> bytes list \<Rightarrow> jsnum \<Rightarrow> jsnum \<Rightarrow> jsnum
     \<Rightarrow> issuance_error + json list" where
  "issue_capabilities verify issuer opts nonces prepareMs nowMs endMs =
     res_bind (prepare_capability_issuance verify issuer opts prepareMs) (\<lambda>plan.
       lift_err (issue_plan verify issuer plan nonces nowMs endMs))"

section \<open>The invoke builder\<close>

definition build_invoke :: "string \<Rightarrow> string \<Rightarrow> string \<Rightarrow> string \<Rightarrow> json option \<Rightarrow> json" where
  "build_invoke serviceId ifaceId schemaHash member params = JObj
     ([(''target'', JObj [(''serviceId'', JObj [(''exact'', JStr serviceId)]),
         (''interfaceId'', JObj [(''exact'', JStr ifaceId)]), (''interfaceHash'', JStr schemaHash),
         (''members'', JArr [JObj [(''exact'', JStr member)]])]),
       (''canInvoke'', JBool True)]
      @ (case params of None \<Rightarrow> [] | Some p \<Rightarrow> [(''params'', p)]))"

section \<open>Expiry\<close>

lemma num_min_le:
  "num_min a b \<noteq> NaN \<Longrightarrow> \<not> a < num_min a b \<and> \<not> b < num_min a b"
  using num_less_trans [of a b a] by (auto simp: num_min_def)

lemma num_min_NaN_iff [simp]: "num_min a b = NaN \<longleftrightarrow> a = NaN \<or> b = NaN"
  by (auto simp: num_min_def)

lemma not_less_trans: "\<not> b < a \<Longrightarrow> \<not> c < b \<Longrightarrow> b \<noteq> NaN \<Longrightarrow> \<not> c < (a :: jsnum)"
proof
  assume *: "\<not> b < a" "\<not> c < b" "b \<noteq> NaN" "c < a"
  then have "c \<noteq> NaN" by auto
  with * num_less_le_trans [of c b a] show False by blast
qed

text \<open>The capped expiry is no later than what was requested and no later than any link's.\<close>

lemma capped_expiry_bound:
  assumes "\<forall>v. e = Some v \<longrightarrow> v \<noteq> NaN" "\<forall>cap\<in>set caps. cap_expiresAtMs cap \<noteq> Some NaN"
  shows "(\<forall>v. e = Some v \<longrightarrow> (\<exists>y. capped_expiry e caps = Some y \<and> y \<noteq> NaN \<and> \<not> v < y)) \<and>
    (\<forall>cap\<in>set caps. \<forall>x. cap_expiresAtMs cap = Some x \<longrightarrow>
       (\<exists>y. capped_expiry e caps = Some y \<and> y \<noteq> NaN \<and> \<not> x < y))"
  using assms
proof (induction caps arbitrary: e)
  case (Cons cap caps)
  show ?case
  proof (cases "cap_expiresAtMs cap")
    case None
    with Cons.IH [of e] Cons.prems show ?thesis by simp
  next
    case (Some x)
    define v where "v = (case e of None \<Rightarrow> Infinite False | Some v \<Rightarrow> v)"
    have ne: "v \<noteq> NaN" "x \<noteq> NaN" using Some Cons.prems by (auto simp: v_def split: option.splits)
    then have m: "num_min v x \<noteq> NaN" "\<not> v < num_min v x" "\<not> x < num_min v x"
      using num_min_le by simp_all
    have "capped_expiry e (cap # caps) = capped_expiry (Some (num_min v x)) caps"
      by (simp add: Some v_def)
    with Cons.IH [of "Some (num_min v x)"] Cons.prems m(1) obtain y where
      y: "capped_expiry e (cap # caps) = Some y" "y \<noteq> NaN" "\<not> num_min v x < y" and
      rest: "\<forall>cap\<in>set caps. \<forall>x. cap_expiresAtMs cap = Some x \<longrightarrow> \<not> x < y"
      by auto
    from y(3) m have "\<not> v < y" "\<not> x < y" using not_less_trans by blast+
    moreover have "w = v" if "e = Some w" for w using that by (simp add: v_def)
    ultimately show ?thesis using y rest Some by auto
  qed
qed simp

lemma capped_expiry_None: "capped_expiry None caps = None \<longleftrightarrow> (\<forall>cap\<in>set caps. cap_expiresAtMs cap = None)"
proof -
  have "capped_expiry (Some v) cs \<noteq> None" for v and cs :: "'a capability_scheme list"
    by (induction cs arbitrary: v) (auto split: option.splits)
  then show ?thesis by (induction caps) (auto split: option.splits)
qed

section \<open>The selected chain\<close>

lemma ancestors_complete:
  "delegation_chain verify check nowMs aud leaf (l # ls) \<Longrightarrow> resolved_chain resolve (l # ls) \<Longrightarrow>
   length (l # ls) \<le> d \<Longrightarrow> ancestors_of resolve d l = l # ls"
proof (induction ls arbitrary: l d aud leaf)
  case Nil
  then show ?case by (cases d) auto
next
  case (Cons p ps)
  from Cons.prems obtain n where d: "d = Suc n" by (cases d) auto
  from Cons.prems(1,3) have "delegation_chain verify check nowMs (cap_issuer l) False (p # ps)"
    "length (p # ps) \<le> n" by (simp_all add: d)
  moreover have "resolved_chain resolve (p # ps)" using Cons.prems(2) by simp
  ultimately have "ancestors_of resolve n p = p # ps" using Cons.IH by blast
  then show ?case using Cons.prems(2) by (auto simp: d split: option.splits)
qed

lemma select_authority_D:
  "select_authority verify issuer nowMs accepted resolve perm cands = Inr (Some (root, sel)) \<Longrightarrow>
     \<exists>l\<in>set cands. cap_audience l = issuer \<and>
       verify_link verify resolve (covers_check [perm] nowMs) nowMs 15 l issuer False = Inr (LinkOk root) \<and>
       (\<forall>acc. accepted = Some acc \<longrightarrow> root \<in> set acc) \<and> sel = ancestors_of resolve 15 l"
proof (induction cands)
  case (Cons c cs)
  show ?case
  proof (cases "cap_audience c = issuer")
    case False
    with Cons show ?thesis by simp
  next
    case True
    then obtain r where r: "verify_link verify resolve (covers_check [perm] nowMs) nowMs 15 c issuer False = Inr r"
      using Cons.prems by (auto simp: res_bind_Inr_iff)
    show ?thesis
    proof (cases r)
      case (LinkFail m)
      with Cons True r show ?thesis by simp
    next
      case (LinkOk root')
      show ?thesis
      proof (cases "case accepted of None \<Rightarrow> False | Some acc \<Rightarrow> root' \<notin> set acc")
        case True
        with Cons.prems r LinkOk \<open>cap_audience c = issuer\<close>
        have "select_authority verify issuer nowMs accepted resolve perm cs = Inr (Some (root, sel))" by simp
        with Cons.IH show ?thesis by auto
      next
        case False
        with Cons.prems r LinkOk True show ?thesis by (auto split: option.splits)
      qed
    qed
  qed
qed simp

section \<open>The two checks of issuance meet the contract of the link verifier\<close>

definition link_delegates :: "permission list \<Rightarrow> jsnum \<Rightarrow> signed_capability \<Rightarrow> bool" where
  "link_delegates permissions nowMs l \<longleftrightarrow> capability_fresh_at l nowMs (Dec 0 0) \<and>
     (\<forall>p\<in>set permissions. \<forall>m\<in>set (tp_members (perm_target p)). \<exists>g\<in>set (cap_permissions l).
        perm_canDelegate g = Some True \<and> permission_scope_covers g (restrict_member p m) = Inr True)"

definition link_has_authority :: "jsnum \<Rightarrow> signed_capability \<Rightarrow> bool" where
  "link_has_authority nowMs l \<longleftrightarrow> capability_fresh_at l nowMs (Dec 0 0) \<and>
     (\<exists>p\<in>set (cap_permissions l). perm_canDelegate p = Some True \<and> tp_members (perm_target p) \<noteq> [])"

lemma covers_check_Ok: "covers_check perms nowMs l leaf = Inr Ok \<Longrightarrow> link_delegates perms nowMs l"
  unfolding covers_check_def delegation_covers_def link_delegates_def
  by (fastforce simp: res_bind_Inr_iff res_every_True_iff dest!: res_some_TrueD split: if_splits)

interpretation covers_link: link_check "covers_check perms nowMs" "\<lambda>l _. link_delegates perms nowMs l" for perms nowMs
  by unfold_locales (rule covers_check_Ok)

interpretation root_link: link_check "root_check nowMs" "\<lambda>l _. link_has_authority nowMs l" for nowMs
  by unfold_locales (auto simp: root_check_def link_has_authority_def list_ex_iff split: if_splits)

section \<open>Values read from the wire\<close>

lemma field_json_ok: "json_ok v \<Longrightarrow> field k v = Some w \<Longrightarrow> json_ok w"
proof (cases v)
  case (JObj kvs)
  assume "json_ok v" "field k v = Some w"
  with JObj json_items(1) [of "(k, w)" kvs] show ?thesis by (auto dest: map_of_SomeD)
qed (simp_all add: field_def)

lemma permission_of_ok:
  assumes "has_permission_shape p" "json_ok p"
  shows "permission_ok (permission_of p)"
proof (cases "field ''params'' p")
  case None
  then show ?thesis by (simp add: permission_ok_def permission_of_def)
next
  case (Some ps)
  from assms(1) Some obtain kvs where kvs: "ps = JObj kvs" "list_all (\<lambda>p. has_param_matcher_shape (snd p)) kvs"
    by (auto simp: has_permission_shape_def split: json.splits)
  from field_json_ok [OF assms(2) Some] kvs(1) have "json_ok (JObj kvs)" by simp
  with kvs Some json_items(1) [of _ kvs] show ?thesis
    by (auto simp: permission_ok_def permission_of_def list_all_iff)
qed

lemma capability_permissions_ok:
  assumes "has_signed_capability_shape cap" "json_ok cap" "p \<in> set (cap_permissions (signed_capability_of cap))"
  shows "permission_ok p"
proof -
  from assms(1) obtain xs where xs: "field ''permissions'' cap = Some (JArr xs)" "list_all has_permission_shape xs"
    by (auto simp: has_signed_capability_shape_def arr_all_def split: option.splits json.splits)
  with assms(3) obtain q where q: "q \<in> set xs" "p = permission_of q"
    by (auto simp: signed_capability_of_def arr_of_def)
  moreover have "json_ok q" using field_json_ok [OF assms(2) xs(1)] q(1) by (auto simp: list_all_iff)
  ultimately show ?thesis using xs(2) by (auto simp: list_all_iff intro: permission_of_ok)
qed

lemma issuance_cap_index_get:
  "jm_get (issuance_cap_index idx caps) h = Some c \<Longrightarrow>
     (\<exists>cap\<in>set caps. has_signed_capability_shape cap \<and> c = signed_capability_of cap \<and>
        signed_hash ''capability'' cap = Inr h) \<or> jm_get idx h = Some c"
proof (induction idx caps rule: issuance_cap_index.induct)
  case (2 idx cap caps)
  then show ?case by (auto split: if_splits sum.splits)
qed simp

lemma issuance_cap_index_wf [simp]: "jm_wf idx \<Longrightarrow> jm_wf (issuance_cap_index idx caps)"
  by (induction idx caps rule: issuance_cap_index.induct) (auto split: sum.splits)

lemma issuance_cap_index_mem:
  assumes "(h, c) \<in> set (issuance_cap_index [] caps)"
  shows "\<exists>cap\<in>set caps. has_signed_capability_shape cap \<and> c = signed_capability_of cap \<and>
    signed_hash ''capability'' cap = Inr h"
proof -
  have "jm_get (issuance_cap_index [] caps) h = Some c" by (rule jm_get_wfI [OF _ assms]) simp
  then show ?thesis using issuance_cap_index_get by fastforce
qed

lemma resolved_chain_indexed:
  assumes "resolved_chain (jm_get (issuance_cap_index [] caps)) (l # ls)"
    "l \<in> set (map snd (issuance_cap_index [] caps))"
  shows "\<forall>q\<in>set (l # ls). \<exists>cap\<in>set caps. has_signed_capability_shape cap \<and> q = signed_capability_of cap"
  using assms
proof (induction ls arbitrary: l)
  case Nil
  then show ?case using issuance_cap_index_mem by auto blast
next
  case (Cons p ps)
  from Cons.prems(1) obtain h where "jm_get (issuance_cap_index [] caps) h = Some p" "resolved_chain
      (jm_get (issuance_cap_index [] caps)) (p # ps)" by (auto split: option.splits)
  moreover from this(1) have "p \<in> set (map snd (issuance_cap_index [] caps))"
    using jm_get_SomeD by force
  ultimately have "\<forall>q\<in>set (p # ps). \<exists>cap\<in>set caps. has_signed_capability_shape cap \<and> q = signed_capability_of cap"
    using Cons.IH by blast
  moreover have "\<exists>cap\<in>set caps. has_signed_capability_shape cap \<and> l = signed_capability_of cap"
    using Cons.prems(2) issuance_cap_index_mem by auto blast
  ultimately show ?case by simp
qed

section \<open>What a prepared grant rests on\<close>

definition accepts_root :: "string list option \<Rightarrow> string \<Rightarrow> bool" where
  "accepts_root accepted root = (case accepted of None \<Rightarrow> True | Some acc \<Rightarrow> root \<in> set acc)"

text \<open>The chain a grant was prepared on.\<close>

definition grant_chain ::
  "verifier \<Rightarrow> string \<Rightarrow> jsnum \<Rightarrow> jsnum option \<Rightarrow> prepared_grant \<Rightarrow> signed_capability \<Rightarrow> signed_capability list
     \<Rightarrow> bool" where
  "grant_chain verify issuer nowMs requested g l ls \<longleftrightarrow>
     pg_ancestors g = l # ls \<and> length (l # ls) \<le> 15 \<and> pg_rootIssuer g = cap_issuer (last (l # ls)) \<and>
     pg_expiresAtMs g = capped_expiry requested (l # ls) \<and>
     delegation_chain verify (covers_check (map permission_of (pg_permissions g)) nowMs) nowMs issuer False (l # ls)"

lemma prepare_grant_cases:
  assumes "prepare_grant verify issuer nowMs requested accepted (issuance_cap_index [] caps) perm = Inr g"
  shows "(g = self_grant issuer [perm] requested \<and> accepted = None) \<or>
    (\<exists>l ls. grant_chain verify issuer nowMs requested g l ls \<and>
      pg_permissions g = [perm] \<and> accepts_root accepted (pg_rootIssuer g) \<and>
      (\<exists>h. pg_parentHash g = Some h \<and> signed_hash ''capability'' (sc_raw l) = Inr h) \<and>
      (\<forall>q\<in>set (l # ls). \<exists>cap\<in>set caps. has_signed_capability_shape cap \<and> q = signed_capability_of cap))"
proof -
  let ?idx = "issuance_cap_index [] caps"
  from assms obtain s where s: "select_authority verify issuer nowMs accepted (jm_get ?idx) (permission_of perm)
      (map snd ?idx) = Inr s"
    by (auto simp: prepare_grant_def res_bind_Inr_iff lift_err_def split: sum.splits)
  show ?thesis
  proof (cases s)
    case None
    with assms s show ?thesis by (auto simp: prepare_grant_def res_bind_Inr_iff lift_err_def split: if_splits)
  next
    case (Some rs)
    obtain root sel where sel: "s = Some (root, sel)" using Some by (cases rs) auto
    from select_authority_D [OF s [unfolded sel]] obtain l where
      l: "l \<in> set (map snd ?idx)" "\<forall>acc. accepted = Some acc \<longrightarrow> root \<in> set acc"
        "sel = ancestors_of (jm_get ?idx) 15 l" and
      v: "verify_link verify (jm_get ?idx) (covers_check [permission_of perm] nowMs) nowMs 15 l issuer False
        = Inr (LinkOk root)" by blast
    from v obtain ls where ls: "delegation_chain verify (covers_check [permission_of perm] nowMs) nowMs issuer False (l # ls)"
      "resolved_chain (jm_get ?idx) (l # ls)" "length (l # ls) \<le> 15" "root = cap_issuer (last (l # ls))"
      unfolding verify_link_ok_iff by blast
    from ancestors_complete [OF ls(1-3)] l(3) have eq: "sel = l # ls" by simp
    from assms s sel eq obtain h where h: "signed_hash ''capability'' (sc_raw l) = Inr h"
      "g = \<lparr>pg_permissions = [perm], pg_rootIssuer = root, pg_expiresAtMs = capped_expiry requested (l # ls),
           pg_parentHash = Some h, pg_ancestors = l # ls\<rparr>"
      by (auto simp: prepare_grant_def res_bind_Inr_iff lift_err_def split: sum.splits)
    have "grant_chain verify issuer nowMs requested g l ls"
      unfolding grant_chain_def h(2) using ls by simp
    moreover have "accepts_root accepted root" using l(2) by (simp add: accepts_root_def split: option.splits)
    ultimately show ?thesis using h resolved_chain_indexed [OF ls(2) l(1)]
      by (intro disjI2 exI [of _ l] exI [of _ ls]) simp
  qed
qed

lemma concat_grants:
  "map f ps = map Inr gs \<Longrightarrow> (\<And>p g. f p = Inr g \<Longrightarrow> pg_permissions g = [p]) \<Longrightarrow>
     concat (map pg_permissions gs) = ps"
  by (induction ps arbitrary: gs) auto

text \<open>Every grant of a plan, whichever way it was made.\<close>

lemma prepare_cases:
  assumes "prepare_capability_issuance verify issuer opts nowMs = Inr plan"
  shows "request_error opts nowMs = None \<and> ip_issuerId plan = si_principal issuer \<and>
    ip_audience plan = io_audience opts \<and> concat (map pg_permissions (ip_grants plan)) = io_permissions opts \<and>
    (\<forall>g\<in>set (ip_grants plan).
      (\<exists>perms. g = self_grant (si_principal issuer) perms (io_expiresAtMs opts) \<and>
         accepts_root (io_acceptableRootIds opts) (si_principal issuer)) \<or>
      (\<exists>l ls. grant_chain verify (si_principal issuer) nowMs (io_expiresAtMs opts) g l ls \<and>
         accepts_root (io_acceptableRootIds opts) (pg_rootIssuer g) \<and>
         (\<exists>h. pg_parentHash g = Some h \<and> signed_hash ''capability'' (sc_raw l) = Inr h) \<and>
         (\<forall>q\<in>set (l # ls). \<exists>cap\<in>set (io_capabilities opts). has_signed_capability_shape cap \<and>
            q = signed_capability_of cap)))"
proof -
  let ?p = "si_principal issuer" and ?acc = "io_acceptableRootIds opts"
  have req: "request_error opts nowMs = None"
    using assms by (auto simp: prepare_capability_issuance_def split: option.splits)
  show ?thesis
  proof (cases "case ?acc of None \<Rightarrow> False | Some acc \<Rightarrow> ?p \<in> set acc")
    case True
    with assms req have "plan = \<lparr>ip_issuerId = ?p, ip_audience = io_audience opts,
        ip_grants = [self_grant ?p (io_permissions opts) (io_expiresAtMs opts)]\<rparr>"
      by (simp add: prepare_capability_issuance_def Let_def)
    with True req show ?thesis by (auto simp: accepts_root_def self_grant_def split: option.splits)
  next
    case False
    with assms req obtain gs where gs:
      "map (prepare_grant verify ?p nowMs (io_expiresAtMs opts) ?acc (issuance_cap_index [] (io_capabilities opts)))
        (io_permissions opts) = map Inr gs"
      "plan = \<lparr>ip_issuerId = ?p, ip_audience = io_audience opts, ip_grants = gs\<rparr>"
      by (auto simp: prepare_capability_issuance_def Let_def res_bind_Inr_iff res_all_Inr_iff split: option.splits)
    have one: "\<exists>perm. prepare_grant verify ?p nowMs (io_expiresAtMs opts) ?acc
        (issuance_cap_index [] (io_capabilities opts)) perm = Inr g" if "g \<in> set gs" for g
    proof -
      from that have "Inr g \<in> set (map Inr gs :: (issuance_error + prepared_grant) list)" by simp
      then show ?thesis unfolding gs(1) [symmetric] by auto
    qed
    have cat: "concat (map pg_permissions gs) = io_permissions opts"
    proof (rule concat_grants [OF gs(1)])
      fix perm g assume "prepare_grant verify ?p nowMs (io_expiresAtMs opts) ?acc
        (issuance_cap_index [] (io_capabilities opts)) perm = Inr g"
      from prepare_grant_cases [OF this] show "pg_permissions g = [perm]" by (auto simp: self_grant_def)
    qed
    have "(\<exists>perms. g = self_grant ?p perms (io_expiresAtMs opts) \<and> accepts_root ?acc ?p) \<or>
      (\<exists>l ls. grant_chain verify ?p nowMs (io_expiresAtMs opts) g l ls \<and> accepts_root ?acc (pg_rootIssuer g) \<and>
         (\<exists>h. pg_parentHash g = Some h \<and> signed_hash ''capability'' (sc_raw l) = Inr h) \<and>
         (\<forall>q\<in>set (l # ls). \<exists>cap\<in>set (io_capabilities opts). has_signed_capability_shape cap \<and>
            q = signed_capability_of cap))" if "g \<in> set gs" for g
    proof -
      from one [OF that] obtain perm where "prepare_grant verify ?p nowMs (io_expiresAtMs opts) ?acc
        (issuance_cap_index [] (io_capabilities opts)) perm = Inr g" by blast
      from prepare_grant_cases [OF this] show ?thesis by (auto simp: accepts_root_def)
    qed
    with cat req gs(2) show ?thesis by simp
  qed
qed

lemma fresh_not_NaN: "capability_fresh_at l nowMs m \<Longrightarrow> cap_expiresAtMs l \<noteq> Some NaN"
  by (auto simp: capability_fresh_at_def)

lemma grant_chain_facts:
  assumes "grant_chain verify issuer nowMs requested g l ls"
  shows "cap_audience l = issuer" "linked (l # ls)"
    "\<forall>q\<in>set (l # ls). authentic verify q \<and> link_delegates (map permission_of (pg_permissions g)) nowMs q"
    "\<forall>q\<in>set (l # ls). cap_expiresAtMs q \<noteq> Some NaN"
proof -
  from assms have "delegation_chain verify (covers_check (map permission_of (pg_permissions g)) nowMs) nowMs issuer
      False (l # ls)" by (simp add: grant_chain_def)
  from covers_link.chain_admits [OF this] have *: "cap_audience l = issuer" "linked (l # ls)"
    "\<forall>q\<in>set (l # ls). authentic verify q \<and> link_delegates (map permission_of (pg_permissions g)) nowMs q"
    by auto
  then show "cap_audience l = issuer" "linked (l # ls)"
    "\<forall>q\<in>set (l # ls). authentic verify q \<and> link_delegates (map permission_of (pg_permissions g)) nowMs q"
    by blast+
  then show "\<forall>q\<in>set (l # ls). cap_expiresAtMs q \<noteq> Some NaN"
    by (auto simp: link_delegates_def dest: fresh_not_NaN)
qed

text \<open>A grant's expiry, when every link is at a number: unexpired means every ancestor is.\<close>

lemma grant_expiry_ancestors:
  assumes "grant_chain verify issuer nowMs requested g l ls" "\<forall>v. requested = Some v \<longrightarrow> v \<noteq> NaN"
    "q \<in> set (l # ls)" "cap_expiresAtMs q = Some x"
  shows "\<exists>y. pg_expiresAtMs g = Some y \<and> y \<noteq> NaN \<and> \<not> x < y"
proof -
  have "pg_expiresAtMs g = capped_expiry requested (l # ls)" using assms(1) by (simp add: grant_chain_def)
  with capped_expiry_bound [OF assms(2) grant_chain_facts(4) [OF assms(1)]] assms(3,4) show ?thesis by auto
qed

section \<open>Delegated authority covers what is issued under it\<close>

lemma restrict_member_permits:
  assumes "permission_permits c p Invoke = Inr Ok"
  shows "\<exists>m\<in>set (tp_members (perm_target p)). permission_permits c (restrict_member p m) Invoke = Inr Ok"
  using assms unfolding permission_permits_Ok_iff permission_matches_target_iff
  by (auto simp: Let_def restrict_member_def grants_def)

lemma permission_permits_invoke_any:
  assumes "permission_scope_covers g r = Inr True" "permission_permits c r Invoke = Inr Ok"
    "permission_ok g" "permission_ok r" "perm_canDelegate g = Some True"
    "\<forall>j. call_params c = Some j \<longrightarrow> json_ok j"
  shows "permission_permits c g Delegate = Inr Ok"
proof -
  define r' where "r' = r\<lparr>perm_canDelegate := Some True\<rparr>"
  have "permission_permits c r' Delegate = Inr Ok"
    using assms(2) by (auto simp: permission_permits_Ok_iff permission_matches_target_iff r'_def grants_def Let_def)
  moreover have "permission_scope_covers g r' = Inr True" "permission_ok r'"
    using assms(1,4) by (simp_all add: permission_scope_covers_def permission_ok_def r'_def Let_def cong: option.case_cong)
  ultimately show ?thesis
    using permission_scope_covers_sound [of g r' c Delegate] assms(3,5,6) by (simp add: grants_def)
qed

lemma link_delegates_call:
  assumes "link_delegates perms nowMs q" "p \<in> set perms" "permission_permits c p Invoke = Inr Ok"
    "permission_ok p" "\<forall>g\<in>set (cap_permissions q). permission_ok g"
    "\<forall>j. call_params c = Some j \<longrightarrow> json_ok j"
  shows "\<exists>g\<in>set (cap_permissions q). permission_permits c g Delegate = Inr Ok"
proof -
  from restrict_member_permits [OF assms(3)] obtain m where
    m: "m \<in> set (tp_members (perm_target p))" "permission_permits c (restrict_member p m) Invoke = Inr Ok" by blast
  with assms(1,2) obtain g where g: "g \<in> set (cap_permissions q)" "perm_canDelegate g = Some True"
    "permission_scope_covers g (restrict_member p m) = Inr True"
    by (auto simp: link_delegates_def)
  have "permission_ok (restrict_member p m)" using assms(4) by (simp add: permission_ok_def restrict_member_def)
  with permission_permits_invoke_any [OF g(3) m(2)] g(1,2) assms(5,6) show ?thesis by blast
qed

lemma delegation_chain_transfer:
  assumes "delegation_chain verify check nowMs aud leaf ls"
    "\<forall>l\<in>set ls. (\<forall>b. check l b = Inr Ok \<longrightarrow> check' l b = Inr Ok) \<and> \<not> link_expired l nowMs'"
  shows "delegation_chain verify check' nowMs' aud leaf ls"
  using assms
proof (induction ls arbitrary: aud leaf)
  case (Cons l ls)
  then show ?case by (cases ls) auto
qed simp

lemma linked_resolved:
  "linked (l # ls) \<Longrightarrow> \<forall>q\<in>set ls. \<forall>h. signed_hash ''capability'' (sc_raw q) = Inr h \<longrightarrow> resolve h = Some q \<Longrightarrow>
     resolved_chain resolve (l # ls)"
  by (induction ls arbitrary: l) auto

lemma grant_chain_permits:
  assumes g: "grant_chain verify issuer t0 requested g l ls" and req: "\<forall>v. requested = Some v \<longrightarrow> v \<noteq> NaN"
    and unexpired: "\<forall>e. pg_expiresAtMs g = Some e \<longrightarrow> \<not> e < nowMs"
    and p: "p \<in> set (pg_permissions g)" "permission_permits c (permission_of p) Invoke = Inr Ok"
      "permission_ok (permission_of p)" "\<forall>j. call_params c = Some j \<longrightarrow> json_ok j"
    and perms: "\<forall>q\<in>set (l # ls). \<forall>gr\<in>set (cap_permissions q).
       permission_ok gr \<and> is_ok (permission_permits c gr Delegate)"
    and resolve: "\<forall>q\<in>set (l # ls). \<forall>h. signed_hash ''capability'' (sc_raw q) = Inr h \<longrightarrow> resolve h = Some q"
  shows "verify_link verify resolve (call_check c) nowMs 15 l issuer False = Inr (LinkOk (pg_rootIssuer g))"
proof -
  note f = grant_chain_facts [OF g]
  have chain: "delegation_chain verify (covers_check (map permission_of (pg_permissions g)) t0) t0 issuer False (l # ls)"
    "length (l # ls) \<le> 15" "pg_rootIssuer g = cap_issuer (last (l # ls))"
    using g by (simp_all add: grant_chain_def)
  have exp: "\<not> link_expired q nowMs" if "q \<in> set (l # ls)" for q
  proof (cases "cap_expiresAtMs q")
    case None
    then show ?thesis by (simp add: link_expired_def)
  next
    case (Some x)
    from grant_expiry_ancestors [OF g req that Some] obtain y where
      y: "pg_expiresAtMs g = Some y" "y \<noteq> NaN" "\<not> x < y" by blast
    have "\<not> x < nowMs"
    proof
      assume "x < nowMs"
      moreover from this have "x \<noteq> NaN" by auto
      ultimately show False using num_less_le_trans [of x y nowMs] y unexpired by blast
    qed
    then show ?thesis by (simp add: link_expired_def Some)
  qed
  have "call_check c q False = Inr Ok" if q: "q \<in> set (l # ls)" for q
  proof -
    from f(3) q have "link_delegates (map permission_of (pg_permissions g)) t0 q" by blast
    from link_delegates_call [OF this _ p(2-3) _ p(4)] p(1) perms q obtain gr where
      "gr \<in> set (cap_permissions q)" "permission_permits c gr Delegate = Inr Ok" by auto
    then show ?thesis unfolding call_check_def capability_permits_def if_False
      by (rule permits_go_complete [rotated]) (use perms q in blast)
  qed
  with exp have "\<forall>q\<in>set (l # ls). (\<forall>b. covers_check (map permission_of (pg_permissions g)) t0 q b = Inr Ok \<longrightarrow>
      call_check c q False = Inr Ok) \<and> \<not> link_expired q nowMs" by simp
  from delegation_chain_transfer [OF chain(1) this]
  have "delegation_chain verify (\<lambda>q _. call_check c q False) nowMs issuer False (l # ls)" .
  moreover have "delegation_chain verify (\<lambda>q _. call_check c q False) nowMs aud False qs \<Longrightarrow>
      delegation_chain verify (call_check c) nowMs aud False qs" for aud qs
  proof (induction qs arbitrary: aud)
    case (Cons q qs)
    then show ?case by (cases qs) auto
  qed simp
  ultimately have "delegation_chain verify (call_check c) nowMs issuer False (l # ls)" by blast
  moreover have "resolved_chain resolve (l # ls)" using linked_resolved [OF f(2)] resolve by auto
  ultimately show ?thesis using chain(2,3) unfolding verify_link_ok_iff by blast
qed

section \<open>What issuing returns\<close>

lemma add_results_get:
  "add_results result caps = Inr result' \<Longrightarrow>
     (\<forall>cap\<in>set caps. \<exists>h. signed_hash ''capability'' cap = Inr h \<and> jm_has result' h) \<and>
     (\<forall>h. jm_has result h \<longrightarrow> jm_has result' h) \<and>
     (\<forall>h cap. (h, cap) \<in> set result' \<longrightarrow> (h, cap) \<in> set result \<or> cap \<in> set caps \<and> signed_hash ''capability'' cap = Inr h) \<and>
     (jm_wf result \<longrightarrow> jm_wf result')"
proof (induction result caps rule: add_results.induct)
  case (2 result cap caps)
  then obtain h where h: "signed_hash ''capability'' cap = Inr h" "add_results (jm_set result h cap) caps = Inr result'"
    by (auto simp: res_bind_Inr_iff)
  note ih = "2.IH" [OF h(2)]
  have sub: "\<forall>p\<in>set (jm_set result h cap). p = (h, cap) \<or> p \<in> set result"
    using set_jm_set_subset [of result h cap] by blast
  have has: "jm_has (jm_set result h cap) k \<longleftrightarrow> k = h \<or> jm_has result k" for k
    by (simp add: jm_has_iff)
  then have "jm_has result' h" using ih by blast
  moreover have "\<forall>k c. (k, c) \<in> set result' \<longrightarrow> (k, c) \<in> set result \<or>
      c \<in> set (cap # caps) \<and> signed_hash ''capability'' c = Inr k"
    using ih sub h(1) by (metis list.set_intros prod.inject)
  ultimately show ?case using ih h(1) has by simp
qed simp

lemma issue_grants_D:
  "issue_grants issuer audience nonces gs result = Inr result' \<Longrightarrow>
     (\<forall>g\<in>set gs. \<exists>leaf nonce. issue_leaf issuer audience g nonce = Inr leaf \<and>
        (\<forall>cap\<in>set (leaf # map sc_raw (pg_ancestors g)).
           \<exists>h. signed_hash ''capability'' cap = Inr h \<and> jm_has result' h)) \<and>
     (\<forall>h. jm_has result h \<longrightarrow> jm_has result' h) \<and>
     (\<forall>h cap. (h, cap) \<in> set result' \<longrightarrow> (h, cap) \<in> set result \<or> signed_hash ''capability'' cap = Inr h \<and>
        (\<exists>g\<in>set gs. cap \<in> set (map sc_raw (pg_ancestors g)) \<or>
           (\<exists>nonce. issue_leaf issuer audience g nonce = Inr cap))) \<and>
     (jm_wf result \<longrightarrow> jm_wf result')"
proof (induction issuer audience nonces gs result rule: issue_grants.induct)
  case (2 issuer audience nonces g gs result)
  define nonce where "nonce = (case nonces of [] \<Rightarrow> [] | n # _ \<Rightarrow> n)"
  from 2(2) obtain leaf result1 where l: "issue_leaf issuer audience g nonce = Inr leaf"
    "add_results result (leaf # map sc_raw (pg_ancestors g)) = Inr result1"
    "issue_grants issuer audience (tl nonces) gs result1 = Inr result'"
    unfolding nonce_def by (auto simp: res_bind_Inr_iff simp del: add_results.simps)
  note a = add_results_get [OF l(2)]
  note r = "2.IH" [OF l(3)]
  have "\<forall>cap\<in>set (leaf # map sc_raw (pg_ancestors g)). \<exists>h. signed_hash ''capability'' cap = Inr h \<and> jm_has result' h"
    using a [THEN conjunct1] r [THEN conjunct2, THEN conjunct1] by blast
  with l(1) have "\<exists>leaf nonce. issue_leaf issuer audience g nonce = Inr leaf \<and>
      (\<forall>cap\<in>set (leaf # map sc_raw (pg_ancestors g)). \<exists>h. signed_hash ''capability'' cap = Inr h \<and> jm_has result' h)"
    by blast
  moreover have "(h, cap) \<in> set result \<or> signed_hash ''capability'' cap = Inr h \<and>
        (\<exists>g\<in>set (g # gs). cap \<in> set (map sc_raw (pg_ancestors g)) \<or>
           (\<exists>nonce. issue_leaf issuer audience g nonce = Inr cap))" if "(h, cap) \<in> set result'" for h cap
  proof -
    from r that consider "(h, cap) \<in> set result1"
      | "signed_hash ''capability'' cap = Inr h \<and> (\<exists>g\<in>set gs. cap \<in> set (map sc_raw (pg_ancestors g)) \<or>
           (\<exists>nonce. issue_leaf issuer audience g nonce = Inr cap))" by blast
    then show ?thesis
    proof cases
      case 1
      with a have "(h, cap) \<in> set result \<or> cap \<in> set (leaf # map sc_raw (pg_ancestors g)) \<and>
        signed_hash ''capability'' cap = Inr h" by blast
      with l(1) show ?thesis by auto
    qed auto
  qed
  ultimately show ?case using a r by (simp only: list.set) blast
qed simp

lemma root_ids_go_D:
  "root_ids_go vl roots cs = Inr roots' \<Longrightarrow>
     set roots' = set roots \<union> {r. \<exists>c\<in>set cs. vl c = Inr (LinkOk r)} \<and> (distinct roots \<longrightarrow> distinct roots')"
proof (induction vl roots cs rule: root_ids_go.induct)
  case (2 vl roots c cs)
  from 2(2) obtain r where r: "vl c = Inr r"
    "root_ids_go vl (case r of LinkOk root \<Rightarrow> js_add roots root | LinkFail _ \<Rightarrow> roots) cs = Inr roots'"
    by (auto simp: res_bind_Inr_iff)
  from "2.IH" [OF r(2)] r(1) show ?case by (cases r) auto
qed simp

section \<open>An example: one capability delegated once\<close>

lemma json_ok_jm_set: "json_ok (JObj kvs) \<Longrightarrow> json_ok v \<Longrightarrow> json_ok (JObj (jm_set kvs k v))"
proof -
  assume ok: "json_ok (JObj kvs)" "json_ok v"
  then have "distinct (map fst (jm_set kvs k v))" using jm_wf_set [of kvs k v] by (simp add: jm_wf_def)
  moreover have "json_ok (snd p)" if "p \<in> set (jm_set kvs k v)" for p
    using that ok set_jm_set_subset [of kvs k v] json_items(1) [of p kvs] by auto
  ultimately show ?thesis by (auto simp: list_all_iff)
qed

lemma json_ok_with_signature:
  assumes "json_ok (JObj kvs)" "map_of kvs HUBRPC_SIGNATURE_KEY = None"
  shows "json_ok (with_signature (JObj kvs) d e)"
  using assms(2) json_ok_jm_set [OF assms(1), of "JObj [(d, envelope_json e)]" HUBRPC_SIGNATURE_KEY]
  by (simp add: with_signature_def Let_def envelope_json_def)

definition demo_issuer :: signing_identity where
  "demo_issuer = demo_identity 9"

definition demo_request :: "json \<Rightarrow> issuance_opts" where
  "demo_request parent =
     \<lparr>io_audience = ''id:key:AA'', io_permissions = [demo_permission], io_capabilities = [parent],
      io_expiresAtMs = None, io_acceptableRootIds = None\<rparr>"

lemma demo_parent:
  "\<exists>parent h. issue_capability (demo_identity 7) demo_parent_issue [1] = Inr parent \<and>
     has_signed_capability_shape parent \<and> json_ok parent \<and> signed_hash ''capability'' parent = Inr h \<and>
     authentic demo_verify (signed_capability_of parent) \<and>
     signed_capability_of parent =
       \<lparr>cap_issuer = si_principal (demo_identity 7), cap_audience = si_principal demo_issuer,
        cap_permissions = map permission_of (iss_permissions demo_parent_issue),
        cap_expiresAtMs = None, cap_parentHash = None, cap_nonce = bytes_to_base64url [1], sc_raw = parent\<rparr>"
proof -
  have pok: "permissions_ok (iss_permissions demo_parent_issue)" "iss_expiresAtMs demo_parent_issue = None"
    "json_ok (JArr (iss_permissions demo_parent_issue))"
    by code_simp+
  from issue_capability_total [OF demo_holds_key pok(1), of 7 "[1]"] obtain pcap where
    pc: "issue_capability (demo_identity 7) demo_parent_issue [1] = Inr pcap"
    using pok(2) by (auto simp: demo_parent_issue_def)
  from issued_capability_fields [OF demo_holds_key pok(1) _ pc] pok(2)
  have pf: "has_signed_capability_shape pcap" "is_ok (signed_hash ''capability'' pcap)"
    "authentic demo_verify (signed_capability_of pcap)"
    "signed_capability_of pcap =
       \<lparr>cap_issuer = si_principal (demo_identity 7), cap_audience = si_principal demo_issuer,
        cap_permissions = map permission_of (iss_permissions demo_parent_issue),
        cap_expiresAtMs = None, cap_parentHash = None, cap_nonce = bytes_to_base64url [1], sc_raw = pcap\<rparr>"
    by (auto simp: demo_parent_issue_def demo_issuer_def)
  have "json_ok pcap"
  proof -
    let ?kvs = "[(''issuer'', JStr (si_principal (demo_identity 7))), (''audience'', JStr (iss_audience demo_parent_issue)),
       (''permissions'', JArr (iss_permissions demo_parent_issue)), (''nonce'', JStr (bytes_to_base64url [1]))]"
    have "sign_object ''capability'' (JObj ?kvs) (demo_identity 7) = Inr pcap"
      using pc by (simp add: issue_capability_def sign_capability_def capability_object_def demo_parent_issue_def)
    then obtain e where "pcap = with_signature (JObj ?kvs) ''capability'' e"
      by (auto simp: sign_object_def res_bind_Inr_iff)
    moreover have "json_ok (JObj ?kvs)" using pok(3) by simp
    ultimately show ?thesis using json_ok_with_signature [of ?kvs] by (simp add: HUBRPC_SIGNATURE_KEY_def)
  qed
  with pc pf show ?thesis by (auto simp: is_ok_def split: sum.splits)
qed

lemma demo_covers: "list_all (\<lambda>p. is_ok (permission_permits demo_call p Delegate) \<and>
    permission_ok p \<and> perm_canDelegate p = Some True \<and> tp_members (perm_target p) \<noteq> [] \<and>
    list_all (\<lambda>m. permission_scope_covers p (restrict_member (permission_of demo_permission) m) = Inr True)
      (tp_members (perm_target (permission_of demo_permission))))
   (map permission_of (iss_permissions demo_parent_issue))"
  by code_simp

lemma demo_request_ok: "request_error (demo_request parent) (Dec 1 0) = None"
proof -
  have "perm_canInvoke (permission_of demo_permission) = Some True"
    "tp_members (perm_target (permission_of demo_permission)) \<noteq> []" by code_simp+
  then show ?thesis by (simp add: request_error_def demo_request_def)
qed

definition demo_grant :: "json \<Rightarrow> string \<Rightarrow> prepared_grant" where
  "demo_grant parent h =
     \<lparr>pg_permissions = [demo_permission], pg_rootIssuer = si_principal (demo_identity 7), pg_expiresAtMs = None,
      pg_parentHash = Some h, pg_ancestors = [signed_capability_of parent]\<rparr>"

lemma demo_plan:
  "\<exists>parent h. has_signed_capability_shape parent \<and> json_ok parent \<and> signed_hash ''capability'' parent = Inr h \<and>
     cap_permissions (signed_capability_of parent) = map permission_of (iss_permissions demo_parent_issue) \<and>
     (\<forall>resolve. verify_link demo_verify resolve (covers_check [permission_of demo_permission] (Dec 1 0)) (Dec 1 0) 15
       (signed_capability_of parent) (si_principal demo_issuer) False = Inr (LinkOk (si_principal (demo_identity 7)))) \<and>
     prepare_capability_issuance demo_verify demo_issuer (demo_request parent) (Dec 1 0) =
       Inr \<lparr>ip_issuerId = si_principal demo_issuer, ip_audience = ''id:key:AA'', ip_grants = [demo_grant parent h]\<rparr>"
proof -
  obtain parent h where p: "has_signed_capability_shape parent" "json_ok parent" "signed_hash ''capability'' parent = Inr h"
    "authentic demo_verify (signed_capability_of parent)"
    "signed_capability_of parent =
       \<lparr>cap_issuer = si_principal (demo_identity 7), cap_audience = si_principal demo_issuer,
        cap_permissions = map permission_of (iss_permissions demo_parent_issue),
        cap_expiresAtMs = None, cap_parentHash = None, cap_nonce = bytes_to_base64url [1], sc_raw = parent\<rparr>"
    using demo_parent by blast
  let ?l = "signed_capability_of parent" and ?pm = "permission_of demo_permission"
  obtain gp where gp: "map permission_of (iss_permissions demo_parent_issue) = [gp]"
    by (simp add: demo_parent_issue_def)
  have "delegation_covers ?l [?pm] (Dec 1 0) = Inr Ok"
  proof -
    have *: "perm_canDelegate gp = Some True" "\<forall>m\<in>set (tp_members (perm_target ?pm)).
        permission_scope_covers gp (restrict_member ?pm m) = Inr True"
      using demo_covers unfolding gp by (simp_all add: list_all_iff)
    then have "res_every (\<lambda>m. res_some (\<lambda>granted. if perm_canDelegate granted = Some True
        then permission_scope_covers granted (restrict_member ?pm m) else Inr False) [gp]) (tp_members (perm_target ?pm))
      = Inr True"
      by (simp add: res_every_True_iff)
    then show ?thesis by (simp add: delegation_covers_def p(5) gp capability_fresh_at_def)
  qed
  then have v: "verify_link demo_verify resolve (covers_check [?pm] (Dec 1 0)) (Dec 1 0) 15 ?l (si_principal demo_issuer) False
      = Inr (LinkOk (si_principal (demo_identity 7)))" for resolve
    unfolding numeral_eq_Suc pred_numeral_simps verify_link_step covers_check_def
    using p(4) by (simp add: p(5) link_expired_def)
  have "select_authority demo_verify (si_principal demo_issuer) (Dec 1 0) None (jm_get [(h, ?l)]) ?pm [?l]
      = Inr (Some (si_principal (demo_identity 7), [?l]))"
    using v by (simp add: p(5) ancestors_of.simps(2) [of _ 14, simplified])
  then have "prepare_grant demo_verify (si_principal demo_issuer) (Dec 1 0) None None [(h, ?l)] demo_permission
      = Inr (demo_grant parent h)"
    using p(3) by (simp add: prepare_grant_def lift_err_def demo_grant_def p(5))
  then have "prepare_capability_issuance demo_verify demo_issuer (demo_request parent) (Dec 1 0) =
      Inr \<lparr>ip_issuerId = si_principal demo_issuer, ip_audience = ''id:key:AA'', ip_grants = [demo_grant parent h]\<rparr>"
    unfolding prepare_capability_issuance_def demo_request_ok
    using p(1,3) by (simp add: demo_request_def Let_def)
  with p v show ?thesis by (intro exI [of _ parent] exI [of _ h]) (simp add: p(5))
qed

section \<open>Properties\<close>

text \<open>C28: What a prepared grant rests on.  The grants of a plan split the requested permissions;
  each is either rooted at the issuer itself, which the recipient's accepted roots (when known)
  must name, or backed by at most 15 presented capabilities, the first held by the issuer, each
  signed, fresh, hash-linked to the next, delegating every requested permission in full, up to a
  root that is accepted.\<close>

theorem issuance_authority:
  assumes "prepare_capability_issuance verify issuer opts nowMs = Inr plan"
  shows "concat (map pg_permissions (ip_grants plan)) = io_permissions opts \<and>
    ip_audience plan = io_audience opts \<and>
    (\<forall>g\<in>set (ip_grants plan). accepts_root (io_acceptableRootIds opts) (pg_rootIssuer g) \<and>
      (pg_ancestors g = [] \<and> pg_rootIssuer g = si_principal issuer \<and> pg_parentHash g = None \<or>
       (\<exists>l ls. pg_ancestors g = l # ls \<and> cap_audience l = si_principal issuer \<and> linked (l # ls) \<and>
          length (l # ls) \<le> 15 \<and> pg_rootIssuer g = cap_issuer (last (l # ls)) \<and>
          (\<exists>h. pg_parentHash g = Some h \<and> signed_hash ''capability'' (sc_raw l) = Inr h) \<and>
          (\<forall>q\<in>set (l # ls). q \<in> signed_capability_of ` set (io_capabilities opts) \<and> authentic verify q \<and>
             link_delegates (map permission_of (pg_permissions g)) nowMs q))))"
proof -
  note p = prepare_cases [OF assms]
  have "accepts_root (io_acceptableRootIds opts) (pg_rootIssuer g) \<and>
      (pg_ancestors g = [] \<and> pg_rootIssuer g = si_principal issuer \<and> pg_parentHash g = None \<or>
       (\<exists>l ls. pg_ancestors g = l # ls \<and> cap_audience l = si_principal issuer \<and> linked (l # ls) \<and>
          length (l # ls) \<le> 15 \<and> pg_rootIssuer g = cap_issuer (last (l # ls)) \<and>
          (\<exists>h. pg_parentHash g = Some h \<and> signed_hash ''capability'' (sc_raw l) = Inr h) \<and>
          (\<forall>q\<in>set (l # ls). q \<in> signed_capability_of ` set (io_capabilities opts) \<and> authentic verify q \<and>
             link_delegates (map permission_of (pg_permissions g)) nowMs q)))"
    if g: "g \<in> set (ip_grants plan)" for g
  proof -
    from p g consider (self) perms where "g = self_grant (si_principal issuer) perms (io_expiresAtMs opts)"
        "accepts_root (io_acceptableRootIds opts) (si_principal issuer)"
      | (chain) l ls where "grant_chain verify (si_principal issuer) nowMs (io_expiresAtMs opts) g l ls"
        "accepts_root (io_acceptableRootIds opts) (pg_rootIssuer g)"
        "\<exists>h. pg_parentHash g = Some h \<and> signed_hash ''capability'' (sc_raw l) = Inr h"
        "\<forall>q\<in>set (l # ls). \<exists>cap\<in>set (io_capabilities opts). has_signed_capability_shape cap \<and>
            q = signed_capability_of cap" by blast
    then show ?thesis
    proof cases
      case self
      then show ?thesis by (simp add: self_grant_def)
    next
      case chain
      note f = grant_chain_facts [OF chain(1)]
      from chain(1) have "pg_ancestors g = l # ls" "length (l # ls) \<le> 15" "pg_rootIssuer g = cap_issuer (last (l # ls))"
        by (simp_all add: grant_chain_def)
      with f chain show ?thesis by blast
    qed
  qed
  with p show ?thesis by blast
qed

theorem issuance_authority_witness:
  "\<exists>parent plan. prepare_capability_issuance demo_verify demo_issuer (demo_request parent) (Dec 1 0) = Inr plan \<and>
     concat (map pg_permissions (ip_grants plan)) = [demo_permission]"
proof -
  obtain parent plan where *: "prepare_capability_issuance demo_verify demo_issuer (demo_request parent) (Dec 1 0) = Inr plan"
    using demo_plan by blast
  with issuance_authority [OF *] show ?thesis by (auto simp: demo_request_def)
qed

text \<open>A plan never extends a lifetime: a grant made on a chain expires no later than every link
  of the chain and no later than the request.\<close>

theorem issuance_expiry_capped:
  assumes "prepare_capability_issuance verify issuer opts nowMs = Inr plan" "g \<in> set (ip_grants plan)"
  shows "(\<forall>v. io_expiresAtMs opts = Some v \<longrightarrow> (\<exists>y. pg_expiresAtMs g = Some y \<and> y \<noteq> NaN \<and> \<not> v < y)) \<and>
    (\<forall>q\<in>set (pg_ancestors g). \<forall>x. cap_expiresAtMs q = Some x \<longrightarrow>
       (\<exists>y. pg_expiresAtMs g = Some y \<and> y \<noteq> NaN \<and> \<not> x < y)) \<and>
    (pg_expiresAtMs g = None \<longleftrightarrow> io_expiresAtMs opts = None \<and> (\<forall>q\<in>set (pg_ancestors g). cap_expiresAtMs q = None))"
proof -
  note p = prepare_cases [OF assms(1)]
  have req: "\<forall>v. io_expiresAtMs opts = Some v \<longrightarrow> v \<noteq> NaN"
    using p by (auto simp: request_error_def num_finite_def split: if_splits)
  from p assms(2) consider (self) perms where "g = self_grant (si_principal issuer) perms (io_expiresAtMs opts)"
    | (chain) l ls where "grant_chain verify (si_principal issuer) nowMs (io_expiresAtMs opts) g l ls" by blast
  then show ?thesis
  proof cases
    case self
    then show ?thesis using req by (auto simp: self_grant_def)
  next
    case chain
    then have g: "pg_expiresAtMs g = capped_expiry (io_expiresAtMs opts) (l # ls)" "pg_ancestors g = l # ls"
      by (simp_all add: grant_chain_def)
    note b = capped_expiry_bound [OF req grant_chain_facts(4) [OF chain]]
    have "pg_expiresAtMs g = None \<longleftrightarrow> io_expiresAtMs opts = None \<and> (\<forall>q\<in>set (l # ls). cap_expiresAtMs q = None)"
      using capped_expiry_None [of "l # ls"] b unfolding g(1)
      by (cases "io_expiresAtMs opts") (simp_all only: option.distinct simp_thms, metis option.distinct(1))
    with b show ?thesis unfolding g by blast
  qed
qed

theorem issuance_expiry_capped_witness:
  "\<exists>parent h plan. prepare_capability_issuance demo_verify demo_issuer (demo_request parent) (Dec 1 0) = Inr plan \<and>
     demo_grant parent h \<in> set (ip_grants plan) \<and>
     (\<forall>q\<in>set (pg_ancestors (demo_grant parent h)). cap_expiresAtMs q = None)"
proof -
  obtain parent h plan where *: "prepare_capability_issuance demo_verify demo_issuer (demo_request parent) (Dec 1 0) = Inr plan"
    "demo_grant parent h \<in> set (ip_grants plan)"
    using demo_plan by fastforce
  with issuance_expiry_capped [OF *] show ?thesis by (auto simp: demo_grant_def)
qed

text \<open>What is issued is worth what was requested.  A leaf issued for a grant, presented with the
  grant's ancestors, verifies with the default depth of 16 for every call a requested permission
  admits, up to the planned root, at any later time before the grant's own expiry: no ancestor
  expires first, and none denies the call.\<close>

theorem issued_leaf_verifies:
  assumes "prepare_capability_issuance verify idn opts t0 = Inr plan" "g \<in> set (ip_grants plan)"
    and "pg_ancestors g = l # ls" "issue_leaf idn (ip_audience plan) g nonce = Inr cap"
    and "holds_key verify idn pk" "permissions_ok (io_permissions opts)"
    and "\<forall>j\<in>set (io_permissions opts @ io_capabilities opts). json_ok j" "\<forall>j. call_params c = Some j \<longrightarrow> json_ok j"
    and "\<forall>e. pg_expiresAtMs g = Some e \<longrightarrow> num_finite e \<and> \<not> e < nowMs"
    and "\<forall>p\<in>set (pg_permissions g). is_ok (permission_permits c (permission_of p) Invoke)"
    and "\<forall>q\<in>set (l # ls). \<forall>gr\<in>set (cap_permissions q). is_ok (permission_permits c gr Delegate)"
    and "p \<in> set (pg_permissions g)" "permission_permits c (permission_of p) Invoke = Inr Ok"
    and "\<forall>q\<in>set (l # ls). \<forall>h. signed_hash ''capability'' (sc_raw q) = Inr h \<longrightarrow> resolve h = Some q"
  shows "verify_link verify resolve (call_check c) nowMs (permit_depth None) (signed_capability_of cap)
    (io_audience opts) True = Inr (LinkOk (pg_rootIssuer g))"
proof -
  note pc = prepare_cases [OF assms(1)]
  have req: "\<forall>v. io_expiresAtMs opts = Some v \<longrightarrow> v \<noteq> NaN"
    using pc by (auto simp: request_error_def num_finite_def split: if_splits)
  from pc assms(2,3) obtain gl: "grant_chain verify (si_principal idn) t0 (io_expiresAtMs opts) g l ls" and
    src: "\<forall>q\<in>set (l # ls). \<exists>cap\<in>set (io_capabilities opts). has_signed_capability_shape cap \<and> q = signed_capability_of cap"
    by (fastforce simp: self_grant_def grant_chain_def)
  have sub: "set (pg_permissions g) \<subseteq> set (io_permissions opts)" using pc assms(2) by (metis set_concat UN_upper list.set_map imageI)
  then have pok: "permissions_ok (pg_permissions g)" "has_permission_shape p" "json_ok p"
    using assms(6,7,12) by (auto simp: permissions_ok_def list_all_iff)
  have "\<forall>q\<in>set (l # ls). \<forall>gr\<in>set (cap_permissions q). permission_ok gr"
    using src assms(7) capability_permissions_ok by fastforce
  with assms(11) have perms: "\<forall>q\<in>set (l # ls). \<forall>gr\<in>set (cap_permissions q). permission_ok gr \<and>
      is_ok (permission_permits c gr Delegate)" by blast
  have v: "verify_link verify resolve (call_check c) nowMs 15 l (si_principal idn) False = Inr (LinkOk (pg_rootIssuer g))"
    by (rule grant_chain_permits [OF gl req _ assms(12,13) permission_of_ok [OF pok(2,3)] assms(8) perms assms(14)])
      (use assms(9) in blast)
  let ?o = "\<lparr>iss_audience = ip_audience plan, iss_permissions = pg_permissions g, iss_expiresAtMs = pg_expiresAtMs g,
      iss_parent = Some (sc_raw l)\<rparr>"
  have leaf: "issue_capability idn ?o nonce = Inr cap" using assms(3,4) by (simp add: issue_leaf_def)
  have "verify_link verify resolve (call_check c) nowMs (Suc 15) (signed_capability_of cap) (iss_audience ?o) True
      = Inr (LinkOk (pg_rootIssuer g))"
    by (rule child_link_verifies [OF assms(5) _ _ _ leaf _ _ assms(13), where parent = l])
      (use pok(1) assms(9,10,12,14) v in auto)
  then show ?thesis using pc by (simp add: permit_depth_def)
qed

theorem issued_leaf_verifies_witness:
  "\<exists>parent h cap. issue_leaf demo_issuer ''id:key:AA'' (demo_grant parent h) [2] = Inr cap \<and>
     verify_link demo_verify (\<lambda>_. Some (signed_capability_of parent)) (call_check demo_call) (Dec 1 0) (permit_depth None)
       (signed_capability_of cap) ''id:key:AA'' True = Inr (LinkOk (si_principal (demo_identity 7)))"
proof -
  obtain parent h where p: "has_signed_capability_shape parent" "json_ok parent" "signed_hash ''capability'' parent = Inr h"
    "cap_permissions (signed_capability_of parent) = map permission_of (iss_permissions demo_parent_issue)"
    "prepare_capability_issuance demo_verify demo_issuer (demo_request parent) (Dec 1 0) =
       Inr \<lparr>ip_issuerId = si_principal demo_issuer, ip_audience = ''id:key:AA'', ip_grants = [demo_grant parent h]\<rparr>"
    using demo_plan by blast
  have raw: "sc_raw (signed_capability_of parent) = parent" by (simp add: signed_capability_of_def)
  have key: "\<exists>pk. holds_key demo_verify demo_issuer pk" using demo_holds_key unfolding demo_issuer_def by blast
  have ok: "json_ok demo_permission" "permissions_ok [demo_permission]" by code_simp+
  obtain pk where pk: "holds_key demo_verify demo_issuer pk" using key by blast
  have "\<exists>cap. issue_leaf demo_issuer ''id:key:AA'' (demo_grant parent h) [2] = Inr cap"
    unfolding issue_leaf_def
    by (rule issue_capability_total [OF pk]) (use ok p(3) raw in \<open>simp_all add: demo_grant_def\<close>)
  then obtain cap where cap: "issue_leaf demo_issuer ''id:key:AA'' (demo_grant parent h) [2] = Inr cap" by blast
  have gr: "\<forall>gr\<in>set (cap_permissions (signed_capability_of parent)). is_ok (permission_permits demo_call gr Delegate)"
    using demo_covers unfolding p(4) list_all_iff by blast
  have "verify_link demo_verify (\<lambda>_. Some (signed_capability_of parent)) (call_check demo_call) (Dec 1 0) (permit_depth None)
       (signed_capability_of cap) (io_audience (demo_request parent)) True = Inr (LinkOk (pg_rootIssuer (demo_grant parent h)))"
    by (rule issued_leaf_verifies [OF p(5), where g = "demo_grant parent h" and l = "signed_capability_of parent"
          and ls = "[]" and p = demo_permission and nonce = "[2]" and pk = pk])
      (use cap pk ok p(2) gr demo_permission_permits in
        \<open>auto simp: demo_grant_def demo_request_def demo_call_def\<close>)
  with cap show ?thesis by (intro exI [of _ parent] exI [of _ h] exI [of _ cap]) (simp add: demo_request_def demo_grant_def)
qed

text \<open>Root discovery is exact: the listed principals are those at the top of some presented chain
  held by the issuer, of at most 15 signed and fresh links that each grant delegation.\<close>

theorem delegation_roots_exact:
  assumes "get_delegation_root_ids verify issuer caps nowMs = Inr roots"
  shows "distinct roots \<and> (\<forall>root. root \<in> set roots \<longleftrightarrow>
    (\<exists>l ls. l \<in> snd ` set (issuance_cap_index [] caps) \<and>
       delegation_chain verify (root_check nowMs) nowMs issuer False (l # ls) \<and>
       resolved_chain (jm_get (issuance_cap_index [] caps)) (l # ls) \<and>
       length (l # ls) \<le> 15 \<and> root = cap_issuer (last (l # ls)))) \<and>
    (\<forall>root\<in>set roots. \<exists>l ls. root = cap_issuer (last (l # ls)) \<and> cap_audience l = issuer \<and> linked (l # ls) \<and>
       (\<forall>q\<in>set (l # ls). q \<in> signed_capability_of ` set caps \<and> authentic verify q \<and> link_has_authority nowMs q))"
proof -
  let ?idx = "issuance_cap_index [] caps"
  from root_ids_go_D [OF assms [unfolded get_delegation_root_ids_def Let_def]]
  have r: "distinct roots" "set roots = {root. \<exists>l\<in>set (map snd ?idx).
      verify_link verify (jm_get ?idx) (root_check nowMs) nowMs 15 l issuer False = Inr (LinkOk root)}"
    by auto
  have exact: "root \<in> set roots \<longleftrightarrow> (\<exists>l ls. l \<in> snd ` set ?idx \<and>
       delegation_chain verify (root_check nowMs) nowMs issuer False (l # ls) \<and>
       resolved_chain (jm_get ?idx) (l # ls) \<and> length (l # ls) \<le> 15 \<and> root = cap_issuer (last (l # ls)))" for root
    unfolding r(2) mem_Collect_eq verify_link_ok_iff set_map by blast
  have "\<exists>l ls. root = cap_issuer (last (l # ls)) \<and> cap_audience l = issuer \<and> linked (l # ls) \<and>
       (\<forall>q\<in>set (l # ls). q \<in> signed_capability_of ` set caps \<and> authentic verify q \<and> link_has_authority nowMs q)"
    if "root \<in> set roots" for root
  proof -
    from that [unfolded exact] obtain l ls where l: "l \<in> snd ` set ?idx"
      "delegation_chain verify (root_check nowMs) nowMs issuer False (l # ls)"
      "resolved_chain (jm_get ?idx) (l # ls)" "root = cap_issuer (last (l # ls))" by blast
    from resolved_chain_indexed [OF l(3)] l(1)
    have "\<forall>q\<in>set (l # ls). q \<in> signed_capability_of ` set caps" by auto
    with root_link.chain_admits [OF l(2)] l(4) show ?thesis by (intro exI [of _ l] exI [of _ ls]) auto
  qed
  with r(1) exact show ?thesis by blast
qed

lemma demo_roots_found:
  "\<exists>parent. get_delegation_root_ids demo_verify (si_principal demo_issuer) [parent] (Dec 1 0) =
     Inr [si_principal (demo_identity 7)]"
proof -
  obtain parent h where p: "has_signed_capability_shape parent" "signed_hash ''capability'' parent = Inr h"
    "authentic demo_verify (signed_capability_of parent)"
    "signed_capability_of parent =
       \<lparr>cap_issuer = si_principal (demo_identity 7), cap_audience = si_principal demo_issuer,
        cap_permissions = map permission_of (iss_permissions demo_parent_issue),
        cap_expiresAtMs = None, cap_parentHash = None, cap_nonce = bytes_to_base64url [1], sc_raw = parent\<rparr>"
    using demo_parent by blast
  obtain gp where gp: "map permission_of (iss_permissions demo_parent_issue) = [gp]"
    by (simp add: demo_parent_issue_def)
  have "perm_canDelegate gp = Some True \<and> tp_members (perm_target gp) \<noteq> []"
    using demo_covers unfolding gp by simp
  then have "root_check (Dec 1 0) (signed_capability_of parent) False = Inr Ok"
    by (simp add: root_check_def p(4) gp capability_fresh_at_def)
  then have "verify_link demo_verify resolve (root_check (Dec 1 0)) (Dec 1 0) 15 (signed_capability_of parent)
      (si_principal demo_issuer) False = Inr (LinkOk (si_principal (demo_identity 7)))" for resolve
    unfolding numeral_eq_Suc pred_numeral_simps verify_link_step
    using p(3) by (simp add: p(4) link_expired_def)
  then have "get_delegation_root_ids demo_verify (si_principal demo_issuer) [parent] (Dec 1 0) =
     Inr [si_principal (demo_identity 7)]"
    using p(1,2) by (simp add: get_delegation_root_ids_def js_add_def)
  then show ?thesis by blast
qed

theorem delegation_roots_exact_witness:
  "\<exists>parent l ls. get_delegation_root_ids demo_verify (si_principal demo_issuer) [parent] (Dec 1 0) =
     Inr [si_principal (demo_identity 7)] \<and>
     si_principal (demo_identity 7) = cap_issuer (last (l # ls)) \<and> linked (l # ls)"
proof -
  obtain parent where *: "get_delegation_root_ids demo_verify (si_principal demo_issuer) [parent] (Dec 1 0) =
     Inr [si_principal (demo_identity 7)]" using demo_roots_found by blast
  have "si_principal (demo_identity 7) \<in> set [si_principal (demo_identity 7)]" by simp
  with delegation_roots_exact [OF *, THEN conjunct2, THEN conjunct2]
  have "\<exists>l ls. si_principal (demo_identity 7) = cap_issuer (last (l # ls)) \<and> linked (l # ls)" by blast
  with * show ?thesis by blast
qed

text \<open>What \<^verbatim>\<open>issue\<close> returns.  Every grant was revalidated and had not expired, neither when
  signing began nor when it ended; the result holds, by content hash and each hash once, a leaf
  for every grant and all ancestors of every grant, and nothing else.\<close>

theorem issue_plan_complete:
  assumes "issue_plan verify issuer plan nonces nowMs endMs = Inr caps"
  shows "si_principal issuer = ip_issuerId plan \<and>
    (\<forall>g\<in>set (ip_grants plan). revalidate_grant verify (ip_issuerId plan) nowMs g = Inr () \<and>
       \<not> grant_expired g nowMs \<and> \<not> grant_expired g endMs \<and>
       (\<exists>leaf nonce. issue_leaf issuer (ip_audience plan) g nonce = Inr leaf \<and>
          (\<forall>cap\<in>set (leaf # map sc_raw (pg_ancestors g)).
             \<exists>cap'\<in>set caps. \<exists>h. signed_hash ''capability'' cap' = Inr h \<and> signed_hash ''capability'' cap = Inr h))) \<and>
    (\<forall>cap\<in>set caps. \<exists>g\<in>set (ip_grants plan). cap \<in> set (map sc_raw (pg_ancestors g)) \<or>
       (\<exists>nonce. issue_leaf issuer (ip_audience plan) g nonce = Inr cap)) \<and>
    distinct (map (signed_hash ''capability'') caps)"
proof -
  from assms obtain result us where r: "si_principal issuer = ip_issuerId plan"
    "map (revalidate_grant verify (ip_issuerId plan) nowMs) (ip_grants plan) = map Inr us"
    "issue_grants issuer (ip_audience plan) nonces (ip_grants plan) [] = Inr result"
    "\<not> list_ex (\<lambda>g. grant_expired g endMs) (ip_grants plan)" "caps = map snd result"
    by (auto simp: issue_plan_def res_bind_Inr_iff res_all_Inr_iff split: if_splits)
  note d = issue_grants_D [OF r(3)]
  have wf: "jm_wf result" using d by simp
  have hash: "signed_hash ''capability'' cap = Inr h" if "(h, cap) \<in> set result" for h cap using d that by auto
  have reval: "revalidate_grant verify (ip_issuerId plan) nowMs g = Inr ()" if "g \<in> set (ip_grants plan)" for g
  proof -
    from that have "revalidate_grant verify (ip_issuerId plan) nowMs g \<in> set (map Inr us)"
      unfolding r(2) [symmetric] by simp
    then show ?thesis by auto
  qed
  have now: "\<not> grant_expired g nowMs" if "g \<in> set (ip_grants plan)" for g
    using reval [OF that] by (auto simp: revalidate_grant_def)
  have found: "\<exists>cap'\<in>set caps. signed_hash ''capability'' cap' = Inr h" if "jm_has result h" for h
  proof -
    from that obtain cap' where "(h, cap') \<in> set result" by (auto simp: jm_has_def)
    with hash r(5) show ?thesis by force
  qed
  have "map (signed_hash ''capability'') caps = map Inr (map fst result)"
    unfolding r(5) map_map by (rule map_cong) (auto simp: hash)
  moreover have "distinct (map (Inr :: string \<Rightarrow> string res) (map fst result))"
    using wf unfolding jm_wf_def by (subst distinct_map) (simp add: inj_on_def)
  ultimately have dist: "distinct (map (signed_hash ''capability'') caps)" by simp
  have all: "\<exists>leaf nonce. issue_leaf issuer (ip_audience plan) g nonce = Inr leaf \<and>
          (\<forall>cap\<in>set (leaf # map sc_raw (pg_ancestors g)).
             \<exists>cap'\<in>set caps. \<exists>h. signed_hash ''capability'' cap' = Inr h \<and> signed_hash ''capability'' cap = Inr h)"
    if "g \<in> set (ip_grants plan)" for g
  proof -
    from d that obtain leaf nonce where l: "issue_leaf issuer (ip_audience plan) g nonce = Inr leaf"
      "\<forall>cap\<in>set (leaf # map sc_raw (pg_ancestors g)). \<exists>h. signed_hash ''capability'' cap = Inr h \<and> jm_has result h"
      by blast
    with found show ?thesis by (intro exI [of _ leaf] exI [of _ nonce]) blast
  qed
  have only: "\<exists>g\<in>set (ip_grants plan). cap \<in> set (map sc_raw (pg_ancestors g)) \<or>
       (\<exists>nonce. issue_leaf issuer (ip_audience plan) g nonce = Inr cap)" if "cap \<in> set caps" for cap
    using that d unfolding r(5) by auto
  from r(1,4) reval now all only dist show ?thesis by (simp add: list_ex_iff)
qed

theorem issue_plan_complete_witness:
  "\<exists>parent h caps. issue_plan demo_verify demo_issuer \<lparr>ip_issuerId = si_principal demo_issuer,
       ip_audience = ''id:key:AA'', ip_grants = [demo_grant parent h]\<rparr> [[2]] (Dec 1 0) (Dec 2 0) = Inr caps \<and>
     distinct (map (signed_hash ''capability'') caps)"
proof -
  obtain parent h where p: "has_signed_capability_shape parent" "signed_hash ''capability'' parent = Inr h"
    "\<forall>resolve. verify_link demo_verify resolve (covers_check [permission_of demo_permission] (Dec 1 0)) (Dec 1 0) 15
       (signed_capability_of parent) (si_principal demo_issuer) False = Inr (LinkOk (si_principal (demo_identity 7)))"
    using demo_plan by blast
  have raw: "sc_raw (signed_capability_of parent) = parent" by (simp add: signed_capability_of_def)
  obtain pk where pk: "holds_key demo_verify demo_issuer pk" using demo_holds_key unfolding demo_issuer_def by blast
  have ok: "permissions_ok [demo_permission]" by (rule demo_permissions_ok)
  let ?o = "\<lparr>iss_audience = ''id:key:AA'', iss_permissions = [demo_permission], iss_expiresAtMs = None,
      iss_parent = Some parent\<rparr>"
  have "\<exists>cap. issue_capability demo_issuer ?o [2] = Inr cap"
    by (rule issue_capability_total [OF pk]) (use ok p(2) in simp_all)
  then obtain cap where cap: "issue_capability demo_issuer ?o [2] = Inr cap" by blast
  with issued_capability_fields [OF pk _ _ cap] ok obtain h2 where h2: "signed_hash ''capability'' cap = Inr h2"
    by (auto simp: is_ok_def split: sum.splits)
  have "\<exists>caps. issue_plan demo_verify demo_issuer \<lparr>ip_issuerId = si_principal demo_issuer,
       ip_audience = ''id:key:AA'', ip_grants = [demo_grant parent h]\<rparr> [[2]] (Dec 1 0) (Dec 2 0) = Inr caps"
    using p cap h2 by (simp add: issue_plan_def revalidate_grant_def grant_expired_def demo_grant_def issue_leaf_def raw)
  then obtain caps where *: "issue_plan demo_verify demo_issuer \<lparr>ip_issuerId = si_principal demo_issuer,
       ip_audience = ''id:key:AA'', ip_grants = [demo_grant parent h]\<rparr> [[2]] (Dec 1 0) (Dec 2 0) = Inr caps" by blast
  from issue_plan_complete [OF *] have "distinct (map (signed_hash ''capability'') caps)" by blast
  with * show ?thesis by blast
qed

end
