(* ===== verification/Routing.thy ===== *)
theory Routing
  imports Wire
begin

text \<open>
  The routing table of the hub: \<^verbatim>\<open>hub/common/serviceId.ts\<close> (service ids),
  \<^verbatim>\<open>routing/forwardingTable.ts\<close> (the longest-prefix table and its reverse index) and
  \<^verbatim>\<open>prefixPolicy.ts\<close> (who may claim a prefix).  The locale \<open>prefix_table\<close> is the contract the
  hub relies on: what a lookup returns after a claim, a release and the removal of an owner;
  the forwarding table is an interpretation of it.
\<close>

section \<open>Service ids\<close>

definition ROOT_SERVICE_ID :: string where "ROOT_SERVICE_ID = ''''"
definition SERVICE_ID_SEPARATOR :: char where "SERVICE_ID_SEPARATOR = CHR ''/''"

lemmas service_id_consts [simp] = ROOT_SERVICE_ID_def SERVICE_ID_SEPARATOR_def

definition is_valid_service_id :: "string \<Rightarrow> bool" where
  "is_valid_service_id i =
     (if i = ROOT_SERVICE_ID then True
      else if starts_with i [SERVICE_ID_SEPARATOR] \<or> ends_with i [SERVICE_ID_SEPARATOR] then False
      else if includes_str i [SERVICE_ID_SEPARATOR, SERVICE_ID_SEPARATOR] then False
      else True)"

definition split_service_id :: "string \<Rightarrow> string list" where
  "split_service_id i = (if i = ROOT_SERVICE_ID then [] else js_split i [SERVICE_ID_SEPARATOR])"

definition is_service_id_under :: "string \<Rightarrow> string \<Rightarrow> bool" where
  "is_service_id_under serviceId p =
     (if p = ROOT_SERVICE_ID then True
      else if serviceId = p then True
      else starts_with serviceId (p @ [SERVICE_ID_SEPARATOR]))"

section \<open>The forwarding table\<close>

record 't forwarding_table =
  ft_entries :: "(string \<times> 't) list"
  ft_prefixesByValue :: "('t \<times> string list) list"

definition ft_empty :: "'t forwarding_table" where
  "ft_empty = \<lparr>ft_entries = [], ft_prefixesByValue = []\<rparr>"

definition ft_size :: "'t forwarding_table \<Rightarrow> nat" where
  "ft_size t = length (ft_entries t)"

definition ft_has :: "'t forwarding_table \<Rightarrow> string \<Rightarrow> bool" where
  "ft_has t p = jm_has (ft_entries t) p"

definition ft_get :: "'t forwarding_table \<Rightarrow> string \<Rightarrow> 't option" where
  "ft_get t p = jm_get (ft_entries t) p"

definition ft_dropFromIndex :: "'t forwarding_table \<Rightarrow> 't \<Rightarrow> string \<Rightarrow> 't forwarding_table" where
  "ft_dropFromIndex t v p = (case jm_get (ft_prefixesByValue t) v of
     None \<Rightarrow> t
   | Some ps \<Rightarrow>
       (let ps' = filter (\<lambda>q. q \<noteq> p) ps in
        if length ps' = 0
        then t\<lparr>ft_prefixesByValue := jm_delete (ft_prefixesByValue t) v\<rparr>
        else t\<lparr>ft_prefixesByValue := jm_set (ft_prefixesByValue t) v ps'\<rparr>))"

definition ft_set :: "'t forwarding_table \<Rightarrow> string \<Rightarrow> 't \<Rightarrow> 't forwarding_table" where
  "ft_set t p v =
     (let t1 = (case ft_get t p of
            Some prev \<Rightarrow> if prev \<noteq> v then ft_dropFromIndex t prev p else t
          | None \<Rightarrow> t);
          t2 = t1\<lparr>ft_entries := jm_set (ft_entries t1) p v\<rparr>;
          ps = (case jm_get (ft_prefixesByValue t2) v of Some qs \<Rightarrow> qs | None \<Rightarrow> []) in
      t2\<lparr>ft_prefixesByValue := jm_set (ft_prefixesByValue t2) v (js_add ps p)\<rparr>)"

definition ft_delete :: "'t forwarding_table \<Rightarrow> string \<Rightarrow> bool \<times> 't forwarding_table" where
  "ft_delete t p = (case ft_get t p of
     None \<Rightarrow> (False, t)
   | Some v \<Rightarrow> (True, ft_dropFromIndex (t\<lparr>ft_entries := jm_delete (ft_entries t) p\<rparr>) v p))"

definition ft_deleteByValue :: "'t forwarding_table \<Rightarrow> 't \<Rightarrow> string list \<times> 't forwarding_table" where
  "ft_deleteByValue t v = (case jm_get (ft_prefixesByValue t) v of
     None \<Rightarrow> ([], t)
   | Some ps \<Rightarrow>
       (ps,
        \<lparr>ft_entries = foldl jm_delete (ft_entries t) ps,
         ft_prefixesByValue = jm_delete (ft_prefixesByValue t) v\<rparr>))"

definition ft_prefixes :: "'t forwarding_table \<Rightarrow> string list" where
  "ft_prefixes t = map fst (ft_entries t)"

text \<open>The walk up the segments, over any lookup.\<close>

function walk_up :: "(string \<Rightarrow> 't option) \<Rightarrow> string \<Rightarrow> (string \<times> 't) option" where
  "walk_up lookup candidate =
     (if candidate = [] then None
      else case lookup candidate of
        Some v \<Rightarrow> Some (candidate, v)
      | None \<Rightarrow> (case last_index_of SERVICE_ID_SEPARATOR candidate of
          None \<Rightarrow> None
        | Some slash \<Rightarrow> walk_up lookup (take slash candidate)))"
  by pat_completeness auto
termination
  by (relation "measure (\<lambda>(_, c). length c)") (auto dest: last_index_of_SomeD)

declare walk_up.simps [simp del]

definition longest_prefix_match :: "'t forwarding_table \<Rightarrow> string \<Rightarrow> (string \<times> 't) option" where
  "longest_prefix_match t serviceId = walk_up (ft_get t) serviceId"

definition validate_prefix :: "string \<Rightarrow> string option" where
  "validate_prefix p =
     (if p = ROOT_SERVICE_ID then Some ''prefix required''
      else if \<not> is_valid_service_id p
      then Some ''prefix must be a valid serviceId (no leading/trailing/empty '/' segments)''
      else None)"

section \<open>Who may claim\<close>

record claim_context =
  cc_principal :: "string option"
  cc_identityKey :: "string option"
  cc_requestedPrefix :: string

datatype claim_verdict = ClaimOk | ClaimDenied string

definition default_derive_prefixes :: "claim_context \<Rightarrow> string list" where
  "default_derive_prefixes ctx = (case cc_identityKey ctx of
     None \<Rightarrow> []
   | Some p \<Rightarrow> if p = ROOT_SERVICE_ID \<or> \<not> is_valid_service_id p then [] else [p])"

definition authorize_claim :: "(claim_context \<Rightarrow> string list) option \<Rightarrow> claim_context \<Rightarrow> claim_verdict" where
  "authorize_claim derive ctx =
     (let allowed = (case derive of Some f \<Rightarrow> f | None \<Rightarrow> default_derive_prefixes) ctx in
      if cc_requestedPrefix ctx \<in> set allowed then ClaimOk
      else ClaimDenied (''not authorized to claim '' @ [CHR 0x27] @ cc_requestedPrefix ctx @ [CHR 0x27]))"

section \<open>Well-formed service ids are those with non-empty segments\<close>

lemma split_go_sep:
  "split_go [c] acc s = (case index_of c s of
     None \<Rightarrow> [rev acc @ s]
   | Some i \<Rightarrow> (rev acc @ take i s) # split_go [c] [] (drop (Suc i) s))"
proof (induction s arbitrary: acc)
  case Nil
  then show ?case by (subst split_go.simps) simp
next
  case (Cons x s)
  show ?case
  proof (cases "x = c")
    case True
    then show ?thesis by (subst split_go.simps) (simp add: starts_with_def)
  next
    case False
    then have "split_go [c] acc (x # s) = split_go [c] (x # acc) s"
      by (subst split_go.simps) (simp add: starts_with_def)
    with Cons.IH [of "x # acc"] False show ?thesis by (simp split: option.split)
  qed
qed


lemma prefix_one: "prefix [c] s \<longleftrightarrow> (\<exists>r. s = c # r)"
  by (auto simp: prefix_def)

lemma suffix_one: "suffix [c] s \<longleftrightarrow> s \<noteq> [] \<and> last s = c"
  by (auto simp: suffix_def intro: append_butlast_last_id [symmetric])

lemma sublist_cons_skip:
  "c \<notin> set a \<Longrightarrow> (\<exists>x y. a @ c # r = x @ [c, c] @ y) \<longleftrightarrow> (\<exists>y. r = c # y) \<or> (\<exists>x y. r = x @ [c, c] @ y)"
proof (induction a)
  case Nil
  show ?case by (auto simp: Cons_eq_append_conv)
next
  case (Cons b a)
  have "(\<exists>x y. (b # a) @ c # r = x @ [c, c] @ y) \<longleftrightarrow> (\<exists>x y. a @ c # r = x @ [c, c] @ y)"
    using Cons.prems by (auto simp: Cons_eq_append_conv)
  with Cons show ?case by simp
qed

lemma split_segments_nonempty:
  "(\<forall>seg\<in>set (split_go [c] [] s). seg \<noteq> []) \<longleftrightarrow>
     s \<noteq> [] \<and> \<not> starts_with s [c] \<and> \<not> ends_with s [c] \<and> \<not> includes_str s [c, c]"
proof (induction "length s" arbitrary: s rule: less_induct)
  case less
  show ?case
  proof (cases "index_of c s")
    case None
    then have "c \<notin> set s" by (simp add: index_of_None_iff)
    then show ?thesis
      by (auto simp: split_go_sep [of c "[]"] None starts_with_def ends_with_def prefix_one suffix_one includes_str_iff)
  next
    case (Some i)
    from index_of_SomeD [OF this] have i: "i < length s" "s ! i = c" "c \<notin> set (take i s)" by auto
    define a r where "a = take i s" and "r = drop (Suc i) s"
    have s: "s = a @ c # r" unfolding a_def r_def using i(1,2) by (metis id_take_nth_drop)
    have a: "c \<notin> set a" using i(3) by (simp add: a_def)
    have "(\<forall>seg\<in>set (split_go [c] [] s). seg \<noteq> []) \<longleftrightarrow> a \<noteq> [] \<and> (\<forall>seg\<in>set (split_go [c] [] r). seg \<noteq> [])"
      using split_go_sep [of c "[]" s] by (simp add: Some a_def r_def)
    also have "(\<forall>seg\<in>set (split_go [c] [] r). seg \<noteq> []) \<longleftrightarrow>
       r \<noteq> [] \<and> \<not> starts_with r [c] \<and> \<not> ends_with r [c] \<and> \<not> includes_str r [c, c]"
      using less.hyps [of r] by (simp add: s)
    also have "includes_str s [c, c] \<longleftrightarrow> starts_with r [c] \<or> includes_str r [c, c]"
      unfolding s includes_str_iff using sublist_cons_skip [OF a, of r] by (simp add: starts_with_def prefix_one)
    moreover have "starts_with s [c] \<longleftrightarrow> a = []"
      using a by (cases a) (auto simp: s starts_with_def)
    moreover have "ends_with s [c] \<longleftrightarrow> r = [] \<or> ends_with r [c]"
      by (simp add: s ends_with_def suffix_one)
    ultimately show ?thesis by (auto simp: s)
  qed
qed

lemma valid_service_id_segments:
  "is_valid_service_id i \<longleftrightarrow> (\<forall>seg\<in>set (split_service_id i). seg \<noteq> [])"
  by (auto simp: is_valid_service_id_def split_service_id_def js_split_def split_segments_nonempty)

section \<open>The walk finds the longest claimed prefix\<close>

lemma under_take:
  assumes "last_index_of CHR ''/'' s = Some i" "q \<noteq> []"
  shows "is_service_id_under s q \<and> q \<noteq> s \<longleftrightarrow> is_service_id_under (take i s) q"
proof -
  define a r where "a = take i s" and "r = drop (Suc i) s"
  from last_index_of_SomeD [OF assms(1)] have i: "i < length s" "s ! i = CHR ''/''" "CHR ''/'' \<notin> set r"
    by (auto simp: r_def)
  have s: "s = a @ CHR ''/'' # r" unfolding a_def r_def using i(1,2) by (metis id_take_nth_drop)
  have "is_service_id_under s q \<and> q \<noteq> s \<longleftrightarrow> (\<exists>t. s = q @ CHR ''/'' # t)"
    using assms(2) by (auto simp: is_service_id_under_def starts_with_def prefix_def)
  also have "\<dots> \<longleftrightarrow> q = a \<or> (\<exists>t. a = q @ CHR ''/'' # t)"
  proof
    assume "\<exists>t. s = q @ CHR ''/'' # t"
    then obtain t where t: "a @ CHR ''/'' # r = q @ CHR ''/'' # t" using s by auto
    then obtain us where "a = q @ us \<and> us @ CHR ''/'' # r = CHR ''/'' # t \<or>
        a @ us = q \<and> CHR ''/'' # r = us @ CHR ''/'' # t" by (auto simp: append_eq_append_conv2)
    then show "q = a \<or> (\<exists>t. a = q @ CHR ''/'' # t)"
      using i(3) by (auto simp: Cons_eq_append_conv append_eq_Cons_conv)
  qed (auto simp: s)
  also have "\<dots> \<longleftrightarrow> is_service_id_under a q"
    using assms(2) by (auto simp: is_service_id_under_def starts_with_def prefix_def)
  finally show ?thesis by (simp add: a_def)
qed

lemma under_no_slash:
  "last_index_of CHR ''/'' s = None \<Longrightarrow> q \<noteq> [] \<Longrightarrow> is_service_id_under s q \<longleftrightarrow> q = s"
  by (auto simp: is_service_id_under_def starts_with_def prefix_def last_index_of_None_iff)

lemma under_length: "is_service_id_under s q \<Longrightarrow> length q \<le> length s"
  by (auto simp: is_service_id_under_def starts_with_def dest!: prefix_length_le split: if_splits)

lemma walk_up_iff:
  "walk_up look s = Some (p, v) \<longleftrightarrow>
     p \<noteq> [] \<and> is_service_id_under s p \<and> look p = Some v \<and>
     (\<forall>q. q \<noteq> [] \<and> is_service_id_under s q \<and> length p < length q \<longrightarrow> look q = None)"
proof (induction look s rule: walk_up.induct)
  case (1 look s)
  show ?case
  proof (cases "s = []")
    case True
    then show ?thesis by (subst walk_up.simps) (auto dest: under_length)
  next
    case ne: False
    show ?thesis
    proof (cases "look s")
      case (Some w)
      have refl: "is_service_id_under s s" by (simp add: is_service_id_under_def)
      have "walk_up look s = Some (s, w)" using ne Some by (subst walk_up.simps) simp
      moreover have "p = s" if "is_service_id_under s p" "\<not> length p < length s"
        using that by (auto simp: is_service_id_under_def starts_with_def dest!: prefix_length_le split: if_splits)
      ultimately show ?thesis using Some refl ne under_length [of s] by (metis linorder_not_less option.inject prod.inject option.distinct(1))
    next
      case none: None
      show ?thesis
      proof (cases "last_index_of CHR ''/'' s")
        case None
        then have "walk_up look s = None" using ne none by (subst walk_up.simps) simp
        with under_no_slash [OF None] none show ?thesis by auto
      next
        case (Some i)
        then have "walk_up look s = walk_up look (take i s)" using ne none by (subst walk_up.simps) simp
        with "1.IH" [OF ne none, of i] Some have
          "walk_up look s = Some (p, v) \<longleftrightarrow> p \<noteq> [] \<and> is_service_id_under (take i s) p \<and> look p = Some v \<and>
             (\<forall>q. q \<noteq> [] \<and> is_service_id_under (take i s) q \<and> length p < length q \<longrightarrow> look q = None)"
          by simp
        with under_take [OF Some] none show ?thesis by (metis option.distinct(1))
      qed
    qed
  qed
qed

section \<open>The reverse index stays in step with the entries\<close>

definition ft_wf :: "'t forwarding_table \<Rightarrow> bool" where
  "ft_wf t \<longleftrightarrow> jm_wf (ft_entries t) \<and> jm_wf (ft_prefixesByValue t) \<and>
     (\<forall>v. case jm_get (ft_prefixesByValue t) v of
        None \<Rightarrow> \<forall>p. ft_get t p \<noteq> Some v
      | Some ps \<Rightarrow> ps \<noteq> [] \<and> distinct ps \<and> (\<forall>p. p \<in> set ps \<longleftrightarrow> ft_get t p = Some v))"

lemma ft_wf_index:
  assumes "ft_wf t"
  shows "jm_get (ft_prefixesByValue t) v = None \<Longrightarrow> ft_get t p \<noteq> Some v"
    and "jm_get (ft_prefixesByValue t) v = Some ps \<Longrightarrow>
      ps \<noteq> [] \<and> distinct ps \<and> (\<forall>p. p \<in> set ps \<longleftrightarrow> ft_get t p = Some v)"
proof -
  have *: "case jm_get (ft_prefixesByValue t) v of
        None \<Rightarrow> \<forall>p. ft_get t p \<noteq> Some v
      | Some ps \<Rightarrow> ps \<noteq> [] \<and> distinct ps \<and> (\<forall>p. p \<in> set ps \<longleftrightarrow> ft_get t p = Some v)"
    using assms unfolding ft_wf_def by blast
  show "jm_get (ft_prefixesByValue t) v = None \<Longrightarrow> ft_get t p \<noteq> Some v" using * by simp
  show "jm_get (ft_prefixesByValue t) v = Some ps \<Longrightarrow>
      ps \<noteq> [] \<and> distinct ps \<and> (\<forall>p. p \<in> set ps \<longleftrightarrow> ft_get t p = Some v)" using * by simp
qed

lemma ft_wfI:
  assumes "jm_wf (ft_entries t)" "jm_wf (ft_prefixesByValue t)"
    "\<And>v p. jm_get (ft_prefixesByValue t) v = None \<Longrightarrow> ft_get t p \<noteq> Some v"
    "\<And>v ps. jm_get (ft_prefixesByValue t) v = Some ps \<Longrightarrow> ps \<noteq> [] \<and> distinct ps \<and> (\<forall>p. p \<in> set ps \<longleftrightarrow> ft_get t p = Some v)"
  shows "ft_wf t"
  using assms unfolding ft_wf_def by (auto split: option.split)

lemma ft_wf_empty [simp]: "ft_wf ft_empty"
  by (simp add: ft_wf_def ft_empty_def ft_get_def)

lemma ft_get_empty [simp]: "ft_get ft_empty p = None"
  by (simp add: ft_empty_def ft_get_def)

lemma ft_get_dropFromIndex [simp]: "ft_get (ft_dropFromIndex t v p) q = ft_get t q"
  by (simp add: ft_dropFromIndex_def ft_get_def Let_def split: option.split)

lemma entries_dropFromIndex [simp]: "ft_entries (ft_dropFromIndex t v p) = ft_entries t"
  by (simp add: ft_dropFromIndex_def Let_def split: option.split)

lemma index_wf_dropFromIndex [simp]:
  "jm_wf (ft_prefixesByValue t) \<Longrightarrow> jm_wf (ft_prefixesByValue (ft_dropFromIndex t v p))"
  by (simp add: ft_dropFromIndex_def Let_def split: option.split)

lemma index_dropFromIndex:
  "jm_get (ft_prefixesByValue (ft_dropFromIndex t v p)) w =
     (if w = v then (case jm_get (ft_prefixesByValue t) v of
          None \<Rightarrow> None
        | Some ps \<Rightarrow> (let qs = filter (\<lambda>q. q \<noteq> p) ps in if qs = [] then None else Some qs))
      else jm_get (ft_prefixesByValue t) w)"
  by (simp add: ft_dropFromIndex_def Let_def split: option.split)

lemma ft_get_set [simp]: "ft_get (ft_set t p v) q = (if q = p then Some v else ft_get t q)"
  by (auto simp: ft_set_def ft_get_def Let_def split: option.split)

lemma ft_wf_set [simp]:
  assumes "ft_wf t"
  shows "ft_wf (ft_set t p v)"
proof -
  define t1 where "t1 = (case ft_get t p of
            Some prev \<Rightarrow> if prev \<noteq> v then ft_dropFromIndex t prev p else t | None \<Rightarrow> t)"
  have wf: "jm_wf (ft_entries t1)" "jm_wf (ft_prefixesByValue t1)"
    using assms by (simp_all add: t1_def ft_wf_def split: option.split)
  have idx: "jm_get (ft_prefixesByValue (ft_set t p v)) w =
      (if w = v then Some (js_add (case jm_get (ft_prefixesByValue t1) v of Some ps \<Rightarrow> ps | None \<Rightarrow> []) p)
       else jm_get (ft_prefixesByValue t1) w)" for w
    by (auto simp: ft_set_def t1_def [symmetric] Let_def)
  have t1: "jm_get (ft_prefixesByValue t1) w = (if ft_get t p = Some w \<and> w \<noteq> v
      then (case jm_get (ft_prefixesByValue t) w of None \<Rightarrow> None
        | Some ps \<Rightarrow> (let qs = filter (\<lambda>q. q \<noteq> p) ps in if qs = [] then None else Some qs))
      else jm_get (ft_prefixesByValue t) w)" for w
    by (auto simp: t1_def index_dropFromIndex split: option.split)
  show ?thesis
  proof (rule ft_wfI)
    show "jm_wf (ft_entries (ft_set t p v))" "jm_wf (ft_prefixesByValue (ft_set t p v))"
      using wf by (simp_all add: ft_set_def t1_def [symmetric] Let_def)
  next
    fix w q assume n: "jm_get (ft_prefixesByValue (ft_set t p v)) w = None"
    then have w: "w \<noteq> v" "jm_get (ft_prefixesByValue t1) w = None" by (auto simp: idx split: if_splits)
    show "ft_get (ft_set t p v) q \<noteq> Some w"
    proof (cases "ft_get t p = Some w")
      case True
      then obtain ps where ps: "jm_get (ft_prefixesByValue t) w = Some ps"
        using ft_wf_index(1) [OF assms, of w p] by (cases "jm_get (ft_prefixesByValue t) w") auto
      have "filter (\<lambda>q. q \<noteq> p) ps = []"
        using w True ps unfolding t1 by (simp add: Let_def split: if_splits)
      then have "\<forall>q\<in>set ps. q = p" by (simp add: filter_empty_conv)
      with ft_wf_index(2) [OF assms ps] w(1) show ?thesis by (metis ft_get_set option.inject)
    next
      case False
      with w have "jm_get (ft_prefixesByValue t) w = None" by (simp add: t1)
      with ft_wf_index(1) [OF assms] w(1) show ?thesis by auto
    qed
  next
    fix w ps assume g: "jm_get (ft_prefixesByValue (ft_set t p v)) w = Some ps"
    show "ps \<noteq> [] \<and> distinct ps \<and> (\<forall>q. q \<in> set ps \<longleftrightarrow> ft_get (ft_set t p v) q = Some w)"
    proof (cases "w = v")
      case True
      then have "jm_get (ft_prefixesByValue t1) v = jm_get (ft_prefixesByValue t) v" by (simp add: t1)
      with g True have ps: "ps = js_add (case jm_get (ft_prefixesByValue t) v of Some ps \<Rightarrow> ps | None \<Rightarrow> []) p"
        by (simp add: idx)
      show ?thesis
      proof (cases "jm_get (ft_prefixesByValue t) v")
        case None
        with ps ft_wf_index(1) [OF assms None] True show ?thesis by (auto simp: js_add_def)
      next
        case (Some qs)
        with ps ft_wf_index(2) [OF assms Some] True show ?thesis by (auto simp: js_add_def)
      qed
    next
      case False
      with g have g1: "jm_get (ft_prefixesByValue t1) w = Some ps" by (simp add: idx)
      show ?thesis
      proof (cases "ft_get t p = Some w")
        case True
        with g1 False obtain qs where qs: "jm_get (ft_prefixesByValue t) w = Some qs"
          "ps = filter (\<lambda>q. q \<noteq> p) qs" "ps \<noteq> []"
          by (auto simp: t1 Let_def split: option.splits if_splits)
        with ft_wf_index(2) [OF assms qs(1)] False show ?thesis by auto
      next
        case no: False
        with g1 have "jm_get (ft_prefixesByValue t) w = Some ps" by (simp add: t1)
        with ft_wf_index(2) [OF assms this] False no show ?thesis by auto
      qed
    qed
  qed
qed

lemma ft_get_delete [simp]: "ft_get (snd (ft_delete t p)) q = (if q = p then None else ft_get t q)"
  by (auto simp: ft_delete_def ft_get_def split: option.split)

lemma ft_delete_found: "fst (ft_delete t p) \<longleftrightarrow> ft_has t p"
  by (auto simp: ft_delete_def ft_get_def ft_has_def jm_has_iff split: option.split)

lemma ft_wf_delete [simp]:
  assumes "ft_wf t"
  shows "ft_wf (snd (ft_delete t p))"
proof (cases "ft_get t p")
  case None
  with assms show ?thesis by (simp add: ft_delete_def)
next
  case (Some v)
  define d where "d = snd (ft_delete t p)"
  define t1 where "t1 = t\<lparr>ft_entries := jm_delete (ft_entries t) p\<rparr>"
  have d: "d = ft_dropFromIndex t1 v p" using Some by (simp add: d_def t1_def ft_delete_def)
  have get: "ft_get d q = (if q = p then None else ft_get t q)" for q by (simp add: d_def)
  have idx: "jm_get (ft_prefixesByValue d) w = (if w = v then (case jm_get (ft_prefixesByValue t) v of
          None \<Rightarrow> None
        | Some ps \<Rightarrow> (let qs = filter (\<lambda>q. q \<noteq> p) ps in if qs = [] then None else Some qs))
      else jm_get (ft_prefixesByValue t) w)" for w
    by (simp add: d index_dropFromIndex t1_def)
  obtain ps where ps: "jm_get (ft_prefixesByValue t) v = Some ps"
    using ft_wf_index(1) [OF assms, of v p] Some by (cases "jm_get (ft_prefixesByValue t) v") auto
  note pv = ft_wf_index(2) [OF assms ps]
  have "ft_wf d"
  proof (rule ft_wfI)
    show "jm_wf (ft_entries d)" "jm_wf (ft_prefixesByValue d)"
      using assms by (simp_all add: d t1_def ft_wf_def)
  next
    fix w q assume n: "jm_get (ft_prefixesByValue d) w = None"
    show "ft_get d q \<noteq> Some w"
    proof (cases "w = v")
      case True
      with n ps have "\<forall>q\<in>set ps. q = p" by (simp add: idx Let_def filter_empty_conv split: if_splits)
      with pv True show ?thesis by (auto simp: get)
    next
      case False
      with n have "jm_get (ft_prefixesByValue t) w = None" by (simp add: idx)
      with ft_wf_index(1) [OF assms] show ?thesis by (simp add: get)
    qed
  next
    fix w qs assume g: "jm_get (ft_prefixesByValue d) w = Some qs"
    show "qs \<noteq> [] \<and> distinct qs \<and> (\<forall>q. q \<in> set qs \<longleftrightarrow> ft_get d q = Some w)"
    proof (cases "w = v")
      case True
      with g ps have "qs = filter (\<lambda>q. q \<noteq> p) ps" "qs \<noteq> []" by (simp_all add: idx Let_def split: if_splits)
      with pv True show ?thesis by (simp add: get)
    next
      case False
      with g have "jm_get (ft_prefixesByValue t) w = Some qs" by (simp add: idx)
      with ft_wf_index(2) [OF assms this] False Some show ?thesis by (simp add: get)
    qed
  qed
  then show ?thesis by (simp add: d_def)
qed

lemma jm_get_foldl_delete: "jm_get (foldl jm_delete m ks) k = (if k \<in> set ks then None else jm_get m k)"
  by (induction ks arbitrary: m) auto

lemma jm_wf_foldl_delete [simp]: "jm_wf m \<Longrightarrow> jm_wf (foldl jm_delete m ks)"
  by (induction ks arbitrary: m) auto

lemma ft_get_deleteByValue:
  assumes "ft_wf t"
  shows "ft_get (snd (ft_deleteByValue t v)) q = (if ft_get t q = Some v then None else ft_get t q)"
proof (cases "jm_get (ft_prefixesByValue t) v")
  case None
  with ft_wf_index(1) [OF assms None] show ?thesis by (simp add: ft_deleteByValue_def)
next
  case (Some ps)
  with ft_wf_index(2) [OF assms Some] show ?thesis
    by (simp add: ft_deleteByValue_def ft_get_def jm_get_foldl_delete)
qed

lemma ft_deleteByValue_removed:
  assumes "ft_wf t"
  shows "set (fst (ft_deleteByValue t v)) = {p. ft_get t p = Some v}"
proof (cases "jm_get (ft_prefixesByValue t) v")
  case None
  with ft_wf_index(1) [OF assms None] show ?thesis by (simp add: ft_deleteByValue_def)
next
  case (Some ps)
  with ft_wf_index(2) [OF assms Some] show ?thesis by (auto simp: ft_deleteByValue_def)
qed

lemma ft_wf_deleteByValue [simp]:
  assumes "ft_wf t"
  shows "ft_wf (snd (ft_deleteByValue t v))"
proof (cases "jm_get (ft_prefixesByValue t) v")
  case None
  with assms show ?thesis by (simp add: ft_deleteByValue_def)
next
  case (Some ps)
  let ?d = "snd (ft_deleteByValue t v)"
  have idx: "jm_get (ft_prefixesByValue ?d) w = (if w = v then None else jm_get (ft_prefixesByValue t) w)" for w
    using Some by (simp add: ft_deleteByValue_def)
  note get = ft_get_deleteByValue [OF assms]
  show ?thesis
  proof (rule ft_wfI)
    show "jm_wf (ft_entries ?d)" "jm_wf (ft_prefixesByValue ?d)"
      using assms Some by (simp_all add: ft_deleteByValue_def ft_wf_def)
  next
    fix w q assume "jm_get (ft_prefixesByValue ?d) w = None"
    then show "ft_get ?d q \<noteq> Some w"
      using ft_wf_index(1) [OF assms, of w q] by (auto simp: get idx split: if_splits)
  next
    fix w qs assume "jm_get (ft_prefixesByValue ?d) w = Some qs"
    then have "w \<noteq> v" "jm_get (ft_prefixesByValue t) w = Some qs" by (simp_all add: idx split: if_splits)
    with ft_wf_index(2) [OF assms] show "qs \<noteq> [] \<and> distinct qs \<and> (\<forall>q. q \<in> set qs \<longleftrightarrow> ft_get ?d q = Some w)"
      by (simp add: get)
  qed
qed

section \<open>The contract the hub relies on\<close>

locale prefix_table =
  fixes empty :: 's
    and lookup :: "'s \<Rightarrow> string \<Rightarrow> 'v option"
    and claim :: "'s \<Rightarrow> string \<Rightarrow> 'v \<Rightarrow> 's"
    and release :: "'s \<Rightarrow> string \<Rightarrow> 's"
    and disown :: "'s \<Rightarrow> 'v \<Rightarrow> 's"
    and valid :: "'s \<Rightarrow> bool"
  assumes lookup_empty: "lookup empty q = None"
    and lookup_claim: "valid t \<Longrightarrow> lookup (claim t p v) q = (if q = p then Some v else lookup t q)"
    and lookup_release: "valid t \<Longrightarrow> lookup (release t p) q = (if q = p then None else lookup t q)"
    and lookup_disown: "valid t \<Longrightarrow> lookup (disown t v) q = (if lookup t q = Some v then None else lookup t q)"
    and valid_empty: "valid empty"
    and valid_claim: "valid t \<Longrightarrow> valid (claim t p v)"
    and valid_release: "valid t \<Longrightarrow> valid (release t p)"
    and valid_disown: "valid t \<Longrightarrow> valid (disown t v)"
begin

lemma route_disowned: "valid t \<Longrightarrow> walk_up (lookup (disown t v)) s \<noteq> Some (p, v)"
  by (auto simp: walk_up_iff lookup_disown split: if_splits)

lemma route_release_other:
  assumes "valid t" "\<not> is_service_id_under s p"
  shows "walk_up (lookup (release t p)) s = walk_up (lookup t) s"
proof -
  have "walk_up (lookup (release t p)) s = Some (q, v) \<longleftrightarrow> walk_up (lookup t) s = Some (q, v)" for q v
    using assms(2) unfolding walk_up_iff by (auto simp: lookup_release [OF assms(1)])
  then show ?thesis
    by (metis not_None_eq surj_pair)
qed

lemma route_claim_other:
  assumes "valid t" "\<not> is_service_id_under s p"
  shows "walk_up (lookup (claim t p v)) s = walk_up (lookup t) s"
proof -
  have "walk_up (lookup (claim t p v)) s = Some (q, w) \<longleftrightarrow> walk_up (lookup t) s = Some (q, w)" for q w
    using assms(2) unfolding walk_up_iff by (auto simp: lookup_claim [OF assms(1)])
  then show ?thesis
    by (metis not_None_eq surj_pair)
qed

text \<open>A new claim takes over exactly the ids under it that no longer prefix owns.\<close>

lemma route_claim_under:
  assumes "valid t" "is_service_id_under s p" "p \<noteq> []" "lookup t p = None"
  shows "walk_up (lookup (claim t p v)) s =
    (case walk_up (lookup t) s of
       Some (q, w) \<Rightarrow> if length p < length q then Some (q, w) else Some (p, v)
     | None \<Rightarrow> Some (p, v))"
proof -
  have up: "look p = Some v \<Longrightarrow> \<forall>q. q \<noteq> [] \<and> is_service_id_under s q \<and> length p < length q \<longrightarrow> look q = None \<Longrightarrow>
      walk_up look s = Some (p, v)" for look
    using assms(2,3) by (simp add: walk_up_iff)
  show ?thesis
  proof (cases "walk_up (lookup t) s")
    case None
    have "lookup t q = None" if "q \<noteq> []" "is_service_id_under s q" for q
    proof (rule ccontr)
      assume "lookup t q \<noteq> None"
      define Q where "Q = {q. q \<noteq> [] \<and> is_service_id_under s q \<and> lookup t q \<noteq> None}"
      have "q \<in> Q" using that \<open>lookup t q \<noteq> None\<close> by (simp add: Q_def)
      moreover have "\<forall>q. q \<in> Q \<longrightarrow> length q < Suc (length s)"
        using under_length [of s] by (auto simp: Q_def less_Suc_eq_le)
      ultimately have "\<exists>m. m \<in> Q \<and> (\<forall>q. q \<in> Q \<longrightarrow> length q \<le> length m)"
        by (rule ex_has_greatest_nat [of "\<lambda>q. q \<in> Q" q length "Suc (length s)"])
      then obtain m where m: "m \<in> Q" "\<forall>q. q \<in> Q \<longrightarrow> length q \<le> length m" by blast
      then obtain w where "lookup t m = Some w" by (auto simp: Q_def)
      with m have "walk_up (lookup t) s = Some (m, w)"
        unfolding walk_up_iff Q_def by (auto simp: not_le [symmetric])
      with None show False by simp
    qed
    then show ?thesis using None up [of "lookup (claim t p v)"] by (simp add: lookup_claim [OF assms(1)])
  next
    case (Some qw)
    obtain q w where qw: "walk_up (lookup t) s = Some (q, w)" using Some by (cases qw) auto
    then have q: "q \<noteq> []" "is_service_id_under s q" "lookup t q = Some w"
      "\<forall>r. r \<noteq> [] \<and> is_service_id_under s r \<and> length q < length r \<longrightarrow> lookup t r = None"
      by (simp_all add: walk_up_iff)
    show ?thesis
    proof (cases "length p < length q")
      case True
      then have "walk_up (lookup (claim t p v)) s = Some (q, w)"
        using q by (auto simp: walk_up_iff lookup_claim [OF assms(1)])
      with qw True show ?thesis by simp
    next
      case False
      then have "walk_up (lookup (claim t p v)) s = Some (p, v)"
        using q by (intro up) (auto simp: lookup_claim [OF assms(1)])
      with qw False show ?thesis by simp
    qed
  qed
qed

end

interpretation fwd: prefix_table ft_empty ft_get ft_set "\<lambda>t p. snd (ft_delete t p)"
    "\<lambda>t v. snd (ft_deleteByValue t v)" ft_wf
  by unfold_locales (simp_all add: ft_get_deleteByValue)

section \<open>The table as a map\<close>

datatype 't table_op = Claim string 't | Release string | Disown 't

fun table_apply :: "'t forwarding_table \<Rightarrow> 't table_op \<Rightarrow> 't forwarding_table" where
  "table_apply t (Claim p v) = ft_set t p v"
| "table_apply t (Release p) = snd (ft_delete t p)"
| "table_apply t (Disown v) = snd (ft_deleteByValue t v)"

fun map_apply :: "(string \<rightharpoonup> 't) \<Rightarrow> 't table_op \<Rightarrow> (string \<rightharpoonup> 't)" where
  "map_apply m (Claim p v) = m(p \<mapsto> v)"
| "map_apply m (Release p) = m(p := None)"
| "map_apply m (Disown v) = (\<lambda>q. if m q = Some v then None else m q)"

lemma table_apply_wf: "ft_wf t \<Longrightarrow> ft_wf (table_apply t x)"
  by (cases x) simp_all

lemma table_apply_map: "ft_wf t \<Longrightarrow> ft_get (table_apply t x) = map_apply (ft_get t) x"
  by (cases x) (auto simp: ft_get_deleteByValue)

section \<open>Properties\<close>

text \<open>C29: The forwarding table is a map from prefixes to owners: after any sequence of claims,
  releases and owner removals the reverse index lists for each owner exactly the prefixes the
  entries bind to it, and every lookup is that of the map the sequence builds.\<close>

theorem forwarding_table_refines_map:
  "ft_wf (foldl table_apply ft_empty ops) \<and>
   ft_get (foldl table_apply ft_empty ops) = foldl map_apply Map.empty ops"
proof -
  have "ft_wf t \<Longrightarrow> ft_wf (foldl table_apply t ops) \<and>
      ft_get (foldl table_apply t ops) = foldl map_apply (ft_get t) ops" for t :: "'a forwarding_table"
    by (induction ops arbitrary: t) (simp_all add: table_apply_wf table_apply_map)
  moreover have "ft_get ft_empty = (Map.empty :: string \<Rightarrow> 'a option)" by (simp add: fun_eq_iff)
  ultimately show ?thesis using ft_wf_empty by metis
qed

text \<open>The walk over the separators is the longest-prefix match: it returns the longest claimed
  prefix the service id is equal to or beneath, in whole segments, and its owner.\<close>

theorem longest_prefix_match_correct:
  "longest_prefix_match t s = Some (p, v) \<longleftrightarrow>
     p \<noteq> [] \<and> is_service_id_under s p \<and> ft_get t p = Some v \<and>
     \<not> (\<exists>q. q \<noteq> [] \<and> is_service_id_under s q \<and> ft_has t q \<and> length p < length q)"
proof -
  have "ft_has t q \<longleftrightarrow> ft_get t q \<noteq> None" for q by (simp add: ft_has_def jm_has_iff ft_get_def)
  then show ?thesis unfolding longest_prefix_match_def walk_up_iff by blast
qed

text \<open>A claim of a free prefix takes over the routes of the ids under it that no longer claim
  owns, and no other route changes.\<close>

theorem claim_routes_exactly:
  assumes "ft_wf t" "p \<noteq> []" "ft_get t p = None"
  shows "longest_prefix_match (ft_set t p v) s =
    (if is_service_id_under s p then
       (case longest_prefix_match t s of
          Some (q, w) \<Rightarrow> if length p < length q then Some (q, w) else Some (p, v)
        | None \<Rightarrow> Some (p, v))
     else longest_prefix_match t s)"
  using fwd.route_claim_under [OF assms(1) _ assms(2,3)] fwd.route_claim_other [OF assms(1)]
  by (simp add: longest_prefix_match_def)

theorem claim_routes_exactly_witness:
  "longest_prefix_match (ft_set (ft_set ft_empty ''a/b'' 1) ''a'' (2 :: nat)) ''a/bc'' = Some (''a'', 2)"
proof -
  have "ft_wf (ft_set ft_empty ''a/b'' (1 :: nat))" "ft_get (ft_set ft_empty ''a/b'' (1 :: nat)) ''a'' = None"
    by simp_all
  from claim_routes_exactly [OF this(1) _ this(2), of 2 "''a/bc''"] show ?thesis by simp code_simp
qed

text \<open>A service id is well formed exactly when none of its segments is empty; the root has no
  segments.\<close>

theorem valid_service_id_iff_segments:
  "is_valid_service_id i = list_all (\<lambda>seg. seg \<noteq> []) (split_service_id i)"
  by (simp add: valid_service_id_segments list_all_iff)

text \<open>The default policy grants one prefix: the connection's attested identity key, verbatim, and
  only if it is a well-formed service id other than the root.\<close>

theorem default_policy_exact:
  "authorize_claim None ctx = ClaimOk \<longleftrightarrow>
     cc_identityKey ctx = Some (cc_requestedPrefix ctx) \<and> validate_prefix (cc_requestedPrefix ctx) = None"
  by (auto simp: authorize_claim_def default_derive_prefixes_def validate_prefix_def Let_def
      split: option.splits if_splits)

end
