(* ===== verification/Streaming.thy ===== *)
theory Streaming
  imports Wire
begin

text \<open>
  What the two routers share: the stream sub-protocol of \<^verbatim>\<open>connection/streaming.ts\<close> (method
  name, directions, control verbs, reasons), the helpers that read and rewrite the
  \<^verbatim>\<open>requestId\<close> of a stream frame, and the transit record of \<^verbatim>\<open>nodeTransit.ts\<close>.
\<close>

section \<open>The stream sub-protocol\<close>

definition DIR_toCaller :: string where "DIR_toCaller = ''toCaller''"
definition DIR_toCallee :: string where "DIR_toCallee = ''toCallee''"

definition CONTROL_cancel :: string where "CONTROL_cancel = ''cancel''"
definition CONTROL_ping :: string where "CONTROL_ping = ''ping''"
definition CONTROL_pong :: string where "CONTROL_pong = ''pong''"

definition REASON_clientDisconnected :: string where "REASON_clientDisconnected = ''clientDisconnected''"
definition REASON_idleTimeout :: string where "REASON_idleTimeout = ''idleTimeout''"

definition STREAM_METHOD :: string where "STREAM_METHOD = ''$stream::send''"

lemmas dir_consts = DIR_toCaller_def DIR_toCallee_def

section \<open>Request ids as JSON and as text\<close>

definition id_json :: "request_id \<Rightarrow> json" where
  "id_json i = (case i of IdNum n \<Rightarrow> JNum n | IdStr s \<Rightarrow> JStr s)"

text \<open>\<^verbatim>\<open>String(id)\<close>.\<close>

definition id_string :: "request_id \<Rightarrow> string" where
  "id_string i = (case i of IdNum n \<Rightarrow> num_to_string n | IdStr s \<Rightarrow> s)"

lemma num_of_int_inj: "num_of_int a = num_of_int b \<Longrightarrow> a = b"
  using num_of_int_less [of a b] num_of_int_less [of b a] by (auto simp: not_less_iff_gr_or_eq)

lemma dec_wf_num_of_int [simp]: "dec_wf (num_of_int i)"
  by (simp add: num_of_int_def)

text \<open>Ids that count up have different texts.\<close>

lemma id_string_count [simp]: "id_string (IdNum (num_of_int a)) = id_string (IdNum (num_of_int b)) \<longleftrightarrow> a = b"
proof
  assume "id_string (IdNum (num_of_int a)) = id_string (IdNum (num_of_int b))"
  then have "num_of_int a = num_of_int b" by (simp add: id_string_def num_to_string_inj)
  then show "a = b" by (rule num_of_int_inj)
qed simp

text \<open>\<^verbatim>\<open>String(v)\<close> of any JSON value.\<close>

fun js_string :: "json \<Rightarrow> string" where
  "js_string JNull = ''null''"
| "js_string (JBool b) = (if b then ''true'' else ''false'')"
| "js_string (JNum n) = num_to_string n"
| "js_string (JStr s) = s"
| "js_string (JArr xs) = js_join '','' (map (\<lambda>x. if x = JNull then '''' else js_string x) xs)"
| "js_string (JObj kvs) = ''[object Object]''"

lemma js_string_id_json [simp]: "js_string (id_json i) = id_string i"
  by (cases i) (simp_all add: id_json_def id_string_def)

section \<open>Reading and rewriting stream frames\<close>

text \<open>\<^verbatim>\<open>{ ...params, requestId }\<close>\<close>

definition with_requestId :: "message \<Rightarrow> request_id \<Rightarrow> message" where
  "with_requestId m i =
     (let params = JObj (jm_set (spread (params_of m)) ''requestId'' (id_json i)) in
      case m of
        Request j meth _ \<Rightarrow> Request j meth (Some params)
      | Notification meth _ \<Rightarrow> Notification meth (Some params)
      | _ \<Rightarrow> m)"

text \<open>The params when they are an object or an array, and their fields.\<close>

definition stream_params :: "message \<Rightarrow> json option" where
  "stream_params m = (case params_of m of
     Some (JObj kvs) \<Rightarrow> Some (JObj kvs)
   | Some (JArr xs) \<Rightarrow> Some (JArr xs)
   | _ \<Rightarrow> None)"

definition stream_field :: "string \<Rightarrow> message \<Rightarrow> json option" where
  "stream_field k m = (case stream_params m of None \<Rightarrow> None | Some p \<Rightarrow> field k p)"

lemma stream_field_with_requestId:
  "is_request m \<or> is_notification m \<Longrightarrow>
   stream_field k (with_requestId m i) =
     (if k = ''requestId'' then Some (id_json i) else map_of (spread (params_of m)) k)"
  by (cases m) (simp_all add: stream_field_def stream_params_def with_requestId_def params_of_def
      Let_def is_request_def is_notification_def)

section \<open>Messages with another id\<close>

definition with_id :: "message \<Rightarrow> request_id \<Rightarrow> message" where
  "with_id m i = (case m of
     Request _ meth p \<Rightarrow> Request i meth p
   | Notification meth p \<Rightarrow> Request i meth p
   | Success _ r \<Rightarrow> Success (Some i) r
   | Failure _ e \<Rightarrow> Failure (Some i) e)"

definition response_id :: "message \<Rightarrow> request_id option" where
  "response_id m = (case m of Success i _ \<Rightarrow> i | Failure i _ \<Rightarrow> i | _ \<Rightarrow> None)"

section \<open>Transits\<close>

record transit_endpoint =
  te_edgeId :: string
  te_requestId :: "request_id option"

record node_transit =
  nt_timeMs :: nat
  nt_nodeId :: string
  nt_in :: transit_endpoint
  nt_out :: "transit_endpoint option"
  nt_disposition :: string
  nt_kind :: string
  nt_method :: "string option"
  nt_params :: "json option"
  nt_result :: "json option"
  nt_error :: "rpc_error option"

end
