(* ===== verification/Hub.thy ===== *)
theory Hub
  imports Routing Streaming
begin

text \<open>
  \<^verbatim>\<open>routing/routingHub.ts\<close>: the hub.  Links are numbers; an operation takes the state and
  returns the new one with what the hub does, in order: messages it sends, promises it settles,
  notifications it fires.  The clock is an argument.  Timers are data: a pending entry holds the
  time its idle timer is due, and the timer firing is an event.  A transport that fails to send
  reports it by an event too, as the source handles it in a callback.  Transits, logs, edge labels
  and the topology graph only observe and are left out; the hub's own node id and the port id
  of a link are parameters.
\<close>

section \<open>State\<close>

text \<open>Where a forwarded request came from: a link, or the hub itself, for which the source builds a
  sink that settles a promise (\<^verbatim>\<open>_requestOnLink\<close>) or drives a watch (\<^verbatim>\<open>_watchOnLink\<close>).\<close>

datatype origin = OLink nat | ORequest nat nat | OWatch nat nat

record pending =
  pd_origin :: origin
  pd_originalId :: request_id
  pd_method :: string
  pd_startedAtMs :: nat
  pd_target :: nat
  pd_timer :: "int option"

record hub =
  h_table :: "nat forwarding_table"
  h_links :: "nat list"
  h_pending :: "(string \<times> pending) list"
  h_uplink :: "nat option"
  h_loopback :: "nat option"
  h_nextId :: nat
  h_sinks :: "nat list"

record hub_opts =
  ho_debugName :: "string option"
  ho_nodeId :: string
  ho_portId :: "nat \<Rightarrow> string"
  ho_idleMs :: int

definition DEFAULT_IDLE_TIMEOUT_MS :: int where "DEFAULT_IDLE_TIMEOUT_MS = 30 * 60000"

definition hub_init :: hub where
  "hub_init = \<lparr>h_table = ft_empty, h_links = [], h_pending = [], h_uplink = None, h_loopback = None,
     h_nextId = 1, h_sinks = []\<rparr>"

datatype settlement = Resolved "json option" | RejectedRpc rpc_error | RejectedError string

datatype hub_out =
    Send nat message
  | Settled nat settlement
  | WatchTick nat
  | WatchSettled nat
  | WatchEstablished nat
  | RoutingChanged
  | Threw js_error

text \<open>\<^verbatim>\<open>hubId\<close> on the wire, and \<^verbatim>\<open>String(hubId)\<close>.\<close>

definition hub_id :: "nat \<Rightarrow> request_id" where
  "hub_id n = IdNum (num_of_int (int n))"

definition key_of :: "nat \<Rightarrow> string" where
  "key_of n = id_string (hub_id n)"

section \<open>The pending table\<close>

definition delete_pending :: "hub \<Rightarrow> string \<Rightarrow> hub" where
  "delete_pending h key = h\<lparr>h_pending := jm_delete (h_pending h) key\<rparr>"

definition arm_idle :: "hub_opts \<Rightarrow> nat \<Rightarrow> hub \<Rightarrow> string \<Rightarrow> hub" where
  "arm_idle cfg now h key =
     (if ho_idleMs cfg \<le> 0 then h
      else case jm_get (h_pending h) key of
        None \<Rightarrow> h
      | Some p \<Rightarrow> h\<lparr>h_pending := jm_set (h_pending h) key (p\<lparr>pd_timer := Some (int now + ho_idleMs cfg)\<rparr>)\<rparr>)"

definition reset_idle :: "hub_opts \<Rightarrow> nat \<Rightarrow> hub \<Rightarrow> string \<Rightarrow> hub" where
  "reset_idle cfg now h key = (case jm_get (h_pending h) key of
     None \<Rightarrow> h
   | Some p \<Rightarrow> arm_idle cfg now h key)"

definition inject_cancel :: "nat \<Rightarrow> string \<Rightarrow> string \<Rightarrow> hub_out" where
  "inject_cancel target hubId reason = Send target (Notification STREAM_METHOD (Some (JObj
     [(''requestId'', JNum (js_number hubId)), (''dir'', JStr DIR_toCallee),
      (''control'', JObj [(''type'', JStr CONTROL_cancel), (''reason'', JStr reason)])])))"

section \<open>The hub's own requests and watches\<close>

definition finish :: "hub \<Rightarrow> nat \<Rightarrow> settlement \<Rightarrow> hub \<times> hub_out list" where
  "finish h k r =
     (if k \<in> set (h_sinks h) then (h\<lparr>h_sinks := filter (\<lambda>j. j \<noteq> k) (h_sinks h)\<rparr>, [Settled k r])
      else (h, []))"

definition pending_origin :: "hub \<Rightarrow> string \<Rightarrow> origin option" where
  "pending_origin h key = map_option pd_origin (jm_get (h_pending h) key)"

definition watch_stop :: "hub \<Rightarrow> nat \<Rightarrow> nat \<Rightarrow> bool \<Rightarrow> hub \<times> hub_out list" where
  "watch_stop h k link cancel =
     (if k \<notin> set (h_sinks h) then (h, [])
      else
        let h1 = h\<lparr>h_sinks := filter (\<lambda>j. j \<noteq> k) (h_sinks h)\<rparr>;
            mine = (pending_origin h1 (key_of k) = Some (OWatch k link));
            h2 = (if mine then delete_pending h1 (key_of k) else h1) in
        (h2, (if mine \<and> cancel then [inject_cancel link (key_of k) REASON_clientDisconnected] else [])
           @ (if cancel then [] else [WatchSettled k])))"

definition control_frame :: "nat \<Rightarrow> json \<Rightarrow> message" where
  "control_frame k control = Notification STREAM_METHOD (Some (JObj
     [(''requestId'', id_json (hub_id k)), (''dir'', JStr DIR_toCallee), (''control'', control)]))"

definition watch_receive :: "hub \<Rightarrow> nat \<Rightarrow> nat \<Rightarrow> message \<Rightarrow> hub \<times> hub_out list" where
  "watch_receive h k link m =
     (if is_notification m \<and> method_of m = Some STREAM_METHOD then
        (if stream_field ''dir'' m \<noteq> Some (JStr DIR_toCaller) then (h, [])
         else
           (let control = stream_field ''control'' m in
            (h, (case control of
                  Some c \<Rightarrow> if field ''type'' c = Some (JStr CONTROL_ping)
                    then [Send link (control_frame k (JObj ((''type'', JStr CONTROL_pong) #
                      (case field ''nonce'' c of Some n \<Rightarrow> [(''nonce'', n)] | None \<Rightarrow> []))))]
                    else []
                | None \<Rightarrow> [])
              @ (if stream_field ''payload'' m \<noteq> None then [WatchTick k] else []))))
      else if is_response m then watch_stop h k link False
      else (h, []))"

text \<open>\<^verbatim>\<open>origin.send(m)\<close>.\<close>

definition deliver :: "hub \<Rightarrow> origin \<Rightarrow> message \<Rightarrow> hub \<times> hub_out list" where
  "deliver h orig m = (case orig of
     OLink l \<Rightarrow> (h, [Send l m])
   | ORequest k _ \<Rightarrow> finish h k (case m of
       Failure _ e \<Rightarrow> RejectedRpc e
     | Success _ r \<Rightarrow> Resolved (Some r)
     | _ \<Rightarrow> Resolved None)
   | OWatch k link \<Rightarrow> watch_receive h k link m)"

definition reply_error :: "hub_opts \<Rightarrow> hub \<Rightarrow> origin \<Rightarrow> request_id \<Rightarrow> int \<Rightarrow> string \<Rightarrow> hub \<times> hub_out list" where
  "reply_error cfg h to i code msg = deliver h to (Failure (Some i)
     \<lparr>err_code = code, err_message = msg,
      err_data = map_option (\<lambda>n. JObj [(''hub'', JStr n)]) (ho_debugName cfg)\<rparr>)"

definition park :: "hub_opts \<Rightarrow> nat \<Rightarrow> hub \<Rightarrow> (nat \<Rightarrow> pending) \<Rightarrow> nat \<times> hub" where
  "park cfg now h entry =
     (let n = h_nextId h;
          h1 = h\<lparr>h_nextId := n + 1, h_pending := jm_set (h_pending h) (key_of n) (entry n)\<rparr> in
      (n, arm_idle cfg now h1 (key_of n)))"

definition request_on_link :: "hub_opts \<Rightarrow> nat \<Rightarrow> hub \<Rightarrow> nat \<Rightarrow> string \<Rightarrow> json \<Rightarrow> hub \<times> hub_out list" where
  "request_on_link cfg now h link meth params =
     (case park cfg now h (\<lambda>n. \<lparr>pd_origin = ORequest n link, pd_originalId = hub_id n, pd_method = meth,
         pd_startedAtMs = now, pd_target = link, pd_timer = None\<rparr>) of
        (n, h1) \<Rightarrow> (h1\<lparr>h_sinks := h_sinks h1 @ [n]\<rparr>, [Send link (Request (hub_id n) meth (Some params))]))"

definition request_timeout :: "hub \<Rightarrow> nat \<Rightarrow> nat \<Rightarrow> nat \<Rightarrow> hub \<times> hub_out list" where
  "request_timeout h k link timeoutMs = (case jm_get (h_pending h) (key_of k) of
     None \<Rightarrow> (h, [])
   | Some p \<Rightarrow>
       if pd_origin p \<noteq> ORequest k link then (h, [])
       else (case finish (delete_pending h (key_of k)) k
           (RejectedError (pd_method p @ '' timed out after '' @ num_to_string (num_of_int (int timeoutMs)) @ ''ms'')) of
         (h', out) \<Rightarrow> (h', inject_cancel link (key_of k) REASON_clientDisconnected # out)))"

definition request_send_failed :: "hub \<Rightarrow> nat \<Rightarrow> nat \<Rightarrow> string \<Rightarrow> hub \<times> hub_out list" where
  "request_send_failed h k link err =
     (if pending_origin h (key_of k) \<noteq> Some (ORequest k link) then (h, [])
      else finish (delete_pending h (key_of k)) k (RejectedError err))"

definition watch_on_link :: "hub_opts \<Rightarrow> nat \<Rightarrow> hub \<Rightarrow> nat \<Rightarrow> string \<Rightarrow> json \<Rightarrow> hub \<times> hub_out list" where
  "watch_on_link cfg now h link meth params =
     (case park cfg now h (\<lambda>n. \<lparr>pd_origin = OWatch n link, pd_originalId = hub_id n, pd_method = meth,
         pd_startedAtMs = now, pd_target = link, pd_timer = None\<rparr>) of
        (n, h1) \<Rightarrow> (h1\<lparr>h_sinks := h_sinks h1 @ [n]\<rparr>, [Send link (Request (hub_id n) meth (Some params))]))"

definition watch_established :: "hub \<Rightarrow> nat \<Rightarrow> nat \<Rightarrow> hub_out list" where
  "watch_established h k link =
     (if k \<in> set (h_sinks h) \<and> pending_origin h (key_of k) = Some (OWatch k link) then [WatchEstablished k] else [])"

definition watch_ping :: "hub_opts \<Rightarrow> nat \<Rightarrow> hub \<Rightarrow> nat \<Rightarrow> nat \<Rightarrow> string \<Rightarrow> hub \<times> hub_out list" where
  "watch_ping cfg now h k link nonce =
     (if ho_idleMs cfg \<le> 0 then (h, [])
      else if k \<notin> set (h_sinks h) \<or> pending_origin h (key_of k) \<noteq> Some (OWatch k link) then watch_stop h k link False
      else (reset_idle cfg now h (key_of k),
        [Send link (control_frame k (JObj [(''type'', JStr CONTROL_ping), (''nonce'', JStr nonce)]))]))"

section \<open>Links, claims, uplink and loopback\<close>

record attach_opts =
  at_exclusive :: bool
  at_prefixes :: "string list"

definition default_attach :: attach_opts where
  "default_attach = \<lparr>at_exclusive = False, at_prefixes = []\<rparr>"

definition validate_prefix_claim :: "hub \<Rightarrow> string \<Rightarrow> js_error option" where
  "validate_prefix_claim h p = (case validate_prefix p of
     Some e \<Rightarrow> Some (JsError (''claimPrefix: '' @ e))
   | None \<Rightarrow>
       if ft_has (h_table h) p
       then Some (JsError (''claimPrefix: prefix '' @ [CHR 0x27] @ p @ [CHR 0x27] @ '' is already claimed''))
       else None)"

fun validate_claims :: "hub \<Rightarrow> string list \<Rightarrow> string list \<Rightarrow> js_error option" where
  "validate_claims h seen [] = None"
| "validate_claims h seen (p # ps) = (case validate_prefix_claim h p of
     Some e \<Rightarrow> Some e
   | None \<Rightarrow>
       if p \<in> set seen then Some (JsError (''claimPrefix: duplicate prefix '' @ [CHR 0x27] @ p @ [CHR 0x27]))
       else validate_claims h (js_add seen p) ps)"

definition claim_raw :: "nat \<Rightarrow> hub \<Rightarrow> string \<Rightarrow> hub" where
  "claim_raw link h p = h\<lparr>h_table := ft_set (h_table h) p link\<rparr>"

definition attach :: "hub \<Rightarrow> nat \<Rightarrow> attach_opts \<Rightarrow> (hub \<times> hub_out list) res" where
  "attach h link opts = (case validate_claims h [] (at_prefixes opts) of
     Some e \<Rightarrow> Inl e
   | None \<Rightarrow>
       if at_exclusive opts \<and> h_loopback h \<noteq> None \<and> h_loopback h \<noteq> Some link
       then Inl (JsError ''exclusiveHubRootHandler: another link is already the hub-root handler'')
       else
         let isNew = (link \<notin> set (h_links h));
             loopbackChanged = (at_exclusive opts \<and> h_loopback h \<noteq> Some link);
             h1 = (if isNew then h\<lparr>h_links := h_links h @ [link]\<rparr> else h);
             h2 = (if at_exclusive opts then h1\<lparr>h_loopback := Some link\<rparr> else h1);
             h3 = foldl (claim_raw link) h2 (at_prefixes opts) in
         Inr (h3, if isNew \<or> loopbackChanged \<or> at_prefixes opts \<noteq> [] then [RoutingChanged] else []))"

definition set_uplink :: "hub \<Rightarrow> nat option \<Rightarrow> (hub \<times> hub_out list) res" where
  "set_uplink h link =
     (let changed = (h_uplink h \<noteq> link);
          h1 = h\<lparr>h_uplink := link\<rparr> in
      res_bind (case link of None \<Rightarrow> Inr (h1, []) | Some l \<Rightarrow> attach h1 l default_attach) (\<lambda>(h2, out).
      Inr (h2, out @ (if changed then [RoutingChanged] else []))))"

definition set_loopback :: "hub \<Rightarrow> nat option \<Rightarrow> (hub \<times> hub_out list) res" where
  "set_loopback h link = (case link of
     Some l \<Rightarrow> attach h l \<lparr>at_exclusive = True, at_prefixes = []\<rparr>
   | None \<Rightarrow> Inr (if h_loopback h \<noteq> None then (h\<lparr>h_loopback := None\<rparr>, [RoutingChanged]) else (h, [])))"

definition claim_prefix :: "hub \<Rightarrow> nat \<Rightarrow> string \<Rightarrow> (hub \<times> hub_out list) res" where
  "claim_prefix h link p = attach h link \<lparr>at_exclusive = False, at_prefixes = [p]\<rparr>"

definition release_prefix :: "hub \<Rightarrow> string \<Rightarrow> bool \<times> hub \<times> hub_out list" where
  "release_prefix h p = (case ft_delete (h_table h) p of
     (released, t) \<Rightarrow> (released, h\<lparr>h_table := t\<rparr>, if released then [RoutingChanged] else []))"

definition claimed_prefixes :: "hub \<Rightarrow> string list" where
  "claimed_prefixes h = ft_prefixes (h_table h)"

fun detach_pending :: "hub_opts \<Rightarrow> nat \<Rightarrow> hub \<Rightarrow> (string \<times> pending) list \<Rightarrow> hub \<times> hub_out list" where
  "detach_pending cfg link h [] = (h, [])"
| "detach_pending cfg link h ((key, p) # ps) =
     (case
        (if pd_origin p = OLink link then
           (delete_pending h key, [inject_cancel (pd_target p) key REASON_clientDisconnected])
         else if pd_target p = link then
           reply_error cfg (delete_pending h key) (pd_origin p) (pd_originalId p) ERR_peerDisconnected
             ''target detached before responding''
         else (h, []))
      of (h1, out1) \<Rightarrow> (case detach_pending cfg link h1 ps of (h2, out2) \<Rightarrow> (h2, out1 @ out2)))"

definition detach :: "hub_opts \<Rightarrow> hub \<Rightarrow> nat \<Rightarrow> hub \<times> hub_out list" where
  "detach cfg h link =
     (if link \<notin> set (h_links h) then (h, [])
      else
        let h1 = h\<lparr>h_links := filter (\<lambda>l. l \<noteq> link) (h_links h),
                   h_table := snd (ft_deleteByValue (h_table h) link)\<rparr>;
            h2 = (if h_uplink h1 = Some link then h1\<lparr>h_uplink := None\<rparr> else h1);
            h3 = (if h_loopback h2 = Some link then h2\<lparr>h_loopback := None\<rparr> else h2) in
        case detach_pending cfg link h3 (h_pending h3) of (h4, out) \<Rightarrow> (h4, out @ [RoutingChanged]))"

text \<open>The handle \<^verbatim>\<open>attach\<close> returns.\<close>

record attached_link =
  al_link :: nat
  al_disposed :: bool

definition attached_dispose :: "hub_opts \<Rightarrow> hub \<Rightarrow> attached_link \<Rightarrow> attached_link \<times> hub \<times> hub_out list" where
  "attached_dispose cfg h a =
     (if al_disposed a then (a, h, [])
      else (a\<lparr>al_disposed := True\<rparr>, detach cfg h (al_link a)))"

definition attached_set_as_loopback :: "hub \<Rightarrow> attached_link \<Rightarrow> (hub \<times> hub_out list) res" where
  "attached_set_as_loopback h a =
     (if al_disposed a \<or> al_link a \<notin> set (h_links h) then Inl (JsError ''setAsLoopback: link is detached'')
      else set_loopback h (Some (al_link a)))"

record pending_info =
  pi_hubId :: string
  pi_originalId :: request_id
  pi_method :: string
  pi_ageMs :: int

definition pending_requests :: "hub \<Rightarrow> nat \<Rightarrow> pending_info list" where
  "pending_requests h now = map (\<lambda>(hubId, p). \<lparr>pi_hubId = hubId, pi_originalId = pd_originalId p,
     pi_method = pd_method p, pi_ageMs = int now - int (pd_startedAtMs p)\<rparr>) (h_pending h)"

definition get_source_transport :: "hub \<Rightarrow> request_id \<Rightarrow> origin option" where
  "get_source_transport h i = pending_origin h (id_string i)"

section \<open>Routing\<close>

datatype resolution = Malformed | Loopback "nat option" | PrefixOwner nat string | Uplink "nat option"

definition resolve_method :: "hub \<Rightarrow> string \<Rightarrow> nat \<Rightarrow> resolution" where
  "resolve_method h meth from = (case parse_method_name meth of
     None \<Rightarrow> Malformed
   | Some (Bare _) \<Rightarrow> Loopback (h_loopback h)
   | Some (Interface _ _) \<Rightarrow> Loopback (h_loopback h)
   | Some (Full serviceId _ _) \<Rightarrow> (case longest_prefix_match (h_table h) serviceId of
       Some (p, l) \<Rightarrow> PrefixOwner l p
     | None \<Rightarrow> if h_uplink h = Some from then Uplink None else Uplink (h_uplink h)))"

definition resolved_link :: "resolution \<Rightarrow> nat option" where
  "resolved_link r = (case r of Malformed \<Rightarrow> None | Loopback l \<Rightarrow> l | PrefixOwner l _ \<Rightarrow> Some l | Uplink l \<Rightarrow> l)"

definition no_target_code :: "resolution \<Rightarrow> int" where
  "no_target_code r = (case r of Malformed \<Rightarrow> ERR_invalidRequest | _ \<Rightarrow> ERR_methodNotFound)"

definition no_target_message :: "resolution \<Rightarrow> string \<Rightarrow> string" where
  "no_target_message r meth = (case r of
     Malformed \<Rightarrow> ''malformed method name: '' @ meth
   | Loopback _ \<Rightarrow> ''no local root services to handle: '' @ meth
   | Uplink _ \<Rightarrow> ''no route for: '' @ meth
   | PrefixOwner _ _ \<Rightarrow> ''unroutable: '' @ meth)"

definition route_request :: "hub_opts \<Rightarrow> nat \<Rightarrow> hub \<Rightarrow> nat \<Rightarrow> request_id \<Rightarrow> string \<Rightarrow> json option
    \<Rightarrow> hub \<times> hub_out list" where
  "route_request cfg now h from i meth params =
     (let r = resolve_method h meth from in
      case resolved_link r of
        None \<Rightarrow> reply_error cfg h (OLink from) i (no_target_code r) (no_target_message r meth)
      | Some target \<Rightarrow>
          (case park cfg now h (\<lambda>n. \<lparr>pd_origin = OLink from, pd_originalId = i, pd_method = meth,
              pd_startedAtMs = now, pd_target = target, pd_timer = None\<rparr>) of
             (n, h1) \<Rightarrow> (h1, [Send target (Request (hub_id n) meth params)])))"

definition route_send_failed :: "hub_opts \<Rightarrow> hub \<Rightarrow> string \<Rightarrow> nat \<Rightarrow> string \<Rightarrow> hub \<times> hub_out list" where
  "route_send_failed cfg h key target err = (case jm_get (h_pending h) key of
     None \<Rightarrow> (h, [])
   | Some p \<Rightarrow>
       if pd_target p \<noteq> target then (h, [])
       else reply_error cfg (delete_pending h key) (pd_origin p) (pd_originalId p) ERR_peerDisconnected
         (''target send failed: '' @ err))"

definition route_notification :: "hub \<Rightarrow> nat \<Rightarrow> string \<Rightarrow> json option \<Rightarrow> hub_out list" where
  "route_notification h from meth params = (case resolved_link (resolve_method h meth from) of
     None \<Rightarrow> []
   | Some target \<Rightarrow> [Send target (Notification meth params)])"

definition demux :: "hub \<Rightarrow> nat \<Rightarrow> message \<Rightarrow> hub \<times> hub_out list" where
  "demux h from m = (case response_id m of
     None \<Rightarrow> (h, [])
   | Some i \<Rightarrow> (case jm_get (h_pending h) (id_string i) of
       None \<Rightarrow> (h, [])
     | Some p \<Rightarrow>
         if from \<noteq> pd_target p then (h, [])
         else deliver (delete_pending h (id_string i)) (pd_origin p) (with_id m (pd_originalId p))))"

fun find_stream_target :: "nat \<Rightarrow> string \<Rightarrow> (string \<times> pending) list \<Rightarrow> (string \<times> pending) option" where
  "find_stream_target from i [] = None"
| "find_stream_target from i ((key, p) # ps) =
     (if pd_origin p = OLink from \<and> id_string (pd_originalId p) = i then Some (key, p)
      else find_stream_target from i ps)"

definition route_stream :: "hub_opts \<Rightarrow> nat \<Rightarrow> hub \<Rightarrow> nat \<Rightarrow> message \<Rightarrow> hub \<times> hub_out list" where
  "route_stream cfg now h from m = (case stream_field ''requestId'' m of
     None \<Rightarrow> (h, [])
   | Some requestId \<Rightarrow>
       let key = js_string requestId in
       if stream_field ''dir'' m = Some (JStr DIR_toCaller) then
         (case jm_get (h_pending h) key of
            None \<Rightarrow> (h, [])
          | Some p \<Rightarrow>
              if from \<noteq> pd_target p then (h, [])
              else deliver (reset_idle cfg now h key) (pd_origin p) (with_requestId m (pd_originalId p)))
       else (case find_stream_target from key (h_pending h) of
            None \<Rightarrow> (h, [])
          | Some (hubId, p) \<Rightarrow>
              (reset_idle cfg now h hubId, [Send (pd_target p) (with_requestId m (IdNum (js_number hubId)))])))"

definition on_idle_timeout :: "hub_opts \<Rightarrow> hub \<Rightarrow> string \<Rightarrow> hub \<times> hub_out list" where
  "on_idle_timeout cfg h key = (case jm_get (h_pending h) key of
     None \<Rightarrow> (h, [])
   | Some p \<Rightarrow>
       (case reply_error cfg (delete_pending h key) (pd_origin p) (pd_originalId p) ERR_requestTimeout
           ''request idle-timed-out'' of
          (h', out) \<Rightarrow> (h', inject_cancel (pd_target p) key REASON_idleTimeout # out)))"

definition GET_NODE_ID_METHOD :: string where "GET_NODE_ID_METHOD = ''hubrpc.node::getNodeId''"

definition on_message :: "hub_opts \<Rightarrow> nat \<Rightarrow> hub \<Rightarrow> nat \<Rightarrow> message \<Rightarrow> hub \<times> hub_out list" where
  "on_message cfg now h from m = (case m of
     Request i meth params \<Rightarrow>
       if meth = GET_NODE_ID_METHOD then
         (h, [Send from (Success (Some i) (JObj [(''nodeId'', JStr (ho_nodeId cfg)),
            (''portId'', JStr (ho_portId cfg from))]))])
       else route_request cfg now h from i meth params
   | Notification meth params \<Rightarrow>
       if meth = STREAM_METHOD then route_stream cfg now h from m
       else (h, route_notification h from meth params)
   | _ \<Rightarrow> demux h from m)"

section \<open>The hub as a state machine\<close>

text \<open>Everything that can happen to a hub.  Messages arrive on attached links only; an idle timer
  fires when it is due; the other timers and send failures name the request they were set for,
  as the source's closures do, and the timer of a request of the hub's own is cleared once the
  request is settled.\<close>

datatype hub_event =
    Receive nat message
  | Attach nat attach_opts
  | Detach nat
  | SetUplink "nat option"
  | SetLoopback "nat option"
  | ReleasePrefix string
  | RequestOn nat string json
  | WatchOn nat string json
  | WatchDispose nat nat
  | WatchPing nat nat string
  | WatchTimer nat nat
  | WatchSendFailed nat nat
  | IdleTimer string
  | RequestTimer nat nat nat
  | RouteSendFailed string nat string
  | RequestSendFailed nat nat string

definition commit :: "hub \<Rightarrow> (hub \<times> hub_out list) res \<Rightarrow> hub \<times> hub_out list" where
  "commit h r = (case r of Inl e \<Rightarrow> (h, [Threw e]) | Inr x \<Rightarrow> x)"

definition idle_due :: "hub \<Rightarrow> nat \<Rightarrow> string \<Rightarrow> bool" where
  "idle_due h now key = (case jm_get (h_pending h) key of
     None \<Rightarrow> False
   | Some p \<Rightarrow> (case pd_timer p of None \<Rightarrow> False | Some due \<Rightarrow> due \<le> int now))"

fun hub_step :: "hub_opts \<Rightarrow> hub \<Rightarrow> nat \<times> hub_event \<Rightarrow> hub \<times> hub_out list" where
  "hub_step cfg h (now, ev) = (case ev of
     Receive l m \<Rightarrow> if l \<in> set (h_links h) then on_message cfg now h l m else (h, [])
   | Attach l opts \<Rightarrow> commit h (attach h l opts)
   | Detach l \<Rightarrow> detach cfg h l
   | SetUplink l \<Rightarrow> commit h (set_uplink h l)
   | SetLoopback l \<Rightarrow> commit h (set_loopback h l)
   | ReleasePrefix p \<Rightarrow> snd (release_prefix h p)
   | RequestOn l meth params \<Rightarrow> request_on_link cfg now h l meth params
   | WatchOn l meth params \<Rightarrow> watch_on_link cfg now h l meth params
   | WatchDispose k l \<Rightarrow> watch_stop h k l True
   | WatchPing k l nonce \<Rightarrow> watch_ping cfg now h k l nonce
   | WatchTimer k l \<Rightarrow> (h, watch_established h k l)
   | WatchSendFailed k l \<Rightarrow> watch_stop h k l False
   | IdleTimer key \<Rightarrow> if idle_due h now key then on_idle_timeout cfg h key else (h, [])
   | RequestTimer k l ms \<Rightarrow> if k \<in> set (h_sinks h) then request_timeout h k l ms else (h, [])
   | RouteSendFailed key l err \<Rightarrow> route_send_failed cfg h key l err
   | RequestSendFailed k l err \<Rightarrow> request_send_failed h k l err)"

fun hub_run :: "hub_opts \<Rightarrow> hub \<Rightarrow> (nat \<times> hub_event) list \<Rightarrow> hub \<times> hub_out list" where
  "hub_run cfg h [] = (h, [])"
| "hub_run cfg h (e # es) = (case hub_step cfg h e of
     (h1, out1) \<Rightarrow> (case hub_run cfg h1 es of (h2, out2) \<Rightarrow> (h2, out1 @ out2)))"

end
