(* ===== verification/HubInv.thy ===== *)
theory HubInv
  imports Hub
begin

text \<open>
  The invariant of the hub and its consequences: the keys of the pending table are the texts of ids
  already given out, so a new id never collides; whatever the state refers to is attached;
  and an entry leaves the table only with a response to its origin, or because the origin is
  gone.  Each operation on the table is related to one of three updates: dropping an entry with
  the sink that waits for it, setting its timer, adding a fresh one.
\<close>

section \<open>Hub ids\<close>

lemma key_of_inj [simp]: "key_of a = key_of b \<longleftrightarrow> a = b"
  by (simp add: key_of_def hub_id_def)

lemma id_string_hub_id [simp]: "id_string (hub_id n) = key_of n"
  by (simp add: key_of_def)

lemma js_number_key_of: "IdNum (js_number (key_of n)) = hub_id n"
  by (simp add: key_of_def hub_id_def id_string_def js_number_num_to_string)

section \<open>The invariant\<close>

definition sink_of :: "origin \<Rightarrow> nat option" where
  "sink_of orig = (case orig of OLink _ \<Rightarrow> None | ORequest k _ \<Rightarrow> Some k | OWatch k _ \<Rightarrow> Some k)"

definition pending_inv :: "hub \<Rightarrow> bool" where
  "pending_inv h \<longleftrightarrow> jm_wf (h_pending h) \<and>
     (\<forall>key p. jm_get (h_pending h) key = Some p \<longrightarrow>
        (\<exists>n. n < h_nextId h \<and> key = key_of n \<and> (\<forall>k. sink_of (pd_origin p) = Some k \<longrightarrow> k = n))) \<and>
     (\<forall>k\<in>set (h_sinks h). \<exists>p. jm_get (h_pending h) (key_of k) = Some p \<and> sink_of (pd_origin p) = Some k)"

definition attached_origin :: "hub \<Rightarrow> pending \<Rightarrow> bool" where
  "attached_origin h p = (case pd_origin p of
     OLink l \<Rightarrow> l \<in> set (h_links h) \<and> pd_target p \<in> set (h_links h) | _ \<Rightarrow> True)"

lemma attached_origin_update [simp]:
  "attached_origin (h\<lparr>h_pending := x\<rparr>) p = attached_origin h p"
  "attached_origin (h\<lparr>h_nextId := n\<rparr>) p = attached_origin h p"
  "attached_origin (h\<lparr>h_sinks := ks\<rparr>) p = attached_origin h p"
  "attached_origin (h\<lparr>h_uplink := u\<rparr>) p = attached_origin h p"
  "attached_origin (h\<lparr>h_loopback := u\<rparr>) p = attached_origin h p"
  "attached_origin (h\<lparr>h_table := t\<rparr>) p = attached_origin h p"
  by (simp_all add: attached_origin_def cong: origin.case_cong)

definition links_inv :: "hub \<Rightarrow> bool" where
  "links_inv h \<longleftrightarrow> distinct (h_links h) \<and> ft_wf (h_table h) \<and>
     (\<forall>p l. ft_get (h_table h) p = Some l \<longrightarrow> l \<in> set (h_links h) \<and> validate_prefix p = None) \<and>
     (\<forall>l. h_uplink h = Some l \<longrightarrow> l \<in> set (h_links h)) \<and>
     (\<forall>l. h_loopback h = Some l \<longrightarrow> l \<in> set (h_links h)) \<and>
     (\<forall>key p. jm_get (h_pending h) key = Some p \<longrightarrow> attached_origin h p)"

definition hub_inv :: "hub \<Rightarrow> bool" where
  "hub_inv h \<longleftrightarrow> pending_inv h \<and> links_inv h"

lemma pending_key:
  "pending_inv h \<Longrightarrow> jm_get (h_pending h) key = Some p \<Longrightarrow> sink_of (pd_origin p) = Some k \<Longrightarrow> key = key_of k"
  unfolding pending_inv_def by blast

lemma sink_pending:
  "pending_inv h \<Longrightarrow> k \<in> set (h_sinks h) \<Longrightarrow>
     \<exists>p. jm_get (h_pending h) (key_of k) = Some p \<and> sink_of (pd_origin p) = Some k"
  unfolding pending_inv_def by blast

lemma links_pending: "links_inv h \<Longrightarrow> jm_get (h_pending h) key = Some p \<Longrightarrow> attached_origin h p"
  unfolding links_inv_def by blast

lemma sink_of_simps [simp]:
  "sink_of (OLink l) = None" "sink_of (ORequest k l) = Some k" "sink_of (OWatch k l) = Some k"
  by (simp_all add: sink_of_def)

lemma hub_inv_init [simp]: "hub_inv hub_init"
  by (simp add: hub_inv_def pending_inv_def links_inv_def hub_init_def)

section \<open>The three updates\<close>

definition drop_entry :: "hub \<Rightarrow> string \<Rightarrow> hub" where
  "drop_entry h key = h\<lparr>h_pending := jm_delete (h_pending h) key,
     h_sinks := filter (\<lambda>k. key_of k \<noteq> key) (h_sinks h)\<rparr>"

lemma drop_entry_simps [simp]:
  "h_links (drop_entry h key) = h_links h" "h_table (drop_entry h key) = h_table h"
  "h_uplink (drop_entry h key) = h_uplink h" "h_loopback (drop_entry h key) = h_loopback h"
  "h_nextId (drop_entry h key) = h_nextId h"
  "jm_get (h_pending (drop_entry h key)) k = (if k = key then None else jm_get (h_pending h) k)"
  "h_sinks (drop_entry h key) = filter (\<lambda>k. key_of k \<noteq> key) (h_sinks h)"
  by (simp_all add: drop_entry_def)

lemma pending_inv_drop: "pending_inv h \<Longrightarrow> pending_inv (drop_entry h key)"
  by (auto simp: pending_inv_def drop_entry_def)

lemma links_inv_drop: "links_inv h \<Longrightarrow> links_inv (drop_entry h key)"
  by (auto simp: links_inv_def attached_origin_def split: origin.splits)

lemma hub_inv_drop: "hub_inv h \<Longrightarrow> hub_inv (drop_entry h key)"
  by (simp add: hub_inv_def pending_inv_drop links_inv_drop)

lemma hub_inv_sinks: "hub_inv h \<Longrightarrow> hub_inv (h\<lparr>h_sinks := filter P (h_sinks h)\<rparr>)"
  by (auto simp: hub_inv_def pending_inv_def links_inv_def attached_origin_def split: origin.splits)

lemma arm_idle_get:
  "jm_get (h_pending (arm_idle cfg now h key)) k =
     (if k = key \<and> 0 < ho_idleMs cfg
      then map_option (\<lambda>p. p\<lparr>pd_timer := Some (int now + ho_idleMs cfg)\<rparr>) (jm_get (h_pending h) k)
      else jm_get (h_pending h) k)"
  by (auto simp: arm_idle_def split: option.split)

lemma arm_idle_simps [simp]:
  "h_links (arm_idle cfg now h key) = h_links h" "h_table (arm_idle cfg now h key) = h_table h"
  "h_uplink (arm_idle cfg now h key) = h_uplink h" "h_loopback (arm_idle cfg now h key) = h_loopback h"
  "h_nextId (arm_idle cfg now h key) = h_nextId h" "h_sinks (arm_idle cfg now h key) = h_sinks h"
  "jm_wf (h_pending h) \<Longrightarrow> jm_wf (h_pending (arm_idle cfg now h key))"
  by (auto simp: arm_idle_def split: option.split)

lemma hub_inv_update:
  assumes "hub_inv h" "jm_get (h_pending h) key = Some p" "pd_origin q = pd_origin p" "pd_target q = pd_target p"
  shows "hub_inv (h\<lparr>h_pending := jm_set (h_pending h) key q\<rparr>)" (is "hub_inv ?h")
proof -
  have get: "jm_get (h_pending ?h) k = Some r \<Longrightarrow> \<exists>r'. jm_get (h_pending h) k = Some r' \<and>
      pd_origin r = pd_origin r' \<and> pd_target r = pd_target r'" for k r
    using assms(2-4) by (auto split: if_splits)
  have "pending_inv ?h"
    unfolding pending_inv_def
  proof (intro conjI allI impI ballI)
    show "jm_wf (h_pending ?h)" using assms(1) by (simp add: hub_inv_def pending_inv_def)
  next
    fix k r assume "jm_get (h_pending ?h) k = Some r"
    then obtain r' where "jm_get (h_pending h) k = Some r'" "pd_origin r = pd_origin r'" using get by blast
    with assms(1) show "\<exists>n. n < h_nextId ?h \<and> k = key_of n \<and> (\<forall>k. sink_of (pd_origin r) = Some k \<longrightarrow> k = n)"
      by (simp add: hub_inv_def pending_inv_def)
  next
    fix k assume "k \<in> set (h_sinks ?h)"
    then obtain r where "jm_get (h_pending h) (key_of k) = Some r" "sink_of (pd_origin r) = Some k"
      using assms(1) unfolding hub_inv_def pending_inv_def by auto
    with assms(2,3) show "\<exists>p. jm_get (h_pending ?h) (key_of k) = Some p \<and> sink_of (pd_origin p) = Some k"
      by (cases "key = key_of k") auto
  qed
  moreover have "links_inv ?h"
    unfolding links_inv_def
  proof (intro conjI allI impI)
    fix k r assume "jm_get (h_pending ?h) k = Some r"
    then obtain r' where "jm_get (h_pending h) k = Some r'" "pd_origin r = pd_origin r'" "pd_target r = pd_target r'"
      using get by blast
    moreover from this have "attached_origin h r = attached_origin h r'"
      by (cases "pd_origin r'") (simp_all add: attached_origin_def)
    moreover have "links_inv h" using assms(1) by (simp add: hub_inv_def)
    ultimately have "attached_origin h r" using links_pending by blast
    then show "attached_origin ?h r" by simp
  qed (use assms(1) in \<open>auto simp: hub_inv_def links_inv_def\<close>)
  ultimately show ?thesis by (simp add: hub_inv_def)
qed

lemma hub_inv_arm: "hub_inv h \<Longrightarrow> hub_inv (arm_idle cfg now h key)"
  by (auto simp: arm_idle_def intro: hub_inv_update split: option.split)

lemma reset_idle_eq: "reset_idle cfg now h key = arm_idle cfg now h key"
  by (auto simp: reset_idle_def arm_idle_def split: option.split)

lemma park_eq:
  "park cfg now h entry = (h_nextId h, arm_idle cfg now
     (h\<lparr>h_nextId := h_nextId h + 1, h_pending := jm_set (h_pending h) (key_of (h_nextId h)) (entry (h_nextId h))\<rparr>)
     (key_of (h_nextId h)))"
  by (simp add: park_def Let_def)

lemma fresh_key: "pending_inv h \<Longrightarrow> jm_get (h_pending h) (key_of (h_nextId h)) = None"
proof (rule ccontr)
  assume inv: "pending_inv h" and "jm_get (h_pending h) (key_of (h_nextId h)) \<noteq> None"
  then obtain n where "n < h_nextId h" "key_of (h_nextId h) = key_of n"
    unfolding pending_inv_def by blast
  then show False by simp
qed

lemma hub_inv_park:
  assumes "hub_inv h" "attached_origin h (entry (h_nextId h))"
    "\<And>k. sink_of (pd_origin (entry (h_nextId h))) = Some k \<Longrightarrow> k = h_nextId h"
  shows "hub_inv (h\<lparr>h_nextId := h_nextId h + 1, h_pending := jm_set (h_pending h) (key_of (h_nextId h)) (entry (h_nextId h))\<rparr>)"
    (is "hub_inv ?h")
proof -
  have fresh: "jm_get (h_pending h) (key_of (h_nextId h)) = None"
    using assms(1) fresh_key by (simp add: hub_inv_def)
  have "pending_inv ?h"
    unfolding pending_inv_def
  proof (intro conjI allI impI ballI)
    show "jm_wf (h_pending ?h)" using assms(1) by (simp add: hub_inv_def pending_inv_def)
  next
    fix key p assume g: "jm_get (h_pending ?h) key = Some p"
    show "\<exists>n. n < h_nextId ?h \<and> key = key_of n \<and> (\<forall>k. sink_of (pd_origin p) = Some k \<longrightarrow> k = n)"
    proof (cases "key = key_of (h_nextId h)")
      case True
      with g assms(3) show ?thesis by (intro exI [of _ "h_nextId h"]) auto
    next
      case False
      with g have "jm_get (h_pending h) key = Some p" by simp
      then obtain n where "n < h_nextId h" "key = key_of n" "\<forall>k. sink_of (pd_origin p) = Some k \<longrightarrow> k = n"
        using assms(1) unfolding hub_inv_def pending_inv_def by blast
      then show ?thesis by (intro exI [of _ n]) simp
    qed
  next
    fix k assume "k \<in> set (h_sinks ?h)"
    then obtain p where "jm_get (h_pending h) (key_of k) = Some p" "sink_of (pd_origin p) = Some k"
      using assms(1) unfolding hub_inv_def pending_inv_def by auto
    with fresh show "\<exists>p. jm_get (h_pending ?h) (key_of k) = Some p \<and> sink_of (pd_origin p) = Some k"
      by (intro exI [of _ p]) auto
  qed
  moreover have "links_inv ?h"
    using assms(1,2) unfolding hub_inv_def links_inv_def by (auto split: if_splits)
  ultimately show ?thesis by (simp add: hub_inv_def)
qed

section \<open>Delivering to an origin\<close>

lemma finish_inv: "hub_inv h \<Longrightarrow> hub_inv (fst (finish h k r))"
  by (simp add: finish_def hub_inv_sinks)

lemma filter_other: "k \<notin> set ks \<Longrightarrow> filter (\<lambda>j. j \<noteq> k) ks = ks"
  by (induction ks) auto

lemma finish_drop: "fst (finish (delete_pending h (key_of k)) k r) = drop_entry h (key_of k)"
  by (simp add: finish_def delete_pending_def drop_entry_def filter_other)

lemma watch_stop_drop: "fst (watch_stop (delete_pending h (key_of k)) k l False) = drop_entry h (key_of k)"
  by (simp add: watch_stop_def delete_pending_def pending_origin_def drop_entry_def filter_other)

text \<open>A response to the entry's origin drops the entry, whoever the origin is.\<close>

lemma deliver_response_drop:
  assumes "pending_inv h" "jm_get (h_pending h) key = Some p" "is_response m"
  shows "fst (deliver (delete_pending h key) (pd_origin p) m) = drop_entry h key"
proof (cases "pd_origin p")
  case (OLink l)
  have "key_of k \<noteq> key" if "k \<in> set (h_sinks h)" for k
    using sink_pending [OF assms(1) that] assms(2) OLink by auto
  then have "filter (\<lambda>k. key_of k \<noteq> key) (h_sinks h) = h_sinks h" by (simp add: filter_id_conv)
  with OLink show ?thesis by (simp add: deliver_def delete_pending_def drop_entry_def)
next
  case (ORequest k l)
  with pending_key [OF assms(1,2)] show ?thesis by (simp add: deliver_def finish_drop)
next
  case (OWatch k l)
  have "\<not> is_notification m" using assms(3) by (cases m) (simp_all add: is_response_def is_notification_def)
  with OWatch pending_key [OF assms(1,2)] assms(3) show ?thesis
    by (simp add: deliver_def watch_receive_def watch_stop_drop)
qed

lemma reply_error_drop:
  assumes "pending_inv h" "jm_get (h_pending h) key = Some p"
  shows "fst (reply_error cfg (delete_pending h key) (pd_origin p) i code msg) = drop_entry h key"
  unfolding reply_error_def by (rule deliver_response_drop [OF assms]) (simp add: is_response_def)

lemma watch_stop_inv:
  assumes "hub_inv h"
  shows "hub_inv (fst (watch_stop h k l cancel))"
proof (cases "k \<in> set (h_sinks h) \<and> pending_origin h (key_of k) = Some (OWatch k l)")
  case True
  then have "fst (watch_stop h k l cancel) = drop_entry h (key_of k)"
    by (simp add: watch_stop_def delete_pending_def pending_origin_def drop_entry_def)
  then show ?thesis using assms hub_inv_drop by simp
next
  case False
  then have "fst (watch_stop h k l cancel) = h \<or> fst (watch_stop h k l cancel) = h\<lparr>h_sinks := filter (\<lambda>j. j \<noteq> k) (h_sinks h)\<rparr>"
    by (auto simp: watch_stop_def pending_origin_def Let_def)
  then show ?thesis using assms hub_inv_sinks by auto
qed

lemma deliver_inv: "hub_inv h \<Longrightarrow> hub_inv (fst (deliver h orig m))"
proof (cases orig)
  case (OWatch k l)
  assume "hub_inv h"
  with OWatch watch_stop_inv show ?thesis by (simp add: deliver_def watch_receive_def Let_def)
qed (simp_all add: deliver_def finish_inv)

section \<open>Each operation keeps the invariant\<close>

lemma demux_inv:
  assumes "hub_inv h"
  shows "hub_inv (fst (demux h from m))"
proof -
  have "is_response (with_id m i) \<or> response_id m = None" for i
    by (cases m) (simp_all add: with_id_def is_response_def response_id_def)
  then show ?thesis
    using assms deliver_response_drop [of h] hub_inv_drop [OF assms]
    by (auto simp: demux_def hub_inv_def split: option.split)
qed

lemma route_stream_inv: "hub_inv h \<Longrightarrow> hub_inv (fst (route_stream cfg now h from m))"
  by (auto simp: route_stream_def Let_def reset_idle_eq hub_inv_arm deliver_inv split: option.split prod.split)

lemma route_send_failed_inv: "hub_inv h \<Longrightarrow> hub_inv (fst (route_send_failed cfg h key l err))"
  using hub_inv_drop by (auto simp: route_send_failed_def reply_error_drop hub_inv_def split: option.split)

lemma on_idle_timeout_inv: "hub_inv h \<Longrightarrow> hub_inv (fst (on_idle_timeout cfg h key))"
  using hub_inv_drop
  by (auto simp: on_idle_timeout_def hub_inv_def reply_error_drop [symmetric] split: option.split prod.split) (metis fst_conv hub_inv_def reply_error_drop)+

lemma request_timeout_drop:
  "fst (request_timeout h k l ms) = (if pending_origin h (key_of k) = Some (ORequest k l) then drop_entry h (key_of k) else h)"
  by (auto simp: request_timeout_def pending_origin_def finish_drop split: option.split prod.split)
    (metis finish_drop fst_conv)

lemma request_send_failed_drop:
  "fst (request_send_failed h k l err) =
     (if pending_origin h (key_of k) = Some (ORequest k l) then drop_entry h (key_of k) else h)"
  by (simp add: request_send_failed_def finish_drop)

lemma sinks_append_inv:
  assumes "hub_inv h" "jm_get (h_pending h) (key_of n) = Some p" "sink_of (pd_origin p) = Some n"
  shows "hub_inv (h\<lparr>h_sinks := h_sinks h @ [n]\<rparr>)"
proof -
  have "pending_inv (h\<lparr>h_sinks := h_sinks h @ [n]\<rparr>)"
    using assms unfolding hub_inv_def pending_inv_def by auto
  moreover have "links_inv (h\<lparr>h_sinks := h_sinks h @ [n]\<rparr>)"
    using assms(1) by (simp add: hub_inv_def links_inv_def)
  ultimately show ?thesis by (simp add: hub_inv_def)
qed

lemma park_sink_inv:
  assumes "hub_inv h" "park cfg now h entry = (n, h1)" "sink_of (pd_origin (entry (h_nextId h))) = Some (h_nextId h)"
  shows "hub_inv (h1\<lparr>h_sinks := h_sinks h1 @ [n]\<rparr>)"
proof -
  let ?h = "h\<lparr>h_nextId := h_nextId h + 1, h_pending := jm_set (h_pending h) (key_of (h_nextId h)) (entry (h_nextId h))\<rparr>"
  have n: "n = h_nextId h" "h1 = arm_idle cfg now ?h (key_of n)" using assms(2) by (auto simp: park_eq)
  have "attached_origin h (entry (h_nextId h))"
    using assms(3) by (cases "pd_origin (entry (h_nextId h))") (simp_all add: attached_origin_def)
  then have "hub_inv ?h" using assms(1,3) by (intro hub_inv_park) auto
  then have inv: "hub_inv h1" by (simp add: n hub_inv_arm)
  have "jm_get (h_pending h1) (key_of n) \<noteq> None" by (simp add: n arm_idle_get)
  then obtain p where p: "jm_get (h_pending h1) (key_of n) = Some p" by blast
  then have "pd_origin p = pd_origin (entry n)" by (auto simp: n arm_idle_get split: if_splits)
  with sinks_append_inv [OF inv p] assms(3) n(1) show ?thesis by simp
qed

lemma request_on_link_inv: "hub_inv h \<Longrightarrow> hub_inv (fst (request_on_link cfg now h l meth params))"
  by (auto simp: request_on_link_def split: prod.split intro: park_sink_inv)

lemma watch_on_link_inv: "hub_inv h \<Longrightarrow> hub_inv (fst (watch_on_link cfg now h l meth params))"
  by (auto simp: watch_on_link_def split: prod.split intro: park_sink_inv)

lemma watch_ping_inv: "hub_inv h \<Longrightarrow> hub_inv (fst (watch_ping cfg now h k l nonce))"
  by (simp add: watch_ping_def watch_stop_inv reset_idle_eq hub_inv_arm)

lemma resolved_link_attached:
  assumes "links_inv h" "resolved_link (resolve_method h meth from) = Some t"
  shows "t \<in> set (h_links h)"
proof -
  have "l \<in> set (h_links h)" if "longest_prefix_match (h_table h) s = Some (p, l)" for s p l
    using that assms(1) unfolding longest_prefix_match_def walk_up_iff links_inv_def by blast
  with assms show ?thesis
    by (auto simp: resolve_method_def resolved_link_def links_inv_def
        split: option.splits parsed_method.splits if_splits)
qed

lemma route_request_inv:
  assumes "hub_inv h" "from \<in> set (h_links h)"
  shows "hub_inv (fst (route_request cfg now h from i meth params))"
proof (cases "resolved_link (resolve_method h meth from)")
  case None
  with assms(1) show ?thesis by (simp add: route_request_def Let_def reply_error_def deliver_def)
next
  case (Some t)
  let ?e = "\<lambda>n :: nat. \<lparr>pd_origin = OLink from, pd_originalId = i, pd_method = meth,
              pd_startedAtMs = now, pd_target = t, pd_timer = None\<rparr>"
  have "attached_origin h (?e (h_nextId h))"
    using assms resolved_link_attached [OF _ Some] by (simp add: attached_origin_def hub_inv_def)
  from hub_inv_park [of h ?e, OF assms(1) this] Some show ?thesis
    by (simp add: route_request_def Let_def park_eq hub_inv_arm)
qed

lemma on_message_inv: "hub_inv h \<Longrightarrow> from \<in> set (h_links h) \<Longrightarrow> hub_inv (fst (on_message cfg now h from m))"
  by (cases m) (simp_all add: on_message_def route_request_inv route_stream_inv demux_inv)

section \<open>Attaching and detaching\<close>

lemma validate_claims_None:
  "validate_claims h seen ps = None \<Longrightarrow>
     \<forall>p\<in>set ps. validate_prefix p = None \<and> ft_get (h_table h) p = None \<and> p \<notin> set seen"
proof (induction ps arbitrary: seen)
  case (Cons p ps)
  then have "validate_prefix_claim h p = None" "p \<notin> set seen" "validate_claims h (js_add seen p) ps = None"
    by (auto split: option.splits if_splits)
  with Cons.IH [of "js_add seen p"] show ?case
    by (auto simp: validate_prefix_claim_def ft_has_def jm_has_iff ft_get_def not_Some_eq split: option.splits if_splits)
qed simp

lemma claim_all:
  "h_links (foldl (claim_raw l) h ps) = h_links h" "h_pending (foldl (claim_raw l) h ps) = h_pending h"
  "h_uplink (foldl (claim_raw l) h ps) = h_uplink h" "h_loopback (foldl (claim_raw l) h ps) = h_loopback h"
  "h_nextId (foldl (claim_raw l) h ps) = h_nextId h" "h_sinks (foldl (claim_raw l) h ps) = h_sinks h"
  "ft_get (h_table (foldl (claim_raw l) h ps)) p = (if p \<in> set ps then Some l else ft_get (h_table h) p)"
  "ft_wf (h_table h) \<Longrightarrow> ft_wf (h_table (foldl (claim_raw l) h ps))"
  by (induction ps arbitrary: h) (simp_all add: claim_raw_def)

lemma attach_fields:
  assumes "attach h l opts = Inr (h', out)"
  shows "h_links h' = (if l \<in> set (h_links h) then h_links h else h_links h @ [l])"
    "h_pending h' = h_pending h" "h_uplink h' = h_uplink h" "h_nextId h' = h_nextId h" "h_sinks h' = h_sinks h"
    "h_loopback h' = (if at_exclusive opts then Some l else h_loopback h)"
    "ft_get (h_table h') p = (if p \<in> set (at_prefixes opts) then Some l else ft_get (h_table h) p)"
    "ft_wf (h_table h) \<Longrightarrow> ft_wf (h_table h')"
    "\<forall>p\<in>set (at_prefixes opts). validate_prefix p = None \<and> ft_get (h_table h) p = None"
  using assms validate_claims_None [of h "[]" "at_prefixes opts"]
  by (auto simp: attach_def Let_def claim_all split: option.splits if_splits)

lemma attach_inv_weak:
  assumes "pending_inv h" "links_inv (h\<lparr>h_uplink := None\<rparr>)" "\<forall>u. h_uplink h = Some u \<longrightarrow> u = l \<or> u \<in> set (h_links h)"
    "attach h l opts = Inr (h', out)"
  shows "hub_inv h'"
proof -
  note f = attach_fields [OF assms(4)]
  have "pending_inv h'" using assms(1) by (simp add: pending_inv_def f)
  moreover have "links_inv h'"
    unfolding links_inv_def
  proof (intro conjI allI impI)
    show "distinct (h_links h')" "ft_wf (h_table h')"
      using assms(2) f(1,8) by (auto simp: links_inv_def)
    show "l' \<in> set (h_links h')" "validate_prefix p = None" if "ft_get (h_table h') p = Some l'" for p l'
      using that assms(2) f(1,7,9) by (auto simp: links_inv_def split: if_splits)
    show "u \<in> set (h_links h')" if "h_uplink h' = Some u" for u
      using that assms(3) f(1,3) by auto
    show "u \<in> set (h_links h')" if "h_loopback h' = Some u" for u
      using that assms(2) f(1,6) by (auto simp: links_inv_def split: if_splits)
    show "attached_origin h' p" if "jm_get (h_pending h') key = Some p" for key p
    proof -
      have "attached_origin (h\<lparr>h_uplink := None\<rparr>) p" using that assms(2) f(2) by (auto simp: links_inv_def)
      then show ?thesis using f(1) by (auto simp: attached_origin_def split: origin.splits)
    qed
  qed
  ultimately show ?thesis by (simp add: hub_inv_def)
qed

lemma attach_inv: "hub_inv h \<Longrightarrow> attach h l opts = Inr (h', out) \<Longrightarrow> hub_inv h'"
  by (rule attach_inv_weak [of h]) (auto simp: hub_inv_def links_inv_def)

lemma set_uplink_inv:
  assumes "hub_inv h" "set_uplink h l = Inr (h', out)"
  shows "hub_inv h'"
proof (cases l)
  case None
  with assms have "h' = h\<lparr>h_uplink := None\<rparr>" by (auto simp: set_uplink_def Let_def)
  with assms(1) show ?thesis
    by (auto simp: hub_inv_def pending_inv_def links_inv_def)
next
  case (Some u)
  with assms(2) obtain out' where a: "attach (h\<lparr>h_uplink := Some u\<rparr>) u default_attach = Inr (h', out')"
    by (auto simp: set_uplink_def Let_def res_bind_Inr_iff)
  show ?thesis
    by (rule attach_inv_weak [OF _ _ _ a])
      (use assms(1) in \<open>auto simp: hub_inv_def pending_inv_def links_inv_def\<close>)
qed

lemma no_loopback_inv: "hub_inv h \<Longrightarrow> hub_inv (h\<lparr>h_loopback := None\<rparr>)"
  by (auto simp: hub_inv_def pending_inv_def links_inv_def)

lemma set_loopback_inv: "hub_inv h \<Longrightarrow> set_loopback h l = Inr (h', out) \<Longrightarrow> hub_inv h'"
  by (auto simp: set_loopback_def no_loopback_inv dest: attach_inv split: option.splits if_splits)

lemma commit_inv:
  "hub_inv h \<Longrightarrow> (\<And>h' out. r = Inr (h', out) \<Longrightarrow> hub_inv h') \<Longrightarrow> hub_inv (fst (commit h r))"
  by (cases r) (auto simp: commit_def)

lemma release_prefix_inv: "hub_inv h \<Longrightarrow> hub_inv (fst (snd (release_prefix h p)))"
proof -
  assume inv: "hub_inv h"
  define t where "t = snd (ft_delete (h_table h) p)"
  have "fst (snd (release_prefix h p)) = h\<lparr>h_table := t\<rparr>"
    by (simp add: release_prefix_def t_def split: prod.split)
  moreover have "ft_wf t" "\<forall>q l. ft_get t q = Some l \<longrightarrow> ft_get (h_table h) q = Some l"
    using inv fwd.lookup_release [of "h_table h"] fwd.valid_release [of "h_table h"]
    by (auto simp: t_def hub_inv_def links_inv_def split: if_splits)
  ultimately show ?thesis
    using inv by (fastforce simp: hub_inv_def pending_inv_def links_inv_def)
qed

definition concerns :: "nat \<Rightarrow> pending \<Rightarrow> bool" where
  "concerns link p \<longleftrightarrow> pd_origin p = OLink link \<or> pd_target p = link"

lemma delete_olink:
  assumes "pending_inv h" "jm_get (h_pending h) key = Some p" "pd_origin p = OLink l"
  shows "delete_pending h key = drop_entry h key"
  using deliver_response_drop [OF assms(1,2), of "Success None JNull"] assms(3)
  by (simp add: deliver_def is_response_def)

lemma detach_pending_state:
  "pending_inv h \<Longrightarrow> \<forall>(k, p)\<in>set ps. jm_get (h_pending h) k = Some p \<Longrightarrow> distinct (map fst ps) \<Longrightarrow>
   fst (detach_pending cfg link h ps) = foldl drop_entry h (map fst (filter (\<lambda>(k, p). concerns link p) ps))"
proof (induction ps arbitrary: h)
  case (Cons kp ps)
  obtain key p where kp: "kp = (key, p)" by (cases kp)
  have get: "jm_get (h_pending h) key = Some p" using Cons.prems(2) kp by simp
  define h1 where "h1 = (if concerns link p then drop_entry h key else h)"
  have "pending_inv h1" using Cons.prems(1) by (simp add: h1_def pending_inv_drop)
  moreover have "\<forall>(k, p)\<in>set ps. jm_get (h_pending h1) k = Some p"
    using Cons.prems(2,3) kp by (force simp: h1_def)
  ultimately have ih: "fst (detach_pending cfg link h1 ps) =
      foldl drop_entry h1 (map fst (filter (\<lambda>(k, p). concerns link p) ps))"
    using Cons.IH Cons.prems(3) by simp
  have "fst (detach_pending cfg link h (kp # ps)) = fst (detach_pending cfg link h1 ps)"
    using delete_olink [OF Cons.prems(1) get, of link] reply_error_drop [OF Cons.prems(1) get]
    by (auto simp: kp h1_def concerns_def split: prod.split) (metis fst_conv)+
  with ih show ?case by (simp add: kp h1_def)
qed simp

lemma foldl_drop:
  "jm_get (h_pending (foldl drop_entry h ks)) k = (if k \<in> set ks then None else jm_get (h_pending h) k)"
  "h_links (foldl drop_entry h ks) = h_links h" "h_table (foldl drop_entry h ks) = h_table h"
  "h_uplink (foldl drop_entry h ks) = h_uplink h" "h_loopback (foldl drop_entry h ks) = h_loopback h"
  "pending_inv h \<Longrightarrow> pending_inv (foldl drop_entry h ks)" "h_nextId (foldl drop_entry h ks) = h_nextId h"
  by (induction ks arbitrary: h) (simp_all add: pending_inv_drop)

definition unlinked :: "hub \<Rightarrow> nat \<Rightarrow> hub" where
  "unlinked h link = (let h1 = h\<lparr>h_links := filter (\<lambda>l. l \<noteq> link) (h_links h),
                   h_table := snd (ft_deleteByValue (h_table h) link)\<rparr>;
            h2 = (if h_uplink h1 = Some link then h1\<lparr>h_uplink := None\<rparr> else h1) in
        if h_loopback h2 = Some link then h2\<lparr>h_loopback := None\<rparr> else h2)"

lemma unlinked_simps [simp]:
  "h_pending (unlinked h link) = h_pending h" "h_links (unlinked h link) = filter (\<lambda>l. l \<noteq> link) (h_links h)"
  "h_table (unlinked h link) = snd (ft_deleteByValue (h_table h) link)"
  "h_nextId (unlinked h link) = h_nextId h" "h_sinks (unlinked h link) = h_sinks h"
  "h_uplink (unlinked h link) = (if h_uplink h = Some link then None else h_uplink h)"
  "h_loopback (unlinked h link) = (if h_loopback h = Some link then None else h_loopback h)"
  by (simp_all add: unlinked_def Let_def)

lemma detach_eq:
  "link \<in> set (h_links h) \<Longrightarrow> detach cfg h link =
     (case detach_pending cfg link (unlinked h link) (h_pending h) of (h', out) \<Rightarrow> (h', out @ [RoutingChanged]))"
  unfolding unlinked_simps(1) [of h link, symmetric] by (simp only: detach_def unlinked_def Let_def if_not_P not_not if_False)

lemma detach_state:
  assumes "hub_inv h" "link \<in> set (h_links h)" "h' = fst (detach cfg h link)"
  shows "h_links h' = filter (\<lambda>l. l \<noteq> link) (h_links h)"
    "ft_wf (h_table h')" "ft_get (h_table h') p = (if ft_get (h_table h) p = Some link then None else ft_get (h_table h) p)"
    "h_uplink h' = (if h_uplink h = Some link then None else h_uplink h)"
    "h_loopback h' = (if h_loopback h = Some link then None else h_loopback h)"
    "jm_get (h_pending h') key =
       (case jm_get (h_pending h) key of None \<Rightarrow> None | Some p \<Rightarrow> if concerns link p then None else Some p)"
    "pending_inv h'" "h_nextId h' = h_nextId h"
proof -
  define ks where "ks = map fst (filter (\<lambda>(k, p). concerns link p) (h_pending h))"
  let ?h3 = "unlinked h link"
  have inv3: "pending_inv ?h3" using assms(1) by (simp add: hub_inv_def pending_inv_def)
  have wf: "jm_wf (h_pending h)" "ft_wf (h_table h)" using assms(1) by (simp_all add: hub_inv_def pending_inv_def links_inv_def)
  have "fst (detach_pending cfg link ?h3 (h_pending h)) = foldl drop_entry ?h3 ks"
    unfolding ks_def
    by (rule detach_pending_state [OF inv3])
      (use wf(1) jm_get_wfI [OF wf(1)] in \<open>auto simp: jm_wf_def\<close>)
  then have h': "h' = foldl drop_entry ?h3 ks"
    unfolding assms(3) detach_eq [OF assms(2)] by (simp add: case_prod_unfold)
  have ks: "key \<in> set ks \<longleftrightarrow> (\<exists>p. jm_get (h_pending h) key = Some p \<and> concerns link p)" for key
  proof
    assume "key \<in> set ks"
    then obtain p where "(key, p) \<in> set (h_pending h)" "concerns link p" by (auto simp: ks_def)
    with jm_get_wfI [OF wf(1)] show "\<exists>p. jm_get (h_pending h) key = Some p \<and> concerns link p" by blast
  next
    assume "\<exists>p. jm_get (h_pending h) key = Some p \<and> concerns link p"
    then obtain p where "(key, p) \<in> set (h_pending h)" "concerns link p" using jm_get_SomeD by fast
    then have "(key, p) \<in> set (filter (\<lambda>(k, p). concerns link p) (h_pending h))" by simp
    then show "key \<in> set ks" unfolding ks_def by (metis fst_conv image_eqI set_map)
  qed
  show "h_links h' = filter (\<lambda>l. l \<noteq> link) (h_links h)" "ft_wf (h_table h')"
    "ft_get (h_table h') p = (if ft_get (h_table h) p = Some link then None else ft_get (h_table h) p)"
    "h_uplink h' = (if h_uplink h = Some link then None else h_uplink h)"
    "h_loopback h' = (if h_loopback h = Some link then None else h_loopback h)" "pending_inv h'" "h_nextId h' = h_nextId h"
    using wf(2) fwd.lookup_disown [OF wf(2)] inv3 by (simp_all add: h' foldl_drop)
  show "jm_get (h_pending h') key =
       (case jm_get (h_pending h) key of None \<Rightarrow> None | Some p \<Rightarrow> if concerns link p then None else Some p)"
    unfolding h' foldl_drop(1) ks by (auto split: option.split)
qed

lemma detach_inv: "hub_inv h \<Longrightarrow> hub_inv (fst (detach cfg h link))"
proof (cases "link \<in> set (h_links h)")
  case True
  assume inv: "hub_inv h"
  define h' where "h' = fst (detach cfg h link)"
  note d = detach_state [OF inv True h'_def]
  have "links_inv h'"
    unfolding links_inv_def
  proof (intro conjI allI impI)
    show "distinct (h_links h')" "ft_wf (h_table h')" using inv d(1,2) by (simp_all add: hub_inv_def links_inv_def)
    show "l \<in> set (h_links h')" "validate_prefix p = None" if "ft_get (h_table h') p = Some l" for p l
      using that inv by (auto simp: d(1,3) hub_inv_def links_inv_def split: if_splits)
    show "l \<in> set (h_links h')" if "h_uplink h' = Some l" for l
      using that inv by (auto simp: d(1,4) hub_inv_def links_inv_def split: if_splits)
    show "l \<in> set (h_links h')" if "h_loopback h' = Some l" for l
      using that inv by (auto simp: d(1,5) hub_inv_def links_inv_def split: if_splits)
    show "attached_origin h' p" if "jm_get (h_pending h') key = Some p" for key p
    proof -
      from that have "jm_get (h_pending h) key = Some p" "\<not> concerns link p"
        by (auto simp: d(6) split: option.splits if_splits)
      moreover have "links_inv h" using inv by (simp add: hub_inv_def)
      ultimately show ?thesis using links_pending [of h key p]
        by (auto simp: attached_origin_def concerns_def d(1) split: origin.splits)
    qed
  qed
  with d(7) show ?thesis by (simp add: hub_inv_def h'_def)
next
  case False
  assume "hub_inv h"
  with False show ?thesis by (simp add: detach_def)
qed

section \<open>Every step keeps the invariant\<close>

lemma request_timers_inv:
  assumes "hub_inv h"
  shows "hub_inv (fst (request_timeout h k l ms))" "hub_inv (fst (request_send_failed h k l err))"
  using assms by (simp_all add: request_timeout_drop request_send_failed_drop hub_inv_drop)

lemmas link_event_inv = attach_inv set_uplink_inv set_loopback_inv

lemmas traffic_inv = on_message_inv detach_inv release_prefix_inv request_on_link_inv watch_on_link_inv
  watch_stop_inv watch_ping_inv on_idle_timeout_inv route_send_failed_inv request_timers_inv

lemma hub_step_inv: "hub_inv h \<Longrightarrow> hub_inv (fst (hub_step cfg h e))"
proof -
  assume inv: "hub_inv h"
  obtain now ev where e: "e = (now, ev)" by (cases e)
  have "hub_inv (fst (commit h (attach h l opts)))" "hub_inv (fst (commit h (set_uplink h u)))"
    "hub_inv (fst (commit h (set_loopback h u)))" for l opts u
    using inv by (auto intro: commit_inv link_event_inv)
  with inv show ?thesis by (cases ev) (simp_all add: e traffic_inv)
qed

lemma hub_run_inv: "hub_inv h \<Longrightarrow> hub_inv (fst (hub_run cfg h es))"
proof (induction es arbitrary: h)
  case (Cons e es)
  from Cons.IH [OF hub_step_inv [OF Cons.prems, of cfg e]] show ?case
    by (simp split: prod.split) (metis fst_conv)
qed simp

end
