(* ===== verification/HubCorrect.thy ===== *)
theory HubCorrect
  imports HubInv
begin

text \<open>
  What the hub promises its links, from the invariant of \<^verbatim>\<open>HubInv\<close>: where a message goes, that a
  response finds the origin of its request and nobody else's, that no request is lost in silence,
  that an idle one is cancelled and failed, and that a detached link leaves no trace.
\<close>

section \<open>How the pending table evolves\<close>

text \<open>Over any stretch of time an id that was given out either keeps its entry, up to the timer,
  or has none; it never gets another.\<close>

definition evolves :: "hub \<Rightarrow> hub \<Rightarrow> bool" where
  "evolves h h' \<longleftrightarrow> h_nextId h \<le> h_nextId h' \<and>
     (\<forall>n q. n < h_nextId h \<longrightarrow> jm_get (h_pending h') (key_of n) = Some q \<longrightarrow>
        (\<exists>p t. jm_get (h_pending h) (key_of n) = Some p \<and> q = p\<lparr>pd_timer := t\<rparr>))"

lemma evolvesD:
  "evolves h h' \<Longrightarrow> n < h_nextId h \<Longrightarrow> jm_get (h_pending h') (key_of n) = Some q \<Longrightarrow>
     \<exists>p t. jm_get (h_pending h) (key_of n) = Some p \<and> q = p\<lparr>pd_timer := t\<rparr>"
  unfolding evolves_def by blast

lemma evolves_sub:
  assumes "h_nextId h \<le> h_nextId h'"
    "\<And>n q. jm_get (h_pending h') (key_of n) = Some q \<Longrightarrow> n < h_nextId h \<Longrightarrow>
       \<exists>p t. jm_get (h_pending h) (key_of n) = Some p \<and> q = p\<lparr>pd_timer := t\<rparr>"
  shows "evolves h h'"
  using assms by (simp add: evolves_def)

lemma timer_same: "\<exists>t. (p :: pending) = p\<lparr>pd_timer := t\<rparr>"
  by (intro exI [of _ "pd_timer p"]) simp

lemma evolves_same: "h_pending h' = h_pending h \<Longrightarrow> h_nextId h' = h_nextId h \<Longrightarrow> evolves h h'"
  using timer_same by (simp add: evolves_def)

lemma evolves_refl [simp]: "evolves h h"
  by (rule evolves_same) simp_all

lemma evolves_trans: "evolves h1 h2 \<Longrightarrow> evolves h2 h3 \<Longrightarrow> evolves h1 h3"
proof (rule evolves_sub)
  assume e: "evolves h1 h2" "evolves h2 h3"
  then show "h_nextId h1 \<le> h_nextId h3" by (simp add: evolves_def)
  fix n q assume q: "jm_get (h_pending h3) (key_of n) = Some q" "n < h_nextId h1"
  then have "n < h_nextId h2" using e(1) by (simp add: evolves_def)
  with e(2) q obtain p t where p: "jm_get (h_pending h2) (key_of n) = Some p" "q = p\<lparr>pd_timer := t\<rparr>"
    using evolvesD by blast
  from evolvesD [OF e(1) q(2) p(1)] obtain r u where
    "jm_get (h_pending h1) (key_of n) = Some r" "p = r\<lparr>pd_timer := u\<rparr>" by blast
  with p(2) show "\<exists>p t. jm_get (h_pending h1) (key_of n) = Some p \<and> q = p\<lparr>pd_timer := t\<rparr>"
    by (intro exI [of _ r] exI [of _ t]) simp
qed

lemma evolves_drop [simp]: "evolves h (drop_entry h key)"
  using timer_same by (auto simp: evolves_def split: if_splits)

lemma evolves_sinks [simp]: "evolves h (h\<lparr>h_sinks := ks\<rparr>)"
  by (rule evolves_same) simp_all

lemma evolves_sinks_iff [simp]: "evolves h (h'\<lparr>h_sinks := ks\<rparr>) = evolves h h'"
  by (simp add: evolves_def)

lemma evolves_arm [simp]: "evolves h (arm_idle cfg now h key)"
  using timer_same by (auto simp: evolves_def arm_idle_get split: if_splits)

lemma evolves_park: "park cfg now h entry = (n, h1) \<Longrightarrow> evolves h h1"
  using timer_same by (auto simp: evolves_def park_eq arm_idle_get split: if_splits)

lemma evolves_finish [simp]: "evolves h (fst (finish h k r))"
  by (simp add: finish_def)

lemma evolves_watch_stop [simp]: "evolves h (fst (watch_stop h k l cancel))"
proof -
  have "evolves h (delete_pending (h\<lparr>h_sinks := ks\<rparr>) key)" for ks key
    using timer_same by (auto simp: evolves_def delete_pending_def split: if_splits)
  then show ?thesis by (simp add: watch_stop_def Let_def)
qed

lemma evolves_deliver [simp]: "evolves h (fst (deliver h orig m))"
  by (cases orig) (simp_all add: deliver_def watch_receive_def Let_def)

lemma evolves_delete_pending: "evolves (delete_pending h key) h' \<Longrightarrow> evolves h h'"
  by (erule evolves_trans [rotated]) (use timer_same in \<open>auto simp: evolves_def delete_pending_def split: if_splits\<close>)

lemma evolves_delete_deliver [simp]: "evolves h (fst (deliver (delete_pending h key) orig m))"
  by (rule evolves_delete_pending [of _ key]) simp

lemma evolves_demux: "evolves h (fst (demux h from m))"
  by (simp add: demux_def split: option.split)

lemma evolves_route_stream: "evolves h (fst (route_stream cfg now h from m))"
proof -
  have "evolves h (fst (deliver (arm_idle cfg now h key) orig m'))" for key orig m'
    by (rule evolves_trans [OF evolves_arm evolves_deliver])
  then show ?thesis
    by (auto simp: route_stream_def Let_def reset_idle_eq split: option.split prod.split)
qed

lemma evolves_on_message: "evolves h (fst (on_message cfg now h from m))"
  by (cases m) (auto simp: on_message_def evolves_demux evolves_route_stream route_request_def Let_def reply_error_def
      split: option.split prod.split intro: evolves_park)

lemma evolves_detach:
  assumes "hub_inv h"
  shows "evolves h (fst (detach cfg h l))"
proof (cases "l \<in> set (h_links h)")
  case True
  note d = detach_state [OF assms True refl, of cfg]
  show ?thesis
    using timer_same by (rule_tac evolves_sub) (auto simp: d(6,8) split: option.splits if_splits)
qed (simp add: detach_def)

lemma evolves_attach: "attach h l opts = Inr (h', out) \<Longrightarrow> evolves h h'"
  by (rule evolves_same) (simp_all add: attach_fields)

lemma evolves_commit: "(\<And>h' out. r = Inr (h', out) \<Longrightarrow> evolves h h') \<Longrightarrow> evolves h (fst (commit h r))"
  by (cases r) (auto simp: commit_def)

lemma evolves_set_uplink: "set_uplink h u = Inr (h', out) \<Longrightarrow> evolves h h'"
  by (rule evolves_same) (auto simp: set_uplink_def Let_def res_bind_Inr_iff dest: attach_fields(2,4) split: option.splits)

lemma evolves_set_loopback: "set_loopback h u = Inr (h', out) \<Longrightarrow> evolves h h'"
  by (rule evolves_same) (auto simp: set_loopback_def dest: attach_fields(2,4) split: option.splits if_splits)

lemma evolves_timeouts:
  "evolves h (fst (on_idle_timeout cfg h key))" "evolves h (fst (request_timeout h k l ms))"
  "evolves h (fst (request_send_failed h k l err))" "evolves h (fst (route_send_failed cfg h key l err))"
  by (auto simp: on_idle_timeout_def request_timeout_drop request_send_failed_drop route_send_failed_def reply_error_def
      case_prod_unfold split: option.split)

lemma evolves_own:
  "evolves h (fst (request_on_link cfg now h l meth params))" "evolves h (fst (watch_on_link cfg now h l meth params))"
  "evolves h (fst (watch_ping cfg now h k l nonce))" "evolves h (fst (snd (release_prefix h p)))"
  by (auto simp: request_on_link_def watch_on_link_def watch_ping_def reset_idle_eq release_prefix_def
      split: prod.split intro: evolves_park evolves_same)

lemma evolves_step: "hub_inv h \<Longrightarrow> evolves h (fst (hub_step cfg h e))"
proof -
  assume inv: "hub_inv h"
  obtain now ev where e: "e = (now, ev)" by (cases e)
  have "evolves h (fst (commit h (attach h l opts)))" "evolves h (fst (commit h (set_uplink h u)))"
    "evolves h (fst (commit h (set_loopback h u)))" for l opts u
    by (auto intro: evolves_commit evolves_attach evolves_set_uplink evolves_set_loopback)
  with inv show ?thesis
    by (cases ev) (simp_all add: e evolves_on_message evolves_detach evolves_timeouts evolves_own)
qed

lemma evolves_run: "hub_inv h \<Longrightarrow> evolves h (fst (hub_run cfg h es))"
proof (induction es arbitrary: h)
  case (Cons e es)
  have "evolves h (fst (hub_run cfg (fst (hub_step cfg h e)) es))"
    using Cons.IH [OF hub_step_inv [OF Cons.prems]] by (rule evolves_trans [OF evolves_step [OF Cons.prems]])
  then show ?case by (simp add: case_prod_unfold)
qed simp

lemma evolves_gone:
  "evolves h h' \<Longrightarrow> n < h_nextId h \<Longrightarrow> jm_get (h_pending h) (key_of n) = None \<Longrightarrow> jm_get (h_pending h') (key_of n) = None"
  using evolvesD [of h h' n] by fastforce

section \<open>Who is answered\<close>

definition answered :: "hub_out list \<Rightarrow> nat \<Rightarrow> request_id \<Rightarrow> bool" where
  "answered out l i \<longleftrightarrow> (\<exists>m. Send l m \<in> set out \<and> is_response m \<and> response_id m = Some i)"

lemma answered_append [simp]: "answered (xs @ ys) l i \<longleftrightarrow> answered xs l i \<or> answered ys l i"
  by (auto simp: answered_def)

lemma answered_Nil [simp]: "\<not> answered [] l i"
  by (simp add: answered_def)

lemma answered_Cons:
  "answered (x # xs) l i \<longleftrightarrow> (\<exists>m. x = Send l m \<and> is_response m \<and> response_id m = Some i) \<or> answered xs l i"
  by (auto simp: answered_def)

lemma response_kind_simps [simp]:
  "is_response (Success j r)" "is_response (Failure j e)" "\<not> is_response (Request k meth p)"
  "\<not> is_response (Notification meth p)"
  by (simp_all add: is_response_def)

lemma response_id_simps [simp]:
  "response_id (Success j r) = j" "response_id (Failure j e) = j" "response_id (Request k meth p) = None"
  "response_id (Notification meth p) = None"
  by (simp_all add: response_id_def)

lemma answered_one [simp]:
  "answered (Send t (Request j' meth p) # out) l i = answered out l i"
  "answered (Send t (Notification meth p) # out) l i = answered out l i"
  "answered (inject_cancel t key reason # out) l i = answered out l i"
  "answered (RoutingChanged # out) l i = answered out l i"
  "answered (Settled k s # out) l i = answered out l i"
  "answered (WatchTick k # out) l i = answered out l i"
  "answered (WatchSettled k # out) l i = answered out l i"
  "answered (WatchEstablished k # out) l i = answered out l i"
  "answered (Threw e # out) l i = answered out l i"
  "answered (Send t (control_frame k c) # out) l i = answered out l i"
  "answered (Send t (Success j r) # out) l i = (t = l \<and> j = Some i \<or> answered out l i)"
  "answered (Send t (Failure j r') # out) l i = (t = l \<and> j = Some i \<or> answered out l i)"
  by (auto simp: answered_Cons inject_cancel_def control_frame_def)

lemma response_with_id [simp]:
  "response_id m = Some j \<Longrightarrow> is_response (with_id m i)"
  "response_id m = Some j \<Longrightarrow> response_id (with_id m i) = Some i"
  by (cases m; simp add: with_id_def)+

lemma answered_finish [simp]: "\<not> answered (snd (finish h k r)) l i"
  by (simp add: finish_def)

lemma answered_watch_stop [simp]: "\<not> answered (snd (watch_stop h k l' c)) l i"
  by (simp add: watch_stop_def Let_def)

lemma answered_deliver:
  "response_id m = Some j \<Longrightarrow> answered (snd (deliver h orig (with_id m i))) l i' = (orig = OLink l \<and> i' = i)"
  by (cases orig; cases m) (auto simp: deliver_def finish_def watch_receive_def watch_stop_def Let_def answered_Cons
      with_id_def is_notification_def is_response_def)

lemma answered_stream:
  "answered (snd (deliver h orig (Notification meth p))) l i = False"
  by (cases orig) (auto simp: deliver_def finish_def watch_receive_def Let_def split: option.split)

lemma answered_reply [simp]:
  "answered (snd (reply_error cfg h orig i code msg)) l i' = (orig = OLink l \<and> i' = i)"
  by (cases orig) (auto simp: reply_error_def deliver_def watch_receive_def is_notification_def)


definition settles :: "hub \<Rightarrow> hub \<Rightarrow> hub_out list \<Rightarrow> bool" where
  "settles h h' out \<longleftrightarrow> (\<forall>l i. answered out l i \<longleftrightarrow>
     (\<exists>key p. jm_get (h_pending h) key = Some p \<and> pd_origin p = OLink l \<and> pd_originalId p = i \<and>
        jm_get (h_pending h') key = None))"

lemma settles_quiet:
  assumes "\<And>key p l. jm_get (h_pending h) key = Some p \<Longrightarrow> pd_origin p = OLink l \<Longrightarrow> jm_get (h_pending h') key \<noteq> None"
    "\<And>l i. \<not> answered out l i"
  shows "settles h h' out"
  using assms unfolding settles_def by blast

lemma settles_same [simp]: "(\<And>l i. \<not> answered out l i) \<Longrightarrow> h_pending h' = h_pending h \<Longrightarrow> settles h h' out"
  by (rule settles_quiet) auto

lemma settles_drop:
  assumes "jm_get (h_pending h) key = Some p" "\<And>l i. answered out l i \<longleftrightarrow> pd_origin p = OLink l \<and> i = pd_originalId p"
  shows "settles h (drop_entry h key) out"
  using assms by (auto simp: settles_def)

lemma settles_own:
  assumes "jm_get (h_pending h) key = Some p" "\<And>l. pd_origin p \<noteq> OLink l" "\<And>l i. \<not> answered out l i"
  shows "settles h (drop_entry h key) out"
  by (rule settles_drop [OF assms(1)]) (simp add: assms(2,3))

lemma settles_demux:
  assumes "pending_inv h"
  shows "settles h (fst (demux h from m)) (snd (demux h from m))"
proof -
  have "settles h (fst (deliver (delete_pending h (id_string i)) (pd_origin p) (with_id m (pd_originalId p))))
      (snd (deliver (delete_pending h (id_string i)) (pd_origin p) (with_id m (pd_originalId p))))"
    if "response_id m = Some i" "jm_get (h_pending h) (id_string i) = Some p" for i p
    unfolding deliver_response_drop [OF assms that(2) response_with_id(1) [OF that(1)]]
    by (rule settles_drop [OF that(2)]) (simp add: answered_deliver [OF that(1)])
  then show ?thesis by (simp add: demux_def split: option.split)
qed

lemma deliver_stream_pending: "h_pending (fst (deliver h orig (Notification STREAM_METHOD p))) = h_pending h"
  by (cases orig) (simp_all add: deliver_def finish_def watch_receive_def Let_def is_notification_def method_of_def)

lemma with_requestId_stream:
  "\<exists>q. with_requestId (Notification meth p) i = Notification meth q"
  by (simp add: with_requestId_def Let_def)

lemma settles_route_stream:
  "settles h (fst (route_stream cfg now h from (Notification STREAM_METHOD p))) (snd (route_stream cfg now h from (Notification STREAM_METHOD p)))"
proof -
  have "settles h (fst (deliver (arm_idle cfg now h key) orig (with_requestId (Notification STREAM_METHOD p) i)))
      (snd (deliver (arm_idle cfg now h key) orig (with_requestId (Notification STREAM_METHOD p) i)))" for key orig i
  proof -
    obtain q where q: "with_requestId (Notification STREAM_METHOD p) i = Notification STREAM_METHOD q"
      using with_requestId_stream by blast
    show ?thesis
      by (rule settles_quiet) (auto simp: q deliver_stream_pending answered_stream arm_idle_get)
  qed
  moreover have "settles h (arm_idle cfg now h key) [Send t (with_requestId (Notification STREAM_METHOD p) i)]" for key t i
    using with_requestId_stream [of STREAM_METHOD p i] by (intro settles_quiet) (auto simp: arm_idle_get)
  ultimately show ?thesis
    by (auto simp: route_stream_def Let_def reset_idle_eq split: option.split)
qed

lemma settles_reply:
  assumes "pending_inv h" "jm_get (h_pending h) key = Some p"
  shows "settles h (fst (reply_error cfg (delete_pending h key) (pd_origin p) (pd_originalId p) code msg))
    (snd (reply_error cfg (delete_pending h key) (pd_origin p) (pd_originalId p) code msg))"
  unfolding reply_error_drop [OF assms] by (rule settles_drop [OF assms(2)]) auto

lemma settles_cancel: "settles h h' (inject_cancel t key reason # out) = settles h h' out"
  by (simp add: settles_def)

lemma settles_timeouts:
  assumes "pending_inv h"
  shows "settles h (fst (on_idle_timeout cfg h key)) (snd (on_idle_timeout cfg h key))"
    "settles h (fst (route_send_failed cfg h key l err)) (snd (route_send_failed cfg h key l err))"
  using settles_reply [OF assms]
  by (auto simp: on_idle_timeout_def route_send_failed_def case_prod_unfold settles_cancel split: option.split)

lemma settles_own_timers:
  "settles h (fst (request_timeout h k l ms)) (snd (request_timeout h k l ms))"
  "settles h (fst (request_send_failed h k l err)) (snd (request_send_failed h k l err))"
proof -
  have "settles h (drop_entry h (key_of k)) out" if "pending_origin h (key_of k) = Some (ORequest k l)"
    "\<And>l i. \<not> answered out l i" for out
    using that by (auto simp: pending_origin_def intro: settles_own)
  moreover have "\<not> answered (snd (request_timeout h k l ms)) l' i" for l' i
    by (simp add: request_timeout_def case_prod_unfold split: option.split)
  ultimately show "settles h (fst (request_timeout h k l ms)) (snd (request_timeout h k l ms))"
    "settles h (fst (request_send_failed h k l err)) (snd (request_send_failed h k l err))"
    by (auto simp: request_timeout_drop request_send_failed_def finish_drop)
qed

lemma settles_watch_stop: "settles h (fst (watch_stop h k l c)) (snd (watch_stop h k l c))"
proof (rule settles_quiet)
  show "\<not> answered (snd (watch_stop h k l c)) l' i" for l' i by simp
  show "jm_get (h_pending (fst (watch_stop h k l c))) key \<noteq> None"
    if "jm_get (h_pending h) key = Some p" "pd_origin p = OLink l'" for key p l'
    using that by (auto simp: watch_stop_def Let_def delete_pending_def pending_origin_def)
qed

lemma settles_park:
  assumes "park cfg now h entry = (n, h1)" "\<And>l i. \<not> answered out l i" "h_pending h2 = h_pending h1"
  shows "settles h h2 out"
  using assms(1) by (intro settles_quiet) (auto simp: assms(2,3) park_eq arm_idle_get)

lemma settles_arm: "(\<And>l i. \<not> answered out l i) \<Longrightarrow> settles h (arm_idle cfg now h key) out"
  by (rule settles_quiet) (auto simp: arm_idle_get)

lemma settles_own_ops:
  "settles h (fst (request_on_link cfg now h l meth params)) (snd (request_on_link cfg now h l meth params))"
  "settles h (fst (watch_on_link cfg now h l meth params)) (snd (watch_on_link cfg now h l meth params))"
  "settles h (fst (watch_ping cfg now h k l nonce)) (snd (watch_ping cfg now h k l nonce))"
  "settles h (fst (snd (release_prefix h p))) (snd (snd (release_prefix h p)))"
proof -
  show "settles h (fst (request_on_link cfg now h l meth params)) (snd (request_on_link cfg now h l meth params))"
    "settles h (fst (watch_on_link cfg now h l meth params)) (snd (watch_on_link cfg now h l meth params))"
    by (auto simp: request_on_link_def watch_on_link_def case_prod_unfold intro: settles_park [OF surjective_pairing])
  show "settles h (fst (watch_ping cfg now h k l nonce)) (snd (watch_ping cfg now h k l nonce))"
    by (auto simp: watch_ping_def reset_idle_eq settles_watch_stop intro: settles_arm)
  show "settles h (fst (snd (release_prefix h p))) (snd (snd (release_prefix h p)))"
    by (simp add: release_prefix_def case_prod_unfold)
qed


lemma settles_route_request:
  assumes "resolved_link (resolve_method h meth from) = Some t"
  shows "settles h (fst (route_request cfg now h from i meth params)) (snd (route_request cfg now h from i meth params))"
  using assms by (auto simp: route_request_def Let_def case_prod_unfold intro: settles_park [OF surjective_pairing])

lemma answered_detach_pending:
  "answered (snd (detach_pending cfg link h ps)) l i \<longleftrightarrow>
     (\<exists>(k, p)\<in>set ps. pd_origin p = OLink l \<and> pd_originalId p = i \<and> l \<noteq> link \<and> pd_target p = link)"
proof (induction ps arbitrary: h)
  case (Cons kp ps)
  obtain k p where kp: "kp = (k, p)" by (cases kp)
  consider "pd_origin p = OLink link" | "pd_origin p \<noteq> OLink link" "pd_target p = link"
    | "pd_origin p \<noteq> OLink link" "pd_target p \<noteq> link" by blast
  then show ?case
    by cases (auto simp: kp case_prod_unfold Cons.IH)
qed simp

lemma settles_detach:
  assumes "hub_inv h"
  shows "answered (snd (detach cfg h link)) l i \<longleftrightarrow> l \<noteq> link \<and>
    (\<exists>key p. jm_get (h_pending h) key = Some p \<and> pd_origin p = OLink l \<and> pd_originalId p = i \<and>
        jm_get (h_pending (fst (detach cfg h link))) key = None)"
proof (cases "link \<in> set (h_links h)")
  case True
  have wf: "jm_wf (h_pending h)" using assms by (simp add: hub_inv_def pending_inv_def)
  have gone': "jm_get (h_pending (fst (detach cfg h link))) key = None \<longleftrightarrow> concerns link p"
    if "jm_get (h_pending h) key = Some p" for key p
    using that by (simp add: detach_state(6) [OF assms True refl])
  have "answered (snd (detach cfg h link)) l i \<longleftrightarrow> (\<exists>(k, p)\<in>set (h_pending h).
      pd_origin p = OLink l \<and> pd_originalId p = i \<and> l \<noteq> link \<and> pd_target p = link)"
    by (simp add: detach_eq [OF True] case_prod_unfold answered_detach_pending)
  also have "\<dots> \<longleftrightarrow> (\<exists>key p. jm_get (h_pending h) key = Some p \<and>
      pd_origin p = OLink l \<and> pd_originalId p = i \<and> l \<noteq> link \<and> pd_target p = link)"
    using jm_get_wfI [OF wf] jm_get_SomeD [of "h_pending h"] by fast
  also have "\<dots> \<longleftrightarrow> l \<noteq> link \<and> (\<exists>key p. jm_get (h_pending h) key = Some p \<and> pd_origin p = OLink l \<and> pd_originalId p = i \<and>
        jm_get (h_pending (fst (detach cfg h link))) key = None)"
    using gone' by (simp add: concerns_def cong: conj_cong) blast
  finally show ?thesis .
qed (simp add: detach_def)


definition immediate :: "hub \<Rightarrow> nat \<times> hub_event \<Rightarrow> nat \<Rightarrow> request_id \<Rightarrow> bool" where
  "immediate h e l i = (case snd e of
     Receive from (Request j meth params) \<Rightarrow> from = l \<and> j = i \<and> l \<in> set (h_links h) \<and>
       (meth = GET_NODE_ID_METHOD \<or> resolved_link (resolve_method h meth l) = None)
   | _ \<Rightarrow> False)"

definition settled_by :: "hub \<Rightarrow> hub \<Rightarrow> nat \<times> hub_event \<Rightarrow> nat \<Rightarrow> request_id \<Rightarrow> bool" where
  "settled_by h h' e l i \<longleftrightarrow> snd e \<noteq> Detach l \<and>
     (\<exists>key p. jm_get (h_pending h) key = Some p \<and> pd_origin p = OLink l \<and> pd_originalId p = i \<and>
        jm_get (h_pending h') key = None)"

lemma settles_exact:
  assumes "settles h h' out" "\<And>l. snd e \<noteq> Detach l" "\<And>l i. \<not> immediate h e l i"
  shows "answered out l i \<longleftrightarrow> settled_by h h' e l i \<or> immediate h e l i"
  using assms by (simp add: settles_def settled_by_def)

lemma settles_commit:
  assumes "\<And>h' out. r = Inr (h', out) \<Longrightarrow> h_pending h' = h_pending h \<and> (\<forall>l i. \<not> answered out l i)"
  shows "settles h (fst (commit h r)) (snd (commit h r))"
proof (cases r)
  case (Inr x)
  with assms show ?thesis by (cases x) (simp add: commit_def)
qed (simp add: commit_def)

lemma attach_quiet: "attach h l opts = Inr (h', out) \<Longrightarrow> h_pending h' = h_pending h \<and> (\<forall>l i. \<not> answered out l i)"
  using attach_fields(2) [of h l opts h' out] by (auto simp: attach_def Let_def split: option.splits if_splits)

lemma set_uplink_quiet: "set_uplink h u = Inr (h', out) \<Longrightarrow> h_pending h' = h_pending h \<and> (\<forall>l i. \<not> answered out l i)"
  by (auto simp: set_uplink_def Let_def res_bind_Inr_iff dest: attach_quiet split: option.splits if_splits)

lemma set_loopback_quiet: "set_loopback h u = Inr (h', out) \<Longrightarrow> h_pending h' = h_pending h \<and> (\<forall>l i. \<not> answered out l i)"
  by (auto simp: set_loopback_def dest: attach_quiet split: option.splits if_splits)

lemma receive_exact:
  assumes "hub_inv h" "from \<in> set (h_links h)" "on_message cfg now h from m = (h', out)"
  shows "answered out l i \<longleftrightarrow> settled_by h h' (now, Receive from m) l i \<or> immediate h (now, Receive from m) l i"
proof (cases m)
  case (Request j meth params)
  show ?thesis
  proof (cases "meth = GET_NODE_ID_METHOD \<or> resolved_link (resolve_method h meth from) = None")
    case True
    with Request assms(2,3) show ?thesis
      by (auto simp: on_message_def route_request_def Let_def reply_error_def deliver_def immediate_def settled_by_def
          split: if_splits)
  next
    case False
    then obtain t where t: "resolved_link (resolve_method h meth from) = Some t" by blast
    from settles_route_request [OF t, of cfg now j params] False Request assms(3) have "settles h h' out"
      by (simp add: on_message_def)
    then show ?thesis by (rule settles_exact) (use False Request in \<open>auto simp: immediate_def\<close>)
  qed
next
  case (Notification meth params)
  have "settles h h' out"
    using assms(3) settles_route_stream [of h cfg now "from" params]
    by (auto simp: Notification on_message_def route_notification_def split: if_splits option.splits)
  then show ?thesis by (rule settles_exact) (simp_all add: Notification immediate_def)
next
  case (Success j r)
  have "settles h h' out"
    using assms settles_demux [of h "from" m] by (simp add: Success on_message_def hub_inv_def)
  then show ?thesis by (rule settles_exact) (simp_all add: Success immediate_def)
next
  case (Failure j r)
  have "settles h h' out"
    using assms settles_demux [of h "from" m] by (simp add: Failure on_message_def hub_inv_def)
  then show ?thesis by (rule settles_exact) (simp_all add: Failure immediate_def)
qed

lemma step_settles:
  assumes "hub_inv h" "\<And>l m. ev \<noteq> Receive l m" "\<And>l. ev \<noteq> Detach l"
  shows "settles h (fst (hub_step cfg h (now, ev))) (snd (hub_step cfg h (now, ev)))"
proof -
  have inv: "pending_inv h" using assms(1) by (simp add: hub_inv_def)
  have "settles h (fst (commit h (attach h l opts))) (snd (commit h (attach h l opts)))"
    "settles h (fst (commit h (set_uplink h u))) (snd (commit h (set_uplink h u)))"
    "settles h (fst (commit h (set_loopback h u))) (snd (commit h (set_loopback h u)))" for l opts u
    by (auto intro: settles_commit dest: attach_quiet set_uplink_quiet set_loopback_quiet)
  note quiet = this
  show ?thesis
  proof (cases ev)
    case (Receive l m)
    with assms(2) show ?thesis by blast
  next
    case (Detach l)
    with assms(3) show ?thesis by blast
  qed (simp_all add: quiet settles_timeouts [OF inv] settles_own_ops settles_own_timers settles_watch_stop
        watch_established_def)
qed

lemma step_exact:
  assumes "hub_inv h" "hub_step cfg h e = (h', out)"
  shows "answered out l i \<longleftrightarrow> settled_by h h' e l i \<or> immediate h e l i"
proof -
  obtain now ev where e: "e = (now, ev)" by (cases e)
  consider src m where "ev = Receive src m" | link where "ev = Detach link"
    | "\<And>l m. ev \<noteq> Receive l m" "\<And>l. ev \<noteq> Detach l" by blast
  then show ?thesis
  proof cases
    case 1
    with receive_exact [OF assms(1)] assms(2) show ?thesis
      by (auto simp: e settled_by_def immediate_def split: if_splits message.splits)
  next
    case 2
    with settles_detach [OF assms(1), of cfg link l i] assms(2) show ?thesis
      by (auto simp: e settled_by_def immediate_def)
  next
    case 3
    with step_settles [OF assms(1) 3, of cfg now] assms(2) have "settles h h' out" by (simp add: e)
    then show ?thesis
      by (rule settles_exact) (use 3 in \<open>auto simp: e immediate_def split: hub_event.splits\<close>)
  qed
qed

section \<open>Idle timers\<close>

definition armed :: "hub_opts \<Rightarrow> nat set \<Rightarrow> hub \<Rightarrow> bool" where
  "armed cfg T h \<longleftrightarrow> (\<forall>key p. jm_get (h_pending h) key = Some p \<longrightarrow>
     (\<exists>t\<in>T. pd_timer p = Some (int t + ho_idleMs cfg)))"

lemma armedI_sub:
  assumes "armed cfg T h" "\<And>key p. jm_get (h_pending h') key = Some p \<Longrightarrow> jm_get (h_pending h) key = Some p"
  shows "armed cfg T h'"
  using assms unfolding armed_def by blast

lemma armed_mono: "armed cfg T h \<Longrightarrow> T \<subseteq> U \<Longrightarrow> armed cfg U h"
  unfolding armed_def by blast

lemma armed_same: "armed cfg T h \<Longrightarrow> h_pending h' = h_pending h \<Longrightarrow> armed cfg T h'"
  by (simp add: armed_def)

lemma armed_drop: "armed cfg T h \<Longrightarrow> armed cfg T (drop_entry h key)"
  by (erule armedI_sub) (simp split: if_splits)

lemma armed_delete: "armed cfg T h \<Longrightarrow> armed cfg T (delete_pending h key)"
  by (erule armedI_sub) (simp add: delete_pending_def split: if_splits)

lemma armed_set:
  assumes "armed cfg T h" "now \<in> T" "0 < ho_idleMs cfg"
  shows "armed cfg T (arm_idle cfg now (h\<lparr>h_nextId := n, h_pending := jm_set (h_pending h) key p\<rparr>) key)"
  using assms unfolding armed_def arm_idle_get by (auto split: if_splits)

lemma armed_arm:
  assumes "armed cfg T h" "now \<in> T" "0 < ho_idleMs cfg"
  shows "armed cfg T (arm_idle cfg now h key)"
  using assms unfolding armed_def arm_idle_get by (auto split: if_splits)

lemma armed_park:
  "armed cfg T h \<Longrightarrow> now \<in> T \<Longrightarrow> 0 < ho_idleMs cfg \<Longrightarrow> park cfg now h entry = (n, h1) \<Longrightarrow> armed cfg T h1"
  using armed_set by (auto simp: park_eq)

lemma armed_finish: "armed cfg T h \<Longrightarrow> armed cfg T (fst (finish h k r))"
  by (erule armed_same) (simp add: finish_def)

lemma armed_watch_stop: "armed cfg T h \<Longrightarrow> armed cfg T (fst (watch_stop h k l c))"
  by (erule armedI_sub) (auto simp: watch_stop_def Let_def delete_pending_def split: if_splits)

lemma armed_deliver: "armed cfg T h \<Longrightarrow> armed cfg T (fst (deliver h orig m))"
  by (cases orig) (simp_all add: deliver_def watch_receive_def Let_def armed_finish armed_watch_stop)

lemma armed_on_message:
  assumes "armed cfg T h" "now \<in> T" "0 < ho_idleMs cfg"
  shows "armed cfg T (fst (on_message cfg now h src m))"
proof -
  have "armed cfg T (fst (demux h src m))"
    using assms(1) by (simp add: demux_def armed_deliver armed_delete split: option.split)
  moreover have "armed cfg T (fst (route_stream cfg now h src m'))" for m'
    using assms by (auto simp: route_stream_def Let_def reset_idle_eq armed_deliver armed_arm split: option.split)
  moreover have "armed cfg T (fst (route_request cfg now h src i meth params))" for i meth params
    using assms by (auto simp: route_request_def Let_def reply_error_def armed_deliver case_prod_unfold
        split: option.split intro: armed_park [OF _ _ _ surjective_pairing])
  ultimately show ?thesis using assms(1) by (cases m) (simp_all add: on_message_def)
qed

lemma armed_commit:
  assumes "armed cfg T h" "\<And>h' out. r = Inr (h', out) \<Longrightarrow> h_pending h' = h_pending h \<and> (\<forall>l i. \<not> answered out l i)"
  shows "armed cfg T (fst (commit h r))"
proof (cases r)
  case (Inr x)
  with assms armed_same [OF assms(1), of "fst x"] show ?thesis by (cases x) (simp add: commit_def)
qed (simp add: commit_def assms(1))

lemma armed_detach:
  assumes "hub_inv h" "armed cfg T h"
  shows "armed cfg T (fst (detach cfg h l))"
proof (cases "l \<in> set (h_links h)")
  case True
  show ?thesis
    by (rule armedI_sub [OF assms(2)])
      (simp add: detach_state(6) [OF assms(1) True refl] split: option.splits if_splits)
qed (simp add: detach_def assms(2))

lemma armed_others:
  assumes "armed cfg T h" "now \<in> T" "0 < ho_idleMs cfg"
  shows "armed cfg T (fst (request_on_link cfg now h l meth params))" "armed cfg T (fst (watch_on_link cfg now h l meth params))"
    "armed cfg T (fst (watch_ping cfg now h k l nonce))" "armed cfg T (fst (snd (release_prefix h p)))"
    "armed cfg T (fst (on_idle_timeout cfg h key))" "armed cfg T (fst (request_timeout h k l ms))"
    "armed cfg T (fst (request_send_failed h k l err))" "armed cfg T (fst (route_send_failed cfg h key l err))"
proof -
  have "armed cfg T (h1\<lparr>h_sinks := ks\<rparr>)" if "park cfg now h entry = (n, h1)" for h1 ks entry n
    using armed_park [OF assms that] by (rule armed_same) simp
  then show "armed cfg T (fst (request_on_link cfg now h l meth params))" "armed cfg T (fst (watch_on_link cfg now h l meth params))"
    by (auto simp: request_on_link_def watch_on_link_def split: prod.split)
  show "armed cfg T (fst (watch_ping cfg now h k l nonce))"
    using assms by (simp add: watch_ping_def armed_watch_stop reset_idle_eq armed_arm)
  show "armed cfg T (fst (snd (release_prefix h p)))"
    using assms(1) by (auto simp: release_prefix_def split: prod.split intro: armed_same)
  show "armed cfg T (fst (on_idle_timeout cfg h key))" "armed cfg T (fst (route_send_failed cfg h key l err))"
    using assms(1) by (simp_all add: on_idle_timeout_def route_send_failed_def reply_error_def case_prod_unfold
        armed_deliver armed_delete split: option.split)
  show "armed cfg T (fst (request_timeout h k l ms))" "armed cfg T (fst (request_send_failed h k l err))"
    using assms(1) by (simp_all add: request_timeout_drop request_send_failed_drop armed_drop)
qed

lemma armed_step:
  assumes "hub_inv h" "armed cfg T h" "now \<in> T" "0 < ho_idleMs cfg"
  shows "armed cfg T (fst (hub_step cfg h (now, ev)))"
proof -
  have "armed cfg T (fst (commit h (attach h l opts)))" "armed cfg T (fst (commit h (set_uplink h u)))"
    "armed cfg T (fst (commit h (set_loopback h u)))" for l opts u
    using assms(2) by (auto intro: armed_commit dest: attach_quiet set_uplink_quiet set_loopback_quiet)
  with assms show ?thesis
    by (cases ev) (simp_all add: armed_on_message armed_detach armed_others armed_watch_stop)
qed

lemma armed_run:
  assumes "hub_inv h" "armed cfg T h" "fst ` set es \<subseteq> T" "0 < ho_idleMs cfg"
  shows "armed cfg T (fst (hub_run cfg h es))"
  using assms
proof (induction es arbitrary: h)
  case (Cons e es)
  have "armed cfg T (fst (hub_step cfg h e))"
    using armed_step [OF Cons.prems(1,2) _ Cons.prems(4), of "fst e" "snd e"] Cons.prems(3) by simp
  with Cons.IH [OF hub_step_inv [OF Cons.prems(1)]] Cons.prems(3,4) show ?case
    by (simp add: case_prod_unfold)
qed simp

section \<open>Where a message goes\<close>

definition reachable_hub :: "hub_opts \<Rightarrow> hub \<Rightarrow> bool" where
  "reachable_hub cfg h \<longleftrightarrow> (\<exists>es. h = fst (hub_run cfg hub_init es))"

lemma reachable_inv: "reachable_hub cfg h \<Longrightarrow> hub_inv h"
  using hub_run_inv [OF hub_inv_init] by (auto simp: reachable_hub_def)

text \<open>The owner of a service id: the link of the longest claimed prefix it is equal to or beneath;
  when no claim covers it, the uplink, unless the message came from there.\<close>

definition owns :: "hub \<Rightarrow> nat \<Rightarrow> string \<Rightarrow> nat \<Rightarrow> bool" where
  "owns h src s t \<longleftrightarrow>
     (\<exists>p. ft_get (h_table h) p = Some t \<and> is_service_id_under s p \<and>
        (\<forall>q v. ft_get (h_table h) q = Some v \<longrightarrow> is_service_id_under s q \<longrightarrow> length q \<le> length p)) \<or>
     (\<forall>q v. ft_get (h_table h) q = Some v \<longrightarrow> \<not> is_service_id_under s q) \<and> h_uplink h = Some t \<and> t \<noteq> src"

lemma claimed_nonempty: "hub_inv h \<Longrightarrow> ft_get (h_table h) p = Some l \<Longrightarrow> p \<noteq> []"
proof
  assume "hub_inv h" "ft_get (h_table h) p = Some l" "p = []"
  then have "validate_prefix [] = None" unfolding hub_inv_def links_inv_def by blast
  then show False by (simp add: validate_prefix_def)
qed

lemma lpm_iff:
  assumes "hub_inv h"
  shows "longest_prefix_match (h_table h) s = Some (p, t) \<longleftrightarrow>
    ft_get (h_table h) p = Some t \<and> is_service_id_under s p \<and>
    (\<forall>q v. ft_get (h_table h) q = Some v \<longrightarrow> is_service_id_under s q \<longrightarrow> length q \<le> length p)"
  unfolding longest_prefix_match_def walk_up_iff
  using claimed_nonempty [OF assms] by (metis linorder_not_le not_None_eq option.distinct(1))

lemma lpm_none:
  assumes "hub_inv h"
  shows "longest_prefix_match (h_table h) s = None \<longleftrightarrow>
    (\<forall>q v. ft_get (h_table h) q = Some v \<longrightarrow> \<not> is_service_id_under s q)" (is "?a \<longleftrightarrow> ?b")
proof
  assume ?b
  then show ?a using lpm_iff [OF assms, of s] by (cases "longest_prefix_match (h_table h) s") auto
next
  assume a: ?a
  show ?b
  proof (intro allI impI notI)
    fix q v assume q: "ft_get (h_table h) q = Some v" "is_service_id_under s q"
    let ?P = "\<lambda>q. (\<exists>v. ft_get (h_table h) q = Some v) \<and> is_service_id_under s q"
    have "\<forall>q. ?P q \<longrightarrow> length q < length s + 1" using under_length by fastforce
    with q obtain p where "?P p" "\<forall>q. ?P q \<longrightarrow> length q \<le> length p"
      using ex_has_greatest_nat [of ?P q length "length s + 1"] by blast
    then obtain w where "longest_prefix_match (h_table h) s = Some (p, w)" using lpm_iff [OF assms, of s p] by blast
    with a show False by simp
  qed
qed

lemma resolve_full:
  assumes "hub_inv h" "parse_method_name meth = Some (Full s i m)"
  shows "resolved_link (resolve_method h meth src) = Some t \<longleftrightarrow> owns h src s t"
proof -
  have "owns h src s t \<longleftrightarrow> (\<exists>p. longest_prefix_match (h_table h) s = Some (p, t)) \<or>
      longest_prefix_match (h_table h) s = None \<and> h_uplink h = Some t \<and> t \<noteq> src"
    by (simp only: owns_def lpm_iff [OF assms(1)] lpm_none [OF assms(1)])
  then show ?thesis
    using assms(2) by (auto simp: resolve_method_def resolved_link_def split: option.splits)
qed

lemma not_full [simp]: "parse_method_name GET_NODE_ID_METHOD \<noteq> Some (Full s i m)" "parse_method_name STREAM_METHOD \<noteq> Some (Full s i m)"
  by code_simp+

text \<open>C20: In every state the hub can reach, a request to a qualified service is forwarded, under the
  next hub id, to the link that claims the longest prefix of the service, or to the uplink if nobody
  claims one and it did not come from there; it is forwarded nowhere else.\<close>

theorem full_call_goes_to_longest_claim:
  assumes "reachable_hub cfg h" "src \<in> set (h_links h)" "parse_method_name meth = Some (Full s i m)"
  shows "Send t (Request j meth' params') \<in> set (snd (hub_step cfg h (now, Receive src (Request k meth params)))) \<longleftrightarrow>
     owns h src s t \<and> j = hub_id (h_nextId h) \<and> meth' = meth \<and> params' = params"
proof -
  have "meth \<noteq> GET_NODE_ID_METHOD" using assms(3) by auto
  with assms(2) show ?thesis
    unfolding resolve_full [OF reachable_inv [OF assms(1)] assms(3), symmetric]
    by (auto simp: on_message_def route_request_def Let_def park_eq reply_error_def deliver_def split: option.split)
qed


text \<open>A hub with two links, the first of which claims a prefix, and a request on the way.\<close>

definition demo_cfg :: hub_opts where
  "demo_cfg = \<lparr>ho_debugName = None, ho_nodeId = [], ho_portId = (\<lambda>_. []), ho_idleMs = 100\<rparr>"

definition demo_start :: "(nat \<times> hub_event) list" where
  "demo_start = [(0, Attach 1 \<lparr>at_exclusive = True, at_prefixes = [''a'']\<rparr>), (0, Attach 2 default_attach)]"

definition demo_hub :: hub where
  "demo_hub = fst (hub_run demo_cfg hub_init demo_start)"

definition demo_request :: message where
  "demo_request = Request (IdStr ''x'') ''a/b::i::m'' None"

definition demo_sent :: hub where
  "demo_sent = fst (hub_step demo_cfg demo_hub (5, Receive 2 demo_request))"

lemma demo_reachable: "reachable_hub demo_cfg demo_hub"
  unfolding reachable_hub_def demo_hub_def by blast

lemma hub_run_append:
  "fst (hub_run cfg h (es @ es')) = fst (hub_run cfg (fst (hub_run cfg h es)) es')"
  by (induction es arbitrary: h) (simp_all add: case_prod_unfold)

lemma reachable_step: "reachable_hub cfg h \<Longrightarrow> reachable_hub cfg (fst (hub_step cfg h e))"
proof -
  assume "reachable_hub cfg h"
  then obtain es where "h = fst (hub_run cfg hub_init es)" unfolding reachable_hub_def by blast
  then have "fst (hub_step cfg h e) = fst (hub_run cfg hub_init (es @ [e]))"
    by (simp add: hub_run_append case_prod_unfold)
  then show ?thesis unfolding reachable_hub_def by blast
qed

lemma demo_sent_reachable: "reachable_hub demo_cfg demo_sent"
  unfolding demo_sent_def by (rule reachable_step [OF demo_reachable])

theorem full_call_goes_to_longest_claim_witness:
  "owns demo_hub 2 ''a/b'' 1"
proof -
  have "2 \<in> set (h_links demo_hub)" "parse_method_name ''a/b::i::m'' = Some (Full ''a/b'' ''i'' ''m'')"
    by code_simp+
  note full_call_goes_to_longest_claim [OF demo_reachable this, of 1 "hub_id 1" "''a/b::i::m''" None 0 "IdStr ''x''" None]
  moreover have "snd (hub_step demo_cfg demo_hub (0, Receive 2 (Request (IdStr ''x'') ''a/b::i::m'' None))) =
      [Send 1 (Request (hub_id 1) ''a/b::i::m'' None)]" by code_simp
  ultimately show ?thesis by simp
qed

text \<open>C19: Whatever happens to a hub: its pending requests are keyed by ids already given out, each
  in-memory caller waits for its own entry; every owner of a claim, the uplink, the loopback and the
  origin and target of every request the hub forwards for a link are attached links (a request or watch
  of the hub itself may outlast its link); claims are valid prefixes and the reverse index of the table
  is exact.\<close>

theorem hub_invariant: "hub_inv (fst (hub_run cfg hub_init es))"
  by (rule hub_run_inv) simp

text \<open>C5: A link gets a response with one of its ids in a step exactly when a request it sent under
  that id leaves the pending table in the step, unless by the link's own detachment, or when the
  step is its own request and the hub answers it itself.  So no request is lost in silence, and
  no link is sent a response it has no request for.\<close>

theorem responses_exact:
  assumes "reachable_hub cfg h" "hub_step cfg h e = (h', out)"
  shows "answered out l i \<longleftrightarrow> settled_by h h' e l i \<or> immediate h e l i"
  by (rule step_exact [OF reachable_inv [OF assms(1)] assms(2)])

theorem responses_exact_witness:
  "answered (snd (hub_step demo_cfg demo_sent (9, Detach 1))) 2 (IdStr ''x'')"
proof -
  have "hub_step demo_cfg demo_sent (9, Detach 1) =
      (fst (hub_step demo_cfg demo_sent (9, Detach 1)), snd (hub_step demo_cfg demo_sent (9, Detach 1)))" by simp
  note exact = responses_exact [OF demo_sent_reachable this, of 2 "IdStr ''x''"]
  have "jm_get (h_pending demo_sent) ''1'' \<noteq> None"
    "jm_get (h_pending (fst (hub_step demo_cfg demo_sent (9, Detach 1)))) ''1'' = None"
    "pd_origin (the (jm_get (h_pending demo_sent) ''1'')) = OLink 2"
    "pd_originalId (the (jm_get (h_pending demo_sent) ''1'')) = IdStr ''x''"
    by code_simp+
  then have "settled_by demo_sent (fst (hub_step demo_cfg demo_sent (9, Detach 1))) (9, Detach 1) 2 (IdStr ''x'')"
    unfolding settled_by_def by (intro conjI exI [of _ "''1''"] exI [of _ "the (jm_get (h_pending demo_sent) ''1'')"]) auto
  with exact show ?thesis by blast
qed

lemma forwarded_entry:
  assumes "hub_inv h" "src \<in> set (h_links h)"
    "hub_step cfg h (now, Receive src (Request i meth params)) = (h1, out)" "Send t (Request (hub_id n) meth' params') \<in> set out"
  obtains p where "n < h_nextId h1" "jm_get (h_pending h1) (key_of n) = Some p" "pd_origin p = OLink src"
    "pd_originalId p = i" "pd_target p = t" "jm_get (h_pending h) (key_of n) = None"
proof -
  have ids: "hub_id a = hub_id b \<Longrightarrow> a = b" for a b
    using num_of_int_inj by (fastforce simp: hub_id_def)
  from assms(2-4) have r: "resolved_link (resolve_method h meth src) = Some t" "n = h_nextId h"
    "h1 = arm_idle cfg now (h\<lparr>h_nextId := h_nextId h + 1, h_pending := jm_set (h_pending h) (key_of (h_nextId h))
      \<lparr>pd_origin = OLink src, pd_originalId = i, pd_method = meth, pd_startedAtMs = now, pd_target = t, pd_timer = None\<rparr>\<rparr>)
      (key_of (h_nextId h))"
    by (auto simp: on_message_def route_request_def Let_def park_eq reply_error_def deliver_def
        split: if_splits option.splits dest: ids)
  have "jm_get (h_pending h) (key_of n) = None" using fresh_key assms(1) by (simp add: r(2) hub_inv_def)
  moreover have "\<exists>p. jm_get (h_pending h1) (key_of n) = Some p \<and> pd_origin p = OLink src \<and> pd_originalId p = i \<and> pd_target p = t"
    by (cases "0 < ho_idleMs cfg") (simp_all add: r(2,3) arm_idle_get)
  moreover have "n < h_nextId h1" by (simp add: r(2,3))
  ultimately show thesis using that by blast
qed

lemma correlation_later:
  assumes "hub_inv h1" "n < h_nextId h1" "jm_get (h_pending h1) (key_of n) = Some p" "h2 = fst (hub_run cfg h1 es)"
  shows "jm_get (h_pending h2) (key_of n) = None \<or> (\<exists>u. jm_get (h_pending h2) (key_of n) = Some (p\<lparr>pd_timer := u\<rparr>))"
  using evolvesD [OF evolves_run [OF assms(1), of cfg es] assms(2)] assms(3,4)
  by (cases "jm_get (h_pending h2) (key_of n)") auto

text \<open>C3: A request goes out under an id the hub is not using, and as long as it is pending, however
  much happens in between, exactly the link it went to can answer it: its response goes to the
  link the request came from, under the id it had there, and the entry is gone.  A response from
  any other link, or a second one, does nothing.\<close>

theorem response_correlation:
  assumes "reachable_hub cfg h" "src \<in> set (h_links h)"
    "hub_step cfg h (now, Receive src (Request i meth params)) = (h1, out)" "Send t (Request (hub_id n) meth params) \<in> set out"
    "h2 = fst (hub_run cfg h1 es)" "response_id m = Some (hub_id n)"
  shows "jm_get (h_pending h) (key_of n) = None \<and> jm_get (h_pending h1) (key_of n) \<noteq> None \<and>
    hub_step cfg h2 (now2, Receive l m) =
      (if l = t \<and> jm_get (h_pending h2) (key_of n) \<noteq> None then (drop_entry h2 (key_of n), [Send src (with_id m i)])
       else (h2, []))"
proof -
  note inv = reachable_inv [OF assms(1)]
  obtain p where p: "n < h_nextId h1" "jm_get (h_pending h1) (key_of n) = Some p" "pd_origin p = OLink src"
    "pd_originalId p = i" "pd_target p = t" "jm_get (h_pending h) (key_of n) = None"
    by (rule forwarded_entry [OF inv assms(2-4)])
  have inv1: "hub_inv h1" using hub_step_inv [OF inv, of cfg "(now, Receive src (Request i meth params))"] assms(3) by simp
  have inv2: "hub_inv h2" using hub_run_inv [OF inv1] assms(5) by simp
  have msg: "on_message cfg now2 h2 l' m = demux h2 l' m" for l'
    using assms(6) by (cases m) (simp_all add: on_message_def)
  consider "jm_get (h_pending h2) (key_of n) = None" | u where "jm_get (h_pending h2) (key_of n) = Some (p\<lparr>pd_timer := u\<rparr>)"
    using correlation_later [OF inv1 p(1,2) assms(5)] by (elim disjE exE)
  then have "hub_step cfg h2 (now2, Receive l m) =
      (if l = t \<and> jm_get (h_pending h2) (key_of n) \<noteq> None then (drop_entry h2 (key_of n), [Send src (with_id m i)])
       else (h2, []))"
  proof cases
    case 1
    then show ?thesis by (simp add: msg demux_def assms(6))
  next
    case 2
    have "attached_origin h2 (p\<lparr>pd_timer := u\<rparr>)" using inv2 links_pending 2 unfolding hub_inv_def by blast
    then have "t \<in> set (h_links h2)" using p(3,5) by (simp add: attached_origin_def)
    moreover have "delete_pending h2 (key_of n) = drop_entry h2 (key_of n)"
      using delete_olink [OF _ 2, of src] inv2 p(3) by (simp add: hub_inv_def)
    ultimately show ?thesis using 2 p(3-5) by (auto simp: msg demux_def assms(6) deliver_def)
  qed
  with p(2,6) show ?thesis by simp
qed

theorem response_correlation_witness:
  "hub_step demo_cfg demo_sent (9, Receive 1 (Success (Some (hub_id 1)) JNull)) =
     (drop_entry demo_sent (key_of 1), [Send 2 (Success (Some (IdStr ''x'')) JNull)])"
proof -
  have links: "2 \<in> set (h_links demo_hub)" by code_simp
  have "snd (hub_step demo_cfg demo_hub (5, Receive 2 demo_request)) = [Send 1 (Request (hub_id 1) ''a/b::i::m'' None)]"
    by code_simp
  then have step: "hub_step demo_cfg demo_hub (5, Receive 2 (Request (IdStr ''x'') ''a/b::i::m'' None)) =
      (demo_sent, [Send 1 (Request (hub_id 1) ''a/b::i::m'' None)])"
    by (simp add: demo_sent_def demo_request_def prod_eq_iff)
  have run: "demo_sent = fst (hub_run demo_cfg demo_sent [])" by simp
  have id: "response_id (Success (Some (hub_id 1)) JNull) = Some (hub_id 1)" by simp
  from response_correlation [OF demo_reachable links step _ run id, of 1 9 1] show ?thesis
    by (simp add: with_id_def)
qed


text \<open>A progress frame follows the response's path: from the link the request went to, and from
  no other, it reaches the link the request came from under the id it has there, and it puts
  off the idle timer.\<close>

theorem stream_correlation:
  assumes "reachable_hub cfg h" "src \<in> set (h_links h)"
    "hub_step cfg h (now, Receive src (Request i meth params)) = (h1, out)" "Send t (Request (hub_id n) meth params) \<in> set out"
    "h2 = fst (hub_run cfg h1 es)"
    "map_of kvs ''requestId'' = Some (id_json (hub_id n))" "map_of kvs ''dir'' = Some (JStr DIR_toCaller)"
  shows "hub_step cfg h2 (now2, Receive l (Notification STREAM_METHOD (Some (JObj kvs)))) =
      (if l = t \<and> jm_get (h_pending h2) (key_of n) \<noteq> None
       then (arm_idle cfg now2 h2 (key_of n),
             [Send src (Notification STREAM_METHOD (Some (JObj (jm_set kvs ''requestId'' (id_json i)))))])
       else (h2, []))"
proof -
  let ?m = "Notification STREAM_METHOD (Some (JObj kvs))"
  note inv = reachable_inv [OF assms(1)]
  obtain p where p: "n < h_nextId h1" "jm_get (h_pending h1) (key_of n) = Some p" "pd_origin p = OLink src"
    "pd_originalId p = i" "pd_target p = t" "jm_get (h_pending h) (key_of n) = None"
    by (rule forwarded_entry [OF inv assms(2-4)])
  have inv1: "hub_inv h1" using hub_step_inv [OF inv, of cfg "(now, Receive src (Request i meth params))"] assms(3) by simp
  have inv2: "hub_inv h2" using hub_run_inv [OF inv1] assms(5) by simp
  have f: "stream_field ''requestId'' ?m = Some (id_json (hub_id n))" "stream_field ''dir'' ?m = Some (JStr DIR_toCaller)"
    using assms(6,7) by (simp_all add: stream_field_def stream_params_def params_of_def field_def)
  have msg: "on_message cfg now2 h2 l' ?m = route_stream cfg now2 h2 l' ?m" for l'
    by (simp add: on_message_def)
  consider "jm_get (h_pending h2) (key_of n) = None" | u where "jm_get (h_pending h2) (key_of n) = Some (p\<lparr>pd_timer := u\<rparr>)"
    using correlation_later [OF inv1 p(1,2) assms(5)] by (elim disjE exE)
  then show ?thesis
  proof cases
    case 1
    then show ?thesis by (simp add: msg route_stream_def f Let_def)
  next
    case 2
    have "attached_origin h2 (p\<lparr>pd_timer := u\<rparr>)" using inv2 links_pending 2 unfolding hub_inv_def by blast
    then have "t \<in> set (h_links h2)" using p(3,5) by (simp add: attached_origin_def)
    then show ?thesis
      using 2 p(3-5) by (auto simp: msg route_stream_def f Let_def reset_idle_eq deliver_def with_requestId_def
          params_of_def spread_def)
  qed
qed

theorem stream_correlation_witness:
  "snd (hub_step demo_cfg demo_sent (9, Receive 1 (Notification STREAM_METHOD (Some (JObj
      [(''requestId'', id_json (hub_id 1)), (''dir'', JStr DIR_toCaller)]))))) =
   [Send 2 (Notification STREAM_METHOD (Some (JObj [(''requestId'', JStr ''x''), (''dir'', JStr DIR_toCaller)])))]"
proof -
  have links: "2 \<in> set (h_links demo_hub)" "jm_get (h_pending demo_sent) (key_of 1) \<noteq> None" by code_simp+
  have "snd (hub_step demo_cfg demo_hub (5, Receive 2 demo_request)) = [Send 1 (Request (hub_id 1) ''a/b::i::m'' None)]"
    by code_simp
  then have step: "hub_step demo_cfg demo_hub (5, Receive 2 (Request (IdStr ''x'') ''a/b::i::m'' None)) =
      (demo_sent, [Send 1 (Request (hub_id 1) ''a/b::i::m'' None)])"
    by (simp add: demo_sent_def demo_request_def prod_eq_iff)
  have run: "demo_sent = fst (hub_run demo_cfg demo_sent [])" by simp
  from stream_correlation [OF demo_reachable links(1) step _ run, of 1 1 "[(''requestId'', id_json (hub_id 1)), (''dir'', JStr DIR_toCaller)]" 9 1]
    links(2) show ?thesis
    by (simp add: id_json_def)
qed

text \<open>What the one who waits for a request hears when it idles out: the link it came from, or the caller
  or watch inside the hub if it still waits.\<close>

definition idle_answer :: "hub_opts \<Rightarrow> hub \<Rightarrow> pending \<Rightarrow> hub_out list" where
  "idle_answer cfg h p =
     (let e = \<lparr>err_code = ERR_requestTimeout, err_message = ''request idle-timed-out'',
            err_data = map_option (\<lambda>n. JObj [(''hub'', JStr n)]) (ho_debugName cfg)\<rparr> in
      case pd_origin p of
        OLink l \<Rightarrow> [Send l (Failure (Some (pd_originalId p)) e)]
      | ORequest k _ \<Rightarrow> if k \<in> set (h_sinks h) then [Settled k (RejectedRpc e)] else []
      | OWatch k _ \<Rightarrow> if k \<in> set (h_sinks h) then [WatchSettled k] else [])"

text \<open>C36: No request is pending for ever: with idle timeouts on (a delay \<^verbatim>\<open>setTimeout\<close> can hold), every pending request, forwarded or
  the hub's own, has a timer that is due within the timeout of some step of the run, and once it is due
  its firing removes the request, tells the target to cancel and answers the one who waits with a
  timeout error.\<close>

theorem idle_request_ends:
  assumes "0 < ho_idleMs cfg" "h = fst (hub_run cfg hub_init es)" "jm_get (h_pending h) key = Some p"
  shows "\<exists>t\<in>fst ` set es. \<forall>now. int t + ho_idleMs cfg \<le> int now \<longrightarrow>
    hub_step cfg h (now, IdleTimer key) =
      (drop_entry h key, inject_cancel (pd_target p) key REASON_idleTimeout # idle_answer cfg h p)"
proof -
  have "armed cfg (fst ` set es) h"
    unfolding assms(2) by (rule armed_run [OF hub_inv_init _ _ assms(1)]) (simp_all add: armed_def hub_init_def)
  with assms(3) obtain t where t: "t \<in> fst ` set es" "pd_timer p = Some (int t + ho_idleMs cfg)"
    unfolding armed_def by blast
  have inv: "pending_inv h" using hub_run_inv [OF hub_inv_init] assms(2) by (simp add: hub_inv_def)
  note drop = reply_error_drop [OF inv assms(3), of cfg "pd_originalId p" ERR_requestTimeout "''request idle-timed-out''"]
  have "snd (reply_error cfg (delete_pending h key) (pd_origin p) (pd_originalId p) ERR_requestTimeout
      ''request idle-timed-out'') = idle_answer cfg h p"
    by (simp add: reply_error_def deliver_def idle_answer_def finish_def watch_receive_def watch_stop_def is_notification_def
        is_response_def delete_pending_def Let_def split: origin.split)
  with drop have "reply_error cfg (delete_pending h key) (pd_origin p) (pd_originalId p) ERR_requestTimeout
      ''request idle-timed-out'' = (drop_entry h key, idle_answer cfg h p)" by (simp add: prod_eq_iff)
  with assms(3) t show ?thesis
    by (intro bexI [of _ t]) (simp_all add: idle_due_def on_idle_timeout_def)
qed

theorem idle_request_ends_witness:
  "\<exists>t\<in>fst ` set (demo_start @ [(5, Receive 2 demo_request)]).
    snd (hub_step demo_cfg demo_sent (t + 100, IdleTimer ''1'')) =
      [inject_cancel 1 ''1'' REASON_idleTimeout,
       Send 2 (Failure (Some (IdStr ''x'')) \<lparr>err_code = ERR_requestTimeout,
         err_message = ''request idle-timed-out'', err_data = None\<rparr>)]"
proof -
  define p where "p = the (jm_get (h_pending demo_sent) ''1'')"
  have "jm_get (h_pending demo_sent) ''1'' \<noteq> None" by code_simp
  then have get: "jm_get (h_pending demo_sent) ''1'' = Some p" by (auto simp: p_def)
  have p: "pd_origin p = OLink 2" "pd_target p = 1" "pd_originalId p = IdStr ''x''"
    unfolding p_def by code_simp+
  have idle: "0 < ho_idleMs demo_cfg" "ho_idleMs demo_cfg = 100" "ho_debugName demo_cfg = None"
    by (simp_all add: demo_cfg_def)
  have run: "demo_sent = fst (hub_run demo_cfg hub_init (demo_start @ [(5, Receive 2 demo_request)]))"
    by (simp add: hub_run_append demo_sent_def demo_hub_def case_prod_unfold)
  from idle_request_ends [OF idle(1) run get] obtain t where
    "t\<in>fst ` set (demo_start @ [(5, Receive 2 demo_request)])"
    "\<forall>now. int t + ho_idleMs demo_cfg \<le> int now \<longrightarrow> hub_step demo_cfg demo_sent (now, IdleTimer ''1'') =
      (drop_entry demo_sent ''1'', inject_cancel (pd_target p) ''1'' REASON_idleTimeout # idle_answer demo_cfg demo_sent p)" by blast
  moreover have "idle_answer demo_cfg demo_sent p = [Send 2 (Failure (Some (IdStr ''x'')) \<lparr>err_code = ERR_requestTimeout,
         err_message = ''request idle-timed-out'', err_data = None\<rparr>)]"
    by (simp add: idle_answer_def p idle)
  ultimately show ?thesis using idle p by (intro bexI [of _ t]) simp_all
qed

text \<open>A message addressed to the hub's root, by a bare name or an interface without a service, is
  never forwarded: nothing is sent but to the root handler, and error responses and the node id to
  the sender.\<close>

theorem root_form_stays_local:
  assumes "parse_method_name meth = Some r" "\<not> (\<exists>s i m. r = Full s i m)" "meth \<noteq> STREAM_METHOD"
    "x = Request i meth params \<or> x = Notification meth params"
    "Send t m \<in> set (snd (hub_step cfg h (now, Receive src x)))"
  shows "h_loopback h = Some t \<or> (t = src \<and> is_response m \<and> response_id m = Some i \<and> x = Request i meth params)"
proof -
  have "resolve_method h meth src = Loopback (h_loopback h)"
    using assms(1,2) by (cases r) (auto simp: resolve_method_def)
  then have link: "resolved_link (resolve_method h meth src) = h_loopback h"
    by (simp add: resolved_link_def)
  from assms(4) show ?thesis
  proof
    assume "x = Request i meth params"
    with assms(5) link show ?thesis
      by (auto simp: on_message_def route_request_def Let_def case_prod_unfold reply_error_def deliver_def
          split: if_splits option.splits)
  next
    assume "x = Notification meth params"
    with assms(3,5) link show ?thesis
      by (auto simp: on_message_def route_notification_def split: if_splits option.splits)
  qed
qed

theorem root_form_stays_local_witness:
  "snd (hub_step demo_cfg demo_hub (0, Receive 2 (Request (IdStr ''x'') ''i::m'' None))) =
     [Send 1 (Request (hub_id 1) ''i::m'' None)] \<and> h_loopback demo_hub = Some 1"
proof -
  have out: "snd (hub_step demo_cfg demo_hub (0, Receive 2 (Request (IdStr ''x'') ''i::m'' None))) =
     [Send 1 (Request (hub_id 1) ''i::m'' None)]"
    by code_simp
  then have sent: "Send 1 (Request (hub_id 1) ''i::m'' None) \<in>
      set (snd (hub_step demo_cfg demo_hub (0, Receive 2 (Request (IdStr ''x'') ''i::m'' None))))"
    by (simp only: list.set) simp
  have "parse_method_name ''i::m'' = Some (Interface ''i'' ''m'')" "''i::m'' \<noteq> STREAM_METHOD" by code_simp+
  from root_form_stays_local [OF this(1) _ this(2) _ sent, of "IdStr ''x''" None]
  have "h_loopback demo_hub = Some 1" by simp
  with out show ?thesis by simp
qed

text \<open>After a link is detached the hub refers to it nowhere: not as attached, claim owner, uplink,
  loopback, nor as origin or target of a pending request; everything about other links is kept.\<close>

theorem detach_leaves_no_trace:
  assumes "reachable_hub cfg h" "link \<in> set (h_links h)" "h' = fst (hub_step cfg h (now, Detach link))"
  shows "set (h_links h') = set (h_links h) - {link} \<and>
    ft_get (h_table h') p = (if ft_get (h_table h) p = Some link then None else ft_get (h_table h) p) \<and>
    h_uplink h' = (if h_uplink h = Some link then None else h_uplink h) \<and>
    h_loopback h' = (if h_loopback h = Some link then None else h_loopback h) \<and>
    jm_get (h_pending h') key = (case jm_get (h_pending h) key of
       None \<Rightarrow> None
     | Some q \<Rightarrow> if pd_origin q = OLink link \<or> pd_target q = link then None else Some q)"
proof -
  have "h' = fst (detach cfg h link)" using assms(3) by simp
  from detach_state [OF reachable_inv [OF assms(1)] assms(2) this] show ?thesis
    by (auto simp: concerns_def split: option.split)
qed

theorem detach_leaves_no_trace_witness:
  "h_loopback (fst (hub_step demo_cfg demo_sent (9, Detach 1))) = None"
proof -
  have "1 \<in> set (h_links demo_sent)" "h_loopback demo_sent = Some 1" by code_simp+
  with detach_leaves_no_trace [OF demo_sent_reachable this(1) refl, of 9 "[]" "[]"] show ?thesis by simp
qed

text \<open>A request the hub itself makes is settled by the first frame its target sends for it, and not
  only by the response: a progress frame resolves it with no value while the request stays pending,
  and the response that follows is dropped.\<close>

theorem progress_settles_own_request:
  assumes "reachable_hub cfg h" "jm_get (h_pending h) (key_of k) = Some p" "pd_origin p = ORequest k l"
    "k \<in> set (h_sinks h)" "pd_target p \<in> set (h_links h)"
    "map_of kvs ''requestId'' = Some (id_json (hub_id k))" "map_of kvs ''dir'' = Some (JStr DIR_toCaller)"
    "hub_step cfg h (now, Receive (pd_target p) (Notification STREAM_METHOD (Some (JObj kvs)))) = (h1, out)"
  shows "out = [Settled k (Resolved None)] \<and> jm_get (h_pending h1) (key_of k) \<noteq> None \<and>
    snd (hub_step cfg h1 (now2, Receive (pd_target p) (Success (Some (hub_id k)) v))) = []"
proof -
  let ?m = "Notification STREAM_METHOD (Some (JObj kvs))"
  have f: "stream_field ''requestId'' ?m = Some (id_json (hub_id k))" "stream_field ''dir'' ?m = Some (JStr DIR_toCaller)"
    using assms(6,7) by (simp_all add: stream_field_def stream_params_def params_of_def field_def)
  let ?h1 = "(arm_idle cfg now h (key_of k))\<lparr>h_sinks := filter (\<lambda>j. j \<noteq> k) (h_sinks h)\<rparr>"
  obtain q where "with_requestId ?m (pd_originalId p) = Notification STREAM_METHOD q"
    using with_requestId_stream by blast
  with assms(2-5,8) have h1: "h1 = ?h1" "out = [Settled k (Resolved None)]"
    by (auto simp: on_message_def route_stream_def f Let_def reset_idle_eq deliver_def finish_def)
  moreover obtain u where u: "jm_get (h_pending ?h1) (key_of k) = Some (p\<lparr>pd_timer := u\<rparr>)"
    using assms(2) timer_same [of p] by (cases "0 < ho_idleMs cfg") (auto simp: arm_idle_get)
  moreover have "snd (hub_step cfg ?h1 (now2, Receive (pd_target p) (Success (Some (hub_id k)) v))) = []"
    using u assms(3,5) by (simp add: on_message_def demux_def deliver_def finish_def delete_pending_def)
  ultimately show ?thesis by simp
qed

theorem progress_settles_own_request_witness:
  "snd (hub_step demo_cfg (fst (hub_step demo_cfg demo_hub (5, RequestOn 1 ''i::m'' JNull)))
      (6, Receive 1 (Notification STREAM_METHOD (Some (JObj [(''requestId'', id_json (hub_id 1)), (''dir'', JStr DIR_toCaller)])))))
   = [Settled 1 (Resolved None)]"
proof -
  define h where "h = fst (hub_step demo_cfg demo_hub (5, RequestOn 1 ''i::m'' JNull))"
  define p where "p = the (jm_get (h_pending h) (key_of 1))"
  define kvs where "kvs = [(''requestId'', id_json (hub_id 1)), (''dir'', JStr DIR_toCaller)]"
  have reach: "reachable_hub demo_cfg h" unfolding h_def by (rule reachable_step [OF demo_reachable])
  have "jm_get (h_pending h) (key_of 1) \<noteq> None" unfolding h_def by code_simp
  then have get: "jm_get (h_pending h) (key_of 1) = Some p" by (auto simp: p_def)
  have p: "pd_origin p = ORequest 1 1" "1 \<in> set (h_sinks h)" "pd_target p \<in> set (h_links h)" "pd_target p = 1"
    unfolding p_def h_def by code_simp+
  have "map_of kvs ''requestId'' = Some (id_json (hub_id 1))" "map_of kvs ''dir'' = Some (JStr DIR_toCaller)"
    by (simp_all add: kvs_def)
  from progress_settles_own_request [OF reach get p(1-3) this surjective_pairing, of 6] show ?thesis
    by (simp add: p(4) h_def kvs_def)
qed


end
