(* ===== verification/Splitter.thy ===== *)
theory Splitter
  imports Streaming
begin

text \<open>
  \<^verbatim>\<open>routing/overlaySplitter.ts\<close>: the three-port splitter between a participant (P), its local
  root services (C) and the parent hub (H).  Requests for the participant get their return
  path pushed onto their id; the only per-request state is the target of each request the
  participant sent.  A handler returns the new state and what it sends, in order; transits are
  emitted when inspection is on.
\<close>

section \<open>Ports, ids\<close>

datatype origin_port = OriginH | OriginC

definition origin_tag :: "origin_port \<Rightarrow> char" where
  "origin_tag p = (case p of OriginH \<Rightarrow> CHR ''H'' | OriginC \<Rightarrow> CHR ''C'')"

definition SEP :: char where "SEP = CHR 0x00"

definition encode_id :: "origin_port \<Rightarrow> request_id \<Rightarrow> string" where
  "encode_id origin i =
     [origin_tag origin, SEP, (case i of IdNum _ \<Rightarrow> CHR ''n'' | IdStr _ \<Rightarrow> CHR ''s''), SEP] @ id_string i"

definition decode_id :: "request_id \<Rightarrow> (origin_port \<times> request_id) option" where
  "decode_id i = (case i of
     IdNum _ \<Rightarrow> None
   | IdStr s \<Rightarrow> (case index_of SEP s of
       None \<Rightarrow> None
     | Some i1 \<Rightarrow>
         (let origin = take i1 s in
          if origin \<noteq> ''H'' \<and> origin \<noteq> ''C'' then None
          else (case index_of SEP (drop (i1 + 1) s) of
            None \<Rightarrow> None
          | Some k \<Rightarrow>
              (let ty = take k (drop (i1 + 1) s);
                   raw = drop (i1 + 1 + k + 1) s in
               Some (if origin = ''H'' then OriginH else OriginC,
                 if ty = ''n'' then IdNum (js_number raw) else IdStr raw))))))"

section \<open>State\<close>

record inspection =
  si_nodeId :: string
  si_edge_p :: string
  si_edge_c :: string
  si_edge_h :: string

record splitter =
  sp_disposed :: bool
  sp_inspect :: "inspection option"
  sp_pInitiated :: "(request_id \<times> origin_port) list"

definition splitter_new :: "inspection option \<Rightarrow> splitter" where
  "splitter_new inspect = \<lparr>sp_disposed = False, sp_inspect = inspect, sp_pInitiated = []\<rparr>"

definition splitter_dispose :: "splitter \<Rightarrow> splitter" where
  "splitter_dispose st = (if sp_disposed st then st else st\<lparr>sp_disposed := True, sp_pInitiated := []\<rparr>)"

datatype splitter_out = ToP message | ToC message | ToH message | Transit node_transit

definition send_origin :: "origin_port \<Rightarrow> message \<Rightarrow> splitter_out" where
  "send_origin p m = (case p of OriginH \<Rightarrow> ToH m | OriginC \<Rightarrow> ToC m)"

section \<open>Transits\<close>

definition origin_edge :: "inspection \<Rightarrow> origin_port \<Rightarrow> string" where
  "origin_edge ins p = (case p of OriginH \<Rightarrow> si_edge_h ins | OriginC \<Rightarrow> si_edge_c ins)"

definition request_id_of :: "message \<Rightarrow> request_id option" where
  "request_id_of m = (case m of Request i _ _ \<Rightarrow> Some i | _ \<Rightarrow> None)"

definition mk_forward :: "inspection \<Rightarrow> nat \<Rightarrow> string \<Rightarrow> message \<Rightarrow> string option \<Rightarrow> string \<Rightarrow> string
    \<Rightarrow> request_id option \<Rightarrow> node_transit" where
  "mk_forward ins now inEdge m outEdge meth disposition outRequestId =
     \<lparr>nt_timeMs = now, nt_nodeId = si_nodeId ins,
      nt_in = \<lparr>te_edgeId = inEdge, te_requestId = request_id_of m\<rparr>,
      nt_out = map_option (\<lambda>e. \<lparr>te_edgeId = e, te_requestId =
        (if is_request m then (case outRequestId of Some i \<Rightarrow> Some i | None \<Rightarrow> request_id_of m) else None)\<rparr>) outEdge,
      nt_disposition = disposition,
      nt_kind = (if is_request m then ''request'' else ''notification''),
      nt_method = Some meth, nt_params = params_of m, nt_result = None, nt_error = None\<rparr>"

definition mk_response :: "inspection \<Rightarrow> nat \<Rightarrow> string \<Rightarrow> request_id option \<Rightarrow> string \<Rightarrow> request_id option \<Rightarrow> message
    \<Rightarrow> node_transit" where
  "mk_response ins now inEdge inId outEdge outId m =
     \<lparr>nt_timeMs = now, nt_nodeId = si_nodeId ins,
      nt_in = \<lparr>te_edgeId = inEdge, te_requestId = inId\<rparr>,
      nt_out = Some \<lparr>te_edgeId = outEdge, te_requestId = outId\<rparr>,
      nt_disposition = ''forwarded'', nt_kind = ''response'', nt_method = None, nt_params = None,
      nt_result = (case m of Success _ r \<Rightarrow> Some r | _ \<Rightarrow> None),
      nt_error = (case m of Failure _ e \<Rightarrow> Some e | _ \<Rightarrow> None)\<rparr>"

text \<open>\<^verbatim>\<open>if (this._inspect) this._emit(...)\<close>\<close>

definition emit :: "splitter \<Rightarrow> (inspection \<Rightarrow> node_transit) \<Rightarrow> splitter_out list" where
  "emit st f = (case sp_inspect st of None \<Rightarrow> [] | Some ins \<Rightarrow> [Transit (f ins)])"

section \<open>Reading messages\<close>

definition stream_requestId :: "message \<Rightarrow> request_id option" where
  "stream_requestId m = (case stream_field ''requestId'' m of
     Some (JNum n) \<Rightarrow> Some (IdNum n) | Some (JStr s) \<Rightarrow> Some (IdStr s) | _ \<Rightarrow> None)"

definition stream_dir :: "message \<Rightarrow> string option" where
  "stream_dir m = (case stream_field ''dir'' m of
     Some (JStr d) \<Rightarrow> if d = DIR_toCaller \<or> d = DIR_toCallee then Some d else None | _ \<Rightarrow> None)"

definition is_root_form :: "string \<Rightarrow> bool option" where
  "is_root_form meth = (case parse_method_name meth of
     None \<Rightarrow> None
   | Some (Bare _) \<Rightarrow> Some True
   | Some (Interface _ _) \<Rightarrow> Some True
   | Some (Full _ _ _) \<Rightarrow> Some False)"

section \<open>Handlers\<close>

definition route_participant_stream :: "splitter \<Rightarrow> message \<Rightarrow> splitter_out list" where
  "route_participant_stream st m =
     (let requestId = stream_requestId m;
          dec = (if stream_dir m = Some DIR_toCaller
            then (case requestId of Some i \<Rightarrow> decode_id i | None \<Rightarrow> None) else None) in
      case dec of
        Some (origin, i) \<Rightarrow> [send_origin origin (with_requestId m i)]
      | None \<Rightarrow>
          (let initiated = (case requestId of Some i \<Rightarrow> jm_get (sp_pInitiated st) i | None \<Rightarrow> None) in
           if initiated = Some OriginC then [ToC m] else [ToH m]))"

definition from_participant :: "splitter \<Rightarrow> nat \<Rightarrow> message \<Rightarrow> splitter \<times> splitter_out list" where
  "from_participant st now m =
     (if is_response m then
        (case response_id m of
           None \<Rightarrow> (st, [])
         | Some i \<Rightarrow> (case decode_id i of
             None \<Rightarrow> (st, [])
           | Some (origin, j) \<Rightarrow>
               (st, emit st (\<lambda>ins. mk_response ins now (si_edge_p ins) (Some i) (origin_edge ins origin) (Some j) m)
                 @ [send_origin origin (with_id m j)])))
      else (case method_of m of
        None \<Rightarrow> (st, [])
      | Some meth \<Rightarrow>
          if meth = STREAM_METHOD then (st, route_participant_stream st m)
          else (case is_root_form meth of
            None \<Rightarrow> (st, emit st (\<lambda>ins. mk_forward ins now (si_edge_p ins) m None meth ''dropped'' None))
          | Some rootForm \<Rightarrow>
              let target = (if rootForm then OriginC else OriginH);
                  st' = (case request_id_of m of
                      Some i \<Rightarrow> st\<lparr>sp_pInitiated := jm_set (sp_pInitiated st) i target\<rparr>
                    | None \<Rightarrow> st) in
              (st', emit st (\<lambda>ins. mk_forward ins now (si_edge_p ins) m (Some (origin_edge ins target)) meth ''forwarded'' None)
                @ [send_origin target m]))))"

definition from_upstream :: "splitter \<Rightarrow> nat \<Rightarrow> message \<Rightarrow> origin_port \<Rightarrow> splitter \<times> splitter_out list" where
  "from_upstream st now m origin =
     (if is_response m then
        (let st' = (case response_id m of
             Some i \<Rightarrow> st\<lparr>sp_pInitiated := jm_delete (sp_pInitiated st) i\<rparr> | None \<Rightarrow> st) in
         (st', emit st (\<lambda>ins. mk_response ins now (origin_edge ins origin) (response_id m) (si_edge_p ins) (response_id m) m)
           @ [ToP m]))
      else (case method_of m of
        None \<Rightarrow> (st, [])
      | Some meth \<Rightarrow>
          if meth = STREAM_METHOD then
            (st, [ToP (if stream_dir m = Some DIR_toCallee
               then (case stream_requestId m of
                   Some i \<Rightarrow> with_requestId m (IdStr (encode_id origin i))
                 | None \<Rightarrow> m)
               else m)])
          else if is_root_form meth = None then
            (st, emit st (\<lambda>ins. mk_forward ins now (origin_edge ins origin) m None meth ''dropped'' None))
          else (case m of
            Request i _ _ \<Rightarrow>
              (st, emit st (\<lambda>ins. mk_forward ins now (origin_edge ins origin) m (Some (si_edge_p ins)) meth ''forwarded''
                  (Some (IdStr (encode_id origin i))))
                @ [ToP (with_id m (IdStr (encode_id origin i)))])
          | _ \<Rightarrow> (st, emit st (\<lambda>ins. mk_forward ins now (origin_edge ins origin) m (Some (si_edge_p ins)) meth ''forwarded'' None)
                @ [ToP m]))))"

text \<open>An arrival on a port; a disposed splitter has no listeners.\<close>

datatype splitter_in = FromP message | FromC message | FromH message

fun splitter_step :: "splitter \<Rightarrow> nat \<times> splitter_in \<Rightarrow> splitter \<times> splitter_out list" where
  "splitter_step st (now, inp) =
     (if sp_disposed st then (st, [])
      else case inp of
        FromP m \<Rightarrow> from_participant st now m
      | FromC m \<Rightarrow> from_upstream st now m OriginC
      | FromH m \<Rightarrow> from_upstream st now m OriginH)"

fun splitter_run :: "splitter \<Rightarrow> (nat \<times> splitter_in) list \<Rightarrow> splitter \<times> splitter_out list" where
  "splitter_run st [] = (st, [])"
| "splitter_run st (i # is) = (case splitter_step st i of
     (st', out) \<Rightarrow> (case splitter_run st' is of (st'', out') \<Rightarrow> (st'', out @ out')))"

section \<open>The id tag is a lossless return path\<close>

definition id_wf :: "request_id \<Rightarrow> bool" where
  "id_wf i = (case i of IdNum n \<Rightarrow> dec_wf n | IdStr _ \<Rightarrow> True)"

lemma decode_tagged:
  assumes "t \<noteq> SEP"
  shows "decode_id (IdStr (origin_tag origin # SEP # t # SEP # raw)) =
    Some (origin, if t = CHR ''n'' then IdNum (js_number raw) else IdStr raw)"
  using assms by (cases origin) (simp_all add: decode_id_def origin_tag_def SEP_def Let_def)

lemma decode_encode: "id_wf i \<Longrightarrow> decode_id (IdStr (encode_id origin i)) = Some (origin, i)"
proof -
  have "CHR ''n'' \<noteq> SEP" "CHR ''s'' \<noteq> SEP" by (simp_all add: SEP_def)
  then show "id_wf i \<Longrightarrow> decode_id (IdStr (encode_id origin i)) = Some (origin, i)"
    by (cases i) (simp_all add: encode_id_def id_string_def id_wf_def decode_tagged js_number_num_to_string)
qed

lemma encode_id_inj: "id_wf i \<Longrightarrow> id_wf j \<Longrightarrow> encode_id p i = encode_id q j \<Longrightarrow> p = q \<and> i = j"
  using decode_encode by (metis option.inject prod.inject)

lemma decode_encoded_only: "decode_id (IdNum n) = None"
  by (simp add: decode_id_def)

section \<open>What a handler sends\<close>

fun sent_messages :: "splitter_out list \<Rightarrow> splitter_out list" where
  "sent_messages [] = []"
| "sent_messages (Transit _ # os) = sent_messages os"
| "sent_messages (x # os) = x # sent_messages os"

lemma sent_append [simp]: "sent_messages (a @ b) = sent_messages a @ sent_messages b"
  by (induction a rule: sent_messages.induct) auto

lemma sent_emit [simp]: "sent_messages (emit st f) = []"
  by (simp add: emit_def split: option.split)

lemma sent_origin [simp]: "sent_messages [send_origin p m] = [send_origin p m]"
  by (cases p) (simp_all add: send_origin_def)

lemma response_kinds: "is_response m \<longleftrightarrow> \<not> is_request m \<and> \<not> is_notification m"
  by (cases m) (simp_all add: is_response_def is_request_def is_notification_def)

lemma message_kinds [simp]:
  "is_response (Request i meth p) = False" "is_response (Notification meth p) = False"
  "is_response (Success j r)" "is_response (Failure j e)"
  "method_of (Request i meth p) = Some meth" "method_of (Notification meth p) = Some meth"
  "method_of (Success j r) = None" "method_of (Failure j e) = None"
  "response_id (Success j r) = j" "response_id (Failure j e) = j"
  "request_id_of (Request i meth p) = Some i" "request_id_of (Notification meth p) = None"
  by (simp_all add: is_response_def method_of_def response_id_def request_id_of_def)

lemma upstream_request:
  "is_root_form meth \<noteq> None \<Longrightarrow> meth \<noteq> STREAM_METHOD \<Longrightarrow>
   fst (from_upstream st now (Request i meth p) origin) = st \<and>
   sent_messages (snd (from_upstream st now (Request i meth p) origin)) =
     [ToP (Request (IdStr (encode_id origin i)) meth p)]"
  by (auto simp: from_upstream_def with_id_def)

lemma participant_response:
  assumes "is_response m" "response_id m = Some j" "decode_id j = Some (origin, i)"
  shows "fst (from_participant st now m) = st \<and>
    sent_messages (snd (from_participant st now m)) = [send_origin origin (with_id m i)]"
  using assms by (simp add: from_participant_def)

lemma stream_dir_with_requestId:
  assumes "is_request m \<or> is_notification m" "stream_dir m = Some d"
  shows "stream_dir (with_requestId m i) = Some d"
proof -
  from assms(2) have d: "stream_field ''dir'' m = Some (JStr d)" "d = DIR_toCaller \<or> d = DIR_toCallee"
    by (auto simp: stream_dir_def split: option.splits json.splits if_splits)
  then have "map_of (spread (params_of m)) ''dir'' = Some (JStr d)"
    by (auto simp: stream_field_def stream_params_def field_def split: option.splits json.splits)
  with d(2) show ?thesis
    using stream_field_with_requestId [OF assms(1), of "''dir''" i] by (simp add: stream_dir_def)
qed

lemma stream_requestId_with_requestId:
  "is_request m \<or> is_notification m \<Longrightarrow> stream_requestId (with_requestId m i) = Some i"
  by (cases i) (simp_all add: stream_requestId_def stream_field_with_requestId id_json_def)

section \<open>The one piece of state\<close>

text \<open>What the table of sent requests should hold after a history: the port each request went to, as
  long as no response with its id has come back.\<close>

fun outstanding :: "(nat \<times> splitter_in) list \<Rightarrow> request_id \<Rightarrow> origin_port option" where
  "outstanding [] i = None"
| "outstanding ((_, inp) # h) i = (case inp of
     FromP (Request j meth _) \<Rightarrow>
       (if j = i \<and> meth \<noteq> STREAM_METHOD \<and> is_root_form meth \<noteq> None
        then Some (if is_root_form meth = Some True then OriginC else OriginH) else outstanding h i)
   | FromP _ \<Rightarrow> outstanding h i
   | FromC m \<Rightarrow> (if is_response m \<and> response_id m = Some i then None else outstanding h i)
   | FromH m \<Rightarrow> (if is_response m \<and> response_id m = Some i then None else outstanding h i))"

lemma from_participant_state:
  "jm_get (sp_pInitiated (fst (from_participant st now m))) i = (case m of
     Request j meth _ \<Rightarrow>
       (if j = i \<and> meth \<noteq> STREAM_METHOD \<and> is_root_form meth \<noteq> None
        then Some (if is_root_form meth = Some True then OriginC else OriginH) else jm_get (sp_pInitiated st) i)
   | _ \<Rightarrow> jm_get (sp_pInitiated st) i)"
  "sp_disposed (fst (from_participant st now m)) = sp_disposed st"
  by (cases m; auto simp: from_participant_def Let_def split: option.splits)+

lemma from_upstream_state:
  "jm_get (sp_pInitiated (fst (from_upstream st now m origin))) i =
     (if is_response m \<and> response_id m = Some i then None else jm_get (sp_pInitiated st) i)"
  "sp_disposed (fst (from_upstream st now m origin)) = sp_disposed st"
  by (cases m; auto simp: from_upstream_def Let_def split: option.splits)+

lemma step_state:
  "\<not> sp_disposed st \<Longrightarrow> jm_get (sp_pInitiated (fst (splitter_step st inp))) i =
     (case snd inp of
        FromP (Request j meth _) \<Rightarrow>
          (if j = i \<and> meth \<noteq> STREAM_METHOD \<and> is_root_form meth \<noteq> None
           then Some (if is_root_form meth = Some True then OriginC else OriginH) else jm_get (sp_pInitiated st) i)
      | FromP _ \<Rightarrow> jm_get (sp_pInitiated st) i
      | FromC m \<Rightarrow> (if is_response m \<and> response_id m = Some i then None else jm_get (sp_pInitiated st) i)
      | FromH m \<Rightarrow> (if is_response m \<and> response_id m = Some i then None else jm_get (sp_pInitiated st) i))"
  "sp_disposed (fst (splitter_step st inp)) = sp_disposed st"
  by (cases inp; auto simp: from_participant_state from_upstream_state split: splitter_in.splits message.splits)+

lemma splitter_run_state:
  "\<not> sp_disposed st \<Longrightarrow> \<forall>i. jm_get (sp_pInitiated st) i = outstanding (rev h) i \<Longrightarrow>
   \<forall>i. jm_get (sp_pInitiated (fst (splitter_run st is))) i = outstanding (rev (h @ is)) i"
proof (induction "is" arbitrary: st h)
  case (Cons x xs)
  define st' where "st' = fst (splitter_step st x)"
  have "\<not> sp_disposed st'" using Cons.prems(1) by (simp add: st'_def step_state)
  moreover have "\<forall>i. jm_get (sp_pInitiated st') i = outstanding (rev (h @ [x])) i"
    unfolding st'_def step_state(1) [OF Cons.prems(1)] using Cons.prems(2)
    by (cases x) (auto split: splitter_in.split message.split)
  ultimately have "\<forall>i. jm_get (sp_pInitiated (fst (splitter_run st' xs))) i = outstanding (rev ((h @ [x]) @ xs)) i"
    by (rule Cons.IH)
  moreover have "fst (splitter_run st (x # xs)) = fst (splitter_run st' xs)"
    by (simp add: st'_def split: prod.split)
  ultimately show ?case by simp
qed simp

section \<open>Properties\<close>

text \<open>Decoding an encoded id gives back the port and the id with its type, so ids of the two
  upstream ports never collide at the participant.\<close>

theorem splitter_id_roundtrip:
  assumes "id_wf i"
  shows "decode_id (IdStr (encode_id origin i)) = Some (origin, i)"
  using decode_encode [OF assms] .

theorem splitter_id_roundtrip_witness:
  "decode_id (IdStr (encode_id OriginH (IdNum (Dec 42 0)))) = Some (OriginH, IdNum (Dec 42 0))"
  by (rule splitter_id_roundtrip) code_simp

text \<open>The return path.  A request from either upstream port reaches the participant, and only it;
  whatever response the participant gives under the id it saw goes back, in whatever later state,
  to exactly that port with exactly the original id.\<close>

theorem splitter_return_path:
  assumes "is_root_form meth \<noteq> None" "meth \<noteq> STREAM_METHOD" "id_wf i"
    and "is_response m" "response_id m = Some (IdStr (encode_id origin i))"
  shows "sent_messages (snd (from_upstream st now (Request i meth p) origin)) =
      [ToP (Request (IdStr (encode_id origin i)) meth p)] \<and>
    sent_messages (snd (from_participant st' now' m)) = [send_origin origin (with_id m i)]"
  using upstream_request [OF assms(1,2)] participant_response [OF assms(4,5) decode_encode [OF assms(3)]] by blast

theorem splitter_return_path_witness:
  "sent_messages (snd (from_participant (splitter_new None) 0
      (Success (Some (IdStr (encode_id OriginC (IdStr ''5'')))) JNull))) = [ToC (Success (Some (IdStr ''5'')) JNull)]"
proof -
  have "is_root_form ''i::m'' \<noteq> None" "''i::m'' \<noteq> STREAM_METHOD" "id_wf (IdStr ''5'')" by code_simp+
  from splitter_return_path [OF this, of "Success (Some (IdStr (encode_id OriginC (IdStr ''5'')))) JNull" OriginC]
  show ?thesis by (simp add: send_origin_def with_id_def)
qed

text \<open>A stream frame follows the request it belongs to.  A frame for the callee arriving from an
  upstream port reaches the participant under the very id the request had there; a frame for the
  caller that the participant sends under that id goes back to that port with the original id.\<close>

theorem splitter_stream_path:
  assumes "id_wf i" "m = Notification STREAM_METHOD p" "stream_requestId m = Some i"
    and "r = Notification STREAM_METHOD q" "stream_dir r = Some DIR_toCaller"
    and "stream_requestId r = Some (IdStr (encode_id origin i))"
    and "stream_dir m = Some DIR_toCallee"
  shows "snd (from_upstream st now m origin) = [ToP (with_requestId m (IdStr (encode_id origin i)))] \<and>
    stream_requestId (with_requestId m (IdStr (encode_id origin i))) = Some (IdStr (encode_id origin i)) \<and>
    snd (from_participant st' now' r) = [send_origin origin (with_requestId r i)]"
proof -
  have "is_notification m" using assms(2) by (simp add: is_notification_def)
  then have "stream_requestId (with_requestId m (IdStr (encode_id origin i))) = Some (IdStr (encode_id origin i))"
    using stream_requestId_with_requestId by blast
  moreover have "snd (from_upstream st now m origin) = [ToP (with_requestId m (IdStr (encode_id origin i)))]"
    using assms(3,7) unfolding assms(2) by (simp add: from_upstream_def)
  moreover have "snd (from_participant st' now' r) = [send_origin origin (with_requestId r i)]"
    using assms(5,6) decode_encode [OF assms(1)] unfolding assms(4)
    by (simp add: from_participant_def route_participant_stream_def Let_def)
  ultimately show ?thesis by blast
qed

definition demo_frame :: "string \<Rightarrow> request_id \<Rightarrow> message" where
  "demo_frame dir i = Notification STREAM_METHOD (Some (JObj [(''requestId'', id_json i), (''dir'', JStr dir)]))"

theorem splitter_stream_path_witness:
  "snd (from_participant (splitter_new None) 0 (demo_frame DIR_toCaller (IdStr (encode_id OriginH (IdStr ''5''))))) =
     [ToH (with_requestId (demo_frame DIR_toCaller (IdStr (encode_id OriginH (IdStr ''5'')))) (IdStr ''5''))]"
proof -
  let ?m = "demo_frame DIR_toCallee (IdStr ''5'')" and ?r = "demo_frame DIR_toCaller (IdStr (encode_id OriginH (IdStr ''5'')))"
  have "id_wf (IdStr ''5'')" "stream_requestId ?m = Some (IdStr ''5'')" "stream_dir ?m = Some DIR_toCallee"
    "stream_dir ?r = Some DIR_toCaller" "stream_requestId ?r = Some (IdStr (encode_id OriginH (IdStr ''5'')))"
    by code_simp+
  with splitter_stream_path [OF this(1) _ this(2) _ this(4,5) this(3)] show ?thesis
    by (simp add: demo_frame_def send_origin_def)
qed

text \<open>The only per-request state is exact: after any history of arrivals the table holds, for each
  id, the port of the participant's latest request with that id unless a response to it has
  come back since.\<close>

theorem splitter_state_exact:
  "jm_get (sp_pInitiated (fst (splitter_run (splitter_new ins) inps))) i = outstanding (rev inps) i"
  using splitter_run_state [of "splitter_new ins" "[]" inps] by (simp add: splitter_new_def)

text \<open>The port rules.  A root-form message of the participant goes to the local root services only
  and a qualified one to the parent hub only; nothing from upstream goes anywhere but to the
  participant; and a malformed method is dropped.\<close>

theorem splitter_port_rules:
  assumes "method_of m = Some meth" "meth \<noteq> STREAM_METHOD"
  shows "sent_messages (snd (from_participant st now m)) =
      (case is_root_form meth of None \<Rightarrow> [] | Some True \<Rightarrow> [ToC m] | Some False \<Rightarrow> [ToH m]) \<and>
    (\<exists>ms. sent_messages (snd (from_upstream st now m origin)) = map ToP ms \<and>
       length ms = (if is_root_form meth = None then 0 else 1))"
proof -
  have "sent_messages (snd (from_participant st now m)) =
      (case is_root_form meth of None \<Rightarrow> [] | Some True \<Rightarrow> [ToC m] | Some False \<Rightarrow> [ToH m])"
    using assms by (cases m) (auto simp: from_participant_def Let_def send_origin_def split: option.split bool.split)
  moreover have "\<exists>ms. sent_messages (snd (from_upstream st now m origin)) = map ToP ms \<and>
       length ms = (if is_root_form meth = None then 0 else 1)"
    using assms
    by (cases m) (auto simp: from_upstream_def intro: exI [of _ "[]"] exI [of _ "[x]" for x])
  ultimately show ?thesis by blast
qed

theorem splitter_port_rules_witness:
  "sent_messages (snd (from_participant (splitter_new None) 0 (Notification ''s::i::m'' None))) =
     [ToH (Notification ''s::i::m'' None)]"
proof -
  have *: "method_of (Notification ''s::i::m'' None) = Some ''s::i::m''" "''s::i::m'' \<noteq> STREAM_METHOD"
    "is_root_form ''s::i::m'' = Some False" by code_simp+
  from splitter_port_rules [OF *(1,2)] *(3) show ?thesis by simp
qed

end
