(* ===== verification/Channel.thy ===== *)
theory Channel
  imports Streaming
begin

text \<open>
  \<^verbatim>\<open>connection/jsonRpcChannel.ts\<close>: one end of a JSON-RPC connection.  It gives its own requests
  ids and settles their promises, runs the handler for the peer's requests, and keeps
  streams, pings and aborts by the text of the request id.  A promise is named by the id of the
  call it belongs to, a run of the handler by a number of its own; the handler, the transport and the
  timers act through events.  The wire observer only observes and is left out, and so is a
  handler that calls back into the channel while it is being called: it does so in a later event.
\<close>

section \<open>State\<close>

datatype call_error = Remote rpc_error | Local json int | Failed string

datatype pinger_id = Outgoing nat | Incoming nat

record pinger =
  pg_requestId :: request_id
  pg_dir :: string
  pg_nextNonce :: nat
  pg_pending :: "string list"

datatype listener = CallerListener nat | HandlerListener nat

datatype controller = CallControl nat | HandlerControl nat

datatype handler_result = HandlerResult json | HandlerError rpc_error | HandlerThrew string

record channel =
  ch_nextId :: nat
  ch_pending :: "(string \<times> nat) list"
  ch_streamListeners :: "(string \<times> listener) list"
  ch_streamControl :: "(string \<times> controller) list"
  ch_incomingAborts :: "(string \<times> nat) list"
  ch_handler :: bool
  ch_closeError :: "call_error option"
  ch_deferredMessages :: "message list"
  ch_resumedMethods :: "string list"
  ch_requestsDeferred :: bool
  ch_pingers :: "(pinger_id \<times> pinger) list"
  ch_sending :: "(nat \<times> bool) list"
  ch_keepalive :: "nat list"
  ch_stopping :: "nat list"
  ch_aborted :: "nat list"
  ch_running :: "(nat \<times> request_id) list"
  ch_nextRun :: nat

text \<open>The last six hold what the source keeps in closures: pingers, sends that may still fail (with
  whether the call streams), running intervals, streaming calls whose \<^verbatim>\<open>result.then(stopPing)\<close>
  has not run, aborted runs of the handler, unfinished runs with their request id.\<close>

definition channel_init :: "bool \<Rightarrow> channel" where
  "channel_init requestsDeferred = \<lparr>ch_nextId = 1, ch_pending = [], ch_streamListeners = [], ch_streamControl = [],
     ch_incomingAborts = [], ch_handler = False, ch_closeError = None, ch_deferredMessages = [],
     ch_resumedMethods = [], ch_requestsDeferred = requestsDeferred, ch_pingers = [], ch_sending = [],
     ch_keepalive = [], ch_stopping = [], ch_aborted = [], ch_running = [], ch_nextRun = 1\<rparr>"

datatype channel_out =
    Transmit message
  | Resolve nat json
  | Reject nat call_error
  | CallHandler nat string "json option"
  | NotifyHandler string "json option"
  | Abort nat call_error
  | Deliver listener "json option"
  | PingResolved pinger_id string
  | PingRejected pinger_id string
  | TransportDisposed
  | ThrewError call_error

definition call_id :: "nat \<Rightarrow> request_id" where
  "call_id n = IdNum (num_of_int (int n))"

definition call_key :: "nat \<Rightarrow> string" where
  "call_key n = id_string (call_id n)"

section \<open>Stream frames and pings\<close>

definition send_stream :: "channel \<Rightarrow> request_id \<Rightarrow> string \<Rightarrow> (string \<times> json) list \<Rightarrow> channel_out list" where
  "send_stream ch requestId dir body = (case ch_closeError ch of
     Some e \<Rightarrow> [ThrewError e]
   | None \<Rightarrow> [Transmit (Notification STREAM_METHOD (Some (JObj
       ([(''requestId'', id_json requestId), (''dir'', JStr dir)] @ body))))])"

text \<open>\<^verbatim>\<open>void this._sendStream(...).catch(error => this.close(error))\<close>: on a closed channel the error goes to
  \<^verbatim>\<open>close\<close>, which does nothing then.\<close>

definition post_control :: "channel \<Rightarrow> request_id \<Rightarrow> string \<Rightarrow> (string \<times> json) list \<Rightarrow> channel_out list" where
  "post_control ch requestId dir control =
     (if ch_closeError ch \<noteq> None then [] else send_stream ch requestId dir [(''control'', JObj control)])"

definition make_pinger :: "channel \<Rightarrow> pinger_id \<Rightarrow> request_id \<Rightarrow> string \<Rightarrow> channel" where
  "make_pinger ch pid requestId outboundDir = ch\<lparr>ch_pingers := jm_set (ch_pingers ch) pid
     \<lparr>pg_requestId = requestId, pg_dir = outboundDir, pg_nextNonce = 1, pg_pending = []\<rparr>\<rparr>"

definition ping_nonce :: "pinger \<Rightarrow> string" where
  "ping_nonce p = id_string (pg_requestId p) @ '':'' @ id_string (call_id (pg_nextNonce p))"

definition ping :: "channel \<Rightarrow> pinger_id \<Rightarrow> channel \<times> channel_out list" where
  "ping ch pid = (case jm_get (ch_pingers ch) pid of
     None \<Rightarrow> (ch, [])
   | Some p \<Rightarrow>
       let nonce = ping_nonce p in
       (ch\<lparr>ch_pingers := jm_set (ch_pingers ch) pid
          (p\<lparr>pg_nextNonce := pg_nextNonce p + 1, pg_pending := js_add (pg_pending p) nonce\<rparr>)\<rparr>,
        post_control ch (pg_requestId p) (pg_dir p) [(''type'', JStr CONTROL_ping), (''nonce'', JStr nonce)]))"

definition pinger_control :: "channel \<Rightarrow> pinger_id \<Rightarrow> json \<Rightarrow> channel \<times> channel_out list" where
  "pinger_control ch pid control = (case jm_get (ch_pingers ch) pid of
     None \<Rightarrow> (ch, [])
   | Some p \<Rightarrow>
       if field ''type'' control = Some (JStr CONTROL_ping) then
         (ch, post_control ch (pg_requestId p) (pg_dir p) ((''type'', JStr CONTROL_pong) #
            (case field ''nonce'' control of Some n \<Rightarrow> [(''nonce'', n)] | None \<Rightarrow> [])))
       else if field ''type'' control = Some (JStr CONTROL_pong) then
         (case field ''nonce'' control of
            Some (JStr nonce) \<Rightarrow>
              if nonce \<in> set (pg_pending p)
              then (ch\<lparr>ch_pingers := jm_set (ch_pingers ch) pid (p\<lparr>pg_pending := filter (\<lambda>x. x \<noteq> nonce) (pg_pending p)\<rparr>)\<rparr>,
                    [PingResolved pid nonce])
              else (ch, [])
          | _ \<Rightarrow> (ch, []))
       else (ch, []))"

definition pinger_dispose :: "channel \<Rightarrow> pinger_id \<Rightarrow> channel \<times> channel_out list" where
  "pinger_dispose ch pid = (case jm_get (ch_pingers ch) pid of
     None \<Rightarrow> (ch, [])
   | Some p \<Rightarrow> (ch\<lparr>ch_pingers := jm_set (ch_pingers ch) pid (p\<lparr>pg_pending := []\<rparr>)\<rparr>, map (PingRejected pid) (pg_pending p)))"

section \<open>Calls to the peer\<close>

definition request_message :: "nat \<Rightarrow> string \<Rightarrow> json option \<Rightarrow> message" where
  "request_message n meth params = Request (call_id n) meth params"

definition send_request :: "channel \<Rightarrow> string \<Rightarrow> json option \<Rightarrow> channel \<times> channel_out list" where
  "send_request ch meth params = (case ch_closeError ch of
     Some e \<Rightarrow> (ch, [ThrewError e])
   | None \<Rightarrow>
       let n = ch_nextId ch in
       (ch\<lparr>ch_nextId := n + 1, ch_pending := jm_set (ch_pending ch) (call_key n) n,
           ch_sending := jm_set (ch_sending ch) n False\<rparr>,
        [Transmit (request_message n meth params)]))"

definition send_notification :: "channel \<Rightarrow> string \<Rightarrow> json option \<Rightarrow> channel_out list" where
  "send_notification ch meth params = (case ch_closeError ch of
     Some e \<Rightarrow> [ThrewError e]
   | None \<Rightarrow> [Transmit (Notification meth params)])"

definition send_request_with_stream :: "channel \<Rightarrow> string \<Rightarrow> json option \<Rightarrow> bool \<Rightarrow> channel \<times> channel_out list" where
  "send_request_with_stream ch meth params onStreamMessage = (case ch_closeError ch of
     Some e \<Rightarrow> (ch, [ThrewError e])
   | None \<Rightarrow>
       let n = ch_nextId ch;
           key = call_key n;
           ch1 = ch\<lparr>ch_nextId := n + 1, ch_pending := jm_set (ch_pending ch) key n\<rparr>;
           ch2 = (if onStreamMessage
                  then ch1\<lparr>ch_streamListeners := jm_set (ch_streamListeners ch1) key (CallerListener n)\<rparr> else ch1);
           ch3 = make_pinger ch2 (Outgoing n) (call_id n) DIR_toCallee;
           ch4 = ch3\<lparr>ch_streamControl := jm_set (ch_streamControl ch3) key (CallControl n),
                     ch_keepalive := ch_keepalive ch3 @ [n],
                     ch_stopping := ch_stopping ch3 @ [n],
                     ch_sending := jm_set (ch_sending ch3) n True\<rparr> in
       (ch4, [Transmit (request_message n meth params)]))"

definition keepalive_ping :: "channel \<Rightarrow> nat \<Rightarrow> channel_out list" where
  "keepalive_ping ch n =
     (if n \<in> set (ch_keepalive ch) then post_control ch (call_id n) DIR_toCallee [(''type'', JStr CONTROL_ping)] else [])"

definition stop_ping :: "channel \<Rightarrow> nat \<Rightarrow> channel \<times> channel_out list" where
  "stop_ping ch n =
     (case pinger_dispose (ch\<lparr>ch_keepalive := filter (\<lambda>k. k \<noteq> n) (ch_keepalive ch)\<rparr>) (Outgoing n) of
        (ch1, out) \<Rightarrow> (ch1\<lparr>ch_streamControl := jm_delete (ch_streamControl ch1) (call_key n)\<rparr>, out))"

text \<open>\<^verbatim>\<open>result.then(stopPing, stopPing)\<close> runs once, after the promise has settled.\<close>

definition result_settled :: "channel \<Rightarrow> nat \<Rightarrow> channel \<times> channel_out list" where
  "result_settled ch n =
     (if n \<in> set (ch_stopping ch) \<and> \<not> jm_has (ch_pending ch) (call_key n)
      then stop_ping (ch\<lparr>ch_stopping := filter (\<lambda>k. k \<noteq> n) (ch_stopping ch)\<rparr>) n
      else (ch, []))"

definition dispose_call :: "channel \<Rightarrow> nat \<Rightarrow> string \<Rightarrow> channel \<times> channel_out list" where
  "dispose_call ch n reason =
     (if \<not> jm_has (ch_pending ch) (call_key n) then (ch, [])
      else (case stop_ping (ch\<lparr>ch_pending := jm_delete (ch_pending ch) (call_key n),
                               ch_streamListeners := jm_delete (ch_streamListeners ch) (call_key n)\<rparr>) n of
              (ch1, out) \<Rightarrow> (ch1, out @ [Reject n (Local (JStr reason) ERR_cancelled)])))"

text \<open>A send that fails: rejecting a promise that has settled does nothing, so it is rejected exactly
  when it is pending.\<close>

definition send_failed :: "channel \<Rightarrow> nat \<Rightarrow> string \<Rightarrow> channel \<times> channel_out list" where
  "send_failed ch n err = (case jm_get (ch_sending ch) n of
     None \<Rightarrow> (ch, [])
   | Some streaming \<Rightarrow>
       let ch1 = ch\<lparr>ch_sending := jm_delete (ch_sending ch) n, ch_pending := jm_delete (ch_pending ch) (call_key n)\<rparr>;
           rejected = (if jm_has (ch_pending ch) (call_key n) then [Reject n (Failed err)] else []) in
       if \<not> streaming then (ch1, rejected)
       else (case stop_ping (ch1\<lparr>ch_streamListeners := jm_delete (ch_streamListeners ch1) (call_key n)\<rparr>) n of
               (ch2, out) \<Rightarrow> (ch2, out @ rejected)))"

definition cancel_call :: "channel \<Rightarrow> nat \<Rightarrow> string option \<Rightarrow> channel_out list" where
  "cancel_call ch n reason = send_stream ch (call_id n) DIR_toCallee [(''control'', JObj ((''type'', JStr CONTROL_cancel) #
     (case reason of Some r \<Rightarrow> [(''reason'', JStr r)] | None \<Rightarrow> [])))]"

text \<open>Only a streaming call hands out \<^verbatim>\<open>send\<close>, \<^verbatim>\<open>cancel\<close>, \<^verbatim>\<open>dispose\<close> and \<^verbatim>\<open>ping\<close>.\<close>

definition has_handle :: "channel \<Rightarrow> nat \<Rightarrow> bool" where
  "has_handle ch n = jm_has (ch_pingers ch) (Outgoing n)"

section \<open>Closing\<close>

definition abort_run :: "channel \<Rightarrow> nat \<Rightarrow> call_error \<Rightarrow> channel \<times> channel_out list" where
  "abort_run ch k e =
     (if k \<in> set (ch_aborted ch) then (ch, []) else (ch\<lparr>ch_aborted := ch_aborted ch @ [k]\<rparr>, [Abort k e]))"

fun abort_runs :: "channel \<Rightarrow> nat list \<Rightarrow> call_error \<Rightarrow> channel \<times> channel_out list" where
  "abort_runs ch [] e = (ch, [])"
| "abort_runs ch (k # ks) e = (case abort_run ch k e of
     (ch1, out1) \<Rightarrow> (case abort_runs ch1 ks e of (ch2, out2) \<Rightarrow> (ch2, out1 @ out2)))"

definition close_channel :: "channel \<Rightarrow> call_error \<Rightarrow> channel \<times> channel_out list" where
  "close_channel ch e =
     (if ch_closeError ch \<noteq> None then (ch, [])
      else
        let ch1 = ch\<lparr>ch_closeError := Some e, ch_deferredMessages := []\<rparr> in
        case abort_runs ch1 (map snd (ch_incomingAborts ch1)) e of
          (ch2, out) \<Rightarrow>
            (ch2\<lparr>ch_incomingAborts := [], ch_pending := [], ch_streamListeners := [], ch_streamControl := []\<rparr>,
             out @ [TransportDisposed] @ map (\<lambda>(key, n). Reject n e) (ch_pending ch2)))"

definition close_default :: call_error where
  "close_default = Local (JStr ''Connection closed'') ERR_peerDisconnected"

section \<open>Calls of the peer\<close>

definition finish_run :: "channel \<Rightarrow> nat \<Rightarrow> request_id \<Rightarrow> handler_result \<Rightarrow> channel \<times> channel_out list" where
  "finish_run ch k i result =
     (let key = id_string i in
      case pinger_dispose (ch\<lparr>ch_streamListeners := jm_delete (ch_streamListeners ch) key,
                              ch_streamControl := jm_delete (ch_streamControl ch) key,
                              ch_incomingAborts := jm_delete (ch_incomingAborts ch) key\<rparr>) (Incoming k) of
        (ch1, out) \<Rightarrow> (ch1\<lparr>ch_running := jm_delete (ch_running ch1) k\<rparr>, out @ [Transmit (case result of
            HandlerResult r \<Rightarrow> Success (Some i) r
          | HandlerError e \<Rightarrow> Failure (Some i) e
          | HandlerThrew msg \<Rightarrow> Failure (Some i) \<lparr>err_code = ERR_internalError, err_message = msg, err_data = None\<rparr>)]))"

definition handle_request :: "channel \<Rightarrow> request_id \<Rightarrow> string \<Rightarrow> json option \<Rightarrow> channel \<times> channel_out list" where
  "handle_request ch i meth params =
     (let k = ch_nextRun ch;
          key = id_string i;
          ch1 = make_pinger ch (Incoming k) i DIR_toCaller;
          ch2 = ch1\<lparr>ch_nextRun := k + 1, ch_running := jm_set (ch_running ch1) k i,
                    ch_incomingAborts := jm_set (ch_incomingAborts ch1) key k,
                    ch_streamControl := jm_set (ch_streamControl ch1) key (HandlerControl k)\<rparr> in
      if \<not> ch_handler ch2 then
        finish_run ch2 k i (HandlerError \<lparr>err_code = ERR_methodNotFound,
          err_message = ''No handler registered on this endpoint (method: '' @ meth @ '').'', err_data = None\<rparr>)
      else (ch2, [CallHandler k meth params]))"

definition handler_done :: "channel \<Rightarrow> nat \<Rightarrow> handler_result \<Rightarrow> channel \<times> channel_out list" where
  "handler_done ch k result = (case jm_get (ch_running ch) k of
     None \<Rightarrow> (ch, [])
   | Some i \<Rightarrow> finish_run ch k i result)"

text \<open>\<^verbatim>\<open>stream.onMessage\<close> of a run, under the id its request had.\<close>

definition handler_on_message :: "channel \<Rightarrow> nat \<Rightarrow> bool \<Rightarrow> channel" where
  "handler_on_message ch k listening = (case jm_get (ch_pingers ch) (Incoming k) of
     None \<Rightarrow> ch
   | Some p \<Rightarrow>
       let key = id_string (pg_requestId p) in
       if listening then ch\<lparr>ch_streamListeners := jm_set (ch_streamListeners ch) key (HandlerListener k)\<rparr>
       else ch\<lparr>ch_streamListeners := jm_delete (ch_streamListeners ch) key\<rparr>)"

text \<open>\<^verbatim>\<open>send\<close> of a streaming call or of the stream of a run.\<close>

definition stream_payload :: "channel \<Rightarrow> pinger_id \<Rightarrow> json \<Rightarrow> channel_out list" where
  "stream_payload ch pid payload = (case jm_get (ch_pingers ch) pid of
     None \<Rightarrow> []
   | Some p \<Rightarrow> send_stream ch (pg_requestId p) (pg_dir p) [(''payload'', payload)])"

definition handler_control :: "channel \<Rightarrow> nat \<Rightarrow> json \<Rightarrow> channel \<times> channel_out list" where
  "handler_control ch k control =
     (if field ''type'' control = Some (JStr CONTROL_cancel) then
        abort_run ch k (Local (case field ''reason'' control of
            None \<Rightarrow> JStr ''cancelled'' | Some JNull \<Rightarrow> JStr ''cancelled'' | Some r \<Rightarrow> r) ERR_cancelled)
      else pinger_control ch (Incoming k) control)"

definition handle_stream_notification :: "channel \<Rightarrow> message \<Rightarrow> channel \<times> channel_out list" where
  "handle_stream_notification ch m = (case stream_field ''requestId'' m of
     None \<Rightarrow> (ch, [])
   | Some requestId \<Rightarrow>
       let key = js_string requestId;
           control = stream_field ''control'' m in
       if control \<noteq> None \<and> js_truthy (the control) then
         (case jm_get (ch_streamControl ch) key of
            None \<Rightarrow> (ch, [])
          | Some (CallControl n) \<Rightarrow> pinger_control ch (Outgoing n) (the control)
          | Some (HandlerControl k) \<Rightarrow> handler_control ch k (the control))
       else (case jm_get (ch_streamListeners ch) key of
            None \<Rightarrow> (ch, [])
          | Some l \<Rightarrow> (ch, [Deliver l (stream_field ''payload'' m)])))"

definition handle_notification :: "channel \<Rightarrow> string \<Rightarrow> json option \<Rightarrow> channel_out list" where
  "handle_notification ch meth params = (if ch_handler ch then [NotifyHandler meth params] else [])"

definition handle_response :: "channel \<Rightarrow> message \<Rightarrow> channel \<times> channel_out list" where
  "handle_response ch m = (case response_id m of
     None \<Rightarrow> (ch, [])
   | Some i \<Rightarrow> (case jm_get (ch_pending ch) (id_string i) of
       None \<Rightarrow> (ch, [])
     | Some n \<Rightarrow>
         (ch\<lparr>ch_pending := jm_delete (ch_pending ch) (id_string i),
             ch_streamListeners := jm_delete (ch_streamListeners ch) (id_string i)\<rparr>,
          [case m of Failure _ e \<Rightarrow> Reject n (Remote e) | Success _ r \<Rightarrow> Resolve n r | _ \<Rightarrow> ThrewError close_default])))"

definition dispatch_message :: "channel \<Rightarrow> message \<Rightarrow> channel \<times> channel_out list" where
  "dispatch_message ch m = (case m of
     Request i meth params \<Rightarrow> handle_request ch i meth params
   | Notification meth params \<Rightarrow>
       if meth = STREAM_METHOD then handle_stream_notification ch m
       else (ch, handle_notification ch meth params)
   | _ \<Rightarrow> handle_response ch m)"

definition is_deferred :: "channel \<Rightarrow> message \<Rightarrow> bool" where
  "is_deferred ch m \<longleftrightarrow> ch_requestsDeferred ch \<and> \<not> is_response m \<and>
     \<not> (is_request m \<and> the (method_of m) \<in> set (ch_resumedMethods ch)) \<and>
     \<not> (is_notification m \<and> method_of m = Some STREAM_METHOD \<and> stream_field ''dir'' m = Some (JStr DIR_toCaller))"

definition channel_receive :: "channel \<Rightarrow> message \<Rightarrow> channel \<times> channel_out list" where
  "channel_receive ch m =
     (if is_deferred ch m then (ch\<lparr>ch_deferredMessages := ch_deferredMessages ch @ [m]\<rparr>, [])
      else dispatch_message ch m)"

section \<open>Deferred requests\<close>

fun dispatch_all :: "channel \<Rightarrow> message list \<Rightarrow> channel \<times> channel_out list" where
  "dispatch_all ch [] = (ch, [])"
| "dispatch_all ch (m # ms) = (case dispatch_message ch m of
     (ch1, out1) \<Rightarrow> (case dispatch_all ch1 ms of (ch2, out2) \<Rightarrow> (ch2, out1 @ out2)))"

definition released :: "channel \<Rightarrow> message \<Rightarrow> bool" where
  "released ch m \<longleftrightarrow> is_request m \<and> the (method_of m) \<in> set (ch_resumedMethods ch)"

definition resume_requests :: "channel \<Rightarrow> string list option \<Rightarrow> channel \<times> channel_out list" where
  "resume_requests ch methods = (case methods of
     None \<Rightarrow> (case dispatch_all (ch\<lparr>ch_deferredMessages := []\<rparr>) (ch_deferredMessages ch) of
         (ch1, out) \<Rightarrow> (ch1\<lparr>ch_requestsDeferred := False\<rparr>, out))
   | Some ms \<Rightarrow>
       (let ch1 = ch\<lparr>ch_resumedMethods := foldl js_add (ch_resumedMethods ch) ms\<rparr> in
        dispatch_all (ch1\<lparr>ch_deferredMessages := filter (\<lambda>m. \<not> released ch1 m) (ch_deferredMessages ch1)\<rparr>)
          (filter (released ch1) (ch_deferredMessages ch1))))"

section \<open>The channel as a state machine\<close>

datatype channel_event =
    Arrive message
  | SendRequest string "json option"
  | SendNotification string "json option"
  | SendStreaming string "json option" bool
  | SendFailed nat string
  | ResultSettled nat
  | KeepAlive nat
  | DisposeCall nat string
  | CancelCall nat "string option"
  | StreamPayload pinger_id json
  | PingPeer pinger_id
  | HandlerOnMessage nat bool
  | HandlerDone nat handler_result
  | SetRequestHandler bool
  | ResumeRequests "string list option"
  | Close call_error

fun channel_step :: "channel \<Rightarrow> channel_event \<Rightarrow> channel \<times> channel_out list" where
  "channel_step ch (Arrive m) = channel_receive ch m"
| "channel_step ch (SendRequest meth params) = send_request ch meth params"
| "channel_step ch (SendNotification meth params) = (ch, send_notification ch meth params)"
| "channel_step ch (SendStreaming meth params l) = send_request_with_stream ch meth params l"
| "channel_step ch (SendFailed n err) = send_failed ch n err"
| "channel_step ch (ResultSettled n) = result_settled ch n"
| "channel_step ch (KeepAlive n) = (ch, keepalive_ping ch n)"
| "channel_step ch (DisposeCall n reason) = (if has_handle ch n then dispose_call ch n reason else (ch, []))"
| "channel_step ch (CancelCall n reason) = (ch, if has_handle ch n then cancel_call ch n reason else [])"
| "channel_step ch (StreamPayload pid payload) = (ch, stream_payload ch pid payload)"
| "channel_step ch (PingPeer pid) = ping ch pid"
| "channel_step ch (HandlerOnMessage k l) = (handler_on_message ch k l, [])"
| "channel_step ch (HandlerDone k r) = handler_done ch k r"
| "channel_step ch (SetRequestHandler h) = (ch\<lparr>ch_handler := h\<rparr>, [])"
| "channel_step ch (ResumeRequests ms) = resume_requests ch ms"
| "channel_step ch (Close e) = close_channel ch e"

fun channel_run :: "channel \<Rightarrow> channel_event list \<Rightarrow> channel \<times> channel_out list" where
  "channel_run ch [] = (ch, [])"
| "channel_run ch (e # es) = (case channel_step ch e of
     (ch1, out1) \<Rightarrow> (case channel_run ch1 es of (ch2, out2) \<Rightarrow> (ch2, out1 @ out2)))"

end
