(* ===== verification/ChannelCorrect.thy ===== *)
theory ChannelCorrect
  imports Channel
begin

text \<open>
  What a channel promises: each call is settled once and only once, each request of the peer is
  answered once, requests that arrive before the setup is over are handled as if they had
  arrived after it; and where the sharing of the stream tables by both directions breaks a stream.
\<close>

lemma call_key_inj [simp]: "call_key a = call_key b \<longleftrightarrow> a = b"
  by (simp add: call_key_def call_id_def)

section \<open>Each call is settled once\<close>

definition settlements :: "nat \<Rightarrow> channel_out list \<Rightarrow> nat" where
  "settlements n out = length (filter (\<lambda>x. case x of Resolve k _ \<Rightarrow> k = n | Reject k _ \<Rightarrow> k = n | _ \<Rightarrow> False) out)"

lemma settlements_simps [simp]:
  "settlements n [] = 0" "settlements n (xs @ ys) = settlements n xs + settlements n ys"
  "settlements n (Transmit m # out) = settlements n out" "settlements n (CallHandler k meth p # out) = settlements n out"
  "settlements n (NotifyHandler meth p # out) = settlements n out" "settlements n (Abort k e # out) = settlements n out"
  "settlements n (Deliver l p # out) = settlements n out" "settlements n (PingResolved pid s # out) = settlements n out"
  "settlements n (PingRejected pid s # out) = settlements n out" "settlements n (TransportDisposed # out) = settlements n out"
  "settlements n (ThrewError e # out) = settlements n out"
  "settlements n (Resolve k r # out) = (if k = n then 1 else 0) + settlements n out"
  "settlements n (Reject k e # out) = (if k = n then 1 else 0) + settlements n out"
  "settlements n (map (PingRejected pid) ss) = 0"
  by (simp_all add: settlements_def comp_def)

definition pending_call :: "channel \<Rightarrow> nat \<Rightarrow> bool" where
  "pending_call ch n = jm_has (ch_pending ch) (call_key n)"

definition calls_inv :: "channel \<Rightarrow> bool" where
  "calls_inv ch \<longleftrightarrow> jm_wf (ch_pending ch) \<and>
     (\<forall>key n. jm_get (ch_pending ch) key = Some n \<longrightarrow> key = call_key n \<and> n < ch_nextId ch) \<and>
     (ch_closeError ch \<noteq> None \<longrightarrow> ch_pending ch = [])"

text \<open>\<open>accounts ch ch' out\<close>: from \<open>ch\<close> to \<open>ch'\<close> every call issued stays pending or is settled once, and
  no other call is settled.\<close>

definition accounts :: "channel \<Rightarrow> channel \<Rightarrow> channel_out list \<Rightarrow> bool" where
  "accounts ch ch' out \<longleftrightarrow> calls_inv ch' \<and> ch_nextId ch \<le> ch_nextId ch' \<and>
     (\<forall>n. settlements n out + of_bool (pending_call ch' n) =
        of_bool (pending_call ch n) + of_bool (ch_nextId ch \<le> n \<and> n < ch_nextId ch'))"

lemma pending_bound: "calls_inv ch \<Longrightarrow> pending_call ch n \<Longrightarrow> n < ch_nextId ch"
  unfolding calls_inv_def pending_call_def jm_has_iff by fastforce

lemma accounts_trans:
  assumes "accounts ch ch1 out1" "accounts ch1 ch2 out2"
  shows "accounts ch ch2 (out1 @ out2)"
  unfolding accounts_def
proof (intro conjI allI)
  fix n
  have "settlements n out1 + of_bool (pending_call ch1 n) = of_bool (pending_call ch n) + of_bool (ch_nextId ch \<le> n \<and> n < ch_nextId ch1)"
    "settlements n out2 + of_bool (pending_call ch2 n) = of_bool (pending_call ch1 n) + of_bool (ch_nextId ch1 \<le> n \<and> n < ch_nextId ch2)"
    "ch_nextId ch \<le> ch_nextId ch1" "ch_nextId ch1 \<le> ch_nextId ch2"
    using assms by (auto simp: accounts_def)
  then show "settlements n (out1 @ out2) + of_bool (pending_call ch2 n) =
      of_bool (pending_call ch n) + of_bool (ch_nextId ch \<le> n \<and> n < ch_nextId ch2)"
    by (cases "ch_nextId ch \<le> n"; cases "n < ch_nextId ch1"; cases "n < ch_nextId ch2") auto
qed (use assms in \<open>auto simp: accounts_def\<close>)

definition same_calls :: "channel \<Rightarrow> channel \<Rightarrow> bool" where
  "same_calls ch ch' \<longleftrightarrow> ch_pending ch' = ch_pending ch \<and> ch_nextId ch' = ch_nextId ch \<and> ch_closeError ch' = ch_closeError ch"

lemma accounts_same: "calls_inv ch \<Longrightarrow> same_calls ch ch' \<Longrightarrow> (\<And>n. settlements n out = 0) \<Longrightarrow> accounts ch ch' out"
  by (auto simp: accounts_def same_calls_def calls_inv_def pending_call_def)

lemma same_calls_simps [simp]:
  "same_calls ch ch" "same_calls ch (ch'\<lparr>ch_streamListeners := a\<rparr>) = same_calls ch ch'"
  "same_calls ch (ch'\<lparr>ch_streamControl := b\<rparr>) = same_calls ch ch'" "same_calls ch (ch'\<lparr>ch_incomingAborts := c\<rparr>) = same_calls ch ch'"
  "same_calls ch (ch'\<lparr>ch_pingers := d\<rparr>) = same_calls ch ch'" "same_calls ch (ch'\<lparr>ch_keepalive := e\<rparr>) = same_calls ch ch'"
  "same_calls ch (ch'\<lparr>ch_stopping := f\<rparr>) = same_calls ch ch'" "same_calls ch (ch'\<lparr>ch_aborted := g\<rparr>) = same_calls ch ch'"
  "same_calls ch (ch'\<lparr>ch_running := i\<rparr>) = same_calls ch ch'" "same_calls ch (ch'\<lparr>ch_nextRun := j\<rparr>) = same_calls ch ch'"
  "same_calls ch (ch'\<lparr>ch_handler := k\<rparr>) = same_calls ch ch'" "same_calls ch (ch'\<lparr>ch_deferredMessages := l\<rparr>) = same_calls ch ch'"
  "same_calls ch (ch'\<lparr>ch_requestsDeferred := m\<rparr>) = same_calls ch ch'" "same_calls ch (ch'\<lparr>ch_resumedMethods := n\<rparr>) = same_calls ch ch'"
  "same_calls ch (ch'\<lparr>ch_sending := q\<rparr>) = same_calls ch ch'"
  by (simp_all add: same_calls_def)

lemma send_quiet [simp]:
  "settlements n (send_stream ch i d c) = 0" "settlements n (post_control ch i d c) = 0"
  "settlements n (cancel_call ch k r) = 0" "settlements n (send_notification ch meth p) = 0"
  "settlements n (stream_payload ch pid j) = 0" "settlements n (keepalive_ping ch k) = 0"
  "settlements n (handle_notification ch meth p) = 0"
  by (simp_all add: send_stream_def post_control_def cancel_call_def send_notification_def stream_payload_def
      keepalive_ping_def handle_notification_def split: option.split)

lemma ping_quiet [simp]:
  "same_calls ch (fst (ping ch' pid)) = same_calls ch ch'" "settlements n (snd (ping ch' pid)) = 0"
  "same_calls ch (fst (pinger_dispose ch' pid)) = same_calls ch ch'" "settlements n (snd (pinger_dispose ch' pid)) = 0"
  "same_calls ch (make_pinger ch' pid i d) = same_calls ch ch'"
  "same_calls ch (fst (stop_ping ch' k)) = same_calls ch ch'" "settlements n (snd (stop_ping ch' k)) = 0"
proof -
  show dispose: "same_calls ch (fst (pinger_dispose ch' pid)) = same_calls ch ch'" "settlements n (snd (pinger_dispose ch' pid)) = 0" for ch' pid
    by (simp_all add: pinger_dispose_def split: option.split)
  show "same_calls ch (fst (stop_ping ch' k)) = same_calls ch ch'" "settlements n (snd (stop_ping ch' k)) = 0"
    by (simp_all add: stop_ping_def case_prod_unfold dispose)
qed (simp_all add: ping_def make_pinger_def Let_def split: option.split)

lemma pinger_control_quiet [simp]:
  "same_calls ch (fst (pinger_control ch' pid c)) = same_calls ch ch'" "settlements n (snd (pinger_control ch' pid c)) = 0"
  by (simp_all add: pinger_control_def split: option.split json.split)

lemma abort_quiet [simp]:
  "same_calls ch (fst (abort_run ch' k e)) = same_calls ch ch'" "settlements n (snd (abort_run ch' k e)) = 0"
  "same_calls ch (fst (abort_runs ch' ks e)) = same_calls ch ch'" "settlements n (snd (abort_runs ch' ks e)) = 0"
proof -
  show run: "same_calls ch (fst (abort_run ch' k e)) = same_calls ch ch'" "settlements n (snd (abort_run ch' k e)) = 0" for ch' k
    by (simp_all add: abort_run_def)
  show "same_calls ch (fst (abort_runs ch' ks e)) = same_calls ch ch'" "settlements n (snd (abort_runs ch' ks e)) = 0"
    by (induction ks arbitrary: ch') (simp_all add: case_prod_unfold run)
qed

lemma run_quiet [simp]:
  "same_calls ch (fst (finish_run ch' k i r)) = same_calls ch ch'" "settlements n (snd (finish_run ch' k i r)) = 0"
  "same_calls ch (fst (handle_request ch' i meth p)) = same_calls ch ch'" "settlements n (snd (handle_request ch' i meth p)) = 0"
  "same_calls ch (fst (handler_done ch' k r)) = same_calls ch ch'" "settlements n (snd (handler_done ch' k r)) = 0"
  "same_calls ch (handler_on_message ch' k l) = same_calls ch ch'"
  "same_calls ch (fst (handler_control ch' k c)) = same_calls ch ch'" "settlements n (snd (handler_control ch' k c)) = 0"
  "same_calls ch (fst (handle_stream_notification ch' m)) = same_calls ch ch'" "settlements n (snd (handle_stream_notification ch' m)) = 0"
proof -
  show finish: "same_calls ch (fst (finish_run ch' k i r)) = same_calls ch ch'" "settlements n (snd (finish_run ch' k i r)) = 0" for ch' k i r
    by (simp_all add: finish_run_def Let_def case_prod_unfold)
  show "same_calls ch (fst (handle_request ch' i meth p)) = same_calls ch ch'" "settlements n (snd (handle_request ch' i meth p)) = 0"
    by (simp_all add: handle_request_def Let_def finish)
  show "same_calls ch (fst (handler_done ch' k r)) = same_calls ch ch'" "settlements n (snd (handler_done ch' k r)) = 0"
    by (simp_all add: handler_done_def finish split: option.split)
  show "same_calls ch (handler_on_message ch' k l) = same_calls ch ch'"
    by (simp add: handler_on_message_def Let_def split: option.split)
  show control: "same_calls ch (fst (handler_control ch' k c)) = same_calls ch ch'" "settlements n (snd (handler_control ch' k c)) = 0" for ch' k c
    by (simp_all add: handler_control_def)
  show "same_calls ch (fst (handle_stream_notification ch' m)) = same_calls ch ch'" "settlements n (snd (handle_stream_notification ch' m)) = 0"
    by (simp_all add: handle_stream_notification_def Let_def control split: option.split controller.split)
qed

lemma calls_inv_delete: "calls_inv ch \<Longrightarrow> calls_inv (ch\<lparr>ch_pending := jm_delete (ch_pending ch) key\<rparr>)"
  by (auto simp: calls_inv_def split: if_splits) (simp add: jm_delete_def)

text \<open>Taking a call out of the pending table and settling it.\<close>

lemma accounts_settle:
  assumes "calls_inv ch" "jm_get (ch_pending ch) key = Some n" "same_calls (ch\<lparr>ch_pending := jm_delete (ch_pending ch) key\<rparr>) ch'"
    "\<And>k. settlements k out = of_bool (k = n)"
  shows "accounts ch ch' out"
proof -
  have key: "key = call_key n" "n < ch_nextId ch" using assms(1,2) by (auto simp: calls_inv_def)
  have "calls_inv ch'" using calls_inv_delete [OF assms(1), of key] assms(3) by (simp add: calls_inv_def same_calls_def)
  moreover have "pending_call ch' k \<longleftrightarrow> pending_call ch k \<and> k \<noteq> n" "pending_call ch n" for k
    using assms(2,3) by (auto simp: pending_call_def same_calls_def jm_has_iff key)
  moreover have "ch_nextId ch' = ch_nextId ch" using assms(3) by (simp add: same_calls_def)
  ultimately show ?thesis by (auto simp: accounts_def assms(4))
qed

lemma accounts_response:
  assumes "calls_inv ch" "is_response m"
  shows "accounts ch (fst (handle_response ch m)) (snd (handle_response ch m))"
proof (cases "response_id m")
  case None
  with assms show ?thesis by (simp add: handle_response_def accounts_same)
next
  case (Some i)
  show ?thesis
  proof (cases "jm_get (ch_pending ch) (id_string i)")
    case None
    with assms Some show ?thesis by (simp add: handle_response_def accounts_same)
  next
    case (Some n)
    have "settlements k [case m of Failure _ e \<Rightarrow> Reject n (Remote e) | Success _ r \<Rightarrow> Resolve n r | _ \<Rightarrow> ThrewError close_default] =
        of_bool (k = n)" for k
      using assms(2) by (cases m) (auto simp: is_response_def)
    with assms(1) \<open>response_id m = Some i\<close> Some show ?thesis
      by (intro accounts_settle) (simp_all add: handle_response_def same_calls_def)
  qed
qed

lemma accounts_dispatch: "calls_inv ch \<Longrightarrow> accounts ch (fst (dispatch_message ch m)) (snd (dispatch_message ch m))"
  by (cases m) (simp_all add: dispatch_message_def accounts_same accounts_response is_response_def)

lemma accounts_inv: "accounts ch ch' out \<Longrightarrow> calls_inv ch'"
  by (simp add: accounts_def)

lemma accounts_dispatch_all:
  "calls_inv ch \<Longrightarrow> accounts ch (fst (dispatch_all ch ms)) (snd (dispatch_all ch ms))"
proof (induction ms arbitrary: ch)
  case (Cons m ms)
  note step = accounts_dispatch [OF Cons.prems, of m]
  from accounts_trans [OF step Cons.IH [OF accounts_inv [OF step]]] show ?case
    by (simp add: case_prod_unfold)
qed (simp add: accounts_same)

lemma accounts_cong: "accounts ch ch' out \<Longrightarrow> same_calls ch ch0 \<Longrightarrow> same_calls ch' ch1 \<Longrightarrow> accounts ch0 ch1 out"
  by (simp add: accounts_def same_calls_def calls_inv_def pending_call_def)

lemma same_calls_inv: "same_calls ch ch' \<Longrightarrow> calls_inv ch \<Longrightarrow> calls_inv ch'"
  by (simp add: same_calls_def calls_inv_def)

lemma accounts_resume:
  assumes "calls_inv ch"
  shows "accounts ch (fst (resume_requests ch ms)) (snd (resume_requests ch ms))"
proof -
  have all: "accounts ch (fst (dispatch_all ch0 xs)) (snd (dispatch_all ch0 xs))" if "same_calls ch ch0" for ch0 xs
    using accounts_dispatch_all [OF same_calls_inv [OF that assms]]
    by (rule accounts_cong) (use that in \<open>auto simp: same_calls_def\<close>)
  show ?thesis
  proof (cases ms)
    case None
    have "accounts ch (fst (dispatch_all (ch\<lparr>ch_deferredMessages := []\<rparr>) (ch_deferredMessages ch)))
        (snd (dispatch_all (ch\<lparr>ch_deferredMessages := []\<rparr>) (ch_deferredMessages ch)))"
      by (rule all) simp
    then have "accounts ch ((fst (dispatch_all (ch\<lparr>ch_deferredMessages := []\<rparr>) (ch_deferredMessages ch)))\<lparr>ch_requestsDeferred := False\<rparr>)
        (snd (dispatch_all (ch\<lparr>ch_deferredMessages := []\<rparr>) (ch_deferredMessages ch)))"
      by (rule accounts_cong) simp_all
    with None show ?thesis by (simp add: resume_requests_def case_prod_unfold)
  next
    case (Some l)
    then show ?thesis by (simp add: resume_requests_def Let_def all)
  qed
qed

lemma accounts_issue:
  assumes "calls_inv ch" "ch_closeError ch = None"
    "same_calls (ch\<lparr>ch_nextId := ch_nextId ch + 1, ch_pending := jm_set (ch_pending ch) (call_key (ch_nextId ch)) (ch_nextId ch)\<rparr>) ch'"
    "\<And>n. settlements n out = 0"
  shows "accounts ch ch' out"
proof -
  have pend: "ch_pending ch' = jm_set (ch_pending ch) (call_key (ch_nextId ch)) (ch_nextId ch)" "ch_nextId ch' = ch_nextId ch + 1"
    "ch_closeError ch' = None"
    using assms(2,3) by (auto simp: same_calls_def)
  have "calls_inv ch'"
    using assms(1) by (auto simp: calls_inv_def pend less_Suc_eq split: if_splits)
  moreover have "pending_call ch' n \<longleftrightarrow> pending_call ch n \<or> n = ch_nextId ch" for n
    by (auto simp: pending_call_def pend jm_has_iff)
  moreover have "n < ch_nextId ch" if "pending_call ch n" for n using pending_bound [OF assms(1) that] .
  ultimately show ?thesis by (force simp: accounts_def assms(4) pend)
qed

lemma accounts_send:
  assumes "calls_inv ch"
  shows "accounts ch (fst (send_request ch meth p)) (snd (send_request ch meth p))"
    "accounts ch (fst (send_request_with_stream ch meth p l)) (snd (send_request_with_stream ch meth p l))"
proof -
  show "accounts ch (fst (send_request ch meth p)) (snd (send_request ch meth p))"
  proof (cases "ch_closeError ch")
    case None
    then show ?thesis
      by (intro accounts_issue [OF assms]) (simp_all add: send_request_def Let_def same_calls_def)
  qed (simp add: send_request_def accounts_same assms)
  show "accounts ch (fst (send_request_with_stream ch meth p l)) (snd (send_request_with_stream ch meth p l))"
  proof (cases "ch_closeError ch")
    case None
    then show ?thesis
      by (intro accounts_issue [OF assms])
        (simp_all add: send_request_with_stream_def Let_def same_calls_def make_pinger_def)
  qed (simp add: send_request_with_stream_def accounts_same assms)
qed

lemma pending_get: "calls_inv ch \<Longrightarrow> jm_has (ch_pending ch) (call_key n) \<Longrightarrow> jm_get (ch_pending ch) (call_key n) = Some n"
  unfolding calls_inv_def jm_has_iff by fastforce

lemma delete_absent: "\<not> jm_has (m :: (string \<times> 'a) list) k \<Longrightarrow> jm_delete m k = m"
  by (force simp: jm_has_def jm_delete_def filter_id_conv)

lemma accounts_dispose:
  assumes "calls_inv ch"
  shows "accounts ch (fst (dispose_call ch n reason)) (snd (dispose_call ch n reason))"
proof (cases "jm_has (ch_pending ch) (call_key n)")
  case True
  have "same_calls (ch\<lparr>ch_pending := jm_delete (ch_pending ch) (call_key n)\<rparr>) (fst (stop_ping (ch\<lparr>ch_pending := jm_delete (ch_pending ch) (call_key n),
      ch_streamListeners := jm_delete (ch_streamListeners ch) (call_key n)\<rparr>) n))"
    unfolding ping_quiet by (simp add: same_calls_def)
  with True show ?thesis
    by (intro accounts_settle [OF assms pending_get [OF assms True]])
      (simp_all add: dispose_call_def case_prod_unfold)
qed (simp add: dispose_call_def accounts_same assms)

lemma accounts_send_failed:
  assumes "calls_inv ch"
  shows "accounts ch (fst (send_failed ch n err)) (snd (send_failed ch n err))"
proof (cases "jm_get (ch_sending ch) n")
  case None
  then show ?thesis by (simp add: send_failed_def accounts_same assms)
next
  case (Some streaming)
  let ?ch = "ch\<lparr>ch_sending := jm_delete (ch_sending ch) n, ch_pending := jm_delete (ch_pending ch) (call_key n)\<rparr>"
  have state: "same_calls (ch\<lparr>ch_pending := jm_delete (ch_pending ch) (call_key n)\<rparr>) (fst (send_failed ch n err))"
  proof (cases streaming)
    case True
    have "same_calls (ch\<lparr>ch_pending := jm_delete (ch_pending ch) (call_key n)\<rparr>)
        (fst (stop_ping (?ch\<lparr>ch_streamListeners := jm_delete (ch_streamListeners ch) (call_key n)\<rparr>) n))"
      unfolding ping_quiet by (simp add: same_calls_def)
    with Some True show ?thesis by (simp add: send_failed_def Let_def case_prod_unfold)
  next
    case False
    with Some show ?thesis by (simp add: send_failed_def Let_def same_calls_def)
  qed
  have out: "settlements k (snd (send_failed ch n err)) = of_bool (k = n \<and> jm_has (ch_pending ch) (call_key n))" for k
    using Some by (auto simp: send_failed_def Let_def case_prod_unfold)
  show ?thesis
  proof (cases "jm_has (ch_pending ch) (call_key n)")
    case True
    show ?thesis by (rule accounts_settle [OF assms pending_get [OF assms True] state]) (simp add: out True)
  next
    case False
    with state have "same_calls ch (fst (send_failed ch n err))" by (simp add: delete_absent same_calls_def)
    then show ?thesis by (rule accounts_same [OF assms]) (simp add: out False)
  qed
qed

lemma settlements_pending:
  assumes "jm_wf m" "\<forall>key k. jm_get m key = Some k \<longrightarrow> key = call_key k"
  shows "settlements n (map (\<lambda>(key, k). Reject k e) m) = of_bool (jm_has m (call_key n))"
  using assms
proof (induction m)
  case (Cons x m)
  obtain key k where x: "x = (key, k)" by (cases x)
  have wf: "jm_wf m" and new: "key \<notin> fst ` set m" using Cons.prems(1) by (auto simp: jm_wf_def x)
  have "\<forall>key k. jm_get m key = Some k \<longrightarrow> key = call_key k"
  proof (intro allI impI)
    fix key' k' assume "jm_get m key' = Some k'"
    then have "key' \<noteq> key" using new by (force dest: jm_get_SomeD)
    with \<open>jm_get m key' = Some k'\<close> Cons.prems(2) show "key' = call_key k'" by (simp add: x jm_get_def)
  qed
  with Cons.IH wf have "settlements n (map (\<lambda>(key, k). Reject k e) m) = of_bool (jm_has m (call_key n))" by blast
  moreover have "key = call_key k" using Cons.prems(2) by (simp add: x jm_get_def)
  ultimately show ?case using new by (auto simp: x jm_has_def)
qed (simp add: jm_has_def)

lemma accounts_close:
  assumes "calls_inv ch"
  shows "accounts ch (fst (close_channel ch e)) (snd (close_channel ch e))"
proof (cases "ch_closeError ch = None")
  case False
  then show ?thesis by (simp add: close_channel_def accounts_same assms)
next
  case True
  define ch1 where "ch1 = ch\<lparr>ch_closeError := Some e, ch_deferredMessages := []\<rparr>"
  define r where "r = abort_runs ch1 (map snd (ch_incomingAborts ch1)) e"
  have r: "ch_pending (fst r) = ch_pending ch" "ch_nextId (fst r) = ch_nextId ch" "ch_closeError (fst r) = Some e"
    using abort_quiet(3) [of ch1 ch1 "map snd (ch_incomingAborts ch1)" e] by (simp_all add: r_def ch1_def same_calls_def)
  have eq: "close_channel ch e = (fst r\<lparr>ch_incomingAborts := [], ch_pending := [], ch_streamListeners := [], ch_streamControl := []\<rparr>,
      snd r @ [TransportDisposed] @ map (\<lambda>(key, n). Reject n e) (ch_pending ch))"
    using True by (simp add: close_channel_def Let_def case_prod_unfold r(1) flip: ch1_def r_def)
  have "settlements n (snd r) = 0" for n by (simp add: r_def)
  with settlements_pending [of "ch_pending ch"] assms show ?thesis
    by (auto simp: accounts_def eq r calls_inv_def pending_call_def jm_has_def)
qed

lemma accounts_step: "calls_inv ch \<Longrightarrow> accounts ch (fst (channel_step ch e)) (snd (channel_step ch e))"
proof (cases e)
  case (ResultSettled n)
  assume inv: "calls_inv ch"
  have "same_calls ch (fst (result_settled ch n))" "settlements k (snd (result_settled ch n)) = 0" for k
    by (simp_all add: result_settled_def)
  with inv ResultSettled show ?thesis by (simp add: accounts_same)
qed (auto simp: channel_receive_def accounts_same accounts_dispatch accounts_send accounts_send_failed accounts_dispose
    accounts_resume accounts_close)

lemma accounts_run: "calls_inv ch \<Longrightarrow> accounts ch (fst (channel_run ch es)) (snd (channel_run ch es))"
proof (induction es arbitrary: ch)
  case (Cons e es)
  note step = accounts_step [OF Cons.prems, of e]
  from accounts_trans [OF step Cons.IH [OF accounts_inv [OF step]]] show ?case
    by (simp add: case_prod_unfold)
qed (simp add: accounts_same)

lemma calls_inv_init [simp]: "calls_inv (channel_init d)"
  by (simp add: calls_inv_def channel_init_def)

text \<open>C23: Whatever happens, each call the channel has issued is either still pending and unsettled or
  has been settled exactly once; no promise of a call that was not issued is settled; and once
  the channel is closed every call has been settled.\<close>

theorem calls_settle_once:
  "let (ch, out) = channel_run (channel_init d) es in
     settlements n out + of_bool (pending_call ch n) = of_bool (0 < n \<and> n < ch_nextId ch) \<and>
     \<not> (ch_closeError ch \<noteq> None \<and> pending_call ch n)"
proof -
  have acc: "accounts (channel_init d) (fst (channel_run (channel_init d) es)) (snd (channel_run (channel_init d) es))"
    by (rule accounts_run) simp
  then have inv: "calls_inv (fst (channel_run (channel_init d) es))" by (rule accounts_inv)
  have "settlements n (snd (channel_run (channel_init d) es)) + of_bool (pending_call (fst (channel_run (channel_init d) es)) n) =
      of_bool (pending_call (channel_init d) n) + of_bool (ch_nextId (channel_init d) \<le> n \<and> n < ch_nextId (fst (channel_run (channel_init d) es)))"
    using acc unfolding accounts_def by blast
  moreover have "\<not> pending_call (channel_init d) n" "ch_nextId (channel_init d) \<le> n \<longleftrightarrow> 0 < n"
    by (auto simp: pending_call_def channel_init_def jm_has_def)
  moreover have "\<not> (ch_closeError (fst (channel_run (channel_init d) es)) \<noteq> None \<and> pending_call (fst (channel_run (channel_init d) es)) n)"
    using inv by (auto simp: calls_inv_def pending_call_def jm_has_def)
  ultimately show ?thesis by (simp add: case_prod_unfold)
qed


section \<open>Each request of the peer is answered once\<close>

definition answer_ids :: "channel_out list \<Rightarrow> request_id list" where
  "answer_ids out = concat (map (\<lambda>x. case x of
     Transmit m \<Rightarrow> (case response_id m of Some i \<Rightarrow> [i] | None \<Rightarrow> []) | _ \<Rightarrow> []) out)"

lemma answer_ids_simps [simp]:
  "answer_ids [] = []" "answer_ids (xs @ ys) = answer_ids xs @ answer_ids ys"
  "answer_ids (Transmit m # out) = (case response_id m of Some i \<Rightarrow> i # answer_ids out | None \<Rightarrow> answer_ids out)"
  "answer_ids (CallHandler k meth p # out) = answer_ids out"
  "answer_ids (NotifyHandler meth p # out) = answer_ids out" "answer_ids (Abort k e # out) = answer_ids out"
  "answer_ids (Deliver l p # out) = answer_ids out" "answer_ids (PingResolved pid s # out) = answer_ids out"
  "answer_ids (PingRejected pid s # out) = answer_ids out" "answer_ids (TransportDisposed # out) = answer_ids out"
  "answer_ids (ThrewError e # out) = answer_ids out"
  "answer_ids (Resolve k r # out) = answer_ids out" "answer_ids (Reject k e # out) = answer_ids out"
  "answer_ids (map (PingRejected pid) ss) = []" "answer_ids (map (\<lambda>(key, n). Reject n e) ps) = []"
  by (auto simp: answer_ids_def comp_def case_prod_unfold split: option.split)

lemma channel_response_id_simps [simp]:
  "response_id (Success j r) = j" "response_id (Failure j e) = j" "response_id (Request k meth p) = None"
  "response_id (Notification meth p) = None"
  by (simp_all add: response_id_def)

definition request_ids :: "message list \<Rightarrow> request_id list" where
  "request_ids ms = concat (map (\<lambda>m. case m of Request i _ _ \<Rightarrow> [i] | _ \<Rightarrow> []) ms)"

lemma request_ids_simps [simp]:
  "request_ids [] = []" "request_ids (m # ms) = (case m of Request i _ _ \<Rightarrow> i # request_ids ms | _ \<Rightarrow> request_ids ms)"
  "request_ids (ms @ ms') = request_ids ms @ request_ids ms'"
  by (simp_all add: request_ids_def split: message.split)

definition runs_inv :: "channel \<Rightarrow> bool" where
  "runs_inv ch \<longleftrightarrow> jm_wf (ch_running ch) \<and> (\<forall>k\<in>fst ` set (ch_running ch). k < ch_nextRun ch)"

definition open_requests :: "channel \<Rightarrow> request_id multiset" where
  "open_requests ch = mset (map snd (ch_running ch)) + mset (request_ids (ch_deferredMessages ch))"

text \<open>\<open>serves ch ch' out arrived\<close>: the requests open before and those that arrived are answered or
  still open.\<close>

definition serves :: "channel \<Rightarrow> channel \<Rightarrow> channel_out list \<Rightarrow> request_id multiset \<Rightarrow> bool" where
  "serves ch ch' out arrived \<longleftrightarrow> runs_inv ch' \<and> mset (answer_ids out) + open_requests ch' = open_requests ch + arrived"

definition same_runs :: "channel \<Rightarrow> channel \<Rightarrow> bool" where
  "same_runs ch ch' \<longleftrightarrow> ch_running ch' = ch_running ch \<and> ch_nextRun ch' = ch_nextRun ch \<and>
     ch_deferredMessages ch' = ch_deferredMessages ch"

lemma same_runs_simps [simp]:
  "same_runs ch ch" "same_runs ch (ch'\<lparr>ch_streamListeners := a\<rparr>) = same_runs ch ch'"
  "same_runs ch (ch'\<lparr>ch_streamControl := b\<rparr>) = same_runs ch ch'" "same_runs ch (ch'\<lparr>ch_incomingAborts := c\<rparr>) = same_runs ch ch'"
  "same_runs ch (ch'\<lparr>ch_pingers := d\<rparr>) = same_runs ch ch'" "same_runs ch (ch'\<lparr>ch_keepalive := e\<rparr>) = same_runs ch ch'"
  "same_runs ch (ch'\<lparr>ch_stopping := f\<rparr>) = same_runs ch ch'" "same_runs ch (ch'\<lparr>ch_aborted := g\<rparr>) = same_runs ch ch'"
  "same_runs ch (ch'\<lparr>ch_handler := k\<rparr>) = same_runs ch ch'" "same_runs ch (ch'\<lparr>ch_pending := l\<rparr>) = same_runs ch ch'"
  "same_runs ch (ch'\<lparr>ch_nextId := m\<rparr>) = same_runs ch ch'" "same_runs ch (ch'\<lparr>ch_resumedMethods := n\<rparr>) = same_runs ch ch'"
  "same_runs ch (ch'\<lparr>ch_sending := q\<rparr>) = same_runs ch ch'" "same_runs ch (ch'\<lparr>ch_closeError := ce\<rparr>) = same_runs ch ch'"
  "same_runs ch (ch'\<lparr>ch_requestsDeferred := rd\<rparr>) = same_runs ch ch'"
  by (simp_all add: same_runs_def)

lemma serves_same: "runs_inv ch \<Longrightarrow> same_runs ch ch' \<Longrightarrow> answer_ids out = [] \<Longrightarrow> serves ch ch' out {#}"
  by (simp add: serves_def same_runs_def runs_inv_def open_requests_def)

lemma serves_trans: "serves ch ch1 out1 a \<Longrightarrow> serves ch1 ch2 out2 b \<Longrightarrow> serves ch ch2 (out1 @ out2) (a + b)"
  by (simp add: serves_def ac_simps) (metis add.assoc add.commute)

lemma send_no_answer [simp]:
  "answer_ids (send_stream ch i d c) = []" "answer_ids (post_control ch i d c) = []"
  "answer_ids (cancel_call ch k r) = []" "answer_ids (send_notification ch meth p) = []"
  "answer_ids (stream_payload ch pid j) = []" "answer_ids (keepalive_ping ch k) = []"
  "answer_ids (handle_notification ch meth p) = []"
  by (simp_all add: send_stream_def post_control_def cancel_call_def send_notification_def stream_payload_def
      keepalive_ping_def handle_notification_def split: option.split)

lemma ping_no_answer [simp]:
  "same_runs ch (fst (ping ch' pid)) = same_runs ch ch'" "answer_ids (snd (ping ch' pid)) = []"
  "same_runs ch (fst (pinger_dispose ch' pid)) = same_runs ch ch'" "answer_ids (snd (pinger_dispose ch' pid)) = []"
  "same_runs ch (make_pinger ch' pid i d) = same_runs ch ch'"
  "same_runs ch (fst (stop_ping ch' k)) = same_runs ch ch'" "answer_ids (snd (stop_ping ch' k)) = []"
  "same_runs ch (fst (pinger_control ch' pid c)) = same_runs ch ch'" "answer_ids (snd (pinger_control ch' pid c)) = []"
proof -
  show dispose: "same_runs ch (fst (pinger_dispose ch' pid)) = same_runs ch ch'" "answer_ids (snd (pinger_dispose ch' pid)) = []" for ch' pid
    by (simp_all add: pinger_dispose_def split: option.split)
  show "same_runs ch (fst (stop_ping ch' k)) = same_runs ch ch'" "answer_ids (snd (stop_ping ch' k)) = []"
    by (simp_all add: stop_ping_def case_prod_unfold dispose)
qed (simp_all add: ping_def make_pinger_def pinger_control_def Let_def split: option.split json.split)

lemma abort_no_answer [simp]:
  "same_runs ch (fst (abort_run ch' k e)) = same_runs ch ch'" "answer_ids (snd (abort_run ch' k e)) = []"
  "same_runs ch (fst (abort_runs ch' ks e)) = same_runs ch ch'" "answer_ids (snd (abort_runs ch' ks e)) = []"
proof -
  show run: "same_runs ch (fst (abort_run ch' k e)) = same_runs ch ch'" "answer_ids (snd (abort_run ch' k e)) = []" for ch' k
    by (simp_all add: abort_run_def)
  show "same_runs ch (fst (abort_runs ch' ks e)) = same_runs ch ch'" "answer_ids (snd (abort_runs ch' ks e)) = []"
    by (induction ks arbitrary: ch') (simp_all add: case_prod_unfold run)
qed

lemma traffic_no_answer [simp]:
  "same_runs ch (handler_on_message ch' k l) = same_runs ch ch'"
  "same_runs ch (fst (handle_stream_notification ch' m)) = same_runs ch ch'" "answer_ids (snd (handle_stream_notification ch' m)) = []"
  "same_runs ch (fst (handle_response ch' m)) = same_runs ch ch'" "answer_ids (snd (handle_response ch' m)) = []"
  "same_runs ch (fst (send_request ch' meth p)) = same_runs ch ch'" "answer_ids (snd (send_request ch' meth p)) = []"
  "same_runs ch (fst (send_request_with_stream ch' meth p sl)) = same_runs ch ch'" "answer_ids (snd (send_request_with_stream ch' meth p sl)) = []"
  "same_runs ch (fst (send_failed ch' n err)) = same_runs ch ch'" "answer_ids (snd (send_failed ch' n err)) = []"
  "same_runs ch (fst (dispose_call ch' n err)) = same_runs ch ch'" "answer_ids (snd (dispose_call ch' n err)) = []"
  "same_runs ch (fst (result_settled ch' n)) = same_runs ch ch'" "answer_ids (snd (result_settled ch' n)) = []"
proof -
  have control: "same_runs ch (fst (handler_control ch' k c)) = same_runs ch ch'" "answer_ids (snd (handler_control ch' k c)) = []" for k c
    by (simp_all add: handler_control_def)
  show "same_runs ch (fst (handle_stream_notification ch' m)) = same_runs ch ch'" "answer_ids (snd (handle_stream_notification ch' m)) = []"
    by (simp_all add: handle_stream_notification_def Let_def control split: option.split controller.split)
  show "same_runs ch (fst (handle_response ch' m)) = same_runs ch ch'" "answer_ids (snd (handle_response ch' m)) = []"
    by (simp_all add: handle_response_def split: option.split message.split)
  show "same_runs ch (handler_on_message ch' k l) = same_runs ch ch'"
    by (simp add: handler_on_message_def Let_def split: option.split)
  show "same_runs ch (fst (send_request ch' meth p)) = same_runs ch ch'" "answer_ids (snd (send_request ch' meth p)) = []"
    "same_runs ch (fst (send_request_with_stream ch' meth p sl)) = same_runs ch ch'" "answer_ids (snd (send_request_with_stream ch' meth p sl)) = []"
    by (simp_all add: send_request_def send_request_with_stream_def request_message_def Let_def split: option.split)
  show "same_runs ch (fst (send_failed ch' n err)) = same_runs ch ch'" "answer_ids (snd (send_failed ch' n err)) = []"
    "same_runs ch (fst (dispose_call ch' n err)) = same_runs ch ch'" "answer_ids (snd (dispose_call ch' n err)) = []"
    "same_runs ch (fst (result_settled ch' n)) = same_runs ch ch'" "answer_ids (snd (result_settled ch' n)) = []"
    by (simp_all add: send_failed_def dispose_call_def result_settled_def Let_def case_prod_unfold split: option.split)
qed

lemma mset_jm_delete:
  "jm_wf m \<Longrightarrow> jm_get m k = Some v \<Longrightarrow> mset (map snd m) = add_mset v (mset (map snd (jm_delete m k)))"
proof (induction m)
  case (Cons x m)
  obtain k' v' where x: "x = (k', v')" by (cases x)
  show ?case
  proof (cases "k' = k")
    case True
    then have "jm_delete m k = m" using Cons.prems(1) by (force simp: x jm_wf_def jm_delete_def filter_id_conv)
    with True Cons.prems(2) show ?thesis by (simp add: x jm_delete_def jm_get_def)
  next
    case False
    with Cons.IH Cons.prems have "mset (map snd m) = add_mset v (mset (map snd (jm_delete m k)))"
      by (simp add: x jm_wf_def jm_get_def)
    with False show ?thesis by (simp add: x jm_delete_def)
  qed
qed simp

lemma jm_set_new: "k \<notin> fst ` set m \<Longrightarrow> jm_set m k v = m @ [(k, v)]"
  by (induction m k v rule: jm_set.induct) auto

lemma serves_finish:
  assumes "runs_inv ch" "jm_get (ch_running ch) k = Some i"
  shows "serves ch (fst (finish_run ch k i r)) (snd (finish_run ch k i r)) {#}"
proof -
  define ch1 where "ch1 = fst (pinger_dispose (ch\<lparr>ch_streamListeners := jm_delete (ch_streamListeners ch) (id_string i),
      ch_streamControl := jm_delete (ch_streamControl ch) (id_string i),
      ch_incomingAborts := jm_delete (ch_incomingAborts ch) (id_string i)\<rparr>) (Incoming k))"
  have ch1: "same_runs ch ch1" by (simp add: ch1_def)
  have out: "answer_ids (snd (finish_run ch k i r)) = [i]"
    by (cases r) (simp_all add: finish_run_def Let_def case_prod_unfold)
  have state: "ch_running (fst (finish_run ch k i r)) = jm_delete (ch_running ch) k"
    "ch_nextRun (fst (finish_run ch k i r)) = ch_nextRun ch"
    "ch_deferredMessages (fst (finish_run ch k i r)) = ch_deferredMessages ch"
    using ch1 by (simp_all add: finish_run_def Let_def case_prod_unfold same_runs_def ch1_def)
  show ?thesis
    using assms(1) mset_jm_delete [OF _ assms(2)] by (auto simp: serves_def out open_requests_def state runs_inv_def set_jm_delete)
qed

lemma serves_request:
  assumes "runs_inv ch"
  shows "serves ch (fst (handle_request ch i meth p)) (snd (handle_request ch i meth p)) {#i#}"
proof -
  define ch2 where "ch2 = (make_pinger ch (Incoming (ch_nextRun ch)) i DIR_toCaller)\<lparr>ch_nextRun := ch_nextRun ch + 1,
      ch_running := jm_set (ch_running ch) (ch_nextRun ch) i,
      ch_incomingAborts := jm_set (ch_incomingAborts ch) (id_string i) (ch_nextRun ch),
      ch_streamControl := jm_set (ch_streamControl ch) (id_string i) (HandlerControl (ch_nextRun ch))\<rparr>"
  have new: "ch_nextRun ch \<notin> fst ` set (ch_running ch)" using assms by (auto simp: runs_inv_def)
  have "runs_inv ch2"
    using assms by (auto simp: runs_inv_def ch2_def keys_jm_set less_Suc_eq)
  have get: "jm_get (ch_running ch2) (ch_nextRun ch) = Some i" by (simp add: ch2_def)
  have opened: "serves ch ch2 [] {#i#}"
    using \<open>runs_inv ch2\<close> by (simp add: serves_def open_requests_def ch2_def jm_set_new [OF new] make_pinger_def)
  have eq: "handle_request ch i meth p =
      (if \<not> ch_handler ch2 then finish_run ch2 (ch_nextRun ch) i (HandlerError \<lparr>err_code = ERR_methodNotFound,
          err_message = ''No handler registered on this endpoint (method: '' @ meth @ '').'', err_data = None\<rparr>)
       else (ch2, [CallHandler (ch_nextRun ch) meth p]))"
    by (simp add: handle_request_def Let_def ch2_def make_pinger_def)
  from serves_trans [OF opened serves_finish [OF \<open>runs_inv ch2\<close> get]] opened show ?thesis
    by (simp add: eq serves_def)
qed

definition arrived :: "message \<Rightarrow> request_id multiset" where
  "arrived m = mset (request_ids [m])"

lemma serves_dispatch:
  assumes "runs_inv ch"
  shows "serves ch (fst (dispatch_message ch m)) (snd (dispatch_message ch m)) (arrived m)"
  using serves_request [OF assms] by (cases m) (simp_all add: dispatch_message_def arrived_def serves_same assms)

lemma serves_inv: "serves ch ch' out a \<Longrightarrow> runs_inv ch'"
  by (simp add: serves_def)

lemma serves_dispatch_all:
  "runs_inv ch \<Longrightarrow> serves ch (fst (dispatch_all ch ms)) (snd (dispatch_all ch ms)) (mset (request_ids ms))"
proof (induction ms arbitrary: ch)
  case (Cons m ms)
  note step = serves_dispatch [OF Cons.prems, of m]
  have "mset (request_ids (m # ms)) = arrived m + mset (request_ids ms)"
    by (simp add: arrived_def split: message.split)
  with serves_trans [OF step Cons.IH [OF serves_inv [OF step]]] show ?case
    by (simp add: case_prod_unfold)
qed (simp add: serves_same)

lemma request_ids_split: "mset (request_ids ms) = mset (request_ids (filter P ms)) + mset (request_ids (filter (\<lambda>m. \<not> P m) ms))"
  by (induction ms) (simp_all split: message.split)

lemma serves_resume:
  assumes "runs_inv ch"
  shows "serves ch (fst (resume_requests ch ms)) (snd (resume_requests ch ms)) {#}"
proof (cases ms)
  case None
  have "runs_inv (ch\<lparr>ch_deferredMessages := []\<rparr>)" using assms by (simp add: runs_inv_def)
  from serves_dispatch_all [OF this, of "ch_deferredMessages ch"] None show ?thesis
    by (simp add: resume_requests_def case_prod_unfold serves_def open_requests_def runs_inv_def)
next
  case (Some l)
  define ch1 where "ch1 = ch\<lparr>ch_resumedMethods := foldl js_add (ch_resumedMethods ch) l\<rparr>"
  have "runs_inv (ch1\<lparr>ch_deferredMessages := filter (\<lambda>m. \<not> released ch1 m) (ch_deferredMessages ch)\<rparr>)"
    using assms by (simp add: runs_inv_def ch1_def)
  from serves_dispatch_all [OF this, of "filter (released ch1) (ch_deferredMessages ch)"]
    request_ids_split [of "ch_deferredMessages ch" "released ch1"] Some show ?thesis
    by (simp add: resume_requests_def Let_def serves_def open_requests_def runs_inv_def ac_simps flip: ch1_def)
      (simp add: ch1_def)
qed

text \<open>Closing drops the requests that were still deferred.\<close>

fun no_close :: "channel_event \<Rightarrow> bool" where
  "no_close (Close e) = False"
| "no_close _ = True"

fun event_requests :: "channel_event \<Rightarrow> request_id list" where
  "event_requests (Arrive m) = request_ids [m]"
| "event_requests _ = []"

lemma serves_step:
  assumes "runs_inv ch" "no_close e"
  shows "serves ch (fst (channel_step ch e)) (snd (channel_step ch e)) (mset (event_requests e))"
proof (cases e)
  case (Arrive m)
  then show ?thesis
    using serves_dispatch [OF assms(1), of m] assms(1)
    by (auto simp: channel_receive_def arrived_def serves_def open_requests_def runs_inv_def split: message.splits)
next
  case (HandlerDone k r)
  then show ?thesis
    by (auto simp: handler_done_def serves_same assms serves_finish split: option.split)
next
  case (ResumeRequests ms)
  then show ?thesis using serves_resume [OF assms(1)] by simp
next
  case (Close err)
  with assms(2) show ?thesis by simp
qed (simp_all add: serves_same assms(1))

lemma close_no_answer:
  assumes "runs_inv ch"
  shows "runs_inv (fst (close_channel ch e))" "answer_ids (snd (close_channel ch e)) = []"
    "open_requests (fst (close_channel ch e)) \<subseteq># open_requests ch"
proof -
  define r where "r = abort_runs (ch\<lparr>ch_closeError := Some e, ch_deferredMessages := []\<rparr>) (map snd (ch_incomingAborts ch)) e"
  have "same_runs (ch\<lparr>ch_closeError := Some e, ch_deferredMessages := []\<rparr>) (fst r)" by (simp add: r_def)
  then have r: "ch_running (fst r) = ch_running ch" "ch_nextRun (fst r) = ch_nextRun ch" "ch_deferredMessages (fst r) = []"
    by (simp_all add: same_runs_def)
  have out: "answer_ids (snd r) = []" by (simp add: r_def)
  have eq: "close_channel ch e = (if ch_closeError ch \<noteq> None then (ch, []) else
      (fst r\<lparr>ch_incomingAborts := [], ch_pending := [], ch_streamListeners := [], ch_streamControl := []\<rparr>,
       snd r @ [TransportDisposed] @ map (\<lambda>(key, n). Reject n e) (ch_pending (fst r))))"
    by (simp add: close_channel_def Let_def case_prod_unfold r_def)
  show "runs_inv (fst (close_channel ch e))" "answer_ids (snd (close_channel ch e)) = []"
    "open_requests (fst (close_channel ch e)) \<subseteq># open_requests ch"
    using assms by (simp_all add: eq runs_inv_def r out open_requests_def)
qed

lemma run_serves:
  assumes "runs_inv ch"
  shows "mset (answer_ids (snd (channel_run ch es))) + open_requests (fst (channel_run ch es))
      \<subseteq># open_requests ch + mset (concat (map event_requests es))"
    and "list_all no_close es \<Longrightarrow>
      mset (answer_ids (snd (channel_run ch es))) + open_requests (fst (channel_run ch es)) =
      open_requests ch + mset (concat (map event_requests es))"
proof -
  have "mset (answer_ids (snd (channel_run ch es))) + open_requests (fst (channel_run ch es))
      \<subseteq># open_requests ch + mset (concat (map event_requests es)) \<and>
    (list_all no_close es \<longrightarrow>
      mset (answer_ids (snd (channel_run ch es))) + open_requests (fst (channel_run ch es)) =
      open_requests ch + mset (concat (map event_requests es)))"
    using assms
  proof (induction es arbitrary: ch)
    case (Cons e es)
    define ch1 where "ch1 = fst (channel_step ch e)"
    have "runs_inv ch1 \<and> mset (answer_ids (snd (channel_step ch e))) + open_requests ch1 \<subseteq># open_requests ch + mset (event_requests e) \<and>
        (no_close e \<longrightarrow> mset (answer_ids (snd (channel_step ch e))) + open_requests ch1 = open_requests ch + mset (event_requests e))"
    proof (cases "no_close e")
      case True
      with serves_step [OF Cons.prems] show ?thesis by (simp add: serves_def ch1_def)
    next
      case False
      then obtain err where "e = Close err" by (cases e) simp_all
      with close_no_answer [OF Cons.prems] False show ?thesis by (simp add: ch1_def)
    qed
    then have step: "runs_inv ch1" "mset (answer_ids (snd (channel_step ch e))) + open_requests ch1 \<subseteq># open_requests ch + mset (event_requests e)"
      "no_close e \<Longrightarrow> mset (answer_ids (snd (channel_step ch e))) + open_requests ch1 = open_requests ch + mset (event_requests e)"
      by simp_all
    have run: "snd (channel_run ch (e # es)) = snd (channel_step ch e) @ snd (channel_run ch1 es)"
      "fst (channel_run ch (e # es)) = fst (channel_run ch1 es)"
      by (simp_all add: ch1_def case_prod_unfold)
    let ?A = "mset (answer_ids (snd (channel_step ch e)))" and ?B = "mset (answer_ids (snd (channel_run ch1 es)))"
    let ?O2 = "open_requests (fst (channel_run ch1 es))" and ?R = "mset (concat (map event_requests es))"
    have ih: "?B + ?O2 \<subseteq># open_requests ch1 + ?R" "list_all no_close es \<Longrightarrow> ?B + ?O2 = open_requests ch1 + ?R"
      using Cons.IH [OF step(1)] by simp_all
    have "?A + (?B + ?O2) \<subseteq># ?A + (open_requests ch1 + ?R)" using ih(1) by simp
    also have "\<dots> = (?A + open_requests ch1) + ?R" by (simp only: add.assoc)
    also have "\<dots> \<subseteq># (open_requests ch + mset (event_requests e)) + ?R" using step(2) by simp
    finally have sub: "?A + (?B + ?O2) \<subseteq># open_requests ch + (mset (event_requests e) + ?R)" by (simp only: add.assoc)
    have "?A + (?B + ?O2) = open_requests ch + (mset (event_requests e) + ?R)" if "list_all no_close (e # es)"
    proof -
      have "?A + (?B + ?O2) = (?A + open_requests ch1) + ?R" using that ih(2) by (simp only: add.assoc list.pred_inject(2))
      also have "\<dots> = open_requests ch + (mset (event_requests e) + ?R)" using that step(3) by (simp only: add.assoc list.pred_inject(2))
      finally show ?thesis .
    qed
    with sub show ?case unfolding run by (simp add: add.assoc)
  qed simp
  then show "mset (answer_ids (snd (channel_run ch es))) + open_requests (fst (channel_run ch es))
      \<subseteq># open_requests ch + mset (concat (map event_requests es))"
    and "list_all no_close es \<Longrightarrow>
      mset (answer_ids (snd (channel_run ch es))) + open_requests (fst (channel_run ch es)) =
      open_requests ch + mset (concat (map event_requests es))"
    by simp_all
qed


text \<open>C24: Every request of the peer is answered at most once: the ids of the responses sent, of the
  requests whose handler is still running and of those still deferred are, each as often, ids of
  requests that arrived; and if the channel is never closed they are all of them.\<close>

theorem requests_answered_once:
  assumes "channel_run (channel_init d) es = (ch, out)"
  shows "mset (answer_ids out) + open_requests ch \<subseteq># mset (concat (map event_requests es)) \<and>
    (list_all no_close es \<longrightarrow> mset (answer_ids out) + open_requests ch = mset (concat (map event_requests es)))"
proof -
  have "runs_inv (channel_init d)" "open_requests (channel_init d) = {#}"
    by (simp_all add: runs_inv_def channel_init_def open_requests_def)
  with run_serves [of "channel_init d" es] assms show ?thesis by simp
qed

theorem requests_answered_once_witness:
  "answer_ids (snd (channel_run (channel_init True)
     [Arrive (Request (IdStr ''a'') ''m'' None), Arrive (Request (IdStr ''b'') ''m'' None), ResumeRequests None])) = [IdStr ''a'', IdStr ''b'']
   \<and> open_requests (fst (channel_run (channel_init True)
     [Arrive (Request (IdStr ''a'') ''m'' None), Arrive (Request (IdStr ''b'') ''m'' None), ResumeRequests None])) = {#}"
proof -
  let ?es = "[Arrive (Request (IdStr ''a'') ''m'' None), Arrive (Request (IdStr ''b'') ''m'' None), ResumeRequests None]"
  have out: "answer_ids (snd (channel_run (channel_init True) ?es)) = [IdStr ''a'', IdStr ''b'']" by code_simp
  from requests_answered_once [OF surjective_pairing, of True ?es] out show ?thesis by simp
qed


section \<open>Requests that arrive early\<close>

text \<open>Dispatching does not look at the deferral flag.\<close>

definition with_deferral :: "bool \<Rightarrow> channel \<times> channel_out list \<Rightarrow> channel \<times> channel_out list" where
  "with_deferral b r = ((fst r)\<lparr>ch_requestsDeferred := b\<rparr>, snd r)"

lemma with_deferral_pair [simp]: "with_deferral b (ch, out) = (ch\<lparr>ch_requestsDeferred := b\<rparr>, out)"
  by (simp add: with_deferral_def)

lemma post_control_flag [simp]: "post_control (ch\<lparr>ch_requestsDeferred := b\<rparr>) i d c = post_control ch i d c"
  by (simp add: post_control_def send_stream_def)

lemma pinger_flag:
  "pinger_dispose (ch\<lparr>ch_requestsDeferred := b\<rparr>) pid = with_deferral b (pinger_dispose ch pid)"
  "pinger_control (ch\<lparr>ch_requestsDeferred := b\<rparr>) pid c = with_deferral b (pinger_control ch pid c)"
  "abort_run (ch\<lparr>ch_requestsDeferred := b\<rparr>) k e = with_deferral b (abort_run ch k e)"
  by (simp_all add: pinger_dispose_def pinger_control_def abort_run_def split: option.split json.split)

lemma finish_run_flag:
  "finish_run (ch\<lparr>ch_requestsDeferred := b\<rparr>) k i r = with_deferral b (finish_run ch k i r)"
  by (cases "jm_get (ch_pingers ch) (Incoming k)") (simp_all add: finish_run_def Let_def pinger_dispose_def)

lemma handle_request_flag:
  "handle_request (ch\<lparr>ch_requestsDeferred := b\<rparr>) i meth p = with_deferral b (handle_request ch i meth p)"
  by (simp add: handle_request_def Let_def make_pinger_def finish_run_def pinger_dispose_def)

lemma dispatch_flag:
  "dispatch_message (ch\<lparr>ch_requestsDeferred := b\<rparr>) m = with_deferral b (dispatch_message ch m)"
proof -
  have "handle_stream_notification (ch\<lparr>ch_requestsDeferred := b\<rparr>) m = with_deferral b (handle_stream_notification ch m)" for m
    by (simp add: handle_stream_notification_def Let_def handler_control_def pinger_flag split: option.split controller.split)
  moreover have "handle_response (ch\<lparr>ch_requestsDeferred := b\<rparr>) m = with_deferral b (handle_response ch m)" for m
    by (simp add: handle_response_def split: option.split)
  ultimately show ?thesis
    by (cases m) (simp_all add: dispatch_message_def handle_request_flag handle_notification_def)
qed

lemma dispatch_all_flag:
  "dispatch_all (ch\<lparr>ch_requestsDeferred := b\<rparr>) ms = with_deferral b (dispatch_all ch ms)"
proof (induction ms arbitrary: ch)
  case (Cons m ms)
  show ?case
    by (simp add: dispatch_flag Cons.IH case_prod_unfold with_deferral_def)
qed simp

definition early :: "message \<Rightarrow> bool" where
  "early m \<longleftrightarrow> \<not> is_response m \<and>
     \<not> (is_notification m \<and> method_of m = Some STREAM_METHOD \<and> stream_field ''dir'' m = Some (JStr DIR_toCaller))"

lemma run_deferred:
  "ch_requestsDeferred ch \<Longrightarrow> ch_resumedMethods ch = [] \<Longrightarrow> list_all early ms \<Longrightarrow>
   channel_run ch (map Arrive ms) = (ch\<lparr>ch_deferredMessages := ch_deferredMessages ch @ ms\<rparr>, [])"
proof (induction ms arbitrary: ch)
  case (Cons m ms)
  then show ?case by (simp add: channel_receive_def is_deferred_def early_def)
qed simp

lemma run_direct:
  "\<not> ch_requestsDeferred ch \<Longrightarrow> channel_run ch (map Arrive ms) = dispatch_all ch ms"
proof (induction ms arbitrary: ch)
  case (Cons m ms)
  have "ch\<lparr>ch_requestsDeferred := False\<rparr> = ch" using Cons.prems by (cases ch) simp
  with dispatch_flag [of False ch m] have "dispatch_message ch m = with_deferral False (dispatch_message ch m)" by simp
  then have "\<not> ch_requestsDeferred (fst (dispatch_message ch m))"
    by (metis channel.select_convs(10) channel.surjective channel.update_convs(10) fst_conv with_deferral_def)
  with Cons show ?case by (simp add: channel_receive_def is_deferred_def case_prod_unfold)
qed simp

lemma channel_run_append:
  "channel_run ch (es @ es') = (let (ch1, out1) = channel_run ch es; (ch2, out2) = channel_run ch1 es' in (ch2, out1 @ out2))"
  by (induction es arbitrary: ch) (simp_all add: case_prod_unfold Let_def)

text \<open>Deferral is invisible to the peer and the handler: whatever requests, notifications and input
  frames arrive before the handler is set and requests are resumed, the channel ends up in
  the same state, having sent and called the same in the same order, as if they had arrived after.\<close>

theorem deferral_is_transparent:
  assumes "list_all early ms"
  shows "channel_run (channel_init True) (map Arrive ms @ [SetRequestHandler True, ResumeRequests None]) =
         channel_run (channel_init False) (SetRequestHandler True # map Arrive ms)"
proof -
  let ?ch = "(channel_init False)\<lparr>ch_handler := True\<rparr>"
  have init: "(channel_init True)\<lparr>ch_handler := True\<rparr> = ?ch\<lparr>ch_requestsDeferred := True\<rparr>"
    by (simp add: channel_init_def)
  have "channel_run (channel_init True) (map Arrive ms) = ((channel_init True)\<lparr>ch_deferredMessages := ms\<rparr>, [])"
    using run_deferred [OF _ _ assms, of "channel_init True"] by (simp add: channel_init_def)
  then have "channel_run (channel_init True) (map Arrive ms @ [SetRequestHandler True, ResumeRequests None]) =
      with_deferral False (dispatch_all (?ch\<lparr>ch_requestsDeferred := True\<rparr>) ms)"
    by (simp add: channel_run_append resume_requests_def case_prod_unfold with_deferral_def Let_def) (simp add: channel_init_def)
  also have "\<dots> = with_deferral False (dispatch_all ?ch ms)" by (simp add: dispatch_all_flag with_deferral_def)
  also have "\<dots> = dispatch_all ?ch ms" using dispatch_all_flag [of False ?ch ms] by (simp add: channel_init_def)
  also have "\<dots> = channel_run ?ch (map Arrive ms)" by (rule run_direct [symmetric]) (simp add: channel_init_def)
  finally show ?thesis by (simp add: case_prod_unfold)
qed

theorem deferral_is_transparent_witness:
  "channel_run (channel_init True) [Arrive (Request (IdStr ''a'') ''m'' None), SetRequestHandler True, ResumeRequests None] =
   channel_run (channel_init False) [SetRequestHandler True, Arrive (Request (IdStr ''a'') ''m'' None)]"
  using deferral_is_transparent [of "[Request (IdStr ''a'') ''m'' None]"]
  by (simp add: early_def is_response_def is_notification_def del: channel_run.simps)

section \<open>Streams and the ids of the peer\<close>

text \<open>A progress frame for a call of this channel.\<close>

definition progress_frame :: "nat \<Rightarrow> json \<Rightarrow> message" where
  "progress_frame n v = Notification STREAM_METHOD (Some (JObj
     [(''requestId'', id_json (call_id n)), (''dir'', JStr DIR_toCaller), (''payload'', v)]))"

lemma progress_fields [simp]:
  "stream_field ''requestId'' (progress_frame n v) = Some (id_json (call_id n))"
  "stream_field ''dir'' (progress_frame n v) = Some (JStr DIR_toCaller)"
  "stream_field ''control'' (progress_frame n v) = None"
  "stream_field ''payload'' (progress_frame n v) = Some v"
  by (simp_all add: progress_frame_def stream_field_def stream_params_def params_of_def)

lemma receive_progress:
  "channel_receive ch (progress_frame n v) =
     (ch, case jm_get (ch_streamListeners ch) (call_key n) of None \<Rightarrow> [] | Some l \<Rightarrow> [Deliver l (Some v)])"
proof -
  have "\<not> is_deferred ch (progress_frame n v)"
    by (simp add: is_deferred_def) (simp add: progress_frame_def is_notification_def method_of_def)
  moreover have "dispatch_message ch (progress_frame n v) = handle_stream_notification ch (progress_frame n v)"
    by (simp add: progress_frame_def dispatch_message_def)
  ultimately show ?thesis
    by (simp add: channel_receive_def handle_stream_notification_def call_key_def split: option.split)
qed

definition foreign :: "request_id \<Rightarrow> bool" where
  "foreign i \<longleftrightarrow> \<not> (\<exists>n. id_string i = call_key n)"

lemma strip_zeros_Dec: "\<exists>m' e'. strip_zeros m e = Dec m' e'"
  by (induction m e rule: strip_zeros.induct) (subst strip_zeros.simps, simp)

text \<open>An id with a character no number is written with is foreign.\<close>

lemma foreignI:
  assumes "c \<in> set (id_string i)" "\<not> is_digit c" "c \<notin> {CHR ''.'', CHR ''e'', CHR ''+'', CHR ''-''}"
  shows "foreign i"
proof -
  have "c \<notin> set (call_key n)" for n
  proof -
    obtain m e where "num_of_int (int n) = Dec m e" using strip_zeros_Dec num_of_int_def by metis
    with num_to_string_chars [of c m e] assms(2,3) show ?thesis
      by (auto simp: call_key_def call_id_def id_string_def)
  qed
  with assms(1) show ?thesis unfolding foreign_def by metis
qed

definition foreign_message :: "message \<Rightarrow> bool" where
  "foreign_message m \<longleftrightarrow> list_all foreign (request_ids [m])"

fun foreign_event :: "channel_event \<Rightarrow> bool" where
  "foreign_event (Arrive m) = foreign_message m"
| "foreign_event _ = True"

definition stream_inv :: "nat \<Rightarrow> channel \<Rightarrow> bool" where
  "stream_inv n ch \<longleftrightarrow>
     (pending_call ch n \<longrightarrow> jm_get (ch_streamListeners ch) (call_key n) = Some (CallerListener n)) \<and>
     n < ch_nextId ch \<and>
     (\<forall>k p. jm_get (ch_pingers ch) (Incoming k) = Some p \<longrightarrow> foreign (pg_requestId p)) \<and>
     (\<forall>k i. jm_get (ch_running ch) k = Some i \<longrightarrow> foreign i) \<and>
     list_all foreign_message (ch_deferredMessages ch)"

lemma stream_inv_fields [simp]:
  "stream_inv n (ch\<lparr>ch_streamControl := b\<rparr>) = stream_inv n ch" "stream_inv n (ch\<lparr>ch_incomingAborts := c\<rparr>) = stream_inv n ch"
  "stream_inv n (ch\<lparr>ch_keepalive := e\<rparr>) = stream_inv n ch" "stream_inv n (ch\<lparr>ch_stopping := f\<rparr>) = stream_inv n ch"
  "stream_inv n (ch\<lparr>ch_aborted := g\<rparr>) = stream_inv n ch" "stream_inv n (ch\<lparr>ch_handler := k\<rparr>) = stream_inv n ch"
  "stream_inv n (ch\<lparr>ch_resumedMethods := rs\<rparr>) = stream_inv n ch" "stream_inv n (ch\<lparr>ch_sending := q\<rparr>) = stream_inv n ch"
  "stream_inv n (ch\<lparr>ch_closeError := ce\<rparr>) = stream_inv n ch" "stream_inv n (ch\<lparr>ch_requestsDeferred := rd\<rparr>) = stream_inv n ch"
  "stream_inv n (ch\<lparr>ch_nextRun := nr\<rparr>) = stream_inv n ch"
  by (simp_all add: stream_inv_def pending_call_def)

lemma stream_inv_drop_call:
  "stream_inv n ch \<Longrightarrow> stream_inv n (ch\<lparr>ch_pending := jm_delete (ch_pending ch) (call_key k),
     ch_streamListeners := jm_delete (ch_streamListeners ch) (call_key k)\<rparr>)"
  by (auto simp: stream_inv_def pending_call_def jm_has_iff)

lemma stream_inv_drop_pending:
  "stream_inv n ch \<Longrightarrow> stream_inv n (ch\<lparr>ch_pending := jm_delete (ch_pending ch) key\<rparr>)"
  by (auto simp: stream_inv_def pending_call_def jm_has_iff)

lemma stream_inv_pingers:
  "stream_inv n ch \<Longrightarrow> (\<And>k p. jm_get ps (Incoming k) = Some p \<Longrightarrow> foreign (pg_requestId p)) \<Longrightarrow> stream_inv n (ch\<lparr>ch_pingers := ps\<rparr>)"
  by (simp add: stream_inv_def pending_call_def)

lemma stream_inv_pinger:
  "stream_inv n ch \<Longrightarrow> jm_get (ch_pingers ch) (Incoming k) = Some p \<Longrightarrow> foreign (pg_requestId p)"
  by (simp add: stream_inv_def)

lemma stream_inv_pings:
  assumes "stream_inv n ch"
  shows "stream_inv n (fst (ping ch pid))" "stream_inv n (fst (pinger_dispose ch pid))"
    "stream_inv n (fst (pinger_control ch pid c))" "stream_inv n (make_pinger ch (Outgoing k) i d)"
    "stream_inv n (fst (stop_ping ch k))"
proof -
  have dispose: "stream_inv n (fst (pinger_dispose ch pid))" if "stream_inv n ch" for ch pid
    using that stream_inv_pinger [OF that]
    by (auto simp: pinger_dispose_def split: option.split if_splits intro!: stream_inv_pingers)
  then show "stream_inv n (fst (pinger_dispose ch pid))" using assms .
  show "stream_inv n (fst (ping ch pid))" "stream_inv n (fst (pinger_control ch pid c))" "stream_inv n (make_pinger ch (Outgoing k) i d)"
    using assms stream_inv_pinger [OF assms]
    by (auto simp: ping_def pinger_control_def make_pinger_def Let_def split: option.split json.split if_splits intro!: stream_inv_pingers)
  show "stream_inv n (fst (stop_ping ch k))"
    using assms by (simp add: stop_ping_def case_prod_unfold dispose)
qed

lemma stream_inv_abort:
  "stream_inv n ch \<Longrightarrow> stream_inv n (fst (abort_run ch k e))"
  "stream_inv n ch \<Longrightarrow> stream_inv n (fst (abort_runs ch ks e))"
proof -
  have run: "stream_inv n ch \<Longrightarrow> stream_inv n (fst (abort_run ch k e))" for ch k by (simp add: abort_run_def)
  then show "stream_inv n ch \<Longrightarrow> stream_inv n (fst (abort_run ch k e))" .
  show "stream_inv n ch \<Longrightarrow> stream_inv n (fst (abort_runs ch ks e))"
    by (induction ks arbitrary: ch) (simp_all add: case_prod_unfold run)
qed

lemma stream_inv_listener:
  assumes "stream_inv n ch" "foreign i"
  shows "stream_inv n (ch\<lparr>ch_streamListeners := jm_delete (ch_streamListeners ch) (id_string i)\<rparr>)"
    "stream_inv n (ch\<lparr>ch_streamListeners := jm_set (ch_streamListeners ch) (id_string i) l\<rparr>)"
proof -
  have "call_key n \<noteq> id_string i" using assms(2) by (metis foreign_def)
  then show "stream_inv n (ch\<lparr>ch_streamListeners := jm_delete (ch_streamListeners ch) (id_string i)\<rparr>)"
    "stream_inv n (ch\<lparr>ch_streamListeners := jm_set (ch_streamListeners ch) (id_string i) l\<rparr>)"
    using assms(1) by (simp_all add: stream_inv_def pending_call_def)
qed

lemma stream_inv_defer:
  "stream_inv n ch \<Longrightarrow> list_all foreign_message xs \<Longrightarrow> stream_inv n (ch\<lparr>ch_deferredMessages := xs\<rparr>)"
  by (simp add: stream_inv_def pending_call_def)

lemma stream_inv_deferred: "stream_inv n ch \<Longrightarrow> list_all foreign_message (ch_deferredMessages ch)"
  by (simp add: stream_inv_def)

lemma stream_inv_response:
  assumes "stream_inv n ch" "calls_inv ch"
  shows "stream_inv n (fst (handle_response ch m))"
proof (cases "response_id m")
  case None
  then show ?thesis by (simp add: handle_response_def assms(1))
next
  case (Some i)
  show ?thesis
  proof (cases "jm_get (ch_pending ch) (id_string i)")
    case None
    with Some show ?thesis by (simp add: handle_response_def assms(1))
  next
    case pending: (Some k)
    then have "id_string i = call_key k" using assms(2) by (simp add: calls_inv_def)
    with Some pending stream_inv_drop_call [OF assms(1), of k] show ?thesis by (simp add: handle_response_def)
  qed
qed

lemma stream_inv_finish:
  assumes "stream_inv n ch" "foreign i"
  shows "stream_inv n (fst (finish_run ch k i r))"
proof -
  have "stream_inv n (fst (pinger_dispose (ch\<lparr>ch_streamListeners := jm_delete (ch_streamListeners ch) (id_string i),
      ch_streamControl := jm_delete (ch_streamControl ch) (id_string i),
      ch_incomingAborts := jm_delete (ch_incomingAborts ch) (id_string i)\<rparr>) (Incoming k)))"
    by (rule stream_inv_pings) (simp add: stream_inv_listener assms)
  then show ?thesis
    by (auto simp: finish_run_def Let_def case_prod_unfold stream_inv_def pending_call_def split: if_splits)
qed

lemma stream_inv_request:
  assumes "stream_inv n ch" "foreign i"
  shows "stream_inv n (fst (handle_request ch i meth p))"
proof -
  define ch2 where "ch2 = (make_pinger ch (Incoming (ch_nextRun ch)) i DIR_toCaller)\<lparr>ch_nextRun := ch_nextRun ch + 1,
      ch_running := jm_set (ch_running ch) (ch_nextRun ch) i,
      ch_incomingAborts := jm_set (ch_incomingAborts ch) (id_string i) (ch_nextRun ch),
      ch_streamControl := jm_set (ch_streamControl ch) (id_string i) (HandlerControl (ch_nextRun ch))\<rparr>"
  have "stream_inv n ch2"
    using assms by (auto simp: ch2_def make_pinger_def stream_inv_def pending_call_def split: if_splits)
  with stream_inv_finish [OF this assms(2)] show ?thesis
    by (simp add: handle_request_def Let_def ch2_def make_pinger_def)
qed

lemma stream_inv_dispatch:
  assumes "stream_inv n ch" "calls_inv ch" "foreign_message m"
  shows "stream_inv n (fst (dispatch_message ch m))"
proof -
  have "stream_inv n (fst (handle_stream_notification ch m'))" for m'
    using stream_inv_pings [OF assms(1)] stream_inv_abort [OF assms(1)] assms(1)
    by (auto simp: handle_stream_notification_def handler_control_def Let_def split: option.split controller.split)
  then show ?thesis
    using stream_inv_request [OF assms(1)] stream_inv_response [OF assms(1,2)] assms(1,3)
    by (cases m) (simp_all add: dispatch_message_def foreign_message_def)
qed

lemma stream_inv_dispatch_all:
  "stream_inv n ch \<Longrightarrow> calls_inv ch \<Longrightarrow> list_all foreign_message ms \<Longrightarrow> stream_inv n (fst (dispatch_all ch ms))"
proof (induction ms arbitrary: ch)
  case (Cons m ms)
  have "stream_inv n (fst (dispatch_message ch m))" "calls_inv (fst (dispatch_message ch m))"
    using Cons.prems stream_inv_dispatch accounts_inv [OF accounts_dispatch] by auto
  with Cons show ?case by (simp add: case_prod_unfold)
qed simp

lemma stream_inv_step:
  assumes "stream_inv n ch" "calls_inv ch" "foreign_event e"
  shows "stream_inv n (fst (channel_step ch e))"
proof (cases e)
  case (Arrive m)
  with assms(3) have "list_all foreign_message (ch_deferredMessages ch @ [m])"
    using stream_inv_deferred [OF assms(1)] by simp
  then have "stream_inv n (ch\<lparr>ch_deferredMessages := ch_deferredMessages ch @ [m]\<rparr>)"
    by (rule stream_inv_defer [OF assms(1)])
  with Arrive assms(3) stream_inv_dispatch [OF assms(1,2)] show ?thesis
    by (simp add: channel_receive_def)
next
  case (SendRequest meth p)
  with assms(1) show ?thesis
    by (auto simp: send_request_def Let_def stream_inv_def pending_call_def jm_has_iff split: option.split)
next
  case (SendStreaming meth p l)
  have "stream_inv n (ch\<lparr>ch_nextId := ch_nextId ch + 1, ch_pending := jm_set (ch_pending ch) (call_key (ch_nextId ch)) (ch_nextId ch)\<rparr>)"
    "stream_inv n (ch\<lparr>ch_nextId := ch_nextId ch + 1, ch_pending := jm_set (ch_pending ch) (call_key (ch_nextId ch)) (ch_nextId ch),
       ch_streamListeners := jm_set (ch_streamListeners ch) (call_key (ch_nextId ch)) (CallerListener (ch_nextId ch))\<rparr>)"
    using assms(1) by (auto simp: stream_inv_def pending_call_def jm_has_iff)
  with SendStreaming assms(1) show ?thesis
    by (simp add: send_request_with_stream_def Let_def stream_inv_pings split: option.split)
next
  case (SendFailed k err)
  have "stream_inv n (ch\<lparr>ch_sending := jm_delete (ch_sending ch) k, ch_pending := jm_delete (ch_pending ch) (call_key k)\<rparr>)"
    using stream_inv_drop_pending [OF assms(1)] by (simp add: stream_inv_def pending_call_def)
  moreover have "stream_inv n (ch\<lparr>ch_sending := jm_delete (ch_sending ch) k, ch_pending := jm_delete (ch_pending ch) (call_key k),
      ch_streamListeners := jm_delete (ch_streamListeners ch) (call_key k)\<rparr>)"
    using stream_inv_drop_call [OF assms(1)] by (simp add: stream_inv_def pending_call_def)
  ultimately show ?thesis
    using SendFailed assms(1) by (simp add: send_failed_def Let_def case_prod_unfold stream_inv_pings split: option.split)
next
  case (ResultSettled k)
  with assms(1) show ?thesis by (simp add: result_settled_def stream_inv_pings)
next
  case (DisposeCall k reason)
  with stream_inv_drop_call [OF assms(1)] assms(1) show ?thesis
    by (simp add: dispose_call_def case_prod_unfold stream_inv_pings)
next
  case (HandlerOnMessage k l)
  with stream_inv_listener [OF assms(1)] stream_inv_pinger [OF assms(1)] assms(1) show ?thesis
    by (auto simp: handler_on_message_def Let_def split: option.split)
next
  case (HandlerDone k r)
  have "foreign i" if "jm_get (ch_running ch) k = Some i" for i using assms(1) that by (simp add: stream_inv_def)
  with HandlerDone stream_inv_finish [OF assms(1)] assms(1) show ?thesis
    by (auto simp: handler_done_def split: option.split)
next
  case (ResumeRequests ms)
  note def = stream_inv_deferred [OF assms(1)]
  then have sub: "list_all foreign_message (filter P (ch_deferredMessages ch))" for P by (auto simp: list_all_iff)
  have inv: "stream_inv n (ch\<lparr>ch_resumedMethods := rs, ch_deferredMessages := xs\<rparr>)"
    if "list_all foreign_message xs" for xs rs
    by (rule stream_inv_defer) (simp_all add: assms(1) that)
  have calls: "calls_inv (ch\<lparr>ch_deferredMessages := xs\<rparr>)" "calls_inv (ch\<lparr>ch_resumedMethods := rs, ch_deferredMessages := xs\<rparr>)" for xs rs
    using assms(2) by (simp_all add: calls_inv_def)
  have "stream_inv n (ch\<lparr>ch_deferredMessages := []\<rparr>)" by (rule stream_inv_defer [OF assms(1)]) simp
  note all = stream_inv_dispatch_all [OF this calls(1) def] stream_inv_dispatch_all [OF inv [OF sub] calls(2) sub]
  then show ?thesis
    by (cases ms) (simp_all add: ResumeRequests resume_requests_def case_prod_unfold Let_def)
next
  case (Close err)
  have "stream_inv n (fst (abort_runs (ch\<lparr>ch_closeError := Some err, ch_deferredMessages := []\<rparr>) ks err))" for ks
    using assms(1) by (intro stream_inv_abort) (simp add: stream_inv_def pending_call_def)
  then show ?thesis
    using assms(1) by (auto simp: Close close_channel_def Let_def case_prod_unfold stream_inv_def pending_call_def jm_has_def)
qed (use assms(1) in \<open>simp_all add: stream_inv_pings\<close>)

lemma stream_inv_run:
  "stream_inv n ch \<Longrightarrow> calls_inv ch \<Longrightarrow> list_all foreign_event es \<Longrightarrow> stream_inv n (fst (channel_run ch es))"
proof (induction es arbitrary: ch)
  case (Cons e es)
  have "stream_inv n (fst (channel_step ch e))" "calls_inv (fst (channel_step ch e))"
    using Cons.prems stream_inv_step accounts_inv [OF accounts_step] by auto
  with Cons show ?case by (simp add: case_prod_unfold)
qed simp

text \<open>As long as no request of the peer has an id that reads like one of this channel's own, a
  streaming call gets every progress frame until it is settled, whatever else happens.\<close>

lemma stream_delivery:
  assumes "channel_run (channel_init d) es = (ch, out)" "list_all foreign_event es" "ch_closeError ch = None"
    "list_all foreign_event es'" "ch' = fst (channel_run ch (SendStreaming meth params True # es'))"
    "pending_call ch' (ch_nextId ch)"
  shows "channel_step ch' (Arrive (progress_frame (ch_nextId ch) v)) =
    (ch', [Deliver (CallerListener (ch_nextId ch)) (Some v)])"
proof -
  let ?n = "ch_nextId ch"
  have calls: "calls_inv ch" using accounts_inv [OF accounts_run, of "channel_init d" es] assms(1) by simp
  have "stream_inv 0 (channel_init d)" by (simp add: stream_inv_def channel_init_def pending_call_def jm_has_def)
  then have "stream_inv 0 ch" using stream_inv_run [OF _ calls_inv_init assms(2), of 0 d] assms(1) by simp
  define ch1 where "ch1 = fst (channel_step ch (SendStreaming meth params True))"
  have "stream_inv ?n ch1"
    using \<open>stream_inv 0 ch\<close> assms(3)
    by (simp add: ch1_def send_request_with_stream_def Let_def make_pinger_def stream_inv_def)
  moreover have "calls_inv ch1" using accounts_inv [OF accounts_step [OF calls]] by (simp add: ch1_def del: channel_step.simps)
  ultimately have "stream_inv ?n (fst (channel_run ch1 es'))" using stream_inv_run assms(4) by blast
  moreover have "ch' = fst (channel_run ch1 es')" using assms(5) by (simp add: ch1_def case_prod_unfold)
  ultimately have "jm_get (ch_streamListeners ch') (call_key ?n) = Some (CallerListener ?n)"
    using assms(6) by (simp add: stream_inv_def)
  then show ?thesis by (simp add: receive_progress)
qed

text \<open>A request of the peer whose id reads like the id of a pending streaming call takes over the
  call's entry in the table both directions share: before it, a progress frame reaches the caller; once
  its handler is done, the frames of the call, still pending, are dropped.\<close>

theorem peer_request_breaks_stream:
  assumes "pending_call ch n" "jm_get (ch_streamListeners ch) (call_key n) = Some (CallerListener n)"
    "ch_handler ch" "\<not> ch_requestsDeferred ch" "id_string i = call_key n"
    "ch' = fst (channel_run ch [Arrive (Request i meth params), HandlerDone (ch_nextRun ch) r])"
  shows "channel_step ch (Arrive (progress_frame n v)) = (ch, [Deliver (CallerListener n) (Some v)]) \<and>
    pending_call ch' n \<and> channel_step ch' (Arrive (progress_frame n v)) = (ch', [])"
proof -
  let ?k = "ch_nextRun ch"
  define ch1 where "ch1 = fst (channel_step ch (Arrive (Request i meth params)))"
  have ch1: "ch_pending ch1 = ch_pending ch" "jm_get (ch_running ch1) ?k = Some i"
    using assms(3,4) by (simp_all add: ch1_def channel_receive_def is_deferred_def dispatch_message_def handle_request_def
        Let_def make_pinger_def)
  have ch': "ch' = fst (finish_run ch1 ?k i r)"
    using assms(6) ch1(2) by (simp add: ch1_def case_prod_unfold handler_done_def)
  have "jm_get (ch_streamListeners ch') (call_key n) = None" "ch_pending ch' = ch_pending ch"
    by (simp_all add: ch' finish_run_def Let_def case_prod_unfold pinger_dispose_def assms(5) ch1(1) split: option.split)
  with assms(1,2) show ?thesis by (simp add: receive_progress pending_call_def)
qed

theorem peer_request_breaks_stream_witness:
  "snd (channel_step (fst (channel_run (channel_init False) [SetRequestHandler True, SendStreaming ''m'' None True,
      Arrive (Request (call_id 1) ''p'' None), HandlerDone 1 (HandlerResult JNull)])) (Arrive (progress_frame 1 JNull))) = []"
proof -
  define ch where "ch = fst (channel_run (channel_init False) [SetRequestHandler True, SendStreaming ''m'' None True])"
  have "pending_call ch 1" "jm_get (ch_streamListeners ch) (call_key 1) = Some (CallerListener 1)" "ch_handler ch"
    "\<not> ch_requestsDeferred ch" "ch_nextRun ch = 1" "id_string (call_id 1) = call_key 1"
    unfolding ch_def by code_simp+
  with peer_request_breaks_stream [where meth = "''p''" and params = None and r = "HandlerResult JNull" and v = JNull, OF this(1-4) this(6) refl] show ?thesis
    by (simp add: ch_def case_prod_unfold)
qed

end
