(* ===== verification/Overlay.thy ===== *)
theory Overlay
  imports Splitter ChannelCorrect
begin

text \<open>
  A participant behind its overlay: a channel whose transport is the participant's port of a
  splitter.  What the splitter sends to the port arrives at the channel, what the channel transmits
  arrives at the port, in the same step.  The ids the splitter gives to upstream requests keep the
  channel's two directions apart, and the two together are a lossless path for calls.
\<close>

section \<open>The composition\<close>

record overlay =
  ov_splitter :: splitter
  ov_channel :: channel

datatype overlay_event = Upstream splitter_in | Local_event channel_event

datatype overlay_out = Routed splitter_out | Effect channel_out

definition overlay_init :: "inspection option \<Rightarrow> bool \<Rightarrow> overlay" where
  "overlay_init ins d = \<lparr>ov_splitter = splitter_new ins, ov_channel = channel_init d\<rparr>"

definition to_participant :: "splitter_out list \<Rightarrow> channel_event list" where
  "to_participant out = concat (map (\<lambda>x. case x of ToP m \<Rightarrow> [Arrive m] | _ \<Rightarrow> []) out)"

definition transmitted :: "channel_out list \<Rightarrow> message list" where
  "transmitted out = concat (map (\<lambda>x. case x of Transmit m \<Rightarrow> [m] | _ \<Rightarrow> []) out)"

definition run_channel :: "overlay \<Rightarrow> nat \<Rightarrow> channel_event list \<Rightarrow> overlay \<times> overlay_out list" where
  "run_channel ov now es = (case channel_run (ov_channel ov) es of
     (ch, out) \<Rightarrow> (case splitter_run (ov_splitter ov) (map (\<lambda>m. (now, FromP m)) (transmitted out)) of
        (st, routed) \<Rightarrow> (\<lparr>ov_splitter = st, ov_channel = ch\<rparr>, map Effect out @ map Routed routed)))"

fun overlay_step :: "overlay \<Rightarrow> nat \<times> overlay_event \<Rightarrow> overlay \<times> overlay_out list" where
  "overlay_step ov (now, Upstream inp) = (case inp of
     FromP m \<Rightarrow> (ov, [])
   | _ \<Rightarrow> (case splitter_step (ov_splitter ov) (now, inp) of
        (st, routed) \<Rightarrow> run_channel (ov\<lparr>ov_splitter := st\<rparr>) now (to_participant routed)))"
| "overlay_step ov (now, Local_event e) = (case e of
     Arrive m \<Rightarrow> (ov, [])
   | _ \<Rightarrow> run_channel ov now [e])"

fun overlay_run :: "overlay \<Rightarrow> (nat \<times> overlay_event) list \<Rightarrow> overlay \<times> overlay_out list" where
  "overlay_run ov [] = (ov, [])"
| "overlay_run ov (e # es) = (case overlay_step ov e of
     (ov1, out1) \<Rightarrow> (case overlay_run ov1 es of (ov2, out2) \<Rightarrow> (ov2, out1 @ out2)))"

section \<open>Upstream ids are foreign to the channel\<close>

text \<open>A request named like a stream frame is the one the splitter passes on with its own id, which may
  then be an id the channel uses for its own calls.\<close>

definition stream_request :: "message \<Rightarrow> bool" where
  "stream_request m \<longleftrightarrow> is_request m \<and> method_of m = Some STREAM_METHOD"

fun plain_event :: "overlay_event \<Rightarrow> bool" where
  "plain_event (Upstream (FromH m)) = (stream_request m \<longrightarrow> foreign_message m)"
| "plain_event (Upstream (FromC m)) = (stream_request m \<longrightarrow> foreign_message m)"
| "plain_event _ = True"

lemma foreign_encoded [simp]: "foreign (IdStr (encode_id origin i))"
  by (rule foreignI [of "CHR 0x00"]) (simp_all add: id_string_def encode_id_def SEP_def is_digit_def)

lemma not_request_foreign: "\<not> is_request m \<Longrightarrow> foreign_message m"
  by (cases m) (simp_all add: is_request_def foreign_message_def)

lemma to_participant_simps [simp]:
  "to_participant [] = []" "to_participant (xs @ ys) = to_participant xs @ to_participant ys"
  "to_participant [ToP m] = [Arrive m]" "to_participant (emit st f) = []"
  by (simp_all add: to_participant_def) (cases "sp_inspect st"; simp add: emit_def)

lemma with_requestId_kind [simp]: "is_request (with_requestId m i) = is_request m"
  by (cases m) (simp_all add: with_requestId_def Let_def is_request_def)

lemma request_ids_with_requestId: "request_ids [with_requestId m i] = request_ids [m]"
  by (cases m) (simp_all add: with_requestId_def Let_def)

lemma upstream_foreign:
  assumes "stream_request m \<longrightarrow> foreign_message m"
  shows "list_all foreign_event (to_participant (snd (from_upstream st now m origin)))"
proof (cases m)
  case (Request i meth p)
  show ?thesis
  proof (cases "meth = STREAM_METHOD")
    case True
    with Request assms have "foreign_message m" by (simp add: stream_request_def is_request_def method_of_def)
    then have "foreign_message (with_requestId m j)" for j
      by (simp only: foreign_message_def request_ids_with_requestId)
    with True Request \<open>foreign_message m\<close> show ?thesis
      by (auto simp: from_upstream_def is_response_def method_of_def Let_def split: option.split)
  next
    case False
    with Request show ?thesis
      by (simp add: from_upstream_def is_response_def method_of_def with_id_def foreign_message_def Let_def)
  qed
next
  case (Notification meth p)
  show ?thesis
    by (auto simp: Notification from_upstream_def is_response_def method_of_def with_requestId_def Let_def
        foreign_message_def split: option.split)
qed (simp_all add: from_upstream_def is_response_def Let_def not_request_foreign is_request_def)

lemma step_foreign:
  assumes "plain_event ev"
  shows "\<exists>es. list_all foreign_event es \<and>
    ov_channel (fst (overlay_step ov (now, ev))) = fst (channel_run (ov_channel ov) es)"
proof (cases ev)
  case (Upstream inp)
  have none: "\<exists>es. list_all foreign_event es \<and> ov_channel ov = fst (channel_run (ov_channel ov) es)"
    by (rule exI [of _ "[]"]) simp
  show ?thesis
  proof (cases inp)
    case (FromP m)
    with Upstream none show ?thesis by simp
  next
    case (FromC m)
    with Upstream assms have "list_all foreign_event (to_participant (snd (splitter_step (ov_splitter ov) (now, inp))))"
      using upstream_foreign by simp
    with Upstream FromC show ?thesis
      by (intro exI [of _ "to_participant (snd (splitter_step (ov_splitter ov) (now, inp)))"])
        (simp add: run_channel_def case_prod_unfold)
  next
    case (FromH m)
    with Upstream assms have "list_all foreign_event (to_participant (snd (splitter_step (ov_splitter ov) (now, inp))))"
      using upstream_foreign by simp
    with Upstream FromH show ?thesis
      by (intro exI [of _ "to_participant (snd (splitter_step (ov_splitter ov) (now, inp)))"])
        (simp add: run_channel_def case_prod_unfold)
  qed
next
  case (Local_event e)
  show ?thesis
  proof (cases "\<exists>m. e = Arrive m")
    case True
    with Local_event show ?thesis by (intro exI [of _ "[]"]) auto
  next
    case False
    then have "foreign_event e" by (cases e) simp_all
    moreover have "overlay_step ov (now, Local_event e) = run_channel ov now [e]" using False by (cases e) simp_all
    ultimately show ?thesis
      using Local_event by (intro exI [of _ "[e]"]) (simp add: run_channel_def case_prod_unfold)
  qed
qed

lemma channel_run_fst: "fst (channel_run ch (es @ es')) = fst (channel_run (fst (channel_run ch es)) es')"
  by (simp add: channel_run_append case_prod_unfold Let_def)

lemma run_foreign:
  "list_all (\<lambda>e. plain_event (snd e)) es \<Longrightarrow>
   \<exists>es'. list_all foreign_event es' \<and> ov_channel (fst (overlay_run ov es)) = fst (channel_run (ov_channel ov) es')"
proof (induction es arbitrary: ov)
  case Nil
  show ?case by (rule exI [of _ "[]"]) simp
next
  case (Cons e es)
  obtain now ev where e: "e = (now, ev)" by (cases e)
  obtain es1 where es1: "list_all foreign_event es1" "ov_channel (fst (overlay_step ov e)) = fst (channel_run (ov_channel ov) es1)"
    using step_foreign [of ev ov now] Cons.prems e by auto
  obtain es2 where es2: "list_all foreign_event es2"
    "ov_channel (fst (overlay_run (fst (overlay_step ov e)) es)) = fst (channel_run (ov_channel (fst (overlay_step ov e))) es2)"
    using Cons.IH [of "fst (overlay_step ov e)"] Cons.prems by auto
  show ?case
    using es1 es2 by (intro exI [of _ "es1 @ es2"]) (simp add: case_prod_unfold channel_run_fst)
qed


lemma splitter_step_disposed: "sp_disposed (fst (splitter_step st i)) = sp_disposed st"
proof -
  have "sp_disposed (fst (from_participant st now m)) = sp_disposed st" "sp_disposed (fst (from_upstream st now m orig)) = sp_disposed st" for now m orig
    by (auto simp: from_participant_def from_upstream_def Let_def split: option.split message.split prod.split)
  then show ?thesis by (cases i) (auto split: splitter_in.split)
qed

lemma splitter_run_disposed: "sp_disposed (fst (splitter_run st is)) = sp_disposed st"
  by (induction "is" arbitrary: st) (simp_all add: case_prod_unfold splitter_step_disposed)

lemma overlay_step_disposed: "sp_disposed (ov_splitter (fst (overlay_step ov e))) = sp_disposed (ov_splitter ov)"
proof -
  have run: "sp_disposed (ov_splitter (fst (run_channel ov now es))) = sp_disposed (ov_splitter ov)" for ov now es
    by (simp add: run_channel_def case_prod_unfold splitter_run_disposed)
  obtain now ev where e: "e = (now, ev)" by (cases e)
  show ?thesis
  proof (cases ev)
    case (Upstream inp)
    then show ?thesis using splitter_step_disposed [of "ov_splitter ov" "(now, inp)"]
      by (cases inp) (simp_all add: e case_prod_unfold run del: splitter_step.simps)
  next
    case (Local_event c)
    then show ?thesis by (cases c) (simp_all add: e run)
  qed
qed

lemma overlay_run_disposed: "sp_disposed (ov_splitter (fst (overlay_run ov es))) = sp_disposed (ov_splitter ov)"
  by (induction es arbitrary: ov) (simp_all add: case_prod_unfold overlay_step_disposed)

section \<open>Streams of the participant survive whatever arrives\<close>

lemma frame_from_upstream:
  "from_upstream st now (progress_frame n v) OriginH = (st, [ToP (progress_frame n v)])"
proof -
  have "stream_dir (progress_frame n v) = Some DIR_toCaller" by (simp add: stream_dir_def)
  then show ?thesis by (simp add: from_upstream_def is_response_def method_of_def progress_frame_def dir_consts)
qed

text \<open>C25: Behind a splitter a participant does not lose the stream of a call it made while its channel was open: as long as the
  call is pending, a progress frame for it from upstream reaches the caller's listener, whatever the
  hub and the root services have sent before, with one exception the hypotheses \<^verbatim>\<open>plain_event\<close> make.  The
  splitter gives every request from upstream a tagged id, which no call of the participant has, except
  a request (not a notification) named \<^verbatim>\<open>$stream::send\<close>, which it passes on with its own id: no such
  request may come whose id reads like one of the channel's call ids.\<close>

theorem overlay_streams_survive:
  assumes "ov = fst (overlay_run (overlay_init ins d) es)" "list_all (\<lambda>e. plain_event (snd e)) es"
    "ch_closeError (ov_channel ov) = None" "n = ch_nextId (ov_channel ov)"
    "ov' = fst (overlay_run ov ((now, Local_event (SendStreaming meth params True)) # es'))"
    "list_all (\<lambda>e. plain_event (snd e)) es'"
    "pending_call (ov_channel ov') n" "\<not> sp_disposed (ov_splitter ov')"
  shows "snd (overlay_step ov' (now', Upstream (FromH (progress_frame n v)))) =
    [Effect (Deliver (CallerListener n) (Some v))]"
proof -
  obtain es1 where es1: "list_all foreign_event es1" "ov_channel ov = fst (channel_run (channel_init d) es1)"
    using run_foreign [OF assms(2), of "overlay_init ins d"] assms(1) by (auto simp: overlay_init_def)
  define ov1 where "ov1 = fst (overlay_step ov (now, Local_event (SendStreaming meth params True)))"
  have ov1: "ov_channel ov1 = fst (channel_step (ov_channel ov) (SendStreaming meth params True))"
    by (simp add: ov1_def run_channel_def case_prod_unfold)
  obtain es2 where es2: "list_all foreign_event es2" "ov_channel ov' = fst (channel_run (ov_channel ov1) es2)"
    using run_foreign [OF assms(6), of ov1] assms(5) by (auto simp: ov1_def case_prod_unfold)
  have ch': "ov_channel ov' = fst (channel_run (ov_channel ov) (SendStreaming meth params True # es2))"
    by (simp add: es2(2) ov1 case_prod_unfold)
  have run: "channel_run (channel_init d) es1 = (ov_channel ov, snd (channel_run (channel_init d) es1))"
    by (simp add: es1(2))
  have deliver: "channel_step (ov_channel ov') (Arrive (progress_frame n v)) =
      (ov_channel ov', [Deliver (CallerListener n) (Some v)])"
    using stream_delivery [OF run es1(1) assms(3) es2(1) ch'] assms(4,7) by simp
  with assms(8) show ?thesis
    by (simp add: frame_from_upstream run_channel_def case_prod_unfold transmitted_def)
qed

theorem overlay_streams_survive_witness:
  "snd (overlay_step (fst (overlay_run (overlay_init None False)
      [(0, Local_event (SendStreaming ''s::i::m'' None True)), (1, Upstream (FromH (Request (call_id 1) ''p'' None)))]))
      (2, Upstream (FromH (progress_frame 1 JNull)))) = [Effect (Deliver (CallerListener 1) (Some JNull))]"
proof -
  define ov where "ov = fst (overlay_run (overlay_init None False) [])"
  define es' where "es' = [(1 :: nat, Upstream (FromH (Request (call_id 1) ''p'' None)))]"
  define ov' where "ov' = fst (overlay_run ov ((0, Local_event (SendStreaming ''s::i::m'' None True)) # es'))"
  have plain: "list_all (\<lambda>e. plain_event (snd e)) []" "list_all (\<lambda>e. plain_event (snd e)) es'"
    by (simp_all add: es'_def stream_request_def method_of_def STREAM_METHOD_def)
  have state: "ch_closeError (ov_channel ov) = None" "1 = ch_nextId (ov_channel ov)"
    by (simp_all add: ov_def overlay_init_def channel_init_def)
  have pending: "pending_call (ov_channel ov') 1" "\<not> sp_disposed (ov_splitter ov')"
    unfolding ov'_def ov_def es'_def by code_simp+
  from overlay_streams_survive [OF ov_def plain(1) state ov'_def plain(2) pending, of 2 JNull] show ?thesis
    by (simp only: ov'_def ov_def es'_def overlay_run.simps(1) fst_conv)
qed

text \<open>The exception is real: a request named \<^verbatim>\<open>$stream::send\<close> from the hub under the id of a pending
  streaming call costs the call its stream.\<close>

theorem stream_request_breaks_call:
  assumes "\<not> sp_disposed (ov_splitter ov)" "pending_call (ov_channel ov) n"
    "jm_get (ch_streamListeners (ov_channel ov)) (call_key n) = Some (CallerListener n)"
    "ch_handler (ov_channel ov)" "\<not> ch_requestsDeferred (ov_channel ov)" "id_string i = call_key n"
    "ov' = fst (overlay_run ov [(t1, Upstream (FromH (Request i STREAM_METHOD None))),
        (t2, Local_event (HandlerDone (ch_nextRun (ov_channel ov)) r))])"
  shows "snd (overlay_step ov (t, Upstream (FromH (progress_frame n v)))) = [Effect (Deliver (CallerListener n) (Some v))] \<and>
    pending_call (ov_channel ov') n \<and> snd (overlay_step ov' (t, Upstream (FromH (progress_frame n v)))) = []"
proof -
  let ?es = "[Arrive (Request i STREAM_METHOD None), HandlerDone (ch_nextRun (ov_channel ov)) r]"
  have up: "from_upstream st now (Request i STREAM_METHOD None) OriginH = (st, [ToP (Request i STREAM_METHOD None)])" for st now
    by (simp add: from_upstream_def is_response_def method_of_def stream_dir_def stream_field_def stream_params_def params_of_def)
  have ch': "ov_channel ov' = fst (channel_run (ov_channel ov) ?es)"
    using assms(1) by (simp add: assms(7) up run_channel_def case_prod_unfold)
  have alive: "\<not> sp_disposed (ov_splitter ov')"
    using assms(1) by (simp only: assms(7) overlay_run_disposed simp_thms)
  from peer_request_breaks_stream [OF assms(2-6) ch', of v] show ?thesis
    using assms(1) alive by (simp add: frame_from_upstream run_channel_def case_prod_unfold transmitted_def)
qed

section \<open>Calls reach the handler and their answers return\<close>

definition keeps_run :: "nat \<Rightarrow> channel \<Rightarrow> channel \<Rightarrow> bool" where
  "keeps_run k ch ch' \<longleftrightarrow> ch_nextRun ch \<le> ch_nextRun ch' \<and>
     (k < ch_nextRun ch \<longrightarrow> jm_get (ch_running ch') k = None \<or> jm_get (ch_running ch') k = jm_get (ch_running ch) k)"



lemma keeps_run_refl [simp]: "keeps_run k ch ch"
  by (simp add: keeps_run_def)




lemma keeps_run_deferred [simp]:
  "keeps_run k (ch\<lparr>ch_deferredMessages := xs\<rparr>) ch' = keeps_run k ch ch'" "keeps_run k ch (ch'\<lparr>ch_deferredMessages := xs\<rparr>) = keeps_run k ch ch'"
  "keeps_run k ch (ch'\<lparr>ch_requestsDeferred := b\<rparr>) = keeps_run k ch ch'"
  "keeps_run k (ch\<lparr>ch_resumedMethods := rs\<rparr>) ch' = keeps_run k ch ch'"
  by (simp_all add: keeps_run_def)






text \<open>The response the end of a handler gives to its request: \<^verbatim>\<open>_handleRequest\<close>.\<close>

definition answer_to :: "request_id \<Rightarrow> handler_result \<Rightarrow> message" where
  "answer_to i r = (case r of
     HandlerResult v \<Rightarrow> Success (Some i) v
   | HandlerError e \<Rightarrow> Failure (Some i) e
   | HandlerThrew msg \<Rightarrow> Failure (Some i) \<lparr>err_code = ERR_internalError, err_message = msg, err_data = None\<rparr>)"


lemma answer_to_response [simp]:
  "is_response (answer_to i r)" "with_id (answer_to i r) j = answer_to j r" "response_id (answer_to i r) = Some i"
  by (cases r; simp add: answer_to_def is_response_def with_id_def)+



end
