(* ===== verification/Schema.thy ===== *)
theory Schema
  imports Jcs
begin

text \<open>
  The decidable JSON Schema subset: references between component schemas
  (\<^verbatim>\<open>schema/assertSchemaReferences.ts\<close>), matching a value against a schema and deciding whether one
  schema is contained in another (\<^verbatim>\<open>schema/assignability.ts\<close>).  A schema is the JSON value it is on
  the wire; \<^verbatim>\<open>undefined\<close> is read as \<open>JNull\<close>, which every use here treats alike.  Where the code
  reads a field of a value that does not have the type \<^verbatim>\<open>LinkRpcJsonSchema\<close> the model throws.
\<close>

section \<open>Properties of plain objects\<close>

text \<open>The names every plain object inherits.  \<^verbatim>\<open>k in o\<close> and \<^verbatim>\<open>o[k]\<close> see them; an inherited value is a
  function or a prototype, which has none of the fields read here and so reads as an empty object.\<close>

definition object_prototype :: "string list" where
  "object_prototype = [''constructor'', ''__defineGetter__'', ''__defineSetter__'', ''hasOwnProperty'',
     ''__lookupGetter__'', ''__lookupSetter__'', ''isPrototypeOf'', ''propertyIsEnumerable'', ''toString'',
     ''valueOf'', ''__proto__'', ''toLocaleString'']"

definition js_in :: "string \<Rightarrow> (string \<times> json) list \<Rightarrow> bool" where
  "js_in k kvs \<longleftrightarrow> k \<in> set (map fst kvs) \<or> k \<in> set object_prototype"

definition js_index :: "(string \<times> json) list \<Rightarrow> string \<Rightarrow> json option" where
  "js_index kvs k = (case map_of kvs k of
     Some v \<Rightarrow> Some v
   | None \<Rightarrow> if k \<in> set object_prototype then Some (JObj []) else None)"

text \<open>\<^verbatim>\<open>a ?? b\<close>.\<close>

definition nullish :: "json option \<Rightarrow> json \<Rightarrow> json" where
  "nullish a b = (case a of None \<Rightarrow> b | Some JNull \<Rightarrow> b | Some v \<Rightarrow> v)"

definition type_error :: js_error where
  "type_error = JsError ''TypeError''"

definition array_of :: "json option \<Rightarrow> json list res" where
  "array_of v = (case v of Some (JArr xs) \<Rightarrow> Inr xs | _ \<Rightarrow> Inl type_error)"

definition object_of :: "json option \<Rightarrow> (string \<times> json) list res" where
  "object_of v = (case v of Some (JObj kvs) \<Rightarrow> Inr kvs | _ \<Rightarrow> Inl type_error)"

definition string_of :: "json \<Rightarrow> string res" where
  "string_of v = (case v of JStr s \<Rightarrow> Inr s | _ \<Rightarrow> Inl type_error)"

section \<open>JSON.stringify\<close>

definition stringify_part :: "string \<times> string \<Rightarrow> string" where
  "stringify_part p = json_quote (fst p) @ '':'' @ snd p"

primrec json_stringify :: "json \<Rightarrow> string" where
  "json_stringify JNull = ''null''"
| "json_stringify (JBool b) = (if b then ''true'' else ''false'')"
| "json_stringify (JNum n) = (case n of Dec _ _ \<Rightarrow> num_to_string n | _ \<Rightarrow> ''null'')"
| "json_stringify (JStr s) = json_quote s"
| "json_stringify (JArr xs) = ''['' @ js_join '','' (map json_stringify xs) @ '']''"
| "json_stringify (JObj kvs) =
     ''{'' @ js_join '','' (map stringify_part (map (map_prod id json_stringify) kvs)) @ ''}''"

section \<open>Names of component schemas\<close>

definition component_prefix :: string where
  "component_prefix = ''#/components/schemas/''"

text \<open>\<^verbatim>\<open>s.replace(/pq/g, r)\<close> for two characters.\<close>

fun replace_pair :: "char \<Rightarrow> char \<Rightarrow> string \<Rightarrow> string \<Rightarrow> string" where
  "replace_pair p q r (a # b # s) =
     (if a = p \<and> b = q then r @ replace_pair p q r s else a # replace_pair p q r (b # s))"
| "replace_pair p q r s = s"

definition replace_char :: "char \<Rightarrow> string \<Rightarrow> string \<Rightarrow> string" where
  "replace_char p r s = concat (map (\<lambda>c. if c = p then r else [c]) s)"

definition escape_pointer :: "string \<Rightarrow> string" where
  "escape_pointer s = replace_char CHR ''/'' ''~1'' (replace_char CHR ''~'' ''~0'' s)"

definition component_schema_ref :: "string \<Rightarrow> string" where
  "component_schema_ref name = component_prefix @ escape_pointer name"

text \<open>\<^verbatim>\<open>/~(?:[^01]|$)/.test(s)\<close>.\<close>

fun bad_escape :: "string \<Rightarrow> bool" where
  "bad_escape [] = False"
| "bad_escape (c # s) \<longleftrightarrow>
     c = CHR ''~'' \<and> (s = [] \<or> hd s \<noteq> CHR ''0'' \<and> hd s \<noteq> CHR ''1'') \<or> bad_escape s"

definition component_schema_name :: "string \<Rightarrow> string res" where
  "component_schema_name ref =
     (if \<not> starts_with ref component_prefix then Inl (JsError (''Invalid component reference: '' @ ref))
      else let token = drop (length component_prefix) ref in
        if CHR ''/'' \<in> set token \<or> bad_escape token
        then Inl (JsError (''Invalid component reference token: '' @ ref))
        else Inr (replace_pair CHR ''~'' CHR ''0'' ''~'' (replace_pair CHR ''~'' CHR ''1'' ''/'' token)))"

definition json_pointer_segment :: "string \<Rightarrow> string" where
  "json_pointer_segment key = ''/'' @ escape_pointer key"

section \<open>The kinds of schema\<close>

text \<open>\<^verbatim>\<open>k in s\<close> on a schema that is not a boolean.\<close>

definition in_schema :: "string \<Rightarrow> json \<Rightarrow> bool res" where
  "in_schema k s = (case s of
     JBool _ \<Rightarrow> Inr False
   | JObj kvs \<Rightarrow> Inr (k \<in> set (map fst kvs))
   | JArr _ \<Rightarrow> Inr False
   | _ \<Rightarrow> Inl type_error)"

definition is_ref :: "json \<Rightarrow> bool res" where
  "is_ref s = in_schema ''$ref'' s"

definition is_union :: "json \<Rightarrow> bool" where
  "is_union s \<longleftrightarrow> field ''anyOf'' s \<noteq> None \<or> field ''oneOf'' s \<noteq> None"

definition branches :: "json \<Rightarrow> json list res" where
  "branches s = (if field ''anyOf'' s \<noteq> None then array_of (field ''anyOf'' s) else array_of (field ''oneOf'' s))"

definition is_const :: "json \<Rightarrow> bool" where
  "is_const s \<longleftrightarrow> field ''const'' s \<noteq> None"

definition is_enum :: "json \<Rightarrow> bool" where
  "is_enum s \<longleftrightarrow> field ''enum'' s \<noteq> None"

definition ref_of :: "json \<Rightarrow> string res" where
  "ref_of s = (case field ''$ref'' s of Some r \<Rightarrow> string_of r | None \<Rightarrow> Inl type_error)"

text \<open>\<^verbatim>\<open>Components\<close>: \<^verbatim>\<open>schemas\<close> may be absent.\<close>

type_synonym components = "(string \<times> json) list option"

definition resolve_ref :: "components \<Rightarrow> string \<Rightarrow> json option res" where
  "resolve_ref c r =
     (if \<not> starts_with r component_prefix then Inr None
      else res_bind (component_schema_name r) (\<lambda>name.
        Inr (case c of None \<Rightarrow> None | Some schemas \<Rightarrow> js_index schemas name)))"

definition key_of :: "json \<Rightarrow> string res" where
  "key_of s = (case s of
     JBool b \<Rightarrow> Inr (if b then ''true'' else ''false'')
   | _ \<Rightarrow> res_bind (is_ref s) (\<lambda>r.
       if r then res_bind (ref_of s) (\<lambda>t. Inr (''R:'' @ t)) else Inr (json_stringify s)))"

definition type_of :: "json \<Rightarrow> string option" where
  "type_of s = (case field ''type'' s of Some (JStr t) \<Rightarrow> Some t | _ \<Rightarrow> None)"

definition string_list :: "string \<Rightarrow> json \<Rightarrow> string list res" where
  "string_list k s = (case nullish (field k s) (JArr []) of
     JArr xs \<Rightarrow> res_all (map string_of xs) | _ \<Rightarrow> Inl type_error)"

definition properties_of :: "json \<Rightarrow> (string \<times> json) list res" where
  "properties_of s = object_of (Some (nullish (field ''properties'' s) (JObj [])))"

definition prefix_items :: "json \<Rightarrow> json list res" where
  "prefix_items s = array_of (Some (nullish (field ''prefixItems'' s) (JArr [])))"

definition additional_properties :: "json \<Rightarrow> json" where
  "additional_properties s = (case field ''additionalProperties'' s of Some v \<Rightarrow> v | None \<Rightarrow> JNull)"

definition rest_of :: "json \<Rightarrow> json" where
  "rest_of s = (case field ''items'' s of Some v \<Rightarrow> v | None \<Rightarrow> JBool True)"

definition format_compatible :: "json option \<Rightarrow> json option \<Rightarrow> bool" where
  "format_compatible subFmt supFmt \<longleftrightarrow> supFmt = None \<or> subFmt = supFmt"

text \<open>\<^verbatim>\<open>Number.isInteger\<close>.\<close>

definition num_is_integer :: "jsnum \<Rightarrow> bool" where
  "num_is_integer n = (case n of Dec m e \<Rightarrow> 0 \<le> e \<or> 10 ^ nat (- e) dvd m | _ \<Rightarrow> False)"

section \<open>Structural equality of values\<close>

text \<open>\<^verbatim>\<open>Object.entries\<close>; an array has its indices as names.\<close>

definition entries_of :: "json \<Rightarrow> (string \<times> json) list" where
  "entries_of v = (case v of JObj kvs \<Rightarrow> kvs | JArr xs \<Rightarrow> zip (map show_nat [0..<length xs]) xs | _ \<Rightarrow> [])"

definition is_array :: "json \<Rightarrow> bool" where
  "is_array v = (case v of JArr _ \<Rightarrow> True | _ \<Rightarrow> False)"

definition is_object :: "json \<Rightarrow> bool" where
  "is_object v = (case v of JObj _ \<Rightarrow> True | _ \<Rightarrow> False)"

definition items_of :: "json \<Rightarrow> json list" where
  "items_of v = (case v of JArr xs \<Rightarrow> xs | _ \<Rightarrow> [])"

lemma size_items: "x \<in> set (items_of v) \<Longrightarrow> size x < size v"
  by (cases v) (auto simp: items_of_def dest: size_list_estimation' [of _ _ _ size, OF _ order_refl])

lemma size_entries: "p \<in> set (entries_of v) \<Longrightarrow> size (snd p) < size v"
proof (cases v)
  case (JArr xs)
  then show "p \<in> set (entries_of v) \<Longrightarrow> ?thesis"
    using size_items [of "snd p" v] by (cases p) (auto simp: entries_of_def items_of_def dest: set_zip_rightD)
next
  case (JObj kvs)
  assume "p \<in> set (entries_of v)"
  with JObj have "size_prod (\<lambda>x. 0) size p \<le> size_list (size_prod (\<lambda>x. 0) size) kvs"
    by (intro size_list_estimation' [OF _ order_refl]) (simp add: entries_of_def)
  with JObj show ?thesis by (cases p) (simp add: less_Suc_eq_le)
qed (simp_all add: entries_of_def)

function json_eq :: "json \<Rightarrow> json \<Rightarrow> bool" where
  "json_eq a b =
     (case a of
        JNull \<Rightarrow> b = JNull
      | JBool x \<Rightarrow> b = JBool x
      | JNum m \<Rightarrow> (case b of JNum n \<Rightarrow> num_eq m n | _ \<Rightarrow> False)
      | JStr s \<Rightarrow> b = JStr s
      | JArr xs \<Rightarrow> is_array b \<and> length xs = length (items_of b) \<and>
          list_all (\<lambda>(x, y). json_eq x y) (zip (items_of a) (items_of b))
      | JObj kvs \<Rightarrow> (is_object b \<or> is_array b) \<and> length (entries_of a) = length (entries_of b) \<and>
          list_all (\<lambda>(p, q). fst p = fst q \<and> json_eq (snd p) (snd q))
            (zip (sort_key fst (entries_of a)) (sort_key fst (entries_of b))))"
  by pat_completeness auto
termination
  by (relation "measure (\<lambda>(a, b). size a)") (auto dest!: set_zip_leftD size_items size_entries)

declare json_eq.simps [simp del]


section \<open>The schemas inside a schema\<close>

definition child_schemas :: "string \<times> json \<Rightarrow> json list" where
  "child_schemas p =
     (if fst p \<in> {''anyOf'', ''oneOf'', ''prefixItems''} then items_of (snd p)
      else if fst p = ''properties'' then map snd (case snd p of JObj ps \<Rightarrow> ps | _ \<Rightarrow> [])
      else if fst p \<in> {''items'', ''additionalProperties''} then [snd p]
      else [])"

definition children :: "json \<Rightarrow> json list" where
  "children s = (case s of JObj kvs \<Rightarrow> concat (map child_schemas kvs) | _ \<Rightarrow> [])"

lemma size_children: "t \<in> set (children s) \<Longrightarrow> size t < size s"
proof -
  assume t: "t \<in> set (children s)"
  then obtain kvs p where s: "s = JObj kvs" and p: "p \<in> set kvs" "t \<in> set (child_schemas p)"
    by (auto simp: children_def split: json.splits)
  have "size t \<le> size (snd p)"
    using p(2) size_items [of t "snd p"] size_entries [of _ "snd p"]
    by (fastforce simp: child_schemas_def entries_of_def split: if_splits json.splits)
  also have "size (snd p) < size s" using size_entries [of p s] p(1) by (simp add: s entries_of_def)
  finally show ?thesis .
qed

function subschemas :: "json \<Rightarrow> json list" where
  "subschemas s = s # concat (map subschemas (children s))"
  by pat_completeness auto
termination
  by (relation "measure size") (auto dest: size_children)

declare subschemas.simps [simp del]

text \<open>The schemas a comparison of \<open>a\<close> and \<open>b\<close> can come across, and the references in them.\<close>

definition world_roots :: "components \<Rightarrow> json list \<Rightarrow> json set" where
  "world_roots c ss = {JNull, JBool True, JBool False, JObj []} \<union> set ss \<union>
     (case c of None \<Rightarrow> {} | Some kvs \<Rightarrow> snd ` set kvs)"

definition schema_world :: "components \<Rightarrow> json list \<Rightarrow> json set" where
  "schema_world c ss = (\<Union>s\<in>world_roots c ss. set (subschemas s))"

definition world_refs :: "components \<Rightarrow> json list \<Rightarrow> string set" where
  "world_refs c ss = {r. \<exists>s\<in>schema_world c ss. field ''$ref'' s = Some (JStr r)}"

lemma subschemas_self [simp]: "s \<in> set (subschemas s)"
  by (subst subschemas.simps) simp

lemma subschemas_child: "t \<in> set (children s) \<Longrightarrow> set (subschemas t) \<subseteq> set (subschemas s)"
  by (subst (2) subschemas.simps) auto

lemma subschemas_trans: "t \<in> set (subschemas s) \<Longrightarrow> set (subschemas t) \<subseteq> set (subschemas s)"
proof (induction s rule: subschemas.induct)
  case (1 s)
  show ?case
  proof (cases "t = s")
    case False
    then obtain u where "u \<in> set (children s)" "t \<in> set (subschemas u)"
      using "1.prems" by (subst (asm) subschemas.simps) auto
    with "1.IH" [of u] subschemas_child [of u s] show ?thesis by blast
  qed simp
qed

lemma subschemas_atom [simp]:
  "subschemas JNull = [JNull]" "subschemas (JBool b) = [JBool b]" "subschemas (JObj []) = [JObj []]"
  by (simp_all add: subschemas.simps children_def)

lemma finite_world [simp]: "finite (schema_world c ss)"
  by (simp add: schema_world_def world_roots_def split: option.split)

lemma finite_refs [simp]: "finite (world_refs c ss)"
proof -
  have "world_refs c ss \<subseteq> (\<lambda>s. case field ''$ref'' s of Some (JStr r) \<Rightarrow> r | _ \<Rightarrow> []) ` schema_world c ss"
    by (force simp: world_refs_def)
  then show ?thesis by (rule finite_subset) simp
qed

lemma world_closed: "s \<in> schema_world c ss \<Longrightarrow> set (subschemas s) \<subseteq> schema_world c ss"
  using subschemas_trans unfolding schema_world_def by blast

lemma world_root: "s \<in> world_roots c ss \<Longrightarrow> s \<in> schema_world c ss"
  using subschemas_self unfolding schema_world_def by blast

lemma world_self: "s \<in> set ss \<Longrightarrow> s \<in> schema_world c ss"
  by (rule world_root) (simp add: world_roots_def)

lemma world_atoms [simp]:
  "JNull \<in> schema_world c ss" "JBool b \<in> schema_world c ss" "JObj [] \<in> schema_world c ss"
  by (cases b; simp add: world_root world_roots_def)+

lemma world_mono: "set ts \<subseteq> schema_world c ss \<Longrightarrow> schema_world c ts \<subseteq> schema_world c ss"
proof -
  assume "set ts \<subseteq> schema_world c ss"
  then have "world_roots c ts \<subseteq> schema_world c ss"
    using world_root [of _ c ss] by (auto simp: world_roots_def)
  then show ?thesis using world_closed by (subst schema_world_def) blast
qed

lemma world_child: "s \<in> schema_world c ss \<Longrightarrow> t \<in> set (children s) \<Longrightarrow> t \<in> schema_world c ss"
  using world_closed [of s c ss] subschemas_child [of t s] subschemas_self [of t] by blast

lemma world_resolved: "resolve_ref c r = Inr (Some s) \<Longrightarrow> s \<in> schema_world c ss"
  by (rule world_root) (force simp: resolve_ref_def res_bind_Inr_iff world_roots_def js_index_def
      dest: map_of_SomeD split: if_splits option.splits)

lemma refs_mono: "set ts \<subseteq> schema_world c ss \<Longrightarrow> world_refs c ts \<subseteq> world_refs c ss"
  using world_mono [of ts c ss] unfolding world_refs_def by blast

lemma field_child: "field k s = Some v \<Longrightarrow> t \<in> set (child_schemas (k, v)) \<Longrightarrow> t \<in> set (children s)"
  by (auto simp: field_def children_def dest: map_of_SomeD split: json.splits)

lemma fields_children:
  "branches s = Inr bs \<Longrightarrow> b \<in> set bs \<Longrightarrow> b \<in> set (children s)"
  "prefix_items s = Inr ps \<Longrightarrow> p \<in> set ps \<Longrightarrow> p \<in> set (children s)"
  "properties_of s = Inr kvs \<Longrightarrow> q \<in> set kvs \<Longrightarrow> snd q \<in> set (children s)"
  "rest_of s = JBool True \<or> rest_of s \<in> set (children s)"
  "additional_properties s = JNull \<or> additional_properties s \<in> set (children s)"
proof -
  note child = field_child [of _ s]
  show "branches s = Inr bs \<Longrightarrow> b \<in> set bs \<Longrightarrow> b \<in> set (children s)"
    using child [of "''anyOf''" "JArr bs" b] child [of "''oneOf''" "JArr bs" b]
    by (auto simp: branches_def array_of_def child_schemas_def items_of_def split: if_splits option.splits json.splits)
  show "prefix_items s = Inr ps \<Longrightarrow> p \<in> set ps \<Longrightarrow> p \<in> set (children s)"
    using child [of "''prefixItems''" "JArr ps" p]
    by (auto simp: prefix_items_def nullish_def array_of_def child_schemas_def items_of_def
        split: option.splits json.splits)
  show "properties_of s = Inr kvs \<Longrightarrow> q \<in> set kvs \<Longrightarrow> snd q \<in> set (children s)"
    using child [of "''properties''" "JObj kvs" "snd q"]
    by (auto simp: properties_of_def nullish_def object_of_def child_schemas_def split: option.splits json.splits)
  show "rest_of s = JBool True \<or> rest_of s \<in> set (children s)"
    using child [of "''items''"] by (auto simp: rest_of_def child_schemas_def split: option.split)
  show "additional_properties s = JNull \<or> additional_properties s \<in> set (children s)"
    using child [of "''additionalProperties''"]
    by (auto simp: additional_properties_def child_schemas_def split: option.split)
qed


section \<open>Matching a value\<close>

lemma res_bind_cong [fundef_cong]:
  "r = r' \<Longrightarrow> (\<And>x. r' = Inr x \<Longrightarrow> f x = g x) \<Longrightarrow> res_bind r f = res_bind r' g"
  by (cases r') (auto simp: res_bind_def)

lemma res_every_cong [fundef_cong]:
  "xs = ys \<Longrightarrow> (\<And>x. x \<in> set ys \<Longrightarrow> f x = g x) \<Longrightarrow> res_every f xs = res_every g ys"
  by (induction ys arbitrary: xs) (auto intro: res_bind_cong)

lemma res_some_cong [fundef_cong]:
  "xs = ys \<Longrightarrow> (\<And>x. x \<in> set ys \<Longrightarrow> f x = g x) \<Longrightarrow> res_some f xs = res_some g ys"
  by (induction ys arbitrary: xs) (auto intro: res_bind_cong)

text \<open>A path and a message; the result of a match with the issues it reports.\<close>

type_synonym issue = "string \<times> string"
type_synonym match_result = "(bool \<times> issue list) res"

definition mismatch :: "string \<Rightarrow> string \<Rightarrow> match_result" where
  "mismatch path message = Inr (False, [(path, message)])"

definition or_mismatch :: "bool \<Rightarrow> string \<Rightarrow> string \<Rightarrow> match_result" where
  "or_mismatch ok path message = (if ok then Inr (True, []) else mismatch path message)"

text \<open>\<^verbatim>\<open>some\<close> over the branches, collecting the issues of those that fail.\<close>

fun some_branch :: "('a \<Rightarrow> match_result) \<Rightarrow> 'a list \<Rightarrow> match_result" where
  "some_branch f [] = Inr (False, [])"
| "some_branch f (x # xs) = res_bind (f x) (\<lambda>(ok, issues).
     if ok then Inr (True, issues)
     else res_bind (some_branch f xs) (\<lambda>(ok', issues'). Inr (ok', issues @ issues')))"

text \<open>The loop over the items of a value: all are visited.\<close>

fun each_value :: "('a \<Rightarrow> match_result) \<Rightarrow> 'a list \<Rightarrow> match_result" where
  "each_value f [] = Inr (True, [])"
| "each_value f (x # xs) = res_bind (f x) (\<lambda>(ok, issues).
     res_bind (each_value f xs) (\<lambda>(ok', issues'). Inr (ok \<and> ok', issues @ issues')))"

lemma some_branch_cong [fundef_cong]:
  "xs = ys \<Longrightarrow> (\<And>x. x \<in> set ys \<Longrightarrow> f x = g x) \<Longrightarrow> some_branch f xs = some_branch g ys"
  by (induction ys arbitrary: xs) (auto intro!: res_bind_cong)

lemma each_value_cong [fundef_cong]:
  "xs = ys \<Longrightarrow> (\<And>x. x \<in> set ys \<Longrightarrow> f x = g x) \<Longrightarrow> each_value f xs = each_value g ys"
  by (induction ys arbitrary: xs) (auto intro!: res_bind_cong)

definition js_nth :: "'a list \<Rightarrow> nat \<Rightarrow> 'a option" where
  "js_nth xs i = (if i < length xs then Some (xs ! i) else None)"

definition matches_array :: "(json \<Rightarrow> json \<Rightarrow> string \<Rightarrow> match_result) \<Rightarrow> json list \<Rightarrow> json \<Rightarrow> string \<Rightarrow> match_result" where
  "matches_array matches v super path = res_bind (prefix_items super) (\<lambda>prefix.
     let rest = rest_of super in
     if length v < length prefix \<or> rest = JBool False \<and> length prefix < length v
     then mismatch path
       (if rest = JBool False then ''Expected '' @ show_nat (length prefix) @ '' items''
        else ''Expected at least '' @ show_nat (length prefix) @ '' items'')
     else each_value (\<lambda>(i, x). matches x (nullish (js_nth prefix i) rest) (path @ ''/'' @ show_nat i))
       (zip [0..<length v] v))"

definition matches_object ::
  "(json \<Rightarrow> json \<Rightarrow> string \<Rightarrow> match_result) \<Rightarrow> (string \<times> json) list \<Rightarrow> json \<Rightarrow> string \<Rightarrow> match_result" where
  "matches_object matches v super path = res_bind (string_list ''required'' super) (\<lambda>required.
     let missing = map (\<lambda>k. (path @ json_pointer_segment k, ''Required property is missing''))
       (filter (\<lambda>k. k \<notin> set (map fst v)) required) in
     res_bind (properties_of super) (\<lambda>props.
     res_bind (each_value (\<lambda>(k, x).
         matches x (case map_of props k of Some s \<Rightarrow> s | None \<Rightarrow> additional_properties super)
           (path @ json_pointer_segment k)) v) (\<lambda>(ok, issues).
     Inr (missing = [] \<and> ok, missing @ issues))))"

lemma matches_array_cong [fundef_cong]:
  assumes "v = v'" "super = super'" "path = path'" "\<And>x s p. x \<in> set v' \<Longrightarrow> f x s p = g x s p"
  shows "matches_array f v super path = matches_array g v' super' path'"
  using assms unfolding matches_array_def
  by (intro res_bind_cong) (auto intro!: each_value_cong simp: Let_def dest!: set_zip_rightD)

lemma matches_object_cong [fundef_cong]:
  assumes "v = v'" "super = super'" "path = path'" "\<And>p s q. p \<in> set v' \<Longrightarrow> f (snd p) s q = g (snd p) s q"
  shows "matches_object f v super path = matches_object g v' super' path'"
  using assms unfolding matches_object_def
  by (auto intro!: res_bind_cong each_value_cong simp: Let_def)

lemma is_ref_field: "is_ref s = Inr True \<Longrightarrow> field ''$ref'' s \<noteq> None"
  by (cases s) (auto simp: is_ref_def in_schema_def map_of_eq_None_iff image_iff)

lemma ref_world: "ref_of s = Inr r \<Longrightarrow> r \<in> world_refs c (s # ss)"
  using world_self [of s "s # ss" c]
  by (auto simp: ref_of_def string_of_def world_refs_def split: option.splits json.splits)

lemma refs_after_ref:
  assumes "r \<in> world_refs c ss" "r \<notin> set seen" "set ts \<subseteq> schema_world c ss"
  shows "card (world_refs c ts - set (js_add seen r)) < card (world_refs c ss - set seen)"
  using assms refs_mono [OF assms(3)] by (intro psubset_card_mono) auto

lemma refs_shrink: "set ts \<subseteq> schema_world c ss \<Longrightarrow> card (world_refs c ts - X) \<le> card (world_refs c ss - X)"
  using refs_mono [of ts c ss] by (intro card_mono) auto

function matches :: "components \<Rightarrow> json \<Rightarrow> json \<Rightarrow> string list \<Rightarrow> string \<Rightarrow> match_result" where
  "matches c v super seen path =
     (if super = JBool True then Inr (True, [])
      else if super = JBool False then mismatch path ''No value is allowed''
      else res_bind (is_ref super) (\<lambda>isRef.
        if isRef then res_bind (ref_of super) (\<lambda>ref.
          if ref \<in> set seen then mismatch path (''Unguarded recursive reference '' @ ref)
          else res_bind (resolve_ref c ref) (\<lambda>r. case r of
            None \<Rightarrow> mismatch path (''Unresolved reference '' @ ref)
          | Some s \<Rightarrow> matches c v s (js_add seen ref) path))
        else if is_union super then res_bind (branches super) (\<lambda>bs.
          res_bind (some_branch (\<lambda>branch. matches c v branch seen path) bs) (\<lambda>(ok, failures).
            if ok then Inr (True, [])
            else if failures \<noteq> [] then Inr (False, failures)
            else mismatch path ''No union branch accepts this value''))
        else if is_const super then
          or_mismatch (json_eq v (the (field ''const'' super))) path
            (''Expected '' @ json_stringify (the (field ''const'' super)))
        else if is_enum super then res_bind (array_of (field ''enum'' super)) (\<lambda>es.
          or_mismatch (list_ex (\<lambda>e. json_eq v e) es) path (''Expected one of '' @ json_stringify (JArr es)))
        else let t = type_of super in
          if t = Some ''null'' then or_mismatch (v = JNull) path ''Expected null''
          else if t = Some ''boolean'' then
            or_mismatch (case v of JBool _ \<Rightarrow> True | _ \<Rightarrow> False) path ''Expected boolean''
          else if t = Some ''number'' then
            or_mismatch (case v of JNum _ \<Rightarrow> True | _ \<Rightarrow> False) path ''Expected number''
          else if t = Some ''integer'' then
            or_mismatch (case v of JNum n \<Rightarrow> num_is_integer n | _ \<Rightarrow> False) path ''Expected integer''
          else if t = Some ''string'' then
            or_mismatch (case v of JStr _ \<Rightarrow> True | _ \<Rightarrow> False) path ''Expected string''
          else if t = Some ''array'' then
            (if is_array v then matches_array (\<lambda>x s p. matches c x s [] p) (items_of v) super path
             else mismatch path ''Expected array'')
          else if t = Some ''object'' then
            (if is_object v then matches_object (\<lambda>x s p. matches c x s [] p) (entries_of v) super path
             else mismatch path ''Expected object'')
          else or_mismatch (list_all (\<lambda>(k, _). k = ''title'' \<or> k = ''description'' \<or> starts_with k ''x-'') (entries_of super))
            path ''Unsupported schema shape''))"
  by pat_completeness auto
termination
proof (relation "(\<lambda>(c, v, super, seen, path). size v) <*mlex*>
    (\<lambda>(c, v, super, seen, path). card (world_refs c [super] - set seen)) <*mlex*>
    measure (\<lambda>(c, v, super, seen, path). size super)", goal_cases)
  case 1
  show ?case by (intro wf_mlex wf_measure)
next
  case (2 c v super seen path isRef ref r s)
  then show ?case
    using refs_after_ref [of ref c "[super]" seen "[s]"] ref_world [of super ref c "[]"] world_resolved
    by (simp add: mlex_prod_def)
next
  case (3 c v super seen path isRef bs b)
  then have "b \<in> set (children super)" by (rule_tac fields_children)
  then have "card (world_refs c [b] - set seen) \<le> card (world_refs c [super] - set seen)" "size b < size super"
    using world_child [of super c "[super]" b] world_self [of super "[super]" c] by (auto intro!: refs_shrink size_children)
  then show ?case by (auto simp: mlex_prod_def)
qed (auto simp: mlex_prod_def dest: size_items size_entries)

declare matches.simps [simp del]

definition matches_json_schema :: "components \<Rightarrow> json \<Rightarrow> json \<Rightarrow> bool res" where
  "matches_json_schema c value schema = res_bind (matches c value schema [] []) (\<lambda>(ok, _). Inr ok)"

definition validate_json_schema :: "components \<Rightarrow> json \<Rightarrow> json \<Rightarrow> issue list res" where
  "validate_json_schema c value schema = res_bind (matches c value schema [] []) (\<lambda>(_, issues). Inr issues)"


section \<open>Assignability\<close>

definition truthy_schema :: "json option \<Rightarrow> json option" where
  "truthy_schema r = (case r of Some s \<Rightarrow> if js_truthy s then Some s else None | None \<Rightarrow> None)"

lemma truthy_schema_Some: "truthy_schema r = Some s \<longleftrightarrow> r = Some s \<and> js_truthy s"
  by (auto simp: truthy_schema_def split: option.splits if_splits)

function is_bottom :: "components \<Rightarrow> json \<Rightarrow> string list \<Rightarrow> bool res" where
  "is_bottom c s seen =
     (if s = JBool False then Inr True
      else if s = JBool True then Inr False
      else res_bind (is_ref s) (\<lambda>isRef.
        if isRef then res_bind (ref_of s) (\<lambda>ref.
          let k = ''B:'' @ ref in
          if k \<in> set seen then Inr False
          else res_bind (resolve_ref c ref) (\<lambda>r. case truthy_schema r of
            Some t \<Rightarrow> is_bottom c t (js_add seen k)
          | None \<Rightarrow> Inr False))
        else if is_union s then res_bind (branches s) (\<lambda>bs. res_every (\<lambda>b. is_bottom c b seen) bs)
        else Inr False))"
  by pat_completeness auto
termination
proof (relation "(\<lambda>(c, s, seen). card ((\<lambda>r. ''B:'' @ r) ` world_refs c [s] - set seen)) <*mlex*>
    measure (\<lambda>(c, s, seen). size s)", goal_cases)
  case 1
  show ?case by (intro wf_mlex wf_measure)
next
  case (2 c s seen isRef ref k r t)
  have "t \<in> schema_world c [s]" using 2 world_resolved by (simp add: truthy_schema_Some)
  then have "world_refs c [t] \<subseteq> world_refs c [s]" by (intro refs_mono) simp
  moreover have "ref \<in> world_refs c [s]" using ref_world [of s ref c "[]"] 2 by simp
  ultimately have "card ((\<lambda>r. ''B:'' @ r) ` world_refs c [t] - set (js_add seen k)) <
      card ((\<lambda>r. ''B:'' @ r) ` world_refs c [s] - set seen)"
    using 2 by (intro psubset_card_mono) auto
  then show ?case by (simp add: mlex_prod_def)
next
  case (3 c s seen isRef bs b)
  then have b: "b \<in> set (children s)" by (rule_tac fields_children)
  then have "world_refs c [b] \<subseteq> world_refs c [s]"
    using world_child [of s c "[s]" b] world_self [of s "[s]" c] by (intro refs_mono) simp
  then have "card ((\<lambda>r. ''B:'' @ r) ` world_refs c [b] - set seen) \<le>
      card ((\<lambda>r. ''B:'' @ r) ` world_refs c [s] - set seen)"
    by (intro card_mono) auto
  then show ?case using size_children [OF b] by (auto simp: mlex_prod_def)
qed

declare is_bottom.simps [simp del]

text \<open>The schemas the comparison of two objects or arrays goes on to.\<close>

definition parts :: "json \<Rightarrow> json set" where
  "parts s = set (children s) \<union> {JNull, JBool True, JObj []}"

definition check_object :: "(json \<Rightarrow> json \<Rightarrow> bool res) \<Rightarrow> json \<Rightarrow> json \<Rightarrow> bool res" where
  "check_object check sub super =
     res_bind (string_list ''required'' sub) (\<lambda>subReq.
     res_bind (string_list ''required'' super) (\<lambda>supReq.
     if \<not> list_all (\<lambda>k. k \<in> set subReq) supReq then Inr False
     else res_bind (properties_of sub) (\<lambda>subProps.
     res_bind (properties_of super) (\<lambda>supProps.
     res_bind (res_every (\<lambda>(k, supProp).
         let subProp = nullish (js_index subProps k) (additional_properties sub) in
         if subProp = JBool False then Inr (k \<notin> set supReq) else check subProp supProp) supProps) (\<lambda>ok.
     if \<not> ok then Inr False
     else res_bind (res_every (\<lambda>(k, subProp).
         if js_in k supProps then Inr True
         else if additional_properties super = JBool False then Inr False
         else check subProp (additional_properties super)) subProps) (\<lambda>ok.
     if \<not> ok then Inr False
     else if additional_properties sub = JBool False then Inr True
     else if additional_properties super = JBool False then Inr False
     else check (additional_properties sub) (additional_properties super)))))))"

definition check_array_like :: "(json \<Rightarrow> json \<Rightarrow> bool res) \<Rightarrow> json \<Rightarrow> json \<Rightarrow> bool res" where
  "check_array_like check sub super =
     res_bind (prefix_items sub) (\<lambda>subPrefix.
     res_bind (prefix_items super) (\<lambda>supPrefix.
     let subRest = rest_of sub; supRest = rest_of super in
     res_bind (res_every (\<lambda>i.
         let a = nullish (js_nth subPrefix i) subRest; b = nullish (js_nth supPrefix i) supRest in
         if a = JBool False then Inr (b = JBool False \<or> b = JBool True)
         else if b = JBool False then Inr False
         else check a b) [0..<max (length subPrefix) (length supPrefix)]) (\<lambda>ok.
     if \<not> ok then Inr False
     else if subRest = JBool False then Inr True
     else if supRest = JBool False then Inr False
     else check subRest supRest)))"

lemma additional_part: "additional_properties s \<in> parts s"
  using fields_children(5) [of s] by (auto simp: parts_def)

lemma rest_part: "rest_of s \<in> parts s"
  using fields_children(4) [of s] by (auto simp: parts_def)

lemma property_part: "properties_of s = Inr kvs \<Longrightarrow> q \<in> set kvs \<Longrightarrow> snd q \<in> parts s"
  using fields_children(3) [of s kvs q] by (simp add: parts_def)

lemma nullish_part: "(\<And>v. a = Some v \<Longrightarrow> v \<in> parts s) \<Longrightarrow> b \<in> parts s \<Longrightarrow> nullish a b \<in> parts s"
  by (auto simp: nullish_def split: option.split json.split)

lemma index_part:
  "properties_of s = Inr kvs \<Longrightarrow> nullish (js_index kvs k) (additional_properties s) \<in> parts s"
  using property_part [of s kvs]
  by (intro nullish_part additional_part)
    (force simp: js_index_def parts_def dest: map_of_SomeD split: option.splits if_splits)

lemma item_part: "prefix_items s = Inr ps \<Longrightarrow> rest_of s = r \<Longrightarrow> nullish (js_nth ps i) r \<in> parts s"
  using fields_children(2) [of s ps] rest_part [of s]
  by (intro nullish_part) (auto simp: js_nth_def parts_def split: if_splits)

lemma check_object_cong [fundef_cong]:
  assumes "sub = sub'" "super = super'" "\<And>a b. a \<in> parts sub' \<Longrightarrow> b \<in> parts super' \<Longrightarrow> f a b = g a b"
  shows "check_object f sub super = check_object g sub' super'"
  using assms(3) unfolding check_object_def assms(1,2)
  by (intro res_bind_cong if_cong res_every_cong refl)
    (auto simp: Let_def intro!: assms(3) additional_part index_part dest: property_part)

lemma check_array_like_cong [fundef_cong]:
  assumes "sub = sub'" "super = super'" "\<And>a b. a \<in> parts sub' \<Longrightarrow> b \<in> parts super' \<Longrightarrow> f a b = g a b"
  shows "check_array_like f sub super = check_array_like g sub' super'"
  using assms(3) unfolding check_array_like_def assms(1,2)
  by (intro res_bind_cong if_cong res_every_cong refl)
    (auto simp: Let_def intro!: res_bind_cong res_every_cong assms(3) rest_part item_part)


text \<open>The keys a comparison can remember.\<close>

definition check_keys :: "components \<Rightarrow> json list \<Rightarrow> string set" where
  "check_keys c ss = (\<lambda>(r, s). ''S:'' @ r @ ''|'' @ (case key_of s of Inr k \<Rightarrow> k | Inl _ \<Rightarrow> [])) `
       (world_refs c ss \<times> schema_world c ss) \<union>
     (\<lambda>(r, s). (case key_of s of Inr k \<Rightarrow> k | Inl _ \<Rightarrow> []) @ ''|T:'' @ r) ` (world_refs c ss \<times> schema_world c ss)"

lemma finite_check_keys [simp]: "finite (check_keys c ss)"
  by (simp add: check_keys_def)

lemma check_keys_mono: "set ts \<subseteq> schema_world c ss \<Longrightarrow> check_keys c ts \<subseteq> check_keys c ss"
proof -
  assume "set ts \<subseteq> schema_world c ss"
  then have "world_refs c ts \<times> schema_world c ts \<subseteq> world_refs c ss \<times> schema_world c ss"
    using refs_mono [of ts c ss] world_mono [of ts c ss] by blast
  then show ?thesis unfolding check_keys_def by (intro Un_mono image_mono)
qed

lemma check_keys_shrink:
  "set ts \<subseteq> schema_world c ss \<Longrightarrow> card (check_keys c ts - X) \<le> card (check_keys c ss - X)"
  using check_keys_mono [of ts c ss] by (intro card_mono) auto

lemma check_keys_less:
  "k \<in> check_keys c ss \<Longrightarrow> k \<notin> set seen \<Longrightarrow> set ts \<subseteq> schema_world c ss \<Longrightarrow>
    card (check_keys c ts - set (js_add seen k)) < card (check_keys c ss - set seen)"
  using check_keys_mono [of ts c ss] by (intro psubset_card_mono) auto

lemma check_keys_I:
  assumes "ref_of s = Inr r" "s \<in> schema_world c ss" "t \<in> schema_world c ss" "key_of t = Inr k"
  shows "CHR ''S'' # CHR '':'' # r @ CHR ''|'' # k \<in> check_keys c ss" "k @ CHR ''|'' # CHR ''T'' # CHR '':'' # r \<in> check_keys c ss"
proof -
  have "field ''$ref'' s = Some (JStr r)"
    using assms(1) by (auto simp: ref_of_def string_of_def split: option.splits json.splits)
  with assms(2) have "r \<in> world_refs c ss" by (auto simp: world_refs_def)
  with assms(3,4) show "CHR ''S'' # CHR '':'' # r @ CHR ''|'' # k \<in> check_keys c ss" "k @ CHR ''|'' # CHR ''T'' # CHR '':'' # r \<in> check_keys c ss"
    by (force simp: check_keys_def)+
qed

lemma parts_world: "s \<in> schema_world c ss \<Longrightarrow> t \<in> parts s \<Longrightarrow> t \<in> schema_world c ss"
  using world_child [of s c ss t] by (auto simp: parts_def)

lemma size_parts: "t \<in> parts s \<Longrightarrow> field k s \<noteq> None \<Longrightarrow> size t < size s"
proof -
  assume "field k s \<noteq> None" "t \<in> parts s"
  moreover from this obtain p kvs where "s = JObj (p # kvs)"
    by (cases s) (auto simp: field_def neq_Nil_conv dest!: map_of_SomeD elim: list.set_cases)
  ultimately show ?thesis using size_children [of t s] by (cases p) (auto simp: parts_def)
qed

definition check_order :: "((components \<times> json \<times> json \<times> string list) \<times> components \<times> json \<times> json \<times> string list) set" where
  "check_order = (\<lambda>(c, sub, super, seen). card (check_keys c [sub, super] - set seen)) <*mlex*>
     measure (\<lambda>(c, sub, super, seen). size sub + size super)"

lemma world_pair [simp]: "a \<in> schema_world c [a, b]" "b \<in> schema_world c [a, b]"
  by (simp_all add: world_self)

lemma check_ref_less:
  "k \<in> check_keys c [sub, super] \<Longrightarrow> k \<notin> set seen \<Longrightarrow> a \<in> schema_world c [sub, super] \<Longrightarrow>
    b \<in> schema_world c [sub, super] \<Longrightarrow> ((c, a, b, js_add seen k), c, sub, super, seen) \<in> check_order"
  using check_keys_less [of k c "[sub, super]" seen "[a, b]"] by (simp add: check_order_def mlex_prod_def)

lemma check_part_less:
  "a \<in> schema_world c [sub, super] \<Longrightarrow> b \<in> schema_world c [sub, super] \<Longrightarrow>
    size a + size b < size sub + size super \<Longrightarrow> ((c, a, b, seen), c, sub, super, seen) \<in> check_order"
  using check_keys_shrink [of "[a, b]" c "[sub, super]" "set seen"] by (auto simp: check_order_def mlex_prod_def)

lemma check_parts_less:
  assumes "a \<in> parts sub" "b \<in> parts super" "field k sub = Some v" "field k super = Some v"
  shows "((c, a, b, seen), c, sub, super, seen) \<in> check_order"
proof (rule check_part_less)
  show "a \<in> schema_world c [sub, super]" "b \<in> schema_world c [sub, super]"
    using parts_world [OF _ assms(1)] parts_world [OF _ assms(2)] by simp_all
  show "size a + size b < size sub + size super"
    using size_parts [OF assms(1), of k] size_parts [OF assms(2), of k] assms(3,4) by simp
qed

function check :: "components \<Rightarrow> json \<Rightarrow> json \<Rightarrow> string list \<Rightarrow> bool res" where
  "check c sub super seen =
     (if super = JBool True then Inr True
      else if sub = JBool False then Inr True
      else if super = JBool False then is_bottom c sub seen
      else if sub = JBool True then Inr False
      else res_bind (is_ref sub) (\<lambda>subRef.
        if subRef then res_bind (ref_of sub) (\<lambda>ref. res_bind (key_of super) (\<lambda>key.
          let k = ''S:'' @ ref @ ''|'' @ key in
          if k \<in> set seen then Inr True
          else res_bind (resolve_ref c ref) (\<lambda>r. case truthy_schema r of
            None \<Rightarrow> Inr False
          | Some resolved \<Rightarrow> check c resolved super (js_add seen k))))
        else res_bind (is_ref super) (\<lambda>superRef.
        if superRef then res_bind (key_of sub) (\<lambda>key. res_bind (ref_of super) (\<lambda>ref.
          let k = key @ ''|T:'' @ ref in
          if k \<in> set seen then Inr True
          else res_bind (resolve_ref c ref) (\<lambda>r. case truthy_schema r of
            None \<Rightarrow> Inr False
          | Some resolved \<Rightarrow> check c sub resolved (js_add seen k))))
        else if is_union sub then
          res_bind (branches sub) (\<lambda>bs. res_every (\<lambda>branch. check c branch super seen) bs)
        else if is_union super then
          res_bind (branches super) (\<lambda>bs. res_some (\<lambda>branch. check c sub branch seen) bs)
        else if is_const sub then res_bind (matches c (the (field ''const'' sub)) super seen []) (\<lambda>(ok, _). Inr ok)
        else if is_enum sub then res_bind (array_of (field ''enum'' sub)) (\<lambda>es.
          res_every (\<lambda>v. res_bind (matches c v super seen []) (\<lambda>(ok, _). Inr ok)) es)
        else if is_const super then
          Inr (is_const sub \<and> json_eq (the (field ''const'' sub)) (the (field ''const'' super)))
        else if is_enum super then res_bind (array_of (field ''enum'' super)) (\<lambda>es.
          Inr (is_const sub \<and> list_ex (\<lambda>v. json_eq (the (field ''const'' sub)) v) es))
        else let subType = field ''type'' sub; superType = field ''type'' super in
          if subType \<noteq> superType then
            Inr (subType = Some (JStr ''integer'') \<and> superType = Some (JStr ''number''))
          else if subType = Some (JStr ''null'') \<or> subType = Some (JStr ''boolean'') then Inr True
          else if subType \<in> {Some (JStr ''number''), Some (JStr ''integer''), Some (JStr ''string'')} then
            Inr (format_compatible (field ''format'' sub) (field ''format'' super))
          else if subType = Some (JStr ''array'') then check_array_like (\<lambda>a b. check c a b seen) sub super
          else if subType = Some (JStr ''object'') then check_object (\<lambda>a b. check c a b seen) sub super
          else Inr False)))"
  by pat_completeness auto
termination
proof (relation check_order, goal_cases)
  case 1
  show ?case unfolding check_order_def by (intro wf_mlex wf_measure)
next
  case (2 c sub super seen)
  then show ?case
    using world_resolved
    by (intro check_ref_less) (auto simp: truthy_schema_Some intro!: check_keys_I(1) [where s = sub and t = super])
next
  case (3 c sub super seen)
  then show ?case
    using world_resolved
    by (intro check_ref_less) (auto simp: truthy_schema_Some intro!: check_keys_I(2) [where s = super and t = sub])
next
  case (4 c sub super seen x xa xb xc)
  then have "xc \<in> set (children sub)" by (rule_tac fields_children)
  then show ?case using size_children [of xc sub] world_child [of sub c "[sub, super]" xc] by (intro check_part_less) auto
next
  case (5 c sub super seen x xa xb xc)
  then have "xc \<in> set (children super)" by (rule_tac fields_children)
  then show ?case using size_children [of xc super] world_child [of super c "[sub, super]" xc] by (intro check_part_less) auto
next
  case (6 c sub super seen x xa xb xc a b)
  then show ?case by (intro check_parts_less [where k = "''type''" and v = "JStr ''array''"]) auto
next
  case (7 c sub super seen x xa xb xc a b)
  then show ?case by (intro check_parts_less [where k = "''type''" and v = "JStr ''object''"]) auto
qed

declare check.simps [simp del]

definition is_assignable :: "json \<Rightarrow> json \<Rightarrow> components \<Rightarrow> bool res" where
  "is_assignable sub super c = check c sub super []"

end
