(* ===== verification/SchemaRefs.thy ===== *)
theory SchemaRefs
  imports Schema
begin

text \<open>
  The check of the references of a set of schemas, \<^verbatim>\<open>schema/assertSchemaReferences.ts\<close>: every
  reference names a component, and no cycle of references and unions alone.  Nodes are compared by
  their contents, where the code compares objects; equal nodes have equal edges.  When the check
  succeeds, \<open>guarded_in\<close> bounds the chains of references and unions out of every schema that can be
  reached.
\<close>

section \<open>Collecting the nodes\<close>

definition ref_edges :: "(string \<times> json) list \<Rightarrow> json \<Rightarrow> json list res" where
  "ref_edges components node = res_bind (is_ref node) (\<lambda>isRef.
     if isRef then res_bind (ref_of node) (\<lambda>ref. res_bind (component_schema_name ref) (\<lambda>name.
       case map_of components name of
         None \<Rightarrow> Inl (JsError (''Unresolved component reference: '' @ ref))
       | Some s \<Rightarrow> Inr [s]))
     else Inr [])"

definition optional_items :: "string \<Rightarrow> json \<Rightarrow> json list res" where
  "optional_items k node = (if field k node = None then Inr [] else array_of (field k node))"

definition node_edges :: "(string \<times> json) list \<Rightarrow> json \<Rightarrow> json list res" where
  "node_edges components node = res_bind (ref_edges components node) (\<lambda>refs.
     res_bind (optional_items ''anyOf'' node) (\<lambda>anyOf. res_bind (optional_items ''oneOf'' node) (\<lambda>oneOf.
     Inr (refs @ anyOf @ oneOf))))"

definition node_items :: "json \<Rightarrow> json list res" where
  "node_items node =
     (if field ''type'' node = Some (JStr ''object'') then
        res_bind (properties_of node) (\<lambda>props. Inr (map snd props @ [additional_properties node]))
      else if field ''type'' node = Some (JStr ''array'') then
        res_bind (optional_items ''prefixItems'' node) (\<lambda>prefix.
        Inr (prefix @ (case field ''items'' node of None \<Rightarrow> [] | Some s \<Rightarrow> [s])))
      else Inr [])"

definition is_bool :: "json \<Rightarrow> bool" where
  "is_bool s = (case s of JBool _ \<Rightarrow> True | _ \<Rightarrow> False)"

lemma optional_items_child:
  "optional_items k node = Inr xs \<Longrightarrow> t \<in> set xs \<Longrightarrow> k \<in> {''anyOf'', ''oneOf'', ''prefixItems''} \<Longrightarrow>
    t \<in> set (children node)"
  using field_child [of k node]
  by (auto simp: optional_items_def array_of_def child_schemas_def items_of_def split: if_splits option.splits json.splits)

lemma node_edges_world:
  assumes "node_edges components node = Inr es" "node \<in> schema_world (Some components) ss" "t \<in> set es"
  shows "t \<in> schema_world (Some components) ss"
proof -
  obtain rs xs ys where es: "ref_edges components node = Inr rs" "optional_items ''anyOf'' node = Inr xs"
      "optional_items ''oneOf'' node = Inr ys" "t \<in> set rs \<union> set xs \<union> set ys"
    using assms(1,3) by (auto simp: node_edges_def res_bind_Inr_iff)
  have "t \<in> snd ` set components" if "t \<in> set rs"
    using that es(1) by (force simp: ref_edges_def res_bind_Inr_iff image_iff dest: map_of_SomeD split: if_splits option.splits)
  moreover have "t \<in> set (children node)" if "t \<in> set xs \<union> set ys"
    using that optional_items_child [OF es(2), of t] optional_items_child [OF es(3), of t] by auto
  ultimately show ?thesis
    using es(4) world_child [OF assms(2)] world_root [of t "Some components" ss] by (auto simp: world_roots_def)
qed

lemma node_items_world:
  assumes "node_items node = Inr es" "node \<in> schema_world c ss" "t \<in> set es"
  shows "t \<in> schema_world c ss"
proof (cases "field ''type'' node = Some (JStr ''object'')")
  case True
  then have "t \<in> parts node"
    using assms(1,3) property_part [of node] additional_part [of node]
    by (auto simp: node_items_def res_bind_Inr_iff)
  then show ?thesis using parts_world [OF assms(2)] by simp
next
  case False
  then have "t \<in> set (children node)"
    using assms(1,3) optional_items_child [of "''prefixItems''" node] field_child [of "''items''" node t t]
    by (auto simp: node_items_def res_bind_Inr_iff child_schemas_def split: if_splits option.splits)
  then show ?thesis using world_child [OF assms(2)] by simp
qed

function collect :: "(string \<times> json) list \<Rightarrow> json list \<Rightarrow> json list \<Rightarrow> (json \<times> json list) list \<Rightarrow>
    (json list \<times> (json \<times> json list) list) res" where
  "collect components pending nodes unguarded = (case pending of
     [] \<Rightarrow> Inr (nodes, unguarded)
   | node # rest \<Rightarrow>
       if is_bool node \<or> node \<in> set nodes then collect components rest nodes unguarded
       else res_bind (node_edges components node) (\<lambda>edges. res_bind (node_items node) (\<lambda>items.
         collect components (rev items @ rev edges @ rest) (js_add nodes node) (jm_set unguarded node edges))))"
  by pat_completeness auto
termination
proof (relation "(\<lambda>(components, pending, nodes, unguarded).
      card (schema_world (Some components) pending - set nodes)) <*mlex*>
    measure (\<lambda>(components, pending, nodes, unguarded). length pending)", goal_cases)
  case 1
  show ?case by (intro wf_mlex wf_measure)
next
  case (2 components pending nodes unguarded node rest)
  have "schema_world (Some components) rest \<subseteq> schema_world (Some components) (node # rest)"
    by (intro world_mono) (auto intro: world_self)
  then have "card (schema_world (Some components) rest - set nodes) \<le>
      card (schema_world (Some components) (node # rest) - set nodes)"
    by (intro card_mono) auto
  then show ?case using 2 by (auto simp: mlex_prod_def)
next
  case (3 components pending nodes unguarded node rest edges items)
  let ?W = "schema_world (Some components) (node # rest)"
  have node: "node \<in> ?W" by (simp add: world_self)
  have "set (rev items @ rev edges @ rest) \<subseteq> ?W"
    using 3 node_edges_world [OF _ node] node_items_world [OF _ node] by (auto intro: world_self)
  then have "schema_world (Some components) (rev items @ rev edges @ rest) \<subseteq> ?W" by (rule world_mono)
  then have "card (schema_world (Some components) (rev items @ rev edges @ rest) - set (js_add nodes node)) <
      card (?W - set nodes)"
    using 3 node by (intro psubset_card_mono) auto
  then show ?case using 3 by (simp add: mlex_prod_def)
qed

declare collect.simps [simp del]

section \<open>Looking for cycles\<close>

function visit :: "(json \<times> json list) list \<Rightarrow> json list \<Rightarrow> json list \<Rightarrow> json \<Rightarrow> json list res"
  and visit_all :: "(json \<times> json list) list \<Rightarrow> json list \<Rightarrow> json list \<Rightarrow> json list \<Rightarrow> json list res" where
  "visit unguarded visiting checked node =
     (if is_bool node \<or> node \<in> set checked then Inr checked
      else if node \<in> set visiting then
        Inl (JsError ''Unguarded recursive schema: cycle does not descend into a child value'')
      else res_bind (visit_all unguarded (node # visiting) checked
          (case jm_get unguarded node of None \<Rightarrow> [] | Some edges \<Rightarrow> edges)) (\<lambda>checked.
        Inr (js_add checked node)))"
| "visit_all unguarded visiting checked [] = Inr checked"
| "visit_all unguarded visiting checked (node # nodes) =
     res_bind (visit unguarded visiting checked node) (\<lambda>checked. visit_all unguarded visiting checked nodes)"
  by pat_completeness auto
termination
proof (relation "(\<lambda>x. case x of
      Inl (g, visiting, checked, node) \<Rightarrow> card (fst ` set g - set visiting)
    | Inr (g, visiting, checked, nodes) \<Rightarrow> card (fst ` set g - set visiting)) <*mlex*>
    measure (\<lambda>x. case x of Inl (g, visiting, checked, node) \<Rightarrow> 1 | Inr (g, visiting, checked, nodes) \<Rightarrow> 2 * length nodes)",
    goal_cases)
  case 1
  show ?case by (intro wf_mlex wf_measure)
next
  case (2 g visiting checked node)
  show ?case
  proof (cases "jm_get g node")
    case None
    have "card (fst ` set g - set (node # visiting)) \<le> card (fst ` set g - set visiting)"
      by (intro card_mono) auto
    with None show ?thesis by (auto simp: mlex_prod_def)
  next
    case (Some es)
    then have "node \<in> fst ` set g" by (force dest: jm_get_SomeD)
    with 2 have "card (fst ` set g - set (node # visiting)) < card (fst ` set g - set visiting)"
      by (intro psubset_card_mono) auto
    then show ?thesis by (simp add: mlex_prod_def)
  qed
qed (auto simp: mlex_prod_def)

declare visit.simps [simp del] visit_all.simps [simp del]

definition assert_schema_references :: "json list \<Rightarrow> (string \<times> json) list \<Rightarrow> unit res" where
  "assert_schema_references roots components =
     res_bind (collect components (rev (roots @ map snd components)) [] []) (\<lambda>(nodes, unguarded).
     res_bind (visit_all unguarded [] [] nodes) (\<lambda>_. Inr ()))"


section \<open>What the check means\<close>

text \<open>The schemas that can be reached from the roots and the components.\<close>

inductive schema_reach :: "(string \<times> json) list \<Rightarrow> json list \<Rightarrow> json \<Rightarrow> bool" for components roots where
  root: "s \<in> set roots \<union> snd ` set components \<Longrightarrow> schema_reach components roots s"
| edge: "schema_reach components roots s \<Longrightarrow> node_edges components s = Inr es \<Longrightarrow> t \<in> set es \<Longrightarrow>
    schema_reach components roots t"
| item: "schema_reach components roots s \<Longrightarrow> node_items s = Inr es \<Longrightarrow> t \<in> set es \<Longrightarrow>
    schema_reach components roots t"

text \<open>At most \<open>n\<close> references and unions lead out of \<open>s\<close>, and all of them resolve.\<close>

primrec guarded_in :: "(string \<times> json) list \<Rightarrow> nat \<Rightarrow> json \<Rightarrow> bool" where
  "guarded_in components 0 s = False"
| "guarded_in components (Suc n) s =
     (case node_edges components s of Inr es \<Rightarrow> list_all (guarded_in components n) es | Inl _ \<Rightarrow> False)"

lemma bool_edges [simp]: "node_edges components (JBool b) = Inr []" "node_items (JBool b) = Inr []"
  by (simp_all add: node_edges_def ref_edges_def is_ref_def in_schema_def optional_items_def node_items_def field_def)

lemma is_boolE: "is_bool s \<Longrightarrow> (\<And>b. s = JBool b \<Longrightarrow> P) \<Longrightarrow> P"
  by (cases s) (auto simp: is_bool_def)

lemma guarded_in_bool: "is_bool s \<Longrightarrow> guarded_in components (Suc 0) s"
  by (auto elim: is_boolE)

lemma guarded_in_mono: "guarded_in components m s \<Longrightarrow> m \<le> n \<Longrightarrow> guarded_in components n s"
proof (induction m arbitrary: s n)
  case (Suc m)
  then obtain k where "n = Suc k" "m \<le> k" by (cases n) auto
  with Suc show ?case by (auto simp: list_all_iff split: sum.splits)
qed simp

lemma guarded_in_edges:
  assumes "node_edges components s = Inr es" "\<forall>t\<in>set es. \<exists>n. guarded_in components n t"
  shows "\<exists>n. guarded_in components n s"
proof -
  obtain f where f: "\<forall>t\<in>set es. guarded_in components (f t) t" using assms(2) by metis
  have "guarded_in components (Max (insert 0 (f ` set es))) t" if "t \<in> set es" for t
  proof (rule guarded_in_mono)
    show "guarded_in components (f t) t" using f that by blast
    show "f t \<le> Max (insert 0 (f ` set es))" using that by (intro Max_ge) simp_all
  qed
  then have "guarded_in components (Suc (Max (insert 0 (f ` set es)))) s" by (simp add: assms(1) list_all_iff)
  then show ?thesis ..
qed

text \<open>The worklist: what is still to be visited is pending.\<close>

lemma collect_simps:
  "collect components [] nodes unguarded = Inr (nodes, unguarded)"
  "is_bool node \<or> node \<in> set nodes \<Longrightarrow>
    collect components (node # rest) nodes unguarded = collect components rest nodes unguarded"
  "\<not> (is_bool node \<or> node \<in> set nodes) \<Longrightarrow> collect components (node # rest) nodes unguarded =
    res_bind (node_edges components node) (\<lambda>edges. res_bind (node_items node) (\<lambda>items.
      collect components (rev items @ rev edges @ rest) (js_add nodes node) (jm_set unguarded node edges)))"
  by (simp_all add: collect.simps [of components "[]"] collect.simps [of components "node # rest"])

definition node_done :: "(string \<times> json) list \<Rightarrow> json set \<Rightarrow> (json \<times> json list) list \<Rightarrow> json \<Rightarrow> bool" where
  "node_done components X unguarded n \<longleftrightarrow> (\<exists>es its. node_edges components n = Inr es \<and> node_items n = Inr its \<and>
     jm_get unguarded n = Some es \<and> set es \<union> set its \<subseteq> Collect is_bool \<union> X)"

definition collected :: "(string \<times> json) list \<Rightarrow> json list \<Rightarrow> json list \<Rightarrow> (json \<times> json list) list \<Rightarrow> bool" where
  "collected components pending nodes unguarded \<longleftrightarrow> fst ` set unguarded = set nodes \<and>
     (\<forall>n\<in>set nodes. node_done components (set nodes \<union> set pending) unguarded n)"

lemma node_done_mono:
  assumes "node_done components X unguarded n" "X \<subseteq> Collect is_bool \<union> Y" "jm_get unguarded' n = jm_get unguarded n"
  shows "node_done components Y unguarded' n"
proof -
  obtain es its where "node_edges components n = Inr es" "node_items n = Inr its" "jm_get unguarded n = Some es"
      "set es \<union> set its \<subseteq> Collect is_bool \<union> X"
    using assms(1) unfolding node_done_def by blast
  moreover from this(4) assms(2) have "set es \<union> set its \<subseteq> Collect is_bool \<union> Y" by blast
  ultimately show ?thesis using assms(3) unfolding node_done_def by metis
qed

lemma collected_skip:
  assumes "collected components (node # rest) nodes unguarded" "is_bool node \<or> node \<in> set nodes"
  shows "collected components rest nodes unguarded"
proof -
  have "set nodes \<union> set (node # rest) \<subseteq> Collect is_bool \<union> (set nodes \<union> set rest)" using assms(2) by auto
  with assms(1) node_done_mono show ?thesis unfolding collected_def by blast
qed

lemma collected_visit:
  assumes "collected components (node # rest) nodes unguarded" "node \<notin> set nodes"
    "node_edges components node = Inr es" "node_items node = Inr its"
  shows "collected components (rev its @ rev es @ rest) (js_add nodes node) (jm_set unguarded node es)"
proof -
  let ?X = "set (js_add nodes node) \<union> set (rev its @ rev es @ rest)"
  have "node_done components ?X (jm_set unguarded node es) n" if "n \<in> set nodes" for n
  proof (rule node_done_mono)
    show "node_done components (set nodes \<union> set (node # rest)) unguarded n"
      using assms(1) that by (simp add: collected_def)
    show "jm_get (jm_set unguarded node es) n = jm_get unguarded n" using assms(2) that by auto
  qed auto
  moreover have "node_done components ?X (jm_set unguarded node es) node"
    using assms(3,4) by (auto simp: node_done_def)
  ultimately show ?thesis using assms(1) by (simp add: collected_def keys_jm_set)
qed

lemma collect_closed:
  assumes "collect components pending nodes unguarded = Inr (nodes', unguarded')"
    "collected components pending nodes unguarded"
  shows "collected components [] nodes' unguarded' \<and> set nodes \<subseteq> set nodes' \<and>
    (\<forall>t\<in>set pending. is_bool t \<or> t \<in> set nodes')"
  using assms
proof (induction components pending nodes unguarded rule: collect.induct)
  case (1 components pending nodes unguarded)
  show ?case
  proof (cases pending)
    case Nil
    with "1.prems" show ?thesis by (simp add: collect_simps)
  next
    case (Cons node rest)
    show ?thesis
    proof (cases "is_bool node \<or> node \<in> set nodes")
      case True
      then have "collected components rest nodes unguarded"
        using "1.prems"(2) unfolding Cons by (rule collected_skip [rotated])
      with "1.IH"(1) [OF Cons True] "1.prems"(1) True show ?thesis
        by (auto simp: Cons collect_simps)
    next
      case False
      then obtain es its where e: "node_edges components node = Inr es" "node_items node = Inr its"
          "collect components (rev its @ rev es @ rest) (js_add nodes node) (jm_set unguarded node es) = Inr (nodes', unguarded')"
        using "1.prems"(1) by (auto simp: Cons collect_simps res_bind_Inr_iff)
      have "collected components (rev its @ rev es @ rest) (js_add nodes node) (jm_set unguarded node es)"
        using "1.prems"(2) e(1,2) False unfolding Cons by (intro collected_visit) auto
      with "1.IH"(2) [OF Cons False e(1,2)] e(3) show ?thesis by (auto simp: Cons)
    qed
  qed
qed

lemma collect_total:
  assumes "\<And>s. schema_reach components roots s \<Longrightarrow> is_ok (node_edges components s) \<and> is_ok (node_items s)"
    "\<forall>s\<in>set pending. schema_reach components roots s"
  shows "is_ok (collect components pending nodes unguarded)"
  using assms
proof (induction components pending nodes unguarded rule: collect.induct)
  case (1 components pending nodes unguarded)
  show ?case
  proof (cases pending)
    case (Cons node rest)
    show ?thesis
    proof (cases "is_bool node \<or> node \<in> set nodes")
      case True
      with "1.IH"(1) [OF Cons True] "1.prems" show ?thesis by (simp add: Cons collect_simps)
    next
      case False
      from "1.prems"(2) Cons have node: "schema_reach components roots node" by simp
      from "1.prems"(1) [OF node] obtain es its where e: "node_edges components node = Inr es" "node_items node = Inr its"
        by (auto simp: is_ok_def split: sum.splits)
      have "\<forall>s\<in>set (rev its @ rev es @ rest). schema_reach components roots s"
        using "1.prems"(2) e Cons schema_reach.edge [OF node] schema_reach.item [OF node] by auto
      with "1.IH"(2) [OF Cons False e "1.prems"(1)] show ?thesis using e False by (simp add: Cons collect_simps)
    qed
  qed (simp add: collect_simps)
qed


lemma collect_reach:
  assumes "collect components pending nodes unguarded = Inr (nodes', unguarded')"
    "\<forall>s\<in>set pending \<union> set nodes. schema_reach components roots s"
  shows "\<forall>s\<in>set nodes'. schema_reach components roots s"
  using assms
proof (induction components pending nodes unguarded rule: collect.induct)
  case (1 components pending nodes unguarded)
  show ?case
  proof (cases pending)
    case (Cons node rest)
    show ?thesis
    proof (cases "is_bool node \<or> node \<in> set nodes")
      case True
      with "1.IH"(1) [OF Cons True] "1.prems" show ?thesis by (simp add: Cons collect_simps)
    next
      case False
      then obtain es its where e: "node_edges components node = Inr es" "node_items node = Inr its"
          "collect components (rev its @ rev es @ rest) (js_add nodes node) (jm_set unguarded node es) = Inr (nodes', unguarded')"
        using "1.prems"(1) by (auto simp: Cons collect_simps res_bind_Inr_iff)
      have node: "schema_reach components roots node" using "1.prems"(2) Cons by simp
      have "\<forall>s\<in>set (rev its @ rev es @ rest) \<union> set (js_add nodes node). schema_reach components roots s"
        using "1.prems"(2) Cons schema_reach.edge [OF node e(1)] schema_reach.item [OF node e(2)] by auto
      with "1.IH"(2) [OF Cons False e(1,2)] e(3) show ?thesis by simp
    qed
  qed (use "1.prems" in \<open>simp add: collect_simps\<close>)
qed

text \<open>The depth-first search: what has been checked is guarded.\<close>

definition graph_ok :: "(string \<times> json) list \<Rightarrow> (json \<times> json list) list \<Rightarrow> bool" where
  "graph_ok components g \<longleftrightarrow> (\<forall>n es. jm_get g n = Some es \<longrightarrow> node_edges components n = Inr es \<and>
     (\<forall>t\<in>set es. is_bool t \<or> jm_get g t \<noteq> None))"

definition all_guarded :: "(string \<times> json) list \<Rightarrow> json list \<Rightarrow> bool" where
  "all_guarded components nodes \<longleftrightarrow> (\<forall>s\<in>set nodes. \<exists>n. guarded_in components n s)"

lemma visit_guarded:
  "visit g visiting checked node = Inr checked' \<Longrightarrow> graph_ok components g \<Longrightarrow> all_guarded components checked \<Longrightarrow>
    is_bool node \<or> jm_get g node \<noteq> None \<Longrightarrow>
    all_guarded components checked' \<and> set checked \<subseteq> set checked' \<and> (is_bool node \<or> node \<in> set checked')"
  "visit_all g visiting checked nodes = Inr checked' \<Longrightarrow> graph_ok components g \<Longrightarrow> all_guarded components checked \<Longrightarrow>
    \<forall>node\<in>set nodes. is_bool node \<or> jm_get g node \<noteq> None \<Longrightarrow>
    all_guarded components checked' \<and> set checked \<subseteq> set checked' \<and> (\<forall>node\<in>set nodes. is_bool node \<or> node \<in> set checked')"
proof (induction g visiting checked node and g visiting checked nodes arbitrary: checked' and checked'
    rule: visit_visit_all.induct)
  case (1 g visiting checked node)
  show ?case
  proof (cases "is_bool node \<or> node \<in> set checked")
    case True
    with "1.prems" show ?thesis by (auto simp: visit.simps [of g visiting checked node])
  next
    case False
    with "1.prems"(4) obtain es where es: "jm_get g node = Some es" by auto
    have nv: "node \<notin> set visiting" using "1.prems"(1) False by (auto simp: visit.simps [of g visiting checked node])
    obtain mid where mid: "visit_all g (node # visiting) checked es = Inr mid" "checked' = js_add mid node"
      using "1.prems"(1) False nv es by (auto simp: visit.simps [of g visiting checked node] res_bind_Inr_iff)
    have edges: "node_edges components node = Inr es" "\<forall>t\<in>set es. is_bool t \<or> jm_get g t \<noteq> None"
      using "1.prems"(2) es by (auto simp: graph_ok_def)
    from "1.IH" [OF False nv] es mid(1) "1.prems"(2,3) edges(2)
    have IH: "all_guarded components mid" "set checked \<subseteq> set mid" "\<forall>t\<in>set es. is_bool t \<or> t \<in> set mid" by auto
    have "\<exists>n. guarded_in components n t" if "t \<in> set es" for t
      using IH(1,3) that guarded_in_bool unfolding all_guarded_def by blast
    with guarded_in_edges [OF edges(1)] have "\<exists>n. guarded_in components n node" by blast
    with IH mid(2) show ?thesis by (auto simp: all_guarded_def)
  qed
next
  case (2 g visiting checked)
  then show ?case by (simp add: visit_all.simps)
next
  case (3 g visiting checked node nodes)
  then obtain mid where mid: "visit g visiting checked node = Inr mid" "visit_all g visiting mid nodes = Inr checked'"
    by (auto simp: visit_all.simps res_bind_Inr_iff)
  from "3.IH"(1) [OF mid(1)] "3.prems" have a: "all_guarded components mid" "set checked \<subseteq> set mid"
    "is_bool node \<or> node \<in> set mid" by auto
  from "3.IH"(2) [OF mid "3.prems"(2) a(1)] "3.prems"(4)
  have "all_guarded components checked'" "set mid \<subseteq> set checked'" "\<forall>node\<in>set nodes. is_bool node \<or> node \<in> set checked'"
    by auto
  with a show ?case by auto
qed

text \<open>Along an edge of a guarded schema the bound gets smaller, so the search never comes back.\<close>

definition guard_rank :: "(string \<times> json) list \<Rightarrow> json \<Rightarrow> nat" where
  "guard_rank components s = (LEAST n. guarded_in components n s)"

lemma guard_rank_edge:
  assumes "guarded_in components n s" "node_edges components s = Inr es" "t \<in> set es"
  shows "guard_rank components t < guard_rank components s" "\<exists>m. guarded_in components m t"
proof -
  have g: "guarded_in components (guard_rank components s) s" unfolding guard_rank_def using assms(1) by (rule LeastI)
  then obtain k where k: "guard_rank components s = Suc k" by (cases "guard_rank components s") auto
  with g assms(2,3) have t: "guarded_in components k t" by (simp add: list_all_iff)
  then show "\<exists>m. guarded_in components m t" ..
  from t have "guard_rank components t \<le> k" unfolding guard_rank_def by (rule Least_le)
  with k show "guard_rank components t < guard_rank components s" by simp
qed

lemma visit_total:
  "graph_ok components g \<Longrightarrow> \<exists>n. guarded_in components n node \<Longrightarrow> is_bool node \<or> jm_get g node \<noteq> None \<Longrightarrow>
    \<forall>v\<in>set visiting. guard_rank components node < guard_rank components v \<Longrightarrow> is_ok (visit g visiting checked node)"
  "graph_ok components g \<Longrightarrow> \<forall>node\<in>set nodes. (\<exists>n. guarded_in components n node) \<and> (is_bool node \<or> jm_get g node \<noteq> None) \<and>
    (\<forall>v\<in>set visiting. guard_rank components node < guard_rank components v) \<Longrightarrow> is_ok (visit_all g visiting checked nodes)"
proof (induction g visiting checked node and g visiting checked nodes rule: visit_visit_all.induct)
  case (1 g visiting checked node)
  show ?case
  proof (cases "is_bool node \<or> node \<in> set checked")
    case True
    then show ?thesis by (auto simp: visit.simps [of g visiting checked node])
  next
    case False
    with "1.prems"(3) obtain es where es: "jm_get g node = Some es" by auto
    have nv: "node \<notin> set visiting" using "1.prems"(4) by auto
    have edges: "node_edges components node = Inr es" "\<forall>t\<in>set es. is_bool t \<or> jm_get g t \<noteq> None"
      using "1.prems"(1) es by (auto simp: graph_ok_def)
    obtain n where n: "guarded_in components n node" using "1.prems"(2) ..
    have "\<forall>t\<in>set es. (\<exists>n. guarded_in components n t) \<and> (is_bool t \<or> jm_get g t \<noteq> None) \<and>
        (\<forall>v\<in>set (node # visiting). guard_rank components t < guard_rank components v)"
      using guard_rank_edge [OF n edges(1)] edges(2) "1.prems"(4) by force
    with "1.IH" [OF False nv "1.prems"(1)] es have "is_ok (visit_all g (node # visiting) checked es)" by simp
    with False nv es show ?thesis
      by (auto simp: visit.simps [of g visiting checked node] is_ok_def res_bind_def split: sum.splits)
  qed
next
  case (3 g visiting checked node nodes)
  then have "is_ok (visit g visiting checked node)" by simp
  then obtain mid where mid: "visit g visiting checked node = Inr mid" by (auto simp: is_ok_def split: sum.splits)
  with 3 have "is_ok (visit_all g visiting mid nodes)" by simp
  with mid show ?case by (simp add: visit_all.simps)
qed (simp add: visit_all.simps)

lemma collected_reach:
  assumes "collected components [] nodes g" "\<forall>t\<in>set roots \<union> snd ` set components. is_bool t \<or> t \<in> set nodes"
    "schema_reach components roots s"
  shows "is_bool s \<or> s \<in> set nodes"
  using assms(3)
proof induction
  case (edge s es t)
  then show ?case using assms(1) unfolding collected_def node_done_def
    by (auto elim: is_boolE) fastforce+
next
  case (item s es t)
  then show ?case using assms(1) unfolding collected_def node_done_def
    by (auto elim: is_boolE) fastforce+
qed (use assms(2) in blast)

lemma collected_graph:
  assumes "collected components [] nodes g"
  shows "graph_ok components g"
proof -
  have "node_edges components n = Inr es \<and> (\<forall>t\<in>set es. is_bool t \<or> jm_get g t \<noteq> None)"
    if "jm_get g n = Some es" for n es
  proof -
    have keys: "fst ` set g = set nodes" using assms by (simp add: collected_def)
    then have "n \<in> set nodes" using that by (force dest: jm_get_SomeD)
    then have "node_done components (set nodes) g n" using assms by (simp add: collected_def)
    with that have "node_edges components n = Inr es" "set es \<subseteq> Collect is_bool \<union> set nodes"
      by (auto simp: node_done_def)
    with keys show ?thesis by (auto simp: jm_get_None_iff)
  qed
  then show ?thesis by (simp add: graph_ok_def)
qed

text \<open>The reference check accepts exactly the sets of schemas in which every schema that can be
  reached is well formed and from each of them only finitely many references and unions lead on,
  all of them resolved: no reference dangles, and no cycle avoids descending into a value.\<close>

theorem assert_references_exact:
  "assert_schema_references roots components = Inr () \<longleftrightarrow>
     Collect (schema_reach components roots) \<subseteq> {s. is_ok (node_items s) \<and> (\<exists>n. guarded_in components n s)}"
proof
  assume ok: "assert_schema_references roots components = Inr ()"
  then obtain nodes g where c: "collect components (rev (roots @ map snd components)) [] [] = Inr (nodes, g)"
      and v: "is_ok (visit_all g [] [] nodes)"
    by (auto simp: assert_schema_references_def res_bind_Inr_iff is_ok_def split: sum.splits)
  from collect_closed [OF c] have cl: "collected components [] nodes g"
      "\<forall>t\<in>set roots \<union> snd ` set components. is_bool t \<or> t \<in> set nodes"
    by (auto simp: collected_def)
  have keys: "jm_get g n \<noteq> None \<longleftrightarrow> n \<in> set nodes" for n using cl(1) by (simp add: collected_def jm_get_None_iff)
  obtain checked where "visit_all g [] [] nodes = Inr checked" using v by (auto simp: is_ok_def split: sum.splits)
  from visit_guarded(2) [OF this collected_graph [OF cl(1)]] keys
  have guarded: "all_guarded components checked" "\<forall>n\<in>set nodes. is_bool n \<or> n \<in> set checked"
    by (auto simp: all_guarded_def)
  show "Collect (schema_reach components roots) \<subseteq> {s. is_ok (node_items s) \<and> (\<exists>n. guarded_in components n s)}"
  proof
    fix s assume "s \<in> Collect (schema_reach components roots)"
    then have "is_bool s \<or> s \<in> set nodes" using collected_reach [OF cl] by simp
    moreover have "is_ok (node_items s)" if "s \<in> set nodes"
      using cl(1) that by (auto simp: collected_def node_done_def)
    moreover have "\<exists>n. guarded_in components n s" if "is_bool s \<or> s \<in> set nodes"
      using guarded that guarded_in_bool unfolding all_guarded_def by blast
    ultimately show "s \<in> {s. is_ok (node_items s) \<and> (\<exists>n. guarded_in components n s)}"
      by (auto elim: is_boolE)
  qed
next
  assume good: "Collect (schema_reach components roots) \<subseteq> {s. is_ok (node_items s) \<and> (\<exists>n. guarded_in components n s)}"
  have edges: "is_ok (node_edges components s)" if "guarded_in components n s" for n s
    using that by (cases n) (auto split: sum.splits)
  have "is_ok (collect components (rev (roots @ map snd components)) [] [])"
  proof (rule collect_total)
    fix s assume "schema_reach components roots s"
    with good edges show "is_ok (node_edges components s) \<and> is_ok (node_items s)" by blast
  qed (auto intro: schema_reach.root)
  then obtain nodes g where c: "collect components (rev (roots @ map snd components)) [] [] = Inr (nodes, g)"
    by (auto simp: is_ok_def split: sum.splits)
  from collect_closed [OF c] have cl: "collected components [] nodes g" by (simp add: collected_def)
  have keys: "jm_get g n \<noteq> None \<longleftrightarrow> n \<in> set nodes" for n using cl(1) by (simp add: collected_def jm_get_None_iff)
  have "is_ok (visit_all g [] [] nodes)"
  proof (rule visit_total(2) [OF collected_graph [OF cl]])
    show "\<forall>node\<in>set nodes. (\<exists>n. guarded_in components n node) \<and> (is_bool node \<or> jm_get g node \<noteq> None) \<and>
        (\<forall>v\<in>set []. guard_rank components node < guard_rank components v)"
      using good keys collect_reach [OF c, of roots] by (auto intro: schema_reach.root)
  qed
  with c show "assert_schema_references roots components = Inr ()"
    by (auto simp: assert_schema_references_def is_ok_def split: sum.splits)
qed

end
