(* ===== verification/Matching.thy ===== *)
theory Matching
  imports SchemaRefs
begin

text \<open>
  What matching a value against a schema means.  \<open>valid\<close> is the declarative reading: the least
  relation closed under following references and choosing union branches.  With \<open>strict\<close> an array
  must have an item for each of \<^verbatim>\<open>prefixItems\<close>, as the matcher requires; without it a short array is
  admitted, as in JSON Schema.  The matcher remembers the references it is in and gives up when one
  comes back; \<open>avoids\<close> is that search, and the lemmas show that it loses nothing.
\<close>

section \<open>The declarative reading\<close>

definition array_ok :: "bool \<Rightarrow> (json \<Rightarrow> json \<Rightarrow> bool) \<Rightarrow> json list \<Rightarrow> json \<Rightarrow> bool" where
  "array_ok strict R xs s \<longleftrightarrow> (\<exists>ps. prefix_items s = Inr ps \<and> (strict \<longrightarrow> length ps \<le> length xs) \<and>
     (rest_of s = JBool False \<longrightarrow> length xs \<le> length ps) \<and>
     (\<forall>i<length xs. R (xs ! i) (nullish (js_nth ps i) (rest_of s))))"

definition property_schema :: "(string \<times> json) list \<Rightarrow> json \<Rightarrow> string \<Rightarrow> json" where
  "property_schema props s k = (case map_of props k of Some t \<Rightarrow> t | None \<Rightarrow> additional_properties s)"

definition object_ok :: "(json \<Rightarrow> json \<Rightarrow> bool) \<Rightarrow> (string \<times> json) list \<Rightarrow> json \<Rightarrow> bool" where
  "object_ok R kvs s \<longleftrightarrow> (\<exists>required props. string_list ''required'' s = Inr required \<and> properties_of s = Inr props \<and>
     set required \<subseteq> fst ` set kvs \<and> (\<forall>p\<in>set kvs. R (snd p) (property_schema props s (fst p))))"

definition typed_ok :: "bool \<Rightarrow> (json \<Rightarrow> json \<Rightarrow> bool) \<Rightarrow> json \<Rightarrow> json \<Rightarrow> bool" where
  "typed_ok strict R v s =
     (let t = type_of s in
      if t = Some ''null'' then v = JNull
      else if t = Some ''boolean'' then (case v of JBool _ \<Rightarrow> True | _ \<Rightarrow> False)
      else if t = Some ''number'' then (case v of JNum _ \<Rightarrow> True | _ \<Rightarrow> False)
      else if t = Some ''integer'' then (case v of JNum n \<Rightarrow> num_is_integer n | _ \<Rightarrow> False)
      else if t = Some ''string'' then (case v of JStr _ \<Rightarrow> True | _ \<Rightarrow> False)
      else if t = Some ''array'' then is_array v \<and> array_ok strict R (items_of v) s
      else if t = Some ''object'' then is_object v \<and> object_ok R (entries_of v) s
      else list_all (\<lambda>(k, _). k = ''title'' \<or> k = ''description'' \<or> starts_with k ''x-'') (entries_of s))"

definition local_ok :: "bool \<Rightarrow> (json \<Rightarrow> json \<Rightarrow> bool) \<Rightarrow> json \<Rightarrow> json \<Rightarrow> bool" where
  "local_ok strict R v s \<longleftrightarrow> s \<noteq> JBool False \<and> (s = JBool True \<or> is_ref s = Inr False \<and> \<not> is_union s \<and>
     (if is_const s then json_eq v (the (field ''const'' s))
      else if is_enum s then (\<exists>es. array_of (field ''enum'' s) = Inr es \<and> list_ex (\<lambda>e. json_eq v e) es)
      else typed_ok strict R v s))"

lemma array_ok_mono: "(\<And>x t. x \<in> set xs \<Longrightarrow> R x t \<Longrightarrow> R' x t) \<Longrightarrow> array_ok strict R xs s \<Longrightarrow> array_ok strict R' xs s"
  by (fastforce simp: array_ok_def)

lemma object_ok_mono:
  "(\<And>p t. p \<in> set kvs \<Longrightarrow> R (snd p) t \<Longrightarrow> R' (snd p) t) \<Longrightarrow> object_ok R kvs s \<Longrightarrow> object_ok R' kvs s"
  by (fastforce simp: object_ok_def)

lemma local_ok_mono:
  assumes "local_ok strict R v s" "\<And>x t. size x < size v \<Longrightarrow> R x t \<Longrightarrow> R' x t"
  shows "local_ok strict R' v s"
proof -
  have "array_ok strict R (items_of v) s \<Longrightarrow> array_ok strict R' (items_of v) s"
    by (rule array_ok_mono) (auto dest: size_items intro: assms(2))
  moreover have "object_ok R (entries_of v) s \<Longrightarrow> object_ok R' (entries_of v) s"
    by (rule object_ok_mono) (auto dest: size_entries intro: assms(2))
  ultimately have "typed_ok strict R v s \<Longrightarrow> typed_ok strict R' v s" by (simp add: typed_ok_def Let_def split: if_splits)
  with assms(1) show ?thesis by (auto simp: local_ok_def)
qed

lemma local_ok_le [mono]:
  "(\<And>x t. R x t \<longrightarrow> R' x t) \<Longrightarrow> local_ok strict R v s \<longrightarrow> local_ok strict R' v s"
  using local_ok_mono [of strict R v s R'] by auto

text \<open>\<open>n\<close> counts the references and branches taken before the value itself is looked at.\<close>

inductive valid_in :: "bool \<Rightarrow> components \<Rightarrow> nat \<Rightarrow> json \<Rightarrow> json \<Rightarrow> bool" for strict c where
  here: "local_ok strict (\<lambda>x t. \<exists>n. valid_in strict c n x t) v s \<Longrightarrow> valid_in strict c n v s"
| ref: "s \<noteq> JBool True \<Longrightarrow> is_ref s = Inr True \<Longrightarrow> ref_of s = Inr r \<Longrightarrow> resolve_ref c r = Inr (Some t) \<Longrightarrow> valid_in strict c n v t \<Longrightarrow>
    valid_in strict c (Suc n) v s"
| union: "is_ref s = Inr False \<Longrightarrow> is_union s \<Longrightarrow> branches s = Inr bs \<Longrightarrow> b \<in> set bs \<Longrightarrow> valid_in strict c n v b \<Longrightarrow>
    valid_in strict c (Suc n) v s"

definition valid :: "bool \<Rightarrow> components \<Rightarrow> json \<Rightarrow> json \<Rightarrow> bool" where
  "valid strict c v s \<longleftrightarrow> (\<exists>n. valid_in strict c n v s)"


lemma valid_here: "local_ok strict (valid strict c) v s \<Longrightarrow> valid strict c v s"
  unfolding valid_def [abs_def] by (auto intro: valid_in.here)

lemma valid_ref:
  "s \<noteq> JBool True \<Longrightarrow> is_ref s = Inr True \<Longrightarrow> ref_of s = Inr r \<Longrightarrow> resolve_ref c r = Inr (Some t) \<Longrightarrow> valid strict c v t \<Longrightarrow> valid strict c v s"
  unfolding valid_def by (blast intro: valid_in.ref)

lemma valid_union:
  "is_ref s = Inr False \<Longrightarrow> is_union s \<Longrightarrow> branches s = Inr bs \<Longrightarrow> b \<in> set bs \<Longrightarrow> valid strict c v b \<Longrightarrow> valid strict c v s"
  unfolding valid_def by (blast intro: valid_in.union)

section \<open>The search of the matcher\<close>

inductive avoids :: "components \<Rightarrow> string list \<Rightarrow> json \<Rightarrow> json \<Rightarrow> bool" for c where
  here: "local_ok True (avoids c []) v s \<Longrightarrow> avoids c seen v s"
| ref: "s \<noteq> JBool True \<Longrightarrow> is_ref s = Inr True \<Longrightarrow> ref_of s = Inr r \<Longrightarrow> r \<notin> set seen \<Longrightarrow> resolve_ref c r = Inr (Some t) \<Longrightarrow>
    avoids c (js_add seen r) v t \<Longrightarrow> avoids c seen v s"
| union: "is_ref s = Inr False \<Longrightarrow> is_union s \<Longrightarrow> branches s = Inr bs \<Longrightarrow> b \<in> set bs \<Longrightarrow> avoids c seen v b \<Longrightarrow>
    avoids c seen v s"

lemma is_ref_bool [simp]: "is_ref (JBool b) = Inr False"
  by (simp add: is_ref_def in_schema_def)

lemma is_union_bool [simp]: "\<not> is_union (JBool b)"
  by (simp add: is_union_def field_def)

lemma avoids_simps:
  "avoids c seen v (JBool b) \<longleftrightarrow> b"
  "is_ref s = Inr True \<Longrightarrow> ref_of s = Inr r \<Longrightarrow> avoids c seen v s \<longleftrightarrow>
    r \<notin> set seen \<and> (\<exists>t. resolve_ref c r = Inr (Some t) \<and> avoids c (js_add seen r) v t)"
  "is_ref s = Inr False \<Longrightarrow> is_union s \<Longrightarrow> branches s = Inr bs \<Longrightarrow>
    avoids c seen v s \<longleftrightarrow> (\<exists>b\<in>set bs. avoids c seen v b)"
  "is_ref s = Inr False \<Longrightarrow> \<not> is_union s \<Longrightarrow> avoids c seen v s \<longleftrightarrow> local_ok True (avoids c []) v s"
  by (subst avoids.simps; auto simp: local_ok_def; fail)+

lemma each_value_exact:
  assumes "each_value f xs = Inr (b, issues)" "\<And>x b issues. x \<in> set xs \<Longrightarrow> f x = Inr (b, issues) \<Longrightarrow> b = P x"
  shows "b \<longleftrightarrow> list_all P xs"
  using assms
proof (induction xs arbitrary: b issues)
  case (Cons x xs)
  then obtain b1 i1 b2 i2 where f: "f x = Inr (b1, i1)" "each_value f xs = Inr (b2, i2)" "b = (b1 \<and> b2)"
    by (auto simp: res_bind_Inr_iff)
  with Cons.IH [OF f(2)] Cons.prems(2) [of x b1 i1] Cons.prems(2) show ?case by simp
qed simp

lemma some_branch_exact:
  assumes "some_branch f xs = Inr (b, issues)" "\<And>x b issues. x \<in> set xs \<Longrightarrow> f x = Inr (b, issues) \<Longrightarrow> b = P x"
  shows "b \<longleftrightarrow> list_ex P xs"
  using assms
proof (induction xs arbitrary: b issues)
  case (Cons x xs)
  then obtain b1 i1 where f: "f x = Inr (b1, i1)" by (auto simp: res_bind_Inr_iff)
  show ?case
  proof (cases b1)
    case True
    with Cons.prems(1) Cons.prems(2) [of x b1 i1] f show ?thesis by simp
  next
    case False
    with Cons.prems(1) f obtain i2 where "some_branch f xs = Inr (b, i2)" by (auto simp: res_bind_Inr_iff)
    from Cons.IH [OF this] Cons.prems(2) f False show ?thesis using Cons.prems(2) [of x b1 i1] by simp
  qed
qed simp

lemma matches_array_exact:
  assumes "matches_array f xs s path = Inr (b, issues)"
    and "\<And>x s p b issues. x \<in> set xs \<Longrightarrow> f x s p = Inr (b, issues) \<Longrightarrow> b = R x s"
  shows "b \<longleftrightarrow> array_ok True R xs s"
proof -
  from assms(1) obtain ps where ps: "prefix_items s = Inr ps" by (auto simp: matches_array_def res_bind_Inr_iff)
  show ?thesis
  proof (cases "length xs < length ps \<or> rest_of s = JBool False \<and> length ps < length xs")
    case True
    with assms(1) ps show ?thesis by (auto simp: matches_array_def mismatch_def array_ok_def)
  next
    case False
    let ?P = "\<lambda>(i, x). R x (nullish (js_nth ps i) (rest_of s))"
    have "b \<longleftrightarrow> list_all ?P (zip [0..<length xs] xs)"
    proof (rule each_value_exact)
      show "each_value (\<lambda>(i, x). f x (nullish (js_nth ps i) (rest_of s)) (path @ ''/'' @ show_nat i))
          (zip [0..<length xs] xs) = Inr (b, issues)"
        using assms(1) ps False by (auto simp: matches_array_def Let_def)
    qed (auto dest: set_zip_rightD assms(2))
    also have "\<dots> \<longleftrightarrow> (\<forall>i<length xs. R (xs ! i) (nullish (js_nth ps i) (rest_of s)))"
      by (simp add: list_all_length)
    finally show ?thesis using ps False by (auto simp: array_ok_def)
  qed
qed

lemma matches_object_exact:
  assumes "matches_object f kvs s path = Inr (b, issues)"
    and "\<And>q s p b issues. q \<in> set kvs \<Longrightarrow> f (snd q) s p = Inr (b, issues) \<Longrightarrow> b = R (snd q) s"
  shows "b \<longleftrightarrow> object_ok R kvs s"
proof -
  from assms(1) obtain required props ok issues' where
    r: "string_list ''required'' s = Inr required" "properties_of s = Inr props"
      "each_value (\<lambda>(k, x). f x (property_schema props s k) (path @ json_pointer_segment k)) kvs = Inr (ok, issues')"
      "b = (filter (\<lambda>k. k \<notin> set (map fst kvs)) required = [] \<and> ok)"
    by (auto simp: matches_object_def res_bind_Inr_iff Let_def property_schema_def)
  have "ok \<longleftrightarrow> list_all (\<lambda>(k, x). R x (property_schema props s k)) kvs"
    using r(3)
  proof (rule each_value_exact)
    fix p b issues
    assume "p \<in> set kvs" "(case p of (k, x) \<Rightarrow> f x (property_schema props s k) (path @ json_pointer_segment k)) = Inr (b, issues)"
    then show "b = (case p of (k, x) \<Rightarrow> R x (property_schema props s k))"
      using assms(2) [of p] by (simp add: split_beta)
  qed
  moreover have "filter (\<lambda>k. k \<notin> set (map fst kvs)) required = [] \<longleftrightarrow> set required \<subseteq> fst ` set kvs"
    by (auto simp: filter_empty_conv)
  ultimately show ?thesis using r(1,2,4) by (auto simp: object_ok_def list_all_iff)
qed

lemma or_mismatch_Inr: "or_mismatch ok path message = Inr (b, issues) \<Longrightarrow> b = ok"
  by (auto simp: or_mismatch_def mismatch_def split: if_splits)

lemma matches_avoids: "matches c v s seen path = Inr (b, issues) \<Longrightarrow> b \<longleftrightarrow> avoids c seen v s"
proof (induction c v s seen path arbitrary: b issues rule: matches.induct)
  case (1 c v s seen path)
  note m = "1.prems" [unfolded matches.simps [of c v s seen path]]
  show ?case
  proof (cases "s = JBool True \<or> s = JBool False")
    case True
    with m show ?thesis by (auto simp: avoids_simps mismatch_def)
  next
    case False
    then have s: "s \<noteq> JBool True" "s \<noteq> JBool False" by simp_all
    from m s obtain isRef where isRef: "is_ref s = Inr isRef" by (auto simp: res_bind_Inr_iff)
    show ?thesis
    proof (cases isRef)
      case True
      with m s isRef obtain r where r: "ref_of s = Inr r" by (auto simp: res_bind_Inr_iff)
      from isRef True have isRef': "is_ref s = Inr True" by simp
      note av = avoids_simps(2) [OF isRef' r, of c seen v]
      show ?thesis
      proof (cases "r \<in> set seen")
        case True
        with m s isRef \<open>isRef\<close> r av show ?thesis by (auto simp: mismatch_def)
      next
        case nseen: False
        with m s isRef \<open>isRef\<close> r obtain t where t: "resolve_ref c r = Inr t" by (auto simp: res_bind_Inr_iff)
        show ?thesis
        proof (cases t)
          case None
          with m s isRef \<open>isRef\<close> r t nseen av show ?thesis by (auto simp: mismatch_def)
        next
          case (Some u)
          with m s isRef \<open>isRef\<close> r t nseen have "matches c v u (js_add seen r) path = Inr (b, issues)" by simp
          from "1.IH"(1) [OF s isRef \<open>isRef\<close> r nseen t Some this] Some t nseen av show ?thesis by simp
        qed
      qed
    next
      case nref: False
      from isRef nref have isRef': "is_ref s = Inr False" by simp
      show ?thesis
      proof (cases "is_union s")
        case True
        with m s isRef nref obtain bs ok failures where bs: "branches s = Inr bs"
            "some_branch (\<lambda>branch. matches c v branch seen path) bs = Inr (ok, failures)" "b = ok"
          by (auto simp: res_bind_Inr_iff mismatch_def split: if_splits)
        have "ok \<longleftrightarrow> list_ex (avoids c seen v) bs"
          using bs(2) by (rule some_branch_exact) (rule "1.IH"(2) [OF s isRef nref True bs(1)])
        with bs(3) avoids_simps(3) [OF isRef' True bs(1)] show ?thesis by (simp add: list_ex_iff)
      next
        case nun: False
        note av = avoids_simps(4) [OF isRef' nun, of c seen v]
        show ?thesis
        proof (cases "is_const s \<or> is_enum s")
          case True
          with m s isRef nref nun av show ?thesis
            by (auto simp: local_ok_def isRef' res_bind_Inr_iff dest!: or_mismatch_Inr split: if_splits)
        next
          case False
          then have nce: "\<not> is_const s" "\<not> is_enum s" by simp_all
          have arr: "b \<longleftrightarrow> array_ok True (avoids c []) (items_of v) s"
            if "type_of s = Some ''array''" "is_array v"
              "matches_array (\<lambda>x s p. matches c x s [] p) (items_of v) s path = Inr (b, issues)"
            using that(3)
          proof (rule matches_array_exact)
            fix x t p b issues
            assume "x \<in> set (items_of v)" "matches c x t [] p = Inr (b, issues)"
            then show "b = avoids c [] x t" using "1.IH"(3) [OF s isRef nref nun nce refl] that(1,2) by simp
          qed
          have obj: "b \<longleftrightarrow> object_ok (avoids c []) (entries_of v) s"
            if "type_of s = Some ''object''" "is_object v"
              "matches_object (\<lambda>x s p. matches c x s [] p) (entries_of v) s path = Inr (b, issues)"
            using that(3)
          proof (rule matches_object_exact)
            fix q t p b issues
            assume "q \<in> set (entries_of v)" "matches c (snd q) t [] p = Inr (b, issues)"
            then show "b = avoids c [] (snd q) t" using "1.IH"(4) [OF s isRef nref nun nce refl] that(1,2) by simp
          qed
          show ?thesis
            using m s isRef nref nun nce av arr obj
            by (auto simp: local_ok_def typed_ok_def isRef' Let_def mismatch_def dest!: or_mismatch_Inr split: if_splits)
        qed
      qed
    qed
  qed
qed


section \<open>The search loses nothing\<close>

lemma avoids_valid: "avoids c seen v s \<Longrightarrow> valid True c v s"
proof (induction rule: avoids.induct)
  case (here v s seen)
  then have "local_ok True (valid True c) v s" by (rule local_ok_mono) auto
  then show ?case by (rule valid_here)
qed (auto intro: valid_ref valid_union)

text \<open>A shortest derivation does not come back to a reference it went through.\<close>

lemma valid_in_avoids:
  assumes "\<And>x t. size x < size v \<Longrightarrow> valid True c x t \<Longrightarrow> avoids c [] x t"
  shows "valid_in True c n v s \<Longrightarrow>
    \<forall>r\<in>set seen. \<forall>t. resolve_ref c r = Inr (Some t) \<longrightarrow> (\<forall>k<n. \<not> valid_in True c k v t) \<Longrightarrow> avoids c seen v s"
proof (induction n arbitrary: s seen rule: less_induct)
  case (less n)
  from less.prems(1) show ?case
  proof (cases rule: valid_in.cases)
    case here
    then have "local_ok True (avoids c []) v s"
      by (rule local_ok_mono) (rule assms, simp_all add: valid_def)
    then show ?thesis by (rule avoids.here)
  next
    case (ref r t m)
    define k where "k = (LEAST k. valid_in True c k v t)"
    have k: "valid_in True c k v t" "k \<le> m" "\<And>j. j < k \<Longrightarrow> \<not> valid_in True c j v t"
      unfolding k_def using ref by (auto intro: LeastI Least_le dest: not_less_Least)
    have "r \<notin> set seen" using less.prems(2) ref by auto
    moreover have "avoids c (js_add seen r) v t"
    proof (rule less.IH [of k])
      show "\<forall>r\<in>set (js_add seen r). \<forall>t. resolve_ref c r = Inr (Some t) \<longrightarrow> (\<forall>j<k. \<not> valid_in True c j v t)"
        using less.prems(2) k ref by auto
    qed (use k ref in auto)
    ultimately show ?thesis using ref by (auto intro: avoids.ref)
  next
    case (union bs b m)
    have "avoids c seen v b" by (rule less.IH [of m]) (use union less.prems(2) in auto)
    with union show ?thesis by (auto intro: avoids.union)
  qed
qed

lemma valid_avoids: "valid True c v s \<Longrightarrow> avoids c [] v s"
proof (induction v arbitrary: s rule: measure_induct_rule [of size])
  case (less v)
  then obtain n where "valid_in True c n v s" by (auto simp: valid_def)
  then show ?case using less.IH by (intro valid_in_avoids [of v c n s "[]"]) auto
qed

lemma avoids_iff_valid: "avoids c [] v s \<longleftrightarrow> valid True c v s"
  using avoids_valid valid_avoids by blast

lemma matches_valid: "matches c v s seen path = Inr (True, issues) \<Longrightarrow> valid True c v s"
  using matches_avoids avoids_valid by blast

text \<open>An issue is reported exactly when the value is rejected.\<close>

definition issues_ok :: "bool \<times> issue list \<Rightarrow> bool" where
  "issues_ok r \<longleftrightarrow> (fst r \<longleftrightarrow> snd r = [])"

lemma each_value_issues:
  "each_value f xs = Inr r \<Longrightarrow> (\<And>x r. x \<in> set xs \<Longrightarrow> f x = Inr r \<Longrightarrow> issues_ok r) \<Longrightarrow> issues_ok r"
proof (induction xs arbitrary: r)
  case (Cons x xs)
  then obtain r1 r2 where f: "f x = Inr r1" "each_value f xs = Inr r2" "r = (fst r1 \<and> fst r2, snd r1 @ snd r2)"
    by (auto simp: res_bind_Inr_iff)
  have "issues_ok r1" by (rule Cons.prems(2) [OF _ f(1)]) simp
  moreover have "issues_ok r2" by (rule Cons.IH [OF f(2)]) (rule Cons.prems(2), simp_all)
  ultimately have "issues_ok r1" "issues_ok r2" .
  with f(3) show ?case by (simp add: issues_ok_def)
qed (auto simp: issues_ok_def)

lemma mismatch_issues: "mismatch path message = Inr r \<Longrightarrow> issues_ok r" "or_mismatch b path message = Inr r \<Longrightarrow> issues_ok r"
  by (auto simp: mismatch_def or_mismatch_def issues_ok_def split: if_splits)

lemma matches_array_issues:
  assumes "matches_array f xs s path = Inr r" "\<And>x s p r. x \<in> set xs \<Longrightarrow> f x s p = Inr r \<Longrightarrow> issues_ok r"
  shows "issues_ok r"
proof -
  from assms(1) consider "\<exists>message. mismatch path message = Inr r"
    | ps where "each_value (\<lambda>(i, x). f x (nullish (js_nth ps i) (rest_of s)) (path @ ''/'' @ show_nat i))
          (zip [0..<length xs] xs) = Inr r"
    by (auto simp: matches_array_def Let_def res_bind_Inr_iff split: if_splits)
  then show ?thesis
  proof cases
    case 2
    then show ?thesis by (rule each_value_issues) (auto dest: set_zip_rightD assms(2))
  qed (auto dest: mismatch_issues)
qed

lemma matches_object_issues:
  assumes "matches_object f kvs s path = Inr r" "\<And>q s p r. q \<in> set kvs \<Longrightarrow> f (snd q) s p = Inr r \<Longrightarrow> issues_ok r"
  shows "issues_ok r"
proof -
  from assms(1) obtain missing props r' where
    e: "each_value (\<lambda>(k, x). f x (property_schema props s k) (path @ json_pointer_segment k)) kvs = Inr r'"
    and r: "r = (missing = [] \<and> fst r', missing @ snd r')"
    by (force simp: matches_object_def res_bind_Inr_iff Let_def property_schema_def)
  from e have "issues_ok r'" by (rule each_value_issues) (auto simp: split_beta intro: assms(2))
  with r show ?thesis by (simp add: issues_ok_def)
qed

lemma matches_issues: "matches c v s seen path = Inr r \<Longrightarrow> issues_ok r"
proof (induction c v s seen path arbitrary: r rule: matches.induct)
  case (1 c v s seen path)
  note m = "1.prems" [unfolded matches.simps [of c v s seen path]]
  show ?case
  proof (cases "s = JBool True \<or> s = JBool False")
    case True
    with m show ?thesis by (auto simp: issues_ok_def mismatch_def)
  next
    case False
    then have s: "s \<noteq> JBool True" "s \<noteq> JBool False" by simp_all
    from m s obtain isRef where isRef: "is_ref s = Inr isRef" by (auto simp: res_bind_Inr_iff)
    show ?thesis
    proof (cases isRef)
      case True
      with m s isRef obtain ref where r: "ref_of s = Inr ref" by (auto simp: res_bind_Inr_iff)
      have "issues_ok r" if "ref \<notin> set seen" "resolve_ref c ref = Inr (Some t)" "matches c v t (js_add seen ref) path = Inr r" for t
        using "1.IH"(1) [OF s isRef True r that(1,2) refl that(3)] .
      with m s isRef True r show ?thesis
        by (auto simp: res_bind_Inr_iff dest: mismatch_issues split: if_splits option.splits)
    next
      case nref: False
      show ?thesis
      proof (cases "is_union s")
        case True
        with m s isRef nref show ?thesis
          by (auto simp: res_bind_Inr_iff issues_ok_def mismatch_def split: if_splits)
      next
        case nun: False
        show ?thesis
        proof (cases "is_const s \<or> is_enum s")
          case True
          with m s isRef nref nun show ?thesis
            by (auto simp: res_bind_Inr_iff dest: mismatch_issues split: if_splits)
        next
          case False
          then have nce: "\<not> is_const s" "\<not> is_enum s" by simp_all
          have arr: "issues_ok r"
            if "type_of s = Some ''array''" "is_array v"
              "matches_array (\<lambda>x s p. matches c x s [] p) (items_of v) s path = Inr r"
            using that(3)
            by (rule matches_array_issues) (use "1.IH"(3) [OF s isRef nref nun nce refl] that in simp)
          have obj: "issues_ok r"
            if "type_of s = Some ''object''" "is_object v"
              "matches_object (\<lambda>x s p. matches c x s [] p) (entries_of v) s path = Inr r"
            using that(3)
            by (rule matches_object_issues) (use "1.IH"(4) [OF s isRef nref nun nce refl] that in simp)
          show ?thesis
            using m s isRef nref nun nce arr obj by (auto simp: Let_def dest: mismatch_issues split: if_splits)
        qed
      qed
    qed
  qed
qed

text \<open>C32: Matching decides the declarative meaning of schemas: whenever it does not throw, a value is
  accepted exactly when it is valid under the least reading of references and unions, although the
  matcher gives up on a reference it is already in; and it reports issues exactly when it rejects.\<close>

theorem matching_exact:
  assumes "matches_json_schema c v s = Inr b"
  shows "b = valid True c v s \<and> (\<exists>issues. validate_json_schema c v s = Inr issues \<and> b = (issues = []))"
proof -
  obtain issues where m: "matches c v s [] [] = Inr (b, issues)"
    using assms by (auto simp: matches_json_schema_def res_bind_Inr_iff)
  from matches_avoids [OF this] matches_issues [OF this] m show ?thesis
    by (auto simp: validate_json_schema_def issues_ok_def avoids_iff_valid)
qed


definition demo_list_components :: components where
  "demo_list_components = Some [(''L'', JObj [(''anyOf'', JArr [JObj [(''type'', JStr ''null'')],
     JObj [(''type'', JStr ''object''),
       (''properties'', JObj [(''next'', JObj [(''$ref'', JStr ''#/components/schemas/L'')])]),
       (''required'', JArr [JStr ''next'']), (''additionalProperties'', JBool False)]])])]"

text \<open>One equation for each kind of schema, to evaluate the matcher by rewriting.\<close>

definition typed_as :: "json \<Rightarrow> string \<Rightarrow> bool" where
  "typed_as s t \<longleftrightarrow> \<not> is_bool s \<and> is_ref s = Inr False \<and> \<not> is_union s \<and> \<not> is_const s \<and> \<not> is_enum s \<and> type_of s = Some t"

lemma matches_equations:
  "matches c v (JBool b) seen path = (if b then Inr (True, []) else mismatch path ''No value is allowed'')"
  "is_ref s = Inr True \<Longrightarrow> ref_of s = Inr r \<Longrightarrow> matches c v s seen path =
    (if r \<in> set seen then mismatch path (''Unguarded recursive reference '' @ r)
     else res_bind (resolve_ref c r) (\<lambda>t. case t of
            None \<Rightarrow> mismatch path (''Unresolved reference '' @ r)
          | Some t \<Rightarrow> matches c v t (js_add seen r) path))"
  "is_ref s = Inr False \<Longrightarrow> is_union s \<Longrightarrow> branches s = Inr bs \<Longrightarrow> matches c v s seen path =
    res_bind (some_branch (\<lambda>branch. matches c v branch seen path) bs) (\<lambda>(ok, failures).
      if ok then Inr (True, []) else if failures \<noteq> [] then Inr (False, failures)
      else mismatch path ''No union branch accepts this value'')"
  "typed_as s ''object'' \<Longrightarrow>
    matches c (JObj kvs) s seen path = matches_object (\<lambda>x s p. matches c x s [] p) kvs s path"
  "typed_as s ''array'' \<Longrightarrow>
    matches c (JArr xs) s seen path = matches_array (\<lambda>x s p. matches c x s [] p) xs s path"
  "typed_as s ''null'' \<Longrightarrow> matches c v s seen path = or_mismatch (v = JNull) path ''Expected null''"
  "typed_as s ''string'' \<Longrightarrow> matches c v s seen path =
    or_mismatch (case v of JStr _ \<Rightarrow> True | _ \<Rightarrow> False) path ''Expected string''"
  "typed_as s ''object'' \<Longrightarrow> \<not> is_object v \<Longrightarrow> matches c v s seen path = mismatch path ''Expected object''"
  "typed_as s ''array'' \<Longrightarrow> \<not> is_array v \<Longrightarrow> matches c v s seen path = mismatch path ''Expected array''"
  by (subst matches.simps; cases s; auto simp: Let_def typed_as_def is_bool_def is_array_def is_object_def items_of_def entries_of_def; fail)+

text \<open>The definitions that read a schema.\<close>

lemmas schema_eval = typed_as_def is_bool_def is_ref_def in_schema_def is_union_def is_const_def is_enum_def
  type_of_def ref_of_def string_of_def branches_def array_of_def object_of_def string_list_def properties_of_def
  prefix_items_def additional_properties_def rest_of_def nullish_def resolve_ref_def component_schema_name_def
  component_prefix_def starts_with_def js_index_def js_nth_def Let_def json_pointer_segment_def escape_pointer_def
  replace_char_def is_object_def is_array_def matches_json_schema_def matches_object_def matches_array_def
  mismatch_def or_mismatch_def

theorem matching_exact_witness:
  "valid True demo_list_components (JObj [(''next'', JNull)]) (JObj [(''$ref'', JStr ''#/components/schemas/L'')]) \<and>
   \<not> valid True demo_list_components (JObj [(''next'', JStr ''x'')]) (JObj [(''$ref'', JStr ''#/components/schemas/L'')])"
proof -
  have "matches_json_schema demo_list_components (JObj [(''next'', JNull)])
      (JObj [(''$ref'', JStr ''#/components/schemas/L'')]) = Inr True"
    by (simp add: matches_equations schema_eval demo_list_components_def)
  moreover have "matches_json_schema demo_list_components (JObj [(''next'', JStr ''x'')])
      (JObj [(''$ref'', JStr ''#/components/schemas/L'')]) = Inr False"
    by (simp add: matches_equations schema_eval demo_list_components_def)
  ultimately show ?thesis using matching_exact by blast
qed

end
