(* ===== verification/Assignability.thy ===== *)
theory Assignability
  imports Matching
begin

text \<open>
  Assignability is sound: when the comparison of two schemas succeeds, every value of the first is a
  value of the second.  The comparison remembers the pairs it is in by text keys and takes a pair that
  comes back for granted; the proof is an induction over the size of the value and the references and
  unions that lead out of the two schemas, which \<open>SchemaRefs\<close> bounds.
\<close>

section \<open>JSON.stringify determines the value\<close>

lemma stringify_hd: "json_finite j \<Longrightarrow> json_stringify j \<noteq> [] \<and> kind_char j (hd (json_stringify j))"
proof (cases j)
  case (JNum n)
  assume "json_finite j"
  with JNum num_to_string_hd show ?thesis by (cases n) (auto simp: num_finite_def kind_char_def)
qed (auto simp: kind_char_def json_quote_def)

lemma stringify_not_stop: "json_finite j \<Longrightarrow> \<not> stops (json_stringify j @ r)"
  using stringify_hd [of j]
  by (auto simp: stops_def kind_char_def is_digit_def split: json.splits if_splits)

lemma stringify_kind:
  assumes "json_stringify a @ r = json_stringify b @ s" "json_finite a" "json_finite b"
  shows "kind_char a (hd (json_stringify b))" "kind_char b (hd (json_stringify b))"
proof -
  have "hd (json_stringify a) = hd (json_stringify b)"
    using assms stringify_hd [of a] stringify_hd [of b] by (metis hd_append2)
  with stringify_hd [OF assms(2)] stringify_hd [OF assms(3)]
  show "kind_char a (hd (json_stringify b))" "kind_char b (hd (json_stringify b))" by simp_all
qed

definition stringify_item :: "string \<times> json \<Rightarrow> string" where
  "stringify_item p = json_quote (fst p) @ CHR '':'' # json_stringify (snd p)"

lemma stringify_items: "map stringify_part (map (map_prod id json_stringify) kvs) = map stringify_item kvs"
  by (auto simp: stringify_part_def stringify_item_def)

lemma stringify_cancel:
  assumes "json_ok a" "json_finite a" "json_ok b" "json_finite b" "stops r" "stops s"
    "json_stringify a @ r = json_stringify b @ s"
  shows "a = b \<and> r = s"
  using assms
proof (induction a arbitrary: b r s)
  case JNull
  from stringify_kind [OF JNull.prems(7,2,4)] JNull.prems show ?case
    by (cases b) (auto simp: json_kind_simps split: if_splits)
next
  case (JBool v)
  from stringify_kind [OF JBool.prems(7,2,4)] JBool.prems show ?case
    by (cases b) (auto simp: json_kind_simps split: if_splits)
next
  case (JNum n)
  from stringify_kind [OF JNum.prems(7,2,4)] obtain k where b: "b = JNum k"
    by (cases b) (auto simp: json_kind_simps split: if_splits)
  from JNum.prems b obtain m e m' e' where n: "n = Dec m e" "k = Dec m' e'"
    by (auto simp: num_finite_def split: jsnum.splits)
  from num_cancel [of m e r m' e' s] num_to_string_inj [of n k] JNum.prems b n show ?case by simp
next
  case (JStr t)
  from stringify_kind [OF JStr.prems(7,2,4)] obtain u where b: "b = JStr u"
    by (cases b) (auto simp: json_kind_simps split: if_splits)
  from json_quote_cancel [of t r u s] JStr.prems b show ?case by simp
next
  case (JArr xs)
  from stringify_kind [OF JArr.prems(7,2,4)] obtain ys where b: "b = JArr ys"
    by (cases b) (auto simp: json_kind_simps split: if_splits)
  have "map id xs = map id ys \<and> r = s"
  proof (rule join_cancel [where enc = json_stringify and c = "CHR '']''"])
    show "js_join '','' (map json_stringify xs) @ CHR '']'' # r = js_join '','' (map json_stringify ys) @ CHR '']'' # s"
      using JArr.prems(7) by (simp add: b)
    show "\<not> stops (json_stringify x @ r)" if "x \<in> set xs \<union> set ys" for x r
      using that JArr.prems(2,4) by (auto simp: b list_all_iff dest!: stringify_not_stop)
    show "id x = id y \<and> r = s"
      if "x \<in> set xs" "y \<in> set ys" "stops r" "stops s" "json_stringify x @ r = json_stringify y @ s" for x y r s
      using JArr.IH [OF that(1), of y r s] that JArr.prems b by (auto simp: list_all_iff)
  qed simp
  with b show ?case by simp
next
  case (JObj kvs)
  from stringify_kind [OF JObj.prems(7,2,4)] obtain kvs' where b: "b = JObj kvs'"
    by (cases b) (auto simp: json_kind_simps split: if_splits)
  have "map id kvs = map id kvs' \<and> r = s"
  proof (rule join_cancel [where enc = stringify_item and c = "CHR ''}''"])
    show "js_join '','' (map stringify_item kvs) @ CHR ''}'' # r = js_join '','' (map stringify_item kvs') @ CHR ''}'' # s"
      using JObj.prems(7) by (simp add: b stringify_items del: map_map)
    show "\<not> stops (stringify_item p @ r)" for p r by (simp add: stringify_item_def json_quote_def stops_def)
    show "id p = id q \<and> r = s"
      if "p \<in> set kvs" "q \<in> set kvs'" "stops r" "stops s" "stringify_item p @ r = stringify_item q @ s" for p q r s
    proof -
      have "json_quote (fst p) @ (CHR '':'' # json_stringify (snd p) @ r) =
          json_quote (fst q) @ (CHR '':'' # json_stringify (snd q) @ s)"
        using that(5) by (simp add: stringify_item_def)
      from json_quote_cancel [OF this] have *: "fst p = fst q" "json_stringify (snd p) @ r = json_stringify (snd q) @ s"
        by auto
      from JObj.IH [of p "snd p" "snd q" r s] * that(1-4) JObj.prems(1-4) json_items [of p kvs] json_items [of q kvs']
      show ?thesis unfolding b by (cases p; cases q) simp
    qed
  qed simp
  with b show ?case by simp
qed

lemma stringify_inj:
  "json_ok a \<Longrightarrow> json_finite a \<Longrightarrow> json_ok b \<Longrightarrow> json_finite b \<Longrightarrow> json_stringify a = json_stringify b \<Longrightarrow> a = b"
  using stringify_cancel [of a b "[]" "[]"] by (simp add: stops_def)

section \<open>Structural equality is equality up to property order\<close>

primrec array_free :: "json \<Rightarrow> bool" where
  "array_free JNull = True"
| "array_free (JBool b) = True"
| "array_free (JNum n) = True"
| "array_free (JStr s) = True"
| "array_free (JArr xs) = False"
| "array_free (JObj kvs) = list_all snd (map (map_prod id array_free) kvs)"

lemma json_eq_simps:
  "json_eq JNull b \<longleftrightarrow> b = JNull" "json_eq (JBool x) b \<longleftrightarrow> b = JBool x" "json_eq (JStr t) b \<longleftrightarrow> b = JStr t"
  "json_eq (JNum m) b \<longleftrightarrow> (\<exists>n. b = JNum n \<and> num_eq m n)"
  "json_eq (JArr xs) b \<longleftrightarrow> (\<exists>ys. b = JArr ys \<and> length xs = length ys \<and> list_all (\<lambda>(x, y). json_eq x y) (zip xs ys))"
  "json_eq (JObj kvs) b \<longleftrightarrow> (is_object b \<or> is_array b) \<and> length kvs = length (entries_of b) \<and>
      list_all (\<lambda>(p, q). fst p = fst q \<and> json_eq (snd p) (snd q)) (zip (sort_key fst kvs) (sort_key fst (entries_of b)))"
  by (subst json_eq.simps; cases b; simp add: items_of_def is_array_def is_object_def entries_of_def; fail)+

lemma map_prod_eq: "map (map_prod id f) xs = map (map_prod id f) ys \<longleftrightarrow>
    length xs = length ys \<and> list_all (\<lambda>(p, q). fst p = fst q \<and> f (snd p) = f (snd q)) (zip xs ys)"
proof (induction xs arbitrary: ys)
  case (Cons x xs)
  then show ?case by (cases ys; cases x) (auto simp: map_prod_def split: prod.splits)
qed auto

lemma json_eq_jnorm:
  assumes "json_eq a b" "array_free b"
  shows "jnorm a = jnorm b"
  using assms
proof (induction a b rule: json_eq.induct)
  case (1 a b)
  show ?case
  proof (cases a)
    case (JArr xs)
    with "1.prems" show ?thesis by (auto simp: json_eq_simps)
  next
    case (JObj kvs)
    with "1.prems" obtain kvs' where b: "b = JObj kvs'"
      by (cases b) (auto simp: json_eq_simps is_array_def is_object_def)
    have e: "length kvs = length kvs'" "list_all (\<lambda>(p, q). fst p = fst q \<and> json_eq (snd p) (snd q))
        (zip (sort_key fst kvs) (sort_key fst kvs'))"
      using "1.prems"(1) JObj b by (simp_all add: json_eq_simps entries_of_def)
    have "list_all (\<lambda>(p, q). fst p = fst q \<and> jnorm (snd p) = jnorm (snd q)) (zip (sort_key fst kvs) (sort_key fst kvs'))"
      unfolding list_all_iff
    proof safe
      fix k x k' y assume z: "((k, x), k', y) \<in> set (zip (sort_key fst kvs) (sort_key fst kvs'))"
      with e(2) have *: "k = k'" "json_eq x y" by (auto simp: list_all_iff)
      then show "fst (k, x) = fst (k', y)" by simp
      have "(k', y) \<in> set kvs'" using z by (auto dest: set_zip_rightD)
      with "1.prems"(2) b have "array_free y" by (auto simp: list_all_iff)
      with "1.IH"(2) [OF JObj, of "((k, x), k', y)"] z * JObj b show "jnorm (snd (k, x)) = jnorm (snd (k', y))"
        by (auto simp: entries_of_def)
    qed
    with e(1) have "map (map_prod id jnorm) (sort_key fst kvs) = map (map_prod id jnorm) (sort_key fst kvs')"
      by (simp add: map_prod_eq)
    then show ?thesis by (simp add: JObj b sort_key_map_prod)
  qed (use "1.prems" in \<open>auto simp: json_eq_simps num_eq_def\<close>)
qed

lemma jnorm_json_eq: "jnorm a = jnorm b \<Longrightarrow> json_finite b \<Longrightarrow> json_eq a b"
proof (induction a b rule: json_eq.induct)
  case (1 a b)
  show ?case
  proof (cases a)
    case (JArr xs)
    with "1.prems" obtain ys where b: "b = JArr ys" "map jnorm xs = map jnorm ys" by (cases b) auto
    have "json_eq x y" if z: "(x, y) \<in> set (zip xs ys)" for x y
    proof -
      from z b have "y \<in> set ys" by (auto dest: set_zip_rightD)
      with "1.prems"(2) b have "json_finite y" by (auto simp: list_all_iff)
      moreover have "jnorm x = jnorm y" using z b(2) by (auto simp: set_zip list_eq_iff_nth_eq)
      ultimately show ?thesis using "1.IH"(1) [OF JArr, of "(x, y)"] z JArr b by (simp add: items_of_def)
    qed
    moreover have "length xs = length ys" using b(2) by (rule map_eq_imp_length_eq)
    ultimately show ?thesis by (auto simp: json_eq_simps JArr b list_all_iff)
  next
    case (JObj kvs)
    with "1.prems" obtain kvs' where b: "b = JObj kvs'"
        "map (map_prod id jnorm) (sort_key fst kvs) = map (map_prod id jnorm) (sort_key fst kvs')"
      by (cases b) (auto simp: sort_key_map_prod)
    then have l: "length kvs = length kvs'" "list_all (\<lambda>(p, q). fst p = fst q \<and> jnorm (snd p) = jnorm (snd q))
        (zip (sort_key fst kvs) (sort_key fst kvs'))"
      using b(2) by (simp_all only: map_prod_eq length_sort)
    have "json_eq (snd p) (snd q)" if z: "(p, q) \<in> set (zip (sort_key fst kvs) (sort_key fst kvs'))" for p q
    proof -
      from z have "q \<in> set kvs'" by (auto dest: set_zip_rightD)
      with "1.prems"(2) b have "json_finite (snd q)" using json_items(2) [of q kvs'] by simp
      moreover have "jnorm (snd p) = jnorm (snd q)" using z l(2) by (auto simp: list_all_iff)
      ultimately show ?thesis using "1.IH"(2) [OF JObj, of "(p, q)"] z JObj b by (auto simp: entries_of_def)
    qed
    with l show ?thesis
      by (fastforce simp: json_eq_simps JObj b entries_of_def is_object_def list_all_iff)
  qed (use "1.prems" in \<open>cases b; auto simp: json_eq_simps num_eq_def num_finite_def split: jsnum.splits; fail\<close>)+
qed

lemma jnorm_JArr_D: "jnorm v = jnorm (JArr xs) \<Longrightarrow> \<exists>ys. v = JArr ys \<and> length ys = length xs \<and> (\<forall>i<length xs. jnorm (ys ! i) = jnorm (xs ! i))"
  by (cases v) (simp_all add: list_eq_iff_nth_eq [of "map jnorm _" "map jnorm _"])

lemma jnorm_JObj_D:
  assumes "jnorm v = jnorm (JObj kvs)"
  shows "\<exists>kvs'. v = JObj kvs' \<and> map_prod id jnorm ` set kvs' = map_prod id jnorm ` set kvs"
proof -
  from assms obtain kvs' where v: "v = JObj kvs'"
      "sort_key fst (map (map_prod id jnorm) kvs') = sort_key fst (map (map_prod id jnorm) kvs)"
    by (cases v) auto
  from v(2) have "set (map (map_prod id jnorm) kvs') = set (map (map_prod id jnorm) kvs)" by (metis set_sort)
  with v(1) show ?thesis by simp
qed

text \<open>The literals of a schema hold no array: structural equality of the code takes an array for the
  object with its indices as names.\<close>

definition literals_of :: "json \<Rightarrow> json list" where
  "literals_of s = (case field ''const'' s of Some k \<Rightarrow> [k] | None \<Rightarrow> []) @
     (case field ''enum'' s of Some e \<Rightarrow> items_of e | None \<Rightarrow> [])"

section \<open>Schemas the comparison is sound for\<close>

text \<open>References stand alone and have no bar in their name, literals hold no array, and no property has
  the name of a property every object inherits: what the comparison gets wrong outside of these is shown
  below.\<close>

definition plain_schema :: "json \<Rightarrow> bool" where
  "plain_schema s \<longleftrightarrow> json_ok s \<and> json_finite s \<and>
     (case field ''$ref'' s of None \<Rightarrow> True
      | Some r \<Rightarrow> (case r of JStr t \<Rightarrow> CHR ''|'' \<notin> set t | _ \<Rightarrow> False) \<and> \<not> is_union s) \<and>
     list_all array_free (literals_of s) \<and>
     is_ok (string_list ''required'' s) \<and> is_ok (optional_items ''enum'' s) \<and>
     (case field ''properties'' s of Some (JObj ps) \<Rightarrow> list_all (\<lambda>p. fst p \<notin> set object_prototype) ps | _ \<Rightarrow> True)"

text \<open>A set of schemas closed under everything the code goes on to.\<close>

definition good_schemas :: "bool \<Rightarrow> (string \<times> json) list \<Rightarrow> json set \<Rightarrow> bool" where
  "good_schemas strict comps N \<longleftrightarrow> range JBool \<subseteq> N \<and> (\<forall>s\<in>N. plain_schema s \<and> (strict \<longrightarrow> field ''prefixItems'' s = None) \<and>
     (\<exists>n. guarded_in comps n s) \<and> (\<exists>its. node_items s = Inr its \<and> set its \<subseteq> N) \<and>
     (\<exists>es. node_edges comps s = Inr es \<and> set es \<subseteq> N))"

lemma plain_bool [simp]: "plain_schema (JBool b)"
  by (simp add: plain_schema_def field_def literals_of_def string_list_def nullish_def optional_items_def)

lemma good_bool: "good_schemas strict comps N \<Longrightarrow> JBool b \<in> N"
  by (auto simp: good_schemas_def)

lemma good_plain:
  assumes "good_schemas strict comps N" "s \<in> N"
  shows "json_ok s" "json_finite s" "\<forall>k\<in>set (literals_of s). array_free k" "is_ok (string_list ''required'' s)"
    "strict \<Longrightarrow> field ''prefixItems'' s = None" "\<exists>n. guarded_in comps n s" "\<exists>r. is_ref s = Inr r" "s \<noteq> JNull"
proof -
  from assms have p: "plain_schema s" "strict \<Longrightarrow> field ''prefixItems'' s = None" "\<exists>n. guarded_in comps n s"
      "\<exists>es. node_edges comps s = Inr es" by (auto simp: good_schemas_def)
  then show "json_ok s" "json_finite s" "\<forall>k\<in>set (literals_of s). array_free k" "is_ok (string_list ''required'' s)"
    "strict \<Longrightarrow> field ''prefixItems'' s = None" "\<exists>n. guarded_in comps n s"
    by (auto simp: plain_schema_def list_all_iff)
  from p(4) show "\<exists>r. is_ref s = Inr r" "s \<noteq> JNull"
    by (auto simp: node_edges_def ref_edges_def res_bind_Inr_iff is_ref_def in_schema_def)
qed

lemma field_finite: "json_finite s \<Longrightarrow> field k s = Some v \<Longrightarrow> json_finite v"
  using json_items(2) [of "(k, v)"] by (cases s) (auto simp: field_def dest: map_of_SomeD)

lemma field_wf: "json_ok s \<Longrightarrow> field k s = Some v \<Longrightarrow> json_ok v"
  using json_items(1) [of "(k, v)"] by (cases s) (auto simp: field_def dest: map_of_SomeD)

lemma good_literals:
  assumes "good_schemas strict comps N" "s \<in> N"
  shows "\<forall>k\<in>set (literals_of s). array_free k \<and> json_finite k"
proof -
  have "json_finite k" if "k \<in> set (literals_of s)" for k
    using that field_finite [OF good_plain(2) [OF assms], of "''const''"]
      field_finite [OF good_plain(2) [OF assms], of "''enum''" "JArr _", simplified]
    by (auto simp: literals_of_def items_of_def list_all_iff dest: sym split: option.splits json.splits)
  with good_plain(3) [OF assms] show ?thesis by blast
qed

lemma good_ref:
  assumes "good_schemas strict comps N" "s \<in> N" "is_ref s = Inr True"
  shows "\<exists>r t. ref_of s = Inr r \<and> CHR ''|'' \<notin> set r \<and> \<not> is_union s \<and> resolve_ref (Some comps) r = Inr (Some t) \<and> t \<in> N \<and>
    node_edges comps s = Inr [t]"
proof -
  from assms(1,2) obtain es where p: "plain_schema s" and es: "node_edges comps s = Inr es" "set es \<subseteq> N"
    by (auto simp: good_schemas_def)
  from is_ref_field [OF assms(3)] obtain y where y: "field ''$ref'' s = Some y" by auto
  with p obtain r where r: "field ''$ref'' s = Some (JStr r)" "CHR ''|'' \<notin> set r" "\<not> is_union s"
    by (cases y) (simp_all add: plain_schema_def)
  then have ref: "ref_of s = Inr r" by (simp add: ref_of_def string_of_def)
  with es(1) assms(3) obtain name t where t: "component_schema_name r = Inr name" "map_of comps name = Some t"
    by (auto simp: node_edges_def ref_edges_def res_bind_Inr_iff split: option.splits)
  then have "starts_with r component_prefix" by (auto simp: component_schema_name_def split: if_splits)
  with t have "resolve_ref (Some comps) r = Inr (Some t)" by (simp add: resolve_ref_def js_index_def)
  moreover have "es = [t]" using es(1) assms(3) ref t r(3)
    by (auto simp: node_edges_def ref_edges_def res_bind_Inr_iff optional_items_def is_union_def)
  ultimately show ?thesis using r ref es by auto
qed

lemma good_union:
  assumes "good_schemas strict comps N" "s \<in> N" "is_ref s = Inr False" "is_union s"
  shows "\<exists>bs es. branches s = Inr bs \<and> set bs \<subseteq> N \<and> node_edges comps s = Inr es \<and> set bs \<subseteq> set es"
proof -
  from assms(1,2) obtain es where es: "node_edges comps s = Inr es" "set es \<subseteq> N" by (auto simp: good_schemas_def)
  from es(1) obtain rs xs ys where "es = rs @ xs @ ys" "optional_items ''anyOf'' s = Inr xs" "optional_items ''oneOf'' s = Inr ys"
    by (auto simp: node_edges_def res_bind_Inr_iff)
  with assms(4) obtain bs where "branches s = Inr bs" "set bs \<subseteq> set es"
    by (cases "field ''anyOf'' s = None") (auto simp: optional_items_def is_union_def branches_def)
  with es show ?thesis by auto
qed

lemma good_array:
  assumes "good_schemas strict comps N" "s \<in> N" "type_of s = Some ''array''"
  shows "\<exists>ps. prefix_items s = Inr ps \<and> set ps \<subseteq> N \<and> (strict \<longrightarrow> ps = [])" "rest_of s \<in> N"
proof -
  from assms(1,2) obtain its where its: "node_items s = Inr its" "set its \<subseteq> N" and st: "strict \<Longrightarrow> field ''prefixItems'' s = None"
    by (auto simp: good_schemas_def)
  from assms(3) have ty: "field ''type'' s = Some (JStr ''array'')" by (auto simp: type_of_def split: option.splits json.splits)
  with its(1) obtain ps where ps: "optional_items ''prefixItems'' s = Inr ps"
      "its = ps @ (case field ''items'' s of None \<Rightarrow> [] | Some t \<Rightarrow> [t])"
    by (auto simp: node_items_def res_bind_Inr_iff)
  then have "prefix_items s = Inr ps" "strict \<Longrightarrow> ps = []" using st
    by (auto simp: prefix_items_def optional_items_def nullish_def array_of_def split: option.splits json.splits if_splits)
  with ps its(2) show "\<exists>ps. prefix_items s = Inr ps \<and> set ps \<subseteq> N \<and> (strict \<longrightarrow> ps = [])" by auto
  show "rest_of s \<in> N" using ps(2) its(2) good_bool [OF assms(1)] by (auto simp: rest_of_def split: option.splits)
qed

lemma good_object:
  assumes "good_schemas strict comps N" "s \<in> N" "type_of s = Some ''object''"
  shows "\<exists>props. properties_of s = Inr props \<and> snd ` set props \<subseteq> N \<and> distinct (map fst props) \<and>
      fst ` set props \<inter> set object_prototype = {}"
    "additional_properties s \<in> N"
proof -
  from assms(1,2) obtain its where its: "node_items s = Inr its" "set its \<subseteq> N" and p: "plain_schema s"
    by (auto simp: good_schemas_def)
  from assms(3) have ty: "field ''type'' s = Some (JStr ''object'')" by (auto simp: type_of_def split: option.splits json.splits)
  with its(1) obtain props where props: "properties_of s = Inr props" "its = map snd props @ [additional_properties s]"
    by (auto simp: node_items_def res_bind_Inr_iff)
  have "distinct (map fst props) \<and> fst ` set props \<inter> set object_prototype = {}"
  proof (cases "field ''properties'' s = Some (JObj props)")
    case True
    moreover have "json_ok s" using p by (simp add: plain_schema_def)
    ultimately have "json_ok (JObj props)" by (rule field_wf [rotated])
    with True p show ?thesis by (auto simp: plain_schema_def list_all_iff)
  next
    case False
    with props(1) have "props = []"
      by (auto simp: properties_of_def nullish_def object_of_def split: option.splits json.splits)
    then show ?thesis by simp
  qed
  with props its(2) show "\<exists>props. properties_of s = Inr props \<and> snd ` set props \<subseteq> N \<and> distinct (map fst props) \<and>
      fst ` set props \<inter> set object_prototype = {}" "additional_properties s \<in> N"
    by auto
qed


lemma nullish_Some: "v \<noteq> JNull \<Longrightarrow> nullish (Some v) b = v"
  by (cases v) (simp_all add: nullish_def)

lemma good_item:
  assumes "good_schemas strict comps N" "s \<in> N" "type_of s = Some ''array''" "prefix_items s = Inr ps"
  shows "nullish (js_nth ps i) (rest_of s) \<in> N" "i < length ps \<Longrightarrow> nullish (js_nth ps i) (rest_of s) = ps ! i"
proof -
  have ps: "set ps \<subseteq> N" "rest_of s \<in> N" using good_array [OF assms(1-3)] assms(4) by auto
  have "ps ! i \<in> N \<and> ps ! i \<noteq> JNull" if "i < length ps"
    using ps(1) nth_mem [OF that] good_plain(8) [OF assms(1)] by blast
  then show "nullish (js_nth ps i) (rest_of s) \<in> N" "i < length ps \<Longrightarrow> nullish (js_nth ps i) (rest_of s) = ps ! i"
    using ps(2) by (simp_all add: js_nth_def nullish_Some nullish_def [of None])
qed

lemma good_property:
  "good_schemas strict comps N \<Longrightarrow> s \<in> N \<Longrightarrow> type_of s = Some ''object'' \<Longrightarrow> properties_of s = Inr props \<Longrightarrow>
    property_schema props s k \<in> N"
  using good_object [of strict comps N s]
  by (force simp: property_schema_def dest: map_of_SomeD split: option.split)

section \<open>Validity does not see property order\<close>

lemma typed_ok_cong:
  assumes "typed_ok strict R e s" "jnorm v = jnorm e" "good_schemas st comps N" "s \<in> N"
    "\<And>x y t. size x < size e \<Longrightarrow> jnorm y = jnorm x \<Longrightarrow> t \<in> N \<Longrightarrow> R x t \<Longrightarrow> R' y t"
  shows "typed_ok strict R' v s"
proof (cases e)
  case (JArr xs)
  with assms(2) obtain ys where v: "v = JArr ys" "length ys = length xs" "\<forall>i<length xs. jnorm (ys ! i) = jnorm (xs ! i)"
    using jnorm_JArr_D by blast
  have "R (xs ! i) t \<Longrightarrow> R' (ys ! i) t" if "i < length xs" "t \<in> N" for i t
    using assms(5) [of "xs ! i" "ys ! i"] v(3) that size_items [of "xs ! i" e] JArr by (simp add: items_of_def)
  then have "array_ok strict R xs s \<Longrightarrow> array_ok strict R' ys s" if "type_of s = Some ''array''"
    using v(2) good_item(1) [OF assms(3,4) that] unfolding array_ok_def by auto
  with assms(1) v(1) JArr show ?thesis
    by (auto simp: typed_ok_def Let_def is_array_def items_of_def is_object_def split: if_splits)
next
  case (JObj kvs)
  with assms(2) have "jnorm v = jnorm (JObj kvs)" by simp
  from jnorm_JObj_D [OF this] obtain kvs' where
    v: "v = JObj kvs'" "map_prod id jnorm ` set kvs' = map_prod id jnorm ` set kvs" by (elim exE conjE)
  have keys: "fst ` set kvs' = fst ` set kvs" using arg_cong [OF v(2), of "image fst"] by (simp add: image_image)
  have step: "R' (snd q) (f (fst q))" if "\<forall>p\<in>set kvs. R (snd p) (f (fst p))" "q \<in> set kvs'" "\<And>k. f k \<in> N" for q f
  proof -
    from that(2) have "map_prod id jnorm q \<in> map_prod id jnorm ` set kvs" unfolding v(2) [symmetric] by (rule imageI)
    then obtain p where p: "p \<in> set kvs" "map_prod id jnorm q = map_prod id jnorm p" by (rule imageE) simp
    from arg_cong [OF p(2), of fst] arg_cong [OF p(2), of snd] have "fst q = fst p" "jnorm (snd q) = jnorm (snd p)" by simp_all
    with assms(5) [of "snd p" "snd q"] that(1,3) p(1) size_entries [of p e] JObj show ?thesis
      by (simp add: entries_of_def)
  qed
  have "object_ok R' kvs' s" if ok: "object_ok R kvs s" and ty: "type_of s = Some ''object''"
  proof -
    from ok obtain required props where r: "string_list ''required'' s = Inr required" "properties_of s = Inr props"
        "set required \<subseteq> fst ` set kvs" "\<forall>p\<in>set kvs. R (snd p) (property_schema props s (fst p))"
      by (auto simp: object_ok_def)
    from step [OF r(4) _ good_property [OF assms(3,4) ty r(2)]] have "\<forall>q\<in>set kvs'. R' (snd q) (property_schema props s (fst q))" by blast
    with r(1-3) keys show ?thesis by (simp add: object_ok_def)
  qed
  with assms(1) v(1) JObj show ?thesis
    by (auto simp: typed_ok_def Let_def is_object_def entries_of_def is_array_def split: if_splits)
qed (use assms(1,2) in \<open>cases v; auto simp: typed_ok_def Let_def is_object_def is_array_def split: if_splits\<close>)+

lemma local_ok_cong:
  assumes "local_ok strict R e s" "jnorm v = jnorm e" "good_schemas st comps N" "s \<in> N"
    "\<And>x y t. size x < size e \<Longrightarrow> jnorm y = jnorm x \<Longrightarrow> t \<in> N \<Longrightarrow> R x t \<Longrightarrow> R' y t"
  shows "local_ok strict R' v s"
proof -
  have eq: "json_eq v k" if "json_eq e k" "k \<in> set (literals_of s)" for k
    using that assms(2) good_literals [OF assms(3,4)] json_eq_jnorm [of e k] jnorm_json_eq [of v k] by auto
  have "json_eq e (the (field ''const'' s)) \<Longrightarrow> is_const s \<Longrightarrow> json_eq v (the (field ''const'' s))"
    using eq by (auto simp: literals_of_def is_const_def)
  moreover have "array_of (field ''enum'' s) = Inr es \<Longrightarrow> list_ex (\<lambda>k. json_eq e k) es \<Longrightarrow> list_ex (\<lambda>k. json_eq v k) es" for es
    using eq by (auto simp: literals_of_def array_of_def list_ex_iff items_of_def split: option.splits json.splits)
  moreover have "typed_ok strict R e s \<Longrightarrow> typed_ok strict R' v s" using typed_ok_cong [OF _ assms(2-5)] .
  ultimately show ?thesis using assms(1) by (auto simp: local_ok_def split: if_splits)
qed

lemma valid_cong:
  assumes "good_schemas st comps N" "valid strict (Some comps) e s" "s \<in> N" "jnorm v = jnorm e"
  shows "valid strict (Some comps) v s"
proof -
  from assms(2) obtain n where "valid_in strict (Some comps) n e s" by (auto simp: valid_def)
  from this assms(3,4) show ?thesis
  proof (induction arbitrary: v)
    case (here e s n)
    show ?case
    proof (rule valid_here, rule local_ok_cong [OF here(1,3) assms(1) here(2)])
      fix x y t
      assume "jnorm y = jnorm x" "t \<in> N" "\<exists>n. valid_in strict (Some comps) n x t \<and> (t \<in> N \<longrightarrow> (\<forall>v. jnorm v = jnorm x \<longrightarrow> valid strict (Some comps) v t))"
      then show "valid strict (Some comps) y t" by blast
    qed
  next
    case (ref s r t n e)
    then have "t \<in> N" using good_ref [OF assms(1) ref.prems(1) ref.hyps(2)] by auto
    with ref show ?case by (blast intro: valid_ref)
  next
    case (union s bs b n e)
    then have "b \<in> N" using good_union [OF assms(1) union.prems(1) union.hyps(1,2)] by auto
    with union show ?case by (blast intro: valid_union)
  qed
qed

lemma valid_lenient: "valid True c v s \<Longrightarrow> valid strict c v s"
proof -
  assume "valid True c v s"
  then obtain n where "valid_in True c n v s" by (auto simp: valid_def)
  then show ?thesis
  proof induction
    case (here v s n)
    then have "local_ok True (valid strict c) v s" by (rule local_ok_mono) blast
    then have "local_ok strict (valid strict c) v s"
      by (auto simp: local_ok_def typed_ok_def array_ok_def Let_def split: if_splits)
    then show ?case by (rule valid_here)
  qed (auto intro: valid_ref valid_union)
qed

lemma valid_simps:
  "valid strict c v (JBool b) \<longleftrightarrow> b"
  "is_ref s = Inr True \<Longrightarrow> ref_of s = Inr r \<Longrightarrow> resolve_ref c r = Inr (Some t) \<Longrightarrow> valid strict c v s \<longleftrightarrow> valid strict c v t"
  "is_ref s = Inr False \<Longrightarrow> is_union s \<Longrightarrow> branches s = Inr bs \<Longrightarrow> valid strict c v s \<longleftrightarrow> (\<exists>b\<in>set bs. valid strict c v b)"
  "is_ref s = Inr False \<Longrightarrow> \<not> is_union s \<Longrightarrow> valid strict c v s \<longleftrightarrow> local_ok strict (valid strict c) v s"
proof -
  have inv: "local_ok strict (valid strict c) v s \<or>
      (\<exists>r t. s \<noteq> JBool True \<and> is_ref s = Inr True \<and> ref_of s = Inr r \<and> resolve_ref c r = Inr (Some t) \<and> valid strict c v t) \<or>
      (\<exists>bs b. is_ref s = Inr False \<and> is_union s \<and> branches s = Inr bs \<and> b \<in> set bs \<and> valid strict c v b)"
    if "valid strict c v s" for s
  proof -
    from that obtain n where "valid_in strict c n v s" by (auto simp: valid_def)
    then show ?thesis
    proof (cases rule: valid_in.cases)
      case here
      then have "local_ok strict (valid strict c) v s" by (rule local_ok_mono) (simp add: valid_def)
      then show ?thesis ..
    qed (auto simp: valid_def)
  qed
  note intros = valid_here valid_ref valid_union
  show "valid strict c v (JBool b) \<longleftrightarrow> b" using inv [of "JBool b"] intros(1) [of strict c v "JBool b"] by (auto simp: local_ok_def)
  show "is_ref s = Inr True \<Longrightarrow> ref_of s = Inr r \<Longrightarrow> resolve_ref c r = Inr (Some t) \<Longrightarrow> valid strict c v s \<longleftrightarrow> valid strict c v t"
    using inv [of s] intros(2) [of s r c t strict v] by (cases "s = JBool True") (auto simp: local_ok_def)
  show "is_ref s = Inr False \<Longrightarrow> is_union s \<Longrightarrow> branches s = Inr bs \<Longrightarrow> valid strict c v s \<longleftrightarrow> (\<exists>b\<in>set bs. valid strict c v b)"
    using inv [of s] intros(3) [of s bs _ strict c v] by (auto simp: local_ok_def)
  show "is_ref s = Inr False \<Longrightarrow> \<not> is_union s \<Longrightarrow> valid strict c v s \<longleftrightarrow> local_ok strict (valid strict c) v s"
    using inv [of s] intros(1) [of strict c v s] by auto
qed


section \<open>The memory of the comparison\<close>

text \<open>The key under which a pair is remembered, and when two schemas have the same key.\<close>

definition memo_key :: "json \<Rightarrow> json \<Rightarrow> string res" where
  "memo_key a b = res_bind (is_ref a) (\<lambda>r.
     if r then res_bind (ref_of a) (\<lambda>ref. res_bind (key_of b) (\<lambda>key. Inr (''S:'' @ ref @ ''|'' @ key)))
     else res_bind (key_of a) (\<lambda>key. res_bind (ref_of b) (\<lambda>ref. Inr (key @ ''|T:'' @ ref))))"

definition same_schema :: "json \<Rightarrow> json \<Rightarrow> bool" where
  "same_schema a b \<longleftrightarrow> a = b \<or> (is_ref a = Inr True \<and> is_ref b = Inr True \<and> ref_of a = ref_of b)"

definition key_text :: "json \<Rightarrow> string" where
  "key_text s = (if is_ref s = Inr True then ''R:'' @ (case ref_of s of Inr r \<Rightarrow> r | Inl _ \<Rightarrow> []) else json_stringify s)"

lemma key_of_text:
  assumes "good_schemas strict comps N" "s \<in> N" "key_of s = Inr k"
  shows "k = key_text s"
  using assms(3) good_plain(7) [OF assms(1,2)]
  by (cases s) (auto simp: key_of_def key_text_def res_bind_Inr_iff split: if_splits)

lemma key_text_hd:
  assumes "good_schemas strict comps N" "s \<in> N"
  shows "key_text s \<noteq> []" "is_ref s = Inr True \<longleftrightarrow> hd (key_text s) = CHR ''R''" "hd (key_text s) \<noteq> CHR ''S''"
  using good_plain(7) [OF assms]
  by (cases s; auto simp: key_text_def is_ref_def in_schema_def; fail)+

lemma key_text_inj:
  assumes "good_schemas strict comps N" "a \<in> N" "b \<in> N" "key_text a = key_text b"
  shows "same_schema a b"
proof (cases "is_ref a = Inr True")
  case True
  with assms have "is_ref b = Inr True" using key_text_hd(2) by metis
  with True assms show ?thesis
    using good_ref [OF assms(1,2)] good_ref [OF assms(1,3)] by (auto simp: same_schema_def key_text_def)
next
  case False
  with assms have "is_ref b \<noteq> Inr True" using key_text_hd(2) by metis
  with False assms(4) have "json_stringify a = json_stringify b" by (simp add: key_text_def)
  with stringify_inj show ?thesis
    using good_plain(1,2) [OF assms(1,2)] good_plain(1,2) [OF assms(1,3)] by (auto simp: same_schema_def)
qed

lemma span_unique:
  assumes "p @ CHR ''|'' # x = q @ CHR ''|'' # y" "CHR ''|'' \<notin> set p" "CHR ''|'' \<notin> set q"
  shows "p = q \<and> x = y"
proof -
  have "takeWhile (\<lambda>c. c \<noteq> CHR ''|'') (p @ CHR ''|'' # x) = p" "takeWhile (\<lambda>c. c \<noteq> CHR ''|'') (q @ CHR ''|'' # y) = q"
    using assms(2,3) by (intro takeWhile_span; auto)+
  with assms(1) show ?thesis by auto
qed

lemma memo_key_inj:
  assumes "good_schemas strict comps N" "a \<in> N" "b \<in> N" "a' \<in> N" "b' \<in> N"
    "memo_key a b = Inr k" "memo_key a' b' = Inr k"
    "is_ref a \<noteq> Inr True \<Longrightarrow> is_ref b = Inr True" "is_ref a' \<noteq> Inr True \<Longrightarrow> is_ref b' = Inr True"
  shows "same_schema a a' \<and> same_schema b b'"
proof -
  note g = assms(1)
  have k: "k = (if is_ref x = Inr True then ''S:'' @ projr (ref_of x) @ CHR ''|'' # key_text y
       else key_text x @ ''|T:'' @ projr (ref_of y))" if "memo_key x y = Inr k" "x \<in> N" "y \<in> N" for x y
    using that key_of_text [OF g] good_plain(7) [OF g that(2)] by (auto simp: memo_key_def res_bind_Inr_iff)
  have bar: "CHR ''|'' \<notin> set (projr (ref_of x))" if "is_ref x = Inr True" "x \<in> N" for x
    using good_ref [OF g that(2,1)] by auto
  note k1 = k [OF assms(6,2,3)] and k2 = k [OF assms(7,4,5)]
  show ?thesis
  proof (cases "is_ref a = Inr True"; cases "is_ref a' = Inr True")
    assume r: "is_ref a = Inr True" "is_ref a' = Inr True"
    with k1 k2 have "projr (ref_of a) @ CHR ''|'' # key_text b = projr (ref_of a') @ CHR ''|'' # key_text b'" by simp
    from span_unique [OF this bar [OF r(1) assms(2)] bar [OF r(2) assms(4)]]
    have "projr (ref_of a) = projr (ref_of a')" "key_text b = key_text b'" by auto
    with r show ?thesis
      using key_text_inj [OF g assms(3,5)] good_ref [OF g assms(2) r(1)] good_ref [OF g assms(4) r(2)]
      by (auto simp: same_schema_def)
  next
    assume r: "is_ref a \<noteq> Inr True" "is_ref a' \<noteq> Inr True"
    then have rb: "is_ref b = Inr True" "is_ref b' = Inr True" using assms(8,9) by auto
    from r k1 k2 have "key_text a @ ''|T:'' @ projr (ref_of b) = key_text a' @ ''|T:'' @ projr (ref_of b')" by simp
    then have "rev (projr (ref_of b)) @ CHR '':'' # CHR ''T'' # CHR ''|'' # rev (key_text a) =
        rev (projr (ref_of b')) @ CHR '':'' # CHR ''T'' # CHR ''|'' # rev (key_text a')"
      by (metis (no_types) append.assoc append_Cons append_Nil rev.simps(2) rev_append)
    then have "(rev (projr (ref_of b)) @ '':T'') @ CHR ''|'' # rev (key_text a) =
        (rev (projr (ref_of b')) @ '':T'') @ CHR ''|'' # rev (key_text a')" by simp
    from span_unique [OF this] bar [OF rb(1) assms(3)] bar [OF rb(2) assms(5)]
    have "projr (ref_of b) = projr (ref_of b')" "key_text a = key_text a'" by auto
    with rb show ?thesis
      using key_text_inj [OF g assms(2,4)] good_ref [OF g assms(3) rb(1)] good_ref [OF g assms(5) rb(2)]
      by (auto simp: same_schema_def)
  next
    assume "is_ref a = Inr True" "is_ref a' \<noteq> Inr True"
    with k1 k2 key_text_hd(1,3) [OF g assms(4)] show ?thesis by (cases "key_text a'") auto
  next
    assume "is_ref a \<noteq> Inr True" "is_ref a' = Inr True"
    with k1 k2 key_text_hd(1,3) [OF g assms(2)] show ?thesis by (cases "key_text a") auto
  qed
qed

lemma same_schema_guarded:
  assumes "good_schemas strict comps N" "a \<in> N" "b \<in> N" "same_schema a b"
  shows "guarded_in comps n a = guarded_in comps n b" "valid st (Some comps) v a = valid st (Some comps) v b"
proof -
  have "a = b \<or> node_edges comps a = node_edges comps b \<and> valid st (Some comps) v a = valid st (Some comps) v b"
    using assms good_ref [OF assms(1,2)] good_ref [OF assms(1,3)] valid_simps(2)
    by (fastforce simp: same_schema_def)
  then show "guarded_in comps n a = guarded_in comps n b" "valid st (Some comps) v a = valid st (Some comps) v b"
    by (cases n; auto)+
qed


section \<open>One step of the comparison\<close>

lemma bottom_sound:
  assumes "good_schemas strict comps N"
  shows "is_bottom (Some comps) s seen = Inr True \<Longrightarrow> s \<in> N \<Longrightarrow> \<not> valid st (Some comps) v s"
proof (induction "Some comps" s seen rule: is_bottom.induct)
  case (1 s seen)
  note b = "1.prems"(1) [unfolded is_bottom.simps [of _ s seen]]
  show ?case
  proof (cases "s = JBool True \<or> s = JBool False")
    case True
    with b show ?thesis by (auto simp: valid_simps)
  next
    case False
    then have s: "s \<noteq> JBool False" "s \<noteq> JBool True" by simp_all
    obtain isRef where r: "is_ref s = Inr isRef" using good_plain(7) [OF assms "1.prems"(2)] by blast
    show ?thesis
    proof (cases isRef)
      case True
      with good_ref [OF assms "1.prems"(2)] r obtain ref t where
        ref: "ref_of s = Inr ref" "resolve_ref (Some comps) ref = Inr (Some t)" "t \<in> N" by auto
      with b s r True have nk: "''B:'' @ ref \<notin> set seen" "truthy_schema (Some t) = Some t"
          "is_bottom (Some comps) t (js_add seen (''B:'' @ ref)) = Inr True"
        by (auto simp: Let_def truthy_schema_def split: if_splits)
      from "1.hyps"(1) [OF s r True ref(1) refl nk(1) ref(2) nk(2,3) ref(3)]
      show ?thesis using valid_simps(2) [of s ref "Some comps" t] r True ref by simp
    next
      case nref: False
      show ?thesis
      proof (cases "is_union s")
        case True
        with good_union [OF assms "1.prems"(2)] r nref obtain bs where bs: "branches s = Inr bs" "set bs \<subseteq> N" by auto
        with b s r nref True have "\<forall>t\<in>set bs. is_bottom (Some comps) t seen = Inr True"
          by (simp add: res_every_True_iff)
        with "1.hyps"(2) [OF s r nref True bs(1)] bs(2) have "\<forall>t\<in>set bs. \<not> valid st (Some comps) v t" by blast
        with valid_simps(3) [of s bs st] r nref True bs show ?thesis by simp
      next
        case False
        with b s r nref show ?thesis by simp
      qed
    qed
  qed
qed

lemma array_sound:
  assumes g: "good_schemas strict comps N" "a \<in> N" "b \<in> N" "type_of a = Some ''array''" "type_of b = Some ''array''"
    and c: "check_array_like f a b = Inr True" and ok: "array_ok strict (valid strict (Some comps)) xs a"
    and f: "\<And>x y w. f x y = Inr True \<Longrightarrow> x \<in> N \<inter> parts a \<Longrightarrow> y \<in> N \<inter> parts b \<Longrightarrow> w \<in> set xs \<Longrightarrow> valid strict (Some comps) w x \<Longrightarrow> valid strict (Some comps) w y"
  shows "array_ok strict (valid strict (Some comps)) xs b"
proof -
  obtain as bs where p: "prefix_items a = Inr as" "prefix_items b = Inr bs" "strict \<longrightarrow> bs = []"
    using good_array(1) [OF g(1,2,4)] good_array(1) [OF g(1,3,5)] by auto
  let ?A = "\<lambda>i. nullish (js_nth as i) (rest_of a)" and ?B = "\<lambda>i. nullish (js_nth bs i) (rest_of b)"
  have val: "valid strict (Some comps) (xs ! i) (?A i)" if "i < length xs" for i using ok p(1) that by (auto simp: array_ok_def)
  from c p have loop: "if ?A i = JBool False then ?B i = JBool False \<or> ?B i = JBool True else ?B i \<noteq> JBool False \<and> f (?A i) (?B i) = Inr True"
    if "i < max (length as) (length bs)" for i
    using that by (fastforce simp: check_array_like_def Let_def res_bind_Inr_iff res_every_True_iff split: if_splits)
  from c p have rest: "rest_of a = JBool False \<or> rest_of b \<noteq> JBool False \<and> f (rest_of a) (rest_of b) = Inr True"
    by (auto simp: check_array_like_def Let_def res_bind_Inr_iff split: if_splits)
  have "?B i \<noteq> JBool False \<and> valid strict (Some comps) (xs ! i) (?B i)" if i: "i < length xs" for i
  proof -
    have nf: "?A i \<noteq> JBool False" using val [OF i] by (auto simp: valid_simps)
    have "?B i \<noteq> JBool False \<and> f (?A i) (?B i) = Inr True"
    proof (cases "i < max (length as) (length bs)")
      case True
      with loop [OF True] nf show ?thesis by auto
    next
      case False
      then have "\<not> i < length as" "\<not> i < length bs" by auto
      then have "?A i = rest_of a" "?B i = rest_of b" by (simp_all add: js_nth_def nullish_def)
      with rest nf show ?thesis by auto
    qed
    with f [of "?A i" "?B i" "xs ! i"] val [OF i] good_item(1) [OF g(1,2,4) p(1)] good_item(1) [OF g(1,3,5) p(2)] i
      item_part [OF p(1) refl] item_part [OF p(2) refl]
    show ?thesis by simp
  qed
  moreover have "length xs \<le> length bs" if "rest_of b = JBool False"
  proof (rule ccontr)
    assume "\<not> length xs \<le> length bs"
    then have "length bs < length xs" by simp
    with calculation [of "length bs"] that show False by (simp add: js_nth_def nullish_def)
  qed
  ultimately show ?thesis using p by (auto simp: array_ok_def)
qed

lemma schema_part: "properties_of s = Inr props \<Longrightarrow> property_schema props s k \<in> parts s"
  using property_part [of s props "(k, _)"] additional_part [of s]
  by (auto simp: property_schema_def dest: map_of_SomeD split: option.split)

lemma object_sound:
  assumes g: "good_schemas strict comps N" "a \<in> N" "b \<in> N" "type_of a = Some ''object''" "type_of b = Some ''object''"
    and c: "check_object f a b = Inr True" and ok: "object_ok (valid strict (Some comps)) kvs a"
    and f: "\<And>x y p. f x y = Inr True \<Longrightarrow> x \<in> N \<inter> parts a \<Longrightarrow> y \<in> N \<inter> parts b \<Longrightarrow> p \<in> set kvs \<Longrightarrow>
      valid strict (Some comps) (snd p) x \<Longrightarrow> valid strict (Some comps) (snd p) y"
  shows "object_ok (valid strict (Some comps)) kvs b"
proof -
  obtain as bs where p: "properties_of a = Inr as" "properties_of b = Inr bs" "snd ` set as \<subseteq> N" "snd ` set bs \<subseteq> N"
      "fst ` set as \<inter> set object_prototype = {}" "fst ` set bs \<inter> set object_prototype = {}"
    using good_object(1) [OF g(1,2,4)] good_object(1) [OF g(1,3,5)] by auto
  obtain ra where ra: "string_list ''required'' a = Inr ra" "set ra \<subseteq> fst ` set kvs"
    and val: "\<And>q. q \<in> set kvs \<Longrightarrow> valid strict (Some comps) (snd q) (property_schema as a (fst q))"
    using ok p(1) by (auto simp: object_ok_def)
  let ?A = "\<lambda>k. nullish (js_index as k) (additional_properties a)"
  define A where "A k = ?A k" for k
  then have A: "?A k = A k" for k by simp
  from c [unfolded check_object_def Let_def] p ra(1) obtain rb where rb: "string_list ''required'' b = Inr rb" "set rb \<subseteq> set ra"
    and loops: "res_every (\<lambda>(k, t). if A k = JBool False then Inr (k \<notin> set rb) else f (A k) t) bs = Inr True"
      "res_every (\<lambda>(k, t). if js_in k bs then Inr True else if additional_properties b = JBool False then Inr False
         else f t (additional_properties b)) as = Inr True"
    and rest: "additional_properties a = JBool False \<or> additional_properties b \<noteq> JBool False \<and>
        f (additional_properties a) (additional_properties b) = Inr True"
    by (auto simp: A res_bind_Inr_iff list_all_iff subset_iff cong: if_cong split: if_splits)
  have sub: "f (?A k) t = Inr True" if "(k, t) \<in> set bs" "?A k \<noteq> JBool False" for k t
    using bspec [OF loops(1) [unfolded res_every_True_iff] that(1)] that(2) by (simp add: A)
  have super: "additional_properties b \<noteq> JBool False \<and> f t (additional_properties b) = Inr True"
    if "(k, t) \<in> set as" "\<not> js_in k bs" for k t
    using bspec [OF loops(2) [unfolded res_every_True_iff] that(1)] that(2) by (simp split: if_splits)
  have "valid strict (Some comps) (snd q) (property_schema bs b (fst q))" if q: "q \<in> set kvs" for q
  proof -
    let ?k = "fst q"
    have nf: "property_schema as a ?k \<noteq> JBool False" using val [OF q] by (auto simp: valid_simps)
    have "f (property_schema as a ?k) (property_schema bs b ?k) = Inr True"
    proof (cases "map_of bs ?k")
      case (Some t)
      then have t: "(?k, t) \<in> set bs" by (rule map_of_SomeD)
      then have "?k \<notin> set object_prototype" using p(6) by force
      moreover have "nullish (Some u) (additional_properties a) = u" if "map_of as ?k = Some u" for u
      proof -
        have "u \<in> N" using p(3) map_of_SomeD [OF that] by force
        then show ?thesis using good_plain(8) [OF g(1)] by (metis nullish_Some)
      qed
      ultimately have "?A ?k = property_schema as a ?k"
        by (auto simp: js_index_def property_schema_def nullish_def [of None] split: option.split)
      with sub [OF t] nf Some show ?thesis by (simp add: property_schema_def [of bs])
    next
      case None
      show ?thesis
      proof (cases "map_of as ?k")
        case (Some u)
        then have u: "(?k, u) \<in> set as" by (rule map_of_SomeD)
        then have "?k \<notin> set object_prototype" using p(5) by force
        with None have "\<not> js_in ?k bs" by (auto simp: js_in_def map_of_eq_None_iff)
        with super [OF u] Some None show ?thesis by (simp add: property_schema_def)
      next
        case None': None
        with rest nf None show ?thesis by (auto simp: property_schema_def)
      qed
    qed
    from f [OF this IntI [OF good_property [OF g(1,2,4) p(1)] schema_part [OF p(1)]]
        IntI [OF good_property [OF g(1,3,5) p(2)] schema_part [OF p(2)]] q val [OF q]]
    show ?thesis .
  qed
  with p(2) ra(2) rb show ?thesis by (auto simp: object_ok_def)
qed


section \<open>The comparison is sound\<close>

text \<open>Positions in the induction: the size of the value, then the references and unions still ahead.\<close>

definition before :: "nat \<times> nat \<Rightarrow> nat \<times> nat \<Rightarrow> bool" where
  "before n m \<longleftrightarrow> fst n < fst m \<or> fst n = fst m \<and> snd n < snd m"

lemma before_trans: "before k n \<Longrightarrow> before n m \<or> n = m \<Longrightarrow> before k m"
  by (auto simp: before_def)

lemma before_induct: "(\<And>m. (\<And>n. before n m \<Longrightarrow> P n) \<Longrightarrow> P m) \<Longrightarrow> P m"
proof -
  assume step: "\<And>m. (\<And>n. before n m \<Longrightarrow> P n) \<Longrightarrow> P m"
  have "wf (less_than <*lex*> less_than)" by (intro wf_lex_prod wf_less_than)
  then show "P m" by (rule wf_induct_rule) (rule step, auto simp: before_def)
qed

text \<open>At position \<open>n\<close>, and at every position up to \<open>m\<close>, the values of \<open>a\<close> are values of \<open>b\<close>.\<close>

definition sound_at :: "bool \<Rightarrow> (string \<times> json) list \<Rightarrow> nat \<times> nat \<Rightarrow> json \<Rightarrow> json \<Rightarrow> bool" where
  "sound_at strict comps n a b \<longleftrightarrow> (\<forall>v i j. guarded_in comps i a \<longrightarrow> guarded_in comps j b \<longrightarrow> n = (size v, i + j) \<longrightarrow>
     valid strict (Some comps) v a \<longrightarrow> valid strict (Some comps) v b)"

definition sound_upto :: "bool \<Rightarrow> (string \<times> json) list \<Rightarrow> nat \<times> nat \<Rightarrow> json \<Rightarrow> json \<Rightarrow> bool" where
  "sound_upto strict comps m a b \<longleftrightarrow> (\<forall>n. before n m \<or> n = m \<longrightarrow> sound_at strict comps n a b)"

definition memory_sound :: "bool \<Rightarrow> (string \<times> json) list \<Rightarrow> json set \<Rightarrow> nat \<times> nat \<Rightarrow> string list \<Rightarrow> bool" where
  "memory_sound strict comps N m seen \<longleftrightarrow> (\<forall>a\<in>N. \<forall>b\<in>N. \<forall>k\<in>set seen. memo_key a b = Inr k \<longrightarrow>
     is_ref a = Inr True \<or> is_ref b = Inr True \<longrightarrow> sound_upto strict comps m a b)"

lemma sound_upto_before: "sound_upto strict comps m a b \<Longrightarrow> before n m \<or> n = m \<Longrightarrow> sound_upto strict comps n a b"
  unfolding sound_upto_def using before_trans by blast

lemma memory_before: "memory_sound strict comps N m seen \<Longrightarrow> before n m \<or> n = m \<Longrightarrow> memory_sound strict comps N n seen"
  unfolding memory_sound_def using sound_upto_before by blast

lemma sound_uptoI:
  assumes "\<And>v i j. guarded_in comps i a \<Longrightarrow> guarded_in comps j b \<Longrightarrow> before (size v, i + j) m \<or> (size v, i + j) = m \<Longrightarrow>
    valid strict (Some comps) v a \<Longrightarrow> valid strict (Some comps) v b"
  shows "sound_upto strict comps m a b"
  using assms by (auto simp: sound_upto_def sound_at_def)

lemma sound_uptoD:
  "sound_upto strict comps m a b \<Longrightarrow> guarded_in comps i a \<Longrightarrow> guarded_in comps j b \<Longrightarrow>
    before (size v, i + j) m \<or> (size v, i + j) = m \<Longrightarrow> valid strict (Some comps) v a \<Longrightarrow> valid strict (Some comps) v b"
  unfolding sound_upto_def sound_at_def by blast

lemma sound_smaller:
  assumes "sound_upto strict comps m a b" "good_schemas st comps N" "a \<in> N" "b \<in> N" "size v < fst m"
    "valid strict (Some comps) v a"
  shows "valid strict (Some comps) v b"
proof -
  obtain i j where "guarded_in comps i a" "guarded_in comps j b"
    using good_plain(6) [OF assms(2,3)] good_plain(6) [OF assms(2,4)] by blast
  with sound_uptoD [OF assms(1) this _ assms(6)] assms(5) show ?thesis by (simp add: before_def)
qed

text \<open>A reference is followed with the pair in memory: until the reference comes up again the
  position has moved on.\<close>

lemma memo_step:
  assumes g: "good_schemas st comps N" and N: "a \<in> N" "b \<in> N" and k: "memo_key a b = Inr k"
    and r: "is_ref a = Inr True \<or> is_ref b = Inr True" and mem: "memory_sound strict comps N m seen"
    and step: "\<And>n. before n m \<or> n = m \<Longrightarrow> (\<And>n'. before n' n \<Longrightarrow> memory_sound strict comps N n' (js_add seen k)) \<Longrightarrow>
      sound_at strict comps n a b"
  shows "sound_upto strict comps m a b"
proof -
  have "before n m \<or> n = m \<longrightarrow> sound_at strict comps n a b" for n
  proof (induction n rule: before_induct)
    case (1 n)
    show ?case
    proof
      assume n: "before n m \<or> n = m"
      show "sound_at strict comps n a b"
      proof (rule step [OF n])
        fix n' assume n': "before n' n"
        have "sound_upto strict comps n' x y"
          if xy: "x \<in> N" "y \<in> N" "memo_key x y = Inr k" "is_ref x = Inr True \<or> is_ref y = Inr True" for x y
        proof (rule sound_uptoI)
          have same: "same_schema x a" "same_schema y b"
            using memo_key_inj [OF g xy(1,2) N xy(3) k] xy(4) r by auto
          fix v i j assume v: "guarded_in comps i x" "guarded_in comps j y" "valid strict (Some comps) v x"
            and le: "before (size v, i + j) n' \<or> (size v, i + j) = n'"
          from le n' have "before (size v, i + j) n" using before_trans by blast
          with 1 n have "sound_at strict comps (size v, i + j) a b" using before_trans by blast
          with v same_schema_guarded [OF g xy(1) N(1) same(1)] same_schema_guarded [OF g xy(2) N(2) same(2)]
          show "valid strict (Some comps) v y" by (auto simp: sound_at_def)
        qed
        moreover have "memory_sound strict comps N n' seen" using memory_before [OF mem] before_trans [OF n' n] by blast
        ultimately show "memory_sound strict comps N n' (js_add seen k)" unfolding memory_sound_def by auto
      qed
    qed
  qed
  then show ?thesis by (simp add: sound_upto_def)
qed


lemma guarded_edge:
  assumes "guarded_in comps i s" "node_edges comps s = Inr es" "t \<in> set es"
  shows "\<exists>i'. i = Suc i' \<and> guarded_in comps i' t"
  using assms by (cases i) (auto simp: list_all_iff)

lemma check_ref_sub:
  assumes g: "good_schemas st comps N" and N: "a \<in> N" "b \<in> N" and r: "is_ref a = Inr True"
    and k: "memo_key a b = Inr k" and mem: "memory_sound strict comps N m seen"
    and t: "ref_of a = Inr r" "resolve_ref (Some comps) r = Inr (Some t)"
    and IH: "\<And>m. memory_sound strict comps N m (js_add seen k) \<Longrightarrow> sound_upto strict comps m t b"
  shows "sound_upto strict comps m a b"
proof (rule memo_step [OF g N k _ mem])
  show "is_ref a = Inr True \<or> is_ref b = Inr True" using r ..
  fix n assume n: "\<And>n'. before n' n \<Longrightarrow> memory_sound strict comps N n' (js_add seen k)"
  have e: "node_edges comps a = Inr [t]" using good_ref [OF g N(1) r] t by auto
  show "sound_at strict comps n a b"
    unfolding sound_at_def
  proof (intro allI impI)
    fix v i j assume v: "guarded_in comps i a" "guarded_in comps j b" "n = (size v, i + j)" "valid strict (Some comps) v a"
    from guarded_edge [OF v(1) e] obtain i' where i': "i = Suc i'" "guarded_in comps i' t" by auto
    with v(3) have "before (size v, i' + j) n" by (simp add: before_def)
    from sound_uptoD [OF IH [OF n [OF this]] i'(2) v(2)] v(4) valid_simps(2) [OF r t] show "valid strict (Some comps) v b" by simp
  qed
qed

lemma check_ref_super:
  assumes g: "good_schemas st comps N" and N: "a \<in> N" "b \<in> N" and r: "is_ref b = Inr True"
    and k: "memo_key a b = Inr k" and mem: "memory_sound strict comps N m seen"
    and t: "ref_of b = Inr r" "resolve_ref (Some comps) r = Inr (Some t)"
    and IH: "\<And>m. memory_sound strict comps N m (js_add seen k) \<Longrightarrow> sound_upto strict comps m a t"
  shows "sound_upto strict comps m a b"
proof (rule memo_step [OF g N k _ mem])
  show "is_ref a = Inr True \<or> is_ref b = Inr True" using r ..
  fix n assume n: "\<And>n'. before n' n \<Longrightarrow> memory_sound strict comps N n' (js_add seen k)"
  have e: "node_edges comps b = Inr [t]" using good_ref [OF g N(2) r] t by auto
  show "sound_at strict comps n a b"
    unfolding sound_at_def
  proof (intro allI impI)
    fix v i j assume v: "guarded_in comps i a" "guarded_in comps j b" "n = (size v, i + j)" "valid strict (Some comps) v a"
    from guarded_edge [OF v(2) e] obtain j' where j': "j = Suc j'" "guarded_in comps j' t" by auto
    with v(3) have "before (size v, i + j') n" by (simp add: before_def)
    from sound_uptoD [OF IH [OF n [OF this]] v(1) j'(2)] v(4) valid_simps(2) [OF r t] show "valid strict (Some comps) v b" by simp
  qed
qed

lemma check_union_sub:
  assumes g: "good_schemas st comps N" and a: "a \<in> N" "is_ref a = Inr False" "is_union a"
    and bs: "branches a = Inr bs" "\<And>t. t \<in> set bs \<Longrightarrow> sound_upto strict comps m t b"
  shows "sound_upto strict comps m a b"
proof (rule sound_uptoI)
  fix v i j assume v: "guarded_in comps i a" "guarded_in comps j b" "before (size v, i + j) m \<or> (size v, i + j) = m" "valid strict (Some comps) v a"
  then obtain t where t: "t \<in> set bs" "valid strict (Some comps) v t" using valid_simps(3) [OF a(2,3) bs(1)] by auto
  from good_union [OF g a] bs(1) t(1) obtain es where "node_edges comps a = Inr es" "t \<in> set es" by auto
  from guarded_edge [OF v(1) this] obtain i' where i': "i = Suc i'" "guarded_in comps i' t" by auto
  with v(3) have "before (size v, i' + j) m" by (auto simp: before_def)
  with sound_uptoD [OF bs(2) [OF t(1)] i'(2) v(2)] t(2) show "valid strict (Some comps) v b" by blast
qed

lemma check_union_super:
  assumes g: "good_schemas st comps N" and b: "b \<in> N" "is_ref b = Inr False" "is_union b"
    and bs: "branches b = Inr bs" "t \<in> set bs" "sound_upto strict comps m a t"
  shows "sound_upto strict comps m a b"
proof (rule sound_uptoI)
  fix v i j assume v: "guarded_in comps i a" "guarded_in comps j b" "before (size v, i + j) m \<or> (size v, i + j) = m" "valid strict (Some comps) v a"
  from good_union [OF g b] bs(1,2) obtain es where "node_edges comps b = Inr es" "t \<in> set es" by auto
  from guarded_edge [OF v(2) this] obtain j' where j': "j = Suc j'" "guarded_in comps j' t" by auto
  with v(3) have "before (size v, i + j') m" by (auto simp: before_def)
  with sound_uptoD [OF bs(3) v(1) j'(2)] v(4) have "valid strict (Some comps) v t" by blast
  with valid_simps(3) [OF b(2,3) bs(1)] bs(2) show "valid strict (Some comps) v b" by auto
qed

lemma truthy_good: "good_schemas st comps N \<Longrightarrow> t \<in> N \<Longrightarrow> truthy_schema (Some t) = Some u \<Longrightarrow> u = t"
  by (auto simp: truthy_schema_def split: if_splits)

lemma typed_atom:
  assumes "type_of a = Some t" "type_of b = Some t" "t \<in> {''null'', ''boolean'', ''number'', ''integer'', ''string''}"
  shows "typed_ok strict R v a \<longleftrightarrow> typed_ok strict R v b"
proof -
  have "t \<noteq> ''array''" "t \<noteq> ''object''" using assms(3) by fastforce+
  with assms show ?thesis unfolding typed_ok_def Let_def by (elim insertE) simp_all
qed

lemma check_sound:
  assumes g: "good_schemas strict comps N"
  shows "check (Some comps) a b seen = Inr True \<Longrightarrow> a \<in> N \<Longrightarrow> b \<in> N \<Longrightarrow> memory_sound strict comps N m seen \<Longrightarrow>
    sound_upto strict comps m a b"
proof (induction "Some comps" a b seen arbitrary: m rule: check.induct)
  case (1 a b seen)
  note ch = "1.prems"(1) [unfolded check.simps [of _ a b seen]] and N = "1.prems"(2,3) and mem = "1.prems"(4)
  have all: "sound_upto strict comps m a b" if "\<And>v. valid strict (Some comps) v a \<Longrightarrow> valid strict (Some comps) v b"
    using that by (intro sound_uptoI)
  show ?case
  proof (cases "b = JBool True \<or> a = JBool False \<or> b = JBool False \<or> a = JBool True")
    case True
    with ch bottom_sound [OF g _ N(1), of seen strict] show ?thesis
      by (intro all) (auto simp: valid_simps split: if_splits)
  next
    case False
    then have nb: "b \<noteq> JBool True" "a \<noteq> JBool False" "b \<noteq> JBool False" "a \<noteq> JBool True" by auto
    obtain ra where ra: "is_ref a = Inr ra" using good_plain(7) [OF g N(1)] by blast
    obtain rb where rb: "is_ref b = Inr rb" using good_plain(7) [OF g N(2)] by blast
    show ?thesis
    proof (cases ra)
      case True
      from good_ref [OF g N(1)] ra True obtain r t where
        t: "ref_of a = Inr r" "resolve_ref (Some comps) r = Inr (Some t)" "t \<in> N" by auto
      from ch nb ra True t obtain key where key: "key_of b = Inr key" by (auto simp: res_bind_Inr_iff)
      let ?k = "''S:'' @ r @ ''|'' @ key"
      have memo: "memo_key a b = Inr ?k" using ra True t key by (simp add: memo_key_def)
      show ?thesis
      proof (cases "?k \<in> set seen")
        case True
        with mem N memo ra \<open>ra\<close> show ?thesis by (simp add: memory_sound_def)
      next
        case False
        with ch nb ra \<open>ra\<close> t key have c: "truthy_schema (Some t) = Some t" "check (Some comps) t b (js_add seen ?k) = Inr True"
          by (auto simp: Let_def truthy_schema_def split: if_splits)
        show ?thesis
        proof (rule check_ref_sub [OF g N _ memo mem t(1,2)])
          show "is_ref a = Inr True" using ra \<open>ra\<close> by simp
        qed (rule "1.hyps"(1) [OF nb ra \<open>ra\<close> t(1) key refl False t(2) c t(3) N(2)])
      qed
    next
      case nra: False
      show ?thesis
      proof (cases rb)
        case True
        from good_ref [OF g N(2)] rb True obtain r t where
          t: "ref_of b = Inr r" "resolve_ref (Some comps) r = Inr (Some t)" "t \<in> N" by auto
        from ch nb ra nra rb True t obtain key where key: "key_of a = Inr key" by (auto simp: res_bind_Inr_iff)
        let ?k = "key @ ''|T:'' @ r"
        have memo: "memo_key a b = Inr ?k" using ra nra t key by (simp add: memo_key_def)
        show ?thesis
        proof (cases "?k \<in> set seen")
          case True
          with mem N memo rb \<open>rb\<close> show ?thesis by (simp add: memory_sound_def)
        next
          case False
          with ch nb ra nra rb \<open>rb\<close> t key have c: "truthy_schema (Some t) = Some t" "check (Some comps) a t (js_add seen ?k) = Inr True"
            by (auto simp: Let_def truthy_schema_def split: if_splits)
          show ?thesis
          proof (rule check_ref_super [OF g N _ memo mem t(1,2)])
            show "is_ref b = Inr True" using rb \<open>rb\<close> by simp
          qed (rule "1.hyps"(2) [OF nb ra nra rb \<open>rb\<close> key t(1) refl False t(2) c N(1) t(3)])
        qed
      next
        case nrb: False
        from ra nra rb nrb have refs: "is_ref a = Inr False" "is_ref b = Inr False" by simp_all
        note ch = ch [unfolded nb [THEN eq_False [THEN iffD2]] refs res_bind_simps if_False]
        show ?thesis
        proof (cases "is_union a")
          case True
          with good_union [OF g N(1) refs(1)] obtain bs where bs: "branches a = Inr bs" "set bs \<subseteq> N" by auto
          with ch True have c: "check (Some comps) t b seen = Inr True" if "t \<in> set bs" for t
            using that by (simp add: res_every_True_iff)
          show ?thesis
            by (rule check_union_sub [OF g N(1) refs(1) True bs(1)])
              (rule "1.hyps"(3) [OF nb ra nra rb nrb True bs(1) _ c _ N(2) mem], use bs(2) in auto)
        next
          case nua: False
          show ?thesis
          proof (cases "is_union b")
            case True
            with good_union [OF g N(2) refs(2)] obtain bs where bs: "branches b = Inr bs" "set bs \<subseteq> N" by auto
            with ch nua True obtain t where t: "t \<in> set bs" "check (Some comps) a t seen = Inr True"
              by (auto dest: res_some_TrueD)
            show ?thesis
              by (rule check_union_super [OF g N(2) refs(2) True bs(1) t(1)])
                (rule "1.hyps"(4) [OF nb ra nra rb nrb nua True bs(1) t N(1) _ mem], use bs(2) t(1) in auto)
          next
            case nub: False
            have va: "valid strict (Some comps) v a \<longleftrightarrow> local_ok strict (valid strict (Some comps)) v a" for v
              using valid_simps(4) [OF refs(1) nua] .
            have vb: "valid strict (Some comps) v b \<longleftrightarrow> local_ok strict (valid strict (Some comps)) v b" for v
              using valid_simps(4) [OF refs(2) nub] .
            have literal: "valid strict (Some comps) v b"
              if "matches (Some comps) k b seen [] = Inr (True, issues)" "json_eq v k" "k \<in> set (literals_of a)" for k v issues
              using valid_cong [OF g valid_lenient [OF matches_valid [OF that(1)]] N(2)] json_eq_jnorm [OF that(2)]
                good_plain(3) [OF g N(1)] that(3) by blast
            show ?thesis
            proof (cases "is_const a \<or> is_enum a")
              case True
              show ?thesis
              proof (rule all)
                fix v assume v: "valid strict (Some comps) v a"
                show "valid strict (Some comps) v b"
                proof (cases "is_const a")
                  case True
                  then have "the (field ''const'' a) \<in> set (literals_of a)" by (auto simp: is_const_def literals_of_def)
                  with True v va nb ch nua nub literal show ?thesis by (auto simp: local_ok_def res_bind_Inr_iff)
                next
                  case False
                  with True v va nb nua obtain es e where e: "array_of (field ''enum'' a) = Inr es" "e \<in> set es" "json_eq v e"
                    by (auto simp: local_ok_def list_ex_iff)
                  then have "e \<in> set (literals_of a)"
                    by (auto simp: array_of_def literals_of_def items_of_def split: option.splits json.splits)
                  moreover have "res_bind (matches (Some comps) e b seen []) (\<lambda>(ok, _). Inr ok) = Inr True"
                    using ch nua nub False True e(1,2) by (auto simp: res_every_True_iff)
                  ultimately show ?thesis using literal e(3) by (auto simp: res_bind_Inr_iff)
                qed
              qed
            next
              case False
              then have na: "\<not> is_const a" "\<not> is_enum a" by simp_all
              with ch nua nub have nbl: "\<not> is_const b" "\<not> is_enum b"
                by (auto simp: res_bind_Inr_iff split: if_splits)
              note ch = ch [unfolded nua [THEN eq_False [THEN iffD2]] nub [THEN eq_False [THEN iffD2]]
                na [THEN eq_False [THEN iffD2]] nbl [THEN eq_False [THEN iffD2]] if_False Let_def]
              have va: "valid strict (Some comps) v a \<longleftrightarrow> typed_ok strict (valid strict (Some comps)) v a" for v
                using va [of v] nb na nua refs by (simp add: local_ok_def)
              have vb: "valid strict (Some comps) v b \<longleftrightarrow> typed_ok strict (valid strict (Some comps)) v b" for v
                using vb [of v] nb nbl nub refs by (simp add: local_ok_def)
              have typed: "type_of x = Some t" if "field ''type'' x = Some (JStr t)" for x t
                using that by (simp add: type_of_def)
              show ?thesis
              proof (cases "field ''type'' a = field ''type'' b")
                case False
                with ch have "type_of a = Some ''integer''" "type_of b = Some ''number''" by (auto intro: typed)
                then show ?thesis using va vb by (intro all) (auto simp: typed_ok_def split: json.splits)
              next
                case eq: True
                show ?thesis
                proof (cases "field ''type'' a \<in> {Some (JStr ''array''), Some (JStr ''object'')}")
                  case False
                  with ch eq have "field ''type'' a \<in> (\<lambda>t. Some (JStr t)) ` {''null'', ''boolean'', ''number'', ''integer'', ''string''}"
                    by (auto split: if_splits)
                  then obtain t where t: "field ''type'' a = Some (JStr t)"
                      "t \<in> {''null'', ''boolean'', ''number'', ''integer'', ''string''}"
                    by (rule imageE)
                  then have ty: "type_of a = Some t" "type_of b = Some t" using eq by (simp_all add: typed)
                  have "typed_ok strict (valid strict (Some comps)) v a = typed_ok strict (valid strict (Some comps)) v b" for v
                    by (rule typed_atom [OF ty t(2)])
                  then show ?thesis using va vb by (intro all) simp
                next
                  case True
                  show ?thesis
                  proof (rule sound_uptoI)
                    fix v i j
                    assume le: "before (size v, i + j) m \<or> (size v, i + j) = m" and v: "valid strict (Some comps) v a"
                    have IH: "valid strict (Some comps) w y"
                      if "sound_upto strict comps m x y" "x \<in> N" "y \<in> N" "size w < size v" "valid strict (Some comps) w x" for x y w
                      using sound_smaller [OF that(1) g that(2,3) _ that(5)] that(4) le by (auto simp: before_def)
                    show "valid strict (Some comps) v b"
                    proof (cases "field ''type'' a = Some (JStr ''array'')")
                      case True
                      with eq have ty: "type_of a = Some ''array''" "type_of b = Some ''array''" by (auto intro: typed)
                      with v va have ok: "is_array v" "array_ok strict (valid strict (Some comps)) (items_of v) a"
                        by (auto simp: typed_ok_def)
                      have "field ''type'' b = Some (JStr ''array'')" using eq True by simp
                      with ch True have c: "check_array_like (\<lambda>x y. check (Some comps) x y seen) a b = Inr True" by simp
                      have "array_ok strict (valid strict (Some comps)) (items_of v) b"
                      proof (rule array_sound [OF g N ty c ok(2)])
                        fix x y w
                        assume xy: "check (Some comps) x y seen = Inr True" "x \<in> N \<inter> parts a" "y \<in> N \<inter> parts b"
                          "w \<in> set (items_of v)" "valid strict (Some comps) w x"
                        have "sound_upto strict comps m x y"
                          by (rule "1.hyps"(5) [OF nb ra nra rb nrb nua nub na nbl refl refl _ _ _ True _ _ xy(1) _ _ mem])
                            (use xy(2,3) eq True in auto)
                        with xy IH size_items show "valid strict (Some comps) w y" by blast
                      qed
                      with ok(1) ty vb show ?thesis by (simp add: typed_ok_def)
                    next
                      case False
                      with \<open>field ''type'' a \<in> {Some (JStr ''array''), Some (JStr ''object'')}\<close>
                      have True: "field ''type'' a = Some (JStr ''object'')" by simp
                      with eq have ty: "type_of a = Some ''object''" "type_of b = Some ''object''" by (auto intro: typed)
                      with v va have ok: "is_object v" "object_ok (valid strict (Some comps)) (entries_of v) a"
                        by (auto simp: typed_ok_def)
                      have "field ''type'' b = Some (JStr ''object'')" using eq True by simp
                      with ch True have c: "check_object (\<lambda>x y. check (Some comps) x y seen) a b = Inr True" by simp
                      have "object_ok (valid strict (Some comps)) (entries_of v) b"
                      proof (rule object_sound [OF g N ty c ok(2)])
                        fix x y p
                        assume xy: "check (Some comps) x y seen = Inr True" "x \<in> N \<inter> parts a" "y \<in> N \<inter> parts b"
                          "p \<in> set (entries_of v)" "valid strict (Some comps) (snd p) x"
                        have "sound_upto strict comps m x y"
                          by (rule "1.hyps"(6) [OF nb ra nra rb nrb nua nub na nbl refl refl _ _ _ False True _ _ xy(1) _ _ mem])
                            (use xy(2,3) eq True in auto)
                        with xy IH size_entries show "valid strict (Some comps) (snd p) y" by blast
                      qed
                      with ok(1) ty vb show ?thesis by (simp add: typed_ok_def)
                    qed
                  qed
                qed
              qed
            qed
          qed
        qed
      qed
    qed
  qed
qed


section \<open>Schemas whose references check\<close>

definition plain_schemas :: "json list \<Rightarrow> bool" where
  "plain_schemas ss = list_all plain_schema (concat (map subschemas ss))"

definition no_tuples :: "json list \<Rightarrow> bool" where
  "no_tuples ss = list_all (\<lambda>s. field ''prefixItems'' s = None) (concat (map subschemas ss))"

lemma reach_world: "schema_reach comps roots s \<Longrightarrow> s \<in> schema_world (Some comps) roots"
proof (induction rule: schema_reach.induct)
  case (root s)
  then show ?case by (intro world_root) (auto simp: world_roots_def)
qed (auto intro: node_edges_world node_items_world)

lemma world_listed:
  "s \<in> schema_world (Some comps) roots \<Longrightarrow> s = JNull \<or> is_bool s \<or> s = JObj [] \<or>
    s \<in> set (concat (map subschemas (roots @ map snd comps)))"
  by (auto simp: schema_world_def world_roots_def is_bool_def)

lemma references_good:
  assumes "assert_schema_references roots comps = Inr ()" "plain_schemas (roots @ map snd comps)"
    "strict \<longrightarrow> no_tuples (roots @ map snd comps)"
  shows "good_schemas strict comps (range JBool \<union> Collect (schema_reach comps roots))"
proof -
  have "plain_schema s \<and> (strict \<longrightarrow> field ''prefixItems'' s = None) \<and> (\<exists>n. guarded_in comps n s) \<and>
      is_ok (node_items s) \<and> is_ok (node_edges comps s)" if s: "schema_reach comps roots s" for s
  proof -
    from assms(1) s have g: "\<exists>n. guarded_in comps n s" "is_ok (node_items s)"
      unfolding assert_references_exact by auto
    then have e: "is_ok (node_edges comps s)" using guarded_in.simps by (metis is_ok_def not0_implies_Suc sum.case_eq_if)
    have "s \<noteq> JNull" using e by (auto simp: node_edges_def ref_edges_def is_ref_def in_schema_def)
    with world_listed [OF reach_world [OF s]]
    consider "is_bool s" | "s = JObj []" | "s \<in> set (concat (map subschemas (roots @ map snd comps)))" by blast
    then have "plain_schema s \<and> (strict \<longrightarrow> field ''prefixItems'' s = None)"
    proof cases
      case 1
      then show ?thesis by (auto simp: field_def elim: is_boolE)
    next
      case 2
      then show ?thesis
        by (simp add: plain_schema_def field_def literals_of_def string_list_def nullish_def optional_items_def)
    next
      case 3
      with assms(2,3) show ?thesis unfolding plain_schemas_def no_tuples_def list_all_iff by blast
    qed
    with g e show ?thesis by blast
  qed
  note reached = this
  let ?R = "Collect (schema_reach comps roots)"
  have items: "\<exists>its. node_items s = Inr its \<and> set its \<subseteq> ?R" if "schema_reach comps roots s" for s
  proof -
    from reached [OF that] obtain its where "node_items s = Inr its" by (auto simp: is_ok_def split: sum.splits)
    with schema_reach.item [OF that] show ?thesis by blast
  qed
  have edges: "\<exists>es. node_edges comps s = Inr es \<and> set es \<subseteq> ?R" if "schema_reach comps roots s" for s
  proof -
    from reached [OF that] obtain es where "node_edges comps s = Inr es" by (auto simp: is_ok_def split: sum.splits)
    with schema_reach.edge [OF that] show ?thesis by blast
  qed
  have bool: "\<exists>n. guarded_in comps n (JBool b)" for b
    by (rule exI, rule guarded_in_bool) (simp add: is_bool_def)
  show ?thesis
    unfolding good_schemas_def
  proof (intro conjI ballI)
    fix s assume s: "s \<in> range JBool \<union> ?R"
    show "plain_schema s" "strict \<longrightarrow> field ''prefixItems'' s = None" "\<exists>n. guarded_in comps n s"
      using s reached [of s] bool by (auto simp: field_def)
    show "\<exists>its. node_items s = Inr its \<and> set its \<subseteq> range JBool \<union> ?R"
      using s items [of s] by (fastforce simp del: mem_Collect_eq simp: mem_Collect_eq [of _ "schema_reach comps roots"])
    show "\<exists>es. node_edges comps s = Inr es \<and> set es \<subseteq> range JBool \<union> ?R"
      using s edges [of s] by (fastforce simp del: mem_Collect_eq simp: mem_Collect_eq [of _ "schema_reach comps roots"])
  qed simp
qed

section \<open>Matching does not throw on them\<close>

lemma is_ok_bind: "is_ok (res_bind r f) \<longleftrightarrow> (\<exists>x. r = Inr x \<and> is_ok (f x))"
  by (cases r) (auto simp: res_bind_def)

lemma is_ok_Inr: "is_ok r \<longleftrightarrow> (\<exists>x. r = Inr x)"
  by (simp add: is_ok_def split: sum.split)

lemma some_branch_ok: "(\<And>x. x \<in> set xs \<Longrightarrow> is_ok (f x)) \<Longrightarrow> is_ok (some_branch f xs)"
proof (induction xs)
  case (Cons x xs)
  then have "is_ok (f x)" "is_ok (some_branch f xs)" by simp_all
  then obtain r q where "f x = Inr r" "some_branch f xs = Inr q" by (auto simp: is_ok_Inr)
  then show ?case by (simp add: split_beta)
qed simp

lemma each_value_ok: "(\<And>x. x \<in> set xs \<Longrightarrow> is_ok (f x)) \<Longrightarrow> is_ok (each_value f xs)"
proof (induction xs)
  case (Cons x xs)
  then have "is_ok (f x)" "is_ok (each_value f xs)" by simp_all
  then show ?case by (auto simp: is_ok_bind is_ok_Inr)
qed simp

lemma mismatch_ok [simp]: "is_ok (mismatch path message)" "is_ok (or_mismatch b path message)"
  by (simp_all add: mismatch_def or_mismatch_def)

lemma matches_array_ok:
  assumes "good_schemas strict comps N" "s \<in> N" "type_of s = Some ''array''"
    "\<And>x t p. x \<in> set xs \<Longrightarrow> t \<in> N \<Longrightarrow> is_ok (f x t p)"
  shows "is_ok (matches_array f xs s path)"
proof -
  obtain ps where ps: "prefix_items s = Inr ps" using good_array(1) [OF assms(1-3)] by blast
  then show ?thesis
    by (auto simp: matches_array_def Let_def intro!: each_value_ok assms(4) good_item(1) [OF assms(1-3)]
        dest: set_zip_rightD)
qed

lemma matches_object_ok:
  assumes "good_schemas strict comps N" "s \<in> N" "type_of s = Some ''object''"
    "\<And>q t p. q \<in> set kvs \<Longrightarrow> t \<in> N \<Longrightarrow> is_ok (f (snd q) t p)"
  shows "is_ok (matches_object f kvs s path)"
proof -
  obtain props where props: "properties_of s = Inr props" using good_object(1) [OF assms(1-3)] by blast
  obtain required where "string_list ''required'' s = Inr required"
    using good_plain(4) [OF assms(1,2)] by (auto simp: is_ok_def split: sum.splits)
  moreover have "is_ok (each_value (\<lambda>(k, x). f x (property_schema props s k) (path @ json_pointer_segment k)) kvs)"
    using good_property [OF assms(1-3) props] by (intro each_value_ok) (auto intro: assms(4) [of "(_, _)", simplified])
  ultimately show ?thesis using props
    by (auto simp: matches_object_def Let_def property_schema_def is_ok_bind is_ok_def split: sum.splits)
qed

lemma good_enum:
  assumes "good_schemas strict comps N" "s \<in> N" "is_enum s"
  shows "\<exists>es. array_of (field ''enum'' s) = Inr es"
proof -
  have "is_ok (optional_items ''enum'' s)" using assms(1,2) by (simp add: good_schemas_def plain_schema_def)
  with assms(3) show ?thesis by (auto simp: optional_items_def is_enum_def is_ok_Inr split: if_splits)
qed

lemma matches_ok:
  assumes g: "good_schemas strict comps N"
  shows "s \<in> N \<Longrightarrow> is_ok (matches (Some comps) v s seen path)"
proof (induction "Some comps" v s seen path rule: matches.induct)
  case (1 v s seen path)
  note N = "1.prems"
  show ?case
  proof (cases "s = JBool True \<or> s = JBool False")
    case True
    then show ?thesis by (subst matches.simps) auto
  next
    case False
    then have s: "s \<noteq> JBool True" "s \<noteq> JBool False" by simp_all
    obtain isRef where isRef: "is_ref s = Inr isRef" using good_plain(7) [OF g N] by blast
    show ?thesis
    proof (cases isRef)
      case True
      with good_ref [OF g N] isRef obtain r t where
        t: "ref_of s = Inr r" "resolve_ref (Some comps) r = Inr (Some t)" "t \<in> N" by auto
      with "1.hyps"(1) [OF s isRef True t(1) _ t(2) refl t(3)] s isRef True show ?thesis
        by (subst matches.simps) simp
    next
      case nref: False
      show ?thesis
      proof (cases "is_union s")
        case True
        with good_union [OF g N] isRef nref obtain bs where bs: "branches s = Inr bs" "set bs \<subseteq> N" by auto
        with "1.hyps"(2) [OF s isRef nref True bs(1)]
        have "is_ok (some_branch (\<lambda>branch. matches (Some comps) v branch seen path) bs)"
          by (intro some_branch_ok) blast
        then obtain r where "some_branch (\<lambda>branch. matches (Some comps) v branch seen path) bs = Inr r"
          by (auto simp: is_ok_Inr)
        with s isRef nref True bs show ?thesis by (subst matches.simps) (simp add: split_beta)
      next
        case nun: False
        show ?thesis
        proof (cases "is_const s \<or> is_enum s")
          case True
          with good_enum [OF g N] s isRef nref nun show ?thesis by (subst matches.simps) (auto simp: is_ok_bind)
        next
          case False
          then have nce: "\<not> is_const s" "\<not> is_enum s" by simp_all
          have arr: "is_ok (matches_array (\<lambda>x s p. matches (Some comps) x s [] p) (items_of v) s path)"
            if "type_of s = Some ''array''" "is_array v"
            by (rule matches_array_ok [OF g N that(1)])
              (rule "1.hyps"(3) [OF s isRef nref nun nce refl], use that in auto)
          have obj: "is_ok (matches_object (\<lambda>x s p. matches (Some comps) x s [] p) (entries_of v) s path)"
            if "type_of s = Some ''object''" "is_object v"
            by (rule matches_object_ok [OF g N that(1)])
              (rule "1.hyps"(4) [OF s isRef nref nun nce refl], use that in auto)
          from s isRef nref nun nce arr obj show ?thesis by (subst matches.simps) (simp add: Let_def)
        qed
      qed
    qed
  qed
qed


section \<open>Soundness\<close>

lemma matches_iff_valid:
  assumes "good_schemas strict comps N" "s \<in> N"
  shows "matches_json_schema (Some comps) v s = Inr True \<longleftrightarrow> valid True (Some comps) v s"
proof -
  obtain b issues where m: "matches (Some comps) v s [] [] = Inr (b, issues)"
    using matches_ok [OF assms, of v "[]" "[]"] by (auto simp: is_ok_Inr)
  with matches_avoids [OF m] show ?thesis by (simp add: matches_json_schema_def avoids_iff_valid)
qed

lemma assignable_valid:
  assumes g: "good_schemas strict comps N" "sub \<in> N" "super \<in> N"
    and c: "is_assignable sub super (Some comps) = Inr True" and v: "valid strict (Some comps) v sub"
  shows "valid strict (Some comps) v super"
proof -
  obtain i j where ij: "guarded_in comps i sub" "guarded_in comps j super"
    using good_plain(6) [OF g(1,2)] good_plain(6) [OF g(1,3)] by blast
  have "sound_upto strict comps (size v, i + j) sub super"
    using c unfolding is_assignable_def by (rule check_sound [OF g(1) _ g(2,3)]) (simp add: memory_sound_def)
  from sound_uptoD [OF this ij] v show ?thesis by simp
qed

text \<open>C30: Assignability is sound: once the references of two schemas and their components have been
  checked, a comparison that says yes means that every value of the first schema is a value of the
  second, recursive schemas, unions, open and closed objects and tuples included.  Where no schema is a
  tuple the matcher of the library agrees: a value it accepts for the first schema it accepts for the
  second.  This is for plain schemas, \<open>plain_schemas\<close>, at every level: well-formed finite JSON, no property
  with a name every object inherits (\<^verbatim>\<open>toString\<close>), no array inside a const or enum value, references
  without a bar and never beside anyOf or oneOf.  \<open>assignability_gap\<close> below shows what goes wrong for the
  first two of these outside the restriction, and for tuples.\<close>

theorem assignability_sound:
  assumes "assert_schema_references [sub, super] comps = Inr ()" "plain_schemas (sub # super # map snd comps)"
    "is_assignable sub super (Some comps) = Inr True"
  shows "(valid False (Some comps) v sub \<longrightarrow> valid False (Some comps) v super) \<and>
    (no_tuples (sub # super # map snd comps) \<and> matches_json_schema (Some comps) v sub = Inr True \<longrightarrow>
      matches_json_schema (Some comps) v super = Inr True)"
proof -
  let ?N = "range JBool \<union> Collect (schema_reach comps [sub, super])"
  have N: "sub \<in> ?N" "super \<in> ?N" by (auto intro: schema_reach.root)
  have good: "good_schemas strict comps ?N" if "strict \<longrightarrow> no_tuples (sub # super # map snd comps)" for strict
    using references_good [OF assms(1), of strict] assms(2) that by simp
  have "valid False (Some comps) v sub \<longrightarrow> valid False (Some comps) v super"
    using assignable_valid [OF good N assms(3)] by simp
  moreover have "matches_json_schema (Some comps) v super = Inr True"
    if "no_tuples (sub # super # map snd comps)" "matches_json_schema (Some comps) v sub = Inr True"
  proof -
    have g: "good_schemas True comps ?N" using that(1) by (intro good) simp
    with assignable_valid [OF g N assms(3)] matches_iff_valid [OF g N(1)] matches_iff_valid [OF g N(2)] that(2)
    show ?thesis by simp
  qed
  ultimately show ?thesis by blast
qed

text \<open>One equation for each pair of kinds, to evaluate the comparison by rewriting.\<close>

lemma check_equations:
  "check c s (JBool b) seen = (if b then Inr True else if s = JBool False then Inr True else is_bottom c s seen)"
  "check c (JBool False) s seen = Inr True"
  "\<not> is_bool s \<Longrightarrow> \<not> is_bool t \<Longrightarrow> is_ref s = Inr True \<Longrightarrow> ref_of s = Inr r \<Longrightarrow> key_of t = Inr k \<Longrightarrow>
    check c s t seen = (if ''S:'' @ r @ ''|'' @ k \<in> set seen then Inr True
      else res_bind (resolve_ref c r) (\<lambda>x. case truthy_schema x of
        None \<Rightarrow> Inr False | Some u \<Rightarrow> check c u t (js_add seen (''S:'' @ r @ ''|'' @ k))))"
  "\<not> is_bool s \<Longrightarrow> \<not> is_bool t \<Longrightarrow> is_ref s = Inr False \<Longrightarrow> is_ref t = Inr True \<Longrightarrow> ref_of t = Inr r \<Longrightarrow> key_of s = Inr k \<Longrightarrow>
    check c s t seen = (if k @ ''|T:'' @ r \<in> set seen then Inr True
      else res_bind (resolve_ref c r) (\<lambda>x. case truthy_schema x of
        None \<Rightarrow> Inr False | Some u \<Rightarrow> check c s u (js_add seen (k @ ''|T:'' @ r))))"
  "\<not> is_bool s \<Longrightarrow> \<not> is_bool t \<Longrightarrow> is_ref s = Inr False \<Longrightarrow> is_ref t = Inr False \<Longrightarrow> is_union s \<Longrightarrow> branches s = Inr bs \<Longrightarrow>
    check c s t seen = res_every (\<lambda>branch. check c branch t seen) bs"
  "\<not> is_bool s \<Longrightarrow> \<not> is_bool t \<Longrightarrow> is_ref s = Inr False \<Longrightarrow> is_ref t = Inr False \<Longrightarrow> \<not> is_union s \<Longrightarrow> is_union t \<Longrightarrow> branches t = Inr bs \<Longrightarrow>
    check c s t seen = res_some (\<lambda>branch. check c s branch seen) bs"
  "typed_as s ''object'' \<Longrightarrow> typed_as t ''object'' \<Longrightarrow> check c s t seen = check_object (\<lambda>a b. check c a b seen) s t"
  "typed_as s ''array'' \<Longrightarrow> typed_as t ''array'' \<Longrightarrow> check c s t seen = check_array_like (\<lambda>a b. check c a b seen) s t"
  "typed_as s ''null'' \<Longrightarrow> typed_as t ''null'' \<Longrightarrow> check c s t seen = Inr True"
  "typed_as s x \<Longrightarrow> typed_as t y \<Longrightarrow> x \<noteq> y \<Longrightarrow> check c s t seen = Inr (x = ''integer'' \<and> y = ''number'')"
proof -
  have nb: "\<not> is_bool s \<Longrightarrow> s \<noteq> JBool b" for s b by (auto simp: is_bool_def)
  note step = check.simps [of c s t seen]
  show "check c s (JBool b) seen = (if b then Inr True else if s = JBool False then Inr True else is_bottom c s seen)"
    "check c (JBool False) s seen = Inr True"
    by (subst check.simps; simp add: is_bottom.simps [of c "JBool False"])+
  show "\<not> is_bool s \<Longrightarrow> \<not> is_bool t \<Longrightarrow> is_ref s = Inr True \<Longrightarrow> ref_of s = Inr r \<Longrightarrow> key_of t = Inr k \<Longrightarrow>
    check c s t seen = (if ''S:'' @ r @ ''|'' @ k \<in> set seen then Inr True
      else res_bind (resolve_ref c r) (\<lambda>x. case truthy_schema x of
        None \<Rightarrow> Inr False | Some u \<Rightarrow> check c u t (js_add seen (''S:'' @ r @ ''|'' @ k))))"
    by (simp add: step nb Let_def cong: option.case_cong)
  show "\<not> is_bool s \<Longrightarrow> \<not> is_bool t \<Longrightarrow> is_ref s = Inr False \<Longrightarrow> is_ref t = Inr True \<Longrightarrow> ref_of t = Inr r \<Longrightarrow> key_of s = Inr k \<Longrightarrow>
    check c s t seen = (if k @ ''|T:'' @ r \<in> set seen then Inr True
      else res_bind (resolve_ref c r) (\<lambda>x. case truthy_schema x of
        None \<Rightarrow> Inr False | Some u \<Rightarrow> check c s u (js_add seen (k @ ''|T:'' @ r))))"
    by (simp add: step nb Let_def cong: option.case_cong)
  show "\<not> is_bool s \<Longrightarrow> \<not> is_bool t \<Longrightarrow> is_ref s = Inr False \<Longrightarrow> is_ref t = Inr False \<Longrightarrow> is_union s \<Longrightarrow> branches s = Inr bs \<Longrightarrow>
    check c s t seen = res_every (\<lambda>branch. check c branch t seen) bs"
    "\<not> is_bool s \<Longrightarrow> \<not> is_bool t \<Longrightarrow> is_ref s = Inr False \<Longrightarrow> is_ref t = Inr False \<Longrightarrow> \<not> is_union s \<Longrightarrow> is_union t \<Longrightarrow> branches t = Inr bs \<Longrightarrow>
    check c s t seen = res_some (\<lambda>branch. check c s branch seen) bs"
    by (simp_all add: step nb)
  have ty: "typed_as s x \<Longrightarrow> field ''type'' s = Some (JStr x)" for s x
    by (auto simp: typed_as_def type_of_def split: option.splits json.splits)
  show "typed_as s ''object'' \<Longrightarrow> typed_as t ''object'' \<Longrightarrow> check c s t seen = check_object (\<lambda>a b. check c a b seen) s t"
    "typed_as s ''array'' \<Longrightarrow> typed_as t ''array'' \<Longrightarrow> check c s t seen = check_array_like (\<lambda>a b. check c a b seen) s t"
    "typed_as s ''null'' \<Longrightarrow> typed_as t ''null'' \<Longrightarrow> check c s t seen = Inr True"
    "typed_as s x \<Longrightarrow> typed_as t y \<Longrightarrow> x \<noteq> y \<Longrightarrow> check c s t seen = Inr (x = ''integer'' \<and> y = ''number'')"
    using ty [of s] ty [of t] by (simp_all add: step nb typed_as_def)
qed

text \<open>A recursive list of nulls, and one that may also end with a boolean.\<close>

definition demo_lists :: "(string \<times> json) list" where
  "demo_lists = [
     (''L'', JObj [(''anyOf'', JArr [JObj [(''type'', JStr ''null'')],
        JObj [(''type'', JStr ''object''),
          (''properties'', JObj [(''next'', JObj [(''$ref'', JStr ''#/components/schemas/L'')])]),
          (''required'', JArr [JStr ''next'']), (''additionalProperties'', JBool False)]])]),
     (''M'', JObj [(''anyOf'', JArr [JObj [(''type'', JStr ''boolean'')], JObj [(''type'', JStr ''null'')],
        JObj [(''type'', JStr ''object''),
          (''properties'', JObj [(''next'', JObj [(''$ref'', JStr ''#/components/schemas/M'')])]),
          (''required'', JArr []), (''additionalProperties'', JBool False)]])])]"

definition demo_L :: json where "demo_L = JObj [(''$ref'', JStr ''#/components/schemas/L'')]"
definition demo_M :: json where "demo_M = JObj [(''$ref'', JStr ''#/components/schemas/M'')]"

lemma demo_lists_checked: "assert_schema_references [demo_L, demo_M] demo_lists = Inr ()"
  by code_simp

lemma demo_lists_plain: "plain_schemas (demo_L # demo_M # map snd demo_lists)"
  by code_simp


lemmas check_eval = check_equations schema_eval key_of_def truthy_schema_def js_truthy_def check_object_def
  check_array_like_def js_in_def object_prototype_def is_assignable_def

lemma demo_lists_assignable: "is_assignable demo_L demo_M (Some demo_lists) = Inr True"
  by (simp add: check_eval demo_L_def demo_M_def demo_lists_def)

lemma demo_lists_match: "matches_json_schema (Some demo_lists) (JObj [(''next'', JObj [(''next'', JNull)])]) demo_L = Inr True"
  by (simp add: matches_equations schema_eval demo_L_def demo_lists_def)

theorem assignability_sound_witness:
  "matches_json_schema (Some demo_lists) (JObj [(''next'', JObj [(''next'', JNull)])]) demo_M = Inr True"
proof -
  have "no_tuples (demo_L # demo_M # map snd demo_lists)" by code_simp
  with assignability_sound [OF demo_lists_checked demo_lists_plain demo_lists_assignable] demo_lists_match
  show ?thesis by blast
qed

section \<open>Where the comparison and the matcher part\<close>

definition demo_strings :: json where
  "demo_strings = JObj [(''type'', JStr ''array''), (''items'', JObj [(''type'', JStr ''null'')])]"

definition demo_tuple :: json where
  "demo_tuple = JObj [(''type'', JStr ''array''), (''prefixItems'', JArr [JObj [(''type'', JStr ''null'')]]),
     (''items'', JObj [(''type'', JStr ''null'')])]"

definition demo_open :: json where
  "demo_open = JObj [(''type'', JStr ''object''), (''properties'', JObj [(''toString'', JObj [(''type'', JStr ''null'')])]),
     (''additionalProperties'', JBool False)]"

definition demo_closed :: json where
  "demo_closed = JObj [(''type'', JStr ''object''), (''additionalProperties'', JBool False)]"

text \<open>Worked examples of what the restrictions are for: an array schema is assignable to a tuple although the matcher
  accepts the empty array only for the first; a property named like one every object inherits is
  overlooked, so that a closed object is taken to admit it; and the empty object equals the empty
  array.\<close>

lemma assignability_gap:
  "is_assignable demo_strings demo_tuple None = Inr True \<and>
   matches_json_schema None (JArr []) demo_strings = Inr True \<and>
   matches_json_schema None (JArr []) demo_tuple = Inr False \<and>
   is_assignable demo_open demo_closed None = Inr True \<and>
   matches_json_schema None (JObj [(''toString'', JNull)]) demo_open = Inr True \<and>
   matches_json_schema None (JObj [(''toString'', JNull)]) demo_closed = Inr False \<and>
   json_eq (JObj []) (JArr []) \<and> \<not> json_eq (JArr []) (JObj [])"
proof (intro conjI)
  show "is_assignable demo_strings demo_tuple None = Inr True"
    "matches_json_schema None (JArr []) demo_strings = Inr True"
    "matches_json_schema None (JArr []) demo_tuple = Inr False"
    by (simp_all add: check_eval matches_equations demo_strings_def demo_tuple_def)
  show "is_assignable demo_open demo_closed None = Inr True"
    "matches_json_schema None (JObj [(''toString'', JNull)]) demo_open = Inr True"
    "matches_json_schema None (JObj [(''toString'', JNull)]) demo_closed = Inr False"
    by (simp_all add: check_eval matches_equations demo_open_def demo_closed_def)
  show "json_eq (JObj []) (JArr [])" "\<not> json_eq (JArr []) (JObj [])"
    by (simp_all add: json_eq.simps is_array_def is_object_def entries_of_def)
qed

end
