(* ===== verification/Normalize.thy ===== *)
theory Normalize
  imports Schema
begin

text \<open>
  Normalization of JSON Schemas onto the supported subset, \<^verbatim>\<open>schema/normalize.ts\<close>.  The input is any
  JSON value; it throws where the code throws.  A plain object that is filled by assignment loses a
  property named \<^verbatim>\<open>__proto__\<close>, which sets the prototype instead (\<open>own\<close>).  The lemmas say what a
  normalized schema looks like and that it is its own normal form.
\<close>

section \<open>Plain objects filled by assignment\<close>

definition own :: "(string \<times> 'a) list \<Rightarrow> (string \<times> 'a) list" where
  "own kvs = filter (\<lambda>p. fst p \<noteq> ''__proto__'') kvs"

definition is_extension_key :: "string \<Rightarrow> bool" where
  "is_extension_key k = starts_with k ''x-''"

definition kept_keys :: "string list" where
  "kept_keys = [''type'', ''format'', ''properties'', ''required'', ''additionalProperties'', ''items'',
     ''prefixItems'', ''const'', ''enum'', ''anyOf'', ''oneOf'', ''discriminator'', ''$ref'', ''title'', ''description'']"

primrec clone_json :: "json \<Rightarrow> json" where
  "clone_json JNull = JNull"
| "clone_json (JBool b) = JBool b"
| "clone_json (JNum n) = JNum n"
| "clone_json (JStr s) = JStr s"
| "clone_json (JArr xs) = JArr (map clone_json xs)"
| "clone_json (JObj kvs) = JObj (own (map (map_prod id clone_json) kvs))"

section \<open>Sorting\<close>

text \<open>\<^verbatim>\<open>String(v)\<close>: an object with a property \<^verbatim>\<open>toString\<close> of its own has none to call.\<close>

definition array_item :: "json \<times> string res \<Rightarrow> string res" where
  "array_item p = (if fst p = JNull then Inr [] else snd p)"

primrec js_string :: "json \<Rightarrow> string res" where
  "js_string JNull = Inr ''null''"
| "js_string (JBool b) = Inr (if b then ''true'' else ''false'')"
| "js_string (JNum n) = Inr (num_to_string n)"
| "js_string (JStr s) = Inr s"
| "js_string (JArr xs) = res_bind (res_all (map array_item (zip xs (map js_string xs)))) (\<lambda>parts. Inr (js_join '','' parts))"
| "js_string (JObj kvs) = (if ''toString'' \<in> set (map fst kvs) then Inl type_error else Inr ''[object Object]'')"

text \<open>\<^verbatim>\<open>sort()\<close> of the language: by the strings of the items, which it only asks for when there are two.\<close>

definition js_sort :: "json list \<Rightarrow> json list res" where
  "js_sort xs = (if length xs \<le> 1 then Inr xs
     else res_bind (res_all (map js_string xs)) (\<lambda>ks. Inr (map snd (sort_key fst (zip ks xs)))))"

section \<open>Discriminators\<close>

definition const_prop_names :: "(string \<times> json) list \<Rightarrow> string list" where
  "const_prop_names props = map fst (filter (\<lambda>p. field ''const'' (snd p) \<noteq> None) props)"

definition branch_props :: "json \<Rightarrow> (string \<times> json) list option" where
  "branch_props b = (if type_of b \<noteq> Some ''object'' then None
     else case field ''properties'' b of None \<Rightarrow> None
     | Some v \<Rightarrow> if js_truthy v then Some (entries_of v) else None)"

fun all_some :: "'a option list \<Rightarrow> 'a list option" where
  "all_some [] = Some []"
| "all_some (x # xs) = (case x of None \<Rightarrow> None | Some y \<Rightarrow>
     (case all_some xs of None \<Rightarrow> None | Some ys \<Rightarrow> Some (y # ys)))"

definition const_text :: "string \<Rightarrow> (string \<times> json) list \<Rightarrow> string" where
  "const_text name props = (case map_of props name of
     Some s \<Rightarrow> (case field ''const'' s of Some v \<Rightarrow> json_stringify v | None \<Rightarrow> []) | None \<Rightarrow> [])"

definition detect_discriminator :: "json list \<Rightarrow> string option" where
  "detect_discriminator bs =
     (if length bs < 2 then None
      else case all_some (map branch_props bs) of
        None \<Rightarrow> None
      | Some pss \<Rightarrow>
          let candidates = foldl (\<lambda>cs ps. filter (\<lambda>n. n \<in> set (const_prop_names ps)) cs)
            (const_prop_names (hd pss)) (tl pss) in
          find (\<lambda>name. distinct (map (const_text name) pss)) candidates)"

section \<open>Arrays of types\<close>

definition json_types :: "string list" where
  "json_types = [''null'', ''boolean'', ''number'', ''integer'', ''string'', ''array'', ''object'']"

definition types_ok :: "json list \<Rightarrow> bool" where
  "types_ok ts \<longleftrightarrow> ts \<noteq> [] \<and> distinct ts \<and> list_all (\<lambda>t. t \<in> JStr ` set json_types) ts"

definition branch_key_ok :: "json \<Rightarrow> string \<Rightarrow> bool" where
  "branch_key_ok t k \<longleftrightarrow>
     (t = JStr ''object'' \<or> k \<notin> {''properties'', ''required'', ''additionalProperties''}) \<and>
     (t = JStr ''array'' \<or> k \<notin> {''items'', ''prefixItems''}) \<and>
     (t \<in> {JStr ''string'', JStr ''number'', JStr ''integer''} \<or> k \<noteq> ''format'')"

text \<open>The branch for one of the types: the title, the description and the extensions stay outside.\<close>

definition type_branch :: "(string \<times> json) list \<Rightarrow> json \<Rightarrow> json" where
  "type_branch r t =
     (let branch = filter (\<lambda>p. fst p \<noteq> ''title'' \<and> fst p \<noteq> ''description'' \<and> \<not> is_extension_key (fst p)) r in
      JObj (filter (\<lambda>p. branch_key_ok t (fst p)) (jm_set (own branch) ''type'' t)))"

definition type_union :: "(string \<times> json) list \<Rightarrow> json list \<Rightarrow> json" where
  "type_union r ts = JObj (filter (\<lambda>p. fst p = ''title'') r @ filter (\<lambda>p. fst p = ''description'') r @
     filter (\<lambda>p. is_extension_key (fst p)) r @ [(''anyOf'', JArr (map (type_branch r) ts))])"

section \<open>One schema\<close>

text \<open>\<^verbatim>\<open>normalizeChild\<close>; \<open>None\<close> is \<^verbatim>\<open>undefined\<close>.\<close>

definition normalize_child :: "(json \<Rightarrow> json res) \<Rightarrow> string \<Rightarrow> json \<Rightarrow> json option res" where
  "normalize_child f k v =
     (if k = ''properties'' then
        (if is_object v then
           res_bind (res_all (map (\<lambda>p. res_bind (f (snd p)) (\<lambda>s. Inr (fst p, s))) (entries_of v))) (\<lambda>ps.
           Inr (Some (JObj (own ps))))
         else Inr (Some (JObj [])))
      else if k \<in> {''items'', ''additionalProperties''} then
        (if v = JBool False then Inr (Some v) else res_bind (f v) (\<lambda>s. Inr (Some s)))
      else if k \<in> {''prefixItems'', ''anyOf'', ''oneOf''} then
        (if is_array v then res_bind (res_all (map f (items_of v))) (\<lambda>ss. Inr (Some (JArr ss)))
         else Inr (Some (JArr [])))
      else if k = ''discriminator'' then
        Inr (case field ''propertyName'' v of
          Some (JStr name) \<Rightarrow> if name = [] then None else Some (JObj [(''propertyName'', JStr name)])
        | _ \<Rightarrow> None)
      else if k = ''enum'' then Inr (Some (if is_array v then v else JArr []))
      else if k = ''required'' then
        (if is_array v then res_bind (js_sort (items_of v)) (\<lambda>xs. Inr (Some (JArr xs))) else Inr (Some (JArr [])))
      else Inr (Some v))"

definition normalize_entry :: "(json \<Rightarrow> json res) \<Rightarrow> bool \<Rightarrow> string \<times> json \<Rightarrow> (string \<times> json) list res" where
  "normalize_entry f keep p =
     (if is_extension_key (fst p) then Inr (if keep then [(fst p, clone_json (snd p))] else [])
      else if fst p \<notin> set kept_keys then Inr []
      else res_bind (normalize_child f (fst p) (snd p)) (\<lambda>n. Inr (case n of None \<Rightarrow> [] | Some v \<Rightarrow> [(fst p, v)])))"

definition close_object :: "(string \<times> json) list \<Rightarrow> (string \<times> json) list" where
  "close_object out =
     (if map_of out ''type'' = Some (JStr ''object'') \<and> map_of out ''additionalProperties'' = None
      then out @ [(''additionalProperties'', JBool False)] else out)"

definition add_discriminator :: "(string \<times> json) list \<Rightarrow> (string \<times> json) list" where
  "add_discriminator out =
     (case map_of out ''oneOf'' of
        Some (JArr bs) \<Rightarrow>
          (if map_of out ''discriminator'' = None then
             (case detect_discriminator bs of
                None \<Rightarrow> out
              | Some name \<Rightarrow> out @ [(''discriminator'', JObj [(''propertyName'', JStr name)])])
           else out)
      | _ \<Rightarrow> jm_delete out ''discriminator'')"

definition collapse :: "(string \<times> json) list \<Rightarrow> json" where
  "collapse out = (if out = [] then JBool True else JObj out)"

lemma normalize_child_cong [fundef_cong]:
  assumes "k = k'" "v = v'" "\<And>t. t \<in> set (child_schemas (k', v')) \<Longrightarrow> f t = g t"
  shows "normalize_child f k v = normalize_child g k' v'"
proof -
  have props: "map (\<lambda>p. res_bind (f (snd p)) (\<lambda>s. Inr (fst p, s))) (entries_of v') =
      map (\<lambda>p. res_bind (g (snd p)) (\<lambda>s. Inr (fst p, s))) (entries_of v')" if "k' = ''properties''" "is_object v'"
  proof (rule map_cong [OF refl])
    fix p assume "p \<in> set (entries_of v')"
    with that have "snd p \<in> set (child_schemas (k', v'))"
      by (cases v') (simp_all add: child_schemas_def is_object_def entries_of_def)
    from assms(3) [OF this]
    show "res_bind (f (snd p)) (\<lambda>s. Inr (fst p, s)) = res_bind (g (snd p)) (\<lambda>s. Inr (fst p, s))" by simp
  qed
  have items: "map f (items_of v') = map g (items_of v')" if "k' \<in> {''prefixItems'', ''anyOf'', ''oneOf''}"
  proof (intro map_cong refl assms(3))
    have "child_schemas (k', v') = items_of v'" using that by (elim insertE) (simp_all add: child_schemas_def)
    then show "t \<in> set (child_schemas (k', v'))" if "t \<in> set (items_of v')" for t using that by simp
  qed
  have self: "f v' = g v'" if "k' \<in> {''items'', ''additionalProperties''}"
  proof (rule assms(3))
    show "v' \<in> set (child_schemas (k', v'))" using that by (elim insertE) (simp_all add: child_schemas_def)
  qed
  show ?thesis
  proof (cases "k' = ''properties''")
    case True
    then show ?thesis using props by (cases "is_object v'") (simp_all add: normalize_child_def assms(1,2) del: map_eq_conv)
  next
    case np: False
    show ?thesis
    proof (cases "k' \<in> {''items'', ''additionalProperties''}")
      case True
      with self [OF True] np show ?thesis by (simp add: normalize_child_def assms(1,2))
    next
      case ni: False
      show ?thesis
      proof (cases "k' \<in> {''prefixItems'', ''anyOf'', ''oneOf''}")
        case True
        with items [OF True] np ni show ?thesis by (simp add: normalize_child_def assms(1,2) del: map_eq_conv)
      next
        case False
        with np ni show ?thesis by (simp add: normalize_child_def assms(1,2))
      qed
    qed
  qed
qed

lemma normalize_entry_cong [fundef_cong]:
  "p = p' \<Longrightarrow> keep = keep' \<Longrightarrow> (\<And>t. t \<in> set (child_schemas p') \<Longrightarrow> f t = g t) \<Longrightarrow>
    normalize_entry f keep p = normalize_entry g keep' p'"
  unfolding normalize_entry_def
  using normalize_child_cong [OF refl refl, of "fst p'" "snd p'" f g] by auto

text \<open>Arrays of types are taken apart before anything else: they weigh more.\<close>

definition type_array :: "json \<Rightarrow> json list option" where
  "type_array s = (case field ''type'' s of Some (JArr ts) \<Rightarrow> Some ts | _ \<Rightarrow> None)"

function rank :: "json \<Rightarrow> nat" where
  "rank s = (if type_array s = None then 1 else 3) + foldr max (map rank (children s)) 0"
  by pat_completeness auto
termination
  by (relation "measure size") (auto dest: size_children)

declare rank.simps [simp del]

lemma foldr_max: "foldr max ns 0 \<le> (m :: nat) \<longleftrightarrow> (\<forall>n\<in>set ns. n \<le> m)"
  by (induction ns) auto

lemma rank_le: "rank s \<le> (if type_array s = None then 1 else 3) + m \<longleftrightarrow> (\<forall>t\<in>set (children s). rank t \<le> m)"
  by (subst rank.simps) (auto simp: foldr_max)

lemma rank_child: "t \<in> set (children s) \<Longrightarrow> rank t < rank s"
proof -
  assume t: "t \<in> set (children s)"
  then have "rank t \<le> foldr max (map rank (children s)) 0"
    using foldr_max [of "map rank (children s)" "foldr max (map rank (children s)) 0"] by simp
  then show ?thesis by (subst (2) rank.simps) simp
qed

lemma child_schemas_other: "fst p \<notin> {''anyOf'', ''oneOf'', ''prefixItems'', ''properties'', ''items'', ''additionalProperties''} \<Longrightarrow>
    child_schemas p = []"
  by (simp add: child_schemas_def)

lemma extension_children: "is_extension_key (fst p) \<Longrightarrow> child_schemas p = []"
  by (rule child_schemas_other) (auto simp: is_extension_key_def starts_with_def)

lemma set_jm_set_cases: "p \<in> set (jm_set m k v) \<Longrightarrow> p = (k, v) \<or> p \<in> set m"
  using set_jm_set_subset by fastforce

lemma children_type_branch: "set (children (type_branch r t)) \<subseteq> set (children (JObj r))"
  by (auto simp: children_def type_branch_def Let_def own_def child_schemas_other dest!: set_jm_set_cases)

lemma children_type_union: "set (children (type_union r ts)) = set (map (type_branch r) ts)"
  by (auto simp: children_def type_union_def items_of_def extension_children child_schemas_other)
    (auto simp: child_schemas_def items_of_def)

lemma map_of_keys: "map_of (filter (\<lambda>p. P (fst p)) xs) k = (if P k then map_of xs k else None)"
  by (induction xs) auto

lemma type_array_branch: "t \<in> JStr ` A \<Longrightarrow> type_array (type_branch r t) = None"
proof -
  assume t: "t \<in> JStr ` A"
  have "branch_key_ok t ''type''" by (simp add: branch_key_ok_def)
  then have "field ''type'' (type_branch r t) = Some t"
    using jm_get_set [of _ "''type''" t "''type''"] by (simp add: type_branch_def Let_def map_of_keys jm_get_def)
  with t show ?thesis by (auto simp: type_array_def)
qed

lemma rank_type_union:
  assumes "type_array (JObj r) = Some ts" "types_ok ts"
  shows "rank (type_union r ts) < rank (JObj r)"
proof -
  define m where "m = foldr max (map rank (children (JObj r))) 0"
  have m: "rank (JObj r) = 3 + m" by (subst rank.simps) (simp add: assms(1) m_def)
  have c: "rank t \<le> m" if "t \<in> set (children (JObj r))" for t
    using that foldr_max [of "map rank (children (JObj r))" m] by (simp add: m_def)
  have "type_array (type_union r ts) = None"
    using map_of_keys [of "\<lambda>k. k = ''title''" r "''type''"] map_of_keys [of "\<lambda>k. k = ''description''" r "''type''"]
    by (simp add: type_array_def type_union_def map_add_def map_of_keys is_extension_key_def starts_with_def)
  moreover have "rank t \<le> Suc m" if "t \<in> set (children (type_union r ts))" for t
  proof -
    from that obtain u where u: "t = type_branch r u" "u \<in> set ts" by (auto simp: children_type_union)
    with assms(2) have "u \<in> JStr ` set json_types" by (simp add: types_ok_def list_all_iff)
    with u have "type_array t = None" by (simp add: type_array_branch)
    with rank_le [of t m] c children_type_branch [of r u] u show ?thesis by auto
  qed
  ultimately show ?thesis using rank_le [of "type_union r ts" "Suc m"] m by auto
qed

function normalize :: "bool \<Rightarrow> json \<Rightarrow> json res" where
  "normalize keep raw = (case raw of
     JBool b \<Rightarrow> Inr raw
   | JNull \<Rightarrow> Inl (JsError ''normalizeJsonSchema: expected object, got object'')
   | JNum _ \<Rightarrow> Inl (JsError ''normalizeJsonSchema: expected object, got number'')
   | JStr _ \<Rightarrow> Inl (JsError ''normalizeJsonSchema: expected object, got string'')
   | JArr _ \<Rightarrow> Inl (JsError ''normalizeJsonSchema: expected object, got array'')
   | JObj r \<Rightarrow>
       if map_of r ''not'' = Some (JObj []) then Inr (JBool False)
       else (case type_array raw of
         Some ts \<Rightarrow>
           if \<not> types_ok ts then Inl (JsError ''normalizeJsonSchema: type array must contain distinct JSON Schema type names'')
           else normalize keep (type_union r ts)
       | None \<Rightarrow>
           res_bind (res_all (map (\<lambda>p. normalize_entry (normalize keep) keep p) r)) (\<lambda>outs.
           Inr (collapse (add_discriminator (close_object (concat outs)))))))"
  by pat_completeness auto
termination
proof (relation "measure (rank \<circ> snd)", goal_cases)
  case 2
  then show ?case by simp (rule rank_child, auto simp: children_def)
next
  case 3
  then show ?case using rank_type_union by simp
qed simp_all

declare normalize.simps [simp del]

definition normalize_json_schema :: "json \<Rightarrow> bool option \<Rightarrow> json res" where
  "normalize_json_schema raw keepExtensions = normalize (case keepExtensions of None \<Rightarrow> True | Some b \<Rightarrow> b) raw"


section \<open>The loop over the entries\<close>

definition entries_kept :: "bool \<Rightarrow> (string \<times> json) list \<Rightarrow> (string \<times> json) list res" where
  "entries_kept keep r = res_bind (res_all (map (normalize_entry (normalize keep) keep) r)) (\<lambda>outs. Inr (concat outs))"

lemma entries_kept_simps:
  "entries_kept keep [] = Inr []"
  "entries_kept keep (p # r) = res_bind (normalize_entry (normalize keep) keep p) (\<lambda>o1.
    res_bind (entries_kept keep r) (\<lambda>os. Inr (o1 @ os)))"
proof -
  show "entries_kept keep [] = Inr []" by (simp add: entries_kept_def)
  show "entries_kept keep (p # r) = res_bind (normalize_entry (normalize keep) keep p) (\<lambda>o1.
    res_bind (entries_kept keep r) (\<lambda>os. Inr (o1 @ os)))"
    unfolding entries_kept_def
    by (cases "normalize_entry (normalize keep) keep p"; cases "res_all (map (normalize_entry (normalize keep) keep) r)") simp_all
qed

lemma entries_kept_append:
  "entries_kept keep (r @ r') = res_bind (entries_kept keep r) (\<lambda>o1. res_bind (entries_kept keep r') (\<lambda>o2. Inr (o1 @ o2)))"
proof (induction r)
  case Nil
  then show ?case by (cases "entries_kept keep r'") (simp_all add: entries_kept_simps)
next
  case (Cons p r)
  then show ?case
    by (cases "normalize_entry (normalize keep) keep p"; cases "entries_kept keep r"; cases "entries_kept keep r'")
      (simp_all add: entries_kept_simps)
qed

lemma normalize_JObj:
  assumes "map_of r ''not'' \<noteq> Some (JObj [])" "type_array (JObj r) = None"
  shows "normalize keep (JObj r) = res_bind (entries_kept keep r) (\<lambda>o1. Inr (collapse (add_discriminator (close_object o1))))"
  using assms by (subst normalize.simps)
    (cases "res_all (map (normalize_entry (normalize keep) keep) r)"; simp add: entries_kept_def)

section \<open>What a normalized schema looks like\<close>

definition normal_entry :: "bool \<Rightarrow> string \<times> json \<Rightarrow> bool" where
  "normal_entry keep p = (let k = fst p; v = snd p in
     if is_extension_key k then keep \<and> clone_json v = v
     else k \<in> set kept_keys \<and>
       (k = ''properties'' \<longrightarrow> is_object v \<and> own (entries_of v) = entries_of v) \<and>
       (k \<in> {''prefixItems'', ''anyOf'', ''oneOf'', ''enum''} \<longrightarrow> is_array v) \<and>
       (k = ''required'' \<longrightarrow> is_array v \<and> js_sort (items_of v) = Inr (items_of v)) \<and>
       (k = ''discriminator'' \<longrightarrow> (case v of JObj [(a, JStr name)] \<Rightarrow> a = ''propertyName'' | _ \<Rightarrow> False)))"

text \<open>A discriminator without a name is dropped, but one may be detected.\<close>

definition no_name :: "string \<times> json" where
  "no_name = (''discriminator'', JObj [(''propertyName'', JStr [])])"

definition normal_fields :: "bool \<Rightarrow> (string \<times> json) list \<Rightarrow> bool" where
  "normal_fields keep kvs \<longleftrightarrow> kvs \<noteq> [] \<and> list_all (normal_entry keep) kvs \<and> type_array (JObj kvs) = None \<and>
     (map_of kvs ''type'' = Some (JStr ''object'') \<longrightarrow> map_of kvs ''additionalProperties'' \<noteq> None) \<and>
     (case map_of kvs ''oneOf'' of
        Some v \<Rightarrow> map_of kvs ''discriminator'' \<noteq> None \<or> detect_discriminator (items_of v) = None
      | None \<Rightarrow> map_of kvs ''discriminator'' = None) \<and>
     (no_name \<in> set kvs \<longrightarrow> detect_discriminator (items_of (the (map_of kvs ''oneOf''))) = Some [] \<and>
        kvs = jm_delete kvs ''discriminator'' @ [no_name])"

function normal :: "bool \<Rightarrow> json \<Rightarrow> bool" where
  "normal keep s = (case s of
     JBool _ \<Rightarrow> True
   | JObj kvs \<Rightarrow> normal_fields keep kvs \<and> list_all (normal keep) (children s)
   | _ \<Rightarrow> False)"
  by pat_completeness auto
termination
  by (relation "measure (size \<circ> snd)") (auto dest: size_children)

declare normal.simps [simp del]

lemma normal_simps:
  "normal keep (JBool b)" "normal keep (JObj kvs) \<longleftrightarrow> normal_fields keep kvs \<and> list_all (normal keep) (children (JObj kvs))"
  by (simp_all add: normal.simps)

lemma own_own [simp]: "own (own kvs) = own kvs"
  by (simp add: own_def)

lemma own_map [simp]: "own (map (map_prod id f) kvs) = map (map_prod id f) (own kvs)"
  by (simp add: own_def filter_map o_def)

lemma clone_json_idem [simp]: "clone_json (clone_json v) = clone_json v"
proof (induction v)
  case (JObj kvs)
  have "map_prod id clone_json (map_prod id clone_json p) = map_prod id clone_json p" if "p \<in> set kvs" for p
    using JObj.IH [OF that, of "snd p"] by (cases p) simp
  then show ?case by simp (simp add: own_def)
qed simp_all

lemma js_sort_idem: "js_sort xs = Inr ys \<Longrightarrow> js_sort ys = Inr ys"
proof (cases "length xs \<le> 1")
  case False
  assume "js_sort xs = Inr ys"
  with False obtain ks where ks: "map js_string xs = map Inr ks" and ys: "ys = map snd (sort_key fst (zip ks xs))"
    by (auto simp: js_sort_def res_bind_Inr_iff res_all_Inr_iff)
  let ?zs = "sort_key fst (zip ks xs)"
  from ks have len: "length ks = length xs" by (metis length_map)
  have "js_string (snd z) = Inr (fst z)" if "z \<in> set ?zs" for z
    using that nth_map [of _ xs js_string] nth_map [of _ ks Inr] len by (auto simp: set_zip ks)
  then have "map js_string ys = map Inr (map fst ?zs)" by (simp add: ys)
  then have "js_sort ys = Inr (map snd (sort_key fst (zip (map fst ?zs) (map snd ?zs))))"
    using False len by (simp only: js_sort_def res_all_Inr res_bind_simps) (simp add: ys)
  also have "sort_key fst (zip (map fst ?zs) (map snd ?zs)) = ?zs"
    by (simp only: zip_map_fst_snd) (rule sort_key_id_if_sorted, rule sorted_sort_key)
  finally show ?thesis by (simp add: ys)
qed (simp add: js_sort_def split: if_splits)

text \<open>What becomes of one entry.\<close>

lemma normalize_child_array:
  "k \<in> {''prefixItems'', ''anyOf'', ''oneOf''} \<Longrightarrow> normalize_child f k v =
    (if is_array v then res_bind (res_all (map f (items_of v))) (\<lambda>ss. Inr (Some (JArr ss))) else Inr (Some (JArr [])))"
  by (elim insertE) (simp_all add: normalize_child_def)

lemma normalize_child_normal:
  assumes "normalize_child f k v = Inr (Some n)" "k \<in> set kept_keys" "\<not> is_extension_key k"
    "\<And>t s. t \<in> set (child_schemas (k, v)) \<Longrightarrow> f t = Inr s \<Longrightarrow> normal keep s"
  shows "normal_entry keep (k, n)" "\<forall>t\<in>set (child_schemas (k, n)). normal keep t"
proof -
  have all: "\<forall>s\<in>set ss. normal keep s" if "res_all (map f ts) = Inr ss" "set ts \<subseteq> set (child_schemas (k, v))" for ts ss
  proof
    fix s assume "s \<in> set ss"
    moreover from that(1) have "map f ts = map Inr ss" by (simp add: res_all_Inr_iff)
    ultimately obtain t where "t \<in> set ts" "f t = Inr s" by (metis (no_types, lifting) imageE image_eqI list.set_map)
    with assms(4) that(2) show "normal keep s" by blast
  qed
  have "normal_entry keep (k, n) \<and> (\<forall>t\<in>set (child_schemas (k, n)). normal keep t)"
  proof (cases "k = ''properties''")
    case True
    show ?thesis
    proof (cases "is_object v")
      case obj: True
      with assms(1) True obtain ps where ps: "n = JObj (own ps)"
          "res_all (map (\<lambda>p. res_bind (f (snd p)) (\<lambda>s. Inr (fst p, s))) (entries_of v)) = Inr ps"
        by (auto simp: normalize_child_def res_bind_Inr_iff)
      have "normal keep (snd q)" if "q \<in> set ps" for q
      proof -
        from ps(2) have "map (\<lambda>p. res_bind (f (snd p)) (\<lambda>s. Inr (fst p, s))) (entries_of v) = map Inr ps"
          by (simp add: res_all_Inr_iff)
        with that obtain p where "p \<in> set (entries_of v)" "res_bind (f (snd p)) (\<lambda>s. Inr (fst p, s)) = Inr q"
          by (metis (no_types, lifting) imageE image_eqI list.set_map)
        then have "f (snd p) = Inr (snd q)" "snd p \<in> set (child_schemas (k, v))"
          using True obj by (auto simp: res_bind_Inr_iff child_schemas_def entries_of_def is_object_def split: json.splits)
        with assms(4) show ?thesis by blast
      qed
      with True ps(1) assms(3) show ?thesis
        by (auto simp: normal_entry_def is_object_def entries_of_def kept_keys_def child_schemas_def own_def)
    next
      case False
      with assms(1) True have "n = JObj []" by (simp add: normalize_child_def)
      with assms(3) True show ?thesis
        by (simp add: normal_entry_def is_object_def entries_of_def kept_keys_def child_schemas_def own_def)
    qed
  next
    case np: False
    show ?thesis
    proof (cases "k \<in> {''items'', ''additionalProperties''}")
      case True
      then have "v \<in> set (child_schemas (k, v))" by (elim insertE) (simp_all add: child_schemas_def)
      with assms(1,4) True np have "normal keep n"
        by (auto simp: normalize_child_def normal_simps res_bind_Inr_iff split: if_splits)
      with True np assms(2,3) show ?thesis by (elim insertE) (simp_all add: normal_entry_def child_schemas_def)
    next
      case ni: False
      show ?thesis
      proof (cases "k \<in> {''prefixItems'', ''anyOf'', ''oneOf''}")
        case True
        have "is_array n \<and> (\<forall>t\<in>set (items_of n). normal keep t)"
        proof (cases "is_array v")
          case arr: True
          with assms(1) normalize_child_array [OF True] obtain ss where "n = JArr ss" "res_all (map f (items_of v)) = Inr ss"
            by (auto simp: res_bind_Inr_iff)
          moreover have "set (items_of v) \<subseteq> set (child_schemas (k, v))"
            using True by (elim insertE) (simp_all add: child_schemas_def)
          ultimately show ?thesis using all by (simp add: is_array_def items_of_def)
        next
          case False
          with assms(1) normalize_child_array [OF True] have "n = JArr []" by simp
          then show ?thesis by (simp add: is_array_def items_of_def)
        qed
        with True assms(2,3) show ?thesis by (elim insertE) (simp_all add: normal_entry_def child_schemas_def)
      next
        case no: False
        have "child_schemas (k, n) = []" using np ni no by (intro child_schemas_other) simp
        moreover have "normal_entry keep (k, n)"
        proof (cases "k = ''required''")
          case True
          with assms(1,3) show ?thesis
            by (auto simp: normalize_child_def normal_entry_def kept_keys_def is_array_def items_of_def js_sort_def [of "[]"] res_bind_Inr_iff
                dest: js_sort_idem split: if_splits json.splits)
        next
          case nr: False
          have "k = ''enum'' \<Longrightarrow> is_array n"
            using assms(1) by (auto simp: normalize_child_def is_array_def split: if_splits)
          moreover have "case n of JObj [(a, JStr name)] \<Rightarrow> a = ''propertyName'' | _ \<Rightarrow> False" if "k = ''discriminator''"
            using that assms(1) by (auto simp: normalize_child_def split: option.splits json.splits if_splits)
          ultimately show ?thesis
            using assms(2,3) np ni no nr by (simp add: normal_entry_def)
        qed
        ultimately show ?thesis by simp
      qed
    qed
  qed
  then show "normal_entry keep (k, n)" "\<forall>t\<in>set (child_schemas (k, n)). normal keep t" by auto
qed


lemma normalize_entries_normal:
  assumes "res_all (map (normalize_entry f keep) r) = Inr outs"
    "\<And>p t s. p \<in> set r \<Longrightarrow> t \<in> set (child_schemas p) \<Longrightarrow> f t = Inr s \<Longrightarrow> normal keep s"
  shows "list_all (normal_entry keep) (concat outs)" "\<forall>t\<in>set (children (JObj (concat outs))). normal keep t"
    "map_of (concat outs) ''type'' = map_of r ''type''"
proof -
  have one: "list_all (normal_entry keep) o' \<and> (\<forall>q\<in>set o'. \<forall>t\<in>set (child_schemas q). normal keep t)"
    if "normalize_entry f keep p = Inr o'" "p \<in> set r" for p o'
  proof (cases "is_extension_key (fst p) \<or> fst p \<notin> set kept_keys")
    case True
    show ?thesis
    proof (cases "is_extension_key (fst p) \<and> keep")
      case True
      with that(1) have "o' = [(fst p, clone_json (snd p))]" by (simp add: normalize_entry_def)
      with True show ?thesis by (simp add: normal_entry_def extension_children)
    next
      case False
      with that(1) \<open>is_extension_key (fst p) \<or> fst p \<notin> set kept_keys\<close> have "o' = []"
        by (cases "is_extension_key (fst p)") (simp_all add: normalize_entry_def)
      then show ?thesis by simp
    qed
  next
    case False
    with that(1) obtain n where n: "normalize_child f (fst p) (snd p) = Inr n" "o' = (case n of None \<Rightarrow> [] | Some v \<Rightarrow> [(fst p, v)])"
      by (auto simp: normalize_entry_def res_bind_Inr_iff)
    show ?thesis
    proof (cases n)
      case (Some v)
      have "normal_entry keep (fst p, v)" "\<forall>t\<in>set (child_schemas (fst p, v)). normal keep t"
        by (rule normalize_child_normal [of f "fst p" "snd p"]; use n(1) Some False assms(2) [OF that(2)] in simp)+
      with n(2) Some show ?thesis by simp
    qed (simp add: n(2))
  qed
  from assms(1) have eq: "map (normalize_entry f keep) r = map Inr outs" by (simp add: res_all_Inr_iff)
  have "list_all (normal_entry keep) o' \<and> (\<forall>q\<in>set o'. \<forall>t\<in>set (child_schemas q). normal keep t)" if "o' \<in> set outs" for o'
  proof -
    from that eq obtain p where "p \<in> set r" "normalize_entry f keep p = Inr o'"
      by (metis (no_types, lifting) imageE image_eqI list.set_map)
    with one show ?thesis by blast
  qed
  then show "list_all (normal_entry keep) (concat outs)" "\<forall>t\<in>set (children (JObj (concat outs))). normal keep t"
    by (auto simp: list_all_iff children_def)
  have "normalize_entry f keep (''type'', v) = Inr [(''type'', v)]" for v
    by (simp add: normalize_entry_def normalize_child_def kept_keys_def is_extension_key_def starts_with_def)
  moreover have "normalize_entry f keep p = Inr o' \<Longrightarrow> fst p \<noteq> ''type'' \<Longrightarrow> map_of o' ''type'' = None" for p o'
    by (auto simp: normalize_entry_def res_bind_Inr_iff split: if_splits option.splits)
  ultimately show "map_of (concat outs) ''type'' = map_of r ''type''"
    using eq
  proof (induction r arbitrary: outs)
    case (Cons p r)
    then obtain o1 os where "outs = o1 # os" "normalize_entry f keep p = Inr o1" "map (normalize_entry f keep) r = map Inr os"
      by (cases outs) auto
    with Cons show ?case by (cases p) (auto simp: map_add_def split: option.split)
  qed simp
qed

text \<open>The last steps: closing objects, hinting at discriminators, collapsing the empty schema.\<close>

lemma close_object_normal:
  "list_all (normal_entry keep) out \<Longrightarrow> list_all (normal_entry keep) (close_object out)"
  "\<forall>t\<in>set (children (JObj out)). normal keep t \<Longrightarrow> \<forall>t\<in>set (children (JObj (close_object out))). normal keep t"
  "map_of (close_object out) ''type'' = map_of out ''type''"
  "map_of (close_object out) ''type'' = Some (JStr ''object'') \<longrightarrow> map_of (close_object out) ''additionalProperties'' \<noteq> None"
  by (auto simp: close_object_def normal_entry_def kept_keys_def is_extension_key_def starts_with_def children_def
      child_schemas_def normal_simps map_add_def split: option.splits)

lemma jm_delete_other: "k \<noteq> k' \<Longrightarrow> map_of (jm_delete m k) k' = map_of m k'"
  using jm_get_delete [of m k k'] by (simp add: jm_get_def)

lemma jm_delete_self: "map_of (jm_delete m k) k = None"
  using jm_get_delete [of m k k] by (simp add: jm_get_def)


lemma normalize_entries_named:
  assumes "res_all (map (normalize_entry f keep) r) = Inr outs"
  shows "no_name \<notin> set (concat outs)"
proof
  assume "no_name \<in> set (concat outs)"
  moreover from assms have "map (normalize_entry f keep) r = map Inr outs" by (simp add: res_all_Inr_iff)
  ultimately obtain p o' where "normalize_entry f keep p = Inr o'" "no_name \<in> set o'"
    by (metis (no_types, lifting) UN_E image_eqI imageE list.set_map set_concat)
  moreover have "\<not> is_extension_key (fst no_name)" by (simp add: no_name_def is_extension_key_def starts_with_def)
  ultimately show False
    by (auto simp: normalize_entry_def normalize_child_def no_name_def res_bind_Inr_iff
        dest: sym [of "''discriminator''"] split: if_splits option.splits json.splits)
qed

lemma map_of_entry: "list_all (normal_entry keep) kvs \<Longrightarrow> map_of kvs k = Some v \<Longrightarrow> normal_entry keep (k, v)"
  by (auto simp: list_all_iff dest: map_of_SomeD)

lemma normal_entry_array:
  "normal_entry keep (k, v) \<Longrightarrow> k \<in> {''prefixItems'', ''anyOf'', ''oneOf'', ''enum''} \<Longrightarrow> v = JArr (items_of v)"
  by (auto simp: normal_entry_def Let_def is_array_def items_of_def is_extension_key_def starts_with_def split: if_splits json.splits)

lemma finish_normal:
  assumes out: "list_all (normal_entry keep) out" "\<forall>t\<in>set (children (JObj out)). normal keep t" "no_name \<notin> set out"
    "type_array (JObj out) = None"
  shows "normal keep (collapse (add_discriminator (close_object out)))"
proof -
  define c where "c = close_object out"
  have c: "list_all (normal_entry keep) c" "\<forall>t\<in>set (children (JObj c)). normal keep t" "no_name \<notin> set c"
      "type_array (JObj c) = None"
      "map_of c ''type'' = Some (JStr ''object'') \<longrightarrow> map_of c ''additionalProperties'' \<noteq> None"
    using close_object_normal(1) [of keep out] close_object_normal(2) [of out keep] close_object_normal(3,4) [of out] out unfolding c_def
    by (simp_all add: type_array_def) (auto simp: close_object_def no_name_def)
  have "normal keep (collapse (add_discriminator c))"
  proof (cases "map_of c ''oneOf''")
    case None
    then have d: "add_discriminator c = jm_delete c ''discriminator''" by (simp add: add_discriminator_def)
    have "normal_fields keep (add_discriminator c)" if "add_discriminator c \<noteq> []"
      using that c None unfolding normal_fields_def d
      by (auto simp: list_all_iff set_jm_delete type_array_def jm_delete_other jm_delete_self)
    moreover have "\<forall>t\<in>set (children (JObj (add_discriminator c))). normal keep t"
      using c(2) by (auto simp: d children_def set_jm_delete)
    ultimately show ?thesis by (auto simp: collapse_def normal_simps list_all_iff)
  next
    case (Some v)
    from normal_entry_array [OF map_of_entry [OF c(1) Some]] have v: "v = JArr (items_of v)" by simp
    from Some have ne: "c \<noteq> []" by auto
    show ?thesis
    proof (cases "map_of c ''discriminator'' = None \<and> detect_discriminator (items_of v) \<noteq> None")
      case False
      have d: "add_discriminator c = c"
        using False Some v by (cases v) (auto simp: add_discriminator_def items_of_def split: option.split)
      with c Some False ne have "normal_fields keep c"
        unfolding normal_fields_def by auto
      with c(2) ne d show ?thesis by (simp add: collapse_def normal_simps list_all_iff)
    next
      case True
      then obtain name where name: "detect_discriminator (items_of v) = Some name" by auto
      let ?e = "[(''discriminator'', JObj [(''propertyName'', JStr name)])]"
      have d: "add_discriminator c = c @ ?e"
        using True Some v name by (cases v) (auto simp: add_discriminator_def items_of_def)
      have "jm_delete c ''discriminator'' = c"
        using True by (force simp: jm_delete_def map_of_eq_None_iff intro!: filter_True)
      then have "jm_delete (c @ ?e) ''discriminator'' = c" by (simp add: jm_delete_def)
      moreover have "map_of (c @ ?e) k = (if k = ''discriminator'' then Some (snd (hd ?e)) else map_of c k)" for k
        using True by (auto simp: map_add_def split: option.split)
      ultimately have "normal_fields keep (c @ ?e)"
        using c Some name unfolding normal_fields_def
        by (simp add: type_array_def)
          (auto simp: normal_entry_def kept_keys_def is_extension_key_def starts_with_def no_name_def)
      with c(2) d show ?thesis
        by (simp add: collapse_def normal_simps list_all_iff) (auto simp: children_def child_schemas_def)
    qed
  qed
  then show ?thesis by (simp add: c_def)
qed

lemma normalize_normal: "normalize keep raw = Inr s \<Longrightarrow> normal keep s"
proof (induction keep raw arbitrary: s rule: normalize.induct)
  case (1 keep raw)
  note n = "1.prems" [unfolded normalize.simps [of keep raw]]
  show ?case
  proof (cases raw)
    case (JObj r)
    show ?thesis
    proof (cases "map_of r ''not'' = Some (JObj [])")
      case True
      with n JObj show ?thesis by (auto simp: normal_simps)
    next
      case nn: False
      show ?thesis
      proof (cases "type_array raw")
        case (Some ts)
        with n JObj nn have "types_ok ts" "normalize keep (type_union r ts) = Inr s" by (auto split: if_splits)
        with "1.IH"(2) [OF JObj nn Some] show ?thesis by simp
      next
        case None
        with n JObj nn obtain outs where o: "res_all (map (normalize_entry (normalize keep) keep) r) = Inr outs"
            "s = collapse (add_discriminator (close_object (concat outs)))"
          by (auto simp: res_bind_Inr_iff)
        have IH: "normal keep u" if "p \<in> set r" "t \<in> set (child_schemas p)" "normalize keep t = Inr u" for p t u
          using "1.IH"(1) [OF JObj nn None that] .
        note e = normalize_entries_normal [OF o(1) IH]
        have "type_array (JObj (concat outs)) = None" using None e(3) JObj by (simp add: type_array_def)
        with finish_normal [OF e(1,2) normalize_entries_named [OF o(1)]] o(2) show ?thesis by simp
      qed
    qed
  qed (use n in \<open>auto simp: normal_simps\<close>)
qed


section \<open>A normalized schema is its own normal form\<close>

lemma res_all_map_id:
  assumes "\<And>x. x \<in> set xs \<Longrightarrow> f x = Inr x"
  shows "res_all (map f xs) = Inr xs"
proof -
  from assms have "map f xs = map Inr xs" by simp
  then show ?thesis by (simp only: res_all_Inr)
qed

lemma normalize_child_fixed:
  assumes "normal_entry keep (k, v)" "\<not> is_extension_key k" "(k, v) \<noteq> no_name"
    "\<And>t. t \<in> set (child_schemas (k, v)) \<Longrightarrow> f t = Inr t"
  shows "normalize_child f k v = Inr (Some v)"
proof (cases "k = ''properties''")
  case True
  with assms obtain ps where v: "v = JObj ps" "own ps = ps"
    by (auto simp: normal_entry_def is_object_def entries_of_def split: json.splits)
  have "res_all (map (\<lambda>p. res_bind (f (snd p)) (\<lambda>s. Inr (fst p, s))) ps) = Inr ps"
    using assms(4) v True by (intro res_all_map_id) (simp add: child_schemas_def)
  with True v show ?thesis by (simp add: normalize_child_def is_object_def entries_of_def)
next
  case np: False
  show ?thesis
  proof (cases "k \<in> {''items'', ''additionalProperties''}")
    case True
    then have "v \<in> set (child_schemas (k, v))" by (elim insertE) (simp_all add: child_schemas_def)
    with assms(4) True np show ?thesis by (simp add: normalize_child_def)
  next
    case ni: False
    show ?thesis
    proof (cases "k \<in> {''prefixItems'', ''anyOf'', ''oneOf''}")
      case True
      then have "k \<in> {''prefixItems'', ''anyOf'', ''oneOf'', ''enum''}" by (elim insertE) simp_all
      then have v: "v = JArr (items_of v)" by (rule normal_entry_array [OF assms(1)])
      have "res_all (map f (items_of v)) = Inr (items_of v)"
        using True by (intro res_all_map_id assms(4)) (elim insertE; simp add: child_schemas_def)
      moreover have "is_array v" by (subst v) (simp add: is_array_def)
      ultimately show ?thesis using normalize_child_array [OF True] v by simp
    next
      case no: False
      from assms(1,2) have e: "k = ''enum'' \<Longrightarrow> is_array v"
          "k = ''required'' \<Longrightarrow> is_array v \<and> js_sort (items_of v) = Inr (items_of v)"
          "k = ''discriminator'' \<Longrightarrow> (case v of JObj [(a, JStr name)] \<Rightarrow> a = ''propertyName'' | _ \<Rightarrow> False)"
        by (simp_all add: normal_entry_def)
      show ?thesis
      proof (cases "k = ''discriminator''")
        case True
        with e(3) obtain name where v: "v = JObj [(''propertyName'', JStr name)]"
          by (auto split: json.splits list.splits)
        with True assms(3) have "name \<noteq> []" by (auto simp: no_name_def)
        with True v show ?thesis by (simp add: normalize_child_def)
      next
        case nd: False
        show ?thesis
        proof (cases "k = ''required''")
          case True
          with e(2) show ?thesis by (cases v) (simp_all add: normalize_child_def is_array_def items_of_def)
        next
          case False
          with nd np ni no e(1) show ?thesis by (simp add: normalize_child_def)
        qed
      qed
    qed
  qed
qed

lemma normalize_entry_fixed:
  assumes "normal_entry True p" "\<And>t. t \<in> set (child_schemas p) \<Longrightarrow> f t = Inr t"
  shows "normalize_entry f True p = Inr (if p = no_name then [] else [p])"
proof -
  have nn: "\<not> is_extension_key (fst no_name)" "normalize_child f (fst no_name) (snd no_name) = Inr None"
    by (simp_all add: no_name_def is_extension_key_def starts_with_def normalize_child_def)
  show ?thesis
  proof (cases "is_extension_key (fst p)")
    case True
    with nn(1) have "p \<noteq> no_name" by auto
    with assms(1) True show ?thesis by (cases p) (simp add: normalize_entry_def normal_entry_def)
  next
    case False
    with assms(1) have "fst p \<in> set kept_keys" by (simp add: normal_entry_def Let_def)
    with False nn normalize_child_fixed [of True "fst p" "snd p" f] assms show ?thesis
      by (auto simp: normalize_entry_def)
  qed
qed

lemma concat_drop: "concat (map (\<lambda>x. if x = a then [] else [x]) xs) = filter (\<lambda>x. x \<noteq> a) xs"
  by (induction xs) auto

lemma normal_fixed: "normal True s \<Longrightarrow> normalize True s = Inr s"
proof (induction s rule: measure_induct_rule [of size])
  case (less s)
  show ?case
  proof (cases s)
    case (JObj kvs)
    with less.prems have n: "normal_fields True kvs" "\<forall>t\<in>set (children s). normal True t"
      by (simp_all add: normal_simps list_all_iff)
    then have e: "list_all (normal_entry True) kvs" "kvs \<noteq> []" "type_array (JObj kvs) = None"
      by (simp_all add: normal_fields_def)
    have "\<not> normal_entry True (''not'', v)" for v
      by (simp add: normal_entry_def kept_keys_def is_extension_key_def starts_with_def)
    with map_of_entry [OF e(1)] have nnot: "map_of kvs ''not'' \<noteq> Some (JObj [])" by blast
    have "normalize_entry (normalize True) True p = Inr (if p = no_name then [] else [p])" if "p \<in> set kvs" for p
    proof (rule normalize_entry_fixed)
      show "normal_entry True p" using e(1) that by (simp add: list_all_iff)
      show "normalize True t = Inr t" if "t \<in> set (child_schemas p)" for t
      proof (rule less.IH)
        have "t \<in> set (children s)" using that \<open>p \<in> set kvs\<close> JObj by (auto simp: children_def)
        then show "size t < size s" "normal True t" using size_children n(2) by auto
      qed
    qed
    then have "map (normalize_entry (normalize True) True) kvs = map Inr (map (\<lambda>p. if p = no_name then [] else [p]) kvs)" by simp
    then have "normalize True s = Inr (collapse (add_discriminator (close_object (filter (\<lambda>p. p \<noteq> no_name) kvs))))"
      using JObj nnot e(3) concat_drop [of no_name kvs]
      by (subst normalize.simps) (simp only: json.case if_False option.case res_all_Inr res_bind_simps)
    also have "add_discriminator (close_object (filter (\<lambda>p. p \<noteq> no_name) kvs)) = kvs"
    proof (cases "no_name \<in> set kvs")
      case False
      then have f: "filter (\<lambda>p. p \<noteq> no_name) kvs = kvs" by (auto intro: filter_True)
      have c: "close_object kvs = kvs" using n(1) by (auto simp: close_object_def normal_fields_def)
      show ?thesis
      proof (cases "map_of kvs ''oneOf''")
        case None
        with n(1) have "map_of kvs ''discriminator'' = None" by (simp add: normal_fields_def)
        then have "jm_delete kvs ''discriminator'' = kvs"
          by (force simp: jm_delete_def map_of_eq_None_iff intro!: filter_True)
        with None f c show ?thesis by (simp add: add_discriminator_def)
      next
        case (Some v)
        from normal_entry_array [OF map_of_entry [OF e(1) Some]] have "v = JArr (items_of v)" by simp
        with Some n(1) f c show ?thesis
          by (cases v) (auto simp: add_discriminator_def normal_fields_def items_of_def split: option.split)
      qed
    next
      case True
      let ?d = "jm_delete kvs ''discriminator''"
      from True n(1) have kvs: "kvs = ?d @ [no_name]" and det: "detect_discriminator (items_of (the (map_of kvs ''oneOf''))) = Some []"
        by (simp_all add: normal_fields_def)
      have "no_name \<notin> set ?d" by (simp add: set_jm_delete no_name_def)
      then have f: "filter (\<lambda>p. p \<noteq> no_name) kvs = ?d" by (subst kvs) (auto intro: filter_True)
      have o: "map_of ?d k = map_of kvs k" if "k \<noteq> ''discriminator''" for k using that by (simp add: jm_delete_other)
      have c: "close_object ?d = ?d" using n(1) by (auto simp: close_object_def normal_fields_def o)
      have "''discriminator'' \<in> fst ` set kvs" using True by (rule image_eqI [rotated]) (simp add: no_name_def)
      then have "map_of kvs ''discriminator'' \<noteq> None" by (simp add: map_of_eq_None_iff)
      with n(1) obtain v where v: "map_of kvs ''oneOf'' = Some v" by (auto simp: normal_fields_def split: option.splits)
      from normal_entry_array [OF map_of_entry [OF e(1) v]] have "v = JArr (items_of v)" by simp
      with v det f c kvs show ?thesis
        by (cases v) (auto simp: add_discriminator_def items_of_def o jm_delete_self no_name_def)
    qed
    finally show ?thesis using JObj e(2) by (simp add: collapse_def)
  qed (use less.prems in \<open>simp_all add: normal.simps normalize.simps\<close>)
qed


lemma normal_keeps: "normal False s \<Longrightarrow> normal True s"
proof (induction s rule: measure_induct_rule [of size])
  case (less s)
  show ?case
  proof (cases s)
    case (JObj kvs)
    have "normal_entry False p \<Longrightarrow> normal_entry True p" for p by (auto simp: normal_entry_def Let_def)
    then have "normal_fields False kvs \<Longrightarrow> normal_fields True kvs" by (auto simp: normal_fields_def list_all_iff)
    moreover have "normal True t" if "t \<in> set (children s)" for t
      using less size_children [OF that] that JObj by (auto simp: normal_simps list_all_iff)
    ultimately show ?thesis using less.prems JObj by (simp add: normal_simps list_all_iff)
  qed (use less.prems in \<open>simp_all add: normal.simps\<close>)
qed

text \<open>C33: Normalization lands in the supported subset and stays there: whatever JSON it is given, what
  it returns is a boolean or an object with known keys only (extensions too when they are kept), closed
  object schemas, no arrays of types, sorted required names, a discriminator only beside oneOf, and the
  same of every schema inside; and normalizing that again changes nothing.\<close>

theorem normalization_normal:
  assumes "normalize_json_schema raw keepExtensions = Inr s"
  shows "normal (keepExtensions \<noteq> Some False) s \<and> normalize_json_schema s None = Inr s"
proof -
  have n: "normal (keepExtensions \<noteq> Some False) s"
    using normalize_normal assms by (auto simp: normalize_json_schema_def split: option.splits)
  then have "normal True s" using normal_keeps [of s] by (cases "keepExtensions = Some False") simp_all
  with n normal_fixed show ?thesis by (simp add: normalize_json_schema_def)
qed


lemmas normalize_eval = normalize_JObj normalize.simps [of _ "JBool _"] entries_kept_simps normalize_entry_def
  normalize_child_def is_extension_key_def starts_with_def kept_keys_def type_array_def add_discriminator_def close_object_def
  collapse_def own_def is_object_def is_array_def items_of_def entries_of_def jm_delete_def js_sort_def

theorem normalization_normal_witness:
  "normal True (JObj [(''anyOf'', JArr [JObj [(''type'', JStr ''string'')], JObj [(''type'', JStr ''null'')]])]) \<and>
   normalize_json_schema (JObj [(''anyOf'', JArr [JObj [(''type'', JStr ''string'')], JObj [(''type'', JStr ''null'')]])]) None =
     Inr (JObj [(''anyOf'', JArr [JObj [(''type'', JStr ''string'')], JObj [(''type'', JStr ''null'')]])])"
proof -
  let ?raw = "JObj [(''type'', JArr [JStr ''string'', JStr ''null'']), (''pattern'', JStr ''^a'')]"
  have "normalize True ?raw = normalize True (type_union [(''type'', JArr [JStr ''string'', JStr ''null'']), (''pattern'', JStr ''^a'')]
      [JStr ''string'', JStr ''null''])"
    by (subst normalize.simps) (simp add: type_array_def types_ok_def json_types_def)
  also have "\<dots> = Inr (JObj [(''anyOf'', JArr [JObj [(''type'', JStr ''string'')], JObj [(''type'', JStr ''null'')]])])"
    by (simp add: type_union_def type_branch_def branch_key_ok_def normalize_eval)
  finally have "normalize_json_schema ?raw None =
      Inr (JObj [(''anyOf'', JArr [JObj [(''type'', JStr ''string'')], JObj [(''type'', JStr ''null'')]])])"
    by (simp add: normalize_json_schema_def)
  from normalization_normal [OF this] show ?thesis by simp
qed

end
