(* ===== verification/Extensions.thy ===== *)
theory Extensions
  imports Normalize
begin

text \<open>
  Extensions can be dropped at once or later: a schema that was normalized with its extensions and is
  then normalized without them gives what the original gives.
\<close>

section \<open>The loop over the entries\<close>

lemma normalize_entry_shape:
  assumes "normalize_entry f keep p = Inr o1"
  shows "o1 = [] \<or> (\<exists>n. o1 = [(fst p, n)])"
  using assms by (auto simp: normalize_entry_def res_bind_Inr_iff split: if_splits option.splits)

lemma normalize_child_None: "normalize_child f k v = Inr None \<Longrightarrow> k = ''discriminator''"
proof (rule ccontr)
  assume n: "normalize_child f k v = Inr None" "k \<noteq> ''discriminator''"
  show False
  proof (cases "k \<in> {''prefixItems'', ''anyOf'', ''oneOf''}")
    case True
    with n(1) normalize_child_array [OF True] show ?thesis by (auto simp: res_bind_Inr_iff split: if_splits)
  next
    case False
    with n show ?thesis
      by (cases "k = ''properties''"; cases "k \<in> {''items'', ''additionalProperties''}"; cases "k = ''enum''"; cases "k = ''required''")
        (auto simp: normalize_child_def res_bind_Inr_iff split: if_splits)
  qed
qed

text \<open>A known key of the schema comes from the same key.\<close>

lemma entries_kept_field:
  assumes "k \<in> set kept_keys" "k \<noteq> ''discriminator''"
  shows "entries_kept keep r = Inr o1 \<Longrightarrow> (case map_of r k of
     None \<Rightarrow> map_of o1 k = None
   | Some v \<Rightarrow> \<exists>n. normalize_child (normalize keep) k v = Inr (Some n) \<and> map_of o1 k = Some n)"
proof (induction r arbitrary: o1)
  case (Cons p r)
  then obtain a b where ab: "normalize_entry (normalize keep) keep p = Inr a" "entries_kept keep r = Inr b" "o1 = a @ b"
    by (auto simp: entries_kept_simps res_bind_Inr_iff)
  note IH = Cons.IH [OF ab(2)]
  show ?case
  proof (cases "fst p = k")
    case True
    have nx: "\<not> is_extension_key k"
      using assms(1) by (auto simp: kept_keys_def is_extension_key_def starts_with_def)
    with True ab(1) assms(1) obtain n where n: "normalize_child (normalize keep) k (snd p) = Inr n"
        "a = (case n of None \<Rightarrow> [] | Some v \<Rightarrow> [(k, v)])"
      by (auto simp: normalize_entry_def res_bind_Inr_iff)
    have "n \<noteq> None" using n(1) normalize_child_None assms(2) by (cases n) auto
    with n True ab(3) show ?thesis by (cases p) auto
  next
    case False
    with normalize_entry_shape [OF ab(1)] have "map_of a k = None" by auto
    then have "map_of o1 k = map_of b k" by (simp add: ab(3) map_add_def split: option.split)
    with False IH show ?thesis by (cases p; cases "map_of r k") auto
  qed
qed (simp add: entries_kept_simps)

lemma entries_kept_keys: "entries_kept keep r = Inr o1 \<Longrightarrow> fst ` set o1 \<subseteq> fst ` set r"
proof (induction r arbitrary: o1)
  case (Cons p r)
  then obtain a b where ab: "normalize_entry (normalize keep) keep p = Inr a" "entries_kept keep r = Inr b" "o1 = a @ b"
    by (auto simp: entries_kept_simps res_bind_Inr_iff)
  from normalize_entry_shape [OF ab(1)] have "fst ` set a \<subseteq> {fst p}" by auto
  with Cons.IH [OF ab(2)] ab(3) show ?case by auto
qed (simp add: entries_kept_simps)

lemma field_collapse:
  "k \<notin> {''additionalProperties'', ''discriminator''} \<Longrightarrow> field k (collapse (add_discriminator (close_object o1))) = map_of o1 k"
proof -
  assume k: "k \<notin> {''additionalProperties'', ''discriminator''}"
  have "field k (collapse xs) = map_of xs k" for xs by (simp add: collapse_def field_def)
  moreover have "map_of (add_discriminator xs) k = map_of xs k" for xs
    using k by (auto simp: add_discriminator_def map_add_def jm_delete_other split: option.splits json.splits)
  moreover have "map_of (close_object xs) k = map_of xs k" for xs
    using k by (auto simp: close_object_def map_add_def split: option.splits)
  ultimately show ?thesis by simp
qed

lemma normal_not: "normal True (JObj kvs) \<Longrightarrow> map_of kvs ''not'' \<noteq> Some (JObj []) \<and> type_array (JObj kvs) = None"
proof -
  assume n: "normal True (JObj kvs)"
  have "\<not> normal_entry True (''not'', v)" for v
    by (simp add: normal_entry_def kept_keys_def is_extension_key_def starts_with_def)
  with n map_of_entry [of True kvs "''not''"] show ?thesis
    by (auto simp: normal_simps normal_fields_def)
qed

lemma normalize_plain_field:
  assumes "normal True t" "normalize False t = Inr t'" "k \<in> {''type'', ''const''}"
  shows "field k t' = field k t"
proof (cases t)
  case (JObj kvs)
  with assms(1) normal_not normalize_JObj [of kvs False] assms(2) obtain o1 where
    o: "entries_kept False kvs = Inr o1" "t' = collapse (add_discriminator (close_object o1))"
    by (auto simp: res_bind_Inr_iff)
  have "k \<in> set kept_keys" "k \<noteq> ''discriminator''" "k \<notin> {''additionalProperties'', ''discriminator''}"
    using assms(3) by (elim insertE; simp add: kept_keys_def)+
  moreover have "normalize_child (normalize False) k v = Inr (Some v)" for v
    using assms(3) by (elim insertE) (simp_all add: normalize_child_def)
  ultimately show ?thesis
    using entries_kept_field [of k False kvs o1] o field_collapse [of k o1] JObj by (auto split: option.splits)
qed (use assms in \<open>simp_all add: normal.simps normalize.simps\<close>)


text \<open>Dropping the extensions does not change what is detected.\<close>

definition same_consts :: "(string \<times> json) list \<Rightarrow> (string \<times> json) list \<Rightarrow> bool" where
  "same_consts = list_all2 (\<lambda>p q. fst p = fst q \<and> field ''const'' (snd p) = field ''const'' (snd q))"

lemma same_consts_eqs:
  assumes "same_consts ps qs"
  shows "const_prop_names ps = const_prop_names qs" "const_text name ps = const_text name qs"
  using assms unfolding same_consts_def
  by (induction rule: list_all2_induct) (auto simp: const_prop_names_def const_text_def)

lemma children_normal: "normal keep s \<Longrightarrow> t \<in> set (children s) \<Longrightarrow> normal keep t"
  by (cases s) (auto simp: normal_simps children_def list_all_iff)

lemma branch_props_kept:
  assumes n: "normal True b" and f: "normalize False b = Inr b'"
  shows "rel_option same_consts (branch_props b) (branch_props b')"
proof (cases "type_of b = Some ''object''")
  case False
  moreover have "type_of b' = type_of b" using normalize_plain_field [OF assms, of "''type''"] by (simp add: type_of_def)
  ultimately show ?thesis by (simp add: branch_props_def)
next
  case ty: True
  then obtain kvs where b: "b = JObj kvs" by (cases b) (simp_all add: type_of_def field_def)
  with n f normal_not normalize_JObj [of kvs False] obtain o1 where
    o: "entries_kept False kvs = Inr o1" "b' = collapse (add_discriminator (close_object o1))"
    by (auto simp: res_bind_Inr_iff)
  have ty': "type_of b' = Some ''object''" using normalize_plain_field [OF assms, of "''type''"] ty by (simp add: type_of_def)
  have "field ''properties'' b' = map_of o1 ''properties''" unfolding o(2) by (rule field_collapse) simp
  with entries_kept_field [OF _ _ o(1), of "''properties''"]
  have props: "case map_of kvs ''properties'' of None \<Rightarrow> field ''properties'' b' = None
      | Some v \<Rightarrow> \<exists>n. normalize_child (normalize False) ''properties'' v = Inr (Some n) \<and> field ''properties'' b' = Some n"
    by (cases "map_of kvs ''properties''") (simp_all add: kept_keys_def)
  show ?thesis
  proof (cases "map_of kvs ''properties''")
    case None
    with props ty ty' b show ?thesis by (simp add: branch_props_def)
  next
    case (Some v)
    have "normal_entry True (''properties'', v)"
      using n b Some map_of_entry by (auto simp: normal_simps normal_fields_def)
    then obtain ps where v: "v = JObj ps" "own ps = ps"
      by (auto simp: normal_entry_def Let_def is_extension_key_def starts_with_def is_object_def entries_of_def split: json.splits)
    with props Some obtain qs where q: "field ''properties'' b' = Some (JObj (own qs))"
        "map (\<lambda>p. res_bind (normalize False (snd p)) (\<lambda>s. Inr (fst p, s))) ps = map Inr qs"
      by (auto simp: normalize_child_def is_object_def entries_of_def res_bind_Inr_iff res_all_Inr_iff)
    have "list_all2 (\<lambda>p q. fst p = fst q \<and> field ''const'' (snd p) = field ''const'' (snd q)) ps qs"
    proof (rule list_all2_all_nthI)
      show "length ps = length qs" using arg_cong [OF q(2), of length] by simp
      fix i assume i: "i < length ps"
      with \<open>length ps = length qs\<close> have "i < length qs" by simp
      then have *: "res_bind (normalize False (snd (ps ! i))) (\<lambda>s. Inr (fst (ps ! i), s)) = Inr (qs ! i)"
        using arg_cong [OF q(2), of "\<lambda>xs. xs ! i"] i by simp
      have "snd (ps ! i) \<in> set (children b)"
        using field_child [of "''properties''" b v "snd (ps ! i)"] i Some b v by (simp add: child_schemas_def)
      then have "normal True (snd (ps ! i))" by (rule children_normal [OF n])
      moreover from * have "normalize False (snd (ps ! i)) = Inr (snd (qs ! i))" "fst (ps ! i) = fst (qs ! i)"
        by (cases "qs ! i", auto simp: res_bind_Inr_iff)+
      ultimately show "fst (ps ! i) = fst (qs ! i) \<and> field ''const'' (snd (ps ! i)) = field ''const'' (snd (qs ! i))"
        using normalize_plain_field [of "snd (ps ! i)" _ "''const''"] by simp
    qed
    then have sc: "same_consts ps qs" by (simp add: same_consts_def)
    then have mf: "map fst qs = map fst ps"
      unfolding same_consts_def by (induction rule: list_all2_induct) auto
    from arg_cong [OF mf, of set] have "fst ` set qs = fst ` set ps" by simp
    moreover from v(2) have "''__proto__'' \<notin> fst ` set ps" unfolding own_def filter_id_conv by auto
    ultimately have "own qs = qs" unfolding own_def by (force intro!: filter_True)
    with q(1) Some v b ty ty' sc show ?thesis by (simp add: branch_props_def js_truthy_def entries_of_def)
  qed
qed

lemma detect_kept:
  assumes "\<forall>b\<in>set bs. normal True b" "map (normalize False) bs = map Inr cs"
  shows "detect_discriminator cs = detect_discriminator bs"
proof -
  have len: "length cs = length bs" using arg_cong [OF assms(2), of length] by simp
  have "list_all2 (\<lambda>b c. rel_option same_consts (branch_props b) (branch_props c)) bs cs"
  proof (rule list_all2_all_nthI)
    fix i assume i: "i < length bs"
    with len have "normalize False (bs ! i) = Inr (cs ! i)" using arg_cong [OF assms(2), of "\<lambda>xs. xs ! i"] by simp
    with i assms(1) show "rel_option same_consts (branch_props (bs ! i)) (branch_props (cs ! i))"
      by (intro branch_props_kept) simp_all
  qed (simp add: len)
  then have rel: "rel_option (list_all2 same_consts) (all_some (map branch_props bs)) (all_some (map branch_props cs))"
    by (induction rule: list_all2_induct) (auto simp: option_rel_Some1 option_rel_Some2 split: option.splits)
  show ?thesis
  proof (cases "all_some (map branch_props bs)")
    case None
    with rel show ?thesis by (simp add: detect_discriminator_def len)
  next
    case (Some pss)
    with rel obtain qss where q: "all_some (map branch_props cs) = Some qss" "list_all2 same_consts pss qss"
      by (auto simp: option_rel_Some1)
    have names: "map const_prop_names pss = map const_prop_names qss" "map (const_text name) pss = map (const_text name) qss" for name
      using q(2) by (induction rule: list_all2_induct) (auto dest: same_consts_eqs)
    have fold: "foldl (\<lambda>cs ps. filter (\<lambda>n. n \<in> set (const_prop_names ps)) cs) xs pss =
        foldl (\<lambda>cs ns. filter (\<lambda>n. n \<in> set ns) cs) xs (map const_prop_names pss)" for xs pss
      by (induction pss arbitrary: xs) auto
    show ?thesis
    proof (cases pss)
      case Nil
      with q have "qss = []" by simp
      with Nil Some q(1) show ?thesis by (simp add: detect_discriminator_def len)
    next
      case (Cons ps pss')
      with q(2) obtain qs qss' where qss: "qss = qs # qss'" by (auto simp: list_all2_Cons1)
      with Cons Some q(1) names fold show ?thesis
        by (simp add: detect_discriminator_def len Let_def)
    qed
  qed
qed


section \<open>Normalizing twice\<close>

lemma res_all_ok: "(\<And>x. x \<in> set xs \<Longrightarrow> is_ok (g x)) \<Longrightarrow> is_ok (res_all (map g xs))"
proof (induction xs)
  case (Cons x xs)
  then have "is_ok (g x)" "is_ok (res_all (map g xs))" by simp_all
  then show ?case by (auto simp: is_ok_def split: sum.splits)
qed simp

lemma is_ok_map: "is_ok (res_bind r (\<lambda>x. Inr (h x))) \<longleftrightarrow> is_ok r"
  by (cases r) simp_all

lemma normalize_child_ok:
  assumes "normal_entry True (k, v)" "\<not> is_extension_key k" "\<And>t. t \<in> set (child_schemas (k, v)) \<Longrightarrow> is_ok (f t)"
  shows "is_ok (normalize_child f k v)"
proof (cases "k = ''properties''")
  case True
  with assms(1,2) obtain ps where v: "v = JObj ps"
    by (auto simp: normal_entry_def Let_def is_object_def split: json.splits)
  have "is_ok (res_all (map (\<lambda>p. res_bind (f (snd p)) (\<lambda>s. Inr (fst p, s))) ps))"
    using assms(3) v True by (intro res_all_ok) (simp add: is_ok_map child_schemas_def)
  with True v show ?thesis by (simp add: normalize_child_def is_ok_map entries_of_def)
next
  case np: False
  show ?thesis
  proof (cases "k \<in> {''items'', ''additionalProperties''}")
    case True
    then have "v \<in> set (child_schemas (k, v))" by (elim insertE) (simp_all add: child_schemas_def)
    with assms(3) True np show ?thesis by (simp add: normalize_child_def is_ok_map)
  next
    case ni: False
    show ?thesis
    proof (cases "k \<in> {''prefixItems'', ''anyOf'', ''oneOf''}")
      case True
      have "is_ok (res_all (map f (items_of v)))"
        using True by (intro res_all_ok assms(3)) (elim insertE; simp add: child_schemas_def)
      with normalize_child_array [OF True] show ?thesis by (simp add: is_ok_map)
    next
      case no: False
      have "k = ''required'' \<Longrightarrow> is_ok (js_sort (items_of v))"
        using assms(1,2) by (simp add: normal_entry_def Let_def)
      with np ni no show ?thesis by (simp add: normalize_child_def is_ok_map)
    qed
  qed
qed

lemma entries_kept_ok:
  assumes "list_all (normal_entry True) kvs" "\<And>t. t \<in> set (children (JObj kvs)) \<Longrightarrow> is_ok (normalize False t)"
  shows "is_ok (entries_kept False kvs)"
proof -
  have "is_ok (normalize_entry (normalize False) False p)" if p: "p \<in> set kvs" for p
  proof (cases "is_extension_key (fst p) \<or> fst p \<notin> set kept_keys")
    case True
    then show ?thesis by (auto simp: normalize_entry_def)
  next
    case False
    have "is_ok (normalize False t)" if "t \<in> set (child_schemas p)" for t
      using that p by (intro assms(2)) (auto simp: children_def)
    then have "is_ok (normalize_child (normalize False) (fst p) (snd p))"
      using assms(1) p False by (intro normalize_child_ok) (simp_all add: list_all_iff)
    with False show ?thesis by (simp add: normalize_entry_def is_ok_map)
  qed
  then show ?thesis by (simp add: entries_kept_def is_ok_map res_all_ok)
qed

lemma normalize_drop_ok: "normal True s \<Longrightarrow> is_ok (normalize False s)"
proof (induction s rule: measure_induct_rule [of size])
  case (less s)
  show ?case
  proof (cases s)
    case (JObj kvs)
    have "is_ok (entries_kept False kvs)"
    proof (rule entries_kept_ok)
      show "list_all (normal_entry True) kvs" using less.prems JObj by (simp add: normal_simps normal_fields_def)
      show "is_ok (normalize False t)" if "t \<in> set (children (JObj kvs))" for t
        using less that size_children children_normal JObj by blast
    qed
    with normal_not less.prems normalize_JObj [of kvs False] JObj show ?thesis by (simp add: is_ok_map)
  qed (use less.prems in \<open>simp_all add: normal.simps normalize.simps\<close>)
qed

lemma map_res_twice:
  assumes "map f xs = map Inr ys" "\<And>x y. x \<in> set xs \<Longrightarrow> f x = Inr y \<Longrightarrow> g y = g x"
  shows "map g ys = map g xs"
proof (rule nth_equalityI)
  show len: "length (map g ys) = length (map g xs)" using arg_cong [OF assms(1), of length] by simp
  fix i assume "i < length (map g ys)"
  with len have i: "i < length xs" "i < length ys" by simp_all
  then have "f (xs ! i) = Inr (ys ! i)" using arg_cong [OF assms(1), of "\<lambda>xs. xs ! i"] by simp
  with assms(2) [of "xs ! i"] i show "map g ys ! i = map g xs ! i" by simp
qed

text \<open>Entry by entry: what the second pass makes of the result of the first.\<close>

lemma normalize_child_twice:
  assumes "normalize_child f k v = Inr (Some n)"
    "\<And>t u. t \<in> set (child_schemas (k, v)) \<Longrightarrow> f t = Inr u \<Longrightarrow> g u = g t \<and> is_ok (g t)"
    "g (JBool False) = Inr (JBool False)"
  shows "normalize_child g k n = normalize_child g k v"
proof (cases "k = ''properties''")
  case True
  show ?thesis
  proof (cases "is_object v")
    case obj: True
    let ?es = "entries_of v"
    from assms(1) True obj obtain ps where ps: "n = JObj (own ps)"
        "map (\<lambda>p. res_bind (f (snd p)) (\<lambda>s. Inr (fst p, s))) ?es = map Inr ps"
      by (auto simp: normalize_child_def res_bind_Inr_iff res_all_Inr_iff)
    define u where "u e = (case f (snd e) of Inr x \<Rightarrow> x | Inl _ \<Rightarrow> JNull)" for e :: "string \<times> json"
    define w where "w e = (case g (snd e) of Inr x \<Rightarrow> x | Inl _ \<Rightarrow> JNull)" for e :: "string \<times> json"
    have f: "f (snd e) = Inr (u e)" if "e \<in> set ?es" for e
    proof -
      from that have "res_bind (f (snd e)) (\<lambda>s. Inr (fst e, s)) \<in> set (map Inr ps)" unfolding ps(2) [symmetric] by simp
      then show ?thesis by (auto simp: u_def res_bind_def split: sum.splits)
    qed
    have g: "g (u e) = Inr (w e) \<and> g (snd e) = Inr (w e)" if "e \<in> set ?es" for e
    proof -
      have "snd e \<in> set (child_schemas (k, v))" using that True obj by (cases v) (auto simp: child_schemas_def is_object_def entries_of_def)
      from assms(2) [OF this f [OF that]] show ?thesis by (auto simp: w_def is_ok_def split: sum.splits)
    qed
    have "map (\<lambda>p. res_bind (f (snd p)) (\<lambda>s. Inr (fst p, s))) ?es = map Inr (map (\<lambda>e. (fst e, u e)) ?es)" using f by simp
    from trans [OF ps(2) [symmetric] this] have "ps = map (\<lambda>e. (fst e, u e)) ?es" by (metis inj_Inr inj_map_eq_map)
    then have own_ps: "own ps = map (\<lambda>e. (fst e, u e)) (own ?es)" by (simp add: own_def filter_map o_def)
    have sub: "set (own ?es) \<subseteq> set ?es" by (auto simp: own_def)
    let ?G = "\<lambda>p. res_bind (g (snd p)) (\<lambda>s. Inr (fst p, s))"
    have "map ?G (own ps) = map Inr (map (\<lambda>e. (fst e, w e)) (own ?es))" using g sub by (auto simp: own_ps)
    moreover have "map ?G ?es = map Inr (map (\<lambda>e. (fst e, w e)) ?es)" using g by simp
    moreover have "own (map (\<lambda>e. (fst e, w e)) ?es) = map (\<lambda>e. (fst e, w e)) (own ?es)"
      "own (map (\<lambda>e. (fst e, w e)) (own ?es)) = map (\<lambda>e. (fst e, w e)) (own ?es)"
      by (simp_all add: own_def filter_map o_def)
    ultimately show ?thesis using True obj ps(1)
      by (simp only: normalize_child_def if_True refl res_all_Inr res_bind_simps is_object_def entries_of_def json.case)
  next
    case False
    with assms(1) True show ?thesis by (auto simp: normalize_child_def own_def is_object_def entries_of_def)
  qed
next
  case np: False
  show ?thesis
  proof (cases "k \<in> {''items'', ''additionalProperties''}")
    case True
    then have c: "v \<in> set (child_schemas (k, v))" by (elim insertE) (simp_all add: child_schemas_def)
    have eq: "normalize_child h k x = (if x = JBool False then Inr (Some x) else res_bind (h x) (\<lambda>s. Inr (Some s)))" for h x
      using True np by (simp add: normalize_child_def)
    show ?thesis
    proof (cases "v = JBool False")
      case True
      with assms(1) show ?thesis by (simp add: eq)
    next
      case False
      with assms(1) have f: "f v = Inr n" by (auto simp: eq res_bind_Inr_iff)
      from assms(2) [OF c f] False assms(3) show ?thesis by (auto simp: eq)
    qed
  next
    case ni: False
    show ?thesis
    proof (cases "k \<in> {''prefixItems'', ''anyOf'', ''oneOf''}")
      case True
      note eq = normalize_child_array [OF True]
      have c: "set (items_of v) \<subseteq> set (child_schemas (k, v))" if "is_array v"
        using True by (elim insertE) (simp_all add: child_schemas_def)
      show ?thesis
      proof (cases "is_array v")
        case arr: True
        with assms(1) obtain ss where ss: "n = JArr ss" "map f (items_of v) = map Inr ss"
          by (auto simp: eq res_bind_Inr_iff res_all_Inr_iff)
        have "map g ss = map g (items_of v)"
          by (rule map_res_twice [OF ss(2)]) (use c [OF arr] assms(2) in blast)
        with ss arr show ?thesis by (simp only: eq) (simp add: is_array_def items_of_def)
      next
        case False
        with assms(1) show ?thesis by (auto simp: eq is_array_def items_of_def)
      qed
    next
      case no: False
      show ?thesis
      proof (cases "k = ''required''")
        case True
        show ?thesis
        proof (cases "is_array v")
          case arr: True
          with assms(1) True obtain xs where xs: "js_sort (items_of v) = Inr xs" "n = JArr xs"
            by (auto simp: normalize_child_def res_bind_Inr_iff)
          with js_sort_idem [OF xs(1)] True arr show ?thesis by (simp add: normalize_child_def is_array_def items_of_def)
        next
          case False
          with assms(1) True show ?thesis by (auto simp: normalize_child_def is_array_def items_of_def js_sort_def)
        qed
      next
        case nr: False
        show ?thesis
        proof (cases "k = ''discriminator''")
          case True
          with assms(1) obtain name where "n = JObj [(''propertyName'', JStr name)]"
              "field ''propertyName'' v = Some (JStr name)" "name \<noteq> []"
            by (auto simp: normalize_child_def split: option.splits json.splits if_splits)
          with True show ?thesis by (simp add: normalize_child_def)
        next
          case False
          with assms(1) np ni no nr show ?thesis by (auto simp: normalize_child_def is_array_def split: if_splits)
        qed
      qed
    qed
  qed
qed


lemma entries_kept_twice:
  assumes "entries_kept True r = Inr o1"
    "\<And>p t u. p \<in> set r \<Longrightarrow> t \<in> set (child_schemas p) \<Longrightarrow> normalize True t = Inr u \<Longrightarrow>
      normalize False u = normalize False t \<and> is_ok (normalize False t)"
  shows "entries_kept False o1 = entries_kept False r"
  using assms
proof (induction r arbitrary: o1)
  case (Cons p r)
  then obtain a b where ab: "normalize_entry (normalize True) True p = Inr a" "entries_kept True r = Inr b" "o1 = a @ b"
    by (auto simp: entries_kept_simps res_bind_Inr_iff)
  have IH: "entries_kept False b = entries_kept False r"
    by (rule Cons.IH [OF ab(2)]) (use Cons.prems(2) in auto)
  have head: "entries_kept False a = normalize_entry (normalize False) False p"
  proof (cases "is_extension_key (fst p) \<or> fst p \<notin> set kept_keys")
    case True
    with ab(1) show ?thesis by (auto simp: normalize_entry_def entries_kept_simps split: if_splits)
  next
    case False
    with ab(1) obtain n where n: "normalize_child (normalize True) (fst p) (snd p) = Inr n"
        "a = (case n of None \<Rightarrow> [] | Some v \<Rightarrow> [(fst p, v)])"
      by (auto simp: normalize_entry_def res_bind_Inr_iff)
    show ?thesis
    proof (cases n)
      case None
      with n(1) have "fst p = ''discriminator''" by (intro normalize_child_None) simp
      with n None False show ?thesis by (simp add: entries_kept_simps normalize_entry_def normalize_child_def)
    next
      case (Some v)
      have "normalize_child (normalize False) (fst p) v = normalize_child (normalize False) (fst p) (snd p)"
        using n(1) Some Cons.prems(2) [of p]
        by (intro normalize_child_twice [of "normalize True"]) (auto simp: normalize.simps [of False "JBool False"])
      with n(2) Some False show ?thesis
        by (cases "normalize_child (normalize False) (fst p) (snd p)")
          (auto simp: entries_kept_simps normalize_entry_def split: option.split)
    qed
  qed
  show ?case unfolding ab(3) entries_kept_append head IH by (simp add: entries_kept_simps)
qed (simp add: entries_kept_simps)

text \<open>The last steps of the first pass do not matter to the second.\<close>

abbreviation finish :: "(string \<times> json) list \<Rightarrow> json" where
  "finish o1 \<equiv> collapse (add_discriminator (close_object o1))"

lemma close_object_idem [simp]: "close_object (close_object o1) = close_object o1"
  by (auto simp: close_object_def)

lemma entries_kept_None:
  "k \<in> set kept_keys \<Longrightarrow> k \<noteq> ''discriminator'' \<Longrightarrow> entries_kept keep r = Inr o1 \<Longrightarrow> map_of o1 k = None \<longleftrightarrow> map_of r k = None"
  using entries_kept_field [of k keep r o1] by (auto split: option.splits)

lemma entries_kept_type: "entries_kept keep r = Inr o1 \<Longrightarrow> map_of o1 ''type'' = map_of r ''type''"
  using entries_kept_field [of "''type''" keep r o1]
  by (cases "map_of r ''type''") (auto simp: kept_keys_def normalize_child_def)

lemma close_object_kept:
  assumes "entries_kept False r = Inr o1"
  shows "\<exists>o2. entries_kept False (close_object r) = Inr o2 \<and> close_object o2 = close_object o1"
proof -
  have eq: "map_of o1 ''additionalProperties'' = None \<longleftrightarrow> map_of r ''additionalProperties'' = None"
    by (rule entries_kept_None [OF _ _ assms]) (simp_all add: kept_keys_def)
  have one: "entries_kept False [(''additionalProperties'', JBool False)] = Inr [(''additionalProperties'', JBool False)]"
    by (simp add: entries_kept_simps normalize_entry_def normalize_child_def kept_keys_def is_extension_key_def starts_with_def)
  show ?thesis
  proof (cases "close_object r = r")
    case True
    with assms show ?thesis by simp
  next
    case False
    then have c: "map_of r ''type'' = Some (JStr ''object'')" "map_of r ''additionalProperties'' = None"
        "close_object r = r @ [(''additionalProperties'', JBool False)]"
      by (auto simp: close_object_def split: if_splits)
    then have "close_object o1 = o1 @ [(''additionalProperties'', JBool False)]"
      using eq entries_kept_type [OF assms] by (simp add: close_object_def)
    moreover have "entries_kept False (close_object r) = Inr (o1 @ [(''additionalProperties'', JBool False)])"
      by (simp add: c(3) entries_kept_append assms one)
    ultimately show ?thesis by (metis close_object_idem)
  qed
qed

lemma entries_kept_delete:
  "entries_kept False r = Inr o1 \<Longrightarrow> entries_kept False (jm_delete r k) = Inr (jm_delete o1 k)"
proof (induction r arbitrary: o1)
  case (Cons p r)
  then obtain a b where ab: "normalize_entry (normalize False) False p = Inr a" "entries_kept False r = Inr b" "o1 = a @ b"
    by (auto simp: entries_kept_simps res_bind_Inr_iff)
  from normalize_entry_shape [OF ab(1)] have "jm_delete a k = (if fst p = k then [] else a)" by (auto simp: jm_delete_def)
  with ab Cons.IH [OF ab(2)] show ?case by (cases p) (simp add: jm_delete_def entries_kept_simps)
qed (simp add: entries_kept_simps jm_delete_def)

lemma close_object_delete: "k \<notin> {''type'', ''additionalProperties''} \<Longrightarrow> close_object (jm_delete r k) = jm_delete (close_object r) k"
  by (auto simp: close_object_def jm_delete_other jm_delete_def [of "_ @ _"]) (simp_all add: jm_delete_def)


lemma entries_kept_one: "entries_kept False [(''discriminator'', JObj [(''propertyName'', JStr name)])] =
    Inr (if name = [] then [] else [(''discriminator'', JObj [(''propertyName'', JStr name)])])"
  by (simp add: entries_kept_simps normalize_entry_def normalize_child_def kept_keys_def is_extension_key_def starts_with_def)

lemma finish_kept:
  assumes n: "list_all (normal_entry True) c" "close_object c = c" "\<forall>t\<in>set (children (JObj c)). normal True t"
    and k: "entries_kept False c = Inr o1"
  shows "\<exists>o2. entries_kept False (add_discriminator c) = Inr o2 \<and> finish o2 = finish o1"
proof -
  let ?d = "''discriminator''"
  have closed: "close_object o1 = o1" if "map_of c ''additionalProperties'' \<noteq> None \<or> map_of c ''type'' \<noteq> Some (JStr ''object'')"
    using that entries_kept_type [OF k] entries_kept_None [OF _ _ k, of "''additionalProperties''"]
    by (auto simp: close_object_def kept_keys_def)
  have c: "close_object o1 = o1" using n(2) closed by (auto simp: close_object_def split: if_splits)
  show ?thesis
  proof (cases "map_of c ''oneOf''")
    case None
    then have d: "add_discriminator c = jm_delete c ?d" by (simp add: add_discriminator_def)
    have o: "map_of o1 ''oneOf'' = None" using None entries_kept_None [OF _ _ k, of "''oneOf''"] by (simp add: kept_keys_def)
    have "finish (jm_delete o1 ?d) = finish o1"
      using o c by (simp add: close_object_delete add_discriminator_def jm_delete_other) (simp add: jm_delete_def)
    with entries_kept_delete [OF k, of ?d] d show ?thesis by auto
  next
    case (Some v)
    from normal_entry_array [OF map_of_entry [OF n(1) Some]] have v: "v = JArr (items_of v)" by simp
    from entries_kept_field [OF _ _ k, of "''oneOf''"] Some obtain w where
      w: "normalize_child (normalize False) ''oneOf'' v = Inr (Some w)" "map_of o1 ''oneOf'' = Some w"
      by (auto simp: kept_keys_def)
    have "is_array v" by (subst v) (simp add: is_array_def)
    with w(1) obtain ws where ws: "w = JArr ws" "map (normalize False) (items_of v) = map Inr ws"
      by (auto simp: normalize_child_array res_bind_Inr_iff res_all_Inr_iff)
    have "\<forall>b\<in>set (items_of v). normal True b"
      using n(3) field_child [of "''oneOf''" "JObj c" v] Some by (simp add: child_schemas_def)
    from detect_kept [OF this ws(2)] have det: "detect_discriminator ws = detect_discriminator (items_of v)" .
    show ?thesis
    proof (cases "map_of c ?d = None \<and> detect_discriminator (items_of v) \<noteq> None")
      case False
      have "add_discriminator c = c"
        using False Some v by (cases v) (auto simp: add_discriminator_def items_of_def split: option.split)
      with k show ?thesis by auto
    next
      case True
      then obtain name where name: "detect_discriminator (items_of v) = Some name" by auto
      let ?e = "(?d, JObj [(''propertyName'', JStr name)])"
      have d: "add_discriminator c = c @ [?e]"
        using True Some v name by (cases v) (auto simp: add_discriminator_def items_of_def)
      have nd: "map_of o1 ?d = None"
        using True entries_kept_keys [OF k] by (auto simp: map_of_eq_None_iff)
      show ?thesis
      proof (cases "name = []")
        case True
        with d k show ?thesis by (simp add: entries_kept_append entries_kept_one)
      next
        case False
        have "close_object (o1 @ [?e]) = o1 @ [?e]"
          using c by (auto simp: close_object_def map_add_def split: if_splits option.splits)
        moreover have "add_discriminator (o1 @ [?e]) = o1 @ [?e]"
          using w(2) ws(1) nd by (simp add: add_discriminator_def map_add_def)
        moreover have "add_discriminator o1 = o1 @ [?e]"
          using w(2) ws(1) nd det name by (simp add: add_discriminator_def)
        ultimately show ?thesis using d k c False by (simp add: entries_kept_append entries_kept_one)
      qed
    qed
  qed
qed

lemma normalize_twice: "normalize True raw = Inr y \<Longrightarrow> normalize False y = normalize False raw"
proof (induction True raw arbitrary: y rule: normalize.induct)
  case (1 raw)
  note n = "1.prems" [unfolded normalize.simps [of True raw]]
  show ?case
  proof (cases raw)
    case (JObj r)
    show ?thesis
    proof (cases "map_of r ''not'' = Some (JObj [])")
      case True
      with n JObj show ?thesis by (auto simp: normalize.simps)
    next
      case nn: False
      show ?thesis
      proof (cases "type_array raw")
        case (Some ts)
        with n JObj nn have t: "types_ok ts" "normalize True (type_union r ts) = Inr y" by (auto split: if_splits)
        have "normalize False raw = normalize False (type_union r ts)"
          using JObj nn Some t(1) by (subst normalize.simps) simp
        with "1.hyps"(2) [OF JObj nn Some _ t(2)] t(1) show ?thesis by simp
      next
        case None
        note N = normalize_JObj [OF nn None [unfolded JObj]]
        from "1.prems" N [of True] JObj obtain o1 where
          o: "entries_kept True r = Inr o1" "y = finish o1"
          by (auto simp: res_bind_Inr_iff)
        from o(1) obtain outs where outs: "res_all (map (normalize_entry (normalize True) True) r) = Inr outs" "o1 = concat outs"
          by (auto simp: entries_kept_def res_bind_Inr_iff)
        have sub: "normal True u" if "normalize True t = Inr u" for t u by (rule normalize_normal [OF that])
        have e: "list_all (normal_entry True) o1" "\<forall>t\<in>set (children (JObj o1)). normal True t"
          unfolding outs(2)
          by (rule normalize_entries_normal(1) [OF outs(1)], erule sub)
            (rule normalize_entries_normal(2) [OF outs(1)], erule sub)
        define c where "c = close_object o1"
        have ny: "normal True y" by (rule normalize_normal [OF "1.prems"])
        have same: "entries_kept False o1 = entries_kept False r"
        proof (rule entries_kept_twice [OF o(1)])
          fix p t u assume p: "p \<in> set r" "t \<in> set (child_schemas p)" "normalize True t = Inr u"
          have "normalize False u = normalize False t" by (rule "1.hyps"(1) [OF JObj nn None p])
          with normalize_drop_ok [OF normalize_normal [OF p(3)]] show "normalize False u = normalize False t \<and> is_ok (normalize False t)"
            by simp
        qed
        have "is_ok (entries_kept False o1)"
        proof (rule entries_kept_ok [OF e(1)])
          fix t assume "t \<in> set (children (JObj o1))"
          with e(2) show "is_ok (normalize False t)" by (intro normalize_drop_ok) simp
        qed
        then obtain o2 where o2: "entries_kept False o1 = Inr o2" by (auto simp: is_ok_def split: sum.splits)
        from close_object_kept [OF this] obtain o3 where
          o3: "entries_kept False c = Inr o3" "close_object o3 = close_object o2" by (auto simp: c_def)
        have "list_all (normal_entry True) c" "\<forall>t\<in>set (children (JObj c)). normal True t"
          using close_object_normal(1,2) e(1,2) by (simp_all add: c_def)
        from finish_kept [OF this(1) _ this(2) o3(1)] obtain o4 where
          o4: "entries_kept False (add_discriminator c) = Inr o4" "finish o4 = finish o3" by (auto simp: c_def)
        have rhs: "normalize False raw = Inr (finish o2)" using N [of False] o2 [unfolded same] JObj by simp
        have lhs: "normalize False y = Inr (finish o4)"
        proof (cases "add_discriminator c = []")
          case True
          with o4 o(2) show ?thesis by (simp add: c_def collapse_def entries_kept_simps normalize.simps close_object_def add_discriminator_def jm_delete_def)
        next
          case False
          then have y: "y = JObj (add_discriminator c)" using o(2) by (simp add: c_def collapse_def)
          with ny normal_not have "map_of (add_discriminator c) ''not'' \<noteq> Some (JObj [])" "type_array (JObj (add_discriminator c)) = None"
            by blast+
          from normalize_JObj [OF this, of False] o4 y show ?thesis by simp
        qed
        show ?thesis using lhs rhs o4(2) o3(2) by simp
      qed
    qed
  qed (use n in \<open>auto simp: normalize.simps\<close>)
qed

end
