(* ===== verification/InterfaceHash.thy ===== *)
theory InterfaceHash
  imports Extensions Crypto
begin

text \<open>
  The identity of an interface document, \<^verbatim>\<open>schema/hash.ts\<close>: its schemas are normalized without their
  extensions, what is not normative is stripped, and the canonical bytes are hashed.  Documents whose
  members do not have the type the code declares make the model throw.
\<close>

definition method_schema_fields :: "string list" where
  "method_schema_fields = [''params'', ''result'', ''clientStream'', ''serverStream'']"

text \<open>The positions are normalized in place; \<open>keep\<close> is false for the hash.\<close>

fun normalize_fields :: "bool \<Rightarrow> string list \<Rightarrow> (string \<times> json) list \<Rightarrow> (string \<times> json) list res" where
  "normalize_fields keep [] kvs = Inr kvs"
| "normalize_fields keep (k # ks) kvs = (case map_of kvs k of
     None \<Rightarrow> normalize_fields keep ks kvs
   | Some v \<Rightarrow> res_bind (normalize keep v) (\<lambda>s. normalize_fields keep ks (jm_set kvs k s)))"

definition normalize_error :: "bool \<Rightarrow> json \<Rightarrow> json res" where
  "normalize_error keep e = res_bind (object_of (Some e)) (\<lambda>kvs.
     res_bind (normalize_fields keep (if map_of kvs ''schema'' \<noteq> None then [''schema''] else [''data'']) kvs) (\<lambda>kvs.
     Inr (JObj kvs)))"

definition normalize_method :: "bool \<Rightarrow> json \<Rightarrow> json res" where
  "normalize_method keep method = res_bind (object_of (Some method)) (\<lambda>kvs.
     res_bind (normalize_fields keep method_schema_fields kvs) (\<lambda>normalized.
     case map_of kvs ''errors'' of
       None \<Rightarrow> Inr (JObj normalized)
     | Some errors \<Rightarrow> res_bind (array_of (Some errors)) (\<lambda>es.
         res_bind (res_all (map (normalize_error keep) es)) (\<lambda>es.
         Inr (JObj (jm_set normalized ''errors'' (JArr es)))))))"

definition normalize_values :: "(json \<Rightarrow> json res) \<Rightarrow> (string \<times> json) list \<Rightarrow> (string \<times> json) list res" where
  "normalize_values f kvs = res_all (map (\<lambda>p. res_bind (f (snd p)) (\<lambda>v. Inr (fst p, v))) kvs)"

text \<open>The members that replace those of the document.\<close>

definition normalize_components :: "bool \<Rightarrow> json \<Rightarrow> json res" where
  "normalize_components keep components = (case field ''schemas'' components of
     None \<Rightarrow> Inr components
   | Some schemas \<Rightarrow> res_bind (object_of (Some schemas)) (\<lambda>schemas.
       res_bind (normalize_values (normalize keep) schemas) (\<lambda>schemas.
       Inr (JObj (jm_set (entries_of components) ''schemas'' (JObj schemas))))))"

definition normalized_members :: "bool \<Rightarrow> (string \<times> json) list \<Rightarrow> (string \<times> json) list res" where
  "normalized_members keep kvs =
     res_bind (object_of (map_of kvs ''methods'')) (\<lambda>methods.
     res_bind (normalize_values (normalize_method keep) methods) (\<lambda>methods.
     case map_of kvs ''components'' of
       None \<Rightarrow> Inr [(''methods'', JObj methods)]
     | Some components \<Rightarrow> res_bind (normalize_components keep components) (\<lambda>components.
         Inr [(''methods'', JObj methods), (''components'', components)])))"

definition normalize_schema_positions :: "bool \<Rightarrow> json \<Rightarrow> (string \<times> json) list res" where
  "normalize_schema_positions keep schema = res_bind (object_of (Some schema)) (\<lambda>kvs.
     res_bind (normalized_members keep kvs) (\<lambda>members. Inr (foldl (\<lambda>m p. jm_set m (fst p) (snd p)) kvs members)))"

definition is_non_normative_key :: "string \<Rightarrow> bool \<Rightarrow> bool" where
  "is_non_normative_key k isRoot \<longleftrightarrow>
     k = ''comment'' \<or> starts_with k ''x-'' \<or> isRoot \<and> (k = ''hash'' \<or> k = ''tags'')"

definition normative_fields :: "bool \<Rightarrow> (string \<times> json) list \<Rightarrow> (string \<times> json) list" where
  "normative_fields isRoot kvs = own (filter (\<lambda>p. \<not> is_non_normative_key (fst p) isRoot) kvs)"

primrec strip_non_normative :: "json \<Rightarrow> json" where
  "strip_non_normative JNull = JNull"
| "strip_non_normative (JBool b) = JBool b"
| "strip_non_normative (JNum n) = JNum n"
| "strip_non_normative (JStr s) = JStr s"
| "strip_non_normative (JArr xs) = JArr (map strip_non_normative xs)"
| "strip_non_normative (JObj kvs) = JObj (normative_fields False (map (map_prod id strip_non_normative) kvs))"

definition strip_root :: "(string \<times> json) list \<Rightarrow> json" where
  "strip_root kvs = JObj (normative_fields True (map (map_prod id strip_non_normative) kvs))"

definition hex_byte :: "8 word \<Rightarrow> string" where
  "hex_byte b = [hex_char (unat b div 16), hex_char (unat b mod 16)]"

text \<open>The text that is hashed.\<close>

definition hashed_text :: "json \<Rightarrow> string res" where
  "hashed_text schema = res_bind (normalize_schema_positions False schema) (\<lambda>normalized.
     jcs_canonicalize (strip_root normalized))"

definition compute_interface_hash :: "json \<Rightarrow> string res" where
  "compute_interface_hash schema = res_bind (hashed_text schema) (\<lambda>text.
     Inr (concat (map hex_byte (take 8 (sha256 (utf8 text))))))"


section \<open>What the hash ignores\<close>

lemma map_of_set_key: "map_of (jm_set m k v) k' = (if k' = k then Some v else map_of m k')"
  using jm_get_set [of m k v k'] by (simp add: jm_get_def)

lemma map_jm_set: "map (map_prod id f) (jm_set m k v) = jm_set (map (map_prod id f) m) k (f v)"
  by (induction m k v rule: jm_set.induct) auto

lemma jm_set_twice [simp]: "jm_set (jm_set m k v) k w = jm_set m k w"
  by (induction m k v rule: jm_set.induct) auto

lemma filter_set_key: "\<not> P k \<Longrightarrow> filter (\<lambda>p. P (fst p)) (jm_set m k v) = filter (\<lambda>p. P (fst p)) m"
  by (induction m k v rule: jm_set.induct) auto

lemma filter_set_kept: "P k \<Longrightarrow> filter (\<lambda>p. P (fst p)) (jm_set m k v) = jm_set (filter (\<lambda>p. P (fst p)) m) k v"
  by (induction m k v rule: jm_set.induct) auto

lemma normative_set:
  "is_non_normative_key k isRoot \<Longrightarrow> normative_fields isRoot (jm_set m k v) = normative_fields isRoot m"
  "\<not> is_non_normative_key k isRoot \<Longrightarrow> k \<noteq> ''__proto__'' \<Longrightarrow>
    normative_fields isRoot (jm_set m k v) = jm_set (normative_fields isRoot m) k v"
  by (simp_all add: normative_fields_def own_def filter_set_key [where P = "\<lambda>k. \<not> is_non_normative_key k isRoot"]
      filter_set_kept [where P = "\<lambda>k. \<not> is_non_normative_key k isRoot"] filter_set_kept [where P = "\<lambda>k. k \<noteq> ''__proto__''"])

lemma normalized_members_keys:
  "normalized_members keep kvs = Inr ms \<Longrightarrow> fst ` set ms \<subseteq> {''methods'', ''components''}"
  by (cases "map_of kvs ''components''") (auto simp: normalized_members_def res_bind_Inr_iff)

lemma foldl_normative:
  assumes "fst ` set ms \<subseteq> {''methods'', ''components''}"
    "normative_fields True (map (map_prod id g) kvs) = normative_fields True (map (map_prod id g) kvs')"
  shows "normative_fields True (map (map_prod id g) (foldl (\<lambda>m p. jm_set m (fst p) (snd p)) kvs ms)) =
    normative_fields True (map (map_prod id g) (foldl (\<lambda>m p. jm_set m (fst p) (snd p)) kvs' ms))"
  using assms
proof (induction ms arbitrary: kvs kvs')
  case (Cons p ms)
  from Cons.prems(1) have k: "\<not> is_non_normative_key (fst p) True" "fst p \<noteq> ''__proto__''"
    by (auto simp: is_non_normative_key_def starts_with_def)
  have "normative_fields True (map (map_prod id g) (jm_set kvs (fst p) (snd p))) =
      normative_fields True (map (map_prod id g) (jm_set kvs' (fst p) (snd p)))"
    by (simp only: map_jm_set normative_set(2) [OF k] Cons.prems(2))
  from Cons.IH [OF _ this] Cons.prems(1) show ?case by simp
qed simp

text \<open>A mark at the root that is not normative.\<close>

lemma hashed_text_mark:
  assumes "is_non_normative_key k True"
  shows "hashed_text (JObj (jm_set kvs k v)) = hashed_text (JObj kvs)"
proof -
  from assms have k: "k \<noteq> ''methods''" "k \<noteq> ''components''"
    by (auto simp: is_non_normative_key_def starts_with_def)
  then have m: "normalized_members False (jm_set kvs k v) = normalized_members False kvs"
    by (simp add: normalized_members_def map_of_set_key)
  show ?thesis
  proof (cases "normalized_members False kvs")
    case (Inr ms)
    have "strip_root (foldl (\<lambda>m p. jm_set m (fst p) (snd p)) (jm_set kvs k v) ms) =
        strip_root (foldl (\<lambda>m p. jm_set m (fst p) (snd p)) kvs ms)"
      unfolding strip_root_def
      by (rule arg_cong [where f = JObj], rule foldl_normative [OF normalized_members_keys [OF Inr]])
        (simp only: map_jm_set normative_set(1) [OF assms])
    with Inr show ?thesis by (simp add: hashed_text_def normalize_schema_positions_def object_of_def m)
  qed (simp add: hashed_text_def normalize_schema_positions_def object_of_def m)
qed

text \<open>Documents normalized with their extensions.\<close>

lemma jm_set_commute: "k \<noteq> k' \<Longrightarrow> map_of m k \<noteq> None \<Longrightarrow> jm_set (jm_set m k v) k' w = jm_set (jm_set m k' w) k v"
  by (induction m) (auto split: if_splits)

lemma normalize_fields_other:
  "normalize_fields keep ks kvs = Inr out \<Longrightarrow> k \<notin> set ks \<Longrightarrow> map_of out k = map_of kvs k"
  by (induction ks arbitrary: kvs) (auto simp: res_bind_Inr_iff map_of_set_key split: option.splits)

lemma normalize_fields_dom: "normalize_fields keep ks kvs = Inr out \<Longrightarrow> map_of out k = None \<longleftrightarrow> map_of kvs k = None"
proof (induction ks arbitrary: kvs)
  case (Cons k' ks)
  show ?case
  proof (cases "map_of kvs k'")
    case None
    with Cons show ?thesis by simp
  next
    case (Some v)
    with Cons.prems obtain s where "normalize_fields keep ks (jm_set kvs k' s) = Inr out" by (auto simp: res_bind_Inr_iff)
    from Cons.IH [OF this] Some show ?thesis by (simp add: map_of_set_key)
  qed
qed simp

lemma normalize_fields_set:
  "k \<notin> set ks \<Longrightarrow> map_of kvs k \<noteq> None \<Longrightarrow>
    normalize_fields keep ks (jm_set kvs k u) = res_bind (normalize_fields keep ks kvs) (\<lambda>out. Inr (jm_set out k u))"
proof (induction ks arbitrary: kvs)
  case (Cons k' ks)
  show ?case
  proof (cases "map_of kvs k'")
    case None
    with Cons.prems have "k' \<noteq> k" by auto
    with None Cons show ?thesis by (simp add: map_of_set_key)
  next
    case (Some v)
    show ?thesis
    proof (cases "normalize keep v")
      case (Inr s)
      have "jm_set (jm_set kvs k u) k' s = jm_set (jm_set kvs k' s) k u" "k' \<noteq> k"
        using Cons.prems by (auto intro: jm_set_commute)
      with Cons.IH [of "jm_set kvs k' s"] Cons.prems Some Inr show ?thesis by (simp add: map_of_set_key)
    qed (use Some Cons.prems in \<open>auto simp: map_of_set_key\<close>)
  qed
qed simp

lemma normalize_fields_twice:
  "normalize_fields True ks kvs = Inr out \<Longrightarrow> distinct ks \<Longrightarrow> normalize_fields False ks out = normalize_fields False ks kvs"
proof (induction ks arbitrary: kvs out)
  case (Cons k ks)
  show ?case
  proof (cases "map_of kvs k")
    case None
    with Cons normalize_fields_other [of True ks kvs out k] show ?thesis by simp
  next
    case (Some v)
    with Cons.prems obtain s where s: "normalize True v = Inr s" "normalize_fields True ks (jm_set kvs k s) = Inr out"
      by (auto simp: res_bind_Inr_iff)
    with normalize_fields_other [OF s(2), of k] Cons.prems(2) have out: "map_of out k = Some s" by (simp add: map_of_set_key)
    have "normalize_fields False ks (jm_set out k u) = normalize_fields False ks (jm_set kvs k u)" for u
    proof (rule Cons.IH)
      show "normalize_fields True ks (jm_set kvs k u) = Inr (jm_set out k u)"
        using normalize_fields_set [of k ks "jm_set kvs k s" True u] s(2) Cons.prems(2) by (simp add: map_of_set_key)
    qed (use Cons.prems in simp)
    with out Some normalize_twice [OF s(1)] show ?thesis by simp
  qed
qed simp

lemma normalize_error_twice: "normalize_error True e = Inr e' \<Longrightarrow> normalize_error False e' = normalize_error False e"
proof -
  assume "normalize_error True e = Inr e'"
  then obtain kvs out where o: "e = JObj kvs" "e' = JObj out"
      "normalize_fields True (if map_of kvs ''schema'' \<noteq> None then [''schema''] else [''data'']) kvs = Inr out"
    by (auto simp: normalize_error_def res_bind_Inr_iff object_of_def split: json.splits)
  let ?ks = "if map_of kvs ''schema'' \<noteq> None then [''schema''] else [''data'']"
  have "normalize_fields False ?ks out = normalize_fields False ?ks kvs" by (rule normalize_fields_twice [OF o(3)]) simp
  moreover have "(if map_of out ''schema'' \<noteq> None then [''schema''] else [''data'']) = ?ks"
    by (simp only: normalize_fields_dom [OF o(3)])
  ultimately show ?thesis
    by (simp only: normalize_error_def o(1,2) object_of_def option.case json.case res_bind_simps)
qed

lemma res_all_twice:
  assumes "res_all (map f xs) = Inr ys" "\<And>x y. f x = Inr y \<Longrightarrow> g y = g x"
  shows "res_all (map g ys) = res_all (map g xs)"
proof -
  have "map f xs = map Inr ys" using assms(1) by (simp add: res_all_Inr_iff)
  with map_res_twice [of f xs ys g] assms(2) show ?thesis by simp
qed

lemma normalize_method_twice: "normalize_method True m = Inr m' \<Longrightarrow> normalize_method False m' = normalize_method False m"
proof -
  assume "normalize_method True m = Inr m'"
  then obtain kvs out where o: "m = JObj kvs" "normalize_fields True method_schema_fields kvs = Inr out"
      "(case map_of kvs ''errors'' of None \<Rightarrow> Inr (JObj out)
        | Some errors \<Rightarrow> res_bind (array_of (Some errors)) (\<lambda>es. res_bind (res_all (map (normalize_error True) es)) (\<lambda>es.
            Inr (JObj (jm_set out ''errors'' (JArr es)))))) = Inr m'"
    by (auto simp: normalize_method_def res_bind_Inr_iff object_of_def split: json.splits)
  have twice: "normalize_fields False method_schema_fields out = normalize_fields False method_schema_fields kvs"
    by (rule normalize_fields_twice [OF o(2)]) (simp add: method_schema_fields_def)
  have e: "''errors'' \<notin> set method_schema_fields" by (simp add: method_schema_fields_def)
  note same = normalize_fields_other [OF o(2) e]
  show ?thesis
  proof (cases "map_of kvs ''errors''")
    case None
    with o(3) have "m' = JObj out" by simp
    with None same twice o(1) show ?thesis by (simp add: normalize_method_def object_of_def)
  next
    case (Some errors)
    with o(3) obtain es es' where es: "errors = JArr es" "res_all (map (normalize_error True) es) = Inr es'"
        "m' = JObj (jm_set out ''errors'' (JArr es'))"
      by (auto simp: res_bind_Inr_iff array_of_def split: json.splits)
    have "map_of out ''errors'' \<noteq> None" using same Some by simp
    note set = normalize_fields_set [OF e this, of False "JArr es'"]
    have "res_all (map (normalize_error False) es') = res_all (map (normalize_error False) es)"
      by (rule res_all_twice [OF es(2) normalize_error_twice])
    with Some es(1,3) o(1) set twice show ?thesis
      by (cases "normalize_fields False method_schema_fields kvs") (simp_all add: normalize_method_def object_of_def array_of_def map_of_set_key)
  qed
qed

lemma normalize_values_twice:
  assumes "normalize_values f kvs = Inr out" "\<And>x y. f x = Inr y \<Longrightarrow> g y = g x"
  shows "normalize_values g out = normalize_values g kvs"
  using assms(1) unfolding normalize_values_def
  by (rule res_all_twice) (auto simp: res_bind_Inr_iff dest: assms(2))

lemma normalize_components_twice:
  "normalize_components True c = Inr c' \<Longrightarrow> normalize_components False c' = normalize_components False c"
proof -
  assume n: "normalize_components True c = Inr c'"
  show ?thesis
  proof (cases "field ''schemas'' c")
    case None
    with n show ?thesis by (simp add: normalize_components_def)
  next
    case (Some schemas)
    then obtain ckvs where c: "c = JObj ckvs" by (cases c) (simp_all add: field_def)
    with n Some obtain ss ss' where ss: "schemas = JObj ss" "normalize_values (normalize True) ss = Inr ss'"
        "c' = JObj (jm_set ckvs ''schemas'' (JObj ss'))"
      by (auto simp: normalize_components_def res_bind_Inr_iff object_of_def entries_of_def split: json.splits)
    from normalize_values_twice [OF ss(2) normalize_twice] ss c Some show ?thesis
      by (simp add: normalize_components_def object_of_def map_of_set_key entries_of_def)
  qed
qed

lemma positions_twice:
  assumes "normalize_schema_positions True (JObj kvs) = Inr out"
  shows "normalize_schema_positions False (JObj out) = normalize_schema_positions False (JObj kvs)"
proof -
  from assms obtain ms methods ms' where m: "map_of kvs ''methods'' = Some (JObj methods)"
      "normalize_values (normalize_method True) methods = Inr ms'"
      "normalized_members True kvs = Inr ms" "out = foldl (\<lambda>m p. jm_set m (fst p) (snd p)) kvs ms"
    by (auto simp: normalize_schema_positions_def normalized_members_def res_bind_Inr_iff object_of_def
        split: option.splits json.splits)
  note tm = normalize_values_twice [OF m(2) normalize_method_twice]
  show ?thesis
  proof (cases "map_of kvs ''components''")
    case None
    with m have "out = jm_set kvs ''methods'' (JObj ms')" by (auto simp: normalized_members_def object_of_def)
    with None tm m(1) show ?thesis
      by (cases "normalize_values (normalize_method False) methods")
        (simp_all add: normalize_schema_positions_def normalized_members_def object_of_def map_of_set_key)
  next
    case (Some c)
    with m obtain c' where c: "normalize_components True c = Inr c'"
        "out = jm_set (jm_set kvs ''methods'' (JObj ms')) ''components'' c'"
      by (auto simp: normalized_members_def object_of_def res_bind_Inr_iff)
    note tc = normalize_components_twice [OF c(1)]
    have swap: "jm_set (jm_set (jm_set (jm_set kvs ''methods'' a) ''components'' b) ''methods'' a') ''components'' b' =
        jm_set (jm_set kvs ''methods'' a') ''components'' b'" for a b a' b'
      using jm_set_commute [of "''methods''" "''components''" "jm_set kvs ''methods'' a" a' b, symmetric]
      by (simp add: map_of_set_key)
    show ?thesis
      using Some tm tc m(1)
      by (cases "normalize_values (normalize_method False) methods"; cases "normalize_components False c")
        (simp_all add: c(2) normalize_schema_positions_def normalized_members_def object_of_def map_of_set_key swap)
  qed
qed


text \<open>C34: The hash of an interface does not see what is not normative: a comment, tags, a stored hash
  or an extension put on the document changes nothing, so a document that stores its own hash still has
  it; and a document whose schemas have been normalized with their extensions, as the library stores
  them, has the hash of the original.\<close>

theorem interface_hash_stable:
  assumes "is_non_normative_key k True" "normalize_schema_positions True (JObj kvs) = Inr stored"
  shows "compute_interface_hash (JObj (jm_set kvs k v)) = compute_interface_hash (JObj kvs) \<and>
    compute_interface_hash (JObj stored) = compute_interface_hash (JObj kvs)"
proof -
  have "hashed_text (JObj stored) = hashed_text (JObj kvs)"
    using positions_twice [OF assms(2)] by (simp add: hashed_text_def)
  with hashed_text_mark [OF assms(1)] show ?thesis by (simp add: compute_interface_hash_def)
qed

definition demo_interface :: "json \<Rightarrow> (string \<times> json) list" where
  "demo_interface params = [(''id'', JStr ''demo''), (''methods'', JObj [(''m'', JObj [(''params'', params)])])]"

definition demo_noted :: json where
  "demo_noted = JObj [(''type'', JStr ''object''), (''x-note'', JStr ''n''),
     (''properties'', JObj [(''a'', JObj [(''x-kind'', JNull)])])]"

theorem interface_hash_stable_witness:
  "compute_interface_hash (JObj (jm_set (demo_interface demo_noted) ''hash'' (JStr ''0''))) =
     compute_interface_hash (JObj (demo_interface demo_noted)) \<and>
   compute_interface_hash (JObj (demo_interface (JObj [(''type'', JStr ''object''), (''x-note'', JStr ''n''),
       (''properties'', JObj [(''a'', JObj [(''x-kind'', JNull)])]), (''additionalProperties'', JBool False)]))) =
     compute_interface_hash (JObj (demo_interface demo_noted))"
proof (rule interface_hash_stable)
  show "is_non_normative_key ''hash'' True" by (simp add: is_non_normative_key_def)
  show "normalize_schema_positions True (JObj (demo_interface demo_noted)) =
      Inr (demo_interface (JObj [(''type'', JStr ''object''), (''x-note'', JStr ''n''),
       (''properties'', JObj [(''a'', JObj [(''x-kind'', JNull)])]), (''additionalProperties'', JBool False)]))"
    by (simp add: demo_interface_def demo_noted_def normalize_schema_positions_def normalized_members_def object_of_def
        normalize_values_def normalize_method_def method_schema_fields_def normalize_eval)
qed

text \<open>Two alternatives with two candidates for the discriminator.\<close>

definition demo_commented :: "string \<Rightarrow> json" where
  "demo_commented t = JObj [(''type'', JStr ''object''), (''properties'', JObj [(''comment'', JObj [(''type'', JStr t)])])]"

lemmas hash_eval = normalize_schema_positions_def normalized_members_def object_of_def normalize_values_def
  normalize_method_def method_schema_fields_def normalize_eval

lemma json_quote_eq [simp]: "json_quote a = json_quote b \<longleftrightarrow> a = b"
  using json_quote_cancel [of a "[]" b "[]"] by auto

definition demo_branch :: "string list \<Rightarrow> string \<Rightarrow> json" where
  "demo_branch ks c = JObj [(''type'', JStr ''object''),
     (''properties'', JObj (map (\<lambda>k. (k, JObj [(''const'', JStr (k @ c))])) ks)), (''additionalProperties'', JBool False)]"

lemma normalize_demo_branch:
  "normalize False (demo_branch [''a'', ''b''] c) = Inr (demo_branch [''a'', ''b''] c)"
  "normalize False (demo_branch [''b'', ''a''] c) = Inr (demo_branch [''b'', ''a''] c)"
  by (simp_all add: demo_branch_def normalize_eval)

lemma detect_demo:
  "detect_discriminator [demo_branch [''a'', ''b''] ''1'', demo_branch [''a'', ''b''] ''2''] = Some ''a''"
  "detect_discriminator [demo_branch [''b'', ''a''] ''1'', demo_branch [''b'', ''a''] ''2''] = Some ''b''"
  by (simp_all add: detect_discriminator_def demo_branch_def branch_props_def js_truthy_def type_of_def entries_of_def
      const_prop_names_def const_text_def image_iff)

definition demo_tagged :: "string list \<Rightarrow> (string \<times> json) list \<Rightarrow> json" where
  "demo_tagged ks rest = JObj ((''oneOf'', JArr [demo_branch ks ''1'', demo_branch ks ''2'']) # rest)"

lemma normalize_demo_tagged:
  "normalize False (demo_tagged [''a'', ''b''] []) =
    Inr (demo_tagged [''a'', ''b''] [(''discriminator'', JObj [(''propertyName'', JStr ''a'')])])"
  "normalize False (demo_tagged [''b'', ''a''] []) =
    Inr (demo_tagged [''b'', ''a''] [(''discriminator'', JObj [(''propertyName'', JStr ''b'')])])"
  by (simp_all add: demo_tagged_def normalize_eval normalize_demo_branch detect_demo)


lemma hashed_text_inj:
  assumes "hashed_text a = hashed_text b" "normalize_schema_positions False a = Inr x" "normalize_schema_positions False b = Inr y"
    "json_ok (strip_root x)" "json_ok (strip_root y)" "json_finite (strip_root x)"
  shows "jnorm (strip_root x) = jnorm (strip_root y)"
proof -
  have "jcs_canonicalize_bytes (strip_root x) = Inr (utf8 (text_of (strip_root x)))"
    using assms(6) by (simp add: jcs_canonicalize_bytes_def jcs_canonicalize_def canonicalize_finite)
  moreover have "jcs_canonicalize_bytes (strip_root y) = jcs_canonicalize_bytes (strip_root x)"
    using assms(1-3) by (simp add: hashed_text_def jcs_canonicalize_bytes_def)
  ultimately show ?thesis using jcs_bytes_eq_iff [OF assms(4,5)] by simp
qed

lemma positions_demo:
  "normalize False params = Inr s \<Longrightarrow>
    normalize_schema_positions False (JObj (demo_interface params)) = Inr (demo_interface s)"
  by (simp add: demo_interface_def normalize_schema_positions_def normalized_members_def object_of_def
      normalize_values_def normalize_method_def method_schema_fields_def)

lemmas strip_eval = strip_root_def normative_fields_def is_non_normative_key_def own_def starts_with_def

text \<open>Worked examples of what the hash gets wrong: two documents that differ in the order of properties only
  can have different hashed texts, because the first of several candidates is taken for the discriminator of a union;
  and two whose methods take a parameter called comment of different types have the same, because the
  name is taken for a comment.\<close>

lemma interface_hash_examples:
  "jnorm (JObj (demo_interface (demo_tagged [''a'', ''b''] []))) = jnorm (JObj (demo_interface (demo_tagged [''b'', ''a''] []))) \<and>
   hashed_text (JObj (demo_interface (demo_tagged [''a'', ''b''] []))) \<noteq>
     hashed_text (JObj (demo_interface (demo_tagged [''b'', ''a''] []))) \<and>
   compute_interface_hash (JObj (demo_interface (demo_commented ''string''))) =
     compute_interface_hash (JObj (demo_interface (demo_commented ''number'')))"
proof (intro conjI)
  show "jnorm (JObj (demo_interface (demo_tagged [''a'', ''b''] []))) = jnorm (JObj (demo_interface (demo_tagged [''b'', ''a''] [])))"
    by (simp add: demo_interface_def demo_tagged_def demo_branch_def)
  let ?x = "demo_interface (demo_tagged [''a'', ''b''] [(''discriminator'', JObj [(''propertyName'', JStr ''a'')])])"
  let ?y = "demo_interface (demo_tagged [''b'', ''a''] [(''discriminator'', JObj [(''propertyName'', JStr ''b'')])])"
  show "hashed_text (JObj (demo_interface (demo_tagged [''a'', ''b''] []))) \<noteq>
     hashed_text (JObj (demo_interface (demo_tagged [''b'', ''a''] [])))"
  proof
    assume "hashed_text (JObj (demo_interface (demo_tagged [''a'', ''b''] []))) =
      hashed_text (JObj (demo_interface (demo_tagged [''b'', ''a''] [])))"
    from hashed_text_inj [OF this positions_demo [OF normalize_demo_tagged(1)] positions_demo [OF normalize_demo_tagged(2)]]
    have "jnorm (strip_root ?x) = jnorm (strip_root ?y)"
      by (simp add: demo_interface_def demo_tagged_def demo_branch_def strip_eval)
    then show False by (simp add: demo_interface_def demo_tagged_def demo_branch_def strip_eval)
  qed
  have n: "normalize False (demo_commented t) = Inr (JObj [(''type'', JStr ''object''),
      (''properties'', JObj [(''comment'', JObj [(''type'', JStr t)])]), (''additionalProperties'', JBool False)])"
    if "t \<noteq> ''object''" for t
    using that by (simp add: demo_commented_def normalize_eval)
  show "compute_interface_hash (JObj (demo_interface (demo_commented ''string''))) =
      compute_interface_hash (JObj (demo_interface (demo_commented ''number'')))"
    unfolding compute_interface_hash_def hashed_text_def
    by (subst positions_demo [OF n], simp, subst positions_demo [OF n], simp)
      (simp add: demo_interface_def strip_eval)
qed

end
