(* ===== verification/JsonText.thy ===== *)
theory JsonText
  imports Assignability
begin

text \<open>
  \<^verbatim>\<open>JSON.parse\<close>, the standard library's reader of the texts the transports carry, and the proof that
  it reads back what \<^verbatim>\<open>JSON.stringify\<close> wrote.  The grammar is that of the language standard: white
  space, the three literals, numbers without leading zeros, strings with escapes, arrays and objects,
  where a repeated property keeps its first place and its last value.  An escape for a code unit
  beyond Latin-1 has no value here, as no such character has.  Nesting is bounded by a fuel that the
  length of the text provides; \<open>parse_fuel\<close> shows that more fuel changes nothing.
\<close>

section \<open>Tokens\<close>

definition json_space :: "char \<Rightarrow> bool" where
  "json_space c = ((of_char c :: nat) \<in> {9, 10, 13, 32})"

definition skip_ws :: "string \<Rightarrow> string" where
  "skip_ws s = dropWhile json_space s"

definition escaped :: "char \<Rightarrow> char option" where
  "escaped c =
     (if c = CHR 0x22 \<or> c = CHR 0x5C \<or> c = CHR ''/'' then Some c
      else if c = CHR ''b'' then Some CHR 0x08
      else if c = CHR ''f'' then Some CHR 0x0C
      else if c = CHR ''n'' then Some CHR 0x0A
      else if c = CHR ''r'' then Some CHR 0x0D
      else if c = CHR ''t'' then Some CHR 0x09
      else None)"

definition hex_unit :: "char \<Rightarrow> char \<Rightarrow> char \<Rightarrow> char \<Rightarrow> char option" where
  "hex_unit a b c d =
     (case (hex_value a, hex_value b, hex_value c, hex_value d) of
        (Some p, Some q, Some x, Some y) \<Rightarrow> if p = 0 \<and> q = 0 then Some (char_of (16 * x + y)) else None
      | _ \<Rightarrow> None)"

text \<open>The characters of a string up to its closing quote, and the text after it.\<close>

fun parse_string :: "string \<Rightarrow> (string \<times> string) option" where
  "parse_string [] = None"
| "parse_string (c # s) =
     (if c = CHR 0x22 then Some ([], s)
      else if c = CHR 0x5C then
        (case s of
           [] \<Rightarrow> None
         | e # t \<Rightarrow>
             if e = CHR ''u'' then
               (case t of
                  a # b # x # y # t' \<Rightarrow>
                    (case hex_unit a b x y of
                       Some u \<Rightarrow> map_option (apfst ((#) u)) (parse_string t')
                     | None \<Rightarrow> None)
                | _ \<Rightarrow> None)
             else
               (case escaped e of
                  Some u \<Rightarrow> map_option (apfst ((#) u)) (parse_string t)
                | None \<Rightarrow> None))
      else if (of_char c :: nat) < 32 then None
      else map_option (apfst ((#) c)) (parse_string s))"

definition num_char :: "char \<Rightarrow> bool" where
  "num_char c = (is_digit c \<or> c \<in> {CHR ''.'', CHR ''e'', CHR ''E'', CHR ''+'', CHR ''-''})"

definition number_ok :: "string \<Rightarrow> bool" where
  "number_ok t =
     (let u = (if t \<noteq> [] \<and> hd t = CHR ''-'' then tl t else t);
          man = takeWhile not_exp u;
          ip = takeWhile (\<lambda>c. c \<noteq> CHR ''.'') man;
          fp = dropWhile (\<lambda>c. c \<noteq> CHR ''.'') man in
      ip \<noteq> [] \<and> digits ip \<and> (ip = ''0'' \<or> hd ip \<noteq> CHR ''0'') \<and>
      (fp = [] \<or> tl fp \<noteq> [] \<and> digits (tl fp)) \<and>
      read_exponent (dropWhile not_exp u) \<noteq> None)"

section \<open>Values\<close>

fun parse_value :: "nat \<Rightarrow> string \<Rightarrow> (json \<times> string) option"
  and parse_items :: "nat \<Rightarrow> string \<Rightarrow> (json list \<times> string) option"
  and parse_members :: "nat \<Rightarrow> string \<Rightarrow> ((string \<times> json) list \<times> string) option" where
  "parse_value 0 s = None"
| "parse_value (Suc n) s =
     (case skip_ws s of
        [] \<Rightarrow> None
      | c # t \<Rightarrow>
          if c = CHR 0x22 then map_option (apfst JStr) (parse_string t)
          else if c = CHR ''['' then
            (if starts_with (skip_ws t) '']'' then Some (JArr [], tl (skip_ws t))
             else map_option (apfst JArr) (parse_items n t))
          else if c = CHR ''{'' then
            (if starts_with (skip_ws t) ''}'' then Some (JObj [], tl (skip_ws t))
             else map_option (apfst (\<lambda>kvs. JObj (foldl (\<lambda>m (k, v). jm_set m k v) [] kvs))) (parse_members n t))
          else if starts_with (c # t) ''null'' then Some (JNull, drop 4 (c # t))
          else if starts_with (c # t) ''true'' then Some (JBool True, drop 4 (c # t))
          else if starts_with (c # t) ''false'' then Some (JBool False, drop 5 (c # t))
          else if number_ok (takeWhile num_char (c # t)) then
            Some (JNum (js_number (takeWhile num_char (c # t))), dropWhile num_char (c # t))
          else None)"
| "parse_items 0 s = None"
| "parse_items (Suc n) s =
     (case parse_value n s of
        None \<Rightarrow> None
      | Some (v, r) \<Rightarrow>
          (case skip_ws r of
             [] \<Rightarrow> None
           | c # t \<Rightarrow>
               if c = CHR '']'' then Some ([v], t)
               else if c = CHR '','' then map_option (apfst ((#) v)) (parse_items n t)
               else None))"
| "parse_members 0 s = None"
| "parse_members (Suc n) s =
     (case skip_ws s of
        [] \<Rightarrow> None
      | q # s' \<Rightarrow>
          if q \<noteq> CHR 0x22 then None
          else (case parse_string s' of
             None \<Rightarrow> None
           | Some (k, r) \<Rightarrow>
               (case skip_ws r of
                  [] \<Rightarrow> None
                | d # r' \<Rightarrow>
                    if d \<noteq> CHR '':'' then None
                    else (case parse_value n r' of
                       None \<Rightarrow> None
                     | Some (v, r'') \<Rightarrow>
                         (case skip_ws r'' of
                            [] \<Rightarrow> None
                          | c # t \<Rightarrow>
                              if c = CHR ''}'' then Some ([(k, v)], t)
                              else if c = CHR '','' then map_option (apfst ((#) (k, v))) (parse_members n t)
                              else None)))))"

definition json_parse :: "string \<Rightarrow> json option" where
  "json_parse s =
     (case parse_value (2 * length s + 1) s of
        None \<Rightarrow> None
      | Some (j, r) \<Rightarrow> if skip_ws r = [] then Some j else None)"

lemma json_parse_examples:
  "json_parse '' [null, {}, true , [[], false]] '' =
     Some (JArr [JNull, JObj [], JBool True, JArr [JArr [], JBool False]])"
  "json_parse ''[1,]'' = None" "json_parse ''01'' = None" "json_parse '''' = None"
  "json_parse ''null x'' = None"
  by code_simp+

section \<open>Fuel\<close>

lemma length_skip_ws: "length (skip_ws s) \<le> length s"
  by (simp add: skip_ws_def length_dropWhile_le)

lemma skip_ws_Cons: "skip_ws s = c # t \<Longrightarrow> length t < length s"
  using length_skip_ws [of s] by simp

lemma parse_string_less: "parse_string s = Some (k, r) \<Longrightarrow> length r < length s"
proof (induction s arbitrary: k r rule: measure_induct_rule [of length])
  case (less s)
  have IH: "length y < length s \<Longrightarrow> parse_string y = Some p \<Longrightarrow> length (snd p) < length y" for y p
    using less.IH [of y "fst p" "snd p"] by simp
  from less.prems show ?case
    by (cases s) (fastforce split: if_splits list.splits option.splits dest: IH [rotated])+
qed

lemma number_ok_not_Nil: "number_ok t \<Longrightarrow> t \<noteq> []"
  by (auto simp: number_ok_def)

lemma number_less:
  assumes "number_ok (takeWhile num_char (c # t))"
  shows "length (dropWhile num_char (c # t)) < length (c # t)"
proof -
  from number_ok_not_Nil [OF assms] have "num_char c" by (auto split: if_splits)
  then show ?thesis using length_dropWhile_le [of num_char t] by simp
qed

lemma parse_items_SucE:
  assumes "parse_items (Suc n) s = Some (js, r)"
  obtains v r' where "parse_value n s = Some (v, r')" "skip_ws r' = CHR '']'' # r" "js = [v]"
  | v r' t js' where "parse_value n s = Some (v, r')" "skip_ws r' = CHR '','' # t"
      "parse_items n t = Some (js', r)" "js = v # js'"
  using assms by (auto split: option.splits list.splits if_splits)

lemma parse_members_SucE:
  assumes "parse_members (Suc n) s = Some (kvs, r)"
  obtains s' k t t' v u c w where "skip_ws s = CHR 0x22 # s'" "parse_string s' = Some (k, t)"
    "skip_ws t = CHR '':'' # t'" "parse_value n t' = Some (v, u)" "skip_ws u = c # w"
    "c = CHR ''}'' \<and> kvs = [(k, v)] \<and> r = w \<or>
     c = CHR '','' \<and> (\<exists>kvs'. parse_members n w = Some (kvs', r) \<and> kvs = (k, v) # kvs')"
  using assms by (auto split: option.splits list.splits if_splits)

lemma parse_less_step:
  "(\<forall>j r. parse_value n s = Some (j, r) \<longrightarrow> length r < length s) \<and>
   (\<forall>js r. parse_items n s = Some (js, r) \<longrightarrow> length r < length s) \<and>
   (\<forall>kvs r. parse_members n s = Some (kvs, r) \<longrightarrow> length r < length s)"
proof (induction n arbitrary: s)
  case (Suc n)
  note IH = Suc.IH [THEN conjunct1, rule_format] Suc.IH [THEN conjunct2, THEN conjunct1, rule_format]
    Suc.IH [THEN conjunct2, THEN conjunct2, rule_format]
  have "length r < length s" if "parse_value (Suc n) s = Some (j, r)" for j r
  proof -
    from that obtain c t where s: "skip_ws s = c # t" by (auto split: list.splits)
    have "length r < length (c # t)"
      using that length_skip_ws [of t] number_less [of c t]
      by (auto simp: s split: if_splits dest!: parse_string_less IH simp del: dropWhile.simps takeWhile.simps)
    with s length_skip_ws [of s] show ?thesis by simp
  qed
  moreover have "length r < length s" if "parse_items (Suc n) s = Some (js, r)" for js r
    using that by (cases rule: parse_items_SucE) (fastforce dest!: IH skip_ws_Cons)+
  moreover have "length r < length s" if "parse_members (Suc n) s = Some (kvs, r)" for kvs r
    using that by (cases rule: parse_members_SucE) (auto dest!: IH skip_ws_Cons parse_string_less)
  ultimately show ?case by blast
qed simp

lemmas parse_value_less = parse_less_step [THEN conjunct1, rule_format]

lemma parse_fuel_step:
  "(2 * length s \<le> n \<longrightarrow> 2 * length s \<le> m \<longrightarrow> parse_value n s = parse_value m s) \<and>
   (2 * length s < n \<longrightarrow> 2 * length s < m \<longrightarrow> parse_items n s = parse_items m s) \<and>
   (2 * length s < n \<longrightarrow> 2 * length s < m \<longrightarrow> parse_members n s = parse_members m s)"
proof (induction n arbitrary: m s)
  case 0
  then show ?case by (cases m) (auto simp: skip_ws_def)
next
  case (Suc n)
  show ?case
  proof (cases m)
    case 0
    then show ?thesis by (auto simp: skip_ws_def)
  next
    case m: (Suc k)
    have V: "parse_value (Suc n) s = parse_value m s" if "2 * length s \<le> Suc n" "2 * length s \<le> m"
    proof (cases "skip_ws s")
      case (Cons c t)
      with that m have "2 * length t < n" "2 * length t < k" using skip_ws_Cons [OF Cons] by simp_all
      then have "parse_items n t = parse_items k t" "parse_members n t = parse_members k t"
        using Suc.IH [of t k] by auto
      then show ?thesis by (simp add: m Cons)
    qed (simp add: m)
    have I: "parse_items (Suc n) s = parse_items m s" if le: "2 * length s < Suc n" "2 * length s < m"
    proof -
      have eq: "parse_value n s = parse_value k s" using Suc.IH [of s k] le m by simp
      have "parse_items n t = parse_items k t"
        if "parse_value k s = Some (v, r)" "skip_ws r = c # t" for v r c t
        using Suc.IH [of t k] parse_value_less [OF that(1)] skip_ws_Cons [OF that(2)] le m by simp
      with eq show ?thesis by (auto simp: m split: option.split list.split)
    qed
    have M: "parse_members (Suc n) s = parse_members m s" if le: "2 * length s < Suc n" "2 * length s < m"
    proof -
      have V: "parse_value n y = parse_value k y" if "length y < length s" for y
        using Suc.IH [of y k] le m that by simp
      have R: "parse_members n y = parse_members k y" if "length y < length s" for y
        using Suc.IH [of y k] le m that by simp
      show ?thesis
      proof (cases "skip_ws s")
        case (Cons q s')
        show ?thesis
        proof (cases "parse_string s'")
          case s': (Some p)
          obtain kk r where p: "p = (kk, r)" by (cases p)
          show ?thesis
          proof (cases "skip_ws r")
            case r: (Cons d r')
            have less: "length r' < length s"
              using skip_ws_Cons [OF Cons] skip_ws_Cons [OF r] parse_string_less [OF s' [unfolded p]] by simp
            have "parse_members n t = parse_members k t"
              if "parse_value k r' = Some (v, r'')" "skip_ws r'' = c # t" for v r'' c t
              using R [of t] parse_value_less [OF that(1)] skip_ws_Cons [OF that(2)] less by simp
            with V [OF less] show ?thesis by (auto simp: m Cons s' p r split: option.split list.split)
          qed (simp add: m Cons s' p)
        qed (simp add: m Cons)
      qed (simp add: m)
    qed
    from V I M show ?thesis by blast
  qed
qed

lemma parse_fuel: "2 * length s \<le> n \<Longrightarrow> parse_value n s = parse_value (2 * length s + 1) s"
  using parse_fuel_step [of s n "2 * length s + 1"] by simp

section \<open>Reading back what was written\<close>

lemma hex_value_hex_char: "d < 16 \<Longrightarrow> hex_value (hex_char d) = Some d"
  by (auto simp: hex_value_def hex_char_def is_digit_def of_char_of)

lemma parse_string_char: "parse_string (quote_char c @ x) = map_option (apfst ((#) c)) (parse_string x)"
proof -
  define n where "n = (of_char c :: nat)"
  have c: "c = char_of n" by (simp add: n_def)
  have nz: "hex_value CHR ''0'' = Some 0" by (simp add: hex_value_def is_digit_def)
  show ?thesis
  proof (cases "n \<in> {34, 92, 8, 12, 10, 13, 9}")
    case True
    then have "c \<in> {CHR 0x22, CHR 0x5C, CHR 0x08, CHR 0x0C, CHR 0x0A, CHR 0x0D, CHR 0x09}"
      by (simp add: n_def of_char_inj [symmetric])
    then show ?thesis by (elim insertE) (simp_all add: quote_char_def escaped_def)
  next
    case other: False
    show ?thesis
    proof (cases "n < 32")
      case True
      then have "hex_unit CHR ''0'' CHR ''0'' (hex_char (n div 16)) (hex_char (n mod 16)) = Some c"
        by (simp add: hex_unit_def nz hex_value_hex_char less_mult_imp_div_less c)
      with True other show ?thesis by (simp add: quote_char_def Let_def n_def [symmetric])
    next
      case False
      from other have "c \<noteq> CHR 0x22" "c \<noteq> CHR 0x5C" by (auto simp: n_def)
      with False other show ?thesis by (simp add: quote_char_def Let_def n_def [symmetric])
    qed
  qed
qed

lemma parse_string_quoted: "parse_string (concat (map quote_char s) @ CHR 0x22 # r) = Some (s, r)"
  by (induction s) (simp_all add: parse_string_char)

lemma show_nat_hd: "n > 0 \<Longrightarrow> hd (show_nat n) \<noteq> CHR ''0''"
proof (induction n rule: show_nat.induct)
  case (1 n)
  show ?case
  proof (cases "n < 10")
    case True
    with 1(2) have "char_digit (hd (show_nat n)) = n"
      by (subst show_nat.simps) simp
    with 1(2) show ?thesis by (auto simp: char_digit_def)
  next
    case False
    with 1(1) show ?thesis by (subst show_nat.simps) simp
  qed
qed

lemma show_positive_hd:
  assumes "m > 0"
  shows "hd (show_positive m e) \<noteq> CHR ''0'' \<or> (\<exists>t. show_positive m e = CHR ''0'' # CHR ''.'' # t)"
proof -
  have "show_nat m \<noteq> []" by simp
  then obtain d ds where ds: "show_nat m = d # ds" by (cases "show_nat m") blast+
  with show_nat_hd [OF assms] have "d \<noteq> CHR ''0''" by simp
  then show ?thesis
    by (auto simp: show_positive_def Let_def ds take_Cons' hd_append)
qed

lemma number_ok_pieces:
  assumes "number_text s ip fp x" "ip = ''0'' \<or> hd ip \<noteq> CHR ''0''"
  shows "number_ok s" "number_ok (CHR ''-'' # s)"
proof -
  note nt = assms(1) [unfolded number_text_def]
  have ne: "not_exp c" if "c \<in> set (ip @ frac fp)" for c
    using that nt digits_not_exp by (auto simp: frac_def not_exp_def split: if_splits)
  have ex: "expo x = [] \<or> \<not> not_exp (hd (expo x))"
    by (auto simp: expo_def show_exponent_def not_exp_def split: option.splits)
  have man: "takeWhile not_exp s = ip @ frac fp" "dropWhile not_exp s = expo x"
    using takeWhile_span [of "ip @ frac fp" not_exp "expo x"]
      dropWhile_span [of "ip @ frac fp" not_exp "expo x"] ne ex nt by simp_all
  have ip: "takeWhile (\<lambda>c. c \<noteq> CHR ''.'') (ip @ frac fp) = ip"
    "dropWhile (\<lambda>c. c \<noteq> CHR ''.'') (ip @ frac fp) = frac fp"
    using digits_not_dot [of ip] nt by (auto simp: frac_def takeWhile_append dropWhile_append)
  have "hd s \<noteq> CHR ''-''" "s \<noteq> []" using number_text_plain [OF assms(1)] by auto
  then show "number_ok s" "number_ok (CHR ''-'' # s)"
    using nt [THEN conjunct2] assms(2)
    by (simp_all add: number_ok_def Let_def man ip read_exponent_expo) (use digits_not_dot [of ip] nt in \<open>auto simp: frac_def\<close>)
qed

lemma number_ok_num_to_string: "number_ok (num_to_string (Dec m e))"
proof (cases "m = 0")
  case True
  then show ?thesis by (simp add: num_to_string_def number_ok_def not_exp_def is_digit_def)
next
  case False
  then have pos: "nat \<bar>m\<bar> > 0" by simp
  from show_positive_text [OF this, of e] obtain ip fp x
    where nt: "number_text (show_positive (nat \<bar>m\<bar>) e) ip fp x" by blast
  then have s: "show_positive (nat \<bar>m\<bar>) e = ip @ frac fp @ expo x" "digits ip" "ip \<noteq> []"
    by (simp_all add: number_text_def)
  have "ip = ''0'' \<or> hd ip \<noteq> CHR ''0''"
    using show_positive_hd [OF pos, of e]
  proof
    assume "hd (show_positive (nat \<bar>m\<bar>) e) \<noteq> CHR ''0''"
    with s show ?thesis by simp
  next
    assume "\<exists>t. show_positive (nat \<bar>m\<bar>) e = CHR ''0'' # CHR ''.'' # t"
    then obtain t where "ip @ frac fp @ expo x = CHR ''0'' # CHR ''.'' # t" using s by auto
    with s(2,3) show ?thesis
      by (cases ip; cases "tl ip") (auto simp: is_digit_def)
  qed
  from number_ok_pieces [OF nt this] False show ?thesis
    by (auto simp: num_to_string_def)
qed

lemma takeWhile_number:
  assumes "stops r"
  shows "takeWhile num_char (num_to_string (Dec m e) @ r) = num_to_string (Dec m e)"
    "dropWhile num_char (num_to_string (Dec m e) @ r) = r"
proof -
  have P: "num_char c" if "c \<in> set (num_to_string (Dec m e))" for c
    using num_to_string_chars [OF that] by (auto simp: num_char_def)
  have S: "r = [] \<or> \<not> num_char (hd r)"
    using assms by (auto simp: stops_def num_char_def is_digit_def)
  show "takeWhile num_char (num_to_string (Dec m e) @ r) = num_to_string (Dec m e)"
    "dropWhile num_char (num_to_string (Dec m e) @ r) = r"
    using takeWhile_span [of "num_to_string (Dec m e)" num_char r]
      dropWhile_span [of "num_to_string (Dec m e)" num_char r] P S by simp_all
qed

lemma skip_ws_id: "s \<noteq> [] \<Longrightarrow> \<not> json_space (hd s) \<Longrightarrow> skip_ws s = s"
  by (cases s) (simp_all add: skip_ws_def)

lemma skip_ws_stringify: "json_finite j \<Longrightarrow> skip_ws (json_stringify j @ r) = json_stringify j @ r"
  using stringify_hd [of j]
  by (intro skip_ws_id) (auto simp: kind_char_def is_digit_def json_space_def split: json.splits if_splits)

lemma skip_ws_punct [simp]:
  "skip_ws (CHR '','' # r) = CHR '','' # r" "skip_ws (CHR '']'' # r) = CHR '']'' # r"
  "skip_ws (CHR ''}'' # r) = CHR ''}'' # r" "skip_ws (CHR '':'' # r) = CHR '':'' # r"
  "skip_ws (CHR 0x22 # r) = CHR 0x22 # r" "skip_ws (CHR ''['' # r) = CHR ''['' # r"
  "skip_ws (CHR ''{'' # r) = CHR ''{'' # r" "skip_ws [] = []"
  by (simp_all add: skip_ws_def json_space_def)

lemma jm_set_fresh: "k \<notin> set (map fst m) \<Longrightarrow> jm_set m k v = m @ [(k, v)]"
  by (induction m k v rule: jm_set.induct) auto

lemma foldl_jm_set_fresh:
  "distinct (map fst (m @ kvs)) \<Longrightarrow> foldl (\<lambda>m (k, v). jm_set m k v) m kvs = m @ kvs"
proof (induction kvs arbitrary: m)
  case (Cons p kvs)
  then show ?case by (cases p) (auto simp: jm_set_fresh)
qed simp

definition reads :: "json \<Rightarrow> bool" where
  "reads j = (\<forall>n r. stops r \<longrightarrow> 2 * length (json_stringify j) \<le> n \<longrightarrow>
     parse_value n (json_stringify j @ r) = Some (j, r))"

lemma readsD:
  "reads j \<Longrightarrow> stops r \<Longrightarrow> 2 * length (json_stringify j) \<le> n \<Longrightarrow>
    parse_value n (json_stringify j @ r) = Some (j, r)"
  by (simp add: reads_def)

lemma parse_items_join:
  assumes "xs \<noteq> []" "\<And>x. x \<in> set xs \<Longrightarrow> reads x"
    "2 * length (js_join '','' (map json_stringify xs)) < n"
  shows "parse_items n (js_join '','' (map json_stringify xs) @ CHR '']'' # r) = Some (xs, r)"
  using assms
proof (induction xs arbitrary: n)
  case (Cons x xs)
  then obtain k where n: "n = Suc k" by (cases n) auto
  have x: "reads x" using Cons.prems(2) by simp
  show ?case
  proof (cases "xs = []")
    case True
    with Cons.prems(3) n readsD [OF x, of "CHR '']'' # r" k] show ?thesis
      by (simp add: stops_def)
  next
    case False
    define J where "J = js_join '','' (map json_stringify xs)"
    have len: "2 * (length (json_stringify x) + Suc (length J)) < n"
      using Cons.prems(3) False by (simp add: J_def js_join_Cons)
    have "parse_items k (J @ CHR '']'' # r) = Some (xs, r)"
      unfolding J_def by (rule Cons.IH) (use False Cons.prems(2) len n in \<open>simp_all add: J_def\<close>)
    moreover have "parse_value k (json_stringify x @ CHR '','' # J @ CHR '']'' # r) =
        Some (x, CHR '','' # J @ CHR '']'' # r)"
      using len n by (intro readsD [OF x]) (simp_all add: stops_def)
    ultimately show ?thesis using False by (simp add: n js_join_Cons J_def [symmetric])
  qed
qed simp

lemma parse_members_join:
  assumes "kvs \<noteq> []" "\<And>p. p \<in> set kvs \<Longrightarrow> reads (snd p) \<and> json_finite (snd p)"
    "2 * length (js_join '','' (map stringify_item kvs)) < n"
  shows "parse_members n (js_join '','' (map stringify_item kvs) @ CHR ''}'' # r) = Some (kvs, r)"
  using assms
proof (induction kvs arbitrary: n)
  case (Cons p kvs)
  then obtain k where n: "n = Suc k" by (cases n) auto
  obtain a j where p: "p = (a, j)" by (cases p)
  have j: "reads j" "json_finite j" using Cons.prems(2) [of p] p by simp_all
  have item: "stringify_item (a, j) = CHR 0x22 # concat (map quote_char a) @ CHR 0x22 # CHR '':'' # json_stringify j"
    by (simp add: stringify_item_def json_quote_def)
  show ?case
  proof (cases "kvs = []")
    case True
    with Cons.prems(3) n readsD [OF j(1), of "CHR ''}'' # r" k] show ?thesis
      by (simp add: stops_def item parse_string_quoted p)
  next
    case False
    define J where "J = js_join '','' (map stringify_item kvs)"
    have len: "2 * (length (stringify_item p) + Suc (length J)) < n"
      using Cons.prems(3) False by (simp add: J_def js_join_Cons)
    have "parse_members k (J @ CHR ''}'' # r) = Some (kvs, r)"
      unfolding J_def by (rule Cons.IH) (use False Cons.prems(2) len n in \<open>simp_all add: J_def\<close>)
    moreover have "parse_value k (json_stringify j @ CHR '','' # J @ CHR ''}'' # r) =
        Some (j, CHR '','' # J @ CHR ''}'' # r)"
      using len n by (intro readsD [OF j(1)]) (simp_all add: stops_def item p)
    ultimately show ?thesis using False
      by (simp add: n js_join_Cons J_def [symmetric] item parse_string_quoted p)
  qed
qed simp

lemma reads_scalar: "json_finite j \<Longrightarrow> json_ok j \<Longrightarrow> \<forall>xs. j \<noteq> JArr xs \<Longrightarrow> \<forall>kvs. j \<noteq> JObj kvs \<Longrightarrow> reads j"
proof -
  assume j: "json_finite j" "json_ok j" "\<forall>xs. j \<noteq> JArr xs" "\<forall>kvs. j \<noteq> JObj kvs"
  have "parse_value (Suc n) (json_stringify j @ r) = Some (j, r)" if "stops r" for n r
  proof (cases j)
    case (JNum k)
    with j obtain m e where k: "k = Dec m e" by (cases k) (auto simp: num_finite_def)
    obtain c t where s: "num_to_string k @ r = c # t" "is_digit c \<or> c = CHR ''-''"
      using num_to_string_hd [of m e] k by (cases "num_to_string k") auto
    from s(2) have "c \<noteq> CHR 0x22" "c \<noteq> CHR ''[''" "c \<noteq> CHR ''{''" "c \<noteq> CHR ''n''" "c \<noteq> CHR ''t''"
      "c \<noteq> CHR ''f''" by (auto simp: is_digit_def)
    moreover have "skip_ws (c # t) = c # t"
      using skip_ws_stringify [OF j(1), of r] s JNum k by simp
    moreover have tw: "takeWhile num_char (c # t) = num_to_string k" "dropWhile num_char (c # t) = r"
      using takeWhile_number [OF that, of m e] by (simp_all only: s(1) [symmetric] k)
    moreover have "number_ok (num_to_string k)" "js_number (num_to_string k) = k"
      using number_ok_num_to_string [of m e] js_number_num_to_string [of k] j(2) JNum k by simp_all
    moreover have "json_stringify j @ r = c # t" using s(1) JNum k by simp
    ultimately show ?thesis
      by (simp add: starts_with_def JNum del: takeWhile.simps dropWhile.simps json_stringify.simps)
  next
    case (JStr s)
    then show ?thesis by (simp add: json_quote_def parse_string_quoted)
  qed (use j in \<open>auto simp: skip_ws_def json_space_def starts_with_def\<close>)
  moreover have "json_stringify j \<noteq> []" using stringify_hd [OF j(1)] by simp
  ultimately show ?thesis
    unfolding reads_def by (metis Suc_pred length_greater_0_conv less_le_trans nat_0_less_mult_iff zero_less_numeral)
qed

lemma reads_json: "json_ok j \<Longrightarrow> json_finite j \<Longrightarrow> reads j"
proof (induction j)
  case (JArr xs)
  then have IH: "reads x" if "x \<in> set xs" for x using that by (simp add: list_all_iff)
  define J where "J = js_join '','' (map json_stringify xs)"
  have eq: "json_stringify (JArr xs) = CHR ''['' # J @ '']''" by (simp add: J_def)
  have "parse_value n (CHR ''['' # J @ CHR '']'' # r) = Some (JArr xs, r)"
    if "2 * length J + 2 \<le> n" for n r
  proof (cases xs)
    case Nil
    with that show ?thesis by (cases n) (simp_all add: J_def starts_with_def)
  next
    case (Cons x ys)
    from that obtain k where n: "n = Suc k" "2 * length J < k" by (cases n) auto
    have "\<not> stops (json_stringify x @ u)" "json_stringify x \<noteq> []"
      "skip_ws (json_stringify x @ u) = json_stringify x @ u" for u
      using JArr.prems(2) Cons stringify_not_stop [of x] stringify_hd [of x] skip_ws_stringify [of x] by simp_all
    then have "\<not> starts_with (skip_ws (J @ CHR '']'' # r)) '']''"
      by (cases "json_stringify x") (auto simp: J_def Cons js_join_Cons_if starts_with_def stops_def)
    moreover have "parse_items k (J @ CHR '']'' # r) = Some (xs, r)"
      unfolding J_def by (rule parse_items_join) (use Cons IH n in \<open>simp_all add: J_def\<close>)
    ultimately show ?thesis by (simp add: n)
  qed
  then show ?case unfolding reads_def eq by simp
next
  case (JObj kvs)
  have IH: "reads (snd p) \<and> json_finite (snd p)" if "p \<in> set kvs" for p
    using JObj.IH [of p "snd p"] JObj.prems json_items [of p kvs] that by (cases p) auto
  define J where "J = js_join '','' (map stringify_item kvs)"
  have eq: "json_stringify (JObj kvs) = CHR ''{'' # J @ ''}''"
    by (simp add: J_def stringify_items del: map_map)
  have kvs: "foldl (\<lambda>m (k, v). jm_set m k v) [] kvs = kvs"
    using foldl_jm_set_fresh [of "[]" kvs] JObj.prems(1) by simp
  have "parse_value n (CHR ''{'' # J @ CHR ''}'' # r) = Some (JObj kvs, r)"
    if "2 * length J + 2 \<le> n" for n r
  proof (cases kvs)
    case Nil
    with that show ?thesis by (cases n) (simp_all add: J_def starts_with_def)
  next
    case (Cons x ys)
    from that obtain k where n: "n = Suc k" "2 * length J < k" by (cases n) auto
    have "\<not> starts_with (skip_ws (J @ CHR ''}'' # r)) ''}''"
      by (simp add: J_def Cons js_join_Cons_if starts_with_def stringify_item_def json_quote_def)
    moreover have "parse_members k (J @ CHR ''}'' # r) = Some (kvs, r)"
      unfolding J_def by (rule parse_members_join) (use Cons IH n in \<open>simp_all add: J_def\<close>)
    ultimately show ?thesis by (simp add: n kvs)
  qed
  then show ?case unfolding reads_def eq by simp
qed (simp_all add: reads_scalar)

text \<open>Reading what was written gives the value back.\<close>

theorem parse_stringify:
  assumes "json_ok j" "json_finite j"
  shows "json_parse (json_stringify j) = Some j"
  using readsD [OF reads_json [OF assms(1,2)], of "[]" "2 * length (json_stringify j) + 1"]
  by (simp add: json_parse_def stops_def)

end
