(* ===== verification/Framing.thy ===== *)
theory Framing
  imports JsonText
begin

text \<open>
  The byte and text framings of the transports, \<^verbatim>\<open>node/headerDelimitedTransport.ts\<close>,
  \<^verbatim>\<open>node/ndjsonTransport.ts\<close> and the socket of \<^verbatim>\<open>transport/webSocketTransport.ts\<close>.  What a transport
  does is kept in its record: the messages its listener was called with, the reasons its close callback
  was called with, and the bytes it wrote.  A listener stays (\<open>On\<close>) or detaches itself at its first
  message (\<open>Once\<close>, the one of \<^verbatim>\<open>nextMessage\<close>); a listener that closes the transport it listens to is not
  modelled.  \<^verbatim>\<open>Buffer.toString('utf8')\<close> and the text of a \<^verbatim>\<open>SyntaxError\<close> belong to the runtime and are
  the fields of a parameter.
\<close>

section \<open>The inbox every transport has\<close>

datatype listen_mode = Off | Once | On

record 'm inbox =
  listener :: listen_mode
  waiting :: "'m list"
  heard :: "'m list"

definition hear :: "'m \<Rightarrow> ('m, 'a) inbox_scheme \<Rightarrow> ('m, 'a) inbox_scheme" where
  "hear m t = t\<lparr>heard := heard t @ [m], listener := (if listener t = Once then Off else listener t)\<rparr>"

primrec flush :: "'m list \<Rightarrow> ('m, 'a) inbox_scheme \<Rightarrow> ('m, 'a) inbox_scheme" where
  "flush [] t = t\<lparr>waiting := []\<rparr>"
| "flush (m # ms) t = (if listener t = Off then t\<lparr>waiting := m # ms\<rparr> else flush ms (hear m t))"

definition listen_with :: "listen_mode \<Rightarrow> ('m, 'a) inbox_scheme \<Rightarrow> ('m, 'a) inbox_scheme" where
  "listen_with l t = flush (waiting t) (t\<lparr>listener := l\<rparr>)"

definition push_or_hear :: "'m \<Rightarrow> ('m, 'a) inbox_scheme \<Rightarrow> ('m, 'a) inbox_scheme" where
  "push_or_hear m t = (if listener t \<noteq> Off then hear m t else t\<lparr>waiting := waiting t @ [m]\<rparr>)"

section \<open>Node's byte buffers\<close>

record runtime =
  utf8_text :: "bytes \<Rightarrow> string"
  syntax_error :: "string \<Rightarrow> string"

text \<open>\<^verbatim>\<open>toString('ascii')\<close> clears the top bit.\<close>

definition ascii_text :: "bytes \<Rightarrow> string" where
  "ascii_text bs = map (\<lambda>b. char_of (unat b mod 128)) bs"

definition header_separator :: bytes where
  "header_separator = [13, 10, 13, 10]"

fun find_separator :: "bytes \<Rightarrow> nat option" where
  "find_separator bs =
     (if take 4 bs = header_separator then Some 0
      else case bs of [] \<Rightarrow> None | _ # t \<Rightarrow> map_option Suc (find_separator t))"

declare find_separator.simps [simp del]

definition to_lower :: "string \<Rightarrow> string" where
  "to_lower s = map (\<lambda>c. let n = (of_char c :: nat) in
     if 65 \<le> n \<and> n \<le> 90 \<or> 192 \<le> n \<and> n \<le> 222 \<and> n \<noteq> 215 then char_of (n + 32) else c) s"

section \<open>Headers\<close>

definition max_safe :: nat where
  "max_safe = 9007199254740991"

text \<open>\<^verbatim>\<open>Number.isSafeInteger\<close>, with the integer.\<close>

definition safe_integer :: "jsnum \<Rightarrow> int option" where
  "safe_integer n =
     (case n of
        Dec m e \<Rightarrow> if 0 \<le> e \<and> \<bar>m * 10 ^ nat e\<bar> \<le> int max_safe then Some (m * 10 ^ nat e) else None
      | _ \<Rightarrow> None)"

definition positive_limit :: "jsnum option \<Rightarrow> nat \<Rightarrow> string \<Rightarrow> nat res" where
  "positive_limit value fallback name =
     (case safe_integer (case value of Some n \<Rightarrow> n | None \<Rightarrow> num_of_int (int fallback)) of
        Some i \<Rightarrow> if i \<le> 0 then Inl (JsError (name @ '' must be a positive integer'')) else Inr (nat i)
      | None \<Rightarrow> Inl (JsError (name @ '' must be a positive integer'')))"

text \<open>\<^verbatim>\<open>/^charset\s*=\s*"?utf-?8"?$/\<close>\<close>

definition optional_char :: "char \<Rightarrow> string \<Rightarrow> string" where
  "optional_char c s = (if s \<noteq> [] \<and> hd s = c then tl s else s)"

definition charset_ok :: "string \<Rightarrow> bool" where
  "charset_ok part =
     (let a = dropWhile is_space (drop 7 part);
          b = optional_char CHR 0x22 (dropWhile is_space (tl a));
          c = optional_char CHR ''-'' (drop 3 b) in
      starts_with part ''charset'' \<and> starts_with a ''='' \<and> starts_with b ''utf'' \<and>
      starts_with c ''8'' \<and> optional_char CHR 0x22 (tl c) = [])"

definition is_supported_content_type :: "string \<Rightarrow> bool" where
  "is_supported_content_type value =
     (let parts = map (\<lambda>part. to_lower (js_trim part)) (js_split value '';'') in
      hd parts = ''application/vscode-jsonrpc'' \<and> list_all charset_ok (tl parts))"

text \<open>\<^verbatim>\<open>/^(0|[1-9]\d*)$/\<close>\<close>

definition decimal_ok :: "string \<Rightarrow> bool" where
  "decimal_ok s = (s = ''0'' \<or> s \<noteq> [] \<and> digits s \<and> hd s \<noteq> CHR ''0'')"

fun header_lines :: "string list \<Rightarrow> (string \<times> string) list \<Rightarrow> (string \<times> string) list res" where
  "header_lines [] values = Inr values"
| "header_lines (line # lines) values =
     (case index_of CHR '':'' line of
        Some (Suc i) \<Rightarrow>
          let colon = Suc i;
              name = to_lower (js_trim (take colon line));
              value = js_trim (drop (colon + 1) line) in
          if jm_has values name then Inl (JsError (''duplicate '' @ name @ '' header''))
          else header_lines lines (jm_set values name value)
      | _ \<Rightarrow> Inl (JsError (''malformed header '' @ json_quote line)))"

definition crlf :: string where
  "crlf = [CHR 0x0D, CHR 0x0A]"

definition parse_headers :: "bytes \<Rightarrow> nat \<Rightarrow> nat res" where
  "parse_headers header_bytes max_content =
     res_bind (header_lines (js_split (ascii_text header_bytes) crlf) []) (\<lambda>values.
       case jm_get values ''content-length'' of
         None \<Rightarrow> Inl (JsError ''missing or invalid Content-Length header'')
       | Some raw \<Rightarrow>
           if \<not> decimal_ok raw then Inl (JsError ''missing or invalid Content-Length header'')
           else if read_nat raw > max_safe \<or> read_nat raw > max_content then
             Inl (JsError (''Content-Length exceeds '' @ show_nat max_content @ '' bytes''))
           else (case jm_get values ''content-type'' of
               None \<Rightarrow> Inr (read_nat raw)
             | Some ct \<Rightarrow>
                 if is_supported_content_type ct then Inr (read_nat raw)
                 else Inl (JsError (''unsupported Content-Type '' @ json_quote ct))))"

section \<open>The header-delimited transport\<close>

record framed = "json inbox" +
  residual :: bytes
  expected :: "nat option"
  closed :: bool
  close_reason :: "string option"
  on_closed :: "string list"
  written :: bytes
  max_header :: nat
  max_content :: nat
  max_pending :: nat

record framed_options =
  opt_max_header :: "jsnum option"
  opt_max_content :: "jsnum option"
  opt_max_pending :: "jsnum option"

definition new_framed :: "framed_options \<Rightarrow> framed res" where
  "new_framed options =
     res_bind (positive_limit (opt_max_header options) (64 * 1024) ''maxHeaderBytes'') (\<lambda>h.
     res_bind (positive_limit (opt_max_content options) (64 * 1024 * 1024) ''maxContentLength'') (\<lambda>c.
     res_bind (positive_limit (opt_max_pending options) 1024 ''maxPendingMessages'') (\<lambda>p.
       Inr \<lparr>listener = Off, waiting = [], heard = [], residual = [], expected = None, closed = False,
            close_reason = None, on_closed = [], written = [], max_header = h, max_content = c,
            max_pending = p\<rparr>)))"

definition framed_close :: "string \<Rightarrow> framed \<Rightarrow> framed" where
  "framed_close reason t =
     (if closed t then t
      else t\<lparr>closed := True, close_reason := Some reason, on_closed := on_closed t @ [reason]\<rparr>)"

definition framed_dispose :: "framed \<Rightarrow> framed" where
  "framed_dispose t = framed_close ''Header-delimited transport disposed'' t"

definition content_header :: "nat \<Rightarrow> string" where
  "content_header n = ''Content-Length: '' @ show_nat n"

text \<open>The frame of a message; \<^verbatim>\<open>send\<close> resolves (\<open>Inr\<close>) once the bytes are handed over.\<close>

definition frame :: "bytes \<Rightarrow> bytes" where
  "frame body = utf8 (content_header (length body)) @ header_separator @ body"

definition framed_send :: "json \<Rightarrow> framed \<Rightarrow> framed \<times> unit res" where
  "framed_send message t =
     (if closed t then
        (t, Inl (JsError (case close_reason t of Some r \<Rightarrow> r
           | None \<Rightarrow> ''Header-delimited transport is closed'')))
      else
        (let body = utf8 (json_stringify message) in
         if length body > max_content t then
           (t, Inl (JsError (''Header-delimited payload exceeds '' @ show_nat (max_content t) @ '' bytes'')))
         else (t\<lparr>written := written t @ frame body\<rparr>, Inr ())))"

definition framed_deliver :: "json \<Rightarrow> framed \<Rightarrow> framed" where
  "framed_deliver message t =
     (if listener t \<noteq> Off then hear message t
      else if length (waiting t) \<ge> max_pending t then
        framed_close (''Header-delimited pending message limit '' @ show_nat (max_pending t) @ '' exceeded'') t
      else t\<lparr>waiting := waiting t @ [message]\<rparr>)"

definition framed_set_listener :: "listen_mode \<Rightarrow> framed \<Rightarrow> framed" where
  "framed_set_listener l t = listen_with l t"

definition header_too_long :: "framed \<Rightarrow> string" where
  "header_too_long t =
     ''Invalid header-delimited frame: header exceeds '' @ show_nat (max_header t) @ '' bytes''"

text \<open>The two halves of the loop; \<open>False\<close> is a return.\<close>

definition take_header :: "framed \<Rightarrow> framed \<times> bool" where
  "take_header t =
     (case find_separator (residual t) of
        None \<Rightarrow>
          (if length (residual t) > max_header t then framed_close (header_too_long t) t else t, False)
      | Some header_end \<Rightarrow>
          if header_end + 4 > max_header t then (framed_close (header_too_long t) t, False)
          else (case parse_headers (take header_end (residual t)) (max_content t) of
              Inl (JsError e) \<Rightarrow> (framed_close (''Invalid header-delimited frame: '' @ e) t, False)
            | Inr n \<Rightarrow> (t\<lparr>expected := Some n, residual := drop (header_end + 4) (residual t)\<rparr>, True)))"

definition take_body :: "runtime \<Rightarrow> framed \<Rightarrow> nat \<Rightarrow> framed \<times> bool" where
  "take_body rt t n =
     (if length (residual t) < n then (t, False)
      else
        (let body = take n (residual t);
             t' = t\<lparr>residual := drop n (residual t), expected := None\<rparr> in
         case json_parse (utf8_text rt body) of
           None \<Rightarrow> (framed_close (''Invalid header-delimited JSON payload: '' @
             syntax_error rt (utf8_text rt body)) t', False)
         | Some parsed \<Rightarrow> (framed_deliver parsed t', True)))"

definition drain_step :: "runtime \<Rightarrow> framed \<Rightarrow> framed \<times> bool" where
  "drain_step rt t =
     (case expected t of
        Some n \<Rightarrow> take_body rt t n
      | None \<Rightarrow>
          (let (t', go) = take_header t in
           if go then (case expected t' of Some n \<Rightarrow> take_body rt t' n | None \<Rightarrow> (t', False)) else (t', False)))"

lemma find_separator_bound: "find_separator s = Some i \<Longrightarrow> i + 4 \<le> length s"
proof (induction s arbitrary: i)
  case (Cons b s)
  from Cons.prems have "i = 0 \<and> take 4 (b # s) = header_separator \<or> (\<exists>j. i = Suc j \<and> find_separator s = Some j)"
    by (subst (asm) find_separator.simps) (auto split: if_splits)
  then show ?case
  proof
    assume *: "i = 0 \<and> take 4 (b # s) = header_separator"
    then have "length (take 4 (b # s)) = length header_separator" by simp
    then have "4 \<le> length (b # s)" by (simp only: length_take header_separator_def) simp
    with * show ?thesis by simp
  qed (use Cons.IH in auto)
qed (simp add: find_separator.simps header_separator_def)

lemma framed_close_simps [simp]:
  "closed (framed_close r t)" "residual (framed_close r t) = residual t"
  "expected (framed_close r t) = expected t" "max_header (framed_close r t) = max_header t"
  "max_content (framed_close r t) = max_content t" "max_pending (framed_close r t) = max_pending t"
  "heard (framed_close r t) = heard t" "waiting (framed_close r t) = waiting t"
  "listener (framed_close r t) = listener t" "written (framed_close r t) = written t"
  by (simp_all add: framed_close_def)

lemma heard_hear [simp]: "heard (hear m t) = heard t @ [m]" "waiting (hear m t) = waiting t"
  by (simp_all add: hear_def)

lemma hear_simps [simp]:
  "closed (hear m f) = closed f" "residual (hear m f) = residual f" "expected (hear m f) = expected f"
  "max_header (hear m f) = max_header f" "max_content (hear m f) = max_content f"
  "max_pending (hear m f) = max_pending f" "close_reason (hear m f) = close_reason f"
  "on_closed (hear m f) = on_closed f" "written (hear m f) = written f"
  by (simp_all add: hear_def)

lemma framed_deliver_simps [simp]:
  "residual (framed_deliver m t) = residual t" "expected (framed_deliver m t) = expected t"
  "max_header (framed_deliver m t) = max_header t" "max_content (framed_deliver m t) = max_content t"
  "max_pending (framed_deliver m t) = max_pending t" "written (framed_deliver m t) = written t"
  by (simp_all add: framed_deliver_def)

text \<open>What a loop iteration leaves to do.\<close>

definition to_read :: "framed \<Rightarrow> nat" where
  "to_read t = 2 * length (residual t) + (if expected t = None then 0 else 1)"

lemma take_header_go:
  assumes "take_header t = (t', True)"
  obtains e n where "find_separator (residual t) = Some e" "e + 4 \<le> max_header t"
    "parse_headers (take e (residual t)) (max_content t) = Inr n"
    "t' = t\<lparr>expected := Some n, residual := drop (e + 4) (residual t)\<rparr>"
  using assms by (auto simp: take_header_def split: option.splits if_splits sum.splits js_error.splits)

lemma take_body_go:
  assumes "take_body rt t n = (t', True)"
  obtains m where "n \<le> length (residual t)" "json_parse (utf8_text rt (take n (residual t))) = Some m"
    "t' = framed_deliver m (t\<lparr>residual := drop n (residual t), expected := None\<rparr>)"
  using assms by (auto simp: take_body_def Let_def split: option.splits if_splits)

lemma drain_step_less: "drain_step rt t = (t', True) \<Longrightarrow> to_read t' < to_read t"
proof (cases "expected t")
  case None
  assume go: "drain_step rt t = (t', True)"
  obtain t1 g where h: "take_header t = (t1, g)" by (cases "take_header t")
  have "drain_step rt t = (if g then case expected t1 of Some n \<Rightarrow> take_body rt t1 n | None \<Rightarrow> (t1, False)
      else (t1, False))"
    by (simp only: drain_step_def None h option.case prod.case Let_def)
  with go have g and "\<exists>n. take_body rt t1 n = (t', True)" by (auto split: if_splits option.splits)
  then obtain n where 1: "take_header t = (t1, True)" and 2: "take_body rt t1 n = (t', True)"
    using h by auto
  obtain e n' where e: "find_separator (residual t) = Some e"
    "t1 = t\<lparr>expected := Some n', residual := drop (e + 4) (residual t)\<rparr>"
    using take_header_go [OF 1] by blast
  from e(2) find_separator_bound [OF e(1)] have "length (residual t1) < length (residual t)" by simp
  moreover obtain m where "t' = framed_deliver m (t1\<lparr>residual := drop n (residual t1), expected := None\<rparr>)"
    using take_body_go [OF 2] by blast
  ultimately show ?thesis using None by (simp add: to_read_def)
next
  case (Some n)
  assume "drain_step rt t = (t', True)"
  with Some have "take_body rt t n = (t', True)" by (simp add: drain_step_def)
  from take_body_go [OF this] obtain m where
    "t' = framed_deliver m (t\<lparr>residual := drop n (residual t), expected := None\<rparr>)" by blast
  with Some show ?thesis by (simp add: to_read_def)
qed

text \<open>The loop \<^verbatim>\<open>while (!this._closed)\<close>.\<close>

function drain :: "runtime \<Rightarrow> framed \<Rightarrow> framed" where
  "drain rt t =
     (if closed t then t
      else (let (t', go) = drain_step rt t in if go then drain rt t' else t'))"
  by pat_completeness auto
termination
proof (relation "measure (\<lambda>(rt, t). to_read t)")
  show "((rt, t'), (rt, t)) \<in> measure (\<lambda>(rt, t). to_read t)"
    if "p = drain_step rt t" "(t', go) = p" go for rt t p t' go
    using drain_step_less [of rt t t'] that by simp
qed simp

declare drain.simps [simp del]

datatype chunk = Bytes bytes | Text string

definition chunk_bytes :: "chunk \<Rightarrow> bytes" where
  "chunk_bytes c = (case c of Bytes bs \<Rightarrow> bs | Text s \<Rightarrow> utf8 s)"

definition framed_data :: "runtime \<Rightarrow> chunk \<Rightarrow> framed \<Rightarrow> framed" where
  "framed_data rt c t =
     (if closed t then t else drain rt (t\<lparr>residual := residual t @ chunk_bytes c\<rparr>))"

definition framed_end :: "framed \<Rightarrow> framed" where
  "framed_end t =
     (if closed t then t
      else framed_close
        (if expected t \<noteq> None \<or> residual t \<noteq> [] then ''Truncated header-delimited frame''
         else ''Header-delimited input closed'') t)"

definition framed_input_error :: "string \<Rightarrow> framed \<Rightarrow> framed" where
  "framed_input_error message t = framed_close (''Header-delimited input error: '' @ message) t"

definition framed_output_error :: "string \<Rightarrow> framed \<Rightarrow> framed" where
  "framed_output_error message t = framed_close (''Header-delimited output error: '' @ message) t"

section \<open>The newline-delimited transport\<close>

record ndjson = "json inbox" +
  nd_residual :: string
  nd_closed :: bool
  nd_on_close :: nat
  nd_written :: string

definition new_ndjson :: ndjson where
  "new_ndjson = \<lparr>listener = Off, waiting = [], heard = [], nd_residual = [], nd_closed = False,
     nd_on_close = 0, nd_written = []\<rparr>"

definition newline :: char where
  "newline = CHR 0x0A"

definition ndjson_send :: "json \<Rightarrow> ndjson \<Rightarrow> ndjson" where
  "ndjson_send message t =
     (if nd_closed t then t
      else t\<lparr>nd_written := nd_written t @ json_stringify message @ [newline]\<rparr>)"

definition ndjson_set_listener :: "listen_mode \<Rightarrow> ndjson \<Rightarrow> ndjson" where
  "ndjson_set_listener l t = listen_with l t"

definition ndjson_dispose :: "ndjson \<Rightarrow> ndjson" where
  "ndjson_dispose t =
     (if nd_closed t then t
      else t\<lparr>nd_closed := True, listener := Off, waiting := [], nd_residual := [],
             nd_on_close := nd_on_close t + 1\<rparr>)"

definition ndjson_deliver :: "json \<Rightarrow> ndjson \<Rightarrow> ndjson" where
  "ndjson_deliver m t = push_or_hear m t"

text \<open>A line: white space is skipped, and so is what is not JSON.\<close>

definition ndjson_line :: "string \<Rightarrow> ndjson \<Rightarrow> ndjson" where
  "ndjson_line raw t =
     (let line = js_trim raw in
      if line = [] then t
      else case json_parse line of None \<Rightarrow> t | Some parsed \<Rightarrow> ndjson_deliver parsed t)"

lemma nd_residual_line [simp]: "nd_residual (ndjson_line raw t) = nd_residual t"
  by (simp add: ndjson_line_def Let_def ndjson_deliver_def push_or_hear_def hear_def split: option.split)

function ndjson_loop :: "ndjson \<Rightarrow> ndjson" where
  "ndjson_loop t =
     (case index_of newline (nd_residual t) of
        None \<Rightarrow> t
      | Some nl \<Rightarrow>
          ndjson_loop (ndjson_line (take nl (nd_residual t)) (t\<lparr>nd_residual := drop (nl + 1) (nd_residual t)\<rparr>)))"
  by pat_completeness auto
termination
  by (relation "measure (\<lambda>t. length (nd_residual t))") (auto dest: index_of_SomeD)

declare ndjson_loop.simps [simp del]

definition ndjson_data :: "string \<Rightarrow> ndjson \<Rightarrow> ndjson" where
  "ndjson_data chunk t = ndjson_loop (t\<lparr>nd_residual := nd_residual t @ chunk\<rparr>)"

end
