(* ===== verification/FramingCorrect.thy ===== *)
theory FramingCorrect
  imports Framing
begin

text \<open>
  What the framings promise.  How the bytes arrive does not matter: chunks have the effect of their
  concatenation.  What one end sends the other hears, in order; a malformed line costs only itself;
  and a reader never holds more than its limits.
\<close>

section \<open>Chunks\<close>

definition push :: "bytes \<Rightarrow> framed \<Rightarrow> framed" where
  "push b t = t\<lparr>residual := residual t @ b\<rparr>"

text \<open>A closed transport no longer reads what it holds.\<close>

definition observed :: "framed \<Rightarrow> framed" where
  "observed t = (if closed t then t\<lparr>residual := [], expected := None\<rparr> else t)"

lemma push_simps [simp]:
  "residual (push b t) = residual t @ b" "expected (push b t) = expected t" "closed (push b t) = closed t"
  "max_header (push b t) = max_header t" "max_content (push b t) = max_content t"
  "max_pending (push b t) = max_pending t" "heard (push b t) = heard t" "waiting (push b t) = waiting t"
  "listener (push b t) = listener t" "on_closed (push b t) = on_closed t"
  by (simp_all add: push_def)

lemma push_Nil [simp]: "push [] t = t"
  by (simp add: push_def)

lemma push_push: "push b (push a t) = push (a @ b) t"
  by (simp add: push_def)

lemma observed_close: "\<not> closed t \<Longrightarrow> observed (framed_close r (push b t)) = observed (framed_close r t)"
  by (simp add: observed_def framed_close_def push_def)

lemma take_4_append: "take 4 (s @ b) = header_separator \<Longrightarrow> length s \<ge> 4 \<Longrightarrow> take 4 s = header_separator"
  by simp

lemma find_separator_append: "find_separator s = Some e \<Longrightarrow> find_separator (s @ b) = Some e"
proof (induction s arbitrary: e)
  case (Cons x s)
  have len: "4 \<le> length (x # s)" using find_separator_bound [OF Cons.prems] by simp
  then have eq: "take 4 ((x # s) @ b) = take 4 (x # s)" by simp
  from Cons.prems show ?case
  proof (cases "take 4 (x # s) = header_separator")
    case True
    with Cons.prems have "e = 0" by (simp add: find_separator.simps)
    with True eq show ?thesis by (subst find_separator.simps) simp
  next
    case False
    from Cons.prems obtain j where "find_separator s = Some j" "e = Suc j"
      by (subst (asm) find_separator.simps) (use False in \<open>auto\<close>)
    moreover have "find_separator ((x # s) @ b) =
        (if take 4 ((x # s) @ b) = header_separator then Some 0 else map_option Suc (find_separator (s @ b)))"
      by (subst find_separator.simps) simp
    ultimately show ?thesis using Cons.IH by (simp only: eq False if_False option.map)
  qed
qed (simp add: find_separator.simps header_separator_def)

lemma find_separator_late:
  "find_separator s = None \<Longrightarrow> find_separator (s @ b) = Some e \<Longrightarrow> length s < e + 4"
proof (induction s arbitrary: e)
  case (Cons x s)
  show ?case
  proof (cases "take 4 ((x # s) @ b) = header_separator")
    case True
    from Cons.prems(1) have "take 4 (x # s) \<noteq> header_separator"
      by (subst (asm) find_separator.simps) (auto split: if_splits)
    with take_4_append [OF True] show ?thesis by linarith
  next
    case False
    with Cons.prems(2) obtain j where "find_separator (s @ b) = Some j" "e = Suc j"
      by (subst (asm) find_separator.simps) auto
    moreover from Cons.prems(1) have "find_separator s = None"
      by (subst (asm) find_separator.simps) (auto split: if_splits)
    ultimately show ?thesis using Cons.IH by simp
  qed
qed simp

lemma take_header_push:
  assumes "take_header t = (t', True)"
  shows "take_header (push b t) = (push b t', True)"
proof -
  from take_header_go [OF assms] obtain e n where e: "find_separator (residual t) = Some e" "e + 4 \<le> max_header t"
    "parse_headers (take e (residual t)) (max_content t) = Inr n"
    "t' = t\<lparr>expected := Some n, residual := drop (e + 4) (residual t)\<rparr>" .
  have "e + 4 \<le> length (residual t)" using find_separator_bound [OF e(1)] .
  with e find_separator_append [OF e(1), of b] show ?thesis
    by (simp add: take_header_def) (simp add: push_def)
qed

lemma take_header_stop:
  assumes "take_header t = (t', False)" "\<not> closed t"
  shows "t' = t \<or> closed t' \<and>
    (\<exists>u. take_header (push b t) = (u, False) \<and> closed u \<and> observed u = observed t')"
proof (cases "find_separator (residual t)")
  case None
  show ?thesis
  proof (cases "length (residual t) > max_header t")
    case True
    with None assms(1) have t': "t' = framed_close (header_too_long t) t" by (simp add: take_header_def)
    have "take_header (push b t) = (framed_close (header_too_long t) (push b t), False)"
      using True find_separator_late [OF None, of b]
      by (auto simp: take_header_def header_too_long_def split: option.split)
    with t' observed_close [OF assms(2)] show ?thesis by simp
  qed (use None assms(1) in \<open>simp add: take_header_def\<close>)
next
  case (Some e)
  note ap = find_separator_append [OF Some, of b]
  have "e + 4 \<le> length (residual t)" using find_separator_bound [OF Some] .
  then have tk: "take e (residual t @ b) = take e (residual t)" by simp
  show ?thesis
  proof (cases "e + 4 > max_header t")
    case True
    then show ?thesis using assms Some ap observed_close [OF assms(2)]
      by (auto simp: take_header_def header_too_long_def)
  next
    case False
    then obtain m where "parse_headers (take e (residual t)) (max_content t) = Inl (JsError m)"
      using assms(1) Some by (auto simp: take_header_def split: sum.splits js_error.splits)
    with False assms Some ap tk observed_close [OF assms(2)] show ?thesis
      by (auto simp: take_header_def)
  qed
qed

lemma push_deliver: "push b (framed_deliver m t) = framed_deliver m (push b t)"
  by (simp add: framed_deliver_def push_def framed_close_def hear_def)

lemma take_body_push:
  assumes "n \<le> length (residual t)" "\<not> closed t"
  shows "snd (take_body rt (push b t) n) = snd (take_body rt t n) \<and>
    (if snd (take_body rt t n) then fst (take_body rt (push b t) n) = push b (fst (take_body rt t n))
     else closed (fst (take_body rt t n)) \<and> closed (fst (take_body rt (push b t) n)) \<and>
       observed (fst (take_body rt (push b t) n)) = observed (fst (take_body rt t n)))"
proof -
  let ?t = "t\<lparr>residual := drop n (residual t), expected := None\<rparr>"
  have eq: "(push b t)\<lparr>residual := drop n (residual (push b t)), expected := None\<rparr> = push b ?t"
    using assms(1) by (simp add: push_def)
  have tk: "take n (residual (push b t)) = take n (residual t)" using assms(1) by simp
  have "\<not> closed ?t" using assms(2) by simp
  note oc = observed_close [OF this]
  show ?thesis
    unfolding take_body_def eq tk Let_def
    using assms by (auto simp: push_deliver oc split: option.split)
qed

text \<open>One iteration with more bytes behind: it does the same, or it had stopped for lack of them.\<close>

lemma drain_step_push:
  assumes "\<not> closed t"
  obtains (same) t' where "drain_step rt t = (t', True)" "drain_step rt (push b t) = (push b t', True)"
  | (failed) t' u where "drain_step rt t = (t', False)" "drain_step rt (push b t) = (u, False)"
      "closed t'" "closed u" "observed u = observed t'"
  | (waits) t' where "drain_step rt t = (t', False)" "\<not> closed t'"
      "drain_step rt (push b t') = drain_step rt (push b t)"
proof -
  have body: thesis if t1: "\<not> closed t1" "drain_step rt t = take_body rt t1 n"
      "drain_step rt (push b t) = take_body rt (push b t1) n" "expected t1 = Some n" for t1 n
  proof (cases "n \<le> length (residual t1)")
    case True
    from take_body_push [OF True t1(1), of rt b] show thesis
      using t1(2,3) same failed by (cases "take_body rt t1 n"; cases "take_body rt (push b t1) n")
        (auto split: if_splits)
  next
    case False
    then have "drain_step rt t = (t1, False)" using t1(2) by (simp add: take_body_def)
    moreover have "drain_step rt (push b t1) = drain_step rt (push b t)"
      using t1(3,4) by (simp add: drain_step_def)
    ultimately show thesis using waits t1(1) by blast
  qed
  show thesis
  proof (cases "expected t")
    case (Some n)
    with assms show thesis by (intro body [of t n]) (simp_all add: drain_step_def)
  next
    case None
    obtain t1 g where h: "take_header t = (t1, g)" by (cases "take_header t")
    show thesis
    proof (cases g)
      case True
      with h have h: "take_header t = (t1, True)" by simp
      from take_header_go [OF this] obtain e n where
        t1: "t1 = t\<lparr>expected := Some n, residual := drop (e + 4) (residual t)\<rparr>" by blast
      show thesis
        by (rule body [of t1 n]) (use assms None h take_header_push [OF h, of b] t1 in
          \<open>simp_all add: drain_step_def\<close>)
    next
      case False
      with h have h: "take_header t = (t1, False)" by simp
      then have s: "drain_step rt t = (t1, False)" using None by (simp add: drain_step_def)
      from take_header_stop [OF h assms, of b] show thesis
      proof (elim disjE conjE exE)
        assume "t1 = t"
        with s assms waits show thesis by blast
      next
        fix u assume "closed t1" "take_header (push b t) = (u, False)" "closed u" "observed u = observed t1"
        then show thesis using failed [OF s, of u] None by (simp add: drain_step_def)
      qed
    qed
  qed
qed

lemma drain_closed [simp]: "closed t \<Longrightarrow> drain rt t = t"
  by (simp add: drain.simps)

lemma drain_open: "\<not> closed t \<Longrightarrow> drain rt t =
    (if snd (drain_step rt t) then drain rt (fst (drain_step rt t)) else fst (drain_step rt t))"
  by (subst drain.simps) (simp add: Let_def split: prod.split)

lemma observed_closed_push: "closed t \<Longrightarrow> observed (push b t) = observed t"
  by (simp add: observed_def push_def)

lemma drain_push: "observed (drain rt (push b (drain rt t))) = observed (drain rt (push b t))"
proof (induction rt t rule: drain.induct)
  case (1 rt t)
  show ?case
  proof (cases "closed t")
    case False
    then show ?thesis
    proof (cases rule: drain_step_push [of t rt b])
      case (same t')
      from 1 [OF False same(1) [symmetric] refl] same False show ?thesis
        by (simp add: drain_open [of t] drain_open [of "push b t"])
    next
      case (failed t' u)
      with False show ?thesis
        by (simp add: drain_open [of t] drain_open [of "push b t"] observed_closed_push)
    next
      case (waits t')
      with False show ?thesis
        by (simp add: drain_open [of t] drain_open [of "push b t"] drain_open [of "push b t'"])
    qed
  qed simp
qed

lemma framed_data_push: "framed_data rt c t = (if closed t then t else drain rt (push (chunk_bytes c) t))"
  by (simp add: framed_data_def push_def)

lemma observed_data: "observed (framed_data rt c t) = observed (drain rt (push (chunk_bytes c) t))"
  by (simp add: framed_data_push observed_closed_push)

lemma observed_drain_cong: "observed t = observed u \<Longrightarrow> observed (drain rt (push b t)) = observed (drain rt (push b u))"
  by (cases "closed t"; cases "closed u") (auto simp: observed_def push_def split: if_splits)

definition framed_feed :: "runtime \<Rightarrow> chunk list \<Rightarrow> framed \<Rightarrow> framed" where
  "framed_feed rt cs t = fold (framed_data rt) cs t"

lemma feed_drain:
  "observed (framed_feed rt cs (drain rt t)) = observed (drain rt (push (concat (map chunk_bytes cs)) t))"
proof (induction cs arbitrary: t)
  case (Cons c cs)
  have *: "observed (framed_feed rt cs u) = observed (framed_feed rt cs v)" if "observed u = observed v" for u v
    unfolding framed_feed_def using that
  proof (induction cs arbitrary: u v)
    case (Cons c cs)
    then have "observed (framed_data rt c u) = observed (framed_data rt c v)"
      unfolding observed_data by (intro observed_drain_cong)
    from Cons.IH [OF this] show ?case by simp
  qed simp
  have "observed (framed_data rt c (drain rt t)) = observed (drain rt (push (chunk_bytes c) t))"
    unfolding observed_data by (rule drain_push)
  from * [OF this] Cons.IH show ?case by (simp add: framed_feed_def push_push)
qed (simp add: framed_feed_def)

text \<open>C38: Chunking does not matter: bytes that arrive in any number of chunks, split anywhere, have the
  effect of the same bytes in one chunk, on everything the transport does and on what it still holds
  unless it has closed.\<close>

theorem chunking_immaterial:
  "observed (framed_feed rt (c # cs) t) =
   observed (framed_data rt (Bytes (concat (map chunk_bytes (c # cs)))) t)"
proof -
  have "observed (framed_feed rt (c # cs) t) = observed (framed_feed rt cs (drain rt (push (chunk_bytes c) t)))"
    if "\<not> closed t" using that by (simp add: framed_feed_def framed_data_push)
  moreover have "framed_feed rt (c # cs) t = t" if "closed t"
    using that by (induction cs) (simp_all add: framed_feed_def framed_data_def)
  ultimately show ?thesis
    by (simp add: feed_drain push_push framed_data_push chunk_bytes_def)
qed

section \<open>Frames\<close>

lemma ascii_text_utf8: "(\<And>c. c \<in> set s \<Longrightarrow> (of_char c :: nat) < 128) \<Longrightarrow> ascii_text (utf8 s) = s"
proof (induction s)
  case (Cons c s)
  then have c: "(of_char c :: nat) < 128" by simp
  then have "unat (of_nat (of_char c) :: 8 word) mod 128 = of_char c" by (simp add: unat_of_nat take_bit_eq_mod)
  with Cons c show ?case by (simp add: ascii_text_def utf8_def utf8_char_def)
qed (simp add: ascii_text_def utf8_def)

lemma length_utf8_ascii: "(\<And>c. c \<in> set s \<Longrightarrow> (of_char c :: nat) < 128) \<Longrightarrow> length (utf8 s) = length s"
  by (induction s) (auto simp: utf8_def utf8_char_def)

lemma split_go_none: "c \<notin> set s \<Longrightarrow> split_go (c # sep) acc s = [rev acc @ s]"
proof (induction s arbitrary: acc)
  case (Cons x s)
  then show ?case by (subst split_go.simps) (simp add: starts_with_def)
qed (simp add: split_go.simps)

lemma js_split_none: "c \<notin> set s \<Longrightarrow> js_split s (c # sep) = [s]"
  by (simp add: js_split_def split_go_none)

lemma show_nat_char: "c \<in> set (show_nat n) \<Longrightarrow> 48 \<le> (of_char c :: nat) \<and> (of_char c :: nat) \<le> 57"
  using show_nat_digits [of c n] by (simp add: is_digit_def)

lemma content_header_char: "c \<in> set (content_header n) \<Longrightarrow> 13 < (of_char c :: nat) \<and> (of_char c :: nat) < 128"
  by (auto simp: content_header_def dest!: show_nat_char)

lemma length_show_nat: "n < 10 ^ k \<Longrightarrow> 0 < k \<Longrightarrow> length (show_nat n) \<le> k"
proof (induction k arbitrary: n)
  case (Suc k)
  show ?case
  proof (cases "n < 10")
    case False
    then have "k \<noteq> 0" using Suc.prems by (cases k) auto
    moreover have "n div 10 < 10 ^ k" using Suc.prems(1) by (simp add: less_mult_imp_div_less)
    ultimately have "length (show_nat (n div 10)) \<le> k" using Suc.IH by simp
    with False show ?thesis by (subst show_nat.simps) simp
  qed (subst show_nat.simps, simp)
qed simp

lemma length_content_header:
  "n \<le> max_safe \<Longrightarrow> length (utf8 (content_header n)) \<le> 32"
  using length_show_nat [of n 16] content_header_char
  by (subst length_utf8_ascii) (auto simp: content_header_def max_safe_def)

lemma show_nat_0: "show_nat 0 = ''0''"
  by (subst show_nat.simps) (simp add: digit_char_def of_char_inj [symmetric])

lemma decimal_ok_show_nat: "decimal_ok (show_nat n)"
  using show_nat_hd [of n] by (cases "n = 0") (simp_all add: decimal_ok_def show_nat_0)

lemma js_trim_number: "js_trim (CHR '' '' # show_nat n) = show_nat n"
proof -
  have "js_trim (show_nat n) = show_nat n"
    by (rule js_trim_id) (auto simp: is_space_def dest!: show_nat_char)
  then show ?thesis by (simp add: js_trim_def is_space_def)
qed

lemma header_lines_content: "header_lines [content_header n] [] = Inr [(''content-length'', show_nat n)]"
proof -
  have i: "index_of CHR '':'' (content_header n) = Some (Suc 13)"
    by (simp add: content_header_def)
  have "to_lower (js_trim ''Content-Length'') = ''content-length''" by code_simp
  then show ?thesis
    by (simp add: i content_header_def js_trim_number jm_has_def)
qed

lemma parse_headers_content:
  assumes "n \<le> max_safe" "n \<le> limit"
  shows "parse_headers (utf8 (content_header n)) limit = Inr n"
proof -
  have a: "ascii_text (utf8 (content_header n)) = content_header n"
    by (rule ascii_text_utf8) (auto dest!: content_header_char)
  have s: "js_split (content_header n) crlf = [content_header n]"
    unfolding crlf_def by (rule js_split_none) (auto dest!: content_header_char)
  from assms show ?thesis
    by (simp add: parse_headers_def a s header_lines_content decimal_ok_show_nat jm_get_def del: header_lines.simps)
qed

lemma find_separator_after: "13 \<notin> set h \<Longrightarrow> find_separator (h @ header_separator @ x) = Some (length h)"
proof (induction h)
  case Nil
  show ?case by (subst find_separator.simps) (simp add: header_separator_def)
next
  case (Cons b h)
  then have "take 4 ((b # h) @ header_separator @ x) \<noteq> header_separator"
    by (simp add: header_separator_def)
  with Cons show ?case by (subst find_separator.simps) simp
qed

lemma utf8_no_cr:
  assumes "\<And>c. c \<in> set s \<Longrightarrow> 13 < (of_char c :: nat) \<and> (of_char c :: nat) < 128"
  shows "(13 :: 8 word) \<notin> set (utf8 s)"
proof
  assume "(13 :: 8 word) \<in> set (utf8 s)"
  then obtain c where c: "c \<in> set s" "(13 :: 8 word) \<in> set (utf8_char c)" by (auto simp: utf8_def)
  from assms [OF c(1)] c(2) have "(of_nat (of_char c) :: 8 word) = 13" by (auto simp: utf8_char_def Let_def)
  then have "unat (of_nat (of_char c) :: 8 word) = 13" by simp
  with assms [OF c(1)] show False by (simp add: unat_of_nat take_bit_eq_mod)
qed

definition frame_fits :: "bytes \<Rightarrow> framed \<Rightarrow> bool" where
  "frame_fits body t = (length body \<le> max_content t \<and> length body \<le> max_safe \<and> 36 \<le> max_header t)"

lemma take_header_frame:
  assumes "residual t = frame body @ rest" "frame_fits body t"
  shows "take_header t = (t\<lparr>expected := Some (length body), residual := body @ rest\<rparr>, True)"
proof -
  let ?h = "utf8 (content_header (length body))"
  have "find_separator (residual t) = Some (length ?h)"
    using assms(1) find_separator_after [of ?h "body @ rest"] utf8_no_cr content_header_char
    by (simp add: frame_def)
  moreover have "length ?h \<le> 32" "parse_headers ?h (max_content t) = Inr (length body)"
    using assms(2) length_content_header parse_headers_content by (simp_all add: frame_fits_def)
  moreover have "take (length ?h) (residual t) = ?h" "drop (length ?h + 4) (residual t) = body @ rest"
    by (simp_all add: assms(1) frame_def header_separator_def)
  ultimately show ?thesis using assms(2) by (simp add: take_header_def frame_fits_def)
qed

lemma drain_frame:
  assumes "\<not> closed t" "expected t = None" "listener t \<noteq> Off" "residual t = frame body @ rest"
    "frame_fits body t" "json_parse (utf8_text rt body) = Some m"
  shows "drain rt t = drain rt (hear m (t\<lparr>residual := rest\<rparr>))"
proof -
  have "drain_step rt t = (hear m (t\<lparr>residual := rest\<rparr>), True)"
    using assms take_header_frame [OF assms(4,5)]
    by (simp add: drain_step_def take_body_def framed_deliver_def hear_def)
  then show ?thesis using assms(1) by (simp add: drain_open [of t])
qed

section \<open>What one end sends the other hears\<close>

definition framed_send_all :: "json list \<Rightarrow> framed \<Rightarrow> framed" where
  "framed_send_all ms t = fold (\<lambda>m t. fst (framed_send m t)) ms t"

lemma written_send_all:
  assumes "\<not> closed t" "\<forall>m\<in>set ms. length (utf8 (json_stringify m)) \<le> max_content t"
  shows "written (framed_send_all ms t) = written t @ concat (map (\<lambda>m. frame (utf8 (json_stringify m))) ms)"
  using assms
proof (induction ms arbitrary: t)
  case (Cons m ms)
  let ?t = "t\<lparr>written := written t @ frame (utf8 (json_stringify m))\<rparr>"
  have "fst (framed_send m t) = ?t" using Cons.prems by (simp add: framed_send_def Let_def)
  with Cons.IH [of ?t] Cons.prems show ?case by (simp add: framed_send_all_def)
qed (simp add: framed_send_all_def)

definition reads_utf8 :: "runtime \<Rightarrow> bool" where
  "reads_utf8 rt = (\<forall>s. utf8_text rt (utf8 s) = s)"

lemma drain_frames:
  assumes "reads_utf8 rt" "\<not> closed t" "expected t = None" "listener t = On"
    "residual t = concat (map (\<lambda>m. frame (utf8 (json_stringify m))) ms)"
    "\<forall>m\<in>set ms. json_ok m \<and> json_finite m \<and> frame_fits (utf8 (json_stringify m)) t"
  shows "drain rt t = t\<lparr>heard := heard t @ ms, residual := []\<rparr>"
  using assms
proof (induction ms arbitrary: t)
  case Nil
  then have "drain_step rt t = (t, False)"
    by (simp add: drain_step_def take_header_def find_separator.simps header_separator_def)
  with Nil show ?case by (simp add: drain_open)
next
  case (Cons m ms)
  let ?rest = "concat (map (\<lambda>m. frame (utf8 (json_stringify m))) ms)"
  let ?t = "hear m (t\<lparr>residual := ?rest\<rparr>)"
  have m: "json_ok m" "json_finite m" "frame_fits (utf8 (json_stringify m)) t" using Cons.prems(6) by simp_all
  have "utf8_text rt (utf8 (json_stringify m)) = json_stringify m"
    using Cons.prems(1) unfolding reads_utf8_def by blast
  then have p: "json_parse (utf8_text rt (utf8 (json_stringify m))) = Some m"
    by (simp only: parse_stringify [OF m(1,2)])
  have "drain rt t = drain rt ?t"
    by (rule drain_frame [OF _ _ _ _ m(3) p]) (use Cons.prems in simp_all)
  also have "\<dots> = ?t\<lparr>heard := heard ?t @ ms, residual := []\<rparr>"
    using Cons.prems by (intro Cons.IH) (simp_all add: hear_def frame_fits_def)
  finally show ?case using Cons.prems(4) by (simp add: hear_def)
qed

lemma positive_limit_safe: "positive_limit v d name = Inr n \<Longrightarrow> 0 < n \<and> n \<le> max_safe"
  by (auto simp: positive_limit_def safe_integer_def split: option.splits jsnum.splits if_splits)

lemma new_framedD:
  assumes "new_framed opts = Inr t"
  shows "\<not> closed t" "expected t = None" "residual t = []" "heard t = []" "waiting t = []" "written t = []"
    "max_content t \<le> max_safe" "on_closed t = []" "0 < max_pending t"
  using assms by (auto simp: new_framed_def res_bind_Inr_iff dest!: positive_limit_safe)

lemma listen_with_empty: "waiting t = [] \<Longrightarrow> listen_with l t = t\<lparr>listener := l, waiting := []\<rparr>"
  by (simp add: listen_with_def)

lemma observed_open_eq: "observed u = observed v \<Longrightarrow> \<not> closed v \<Longrightarrow> u = v"
proof -
  have "closed (observed u) = closed u" for u by (simp add: observed_def)
  then show "observed u = observed v \<Longrightarrow> \<not> closed v \<Longrightarrow> u = v"
    by (metis observed_def)
qed

text \<open>C37: What one end sends, the other hears: the same messages in the same order, however the bytes are
  cut into chunks on the way, with nothing left over and both ends open.\<close>

theorem framed_roundtrip:
  assumes "reads_utf8 rt"
    and "new_framed oa = Inr a" "new_framed ob = Inr b"
    and "max_content a \<le> max_content b" "36 \<le> max_header b"
    and "\<forall>m\<in>set ms. json_ok m \<and> json_finite m \<and> length (utf8 (json_stringify m)) \<le> max_content a"
    and "concat (map chunk_bytes cs) = written (framed_send_all ms a)"
  shows "framed_feed rt cs (framed_set_listener On b) = (framed_set_listener On b)\<lparr>heard := ms\<rparr>"
proof -
  note a = new_framedD [OF assms(2)] and b = new_framedD [OF assms(3)]
  define t where "t = framed_set_listener On b"
  have t: "t = b\<lparr>listener := On\<rparr>" unfolding t_def framed_set_listener_def using b by (simp add: listen_with_empty)
  have w: "concat (map chunk_bytes cs) = concat (map (\<lambda>m. frame (utf8 (json_stringify m))) ms)"
    using assms(6,7) a by (simp add: written_send_all)
  have e: "drain rt (push (concat (map chunk_bytes cs)) t) = t\<lparr>heard := ms\<rparr>"
    using assms a b by (subst drain_frames [where ms = ms]) (auto simp: t w push_def frame_fits_def)
  have "drain rt t = t"
    using drain_frames [of rt t "[]"] assms(1) b by (simp add: t)
  with feed_drain [of rt cs t] e have "observed (framed_feed rt cs t) = observed (t\<lparr>heard := ms\<rparr>)" by simp
  from observed_open_eq [OF this] b(1) show ?thesis by (simp add: t t_def [symmetric])
qed

text \<open>A runtime that reads the texts of the model's characters.\<close>

fun utf8_decode :: "bytes \<Rightarrow> string" where
  "utf8_decode [] = []"
| "utf8_decode (b # bs) =
     (if b < 128 then char_of (unat b) # utf8_decode bs
      else case bs of [] \<Rightarrow> [] | c # cs \<Rightarrow> char_of ((unat b - 192) * 64 + (unat c - 128)) # utf8_decode cs)"

definition latin1 :: runtime where
  "latin1 = \<lparr>utf8_text = utf8_decode, syntax_error = (\<lambda>_. ''Unexpected token'')\<rparr>"

lemma utf8_decode_char: "utf8_decode (utf8_char c @ bs) = c # utf8_decode bs"
proof -
  define n where "n = (of_char c :: nat)"
  have n: "n < 256" "c = char_of n" by (simp_all add: n_def)
  have w: "unat (of_nat k :: 8 word) = k" if "k < 256" for k
    using that by (simp add: unat_of_nat take_bit_eq_mod)
  show ?thesis
  proof (cases "n < 128")
    case True
    with w [of n] have "(of_nat n :: 8 word) < 128" by (simp add: word_less_nat_alt)
    with True w [of n] n show ?thesis by (simp add: utf8_char_def Let_def n_def [symmetric])
  next
    case False
    have d: "n div 64 < 4" using n(1) by simp
    have "\<not> (of_nat (192 + n div 64) :: 8 word) < 128"
      using w [of "192 + n div 64"] d by (simp add: word_less_nat_alt del: of_nat_add)
    moreover have "(unat (of_nat (192 + n div 64) :: 8 word) - 192) * 64 +
        (unat (of_nat (128 + n mod 64) :: 8 word) - 128) = n"
      using w [of "192 + n div 64"] w [of "128 + n mod 64"] d by (simp del: of_nat_add)
    moreover have "utf8_char c = [of_nat (192 + n div 64), of_nat (128 + n mod 64)]"
      using False by (simp add: utf8_char_def Let_def n_def del: of_nat_add)
    moreover have "char_of n = c" by (simp add: n_def)
    ultimately show ?thesis
      by (simp only: append_Cons append_Nil utf8_decode.simps if_False list.case)
  qed
qed

lemma reads_utf8_latin1: "reads_utf8 latin1"
proof -
  have "utf8_decode (utf8 s) = s" for s
    by (induction s) (simp_all add: utf8_def utf8_decode_char)
  then show ?thesis by (simp add: reads_utf8_def latin1_def)
qed

definition default_framed :: framed where
  "default_framed = \<lparr>listener = Off, waiting = [], heard = [], residual = [], expected = None, closed = False,
     close_reason = None, on_closed = [], written = [], max_header = 65536, max_content = 67108864,
     max_pending = 1024\<rparr>"

definition default_options :: framed_options where
  "default_options = \<lparr>opt_max_header = None, opt_max_content = None, opt_max_pending = None\<rparr>"

lemma new_framed_default: "new_framed default_options = Inr default_framed"
  by (simp add: new_framed_def default_options_def default_framed_def positive_limit_def safe_integer_def
      num_of_int_def strip_zeros.simps max_safe_def)

lemma framed_roundtrip_witness:
  "framed_feed latin1
     [Bytes (take 5 (written (framed_send_all [JNull, JArr [JStr ''hi'', JBool True]] default_framed))),
      Bytes (drop 5 (written (framed_send_all [JNull, JArr [JStr ''hi'', JBool True]] default_framed)))]
     (framed_set_listener On default_framed) =
   (framed_set_listener On default_framed)\<lparr>heard := [JNull, JArr [JStr ''hi'', JBool True]]\<rparr>"
proof (rule framed_roundtrip [OF reads_utf8_latin1 new_framed_default new_framed_default])
  show "\<forall>m\<in>set [JNull, JArr [JStr ''hi'', JBool True]].
      json_ok m \<and> json_finite m \<and> length (utf8 (json_stringify m)) \<le> max_content default_framed"
    by (simp add: default_framed_def json_quote_def quote_char_def utf8_def utf8_char_def)
qed (simp_all add: default_framed_def chunk_bytes_def)

section \<open>Bounds\<close>

datatype framed_event =
    FData chunk | FEnd | FInputError string | FOutputError string | FListen listen_mode | FSend json
  | FClose string | FDispose

definition framed_step :: "runtime \<Rightarrow> framed_event \<Rightarrow> framed \<Rightarrow> framed" where
  "framed_step rt e t = (case e of
     FData c \<Rightarrow> framed_data rt c t | FEnd \<Rightarrow> framed_end t
   | FInputError m \<Rightarrow> framed_input_error m t | FOutputError m \<Rightarrow> framed_output_error m t
   | FListen l \<Rightarrow> framed_set_listener l t | FSend m \<Rightarrow> fst (framed_send m t)
   | FClose r \<Rightarrow> framed_close r t | FDispose \<Rightarrow> framed_dispose t)"

definition framed_run :: "runtime \<Rightarrow> framed_event list \<Rightarrow> framed \<Rightarrow> framed" where
  "framed_run rt es t = fold (framed_step rt) es t"

definition framed_ok :: "framed \<Rightarrow> bool" where
  "framed_ok t =
     (length (waiting t) \<le> max_pending t \<and> length (on_closed t) = (if closed t then 1 else 0) \<and>
      (closed t \<or>
       (case expected t of
          None \<Rightarrow> length (residual t) \<le> max_header t
        | Some n \<Rightarrow> length (residual t) < n \<and> n \<le> max_content t)))"

text \<open>What holds inside the loop, where the bytes that came have not been read yet.\<close>

definition framed_pre :: "framed \<Rightarrow> bool" where
  "framed_pre t =
     (length (waiting t) \<le> max_pending t \<and> length (on_closed t) = (if closed t then 1 else 0) \<and>
      (case expected t of None \<Rightarrow> True | Some n \<Rightarrow> n \<le> max_content t))"

lemma parse_headers_bound: "parse_headers h c = Inr n \<Longrightarrow> n \<le> c"
proof -
  assume "parse_headers h c = Inr n"
  then show ?thesis unfolding parse_headers_def
    by (cases "header_lines (js_split (ascii_text h) crlf) []")
      (simp_all split: option.splits if_splits)
qed

lemma framed_pre_close: "framed_pre t \<Longrightarrow> framed_pre (framed_close r t)"
  by (cases "expected t") (auto simp: framed_pre_def framed_close_def)

lemma framed_pre_deliver: "framed_pre t \<Longrightarrow> framed_pre (framed_deliver m t)"
  by (auto simp: framed_pre_def framed_deliver_def framed_close_def split: option.splits)

lemma framed_pre_cut: "framed_pre t \<Longrightarrow> framed_pre (t\<lparr>residual := r, expected := None\<rparr>)"
  by (simp add: framed_pre_def)

lemma framed_pre_ok: "framed_pre t \<Longrightarrow> closed t \<Longrightarrow> framed_ok t"
  by (simp add: framed_pre_def framed_ok_def)

lemma framed_ok_pre: "framed_ok t \<Longrightarrow> \<not> closed t \<Longrightarrow> framed_pre (t\<lparr>residual := r\<rparr>)"
  by (auto simp: framed_pre_def framed_ok_def split: option.splits)

lemma take_header_pre:
  assumes "framed_pre t" "expected t = None" "take_header t = (t', g)"
  shows "framed_pre t' \<and> (g \<or> framed_ok t')"
proof (cases "find_separator (residual t)")
  case None
  with assms show ?thesis
    using framed_pre_ok [OF framed_pre_close [OF assms(1)]] framed_pre_close [OF assms(1)]
    by (auto simp: take_header_def framed_ok_def framed_pre_def split: if_splits)
next
  case (Some e)
  with assms show ?thesis
    using framed_pre_ok [OF framed_pre_close [OF assms(1)]] framed_pre_close [OF assms(1)] parse_headers_bound
    by (auto simp: take_header_def split: if_splits sum.splits js_error.splits)
      (auto simp: framed_pre_def)
qed

lemma take_body_pre:
  assumes "framed_pre t" "expected t = Some n" "take_body rt t n = (t', g)"
  shows "framed_pre t' \<and> (g \<or> framed_ok t')"
proof (cases "length (residual t) < n")
  case True
  with assms show ?thesis by (auto simp: take_body_def framed_ok_def framed_pre_def)
next
  case False
  note cut = framed_pre_cut [OF assms(1), of "drop n (residual t)"]
  from False assms(3) show ?thesis
    using framed_pre_deliver [OF cut] framed_pre_close [OF cut] framed_pre_ok [OF framed_pre_close [OF cut]]
    by (auto simp: take_body_def Let_def split: option.splits)
qed

lemma drain_step_pre:
  assumes "framed_pre t" "drain_step rt t = (t', g)"
  shows "framed_pre t' \<and> (g \<or> framed_ok t')"
proof (cases "expected t")
  case (Some n)
  with assms take_body_pre show ?thesis by (simp add: drain_step_def)
next
  case None
  obtain t1 h where 1: "take_header t = (t1, h)" by (cases "take_header t")
  note p = take_header_pre [OF assms(1) None 1]
  show ?thesis
  proof (cases h)
    case True
    with 1 have "take_header t = (t1, True)" by simp
    then obtain n where "expected t1 = Some n" by (rule take_header_go) simp
    with assms(2) p None 1 True take_body_pre [of t1 n rt t' g] show ?thesis by (simp add: drain_step_def)
  qed (use assms(2) p None 1 in \<open>simp add: drain_step_def\<close>)
qed

lemma drain_ok: "framed_pre t \<Longrightarrow> framed_ok (drain rt t)"
proof (induction rt t rule: drain.induct)
  case (1 rt t)
  show ?case
  proof (cases "closed t")
    case False
    obtain t' g where s: "drain_step rt t = (t', g)" by (cases "drain_step rt t")
    from drain_step_pre [OF "1.prems" s] "1.IH" [OF False s [symmetric] refl] False s show ?thesis
      by (cases g) (simp_all add: drain_open)
  qed (use "1.prems" framed_pre_ok in simp)
qed

lemma flush_frame [simp]:
  "closed (flush ms f) = closed f" "residual (flush ms f) = residual f" "expected (flush ms f) = expected f"
  "max_header (flush ms f) = max_header f" "max_content (flush ms f) = max_content f"
  "max_pending (flush ms f) = max_pending f" "on_closed (flush ms f) = on_closed f"
  by (induction ms arbitrary: f) simp_all

lemma length_flush: "length (waiting (flush ms t)) \<le> length ms"
  by (induction ms arbitrary: t) (simp_all add: le_SucI)

lemma framed_step_ok:
  assumes "framed_ok t"
  shows "framed_ok (framed_step rt e t)"
proof (cases e)
  case (FData c)
  show ?thesis
  proof (cases "closed t")
    case False
    from drain_ok [OF framed_ok_pre [OF assms False]] False show ?thesis
      by (simp add: FData framed_step_def framed_data_def)
  qed (use assms FData in \<open>simp add: framed_step_def framed_data_def\<close>)
next
  case (FListen l)
  with assms length_flush [of "waiting t" "t\<lparr>listener := l\<rparr>"] show ?thesis
    by (auto simp: framed_step_def framed_set_listener_def listen_with_def framed_ok_def split: option.splits)
qed (use assms in \<open>auto simp: framed_step_def framed_end_def framed_input_error_def framed_output_error_def
  framed_dispose_def framed_send_def Let_def framed_ok_def framed_close_def split: option.splits\<close>)

text \<open>C39: A framed transport never holds more than its limits: between events at most a header's worth of
  bytes is kept while a header is read, fewer than the announced and allowed length while a body is, and at
  most the pending limit of messages waits for a listener; the close callback is called at most once.\<close>

theorem framed_bounded:
  assumes "new_framed opts = Inr t"
  shows "framed_ok (framed_run rt es t)"
proof -
  have "framed_ok t" using new_framedD [OF assms] by (simp add: framed_ok_def)
  then show ?thesis unfolding framed_run_def
    by (induction es arbitrary: t) (simp_all add: framed_step_ok)
qed

lemma framed_bounded_witness:
  "framed_ok (framed_run latin1 [FListen On, FData (Text ''Content-Length: 9''), FEnd] default_framed)"
  by (rule framed_bounded [OF new_framed_default])

end
