(* ===== verification/Transports.thy ===== *)
theory Transports
  imports FramingCorrect Wire
begin

text \<open>
  The other transports, and what all of them have in common.  \<open>mailbox\<close> is the contract of
  \<^verbatim>\<open>IMessageTransport\<close>: no message is lost, repeated or reordered while listeners come and go.  It is
  interpreted on the framed, newline-delimited, socket and in-memory transports and on the channels
  of \<^verbatim>\<open>transport/multiplexedTransport.ts\<close>.  The second part is the handshake of
  \<^verbatim>\<open>transport/initialize.ts\<close>, which reads one message and leaves the rest to the channel behind it.
\<close>

section \<open>The contract of a transport\<close>

datatype 'm inbox_op = Arrive 'm | Listen listen_mode

definition arrivals :: "'m inbox_op list \<Rightarrow> 'm list" where
  "arrivals ps = concat (map (\<lambda>p. case p of Arrive m \<Rightarrow> [m] | Listen _ \<Rightarrow> []) ps)"

definition inbox_step :: "('m \<Rightarrow> 's \<Rightarrow> 's) \<Rightarrow> (listen_mode \<Rightarrow> 's \<Rightarrow> 's) \<Rightarrow> 'm inbox_op \<Rightarrow> 's \<Rightarrow> 's" where
  "inbox_step arrive listen p s = (case p of Arrive m \<Rightarrow> arrive m s | Listen l \<Rightarrow> listen l s)"

definition inbox_run :: "('m \<Rightarrow> 's \<Rightarrow> 's) \<Rightarrow> (listen_mode \<Rightarrow> 's \<Rightarrow> 's) \<Rightarrow> 'm inbox_op list \<Rightarrow> 's \<Rightarrow> 's" where
  "inbox_run arrive listen ps s = fold (inbox_step arrive listen) ps s"

locale mailbox =
  fixes arrive :: "'m \<Rightarrow> 's \<Rightarrow> 's" and listen :: "listen_mode \<Rightarrow> 's \<Rightarrow> 's"
    and got :: "'s \<Rightarrow> 'm list" and kept :: "'s \<Rightarrow> 'm list" and alive :: "'s \<Rightarrow> bool"
    and idle :: "'s \<Rightarrow> bool"
  assumes alive_arrive: "alive (arrive m s) \<Longrightarrow> alive s"
    and alive_listen: "alive (listen l s) = alive s"
    and idle_arrive: "idle s \<Longrightarrow> idle (arrive m s)"
    and idle_listen: "idle (listen l s)"
    and arrive_log: "idle s \<Longrightarrow> alive (arrive m s) \<Longrightarrow>
      got (arrive m s) @ kept (arrive m s) = got s @ kept s @ [m]"
    and listen_log: "got (listen l s) @ kept (listen l s) = got s @ kept s"
    and listen_on: "kept (listen On s) = []"
begin

lemma alive_step: "alive (inbox_step arrive listen p s) \<Longrightarrow> alive s"
  by (cases p) (auto simp: inbox_step_def alive_listen dest: alive_arrive)

lemma alive_fold: "alive (inbox_run arrive listen ps s) \<Longrightarrow> alive s"
  unfolding inbox_run_def by (induction ps arbitrary: s) (auto dest: alive_step)

lemma nothing_lost:
  "idle s \<Longrightarrow> alive (inbox_run arrive listen ps s) \<Longrightarrow>
   got (inbox_run arrive listen ps s) @ kept (inbox_run arrive listen ps s) = got s @ kept s @ arrivals ps"
proof (induction ps arbitrary: s)
  case (Cons p ps)
  then have "alive (inbox_step arrive listen p s)" using alive_fold by (simp add: inbox_run_def)
  with Cons.prems(1) have p: "got (inbox_step arrive listen p s) @ kept (inbox_step arrive listen p s) = got s @ kept s @ arrivals [p]"
    "idle (inbox_step arrive listen p s)"
    by (cases p; simp add: inbox_step_def arrivals_def arrive_log listen_log idle_arrive idle_listen)+
  have "got (inbox_run arrive listen (p # ps) s) @ kept (inbox_run arrive listen (p # ps) s) =
      (got (inbox_step arrive listen p s) @ kept (inbox_step arrive listen p s)) @ arrivals ps"
    using Cons.IH [OF p(2)] Cons.prems(2) by (simp add: inbox_run_def)
  also have "\<dots> = got s @ kept s @ arrivals (p # ps)"
    unfolding p(1) by (simp add: arrivals_def)
  finally show ?case .
qed (simp add: arrivals_def inbox_run_def)

lemma all_heard:
  "idle s \<Longrightarrow> alive (inbox_run arrive listen ps s) \<Longrightarrow>
   got (listen On (inbox_run arrive listen ps s)) = got s @ kept s @ arrivals ps"
  using nothing_lost [of s ps] listen_log [of On "inbox_run arrive listen ps s"] by (simp add: listen_on)

end

definition inbox_idle :: "('m, 'a) inbox_scheme \<Rightarrow> bool" where
  "inbox_idle t = (listener t = Off \<or> waiting t = [])"

lemma flush_log: "heard (flush ms t) @ waiting (flush ms t) = heard t @ ms"
  by (induction ms arbitrary: t) simp_all

lemma listen_with_log: "heard (listen_with l t) @ waiting (listen_with l t) = heard t @ waiting t"
  by (simp add: listen_with_def flush_log)

lemma flush_on: "listener t = On \<Longrightarrow> waiting (flush ms t) = []"
  by (induction ms arbitrary: t) (simp_all add: hear_def)

lemma listen_with_on: "waiting (listen_with On t) = []"
  by (simp add: listen_with_def flush_on)

lemma push_or_hear_log:
  "inbox_idle t \<Longrightarrow>
   heard (push_or_hear m t) @ waiting (push_or_hear m t) = heard t @ waiting t @ [m]"
  by (auto simp: push_or_hear_def inbox_idle_def)

lemma idle_push_or_hear: "inbox_idle t \<Longrightarrow> inbox_idle (push_or_hear m t)"
  by (auto simp: push_or_hear_def inbox_idle_def)

lemma idle_flush: "inbox_idle (flush ms t)"
  by (induction ms arbitrary: t) (simp_all add: inbox_idle_def)

lemma idle_listen_with: "inbox_idle (listen_with l t)"
  by (simp add: listen_with_def idle_flush)

section \<open>The framed and the newline-delimited transport\<close>

interpretation framed: mailbox framed_deliver framed_set_listener heard waiting "\<lambda>t. \<not> closed t" inbox_idle
proof
  fix m s l
  show "\<not> closed (framed_deliver m s) \<Longrightarrow> \<not> closed s"
    by (auto simp: framed_deliver_def split: if_splits)
  show "(\<not> closed (framed_set_listener l s)) = (\<not> closed s)"
    by (simp add: framed_set_listener_def listen_with_def)
  show "inbox_idle s \<Longrightarrow> inbox_idle (framed_deliver m s)"
    by (auto simp: framed_deliver_def inbox_idle_def)
  show "inbox_idle s \<Longrightarrow> \<not> closed (framed_deliver m s) \<Longrightarrow>
      heard (framed_deliver m s) @ waiting (framed_deliver m s) = heard s @ waiting s @ [m]"
    by (auto simp: framed_deliver_def inbox_idle_def split: if_splits)
qed (simp_all add: framed_set_listener_def idle_listen_with listen_with_log listen_with_on)

interpretation ndjson: mailbox ndjson_deliver ndjson_set_listener heard waiting "\<lambda>_. True" inbox_idle
  by unfold_locales (simp_all add: ndjson_deliver_def ndjson_set_listener_def push_or_hear_log
    idle_push_or_hear idle_listen_with listen_with_log listen_with_on)

text \<open>What a line contributes.\<close>

definition read_line :: "string \<Rightarrow> json option" where
  "read_line raw = (let line = js_trim raw in if line = [] then None else json_parse line)"

definition read_lines :: "string list \<Rightarrow> json list" where
  "read_lines raws = List.map_filter read_line raws"

lemma read_lines_simps [simp]:
  "read_lines [] = []"
  "read_lines (r # rs) = (case read_line r of None \<Rightarrow> read_lines rs | Some m \<Rightarrow> m # read_lines rs)"
  by (simp_all add: read_lines_def map_filter_simps split: option.split)

lemma ndjson_line_read:
  "ndjson_line raw t = (case read_line raw of None \<Rightarrow> t | Some m \<Rightarrow> push_or_hear m t)"
  by (simp add: ndjson_line_def read_line_def ndjson_deliver_def Let_def split: option.split)

lemma split_go_char:
  "split_go [c] acc s = (case index_of c s of None \<Rightarrow> [rev acc @ s]
     | Some i \<Rightarrow> (rev acc @ take i s) # split_go [c] [] (drop (Suc i) s))"
proof (induction s arbitrary: acc)
  case (Cons x s)
  then show ?case
    by (subst split_go.simps) (auto simp: starts_with_def split: option.splits)
qed (simp add: split_go.simps)

lemma js_split_char:
  "js_split s [c] = (case index_of c s of None \<Rightarrow> [s] | Some i \<Rightarrow> take i s # js_split (drop (Suc i) s) [c])"
  unfolding js_split_def by (subst split_go_char) (simp split: option.split)

lemma js_split_not_Nil [simp]: "js_split s sep \<noteq> []"
  by (simp add: js_split_def)

lemma push_nd_residual: "push_or_hear m (t\<lparr>nd_residual := r\<rparr>) = (push_or_hear m t)\<lparr>nd_residual := r\<rparr>"
  by (simp add: push_or_hear_def hear_def)

lemma fold_push_nd_residual:
  "fold push_or_hear ms (t\<lparr>nd_residual := r\<rparr>) = (fold push_or_hear ms t)\<lparr>nd_residual := r\<rparr>"
  by (induction ms arbitrary: t) (simp_all add: push_nd_residual)

lemma ndjson_loop_lines:
  "ndjson_loop t =
   (fold push_or_hear (read_lines (butlast (js_split (nd_residual t) [newline]))) t)
     \<lparr>nd_residual := last (js_split (nd_residual t) [newline])\<rparr>"
proof (induction t rule: ndjson_loop.induct)
  case (1 t)
  show ?case
  proof (cases "index_of newline (nd_residual t)")
    case None
    then show ?thesis by (simp add: ndjson_loop.simps [of t] js_split_char [of "nd_residual t"])
  next
    case (Some i)
    define u where "u = ndjson_line (take i (nd_residual t)) (t\<lparr>nd_residual := drop (i + 1) (nd_residual t)\<rparr>)"
    have u: "u = (fold push_or_hear (read_lines [take i (nd_residual t)]) t)\<lparr>nd_residual := drop (Suc i) (nd_residual t)\<rparr>"
      by (simp add: u_def ndjson_line_read push_nd_residual split: option.split)
    have loop: "ndjson_loop t = ndjson_loop u" using Some by (simp add: ndjson_loop.simps [of t] u_def)
    have parts: "read_lines (butlast (js_split (nd_residual t) [newline])) =
        read_lines [take i (nd_residual t)] @ read_lines (butlast (js_split (drop (Suc i) (nd_residual t)) [newline]))"
      using Some by (subst js_split_char) (simp split: option.split)
    have rest: "last (js_split (nd_residual t) [newline]) = last (js_split (drop (Suc i) (nd_residual t)) [newline])"
      using Some by (subst js_split_char) simp
    have "nd_residual u = drop (Suc i) (nd_residual t)" by (simp add: u)
    with 1 [OF Some] have "ndjson_loop u =
        (fold push_or_hear (read_lines (butlast (js_split (drop (Suc i) (nd_residual t)) [newline]))) u)
          \<lparr>nd_residual := last (js_split (drop (Suc i) (nd_residual t)) [newline])\<rparr>"
      by (simp add: u_def)
    then show ?thesis
      unfolding loop parts rest by (simp only: u fold_push_nd_residual fold_append o_apply) simp
  qed
qed

text \<open>The newline-delimited reader is exactly the reading of the complete lines of its input: each line
  that is JSON is delivered, in order, blank and malformed lines are dropped without disturbing the others,
  and what follows the last newline is kept for the next chunk.\<close>

theorem ndjson_lines_exact:
  "ndjson_data chunk t =
   (fold push_or_hear (read_lines (butlast (js_split (nd_residual t @ chunk) [newline]))) t)
     \<lparr>nd_residual := last (js_split (nd_residual t @ chunk) [newline])\<rparr>"
  by (simp add: ndjson_data_def ndjson_loop_lines fold_push_nd_residual)

lemma split_append_parts:
  "js_split (a @ b) [c] =
   butlast (js_split a [c]) @ js_split (last (js_split a [c]) @ b) [c]"
proof (induction "length a" arbitrary: a rule: less_induct)
  case less
  show ?case
  proof (cases "index_of c a")
    case None
    then show ?thesis by (simp add: js_split_char [of a])
  next
    case (Some i)
    then have i: "i < length a" "c \<notin> set (take i a)" "a ! i = c" using index_of_SomeD by blast+
    have "a @ b = (take i a @ c # drop (Suc i) a) @ b"
      using i id_take_nth_drop [of i a] by metis
    also have "\<dots> = take i a @ c # (drop (Suc i) a @ b)" by simp
    finally have "index_of c (a @ b) = index_of c (take i a @ c # (drop (Suc i) a @ b))" by (rule arg_cong)
    then have "index_of c (a @ b) = Some i"
      using index_of_append [OF i(2), of "drop (Suc i) a @ b"] i(1) by (simp only: length_take min_absorb2 less_imp_le)
    then have "js_split (a @ b) [c] = take i a # js_split (drop (Suc i) a @ b) [c]"
      using i(1) by (subst js_split_char) simp
    also have "js_split (drop (Suc i) a @ b) [c] =
        butlast (js_split (drop (Suc i) a) [c]) @ js_split (last (js_split (drop (Suc i) a) [c]) @ b) [c]"
      using i(1) by (intro less) simp
    finally show ?thesis using Some by (simp add: js_split_char [of a])
  qed
qed

lemma read_lines_append: "read_lines (a @ b) = read_lines a @ read_lines b"
  by (simp add: read_lines_def map_filter_def)

lemma ndjson_chunks: "ndjson_data b (ndjson_data a t) = ndjson_data (a @ b) t"
proof -
  let ?s = "nd_residual t @ a"
  have "js_split (nd_residual t @ a @ b) [newline] =
      butlast (js_split ?s [newline]) @ js_split (last (js_split ?s [newline]) @ b) [newline]"
    using split_append_parts [of ?s b newline] by simp
  then show ?thesis
    by (simp add: ndjson_lines_exact fold_push_nd_residual butlast_append read_lines_append)
qed

lemma set_js_join: "c \<in> set (js_join sep xs) \<Longrightarrow> c \<in> set sep \<or> (\<exists>x\<in>set xs. c \<in> set x)"
  by (induction sep xs rule: js_join.induct) auto

lemma hex_char_visible: "d < 16 \<Longrightarrow> 32 \<le> (of_char (hex_char d) :: nat)"
  by (simp add: of_char_hex_char)

lemma quote_visible:
  assumes "x \<in> set (quote_char c)"
  shows "32 \<le> (of_char x :: nat)"
proof -
  have "(of_char c :: nat) < 256" by simp
  then have "(of_char c :: nat) div 16 < 16" "(of_char c :: nat) mod 16 < 16"
    by (simp_all add: less_mult_imp_div_less)
  then show ?thesis using assms by (auto simp: quote_char_def Let_def hex_char_visible split: if_splits)
qed

lemma json_quote_visible: "x \<in> set (json_quote s) \<Longrightarrow> 32 \<le> (of_char x :: nat)"
  by (auto simp: json_quote_def quote_visible)

lemma stringify_visible: "json_finite j \<Longrightarrow> x \<in> set (json_stringify j) \<Longrightarrow> 32 \<le> (of_char x :: nat)"
proof (induction j)
  case (JNum n)
  then obtain m e where "n = Dec m e" by (cases n) (simp_all add: num_finite_def)
  with JNum num_to_string_chars [of x m e] show ?case by (auto simp: is_digit_def)
next
  case (JArr xs)
  then show ?case by (fastforce dest!: set_js_join simp: list_all_iff)
next
  case (JObj kvs)
  have "x \<in> {CHR ''{'', CHR '','', CHR ''}''} \<or> (\<exists>p\<in>set kvs. x \<in> set (stringify_item p))"
    using JObj.prems(2) by (auto simp: stringify_items simp del: map_map dest!: set_js_join)
  then show ?case
  proof
    assume "\<exists>p\<in>set kvs. x \<in> set (stringify_item p)"
    then obtain k v where p: "(k, v) \<in> set kvs" "x \<in> set (stringify_item (k, v))" by auto
    have "json_finite v" using json_items(2) [OF p(1)] JObj.prems(1) by simp
    with p JObj.IH [of "(k, v)" v] show ?thesis
      by (auto simp: stringify_item_def dest: json_quote_visible)
  qed auto
qed (auto dest: json_quote_visible split: if_splits)

lemma last_stringify: "json_finite j \<Longrightarrow> \<not> is_space (last (json_stringify j))"
proof (cases j)
  case (JNum n)
  assume "json_finite j"
  with JNum obtain m e where n: "n = Dec m e" by (cases n) (simp_all add: num_finite_def)
  with num_to_string_hd [of m e] have "last (num_to_string n) \<in> set (num_to_string (Dec m e))"
    by (metis last_in_set)
  from num_to_string_chars [OF this] show ?thesis by (auto simp: JNum n is_space_def is_digit_def)
qed (auto simp: is_space_def json_quote_def)

lemma trim_stringify:
  assumes "json_finite j"
  shows "js_trim (json_stringify j) = json_stringify j"
proof -
  have ne: "json_stringify j \<noteq> []" using stringify_hd [OF assms] by simp
  have "\<not> is_space (hd (json_stringify j))"
    using stringify_hd [OF assms]
    by (auto simp: kind_char_def is_space_def is_digit_def split: json.splits if_splits)
  then have "dropWhile is_space (json_stringify j) = json_stringify j" using ne by (cases "json_stringify j") auto
  moreover have "dropWhile is_space (rev (json_stringify j)) = rev (json_stringify j)"
    using last_stringify [OF assms] ne by (cases "json_stringify j" rule: rev_cases) auto
  ultimately show ?thesis by (simp add: js_trim_def)
qed

lemma read_line_stringify: "json_ok j \<Longrightarrow> json_finite j \<Longrightarrow> read_line (json_stringify j) = Some j"
  using stringify_hd [of j] by (simp add: read_line_def trim_stringify parse_stringify)

definition ndjson_text :: "json list \<Rightarrow> string" where
  "ndjson_text ms = concat (map (\<lambda>m. json_stringify m @ [newline]) ms)"

lemma newline_not_in_stringify: "json_finite j \<Longrightarrow> newline \<notin> set (json_stringify j)"
  using stringify_visible [of j newline] by (auto simp: newline_def)

lemma last_js_split: "c \<notin> set (last (js_split s [c]))"
proof (induction "length s" arbitrary: s rule: less_induct)
  case less
  show ?case
  proof (cases "index_of c s")
    case None
    moreover from None have "js_split s [c] = [s]" by (simp add: js_split_char [of s])
    ultimately show ?thesis by (simp add: index_of_None_iff)
  next
    case (Some i)
    then have "i < length s" using index_of_SomeD by blast
    then have "c \<notin> set (last (js_split (drop (Suc i) s) [c]))" by (intro less) simp
    with Some show ?thesis by (subst js_split_char) simp
  qed
qed

lemma split_at_newline: "js_split (a @ c # b) [c] = js_split a [c] @ js_split b [c]"
proof -
  have "js_split (a @ c # b) [c] = butlast (js_split a [c]) @ js_split (last (js_split a [c]) @ c # b) [c]"
    by (rule split_append_parts)
  also have "js_split (last (js_split a [c]) @ c # b) [c] = last (js_split a [c]) # js_split b [c]"
    by (subst js_split_char) (simp add: index_of_append [OF last_js_split])
  finally show ?thesis
    using append_butlast_last_id [OF js_split_not_Nil, of a "[c]"]
    by (metis append.assoc append_Cons append_Nil)
qed

lemma split_ndjson_text:
  "\<forall>m\<in>set ms. json_finite m \<Longrightarrow> js_split (ndjson_text ms) [newline] = map json_stringify ms @ [[]]"
proof (induction ms)
  case Nil
  then show ?case by (simp add: ndjson_text_def js_split_char)
next
  case (Cons m ms)
  have "ndjson_text (m # ms) = json_stringify m @ newline # ndjson_text ms" by (simp add: ndjson_text_def)
  moreover have "js_split (json_stringify m) [newline] = [json_stringify m]"
    using Cons.prems by (intro js_split_none newline_not_in_stringify) simp
  ultimately show ?case using Cons by (simp add: split_at_newline)
qed

lemma read_lines_stringify:
  "\<forall>m\<in>set ms. json_ok m \<and> json_finite m \<Longrightarrow> read_lines (map json_stringify ms) = ms"
  by (induction ms) (simp_all add: read_line_stringify)

lemma fold_push_on: "listener t = On \<Longrightarrow> fold push_or_hear ms t = t\<lparr>heard := heard t @ ms\<rparr>"
  by (induction ms arbitrary: t) (simp_all add: push_or_hear_def hear_def)

definition ndjson_feed :: "string list \<Rightarrow> ndjson \<Rightarrow> ndjson" where
  "ndjson_feed cs t = fold ndjson_data cs t"

lemma fold_ndjson_data: "fold ndjson_data cs (ndjson_data c t) = ndjson_data (c @ concat cs) t"
  by (induction cs arbitrary: c) (simp_all add: ndjson_chunks)

lemma ndjson_feed_concat: "cs \<noteq> [] \<Longrightarrow> ndjson_feed cs t = ndjson_data (concat cs) t"
  by (cases cs) (simp_all add: ndjson_feed_def fold_ndjson_data)

definition ndjson_send_all :: "json list \<Rightarrow> ndjson \<Rightarrow> ndjson" where
  "ndjson_send_all ms t = fold ndjson_send ms t"

lemma written_ndjson_send_all:
  "\<not> nd_closed t \<Longrightarrow> nd_written (ndjson_send_all ms t) = nd_written t @ ndjson_text ms"
  by (induction ms arbitrary: t) (simp_all add: ndjson_send_all_def ndjson_send_def ndjson_text_def)

text \<open>What a newline-delimited end sends, the other end hears, whatever the chunks; and noise that ends
  in a newline before it costs nothing, so a reader joins a stream at any line.\<close>

theorem ndjson_roundtrip:
  assumes "\<forall>m\<in>set ms. json_ok m \<and> json_finite m"
    and "read_lines (js_split noise [newline]) = []"
    and "concat cs = noise @ [newline] @ nd_written (ndjson_send_all ms new_ndjson)"
  shows "ndjson_feed cs (ndjson_set_listener On new_ndjson) =
    (ndjson_set_listener On new_ndjson)\<lparr>heard := ms\<rparr>"
proof -
  define t where "t = ndjson_set_listener On new_ndjson"
  have t: "t = new_ndjson\<lparr>listener := On\<rparr>"
    by (simp add: t_def ndjson_set_listener_def listen_with_empty new_ndjson_def listen_with_def)
  have w: "nd_written (ndjson_send_all ms new_ndjson) = ndjson_text ms"
    using written_ndjson_send_all [of new_ndjson ms] by (simp add: new_ndjson_def)
  have "cs \<noteq> []" using assms(3) by auto
  then have "ndjson_feed cs t = ndjson_data (noise @ newline # ndjson_text ms) t"
    using assms(3) w by (simp add: ndjson_feed_concat)
  moreover have "js_split (noise @ newline # ndjson_text ms) [newline] =
      js_split noise [newline] @ map json_stringify ms @ [[]]"
    using assms(1) by (simp add: split_at_newline split_ndjson_text)
  moreover have "read_lines (butlast (js_split noise [newline] @ map json_stringify ms @ [[]])) = ms"
    using assms(1,2) read_lines_stringify [of ms] by (simp add: butlast_append read_lines_append)
  ultimately have "ndjson_feed cs t = (fold push_or_hear ms t)\<lparr>nd_residual := []\<rparr>"
    by (simp add: ndjson_lines_exact t new_ndjson_def)
  then show ?thesis unfolding t_def [symmetric] by (simp add: fold_push_on t new_ndjson_def)
qed

lemma ndjson_roundtrip_witness:
  "ndjson_feed [''oops'', [newline] @ ''[nul'', ''l]'' @ [newline]] (ndjson_set_listener On new_ndjson) =
   (ndjson_set_listener On new_ndjson)\<lparr>heard := [JArr [JNull]]\<rparr>"
proof (rule ndjson_roundtrip [of _ "''oops''"])
  show "read_lines (js_split ''oops'' [newline]) = []" by code_simp
qed (simp_all add: ndjson_send_all_def ndjson_send_def new_ndjson_def)

section \<open>The socket\<close>

text \<open>One frame may carry several lines.  \<open>ws_open\<close> is \<^verbatim>\<open>readyState === 1\<close>, which the socket decides.\<close>

record websocket = "json inbox" +
  ws_closed :: bool
  ws_on_close :: nat
  ws_open :: bool
  ws_sent :: "string list"
  ws_close_calls :: nat

datatype ws_data = WsText string | WsBinary bytes

definition new_websocket :: websocket where
  "new_websocket = \<lparr>listener = Off, waiting = [], heard = [], ws_closed = False, ws_on_close = 0,
     ws_open = True, ws_sent = [], ws_close_calls = 0\<rparr>"

definition ws_deliver :: "json \<Rightarrow> websocket \<Rightarrow> websocket" where
  "ws_deliver m t = push_or_hear m t"

definition ws_line :: "string \<Rightarrow> websocket \<Rightarrow> websocket" where
  "ws_line line t =
     (let trimmed = js_trim line in
      if trimmed = [] then t
      else case json_parse trimmed of None \<Rightarrow> t | Some parsed \<Rightarrow> ws_deliver parsed t)"

definition ws_message :: "runtime \<Rightarrow> ws_data \<Rightarrow> websocket \<Rightarrow> websocket" where
  "ws_message rt data t =
     (let content = (case data of WsText s \<Rightarrow> s | WsBinary bs \<Rightarrow> utf8_text rt bs) in
      fold ws_line (js_split content [newline]) t)"

definition ws_end :: "websocket \<Rightarrow> websocket" where
  "ws_end t = (if ws_closed t then t else t\<lparr>ws_closed := True, ws_on_close := ws_on_close t + 1\<rparr>)"

definition ws_send :: "json \<Rightarrow> websocket \<Rightarrow> websocket" where
  "ws_send message t =
     (if ws_closed t then t
      else if \<not> ws_open t then t
      else t\<lparr>ws_sent := ws_sent t @ [json_stringify message]\<rparr>)"

definition ws_set_listener :: "listen_mode \<Rightarrow> websocket \<Rightarrow> websocket" where
  "ws_set_listener l t = listen_with l t"

definition ws_dispose :: "websocket \<Rightarrow> websocket" where
  "ws_dispose t =
     (if ws_closed t then t
      else t\<lparr>ws_closed := True, ws_close_calls := ws_close_calls t + 1, ws_on_close := ws_on_close t + 1\<rparr>)"

interpretation websocket: mailbox ws_deliver ws_set_listener heard waiting "\<lambda>_. True" inbox_idle
  by unfold_locales (simp_all add: ws_deliver_def ws_set_listener_def push_or_hear_log
    idle_push_or_hear idle_listen_with listen_with_log listen_with_on)

lemma ws_message_lines:
  "ws_message rt (WsText s) t = fold push_or_hear (read_lines (js_split s [newline])) t"
proof -
  have "fold ws_line ls t = fold push_or_hear (read_lines ls) t" for ls
    by (induction ls arbitrary: t)
      (simp_all add: ws_line_def ws_deliver_def read_line_def Let_def split: option.split)
  then show ?thesis by (simp add: ws_message_def)
qed

section \<open>Two ends in memory\<close>

record 'm memory_end = "'m inbox" +
  me_closed :: bool

type_synonym 'm memory_pair = "'m memory_end \<times> 'm memory_end"

definition new_pair :: "'m memory_pair" where
  "new_pair = (\<lparr>listener = Off, waiting = [], heard = [], me_closed = False\<rparr>,
     \<lparr>listener = Off, waiting = [], heard = [], me_closed = False\<rparr>)"

definition memory_deliver :: "'m \<Rightarrow> 'm memory_end \<Rightarrow> 'm memory_end" where
  "memory_deliver m t = push_or_hear m t"

definition memory_set_listener :: "listen_mode \<Rightarrow> 'm memory_end \<Rightarrow> 'm memory_end" where
  "memory_set_listener l t = listen_with l t"

definition memory_dispose :: "'m memory_end \<Rightarrow> 'm memory_end" where
  "memory_dispose t = t\<lparr>me_closed := True\<rparr>"

text \<open>A message sent by \<open>a\<close>; \<open>b\<close> sends over the swapped pair.\<close>

definition pair_send :: "'m \<Rightarrow> 'm memory_pair \<Rightarrow> 'm memory_pair" where
  "pair_send m p =
     (let (a, b) = p in if me_closed a \<or> me_closed b then p else (a, memory_deliver m b))"

interpretation memory: mailbox memory_deliver memory_set_listener heard waiting "\<lambda>_. True" inbox_idle
  by unfold_locales (simp_all add: memory_deliver_def memory_set_listener_def push_or_hear_log
    idle_push_or_hear idle_listen_with listen_with_log listen_with_on)

section \<open>Channels over one transport\<close>

text \<open>
  A channel object is known by its id, as an id is never used twice: \<open>mx_channels\<close> holds every channel
  ever created, \<open>mx_by_id\<close> the ids \<^verbatim>\<open>_byId\<close> still routes to.
\<close>

record 'm mux_channel = "'m inbox" +
  ch_closed :: bool

record 'm mux =
  mx_channels :: "(string \<times> 'm mux_channel) list"
  mx_by_id :: "string list"
  mx_used :: "string list"
  mx_disposed :: bool
  mx_listening :: bool
  mx_sent :: "(string \<times> 'm) list"

definition new_channel :: "'m mux_channel" where
  "new_channel = \<lparr>listener = Off, waiting = [], heard = [], ch_closed = False\<rparr>"

definition create_channel :: "string \<Rightarrow> 'm mux \<Rightarrow> 'm mux res" where
  "create_channel ch x =
     (if ch = [] then Inl (JsError ''Multiplexed transport channel ids must not be empty.'')
      else if ch \<in> set (mx_used x) then
        Inl (JsError (''Multiplexed transport channel id '' @ [CHR 0x22] @ ch @ [CHR 0x22] @ '' has already been used.''))
      else Inr (x\<lparr>mx_used := mx_used x @ [ch], mx_channels := jm_set (mx_channels x) ch new_channel,
                  mx_by_id := mx_by_id x @ [ch]\<rparr>))"

fun create_channels :: "string list \<Rightarrow> 'm mux \<Rightarrow> 'm mux res" where
  "create_channels [] x = Inr x"
| "create_channels (ch # ids) x = res_bind (create_channel ch x) (create_channels ids)"

definition new_mux :: "string list \<Rightarrow> 'm mux res" where
  "new_mux ids =
     res_bind (create_channels ids
         \<lparr>mx_channels = [], mx_by_id = [], mx_used = [], mx_disposed = False, mx_listening = False, mx_sent = []\<rparr>)
       (\<lambda>x. Inr (x\<lparr>mx_listening := True\<rparr>))"

definition add_channel :: "string \<Rightarrow> 'm mux \<Rightarrow> 'm mux res" where
  "add_channel ch x =
     (if mx_disposed x then Inl (JsError ''Cannot add a channel to a disposed multiplexed transport.'')
      else create_channel ch x)"

definition map_channel :: "string \<Rightarrow> ('m mux_channel \<Rightarrow> 'm mux_channel) \<Rightarrow> 'm mux \<Rightarrow> 'm mux" where
  "map_channel ch f x = (case jm_get (mx_channels x) ch of
     None \<Rightarrow> x | Some c \<Rightarrow> x\<lparr>mx_channels := jm_set (mx_channels x) ch (f c)\<rparr>)"

definition channel_deliver :: "'m \<Rightarrow> 'm mux_channel \<Rightarrow> 'm mux_channel" where
  "channel_deliver m c = (if ch_closed c then c else push_or_hear m c)"

definition channel_set_listener :: "listen_mode \<Rightarrow> 'm mux_channel \<Rightarrow> 'm mux_channel" where
  "channel_set_listener l c = listen_with l c"

text \<open>What the base transport's listener does; \<open>None\<close> is a null envelope.\<close>

definition mux_receive :: "(string \<times> 'm) option \<Rightarrow> 'm mux \<Rightarrow> 'm mux" where
  "mux_receive data x = (case data of
     None \<Rightarrow> x
   | Some (ch, m) \<Rightarrow>
       if mx_listening x \<and> ch \<in> set (mx_by_id x) then map_channel ch (channel_deliver m) x else x)"

definition mux_send :: "string \<Rightarrow> 'm \<Rightarrow> 'm mux \<Rightarrow> 'm mux" where
  "mux_send ch m x = (case jm_get (mx_channels x) ch of
     None \<Rightarrow> x
   | Some c \<Rightarrow> if ch_closed c then x else x\<lparr>mx_sent := mx_sent x @ [(ch, m)]\<rparr>)"

definition mux_listen :: "string \<Rightarrow> listen_mode \<Rightarrow> 'm mux \<Rightarrow> 'm mux" where
  "mux_listen ch l x = map_channel ch (channel_set_listener l) x"

definition dispose_channel :: "string \<Rightarrow> 'm mux \<Rightarrow> 'm mux" where
  "dispose_channel ch x = (case jm_get (mx_channels x) ch of
     None \<Rightarrow> x
   | Some c \<Rightarrow>
       if ch_closed c then x
       else (map_channel ch (\<lambda>c. c\<lparr>ch_closed := True, listener := Off, waiting := []\<rparr>) x)
         \<lparr>mx_by_id := filter (\<lambda>i. i \<noteq> ch) (mx_by_id x)\<rparr>)"

definition mux_dispose :: "'m mux \<Rightarrow> 'm mux" where
  "mux_dispose x =
     (if mx_disposed x then x
      else (fold dispose_channel (mx_by_id x) (x\<lparr>mx_disposed := True, mx_listening := False\<rparr>))\<lparr>mx_by_id := []\<rparr>)"

interpretation muxed: mailbox channel_deliver channel_set_listener heard waiting "\<lambda>c. \<not> ch_closed c" inbox_idle
proof
  fix m :: 'a and s l
  show "\<not> ch_closed (channel_deliver m s) \<Longrightarrow> \<not> ch_closed s"
    by (auto simp: channel_deliver_def split: if_splits)
  show "inbox_idle s \<Longrightarrow> inbox_idle (channel_deliver m s)"
    by (simp add: channel_deliver_def idle_push_or_hear)
  show "inbox_idle s \<Longrightarrow> \<not> ch_closed (channel_deliver m s) \<Longrightarrow>
      heard (channel_deliver m s) @ waiting (channel_deliver m s) = heard s @ waiting s @ [m]"
    by (auto simp: channel_deliver_def push_or_hear_log split: if_splits)
  have "ch_closed (flush ms c) = ch_closed c" for ms and c :: "'a mux_channel"
    by (induction ms arbitrary: c) (simp_all add: hear_def)
  then show "(\<not> ch_closed (channel_set_listener l s)) = (\<not> ch_closed s)"
    by (simp add: channel_set_listener_def listen_with_def)
qed (simp_all add: channel_set_listener_def idle_listen_with listen_with_log listen_with_on)

datatype 'm mux_op =
    MxAdd string | MxReceive "(string \<times> 'm) option" | MxSend string 'm | MxListen string listen_mode
  | MxDisposeChannel string | MxDispose

definition mux_step :: "'m mux_op \<Rightarrow> 'm mux \<Rightarrow> 'm mux" where
  "mux_step p x = (case p of
     MxAdd ch \<Rightarrow> (case add_channel ch x of Inl _ \<Rightarrow> x | Inr y \<Rightarrow> y)
   | MxReceive data \<Rightarrow> mux_receive data x | MxSend ch m \<Rightarrow> mux_send ch m x
   | MxListen ch l \<Rightarrow> mux_listen ch l x | MxDisposeChannel ch \<Rightarrow> dispose_channel ch x
   | MxDispose \<Rightarrow> mux_dispose x)"

definition mux_run :: "'m mux_op list \<Rightarrow> 'm mux \<Rightarrow> 'm mux" where
  "mux_run ps x = fold mux_step ps x"

definition mux_ok :: "'m mux \<Rightarrow> bool" where
  "mux_ok x =
     (set (mx_by_id x) \<subseteq> set (mx_used x) \<and>
      (\<forall>ch. ch \<in> set (mx_used x) \<longleftrightarrow> jm_get (mx_channels x) ch \<noteq> None) \<and>
      (\<forall>ch c. jm_get (mx_channels x) ch = Some c \<longrightarrow>
         (ch_closed c \<longleftrightarrow> ch \<notin> set (mx_by_id x)) \<and> (ch_closed c \<longrightarrow> waiting c = [])))"

definition channel_heard :: "string \<Rightarrow> 'm mux \<Rightarrow> 'm list" where
  "channel_heard ch x = (case jm_get (mx_channels x) ch of Some c \<Rightarrow> heard c | None \<Rightarrow> [])"

lemma ch_closed_flush [simp]: "ch_closed (flush ms c) = ch_closed c"
  by (induction ms arbitrary: c) (simp_all add: hear_def)

lemma closed_channel_ops:
  "ch_closed (channel_set_listener l c) = ch_closed c" "ch_closed (channel_deliver m c) = ch_closed c"
  "waiting c = [] \<Longrightarrow> waiting (channel_set_listener l c) = []"
  "waiting c = [] \<Longrightarrow> heard (channel_set_listener l c) = heard c"
  by (simp_all add: channel_set_listener_def listen_with_def channel_deliver_def push_or_hear_def hear_def)

lemma map_channel_simps [simp]:
  "mx_used (map_channel ch f x) = mx_used x" "mx_by_id (map_channel ch f x) = mx_by_id x"
  "mx_disposed (map_channel ch f x) = mx_disposed x" "mx_listening (map_channel ch f x) = mx_listening x"
  "jm_get (mx_channels (map_channel ch f x)) k =
     (if k = ch then map_option f (jm_get (mx_channels x) ch) else jm_get (mx_channels x) k)"
  by (simp_all add: map_channel_def split: option.split)

lemma mux_ok_map:
  assumes "mux_ok x" "\<And>c. ch_closed (f c) = ch_closed c" "\<And>c. ch_closed c \<Longrightarrow> waiting c = [] \<Longrightarrow> waiting (f c) = []"
  shows "mux_ok (map_channel ch f x)"
  using assms unfolding mux_ok_def by (auto split: if_splits)

lemma mux_ok_create: "mux_ok x \<Longrightarrow> create_channel ch x = Inr y \<Longrightarrow> mux_ok y"
  unfolding mux_ok_def create_channel_def
  by (auto simp: new_channel_def split: if_splits)

lemma mux_ok_dispose_channel: "mux_ok x \<Longrightarrow> mux_ok (dispose_channel ch x)"
  unfolding mux_ok_def dispose_channel_def by (auto split: option.splits if_splits)

lemma by_id_dispose_channel:
  "mux_ok x \<Longrightarrow> mx_by_id (dispose_channel ch x) = filter (\<lambda>i. i \<noteq> ch) (mx_by_id x)"
proof -
  assume ok: "mux_ok x"
  have "filter (\<lambda>i. i \<noteq> ch) (mx_by_id x) = mx_by_id x" if "ch \<notin> set (mx_by_id x)"
    using that by (intro filter_True) auto
  with ok show ?thesis
    by (auto simp: mux_ok_def dispose_channel_def split: option.split)
qed

lemma fold_dispose_channel:
  "mux_ok x \<Longrightarrow> mux_ok (fold dispose_channel ids x) \<and>
     set (mx_by_id (fold dispose_channel ids x)) = set (mx_by_id x) - set ids"
proof (induction ids arbitrary: x)
  case (Cons i ids)
  from Cons.IH [OF mux_ok_dispose_channel [OF Cons.prems, of i]] by_id_dispose_channel [OF Cons.prems, of i]
  show ?case by auto
qed simp

lemma mux_ok_dispose: "mux_ok x \<Longrightarrow> mux_ok (mux_dispose x)"
proof -
  assume ok: "mux_ok x"
  let ?x = "x\<lparr>mx_disposed := True, mx_listening := False\<rparr>"
  have "mux_ok ?x" using ok by (simp add: mux_ok_def)
  from fold_dispose_channel [OF this, of "mx_by_id x"] have
    f: "mux_ok (fold dispose_channel (mx_by_id x) ?x)" "mx_by_id (fold dispose_channel (mx_by_id x) ?x) = []"
    by simp_all
  then have "(fold dispose_channel (mx_by_id x) ?x)\<lparr>mx_by_id := []\<rparr> = fold dispose_channel (mx_by_id x) ?x"
    by (metis mux.surjective mux.update_convs(2) mux.select_convs(2))
  with ok f(1) show ?thesis by (simp add: mux_dispose_def)
qed

lemma mux_ok_step: "mux_ok x \<Longrightarrow> mux_ok (mux_step p x)"
proof (cases p)
  case (MxAdd ch)
  assume "mux_ok x"
  with MxAdd mux_ok_create [of x ch] show ?thesis
    by (auto simp: mux_step_def add_channel_def split: sum.split)
next
  case (MxReceive data)
  assume "mux_ok x"
  then have "mux_ok (map_channel ch (channel_deliver m) x)" for ch m
    by (rule mux_ok_map) (simp_all add: closed_channel_ops, simp add: channel_deliver_def)
  with \<open>mux_ok x\<close> MxReceive show ?thesis
    by (auto simp: mux_step_def mux_receive_def split: option.split)
next
  case (MxSend ch m)
  assume "mux_ok x"
  with MxSend show ?thesis by (auto simp: mux_step_def mux_send_def mux_ok_def split: option.split)
next
  case (MxListen ch l)
  assume "mux_ok x"
  with MxListen show ?thesis
    by (auto simp: mux_step_def mux_listen_def closed_channel_ops intro!: mux_ok_map)
qed (simp_all add: mux_step_def mux_ok_dispose_channel mux_ok_dispose)

lemma mux_ok_run: "mux_ok x \<Longrightarrow> mux_ok (mux_run ps x)"
  unfolding mux_run_def by (induction ps arbitrary: x) (simp_all add: mux_ok_step)

lemma create_channels_ok: "mux_ok x \<Longrightarrow> create_channels ids x = Inr y \<Longrightarrow> mux_ok y"
  by (induction ids x rule: create_channels.induct) (auto simp: res_bind_Inr_iff dest: mux_ok_create)

lemma new_mux_ok: "new_mux ids = Inr x \<Longrightarrow> mux_ok x"
  by (auto simp: new_mux_def res_bind_Inr_iff dest!: create_channels_ok [rotated]) (simp_all add: mux_ok_def)

text \<open>No transport loses, repeats or reorders a message while listeners are attached, detach themselves
  or are replaced: once a lasting listener is there, it and its predecessors have heard exactly the messages
  that arrived, in order.  Only a framed transport can be closed by them, by the limit on waiting messages.\<close>

theorem transports_lose_nothing:
  "heard (ndjson_set_listener On (inbox_run ndjson_deliver ndjson_set_listener ps new_ndjson)) = arrivals ps \<and>
   heard (ws_set_listener On (inbox_run ws_deliver ws_set_listener ps new_websocket)) = arrivals ps \<and>
   heard (memory_set_listener On (inbox_run memory_deliver memory_set_listener qs (fst new_pair))) = arrivals qs \<and>
   heard (channel_set_listener On (inbox_run channel_deliver channel_set_listener qs new_channel)) = arrivals qs \<and>
   (let t = inbox_run framed_deliver framed_set_listener ps default_framed in
    closed t \<or> heard (framed_set_listener On t) = arrivals ps)"
proof -
  have "\<not> ch_closed (inbox_run channel_deliver channel_set_listener qs new_channel)"
    by (induction qs rule: rev_induct)
      (simp_all add: inbox_run_def inbox_step_def new_channel_def closed_channel_ops split: inbox_op.split)
  then show ?thesis
    using ndjson.all_heard [of new_ndjson ps] websocket.all_heard [of new_websocket ps]
      memory.all_heard [of "fst new_pair" qs] muxed.all_heard [of new_channel qs]
      framed.all_heard [of default_framed ps]
    by (auto simp: inbox_idle_def new_ndjson_def new_websocket_def new_pair_def new_channel_def default_framed_def Let_def)
qed

definition retired :: "string \<Rightarrow> 'm mux \<Rightarrow> bool" where
  "retired ch x = (ch \<in> set (mx_used x) \<and> ch \<notin> set (mx_by_id x))"

lemma retired_channel:
  assumes "mux_ok x" "retired ch x"
  obtains c where "jm_get (mx_channels x) ch = Some c" "ch_closed c" "waiting c = []"
proof -
  from assms obtain c where "jm_get (mx_channels x) ch = Some c" by (auto simp: mux_ok_def retired_def)
  with assms that show thesis by (auto simp: mux_ok_def retired_def)
qed

lemma retired_dispose_channel:
  assumes "mux_ok x" "retired ch x"
  shows "retired ch (dispose_channel k x) \<and> channel_heard ch (dispose_channel k x) = channel_heard ch x"
proof -
  have "mx_used (dispose_channel k x) = mx_used x" by (simp add: dispose_channel_def split: option.split)
  moreover have "channel_heard ch (dispose_channel k x) = channel_heard ch x"
    by (auto simp: dispose_channel_def channel_heard_def split: option.split)
  ultimately show ?thesis using assms by_id_dispose_channel [OF assms(1)] by (simp add: retired_def)
qed

lemma retired_fold_dispose:
  "mux_ok x \<Longrightarrow> retired ch x \<Longrightarrow> retired ch (fold dispose_channel ids x) \<and>
     channel_heard ch (fold dispose_channel ids x) = channel_heard ch x"
proof (induction ids arbitrary: x)
  case (Cons i ids)
  from Cons.IH [OF mux_ok_dispose_channel [OF Cons.prems(1), of i]] retired_dispose_channel [OF Cons.prems, of i]
  show ?case by simp
qed simp

lemma retired_step:
  assumes ok: "mux_ok x" and r: "retired ch x"
  shows "retired ch (mux_step p x) \<and> channel_heard ch (mux_step p x) = channel_heard ch x"
proof -
  from retired_channel [OF ok r] obtain c
    where c: "jm_get (mx_channels x) ch = Some c" "ch_closed c" "waiting c = []" .
  show ?thesis
  proof (cases p)
    case (MxAdd k)
    from r have "k \<noteq> ch" if "create_channel k x = Inr y" for y
      using that by (auto simp: create_channel_def retired_def split: if_splits)
    then show ?thesis using r MxAdd
      by (auto simp: mux_step_def add_channel_def create_channel_def retired_def channel_heard_def split: sum.split)
  next
    case (MxReceive data)
    then show ?thesis using r
      by (auto simp: mux_step_def mux_receive_def retired_def channel_heard_def split: option.split)
  next
    case (MxListen k l)
    then show ?thesis using r c
      by (auto simp: mux_step_def mux_listen_def retired_def channel_heard_def closed_channel_ops)
  next
    case (MxDisposeChannel k)
    then show ?thesis using retired_dispose_channel [OF ok r] by (simp add: mux_step_def)
  next
    case MxDispose
    have "mux_ok (x\<lparr>mx_disposed := True, mx_listening := False\<rparr>)" "retired ch (x\<lparr>mx_disposed := True, mx_listening := False\<rparr>)"
      using ok r by (simp_all add: mux_ok_def retired_def)
    from retired_fold_dispose [OF this, of "mx_by_id x"] show ?thesis using r
      by (simp add: MxDispose mux_step_def mux_dispose_def retired_def channel_heard_def)
  qed (use r in \<open>auto simp: mux_step_def mux_send_def retired_def channel_heard_def split: option.split\<close>)
qed

text \<open>A channel id is retired for good once its channel is disposed: whatever happens to the multiplexer
  afterwards, no late envelope for it is delivered to anyone under that id, and no channel can be added under
  it again.\<close>

theorem retired_channel_silent:
  assumes "new_mux ids = Inr x0" and "x = mux_run ps x0"
    and "ch \<in> set (mx_used x)" "ch \<notin> set (mx_by_id x)"
  shows "channel_heard ch (mux_run later x) = channel_heard ch x \<and>
    \<not> is_ok (add_channel ch (mux_run later x))"
proof -
  have "mux_ok x" "retired ch x" using new_mux_ok [OF assms(1)] mux_ok_run assms by (simp_all add: retired_def)
  then have "retired ch (mux_run later x) \<and> channel_heard ch (mux_run later x) = channel_heard ch x"
  proof (induction later arbitrary: x)
    case (Cons p later)
    from Cons.IH [OF mux_ok_step [OF Cons.prems(1), of p]] retired_step [OF Cons.prems, of p]
    show ?case by (simp add: mux_run_def)
  qed (simp add: mux_run_def)
  then show ?thesis by (simp add: add_channel_def create_channel_def retired_def)
qed

definition demo_mux :: "json mux" where
  "demo_mux = (case new_mux [''a'', ''b''] of Inr x \<Rightarrow> x | Inl _ \<Rightarrow>
     \<lparr>mx_channels = [], mx_by_id = [], mx_used = [], mx_disposed = False, mx_listening = False, mx_sent = []\<rparr>)"

lemma demo_mux: "new_mux [''a'', ''b''] = Inr demo_mux"
  by (simp add: demo_mux_def new_mux_def create_channel_def)

lemma retired_channel_silent_witness:
  "channel_heard ''a'' (mux_run [MxReceive (Some (''a'', JNull)), MxListen ''a'' On]
     (mux_run [MxDisposeChannel ''a''] demo_mux)) = [] \<and>
   \<not> is_ok (add_channel ''a'' (mux_run [MxReceive (Some (''a'', JNull)), MxListen ''a'' On]
     (mux_run [MxDisposeChannel ''a''] demo_mux)))"
proof -
  have e: "demo_mux = \<lparr>mx_channels = [(''a'', new_channel), (''b'', new_channel)], mx_by_id = [''a'', ''b''],
      mx_used = [''a'', ''b''], mx_disposed = False, mx_listening = True, mx_sent = []\<rparr>"
    by (simp add: demo_mux_def new_mux_def create_channel_def)
  have "channel_heard ''a'' (mux_run [MxDisposeChannel ''a''] demo_mux) = []"
    by (simp add: e mux_run_def mux_step_def dispose_channel_def jm_get_def new_channel_def map_channel_def channel_heard_def)
  moreover have "''a'' \<in> set (mx_used (mux_run [MxDisposeChannel ''a''] demo_mux))"
    "''a'' \<notin> set (mx_by_id (mux_run [MxDisposeChannel ''a''] demo_mux))"
    by (simp_all add: e mux_run_def mux_step_def dispose_channel_def jm_get_def new_channel_def map_channel_def)
  ultimately show ?thesis
    using retired_channel_silent [OF demo_mux refl, of "''a''" "[MxDisposeChannel ''a'']"] by simp
qed

text \<open>Multiplexing is transparent: a sequence of envelopes from the base transport puts on each open
  channel exactly the messages addressed to it, in order, whatever was addressed to others in between.\<close>

theorem mux_demultiplexes:
  assumes "new_mux ids = Inr x0" and "x = mux_run ps x0" and "mx_listening x"
    and "jm_get (mx_channels x) ch = Some c" "ch \<in> set (mx_by_id x)" "inbox_idle c"
  shows "\<exists>c'. jm_get (mx_channels (fold (\<lambda>e. mux_receive (Some e)) envelopes x)) ch = Some c' \<and>
    heard c' @ waiting c' = heard c @ waiting c @ map snd (filter (\<lambda>e. fst e = ch) envelopes)"
proof -
  have "mux_ok x" using new_mux_ok [OF assms(1)] mux_ok_run assms(2) by simp
  with assms(3-) show ?thesis
  proof (induction envelopes arbitrary: x c)
    case (Cons e envelopes)
    let ?x = "mux_receive (Some e) x"
    let ?c = "if fst e = ch then push_or_hear (snd e) c else c"
    have open_c: "\<not> ch_closed c" using Cons.prems by (auto simp: mux_ok_def)
    have ok: "mux_ok ?x" using mux_ok_step [OF Cons.prems(5), of "MxReceive (Some e)"] by (simp add: mux_step_def)
    have "mx_listening ?x" "ch \<in> set (mx_by_id ?x)"
      using Cons.prems by (auto simp: mux_receive_def split: prod.split)
    moreover have "jm_get (mx_channels ?x) ch = Some ?c"
      using Cons.prems open_c by (auto simp: mux_receive_def channel_deliver_def split: prod.split)
    moreover have "inbox_idle ?c" using Cons.prems(4) by (simp add: idle_push_or_hear)
    ultimately have "\<exists>c'. jm_get (mx_channels (fold (\<lambda>e. mux_receive (Some e)) envelopes ?x)) ch = Some c' \<and>
        heard c' @ waiting c' = heard ?c @ waiting ?c @ map snd (filter (\<lambda>e. fst e = ch) envelopes)"
      by (intro Cons.IH ok)
    moreover have "heard ?c @ waiting ?c = heard c @ waiting c @ (if fst e = ch then [snd e] else [])"
      using push_or_hear_log [OF Cons.prems(4)] by simp
    ultimately show ?case by (auto simp flip: append_assoc)
  qed simp
qed

lemma mux_demultiplexes_witness:
  "\<exists>c'. jm_get (mx_channels (fold (\<lambda>e. mux_receive (Some e)) [(''b'', JBool True), (''a'', JNull), (''b'', JNull)]
      (mux_run [] demo_mux))) ''b'' = Some c' \<and>
    heard c' @ waiting c' = heard (new_channel :: json mux_channel) @ waiting (new_channel :: json mux_channel) @
      map snd (filter (\<lambda>e. fst e = ''b'') [(''b'', JBool True), (''a'', JNull), (''b'', JNull)])"
  by (rule mux_demultiplexes [OF demo_mux refl])
    (simp_all add: mux_run_def demo_mux_def new_mux_def create_channel_def inbox_idle_def new_channel_def jm_get_def)

end
