(* ===== verification/Handshake.thy ===== *)
theory Handshake
  imports Transports
begin

text \<open>
  The handshake of \<^verbatim>\<open>transport/initialize.ts\<close>, run on a transport before the channel takes it over.  Each
  side is a state machine: the client asks and waits for one reply, the server reads one request and has
  its token judged.  The events are what the runtime may schedule in any order: a message arrives, the
  client's send runs, the judgement comes back, the timer fires, the signal aborts.  A send that fails is
  not modelled.
\<close>

definition INITIALIZE_METHOD :: string where "INITIALIZE_METHOD = ''hubrpc::initialize''"
definition INITIALIZE_METHOD_ALIAS :: string where "INITIALIZE_METHOD_ALIAS = ''linkrpc::initialize''"
definition INITIALIZE_PROTOCOL_VERSION :: int where "INITIALIZE_PROTOCOL_VERSION = 1"
definition INITIALIZE_REQUEST_ID :: request_id where "INITIALIZE_REQUEST_ID = IdNum (num_of_int 0)"

datatype hs_role = Client "string option" | Server

datatype hs_phase =
    ClientOpen bool "message option"
  | ServerOpen
  | ServerJudging request_id "json option"
  | Finished "json option res"

record handshake = "message inbox" +
  hs_role :: hs_role
  hs_phase :: hs_phase
  hs_to_send :: bool
  hs_out :: "message list"

definition initialize_params :: "string option \<Rightarrow> json" where
  "initialize_params token =
     JObj ((''protocolVersion'', JNum (num_of_int INITIALIZE_PROTOCOL_VERSION)) #
       (case token of Some t \<Rightarrow> [(''token'', JStr t)] | None \<Rightarrow> []))"

definition initialize_request :: "string option \<Rightarrow> message" where
  "initialize_request token = Request INITIALIZE_REQUEST_ID INITIALIZE_METHOD (Some (initialize_params token))"

text \<open>What the client makes of the reply; a notification has no id.\<close>

definition client_finish :: "message \<Rightarrow> json option res" where
  "client_finish m = (case m of
     Success i _ \<Rightarrow>
       if i = Some INITIALIZE_REQUEST_ID then Inr None
       else Inl (JsError ''hubrpc::initialize: unexpected reply to handshake'')
   | Failure i e \<Rightarrow>
       if i = Some INITIALIZE_REQUEST_ID then Inl (JsError (''hubrpc::initialize rejected: '' @ err_message e))
       else Inl (JsError ''hubrpc::initialize: unexpected reply to handshake'')
   | _ \<Rightarrow> Inl (JsError ''hubrpc::initialize: unexpected reply to handshake''))"

definition server_read :: "message \<Rightarrow> (request_id \<times> json option) res" where
  "server_read m = (case m of
     Request i meth params \<Rightarrow>
       if meth \<noteq> INITIALIZE_METHOD \<and> meth \<noteq> INITIALIZE_METHOD_ALIAS then
         Inl (JsError ''hubrpc::initialize: expected initialize as the first message'')
       else Inr (i, case params of Some p \<Rightarrow> field ''token'' p | None \<Rightarrow> None)
   | _ \<Rightarrow> Inl (JsError ''hubrpc::initialize: expected initialize as the first message''))"

definition server_reply :: "bool \<Rightarrow> request_id \<Rightarrow> json option \<Rightarrow> message \<times> json option res" where
  "server_reply accepted i token =
     (if \<not> accepted then
        (Failure (Some i) \<lparr>err_code = ERR_invalidRequest, err_message = ''unauthenticated'', err_data = None\<rparr>,
         Inl (JsError ''hubrpc::initialize: unauthenticated''))
      else (Success (Some i) (JObj [(''protocolVersion'', JNum (num_of_int INITIALIZE_PROTOCOL_VERSION))]),
            Inr token))"

text \<open>\<^verbatim>\<open>Promise.all([sent, reply])\<close>.\<close>

definition client_settle :: "handshake \<Rightarrow> handshake" where
  "client_settle h = (case hs_phase h of
     ClientOpen True (Some m) \<Rightarrow> h\<lparr>hs_phase := Finished (client_finish m)\<rparr>
   | _ \<Rightarrow> h)"

text \<open>The listener of \<^verbatim>\<open>nextMessage\<close> resolves with its message.\<close>

definition hs_resolve :: "message \<Rightarrow> handshake \<Rightarrow> handshake" where
  "hs_resolve m h = (case hs_phase h of
     ClientOpen sent _ \<Rightarrow> client_settle (h\<lparr>hs_phase := ClientOpen sent (Some m)\<rparr>)
   | ServerOpen \<Rightarrow>
       (case server_read m of
          Inl e \<Rightarrow> h\<lparr>hs_phase := Finished (Inl e)\<rparr>
        | Inr (i, token) \<Rightarrow> h\<lparr>hs_phase := ServerJudging i token\<rparr>)
   | _ \<Rightarrow> h)"

definition next_message :: "handshake \<Rightarrow> handshake" where
  "next_message h = (let h' = listen_with Once h in
     case waiting h of [] \<Rightarrow> h' | m # _ \<Rightarrow> hs_resolve m h')"

definition start_handshake :: "hs_role \<Rightarrow> message list \<Rightarrow> handshake" where
  "start_handshake role buffered =
     next_message \<lparr>listener = Off, waiting = buffered, heard = [], hs_role = role,
       hs_phase = (case role of Client _ \<Rightarrow> ClientOpen False None | Server \<Rightarrow> ServerOpen),
       hs_to_send = (case role of Client _ \<Rightarrow> True | Server \<Rightarrow> False), hs_out = []\<rparr>"

datatype hs_event = HsArrive message | HsSend | HsJudged bool | HsTimeout | HsAbort string

definition hs_arrive :: "message \<Rightarrow> handshake \<Rightarrow> handshake" where
  "hs_arrive m h =
     (if listener h = Off then push_or_hear m h else hs_resolve m (push_or_hear m h))"

definition hs_send :: "handshake \<Rightarrow> handshake" where
  "hs_send h =
     (if \<not> hs_to_send h then h
      else (let h' = h\<lparr>hs_to_send := False, hs_out := hs_out h @
                [initialize_request (case hs_role h of Client token \<Rightarrow> token | Server \<Rightarrow> None)]\<rparr> in
        case hs_phase h of
          ClientOpen _ reply \<Rightarrow> client_settle (h'\<lparr>hs_phase := ClientOpen True reply\<rparr>)
        | _ \<Rightarrow> h'))"

definition hs_judged :: "bool \<Rightarrow> handshake \<Rightarrow> handshake" where
  "hs_judged accepted h = (case hs_phase h of
     ServerJudging i token \<Rightarrow>
       (let (reply, result) = server_reply accepted i token in
        h\<lparr>hs_out := hs_out h @ [reply], hs_phase := Finished result\<rparr>)
   | _ \<Rightarrow> h)"

text \<open>The timer runs until the message has come; the abort races with everything.\<close>

definition hs_timeout :: "handshake \<Rightarrow> handshake" where
  "hs_timeout h =
     (if listener h = Off then h
      else h\<lparr>listener := Off, hs_phase := Finished (Inl (JsError ''hubrpc::initialize: handshake timed out''))\<rparr>)"

definition hs_abort :: "string \<Rightarrow> handshake \<Rightarrow> handshake" where
  "hs_abort reason h = (case hs_phase h of
     Finished _ \<Rightarrow> h
   | _ \<Rightarrow> h\<lparr>listener := Off, hs_phase := Finished (Inl (JsError reason))\<rparr>)"

definition hs_step :: "hs_event \<Rightarrow> handshake \<Rightarrow> handshake" where
  "hs_step e h = (case e of
     HsArrive m \<Rightarrow> hs_arrive m h | HsSend \<Rightarrow> hs_send h | HsJudged b \<Rightarrow> hs_judged b h
   | HsTimeout \<Rightarrow> hs_timeout h | HsAbort reason \<Rightarrow> hs_abort reason h)"

definition hs_run :: "hs_event list \<Rightarrow> handshake \<Rightarrow> handshake" where
  "hs_run es h = fold hs_step es h"

section \<open>One message is consumed, the rest is left\<close>

definition hs_arrivals :: "hs_event list \<Rightarrow> message list" where
  "hs_arrivals es = concat (map (\<lambda>e. case e of HsArrive m \<Rightarrow> [m] | _ \<Rightarrow> []) es)"

lemma hs_resolve_inbox [simp]:
  "listener (hs_resolve m h) = listener h" "waiting (hs_resolve m h) = waiting h"
  "heard (hs_resolve m h) = heard h" "hs_out (hs_resolve m h) = hs_out h" "hs_role (hs_resolve m h) = hs_role h"
  by (auto simp: hs_resolve_def client_settle_def split: hs_phase.split sum.split option.split bool.split)

lemma listen_with_once:
  "heard h = [] \<Longrightarrow>
   listen_with Once h = (case waiting h of [] \<Rightarrow> h\<lparr>listener := Once\<rparr>
     | m # ms \<Rightarrow> h\<lparr>listener := Off, heard := [m], waiting := ms\<rparr>)"
  by (cases "waiting h"; cases "tl (waiting h)") (simp_all add: listen_with_def hear_def)

text \<open>The listener is on exactly while nothing has been heard and nobody gave up.\<close>

definition hs_waits :: "handshake \<Rightarrow> bool" where
  "hs_waits h = (hs_phase h = ServerOpen \<or> (\<exists>s. hs_phase h = ClientOpen s None))"

definition hs_reading :: "handshake \<Rightarrow> bool" where
  "hs_reading h = (if listener h = Off then length (heard h) \<le> 1
     else listener h = Once \<and> heard h = [] \<and> waiting h = [] \<and> hs_waits h)"

lemma hs_reading_start: "hs_reading (start_handshake role buffered) \<and>
    heard (start_handshake role buffered) @ waiting (start_handshake role buffered) = buffered"
  by (cases buffered; cases role)
    (auto simp add: start_handshake_def next_message_def listen_with_once hs_reading_def hs_waits_def Let_def)

lemma hs_reading_arrive:
  "hs_reading h \<Longrightarrow> hs_reading (hs_arrive m h) \<and>
    heard (hs_arrive m h) @ waiting (hs_arrive m h) = heard h @ waiting h @ [m]"
  by (auto simp: hs_reading_def hs_arrive_def push_or_hear_def hear_def)

lemma client_settle_inbox [simp]:
  "listener (client_settle h) = listener h" "heard (client_settle h) = heard h"
  "waiting (client_settle h) = waiting h" "hs_out (client_settle h) = hs_out h"
  "hs_role (client_settle h) = hs_role h"
  by (auto simp: client_settle_def split: hs_phase.split option.split bool.split)

lemma hs_send_inbox [simp]:
  "listener (hs_send h) = listener h" "heard (hs_send h) = heard h" "waiting (hs_send h) = waiting h"
  "hs_role (hs_send h) = hs_role h"
  by (auto simp: hs_send_def Let_def split: hs_phase.split)

lemma hs_waits_send: "hs_waits h \<Longrightarrow> hs_waits (hs_send h)"
  by (auto simp: hs_waits_def hs_send_def client_settle_def)

lemma hs_reading_send: "hs_reading h \<Longrightarrow> hs_reading (hs_send h)"
  using hs_waits_send [of h] by (auto simp: hs_reading_def)

lemma hs_reading_judged:
  "hs_reading h \<Longrightarrow> hs_reading (hs_judged b h) \<and> heard (hs_judged b h) = heard h \<and> waiting (hs_judged b h) = waiting h"
  by (cases "hs_phase h"; cases "listener h = Off")
    (auto simp: hs_reading_def hs_judged_def hs_waits_def split: prod.split)

lemma hs_reading_give_up:
  "hs_reading h \<Longrightarrow> hs_reading (hs_timeout h) \<and> heard (hs_timeout h) = heard h \<and> waiting (hs_timeout h) = waiting h"
  "hs_reading h \<Longrightarrow> hs_reading (hs_abort r h) \<and> heard (hs_abort r h) = heard h \<and> waiting (hs_abort r h) = waiting h"
  by (auto simp: hs_reading_def hs_timeout_def hs_abort_def split: hs_phase.split if_splits)

lemma hs_reading_step:
  assumes "hs_reading h"
  shows "hs_reading (hs_step e h) \<and>
    heard (hs_step e h) @ waiting (hs_step e h) = heard h @ waiting h @ hs_arrivals [e]"
  by (cases e) (simp_all add: hs_step_def hs_arrivals_def hs_reading_arrive hs_reading_send hs_reading_judged
    hs_reading_give_up assms)

lemma hs_reading_run:
  assumes "hs_reading h"
  shows "hs_reading (hs_run es h) \<and>
    heard (hs_run es h) @ waiting (hs_run es h) = heard h @ waiting h @ hs_arrivals es"
proof (induction es rule: rev_induct)
  case (snoc e es)
  have "hs_run (es @ [e]) h = hs_step e (hs_run es h)" by (simp add: hs_run_def)
  moreover have "hs_arrivals (es @ [e]) = hs_arrivals es @ hs_arrivals [e]" by (simp add: hs_arrivals_def)
  ultimately show ?case using snoc hs_reading_step [of "hs_run es h" e] by (simp flip: append_assoc)
qed (use assms in \<open>simp add: hs_run_def hs_arrivals_def\<close>)

text \<open>Whatever the order of arrivals, sends, judgements, timeouts and aborts, the handshake takes at most
  one message from the transport, and every other message, before or after it, is still there in order for
  the channel that takes the transport over, which finds no listener left behind once the handshake is over.\<close>

theorem handshake_leaves_rest:
  "(let h = hs_run es (start_handshake role buffered) in
    heard h @ waiting h = buffered @ hs_arrivals es \<and> length (heard h) \<le> 1 \<and>
    (case hs_phase h of Finished _ \<Rightarrow> listener h = Off | _ \<Rightarrow> True))"
  using hs_reading_run [OF conjunct1 [OF hs_reading_start], of es role buffered] hs_reading_start [of role buffered]
  by (auto simp: Let_def hs_reading_def hs_waits_def split: if_splits hs_phase.split)

section \<open>Who is admitted\<close>

definition server_ok :: "bool \<Rightarrow> handshake \<Rightarrow> bool" where
  "server_ok judged h = (\<not> hs_to_send h \<and>
     (case hs_phase h of
        ClientOpen _ _ \<Rightarrow> False
      | ServerOpen \<Rightarrow> listener h = Once \<and> heard h = [] \<and> waiting h = [] \<and> hs_out h = []
      | ServerJudging i token \<Rightarrow> hs_out h = [] \<and> listener h = Off \<and>
          (\<exists>m. heard h = [m] \<and> server_read m = Inr (i, token))
      | Finished (Inl e) \<Rightarrow> listener h = Off \<and> (hs_out h = [] \<or> (\<exists>i token. hs_out h = [fst (server_reply False i token)]))
      | Finished (Inr token) \<Rightarrow> judged \<and> listener h = Off \<and>
          (\<exists>m i. heard h = [m] \<and> server_read m = Inr (i, token) \<and> hs_out h = [fst (server_reply True i token)])))"

lemma server_ok_start: "server_ok False (start_handshake Server buffered)"
  by (cases buffered)
    (auto simp: server_ok_def start_handshake_def next_message_def listen_with_once hs_resolve_def Let_def split: sum.split prod.split)


lemma server_ok_arrive: "server_ok j h \<Longrightarrow> server_ok j (hs_arrive m h)"
  by (cases "hs_phase h")
    (auto simp: server_ok_def hs_arrive_def push_or_hear_def hear_def hs_resolve_def split: sum.splits prod.split)

lemma server_ok_judged: "server_ok j h \<Longrightarrow> server_ok (j \<or> b) (hs_judged b h)"
  by (cases "hs_phase h"; cases b)
    (auto simp: server_ok_def hs_judged_def server_reply_def split: sum.splits)

lemma server_ok_step:
  assumes "server_ok j h"
  shows "server_ok (j \<or> e = HsJudged True) (hs_step e h)"
proof (cases e)
  case (HsArrive m)
  with server_ok_arrive [OF assms] show ?thesis by (simp add: hs_step_def)
next
  case (HsJudged b)
  with server_ok_judged [OF assms, of b] show ?thesis by (cases b) (simp_all add: hs_step_def)
next
  case HsSend
  with assms show ?thesis by (simp add: hs_step_def hs_send_def server_ok_def)
next
  case HsTimeout
  with assms show ?thesis
    by (cases "hs_phase h") (auto simp: hs_step_def hs_timeout_def server_ok_def split: sum.splits)
next
  case (HsAbort r)
  with assms show ?thesis
    by (cases "hs_phase h") (auto simp: hs_step_def hs_abort_def server_ok_def split: sum.splits)
qed

lemma server_ok_run: "server_ok (HsJudged True \<in> set es) (hs_run es (start_handshake Server buffered))"
proof (induction es rule: rev_induct)
  case (snoc e es)
  have "(HsJudged True \<in> set (es @ [e])) = (HsJudged True \<in> set es \<or> e = HsJudged True)" by auto
  with server_ok_step [OF snoc, of e] show ?case by (simp only: hs_run_def fold_append o_apply fold_simps)
qed (simp add: hs_run_def server_ok_start)

lemma server_readD:
  assumes "server_read m = Inr (i, token)"
  obtains meth params where "m = Request i meth params" "meth = INITIALIZE_METHOD \<or> meth = INITIALIZE_METHOD_ALIAS"
    "token = (case params of Some p \<Rightarrow> field ''token'' p | None \<Rightarrow> None)"
  using assms by (cases m) (auto simp: server_read_def split: if_splits)

text \<open>C40: A server's handshake ends in admission only if the very first message was an initialize request,
  under either name, whose token was judged acceptable; the token it reports is that one, and its reply is the
  one success.  Whatever else happened, nothing but at most one refusal was sent.\<close>

theorem handshake_authenticates:
  "(let h = hs_run es (start_handshake Server buffered) in
    case hs_phase h of
      Finished (Inr token) \<Rightarrow> HsJudged True \<in> set es \<and>
        (\<exists>i meth params. heard h = [Request i meth params] \<and>
           (meth = INITIALIZE_METHOD \<or> meth = INITIALIZE_METHOD_ALIAS) \<and>
           token = (case params of Some p \<Rightarrow> field ''token'' p | None \<Rightarrow> None) \<and>
           hs_out h = [fst (server_reply True i token)])
    | _ \<Rightarrow> hs_out h = [] \<or> (\<exists>i token. hs_out h = [fst (server_reply False i token)]))"
  using server_ok_run [of es buffered]
  by (auto simp: server_ok_def Let_def split: hs_phase.splits sum.splits elim!: server_readD)

text \<open>The two ends agree: when a client's request reaches the server, is judged, and the answer comes
  back, both succeed or both fail, and on success the server has the client's token.\<close>

theorem handshake_agrees:
  "(let client = hs_run [HsSend] (start_handshake (Client token) []);
        server = hs_run [HsArrive (hd (hs_out client)), HsJudged accepted] (start_handshake Server []);
        client' = hs_run [HsArrive (hd (hs_out server))] client in
    if accepted then hs_phase server = Finished (Inr (map_option JStr token)) \<and> hs_phase client' = Finished (Inr None)
    else hs_phase server = Finished (Inl (JsError ''hubrpc::initialize: unauthenticated'')) \<and>
      hs_phase client' = Finished (Inl (JsError ''hubrpc::initialize rejected: unauthenticated'')))"
  by (cases token)
    (simp_all add: hs_run_def hs_step_def start_handshake_def next_message_def listen_with_once Let_def hs_send_def
      client_settle_def hs_arrive_def push_or_hear_def hear_def hs_resolve_def server_read_def
      initialize_request_def initialize_params_def hs_judged_def server_reply_def client_finish_def)

end
