(* ===== verification/SigningSender.thy ===== *)
theory SigningSender
  imports Envelope
begin

text \<open>
  The sender that signs every call, \<^verbatim>\<open>identity/signingSender.ts\<close>, and the bag of capabilities it draws
  from, \<^verbatim>\<open>identity/capBag.ts\<close>.  Signing a call takes several turns of the event loop: capabilities are
  looked up, a provider may be asked, the signature is computed; other calls, grants and swaps of the
  principal happen in between.  A call in flight is an entry of the sender's table.  The array of a bag is
  passed by reference and read when it is attached, so a call holds the bag's number, not its contents.
\<close>

section \<open>The capability bag\<close>

record cap_bag =
  cb_caps :: "json list"
  cb_storage :: bool
  cb_key :: string

datatype bag_effect = StorageSet string "json list" | BagWarn string

definition DEFAULT_STORAGE_KEY :: string where
  "DEFAULT_STORAGE_KEY = ''hubrpc.caps.v1''"

definition new_cap_bag :: "bool \<Rightarrow> string option \<Rightarrow> cap_bag" where
  "new_cap_bag storage key = \<lparr>cb_caps = [], cb_storage = storage,
     cb_key = (case key of Some k \<Rightarrow> k | None \<Rightarrow> DEFAULT_STORAGE_KEY)\<rparr>"

definition well_formed_cap :: "json \<Rightarrow> bool" where
  "well_formed_cap cap = (case cap of JObj kvs \<Rightarrow> HUBRPC_SIGNATURE_KEY \<in> fst ` set kvs | _ \<Rightarrow> False)"

text \<open>\<open>persisted\<close> is what the storage answers: an error, nothing, or a value.\<close>

definition cap_bag_hydrate :: "json option res \<Rightarrow> cap_bag \<Rightarrow> cap_bag \<times> bag_effect list" where
  "cap_bag_hydrate persisted bag =
     (if \<not> cb_storage bag then (bag, [])
      else (case persisted of
          Inl (JsError e) \<Rightarrow> (bag, [BagWarn (''failed to read caps from storage: '' @ e)])
        | Inr (Some (JArr caps)) \<Rightarrow>
            (bag\<lparr>cb_caps := cb_caps bag @ filter well_formed_cap caps\<rparr>,
             map (\<lambda>_. BagWarn ''skipping malformed persisted cap'') (filter (\<lambda>c. \<not> well_formed_cap c) caps))
        | _ \<Rightarrow> (bag, [])))"

definition cap_bag_load :: "bool \<Rightarrow> string option \<Rightarrow> json option res \<Rightarrow> cap_bag \<times> bag_effect list" where
  "cap_bag_load storage key persisted = cap_bag_hydrate persisted (new_cap_bag storage key)"

text \<open>\<open>outcome\<close> is what the storage answers to the write.\<close>

definition cap_bag_persist :: "unit res \<Rightarrow> cap_bag \<Rightarrow> bag_effect list" where
  "cap_bag_persist outcome bag =
     (if \<not> cb_storage bag then []
      else StorageSet (cb_key bag) (cb_caps bag) #
        (case outcome of Inl (JsError e) \<Rightarrow> [BagWarn (''failed to persist caps: '' @ e)] | Inr _ \<Rightarrow> []))"

definition cap_bag_add :: "unit res \<Rightarrow> json list \<Rightarrow> cap_bag \<Rightarrow> cap_bag \<times> bag_effect list" where
  "cap_bag_add outcome caps bag =
     (if caps = [] then (bag, [])
      else (let bag' = bag\<lparr>cb_caps := cb_caps bag @ caps\<rparr> in (bag', cap_bag_persist outcome bag')))"

definition cap_bag_clear :: "unit res \<Rightarrow> cap_bag \<Rightarrow> cap_bag \<times> bag_effect list" where
  "cap_bag_clear outcome bag =
     (if cb_caps bag = [] then (bag, [])
      else (let bag' = bag\<lparr>cb_caps := []\<rparr> in (bag', cap_bag_persist outcome bag')))"

section \<open>Calls in flight\<close>

text \<open>An array of capabilities: a bag's own, read when used, or one nobody changes.\<close>

datatype caps_ref = OfBag nat | Fixed "json list"

datatype signer_override = Inherit | Unsigned | Override signing_identity

record call_request =
  rq_method :: string
  rq_params :: "json option"
  rq_interfaceHash :: "string option"
  rq_signer :: signer_override
  rq_caps :: "json list option"

record call_intent =
  in_method :: string
  in_params :: "json option"
  in_interfaceHash :: "string option"
  in_signedAtMs :: jsnum

record provided =
  pv_capabilities :: "caps_ref option"
  pv_method :: "string option"
  pv_params :: "json option"
  pv_interfaceHash :: "string option"
  pv_signedAtMs :: "jsnum option"

record provider_question =
  pq_intent :: call_intent
  pq_signer :: string
  pq_nonce :: string

datatype call_stage =
    Plain string "json option"
  | Asking call_intent signing_identity bytes caps_ref
  | Signing call_intent signing_identity bytes caps_ref

record sender =
  sd_bags :: "(nat \<times> cap_bag) list"
  sd_principal :: "(signing_identity \<times> nat) option"
  sd_provider :: bool
  sd_staged :: "json list option"
  sd_calls :: "(nat \<times> call_stage) list"

datatype sender_out =
    AskProvider nat provider_question
  | SendOut nat string "json option"
  | CallFailed nat js_error

definition bag_caps :: "sender \<Rightarrow> caps_ref \<Rightarrow> json list" where
  "bag_caps s r = (case r of
     Fixed caps \<Rightarrow> caps
   | OfBag b \<Rightarrow> (case jm_get (sd_bags s) b of Some bag \<Rightarrow> cb_caps bag | None \<Rightarrow> []))"

definition one_shot_stage :: "json list \<Rightarrow> sender \<Rightarrow> sender" where
  "one_shot_stage caps s =
     s\<lparr>sd_staged := (case sd_staged s of Some _ \<Rightarrow> Some caps | None \<Rightarrow> None)\<rparr>"

definition one_shot_take :: "sender \<Rightarrow> json list \<times> sender" where
  "one_shot_take s = (case sd_staged s of
     Some caps \<Rightarrow> (caps, s\<lparr>sd_staged := Some []\<rparr>) | None \<Rightarrow> ([], s))"

definition resolve_signer :: "sender \<Rightarrow> call_request \<Rightarrow> signing_identity option" where
  "resolve_signer s rq = (case rq_signer rq of
     Unsigned \<Rightarrow> None | Override idn \<Rightarrow> Some idn | Inherit \<Rightarrow> map_option fst (sd_principal s))"

text \<open>The capabilities a call starts out with, before a provider is asked.\<close>

definition initial_caps :: "sender \<Rightarrow> caps_ref \<times> sender" where
  "initial_caps s =
     (let persistent = (case sd_principal s of Some (_, b) \<Rightarrow> OfBag b | None \<Rightarrow> Fixed []);
          (one_shot, s') = one_shot_take s in
      (if one_shot \<noteq> [] then Fixed (bag_caps s persistent @ one_shot) else persistent, s'))"

text \<open>The part of \<^verbatim>\<open>_prepareOutbound\<close> that runs inside the call, with the nonce and the clock it reads.\<close>

definition sender_call :: "nat \<Rightarrow> call_request \<Rightarrow> bytes \<Rightarrow> jsnum \<Rightarrow> sender \<Rightarrow> sender \<times> sender_out list" where
  "sender_call i rq nonce now s = (case resolve_signer s rq of
     None \<Rightarrow> (s\<lparr>sd_calls := jm_set (sd_calls s) i (Plain (rq_method rq) (rq_params rq))\<rparr>, [])
   | Some signer \<Rightarrow>
       (let intent = \<lparr>in_method = rq_method rq, in_params = rq_params rq,
              in_interfaceHash = rq_interfaceHash rq, in_signedAtMs = now\<rparr> in
        case rq_caps rq of
          Some caps \<Rightarrow> (s\<lparr>sd_calls := jm_set (sd_calls s) i (Signing intent signer nonce (Fixed caps))\<rparr>, [])
        | None \<Rightarrow>
            (let (caps, s') = initial_caps s in
             if sd_provider s then
               (s'\<lparr>sd_calls := jm_set (sd_calls s') i (Asking intent signer nonce caps)\<rparr>,
                [AskProvider i \<lparr>pq_intent = intent, pq_signer = si_principal signer,
                   pq_nonce = bytes_to_base64url nonce\<rparr>])
             else (s'\<lparr>sd_calls := jm_set (sd_calls s') i (Signing intent signer nonce caps)\<rparr>, []))))"

definition override_with :: "'a option \<Rightarrow> 'a \<Rightarrow> 'a" where
  "override_with new old = (case new of Some v \<Rightarrow> v | None \<Rightarrow> old)"

definition apply_provided :: "provided \<Rightarrow> call_intent \<Rightarrow> call_intent" where
  "apply_provided p intent =
     \<lparr>in_method = override_with (pv_method p) (in_method intent),
      in_params = (case pv_params p of Some v \<Rightarrow> Some v | None \<Rightarrow> in_params intent),
      in_interfaceHash = (case pv_interfaceHash p of Some h \<Rightarrow> Some h | None \<Rightarrow> in_interfaceHash intent),
      in_signedAtMs = override_with (pv_signedAtMs p) (in_signedAtMs intent)\<rparr>"

definition sender_provided :: "nat \<Rightarrow> provided res \<Rightarrow> sender \<Rightarrow> sender \<times> sender_out list" where
  "sender_provided i answer s = (case jm_get (sd_calls s) i of
     Some (Asking intent signer nonce caps) \<Rightarrow>
       (case answer of
          Inl e \<Rightarrow> (s\<lparr>sd_calls := jm_delete (sd_calls s) i\<rparr>, [CallFailed i e])
        | Inr p \<Rightarrow> (s\<lparr>sd_calls := jm_set (sd_calls s) i
            (Signing (apply_provided p intent) signer nonce (override_with (pv_capabilities p) caps))\<rparr>, []))
   | _ \<Rightarrow> (s, []))"

definition sign_intent :: "call_intent \<Rightarrow> signing_identity \<Rightarrow> bytes \<Rightarrow> sign_opts" where
  "sign_intent intent signer nonce =
     \<lparr>so_method = in_method intent, so_params = in_params intent, so_identity = signer,
      so_nowMs = in_signedAtMs intent, so_nonce = nonce, so_interfaceHash = in_interfaceHash intent\<rparr>"

text \<open>The end of preparing a call: the capabilities are read here, and the call goes to the inner sender.\<close>

definition sender_continue :: "nat \<Rightarrow> sender \<Rightarrow> sender \<times> sender_out list" where
  "sender_continue i s = (case jm_get (sd_calls s) i of
     Some (Plain meth params) \<Rightarrow> (s\<lparr>sd_calls := jm_delete (sd_calls s) i\<rparr>, [SendOut i meth params])
   | Some (Signing intent signer nonce caps) \<Rightarrow>
       (s\<lparr>sd_calls := jm_delete (sd_calls s) i\<rparr>,
        (case sign_rpc_call (sign_intent intent signer nonce) of
           Inl e \<Rightarrow> [CallFailed i e]
         | Inr c \<Rightarrow>
             [SendOut i (in_method intent)
                (Some (if bag_caps s caps \<noteq> [] then attach_capabilities (sr_wireParams c) (bag_caps s caps)
                       else sr_wireParams c))]))
   | _ \<Rightarrow> (s, []))"

text \<open>The configuration is mutable: its principal, its provider and the holder of its one-shot capabilities may
  be exchanged at any time.\<close>

datatype sender_event =
    Call nat call_request bytes jsnum
  | Provided nat "provided res"
  | Continue nat
  | StageCaps "json list"
  | BagAdd nat "json list"
  | BagClear nat
  | Install "(signing_identity \<times> nat) option"
  | SetProvider bool
  | SetOneShot "json list option"

definition on_bag :: "nat \<Rightarrow> (cap_bag \<Rightarrow> cap_bag \<times> bag_effect list) \<Rightarrow> sender \<Rightarrow> sender" where
  "on_bag b f s = (case jm_get (sd_bags s) b of
     Some bag \<Rightarrow> s\<lparr>sd_bags := jm_set (sd_bags s) b (fst (f bag))\<rparr> | None \<Rightarrow> s)"

definition sender_step :: "sender_event \<Rightarrow> sender \<Rightarrow> sender \<times> sender_out list" where
  "sender_step e s = (case e of
     Call i rq nonce now \<Rightarrow> sender_call i rq nonce now s
   | Provided i answer \<Rightarrow> sender_provided i answer s
   | Continue i \<Rightarrow> sender_continue i s
   | StageCaps caps \<Rightarrow> (one_shot_stage caps s, [])
   | BagAdd b caps \<Rightarrow> (on_bag b (cap_bag_add (Inr ()) caps) s, [])
   | BagClear b \<Rightarrow> (on_bag b (cap_bag_clear (Inr ())) s, [])
   | Install p \<Rightarrow> (s\<lparr>sd_principal := p\<rparr>, [])
   | SetProvider b \<Rightarrow> (s\<lparr>sd_provider := b\<rparr>, [])
   | SetOneShot staged \<Rightarrow> (s\<lparr>sd_staged := staged\<rparr>, []))"

fun sender_run :: "sender_event list \<Rightarrow> sender \<Rightarrow> sender \<times> sender_out list" where
  "sender_run [] s = (s, [])"
| "sender_run (e # es) s =
     (let (s', out) = sender_step e s; (s'', outs) = sender_run es s' in (s'', out @ outs))"

section \<open>Calls keep to themselves\<close>

definition about :: "sender_event \<Rightarrow> nat option" where
  "about e = (case e of Call i _ _ _ \<Rightarrow> Some i | Provided i _ \<Rightarrow> Some i | Continue i \<Rightarrow> Some i | _ \<Rightarrow> None)"

lemma initial_caps_simps [simp]:
  "sd_calls (snd (initial_caps s)) = sd_calls s" "sd_bags (snd (initial_caps s)) = sd_bags s"
  "sd_provider (snd (initial_caps s)) = sd_provider s" "sd_principal (snd (initial_caps s)) = sd_principal s"
  by (simp_all add: initial_caps_def one_shot_take_def Let_def split: option.split)

lemma calls_frame: "about e \<noteq> Some i \<Longrightarrow> jm_get (sd_calls (fst (sender_step e s))) i = jm_get (sd_calls s) i"
  by (cases e)
    (auto simp: about_def sender_step_def sender_call_def sender_provided_def sender_continue_def
      one_shot_stage_def on_bag_def Let_def case_prod_beta split: option.split call_stage.split sum.split)

lemma calls_frame_run:
  "\<forall>e\<in>set es. about e \<noteq> Some i \<Longrightarrow> jm_get (sd_calls (fst (sender_run es s))) i = jm_get (sd_calls s) i"
proof (induction es arbitrary: s)
  case (Cons e es)
  then show ?case using calls_frame [of e i s] by (simp add: case_prod_beta)
qed simp

definition call_caps :: "call_request \<Rightarrow> sender \<Rightarrow> caps_ref" where
  "call_caps rq s = (case rq_caps rq of Some caps \<Rightarrow> Fixed caps | None \<Rightarrow> fst (initial_caps s))"

lemma sender_continue_signed:
  assumes "jm_get (sd_calls s) i = Some (Signing intent signer nonce r)"
    and "sign_rpc_call (sign_intent intent signer nonce) = Inr c"
  shows "snd (sender_continue i s) =
    [SendOut i (in_method intent) (Some (attach_capabilities (sr_wireParams c) (bag_caps s r)))]"
proof -
  have "(if caps \<noteq> [] then attach_capabilities w caps else w) = attach_capabilities w caps" for caps w
    by (simp add: attach_capabilities_def)
  then show ?thesis by (simp only: sender_continue_def assms option.case call_stage.case sum.case snd_conv)
qed

text \<open>The capabilities a call is due: those it asked for; else those the provider answered with; else what the
  bag of its principal holds when the call goes out, or, when one-shot capabilities were staged for it, what the
  bag held when it was made and the staged ones.\<close>

definition bag_now :: "sender \<Rightarrow> sender \<Rightarrow> json list" where
  "bag_now s s1 = (case sd_principal s of Some (_, b) \<Rightarrow> bag_caps s1 (OfBag b) | None \<Rightarrow> [])"

definition caps_due :: "call_request \<Rightarrow> provided option \<Rightarrow> sender \<Rightarrow> sender \<Rightarrow> json list" where
  "caps_due rq answer s s1 = (case rq_caps rq of
     Some caps \<Rightarrow> caps
   | None \<Rightarrow> (case (case answer of Some p \<Rightarrow> pv_capabilities p | None \<Rightarrow> None) of
       Some r \<Rightarrow> bag_caps s1 r
     | None \<Rightarrow> (case sd_staged s of
         Some (c # cs) \<Rightarrow> bag_now s s @ c # cs
       | _ \<Rightarrow> bag_now s s1)))"

definition asks_provider :: "call_request \<Rightarrow> sender \<Rightarrow> bool" where
  "asks_provider rq s \<longleftrightarrow> rq_caps rq = None \<and> sd_provider s"

definition first_intent :: "call_request \<Rightarrow> jsnum \<Rightarrow> call_intent" where
  "first_intent rq now = \<lparr>in_method = rq_method rq, in_params = rq_params rq,
     in_interfaceHash = rq_interfaceHash rq, in_signedAtMs = now\<rparr>"

definition final_intent :: "call_request \<Rightarrow> jsnum \<Rightarrow> provided option \<Rightarrow> call_intent" where
  "final_intent rq now answer = (case answer of
     Some p \<Rightarrow> apply_provided p (first_intent rq now) | None \<Rightarrow> first_intent rq now)"

lemma sender_run_append: "fst (sender_run (es @ fs) s) = fst (sender_run fs (fst (sender_run es s)))"
  by (induction es arbitrary: s) (simp_all add: case_prod_beta)

lemma sender_call_asks:
  assumes "resolve_signer s rq = Some signer" "asks_provider rq s"
  shows "jm_get (sd_calls (fst (sender_call i rq nonce now s))) i =
    Some (Asking (first_intent rq now) signer nonce (fst (initial_caps s)))"
  using assms by (simp add: sender_call_def asks_provider_def first_intent_def case_prod_beta Let_def)

lemma sender_call_signs:
  assumes "resolve_signer s rq = Some signer" "\<not> asks_provider rq s"
  shows "jm_get (sd_calls (fst (sender_call i rq nonce now s))) i =
    Some (Signing (first_intent rq now) signer nonce (call_caps rq s))"
  using assms
  by (auto simp: sender_call_def asks_provider_def first_intent_def call_caps_def case_prod_beta Let_def split: option.split)

text \<open>Where a call stands once the provider, if it is asked, has answered.\<close>

lemma stage_when_ready:
  assumes "resolve_signer s rq = Some signer" "\<forall>e\<in>set (pre @ post). about e \<noteq> Some i"
    and "answer = None \<longleftrightarrow> \<not> asks_provider rq s"
    and "mid = pre @ (case answer of Some p \<Rightarrow> [Provided i (Inr p)] | None \<Rightarrow> []) @ post"
    and "s1 = fst (sender_run (Call i rq nonce now # mid) s)"
  shows "\<exists>r. jm_get (sd_calls s1) i = Some (Signing (final_intent rq now answer) signer nonce r) \<and>
    bag_caps s1 r = caps_due rq answer s s1"
proof -
  let ?s0 = "fst (sender_call i rq nonce now s)"
  let ?sm = "fst (sender_run pre ?s0)"
  have f1: "jm_get (sd_calls ?sm) i = jm_get (sd_calls ?s0) i"
    and f2: "jm_get (sd_calls (fst (sender_run post t))) i = jm_get (sd_calls t) i" for t
    using assms(2) by (auto intro!: calls_frame_run)
  have initial: "bag_caps s1 (fst (initial_caps s)) =
      (case sd_staged s of Some (c # cs) \<Rightarrow> bag_now s s @ c # cs | _ \<Rightarrow> bag_now s s1)"
    by (auto simp: initial_caps_def one_shot_take_def bag_now_def bag_caps_def Let_def split: option.split list.split)
  show ?thesis
  proof (cases answer)
    case None
    then have "jm_get (sd_calls s1) i = Some (Signing (first_intent rq now) signer nonce (call_caps rq s))"
      using sender_call_signs [OF assms(1)] assms(3) f1 f2
      by (simp add: assms(4,5) sender_step_def case_prod_beta sender_run_append)
    moreover have "bag_caps s1 (call_caps rq s) = caps_due rq answer s s1"
      using initial None by (simp add: call_caps_def caps_due_def bag_caps_def split: option.split)
    ultimately show ?thesis by (simp add: None final_intent_def)
  next
    case (Some p)
    then have a: "asks_provider rq s" using assms(3) by simp
    have "jm_get (sd_calls s1) i = Some (Signing (apply_provided p (first_intent rq now)) signer nonce
        (override_with (pv_capabilities p) (fst (initial_caps s))))"
      using sender_call_asks [OF assms(1) a] f1 f2
      by (simp add: assms(4,5) Some sender_step_def case_prod_beta sender_run_append sender_provided_def)
    moreover have "bag_caps s1 (override_with (pv_capabilities p) (fst (initial_caps s))) = caps_due rq answer s s1"
      using initial a by (simp add: Some override_with_def caps_due_def asks_provider_def split: option.split)
    ultimately show ?thesis by (simp add: Some final_intent_def)
  qed
qed

text \<open>C12: A call with an object of parameters, none of a reserved name, is signed by the identity its sender had when it was made, whatever principal or provider is
  installed, whatever capabilities are granted, dropped or staged and whatever other calls are made before its
  signature is ready.  It goes out as the caller wrote it, with the changes a provider answered with when one was
  asked, and the receiver's check gives back these parameters and the capabilities it is due: those the caller
  asked for, else those of the provider's answer, else what the bag holds when the call goes out, or what the bag
  held when the call was made and the one-shot capabilities staged for it.\<close>

theorem sender_signs_for_caller:
  assumes "resolve_signer s rq = Some signer" "\<forall>e\<in>set (pre @ post). about e \<noteq> Some i"
    and "answer = None \<longleftrightarrow> \<not> asks_provider rq s"
    and "mid = pre @ (case answer of Some p \<Rightarrow> [Provided i (Inr p)] | None \<Rightarrow> []) @ post"
    and "s1 = fst (sender_run (Call i rq nonce now # mid) s)" "intent = final_intent rq now answer"
    and "holds_key verify signer pk" "in_params intent = Some (JObj user)" "user_params_ok user"
    and "num_finite (in_signedAtMs intent)" "\<not> skew < num_abs (num_sub (in_signedAtMs intent) later)"
  shows "\<exists>meta hash p. snd (sender_continue i s1) = [SendOut i (in_method intent) (Some p)] \<and>
    cm_nonce meta = bytes_to_base64url nonce \<and>
    verify_rpc_call verify \<lparr>vo_wireMethod = in_method intent, vo_wireParams = Some p, vo_nowMs = later,
        vo_maxSkewMs = Some skew, vo_requireSigned = req\<rparr> =
      Inr (RpcOk (Some \<lparr>ci_callMeta = meta, ci_signer = si_principal signer, ci_callHash = hash,
          ci_capabilities = caps_due rq answer s s1\<rparr>) (Some (JObj user)))"
proof -
  define opts where "opts = sign_intent intent signer nonce"
  define caps where "caps = caps_due rq answer s s1"
  obtain r where stage: "jm_get (sd_calls s1) i = Some (Signing intent signer nonce r)" and r: "bag_caps s1 r = caps"
    using stage_when_ready [OF assms(1-5)] unfolding assms(6) caps_def by blast
  have o: "so_identity opts = signer" "so_params opts = Some (JObj user)" "so_nowMs opts = in_signedAtMs intent"
    "so_method opts = in_method intent" "so_nonce opts = nonce"
    by (simp_all add: opts_def sign_intent_def assms(8))
  define vo where "vo w = \<lparr>vo_wireMethod = in_method intent, vo_wireParams = Some w, vo_nowMs = later,
    vo_maxSkewMs = Some skew, vo_requireSigned = req\<rparr>" for w
  have v: "vo_wireMethod (vo w) = so_method opts" "\<not> max_skew (vo w) < num_abs (num_sub (so_nowMs opts) (vo_nowMs (vo w)))" for w
    using assms(11) by (simp_all add: vo_def o max_skew_def)
  have hk: "holds_key verify (so_identity opts) pk" "num_finite (so_nowMs opts)" using assms(7,10) by (simp_all add: o)
  obtain c where c: "sign_rpc_call opts = Inr c" "sr_callMeta c = call_meta_for opts"
    using sign_rpc_call_ok [OF hk(1) o(2) assms(9) hk(2)] by blast
  have out: "snd (sender_continue i s1) = [SendOut i (in_method intent) (Some (attach_capabilities (sr_wireParams c) caps))]"
    using sender_continue_signed [OF stage, of c] c(1) by (simp only: opts_def r)
  from sign_verify_rpc [OF hk(1) o(2) assms(9) hk(2) v, of "attach_capabilities (sr_wireParams c) caps" caps] c(1)
  have "verify_rpc_call verify (vo (attach_capabilities (sr_wireParams c) caps)) =
      Inr (RpcOk (Some \<lparr>ci_callMeta = sr_callMeta c, ci_signer = si_principal signer,
          ci_callHash = sr_callHash c, ci_capabilities = caps\<rparr>) (Some (JObj user)))"
    by (simp add: vo_def o)
  moreover have "cm_nonce (sr_callMeta c) = bytes_to_base64url nonce" by (simp add: c(2) call_meta_for_def o)
  ultimately show ?thesis using out unfolding vo_def caps_def by blast
qed

definition demo_sender :: sender where
  "demo_sender = \<lparr>sd_bags = [(0, \<lparr>cb_caps = [], cb_storage = False, cb_key = ''k''\<rparr>)],
     sd_principal = Some (demo_identity 7, 0), sd_provider = False, sd_staged = None, sd_calls = []\<rparr>"

definition demo_call_request :: call_request where
  "demo_call_request = \<lparr>rq_method = ''s::i::m'', rq_params = Some (JObj [(''x'', JNull)]), rq_interfaceHash = None,
     rq_signer = Inherit, rq_caps = None\<rparr>"

lemma sender_signs_for_caller_witness:
  "\<exists>meta hash p.
    snd (sender_continue 1 (fst (sender_run [Call 1 demo_call_request [1] (Dec 5 0), BagAdd 0 [JNull], Install None]
      (demo_sender\<lparr>sd_staged := Some [JBool True]\<rparr>)))) = [SendOut 1 ''s::i::m'' (Some p)] \<and>
    cm_nonce meta = bytes_to_base64url [1] \<and>
    verify_rpc_call demo_verify \<lparr>vo_wireMethod = ''s::i::m'', vo_wireParams = Some p, vo_nowMs = Dec 6 0,
        vo_maxSkewMs = Some (Dec 3 1), vo_requireSigned = True\<rparr> =
      Inr (RpcOk (Some \<lparr>ci_callMeta = meta, ci_signer = si_principal (demo_identity 7), ci_callHash = hash,
          ci_capabilities = [JBool True]\<rparr>) (Some (JObj [(''x'', JNull)])))"
proof -
  let ?s = "demo_sender\<lparr>sd_staged := Some [JBool True]\<rparr>"
  let ?mid = "[BagAdd 0 [JNull], Install None]"
  have rs: "resolve_signer ?s demo_call_request = Some (demo_identity 7)" "None = None \<longleftrightarrow> \<not> asks_provider demo_call_request ?s"
    by (simp_all add: resolve_signer_def asks_provider_def demo_sender_def demo_call_request_def)
  have i: "in_params (final_intent demo_call_request (Dec 5 0) None) = Some (JObj [(''x'', JNull)])"
    "num_finite (in_signedAtMs (final_intent demo_call_request (Dec 5 0) None))"
    "in_method (final_intent demo_call_request (Dec 5 0) None) = ''s::i::m''"
    "in_signedAtMs (final_intent demo_call_request (Dec 5 0) None) = Dec 5 0"
    by (simp_all add: final_intent_def first_intent_def demo_call_request_def num_finite_def)
  have skew: "\<not> Dec 3 1 < num_abs (num_sub (Dec 5 0) (Dec 6 0))" by code_simp
  have mid: "\<forall>e\<in>set (?mid @ []). about e \<noteq> Some 1" by (simp add: about_def)
  have due: "caps_due demo_call_request None ?s t = [JBool True]" for t
    by (simp add: caps_due_def bag_now_def bag_caps_def demo_sender_def demo_call_request_def jm_get_def)
  have eq: "?mid = ?mid @ (case None of Some p \<Rightarrow> [Provided 1 (Inr p)] | None \<Rightarrow> []) @ []" by simp
  note inst = sender_signs_for_caller [where s = "?s" and rq = demo_call_request and signer = "demo_identity 7" and i = 1
      and pre = "?mid" and post = "[]" and answer = None and mid = "?mid" and nonce = "[1]" and now = "Dec 5 0"
      and verify = demo_verify and pk = "[7]" and user = "[(''x'', JNull)]" and skew = "Dec 3 1" and later = "Dec 6 0" and req = True]
  note t1 = inst [OF rs(1) mid rs(2) eq refl refl demo_holds_key i(1) demo_user_ok i(2)]
  from t1 [unfolded i(4), OF skew] show ?thesis unfolding due i(3) .
qed

section \<open>One-shot capabilities\<close>

definition takes :: "call_request \<Rightarrow> sender \<Rightarrow> bool" where
  "takes rq s = (resolve_signer s rq \<noteq> None \<and> rq_caps rq = None)"

text \<open>The batches calls took in a run, and the batches staged in it.\<close>

fun run_taken :: "sender_event list \<Rightarrow> sender \<Rightarrow> json list list" where
  "run_taken [] s = []"
| "run_taken (e # es) s =
     (case e of
        Call i rq _ _ \<Rightarrow> if takes rq s \<and> fst (one_shot_take s) \<noteq> [] then [fst (one_shot_take s)] else []
      | _ \<Rightarrow> []) @ run_taken es (fst (sender_step e s))"

definition staged_in :: "sender_event list \<Rightarrow> json list list" where
  "staged_in es = concat (map (\<lambda>e. case e of StageCaps caps \<Rightarrow> [caps] | SetOneShot (Some caps) \<Rightarrow> [caps] | _ \<Rightarrow> []) es)"

definition pending_batch :: "sender \<Rightarrow> json list list" where
  "pending_batch s = (case sd_staged s of Some caps \<Rightarrow> if caps = [] then [] else [caps] | None \<Rightarrow> [])"

lemma staged_after_call:
  "sd_staged (fst (sender_call i rq nonce now s)) =
     (if takes rq s then map_option (\<lambda>_. []) (sd_staged s) else sd_staged s)"
  by (auto simp: sender_call_def takes_def initial_caps_def one_shot_take_def Let_def split: option.split)

lemma staged_unchanged:
  "(\<forall>i rq nonce now. e \<noteq> Call i rq nonce now) \<Longrightarrow> (\<forall>caps. e \<noteq> StageCaps caps) \<Longrightarrow>
   (\<forall>staged. e \<noteq> SetOneShot staged) \<Longrightarrow>
   sd_staged (fst (sender_step e s)) = sd_staged s"
  by (cases e)
    (auto simp: sender_step_def sender_provided_def sender_continue_def on_bag_def
      split: option.split call_stage.split sum.split)

lemma taken_subseq: "subseq (run_taken es s) (pending_batch s @ staged_in es)"
proof (induction es arbitrary: s)
  case (Cons e es)
  note IH = Cons.IH [of "fst (sender_step e s)"]
  show ?case
  proof (cases e)
    case (Call i rq nonce now)
    have st: "staged_in (e # es) = staged_in es" by (simp add: staged_in_def Call)
    have sd: "sd_staged (fst (sender_step e s)) = (if takes rq s then map_option (\<lambda>_. []) (sd_staged s) else sd_staged s)"
      by (simp add: Call sender_step_def staged_after_call)
    show ?thesis
    proof (cases "takes rq s")
      case True
      then have "pending_batch (fst (sender_step e s)) = []"
        using sd by (cases "sd_staged s") (simp_all add: pending_batch_def)
      moreover have "run_taken (e # es) s = pending_batch s @ run_taken es (fst (sender_step e s))"
        using True by (cases "sd_staged s") (auto simp: Call pending_batch_def one_shot_take_def)
      ultimately show ?thesis
        using IH list_emb_append_mono [OF subseq_order.refl, of _ _ "pending_batch s"] by (simp add: st)
    next
      case False
      then show ?thesis using IH sd by (simp add: Call st [unfolded Call] pending_batch_def)
    qed
  next
    case (StageCaps caps)
    have "pending_batch (fst (sender_step e s)) = (if sd_staged s = None \<or> caps = [] then [] else [caps])"
      by (simp add: StageCaps sender_step_def one_shot_stage_def pending_batch_def split: option.split)
    then have "subseq (run_taken es (fst (sender_step e s))) ([caps] @ staged_in es)"
      using IH by (auto split: if_splits)
    then have "subseq (run_taken es (fst (sender_step e s))) (pending_batch s @ [caps] @ staged_in es)"
      by (rule subseq_order.trans) (rule subseq_drop_many [OF subseq_order.refl])
    then show ?thesis by (simp add: StageCaps staged_in_def)
  next
    case (SetOneShot staged)
    have "pending_batch (fst (sender_step e s)) = (case staged of Some caps \<Rightarrow> if caps = [] then [] else [caps] | None \<Rightarrow> [])"
      by (simp add: SetOneShot sender_step_def pending_batch_def)
    then have "subseq (run_taken es (fst (sender_step e s))) (staged_in [e] @ staged_in es)"
      using IH by (auto simp: SetOneShot staged_in_def split: option.splits if_splits)
    then have "subseq (run_taken es (fst (sender_step e s))) (pending_batch s @ staged_in [e] @ staged_in es)"
      by (rule subseq_order.trans) (rule subseq_drop_many [OF subseq_order.refl])
    then show ?thesis by (simp add: SetOneShot staged_in_def)
  qed (use IH staged_unchanged [of e s] in \<open>simp_all add: staged_in_def pending_batch_def\<close>)
qed (simp add: staged_in_def)

text \<open>A staged batch of one-shot capabilities is taken by at most one call, the next that is signed and
  brings no capabilities of its own; batches are taken in the order they were staged, and a batch staged over
  another replaces it.\<close>

theorem one_shot_spent_once:
  "subseq (run_taken es s) (pending_batch s @ staged_in es) \<and>
   sd_staged (fst (sender_call i rq nonce now s)) =
     (if takes rq s then map_option (\<lambda>_. []) (sd_staged s) else sd_staged s)"
  using taken_subseq [of es s] by (simp add: staged_after_call)

text \<open>C18: Where a capability provider answers with capabilities, a staged one-shot batch is spent without ever
  being attached: the call goes out with the provider's capabilities alone, and the batch is gone.\<close>

theorem one_shot_lost_to_provider:
  assumes "takes rq s" "sd_provider s" "sd_staged s = Some batch" "batch \<noteq> []"
    and "pv_capabilities p = Some (Fixed caps)" "pv_method p = None"
    and "s' = fst (sender_run [Call i rq nonce now, Provided i (Inr p)] s)"
  shows "sd_staged s' = Some [] \<and>
    (\<exists>intent signer. jm_get (sd_calls s') i = Some (Signing intent signer nonce (Fixed caps)) \<and>
       in_method intent = rq_method rq)"
proof -
  from assms(1) obtain signer where r: "resolve_signer s rq = Some signer" "rq_caps rq = None"
    by (auto simp: takes_def)
  have "sd_staged (fst (sender_call i rq nonce now s)) = Some []"
    using assms(1,3) by (simp add: staged_after_call)
  moreover obtain intent c where "jm_get (sd_calls (fst (sender_call i rq nonce now s))) i = Some (Asking intent signer nonce c)"
    "in_method intent = rq_method rq"
    using r assms(2) by (simp add: sender_call_def case_prod_beta Let_def)
  ultimately show ?thesis using assms(5,6)
    by (simp add: assms(7) case_prod_beta sender_step_def sender_provided_def apply_provided_def override_with_def)
qed

lemma one_shot_lost_to_provider_witness:
  "sd_staged (fst (sender_run [Call 1 demo_call_request [1] (Dec 5 0),
      Provided 1 (Inr \<lparr>pv_capabilities = Some (Fixed [JNull]), pv_method = None, pv_params = None,
        pv_interfaceHash = None, pv_signedAtMs = None\<rparr>)]
      (demo_sender\<lparr>sd_provider := True, sd_staged := Some [JBool True]\<rparr>))) = Some []"
proof -
  have "takes demo_call_request (demo_sender\<lparr>sd_provider := True, sd_staged := Some [JBool True]\<rparr>)"
    by (simp add: takes_def resolve_signer_def demo_call_request_def demo_sender_def)
  from one_shot_lost_to_provider [OF this, where batch = "[JBool True]" and i = 1 and nonce = "[1]" and now = "Dec 5 0"
      and p = "\<lparr>pv_capabilities = Some (Fixed [JNull]), pv_method = None, pv_params = None,
        pv_interfaceHash = None, pv_signedAtMs = None\<rparr>" and caps = "[JNull]", OF _ _ _ _ _ refl]
  show ?thesis by simp
qed

section \<open>Every call comes to one end\<close>

definition ends_of :: "nat \<Rightarrow> sender_out list \<Rightarrow> nat" where
  "ends_of i outs = length (filter (\<lambda>x. case x of SendOut k _ _ \<Rightarrow> k = i | CallFailed k _ \<Rightarrow> k = i | AskProvider _ _ \<Rightarrow> False) outs)"

definition in_flight :: "nat \<Rightarrow> sender \<Rightarrow> nat" where
  "in_flight i s = (if jm_get (sd_calls s) i = None then 0 else 1)"

definition calls_made :: "sender_event list \<Rightarrow> nat list" where
  "calls_made es = concat (map (\<lambda>e. case e of Call i _ _ _ \<Rightarrow> [i] | _ \<Rightarrow> []) es)"

lemma sender_step_ends:
  assumes "\<forall>k\<in>set (calls_made [e]). jm_get (sd_calls s) k = None"
  shows "ends_of i (snd (sender_step e s)) + in_flight i (fst (sender_step e s)) =
    in_flight i s + length (filter (\<lambda>k. k = i) (calls_made [e]))"
proof (cases e)
  case (Call k rq nonce now)
  with assms show ?thesis
    by (auto simp: sender_step_def calls_made_def ends_of_def in_flight_def sender_call_def case_prod_beta Let_def
        split: option.split)
next
  case (Provided k answer)
  then show ?thesis
    by (auto simp: sender_step_def calls_made_def ends_of_def in_flight_def sender_provided_def
        split: option.split call_stage.split sum.split)
next
  case (Continue k)
  then show ?thesis
    by (auto simp: sender_step_def calls_made_def ends_of_def in_flight_def sender_continue_def
        split: option.split call_stage.split sum.split)
qed (auto simp: sender_step_def calls_made_def ends_of_def in_flight_def one_shot_stage_def on_bag_def split: option.split)

lemma in_flight_step:
  "jm_get (sd_calls s) k = None \<Longrightarrow> k \<notin> set (calls_made [e]) \<Longrightarrow> jm_get (sd_calls (fst (sender_step e s))) k = None"
  using calls_frame [of e k s]
  by (cases e) (auto simp: about_def calls_made_def sender_step_def sender_provided_def sender_continue_def
      split: option.split call_stage.split sum.split)

lemma calls_made_Cons: "calls_made (e # es) = calls_made [e] @ calls_made es"
  by (simp add: calls_made_def)

lemma length_filter_eq: "distinct ks \<Longrightarrow> length (filter (\<lambda>k. k = i) ks) = (if i \<in> set ks then 1 else 0)"
  by (induction ks) (auto simp: filter_empty_conv)

text \<open>C17: Each call made is accounted for: it is still being prepared, or it was passed on once, or it failed
  once.\<close>

theorem signed_calls_end_once:
  assumes "distinct (calls_made es)" "sd_calls s = []"
  shows "ends_of i (snd (sender_run es s)) + in_flight i (fst (sender_run es s)) =
    (if i \<in> set (calls_made es) then 1 else 0)"
proof -
  have "\<forall>k\<in>set (calls_made es). jm_get (sd_calls s) k = None" by (simp add: assms(2))
  with assms(1) have "ends_of i (snd (sender_run es s)) + in_flight i (fst (sender_run es s)) =
      in_flight i s + length (filter (\<lambda>k. k = i) (calls_made es))"
  proof (induction es arbitrary: s)
    case (Cons e es)
    let ?s = "fst (sender_step e s)"
    have "\<forall>k\<in>set (calls_made es). jm_get (sd_calls ?s) k = None"
      using Cons.prems in_flight_step [of s _ e] by (auto simp: calls_made_Cons [of e es])
    moreover have "distinct (calls_made es)" using Cons.prems(1) by (simp add: calls_made_Cons [of e es])
    ultimately have "ends_of i (snd (sender_run es ?s)) + in_flight i (fst (sender_run es ?s)) =
        in_flight i ?s + length (filter (\<lambda>k. k = i) (calls_made es))" by (intro Cons.IH)
    moreover have "ends_of i (snd (sender_step e s)) + in_flight i ?s =
        in_flight i s + length (filter (\<lambda>k. k = i) (calls_made [e]))"
      using Cons.prems(2) by (intro sender_step_ends) (simp add: calls_made_Cons [of e es])
    ultimately show ?case
      by (simp add: case_prod_beta calls_made_Cons [of e es] ends_of_def)
  qed (simp add: calls_made_def ends_of_def)
  then show ?thesis by (simp add: in_flight_def assms(2) length_filter_eq [OF assms(1)])
qed

lemma signed_calls_end_once_witness:
  "ends_of 1 (snd (sender_run [Call 1 demo_call_request [1] (Dec 5 0), Continue 1, Continue 1] demo_sender)) +
   in_flight 1 (fst (sender_run [Call 1 demo_call_request [1] (Dec 5 0), Continue 1, Continue 1] demo_sender)) = 1"
proof -
  have "distinct (calls_made [Call 1 demo_call_request [1] (Dec 5 0), Continue 1, Continue 1])" "sd_calls demo_sender = []"
    by (simp_all add: calls_made_def demo_sender_def)
  from signed_calls_end_once [OF this, of 1] show ?thesis by (simp add: calls_made_def)
qed

section \<open>A streaming call before and after its signature\<close>

text \<open>
  The object \<^verbatim>\<open>sendRequestWithStream\<close> returns.  Until the call is prepared it keeps what the caller wants;
  then the inner call starts.  Settling a promise again has no effect.  An inner sender that throws when the
  call is started is not modelled.
\<close>

record stream_proxy =
  sp_started :: bool
  sp_failed :: bool
  sp_queued :: "json list option"
  sp_cancelled :: bool
  sp_cancel_reason :: "string option"
  sp_disposed :: "string option"
  sp_result :: "json res option"

datatype stream_event =
    SPrepared "(string \<times> json option) res"
  | SCancel "string option"
  | SDispose "string option"
  | SSend json
  | SInnerResult "json res"

datatype stream_out =
    InnerStart string "json option"
  | InnerCancel "string option"
  | InnerDispose string
  | InnerSend json
  | SendThrows

definition new_stream_proxy :: stream_proxy where
  "new_stream_proxy = \<lparr>sp_started = False, sp_failed = False, sp_queued = Some [], sp_cancelled = False,
     sp_cancel_reason = None, sp_disposed = None, sp_result = None\<rparr>"

definition settle_result :: "json res \<Rightarrow> stream_proxy \<Rightarrow> stream_proxy" where
  "settle_result r t = (case sp_result t of None \<Rightarrow> t\<lparr>sp_result := Some r\<rparr> | Some _ \<Rightarrow> t)"

definition proxy_prepared :: "(string \<times> json option) res \<Rightarrow> stream_proxy \<Rightarrow> stream_proxy \<times> stream_out list" where
  "proxy_prepared out t =
     (if sp_started t \<or> sp_failed t then (t, [])
      else (case out of
          Inl e \<Rightarrow> (settle_result (Inl e) (t\<lparr>sp_failed := True\<rparr>), [])
        | Inr (meth, params) \<Rightarrow>
            (t\<lparr>sp_started := True, sp_queued := None\<rparr>,
             InnerStart meth params #
             (if sp_cancelled t then [InnerCancel (sp_cancel_reason t)] else []) @
             (case sp_disposed t of Some r \<Rightarrow> [InnerDispose r] | None \<Rightarrow> []) @
             (case sp_queued t of Some ps \<Rightarrow> map InnerSend ps | None \<Rightarrow> []))))"

definition proxy_cancel :: "string option \<Rightarrow> stream_proxy \<Rightarrow> stream_proxy \<times> stream_out list" where
  "proxy_cancel reason t =
     (t\<lparr>sp_cancelled := True, sp_cancel_reason := reason\<rparr>, if sp_started t then [InnerCancel reason] else [])"

definition proxy_dispose :: "string option \<Rightarrow> stream_proxy \<Rightarrow> stream_proxy \<times> stream_out list" where
  "proxy_dispose given t = (case sp_disposed t of
     Some _ \<Rightarrow> (t, [])
   | None \<Rightarrow>
       (let reason = (case given of Some r \<Rightarrow> r | None \<Rightarrow> ''streaming request disposed'') in
        (settle_result (Inl (JsError reason)) (t\<lparr>sp_disposed := Some reason, sp_queued := None\<rparr>),
         if sp_started t then [InnerDispose reason] else [])))"

text \<open>\<open>SendThrows\<close>: \<^verbatim>\<open>queuedSends!.push\<close> on \<^verbatim>\<open>undefined\<close>.\<close>

definition proxy_send :: "json \<Rightarrow> stream_proxy \<Rightarrow> stream_proxy \<times> stream_out list" where
  "proxy_send payload t =
     (if sp_started t then (t, [InnerSend payload])
      else (case sp_queued t of
          Some ps \<Rightarrow> (t\<lparr>sp_queued := Some (ps @ [payload])\<rparr>, [])
        | None \<Rightarrow> (t, [SendThrows])))"

definition proxy_step :: "stream_event \<Rightarrow> stream_proxy \<Rightarrow> stream_proxy \<times> stream_out list" where
  "proxy_step e t = (case e of
     SPrepared out \<Rightarrow> proxy_prepared out t | SCancel r \<Rightarrow> proxy_cancel r t | SDispose r \<Rightarrow> proxy_dispose r t
   | SSend p \<Rightarrow> proxy_send p t
   | SInnerResult r \<Rightarrow> (if sp_started t then settle_result r t else t, []))"

fun proxy_run :: "stream_event list \<Rightarrow> stream_proxy \<Rightarrow> stream_proxy \<times> stream_out list" where
  "proxy_run [] t = (t, [])"
| "proxy_run (e # es) t =
     (let (t', out) = proxy_step e t; (t'', outs) = proxy_run es t' in (t'', out @ outs))"

definition payloads :: "stream_event list \<Rightarrow> json list" where
  "payloads es = concat (map (\<lambda>e. case e of SSend p \<Rightarrow> [p] | _ \<Rightarrow> []) es)"

definition inner_sends :: "stream_out list \<Rightarrow> json list" where
  "inner_sends outs = concat (map (\<lambda>x. case x of InnerSend p \<Rightarrow> [p] | _ \<Rightarrow> []) outs)"

definition starts :: "stream_out list \<Rightarrow> nat" where
  "starts outs = length (filter (\<lambda>x. case x of InnerStart _ _ \<Rightarrow> True | _ \<Rightarrow> False) outs)"

lemma inner_sends_simps [simp]:
  "inner_sends [] = []" "inner_sends (x # xs) = (case x of InnerSend p \<Rightarrow> [p] | _ \<Rightarrow> []) @ inner_sends xs"
  "inner_sends (xs @ ys) = inner_sends xs @ inner_sends ys" "inner_sends (map InnerSend ps) = ps"
  by (simp_all add: inner_sends_def) (induction ps; simp)

lemma starts_simps [simp]:
  "starts [] = 0" "starts (x # xs) = (case x of InnerStart _ _ \<Rightarrow> 1 | _ \<Rightarrow> 0) + starts xs"
  "starts (xs @ ys) = starts xs + starts ys" "starts (map InnerSend ps) = 0"
  by (simp_all add: starts_def split: stream_out.split)

text \<open>What is queued before the start, and what a step passes on, together are what was sent, unless the
  caller disposed of the call before it started.\<close>

definition queue_of :: "stream_proxy \<Rightarrow> json list" where
  "queue_of t = (case sp_queued t of Some ps \<Rightarrow> ps | None \<Rightarrow> [])"

definition proxy_ok :: "stream_proxy \<Rightarrow> bool" where
  "proxy_ok t = (if sp_started t then sp_queued t = None \<and> \<not> sp_failed t
     else (sp_disposed t = None \<longleftrightarrow> sp_queued t \<noteq> None))"

lemma proxy_ok_step: "proxy_ok t \<Longrightarrow> proxy_ok (fst (proxy_step e t))"
  by (cases e)
    (auto simp: proxy_ok_def proxy_step_def proxy_prepared_def proxy_cancel_def proxy_dispose_def proxy_send_def
      settle_result_def Let_def split: option.split sum.split prod.split if_splits)

lemma disposed_step: "sp_disposed (fst (proxy_step e t)) = None \<Longrightarrow> sp_disposed t = None"
  by (cases e)
    (auto simp: proxy_step_def proxy_prepared_def proxy_cancel_def proxy_dispose_def proxy_send_def
      settle_result_def Let_def split: option.splits sum.splits prod.splits if_splits)

lemma disposed_run: "sp_disposed (fst (proxy_run es t)) = None \<Longrightarrow> sp_disposed t = None"
  by (induction es arbitrary: t) (auto simp: case_prod_beta dest: disposed_step)

lemma proxy_step_sends:
  assumes "proxy_ok t" "sp_disposed (fst (proxy_step e t)) = None"
  shows "inner_sends (snd (proxy_step e t)) @ queue_of (fst (proxy_step e t)) = queue_of t @ payloads [e]"
  using assms
  by (cases e)
    (auto simp: proxy_ok_def proxy_step_def proxy_prepared_def proxy_cancel_def proxy_dispose_def proxy_send_def
      settle_result_def queue_of_def payloads_def Let_def split: option.splits sum.splits prod.splits if_splits)

lemma proxy_step_starts:
  "starts (snd (proxy_step e t)) = (if sp_started (fst (proxy_step e t)) \<and> \<not> sp_started t then 1 else 0) \<and>
   (sp_started t \<longrightarrow> sp_started (fst (proxy_step e t)))"
proof (cases e)
  case (SPrepared out)
  then show ?thesis
    by (cases "sp_started t"; cases "sp_failed t"; cases "sp_disposed t"; cases "sp_queued t"; cases out)
      (simp_all add: proxy_step_def proxy_prepared_def settle_result_def split: option.split prod.split)
next
  case (SDispose r)
  then show ?thesis
    by (cases "sp_disposed t") (simp_all add: proxy_step_def proxy_dispose_def settle_result_def Let_def split: option.split)
next
  case (SInnerResult r)
  then show ?thesis by (simp add: proxy_step_def settle_result_def split: option.split)
next
  case (SSend p)
  then show ?thesis by (cases "sp_queued t") (simp_all add: proxy_step_def proxy_send_def)
qed (simp add: proxy_step_def proxy_cancel_def)

lemma proxy_run_starts:
  "starts (snd (proxy_run es t)) = (if sp_started (fst (proxy_run es t)) \<and> \<not> sp_started t then 1 else 0) \<and>
   (sp_started t \<longrightarrow> sp_started (fst (proxy_run es t)))"
proof (induction es arbitrary: t)
  case (Cons e es)
  let ?t = "fst (proxy_step e t)"
  have f: "fst (proxy_run (e # es) t) = fst (proxy_run es ?t)"
    and o: "snd (proxy_run (e # es) t) = snd (proxy_step e t) @ snd (proxy_run es ?t)"
    by (simp_all add: case_prod_beta)
  show ?case
    unfolding f o starts_simps using Cons.IH [of ?t] proxy_step_starts [of e t]
    by (cases "sp_started t"; cases "sp_started ?t") simp_all
qed simp

lemma proxy_run_sends:
  "proxy_ok t \<Longrightarrow> sp_disposed (fst (proxy_run es t)) = None \<Longrightarrow>
   inner_sends (snd (proxy_run es t)) @ queue_of (fst (proxy_run es t)) = queue_of t @ payloads es"
proof (induction es arbitrary: t)
  case (Cons e es)
  let ?t = "fst (proxy_step e t)"
  have d: "sp_disposed ?t = None" using disposed_run [of es ?t] Cons.prems(2) by (simp add: case_prod_beta)
  have IH: "inner_sends (snd (proxy_run es ?t)) @ queue_of (fst (proxy_run es ?t)) = queue_of ?t @ payloads es"
    by (rule Cons.IH [OF proxy_ok_step [OF Cons.prems(1)]]) (use Cons.prems(2) in \<open>simp add: case_prod_beta\<close>)
  have "payloads (e # es) = payloads [e] @ payloads es" by (simp add: payloads_def)
  with IH proxy_step_sends [OF Cons.prems(1) d] show ?case
    by (simp add: case_prod_beta)
qed (simp add: payloads_def)

lemma proxy_ok_run: "proxy_ok t \<Longrightarrow> proxy_ok (fst (proxy_run es t))"
  by (induction es arbitrary: t) (simp_all add: case_prod_beta proxy_ok_step)

lemma unstarted_step:
  "\<not> sp_started (fst (proxy_step e t)) \<Longrightarrow> inner_sends (snd (proxy_step e t)) = []"
  using proxy_step_starts [of e t]
  by (cases e; cases "sp_queued t"; cases "sp_disposed t")
    (auto simp: proxy_step_def proxy_prepared_def proxy_cancel_def proxy_dispose_def proxy_send_def Let_def
      split: sum.splits prod.splits if_splits)

lemma unstarted_run:
  "\<not> sp_started (fst (proxy_run fs t)) \<Longrightarrow> inner_sends (snd (proxy_run fs t)) = [] \<and> \<not> sp_started t"
proof (induction fs arbitrary: t)
  case (Cons e fs)
  from Cons.IH [of "fst (proxy_step e t)"] Cons.prems unstarted_step [of e t] proxy_step_starts [of e t]
  show ?case by (simp add: case_prod_beta)
qed simp

text \<open>A streaming call through the signing sender starts the inner call at most once, and unless it is
  disposed of, what the caller sends, before and after the signature is ready, reaches the inner call complete
  and in order: all of it once the call has started, and until then it is all still queued.\<close>

theorem stream_sends_in_order:
  "(let (t, outs) = proxy_run es new_stream_proxy in
    starts outs = (if sp_started t then 1 else 0) \<and>
    (case sp_disposed t of
       Some _ \<Rightarrow> True
     | None \<Rightarrow> (if sp_started t then inner_sends outs = payloads es
                else inner_sends outs = [] \<and> sp_queued t = Some (payloads es))))"
proof -
  have ok: "proxy_ok new_stream_proxy" by (simp add: proxy_ok_def new_stream_proxy_def)
  let ?t = "fst (proxy_run es new_stream_proxy)" and ?o = "snd (proxy_run es new_stream_proxy)"
  have ok': "proxy_ok ?t" by (rule proxy_ok_run [OF ok])
  have st: "starts ?o = (if sp_started ?t then 1 else 0)"
    using proxy_run_starts [of es new_stream_proxy] by (simp add: new_stream_proxy_def)
  have "if sp_started ?t then inner_sends ?o = payloads es
      else inner_sends ?o = [] \<and> sp_queued ?t = Some (payloads es)" if d: "sp_disposed ?t = None"
    using proxy_run_sends [OF ok d] ok' d unstarted_run [of es new_stream_proxy]
    by (auto simp: proxy_ok_def queue_of_def new_stream_proxy_def)
  with st show ?thesis by (auto simp: case_prod_beta split: option.split)
qed

end
