(* ===== verification/Admission.thy ===== *)
theory Admission
  imports HubInv Gate
begin

text \<open>
  How a connection gets in and what it may claim: the single-use connection tokens of
  \<^verbatim>\<open>tokenIdentityStore.ts\<close>, the binder that mints them within its prefixes
  (\<^verbatim>\<open>connectionTokenBinderService.ts\<close>), the handlers that claim a connection by its token
  (\<^verbatim>\<open>connectionHandler.ts\<close>), the acceptor that wires it to the hub (\<^verbatim>\<open>hubConnectionAcceptor.ts\<close>), the
  namespace check of the connection root (\<^verbatim>\<open>rootServices.ts\<close>), the claim front door behind the gate
  (\<^verbatim>\<open>hubRegister.ts\<close>) and the signature check at the door (\<^verbatim>\<open>verifiedSignature.ts\<close>).  The clock and the
  generated tokens are arguments; what the acceptor does with the routing hub is done to the hub of theory
  \<open>Hub\<close>.
\<close>

section \<open>Connection tokens\<close>

record token_binding =
  tb_identitySlot :: "string option"
  tb_namespace :: "string option"

record token_entry = token_binding +
  te_expiresAt :: int

record token_store =
  ts_byToken :: "(string \<times> token_entry) list"
  ts_defaultTtlMs :: int

definition new_token_store :: "int option \<Rightarrow> token_store" where
  "new_token_store ttl = \<lparr>ts_byToken = [], ts_defaultTtlMs = (case ttl of Some t \<Rightarrow> t | None \<Rightarrow> 30000)\<rparr>"

definition token_prune :: "int \<Rightarrow> token_store \<Rightarrow> token_store" where
  "token_prune now s = s\<lparr>ts_byToken := filter (\<lambda>(_, e). \<not> te_expiresAt e \<le> now) (ts_byToken s)\<rparr>"

definition token_mint ::
    "int \<Rightarrow> string \<Rightarrow> token_binding \<Rightarrow> int option \<Rightarrow> token_store \<Rightarrow> token_store \<times> string \<times> int" where
  "token_mint now token b ttl s =
     (let expiresAt = now + (case ttl of Some t \<Rightarrow> t | None \<Rightarrow> ts_defaultTtlMs s);
          s1 = token_prune now s in
      (s1\<lparr>ts_byToken := jm_set (ts_byToken s1) token
         \<lparr>tb_identitySlot = tb_identitySlot b, tb_namespace = tb_namespace b, te_expiresAt = expiresAt\<rparr>\<rparr>,
       token, expiresAt))"

definition token_peek :: "int \<Rightarrow> string option \<Rightarrow> token_store \<Rightarrow> token_store \<times> bool" where
  "token_peek now token s = (case token of
     None \<Rightarrow> (s, False)
   | Some t \<Rightarrow> (case jm_get (ts_byToken s) t of
       None \<Rightarrow> (s, False)
     | Some e \<Rightarrow>
         if te_expiresAt e \<le> now then (s\<lparr>ts_byToken := jm_delete (ts_byToken s) t\<rparr>, False) else (s, True)))"

definition token_redeem :: "int \<Rightarrow> string option \<Rightarrow> token_store \<Rightarrow> token_store \<times> token_binding option" where
  "token_redeem now token s = (case token of
     None \<Rightarrow> (s, None)
   | Some t \<Rightarrow> (case jm_get (ts_byToken s) t of
       None \<Rightarrow> (s, None)
     | Some e \<Rightarrow> (s\<lparr>ts_byToken := jm_delete (ts_byToken s) t\<rparr>,
         if te_expiresAt e \<le> now then None
         else Some \<lparr>tb_identitySlot = tb_identitySlot e, tb_namespace = tb_namespace e\<rparr>)))"

definition token_count :: "int \<Rightarrow> token_store \<Rightarrow> token_store \<times> nat" where
  "token_count now s = (let s1 = token_prune now s in (s1, length (ts_byToken s1)))"

section \<open>The binder\<close>

record binder_opts =
  bo_identitySlotPrefixes :: "string list"
  bo_serviceIdPrefixes :: "string list"
  bo_ttlMs :: "int option"

definition assert_under_prefix :: "string \<Rightarrow> string list \<Rightarrow> string \<Rightarrow> string \<Rightarrow> rpc_error option" where
  "assert_under_prefix val granted fieldName configured =
     (if list_ex (\<lambda>p. starts_with val p) granted then None
      else Some \<lparr>err_code = ERR_invalidRequest,
        err_message = fieldName @ '' \"'' @ val @ ''\" is outside this binder'' @ [CHR 0x27] @ ''s granted ''
          @ configured @ '' '' @ text_of (JArr (map JStr granted)), err_data = None\<rparr>)"

definition bind_connection_token ::
    "binder_opts \<Rightarrow> int \<Rightarrow> string \<Rightarrow> string option \<Rightarrow> string option \<Rightarrow> token_store
      \<Rightarrow> token_store \<times> (rpc_error + string \<times> int)" where
  "bind_connection_token opts now fresh identitySlot serviceIdNamespace s =
     (case (case identitySlot of None \<Rightarrow> None
        | Some slot \<Rightarrow> assert_under_prefix slot (bo_identitySlotPrefixes opts) ''identitySlot'' ''identitySlotPrefix'') of
        Some e \<Rightarrow> (s, Inl e)
      | None \<Rightarrow> (case (case serviceIdNamespace of None \<Rightarrow> None
          | Some ns \<Rightarrow> assert_under_prefix ns (bo_serviceIdPrefixes opts) ''serviceIdNamespace'' ''serviceIdPrefix'') of
          Some e \<Rightarrow> (s, Inl e)
        | None \<Rightarrow>
            (let (s', minted) = token_mint now fresh
                 \<lparr>tb_identitySlot = identitySlot, tb_namespace = serviceIdNamespace\<rparr> (bo_ttlMs opts) s in
             (s', Inr minted))))"

section \<open>Connection handlers\<close>

datatype identity_source = FixedIdentity nat | SlotIdentity string

record root_provision =
  rp_namespace :: "string option"
  rp_identity :: "identity_source option"
  rp_binder :: "binder_opts option"

datatype handler_factory =
    FixedProvision root_provision "string option \<Rightarrow> bool"
  | BoundToken

definition anonymous_handler :: "root_provision \<Rightarrow> handler_factory" where
  "anonymous_handler p = FixedProvision p (\<lambda>_. True)"

definition static_token_handler :: "string \<Rightarrow> root_provision \<Rightarrow> handler_factory" where
  "static_token_handler val p = FixedProvision p (\<lambda>token. token = Some val)"

datatype connection_handler = Provision root_provision | RedeemAndProvision "string option"

definition factory_handle ::
    "int \<Rightarrow> handler_factory \<Rightarrow> string option \<Rightarrow> token_store \<Rightarrow> token_store \<times> connection_handler option" where
  "factory_handle now f token s = (case f of
     FixedProvision p claims \<Rightarrow> (s, if claims token then Some (Provision p) else None)
   | BoundToken \<Rightarrow>
       (case token_peek now token s of (s', live) \<Rightarrow> (s', if live then Some (RedeemAndProvision token) else None)))"

fun resolve_connection_handler ::
    "int \<Rightarrow> handler_factory list \<Rightarrow> string option \<Rightarrow> token_store \<Rightarrow> token_store \<times> connection_handler option" where
  "resolve_connection_handler now [] token s = (s, None)"
| "resolve_connection_handler now (f # fs) token s = (case factory_handle now f token s of
     (s', Some h) \<Rightarrow> (s', Some h)
   | (s', None) \<Rightarrow> resolve_connection_handler now fs token s')"

text \<open>The provision a handler comes to, as the root services are installed.\<close>

definition run_handler ::
    "int \<Rightarrow> connection_handler \<Rightarrow> token_store \<Rightarrow> token_store \<times> root_provision res" where
  "run_handler now h s = (case h of
     Provision p \<Rightarrow> (s, Inr p)
   | RedeemAndProvision token \<Rightarrow> (case token_redeem now token s of
       (s', None) \<Rightarrow> (s', Inl (JsError ''bound token was consumed between accept and redeem''))
     | (s', Some b) \<Rightarrow> (s', Inr \<lparr>rp_namespace = tb_namespace b,
         rp_identity = map_option SlotIdentity (tb_identitySlot b), rp_binder = None\<rparr>)))"

section \<open>The acceptor\<close>

datatype forward_checking =
    Unchecked
  | AuthenticityOnly "string list option"
  | CapabilityRequired "string list"

definition admin_issuers :: "string list \<Rightarrow> string \<Rightarrow> accepted_root list" where
  "admin_issuers adminIds serviceId = map (\<lambda>p. \<lparr>ar_principal = p, ar_isPublic = True\<rparr>) adminIds"

text \<open>\<^verbatim>\<open>_gateHubFacing\<close>: the options of the gate around the hub-facing link, if there is one.\<close>

definition gate_hub_facing :: "forward_checking \<Rightarrow> gate_opts option" where
  "gate_hub_facing fc = (case fc of
     Unchecked \<Rightarrow> None
   | CapabilityRequired adminIds \<Rightarrow>
       Some \<lparr>go_exempt = [], go_requireCapability = True, go_trustedRoots = None,
         go_acceptedRootIssuers = admin_issuers adminIds\<rparr>
   | AuthenticityOnly adminIds \<Rightarrow>
       Some \<lparr>go_exempt = [], go_requireCapability = False, go_trustedRoots = None,
         go_acceptedRootIssuers = (case adminIds of Some ids \<Rightarrow> admin_issuers ids | None \<Rightarrow> \<lambda>_. [])\<rparr>)"

record acceptor_opts =
  ao_handlers :: "handler_factory list"
  ao_policy :: "(claim_context \<Rightarrow> claim_verdict) option"
  ao_hubServiceId :: "string option"
  ao_consent :: bool
  ao_checking :: forward_checking

text \<open>What is installed at the overlay root of an accepted connection.\<close>

record root_services =
  rs_hubServiceId :: string
  rs_namespace :: string
  rs_consent :: bool
  rs_binder :: "binder_opts option"
  rs_identity :: "identity_source option"

definition provision_root :: "acceptor_opts \<Rightarrow> root_provision \<Rightarrow> root_services" where
  "provision_root opts p =
     \<lparr>rs_hubServiceId = (case ao_hubServiceId opts of Some s \<Rightarrow> s | None \<Rightarrow> ''hub''),
      rs_namespace = (case rp_namespace p of Some ns \<Rightarrow> ns | None \<Rightarrow> ''''),
      rs_consent = ao_consent opts, rs_binder = rp_binder p, rs_identity = rp_identity p\<rparr>"

record accepted =
  ac_services :: root_services
  ac_transportKey :: "string option"
  ac_gate :: "gate_opts option"
  ac_verifySignatures :: bool

record acceptor =
  ad_hub :: hub
  ad_store :: token_store
  ad_accepted :: "(nat \<times> accepted) list"
  ad_next :: nat
  ad_disposed :: bool

datatype admission_out =
    TransportDisposed
  | AcceptError js_error
  | DidAttach nat
  | HubDid hub_out

text \<open>\<^verbatim>\<open>_wire\<close>: the hub's end of the new pair of transports gets the next number; the clock is read when a
  handler is looked for and again when it runs.\<close>

definition wire_connection ::
    "hub_opts \<Rightarrow> acceptor_opts \<Rightarrow> int \<Rightarrow> int \<Rightarrow> string option \<Rightarrow> string option \<Rightarrow> acceptor
      \<Rightarrow> acceptor \<times> admission_out list \<times> accepted res" where
  "wire_connection cfg opts now1 now2 key token a =
     (let link = ad_next a in
      case resolve_connection_handler now1 (ao_handlers opts) token (ad_store a) of
        (s1, None) \<Rightarrow> (a\<lparr>ad_store := s1\<rparr>, [], Inl (JsError ''no connection handler accepted the presented token''))
      | (s1, Some h) \<Rightarrow>
          (case attach (ad_hub a) link default_attach of
             Inl e \<Rightarrow> (a\<lparr>ad_store := s1, ad_next := Suc link\<rparr>, [], Inl e)
           | Inr (hub1, out1) \<Rightarrow>
               (case run_handler now2 h s1 of
                  (s2, Inl e) \<Rightarrow> (case detach cfg hub1 link of
                    (hub2, out2) \<Rightarrow> (a\<lparr>ad_store := s2, ad_hub := hub2, ad_next := Suc link\<rparr>, map HubDid (out1 @ out2), Inl e))
                | (s2, Inr p) \<Rightarrow>
                    (a\<lparr>ad_store := s2, ad_hub := hub1, ad_next := Suc link\<rparr>, map HubDid out1,
                     Inr \<lparr>ac_services = provision_root opts p, ac_transportKey = key,
                       ac_gate = gate_hub_facing (ao_checking opts),
                       ac_verifySignatures = (ao_checking opts \<noteq> Unchecked)\<rparr>))))"

definition accept_connection ::
    "hub_opts \<Rightarrow> acceptor_opts \<Rightarrow> int \<Rightarrow> int \<Rightarrow> string option \<Rightarrow> string option \<Rightarrow> acceptor
      \<Rightarrow> acceptor \<times> admission_out list" where
  "accept_connection cfg opts now1 now2 key token a =
     (if ad_disposed a then (a, [TransportDisposed])
      else (case wire_connection cfg opts now1 now2 key token a of
          (a', out, Inl e) \<Rightarrow> (a', out @ [AcceptError e, TransportDisposed])
        | (a', out, Inr c) \<Rightarrow> (a'\<lparr>ad_accepted := jm_set (ad_accepted a') (ad_next a) c\<rparr>,
                                 out @ [DidAttach (ad_next a)])))"

definition connection_closed :: "hub_opts \<Rightarrow> nat \<Rightarrow> acceptor \<Rightarrow> acceptor \<times> admission_out list" where
  "connection_closed cfg link a = (case detach cfg (ad_hub a) link of
     (hub', out) \<Rightarrow> (a\<lparr>ad_hub := hub', ad_accepted := jm_delete (ad_accepted a) link\<rparr>, map HubDid out))"

fun detach_all :: "hub_opts \<Rightarrow> nat list \<Rightarrow> hub \<Rightarrow> hub \<times> hub_out list" where
  "detach_all cfg [] h = (h, [])"
| "detach_all cfg (l # ls) h =
     (case detach cfg h l of (h1, out1) \<Rightarrow> (case detach_all cfg ls h1 of (h2, out2) \<Rightarrow> (h2, out1 @ out2)))"

definition acceptor_dispose :: "hub_opts \<Rightarrow> acceptor \<Rightarrow> acceptor \<times> admission_out list" where
  "acceptor_dispose cfg a =
     (if ad_disposed a then (a, [])
      else (case detach_all cfg (map fst (ad_accepted a)) (ad_hub a) of
          (hub', out) \<Rightarrow> (a\<lparr>ad_hub := hub', ad_accepted := [], ad_disposed := True\<rparr>, map HubDid out)))"

section \<open>What a connection may claim\<close>

datatype call_failure = RpcThrown rpc_error | ErrorThrown js_error

text \<open>\<^verbatim>\<open>hubGrantedServiceId::register\<close>, called at the root of the connection \<open>link\<close>.\<close>

definition claim_at_root :: "acceptor_opts \<Rightarrow> accepted \<Rightarrow> string \<Rightarrow> claim_verdict" where
  "claim_at_root opts c serviceId = (case ao_policy opts of
     Some policy \<Rightarrow> policy \<lparr>cc_principal = None, cc_identityKey = ac_transportKey c, cc_requestedPrefix = serviceId\<rparr>
   | None \<Rightarrow>
       (let ns = rs_namespace (ac_services c) in
        if ns \<noteq> '''' \<and> is_service_id_under serviceId ns then ClaimOk
        else ClaimDenied (''\"'' @ serviceId @ ''\" is outside this connection'' @ [CHR 0x27]
          @ ''s granted namespace \"'' @ ns @ ''\"'')))"

definition register_at_root ::
    "acceptor_opts \<Rightarrow> nat \<Rightarrow> string \<Rightarrow> acceptor \<Rightarrow> acceptor \<times> admission_out list \<times> (call_failure + unit)" where
  "register_at_root opts link serviceId a = (case jm_get (ad_accepted a) link of
     None \<Rightarrow> (a, [], Inl (ErrorThrown (JsError ''closed'')))
   | Some c \<Rightarrow> (case claim_at_root opts c serviceId of
       ClaimDenied reason \<Rightarrow>
         (a, [], Inl (RpcThrown \<lparr>err_code = ERR_invalidRequest, err_message = ''claim denied: '' @ reason, err_data = None\<rparr>))
     | ClaimOk \<Rightarrow> (case claim_prefix (ad_hub a) link serviceId of
         Inl e \<Rightarrow> (a, [], Inl (ErrorThrown e))
       | Inr (hub', out) \<Rightarrow> (a\<lparr>ad_hub := hub'\<rparr>, map HubDid out, Inr ()))))"

text \<open>\<^verbatim>\<open>hubServiceIdRegistry::registerServiceId\<close>: a claim that came through the gate, for the link the
  forwarded request with this id came from.  The hub makes no such request of its own.\<close>

definition register_service_id :: "hub \<Rightarrow> string \<Rightarrow> request_id option \<Rightarrow> hub \<times> hub_out list \<times> (rpc_error + unit)" where
  "register_service_id h p reqId = (case validate_prefix p of
     Some e \<Rightarrow> (h, [], Inl \<lparr>err_code = ERR_invalidParams, err_message = e, err_data = None\<rparr>)
   | None \<Rightarrow> (case (case reqId of None \<Rightarrow> None | Some i \<Rightarrow> get_source_transport h i) of
       Some (OLink l) \<Rightarrow> (case claim_prefix h l p of
           Inl (JsError e) \<Rightarrow> (h, [], Inl \<lparr>err_code = ERR_invalidRequest, err_message = e,
             err_data = Some (JObj [(''prefix'', JStr p)])\<rparr>)
         | Inr (h', out) \<Rightarrow> (h', out, Inr ()))
     | _ \<Rightarrow> (h, [], Inl \<lparr>err_code = ERR_invalidRequest, err_message = ''no source link for claim'', err_data = None\<rparr>)))"

section \<open>The signature check at the door\<close>

datatype door_out = Deliver message | Reply message

text \<open>One message through \<^verbatim>\<open>withVerifiedSignature\<close>; a check that throws drops its message.\<close>

definition door_receive :: "verifier \<Rightarrow> bool \<Rightarrow> jsnum \<Rightarrow> message \<Rightarrow> door_out list" where
  "door_receive verify enabled now m =
     (if \<not> enabled then [Deliver m]
      else (case m of
          Request i meth params \<Rightarrow>
            (case verify_rpc_call verify \<lparr>vo_wireMethod = meth, vo_wireParams = params, vo_nowMs = now,
                vo_maxSkewMs = None, vo_requireSigned = False\<rparr> of
               Inl _ \<Rightarrow> []
             | Inr (RpcFail reason) \<Rightarrow>
                 [Reply (Failure (Some i) \<lparr>err_code = ERR_invalidRequest, err_message = reason, err_data = None\<rparr>)]
             | Inr (RpcOk _ _) \<Rightarrow> [Deliver m])
        | _ \<Rightarrow> [Deliver m]))"

section \<open>The acceptor and its hub as a state machine\<close>

datatype admission_event =
    Accept int int "string option" "string option"
  | ConnectionClosed nat
  | BindToken nat int string "string option" "string option"
  | RegisterAtRoot nat string
  | DisposeAcceptor
  | HubEvent nat hub_event

text \<open>The minting service of a connection's root, where its handler installed one.\<close>

definition binder_at :: "acceptor \<Rightarrow> nat \<Rightarrow> binder_opts option" where
  "binder_at a link = (case jm_get (ad_accepted a) link of Some c \<Rightarrow> rs_binder (ac_services c) | None \<Rightarrow> None)"

definition admission_step ::
    "hub_opts \<Rightarrow> acceptor_opts \<Rightarrow> admission_event \<Rightarrow> acceptor \<Rightarrow> acceptor \<times> admission_out list" where
  "admission_step cfg opts e a = (case e of
     Accept now1 now2 key token \<Rightarrow> accept_connection cfg opts now1 now2 key token a
   | ConnectionClosed link \<Rightarrow> connection_closed cfg link a
   | BindToken link now fresh slot ns \<Rightarrow> (case binder_at a link of
       Some b \<Rightarrow> (a\<lparr>ad_store := fst (bind_connection_token b now fresh slot ns (ad_store a))\<rparr>, [])
     | None \<Rightarrow> (a, []))
   | RegisterAtRoot link p \<Rightarrow> (case register_at_root opts link p a of (a', out, _) \<Rightarrow> (a', out))
   | DisposeAcceptor \<Rightarrow> acceptor_dispose cfg a
   | HubEvent now ev \<Rightarrow> (case hub_step cfg (ad_hub a) (now, ev) of (h', out) \<Rightarrow> (a\<lparr>ad_hub := h'\<rparr>, map HubDid out)))"

fun admission_run ::
    "hub_opts \<Rightarrow> acceptor_opts \<Rightarrow> admission_event list \<Rightarrow> acceptor \<Rightarrow> acceptor" where
  "admission_run cfg opts [] a = a"
| "admission_run cfg opts (e # es) a = admission_run cfg opts es (fst (admission_step cfg opts e a))"

section \<open>A token is good for one connection\<close>

datatype token_op =
    OpMint int string token_binding "int option"
  | OpPeek int "string option"
  | OpRedeem int "string option"
  | OpCount int

definition token_apply :: "token_op \<Rightarrow> token_store \<Rightarrow> token_store" where
  "token_apply x s = (case x of
     OpMint now t b ttl \<Rightarrow> fst (token_mint now t b ttl s)
   | OpPeek now t \<Rightarrow> fst (token_peek now t s)
   | OpRedeem now t \<Rightarrow> fst (token_redeem now t s)
   | OpCount now \<Rightarrow> fst (token_count now s))"

text \<open>The redemptions of a run that gave a binding, with the time of each.\<close>

fun redeemed :: "token_op list \<Rightarrow> token_store \<Rightarrow> (string \<times> token_binding \<times> int) list" where
  "redeemed [] s = []"
| "redeemed (x # xs) s =
     (case x of
        OpRedeem now (Some t) \<Rightarrow> (case snd (token_redeem now (Some t) s) of Some b \<Rightarrow> [(t, b, now)] | None \<Rightarrow> [])
      | _ \<Rightarrow> []) @ redeemed xs (token_apply x s)"

definition minted :: "token_op list \<Rightarrow> string list" where
  "minted xs = concat (map (\<lambda>x. case x of OpMint _ t _ _ \<Rightarrow> [t] | _ \<Rightarrow> []) xs)"

lemma minted_simps [simp]:
  "minted [] = []" "minted (x # xs) = (case x of OpMint _ t _ _ \<Rightarrow> [t] | _ \<Rightarrow> []) @ minted xs"
  by (simp_all add: minted_def)

text \<open>The tokens a store may still redeem.\<close>

definition live_tokens :: "token_store \<Rightarrow> string set" where
  "live_tokens s = fst ` set (ts_byToken s)"

lemma live_get: "jm_get (ts_byToken s) t = Some e \<Longrightarrow> t \<in> live_tokens s"
  unfolding live_tokens_def by (force dest: jm_get_SomeD)

lemma live_apply: "live_tokens (token_apply x s) \<subseteq> live_tokens s \<union> set (minted [x])"
  by (cases x)
    (auto simp: token_apply_def token_mint_def token_prune_def token_peek_def token_redeem_def token_count_def
      live_tokens_def keys_jm_set set_jm_delete Let_def split: option.split)

lemma redeemed_live: "(t, b, now) \<in> set (redeemed xs s) \<Longrightarrow> t \<in> live_tokens s \<union> set (minted xs)"
proof (induction xs arbitrary: s)
  case (Cons x xs)
  then consider "x = OpRedeem now (Some t)" "snd (token_redeem now (Some t) s) = Some b"
    | "(t, b, now) \<in> set (redeemed xs (token_apply x s))"
    by (auto split: token_op.splits option.splits)
  then show ?case
  proof cases
    case 1
    then have "t \<in> live_tokens s" by (auto simp: token_redeem_def intro: live_get split: option.splits)
    then show ?thesis by blast
  next
    case 2
    from Cons.IH [OF this] live_apply [of x s] show ?thesis by (cases x) auto
  qed
qed simp

lemma redeem_gone: "t \<notin> live_tokens (fst (token_redeem now (Some t) s))"
  by (auto simp: token_redeem_def live_tokens_def set_jm_delete jm_get_None_iff image_iff split: option.split)

text \<open>What is in the store was minted, with that binding and expiry.\<close>

definition mint_of :: "token_op list \<Rightarrow> int \<Rightarrow> string \<Rightarrow> token_binding \<Rightarrow> int \<Rightarrow> bool" where
  "mint_of xs defaultTtl t b expiresAt \<longleftrightarrow> (\<exists>now ttl. OpMint now t b ttl \<in> set xs \<and>
     expiresAt = now + (case ttl of Some m \<Rightarrow> m | None \<Rightarrow> defaultTtl))"

definition entry_binding :: "token_entry \<Rightarrow> token_binding" where
  "entry_binding e = \<lparr>tb_identitySlot = tb_identitySlot e, tb_namespace = tb_namespace e\<rparr>"

lemma entries_apply:
  "set (ts_byToken (token_apply x s)) \<subseteq> set (ts_byToken s) \<union>
     {(t, e). mint_of [x] (ts_defaultTtlMs s) t (entry_binding e) (te_expiresAt e)}"
  "ts_defaultTtlMs (token_apply x s) = ts_defaultTtlMs s"
proof -
  show "ts_defaultTtlMs (token_apply x s) = ts_defaultTtlMs s"
    by (cases x)
      (simp_all add: token_apply_def token_mint_def token_prune_def token_peek_def token_redeem_def token_count_def
        Let_def split: option.split)
  show "set (ts_byToken (token_apply x s)) \<subseteq> set (ts_byToken s) \<union>
     {(t, e). mint_of [x] (ts_defaultTtlMs s) t (entry_binding e) (te_expiresAt e)}"
  proof (cases x)
    case (OpMint now t b ttl)
    let ?ex = "now + (case ttl of None \<Rightarrow> ts_defaultTtlMs s | Some m \<Rightarrow> m)"
    let ?e = "\<lparr>tb_identitySlot = tb_identitySlot b, tb_namespace = tb_namespace b, te_expiresAt = ?ex\<rparr>"
    have "set (ts_byToken (token_apply x s)) \<subseteq> insert (t, ?e) (set (ts_byToken s))"
      using set_jm_set_subset [of "ts_byToken (token_prune now s)" t ?e]
      by (auto simp: OpMint token_apply_def token_mint_def token_prune_def Let_def)
    moreover have "mint_of [x] (ts_defaultTtlMs s) t (entry_binding ?e) ?ex"
      by (cases ttl) (simp_all add: mint_of_def OpMint entry_binding_def)
    ultimately show ?thesis by auto
  qed (auto simp: token_apply_def token_prune_def token_peek_def token_redeem_def token_count_def set_jm_delete
      Let_def split: option.split)
qed

lemma redeemed_from:
  "(t, b, now) \<in> set (redeemed xs s) \<Longrightarrow>
     \<exists>expiresAt. now < expiresAt \<and>
       (mint_of xs (ts_defaultTtlMs s) t b expiresAt \<or>
        (\<exists>e. (t, e) \<in> set (ts_byToken s) \<and> entry_binding e = b \<and> te_expiresAt e = expiresAt))"
proof (induction xs arbitrary: s)
  case (Cons x xs)
  then consider "x = OpRedeem now (Some t)" "snd (token_redeem now (Some t) s) = Some b"
    | "(t, b, now) \<in> set (redeemed xs (token_apply x s))"
    by (auto split: token_op.splits option.splits)
  then show ?case
  proof cases
    case 1
    then show ?thesis
      by (auto simp: token_redeem_def entry_binding_def not_le dest!: jm_get_SomeD split: option.splits if_splits)
  next
    case 2
    from Cons.IH [OF this] obtain ex where "now < ex"
      "mint_of xs (ts_defaultTtlMs s) t b ex \<or>
       (\<exists>e. (t, e) \<in> set (ts_byToken (token_apply x s)) \<and> entry_binding e = b \<and> te_expiresAt e = ex)"
      by (auto simp: entries_apply(2))
    moreover have "mint_of (x # xs) d t b ex" if "mint_of [x] d t b ex \<or> mint_of xs d t b ex" for d
      using that by (auto simp: mint_of_def)
    ultimately show ?thesis using entries_apply(1) [of x s] by blast
  qed
qed simp

lemma redeemed_once:
  "distinct (minted xs) \<Longrightarrow> set (minted xs) \<inter> live_tokens s = {} \<Longrightarrow> distinct (map fst (redeemed xs s))"
proof (induction xs arbitrary: s)
  case (Cons x xs)
  let ?s = "token_apply x s"
  have d: "distinct (map fst (redeemed xs ?s))"
    using Cons.prems live_apply [of x s] by (intro Cons.IH) (auto split: token_op.splits)
  show ?case
  proof (cases "\<exists>now t b. x = OpRedeem now (Some t) \<and> snd (token_redeem now (Some t) s) = Some b")
    case True
    then obtain now t b where x: "x = OpRedeem now (Some t)" "snd (token_redeem now (Some t) s) = Some b" by blast
    have "t \<in> live_tokens s" using x(2) by (auto simp: token_redeem_def intro: live_get split: option.splits)
    then have "t \<notin> set (minted xs)" using Cons.prems(2) by (auto simp: x(1))
    moreover have "t \<notin> live_tokens ?s" using redeem_gone [of t now s] by (simp add: x(1) token_apply_def)
    ultimately have "t \<notin> fst ` set (redeemed xs ?s)" using redeemed_live [of t _ _ xs ?s] by fastforce
    with d x show ?thesis by simp
  next
    case False
    then have "redeemed (x # xs) s = redeemed xs ?s" by (auto split: token_op.split option.split)
    with d show ?thesis by simp
  qed
qed simp

text \<open>C13: A connection token is single-use and time-boxed: however minting, peeking, redeeming and counting are
  mixed, a token whose minting is unrepeated is redeemed at most once, and only with the binding it was minted
  with and before it expires.\<close>

theorem token_spent_once:
  assumes "distinct (minted xs)"
  shows "distinct (map fst (redeemed xs (new_token_store ttl))) \<and>
    list_all (\<lambda>(t, b, now). \<exists>expiresAt. now < expiresAt \<and>
        mint_of xs (case ttl of Some m \<Rightarrow> m | None \<Rightarrow> 30000) t b expiresAt)
      (redeemed xs (new_token_store ttl))"
proof -
  have e: "live_tokens (new_token_store ttl) = {}" "ts_byToken (new_token_store ttl) = []"
    "ts_defaultTtlMs (new_token_store ttl) = (case ttl of Some m \<Rightarrow> m | None \<Rightarrow> 30000)"
    by (simp_all add: live_tokens_def new_token_store_def)
  show ?thesis
    using redeemed_once [OF assms, of "new_token_store ttl"] redeemed_from [of _ _ _ xs "new_token_store ttl"]
    by (force simp: e list_all_iff)
qed

lemma token_spent_once_witness:
  "map fst (redeemed [OpMint 0 ''t'' \<lparr>tb_identitySlot = None, tb_namespace = Some ''docker/a''\<rparr> None,
     OpRedeem 5 (Some ''t''), OpRedeem 6 (Some ''t'')] (new_token_store None)) = [''t''] \<and>
   distinct (map fst (redeemed [OpMint 0 ''t'' \<lparr>tb_identitySlot = None, tb_namespace = Some ''docker/a''\<rparr> None,
     OpRedeem 5 (Some ''t''), OpRedeem 6 (Some ''t'')] (new_token_store None)))"
  using token_spent_once [of "[OpMint 0 ''t'' \<lparr>tb_identitySlot = None, tb_namespace = Some ''docker/a''\<rparr> None,
     OpRedeem 5 (Some ''t''), OpRedeem 6 (Some ''t'')]" None]
  by (simp add: token_apply_def token_mint_def token_redeem_def token_prune_def new_token_store_def Let_def jm_get_def
      jm_delete_def)

section \<open>Traffic leaves the routing table alone\<close>

definition same_routing :: "hub \<Rightarrow> hub \<Rightarrow> bool" where
  "same_routing h h' \<longleftrightarrow> h_table h' = h_table h \<and> h_links h' = h_links h"

lemma same_routing_refl [simp]: "same_routing h h"
  by (simp add: same_routing_def)

lemma same_routing_simps [simp]:
  "same_routing h (delete_pending h' key) = same_routing h h'"
  "same_routing h (h'\<lparr>h_sinks := ks\<rparr>) = same_routing h h'"
  "same_routing h (arm_idle cfg now h' key) = same_routing h h'"
  "same_routing h (reset_idle cfg now h' key) = same_routing h h'"
  by (simp_all add: same_routing_def delete_pending_def reset_idle_eq)

lemma same_routing_finish [simp]: "same_routing h (fst (finish h' k r)) = same_routing h h'"
  by (simp add: same_routing_def finish_def)

lemma same_routing_watch_stop [simp]: "same_routing h (fst (watch_stop h' k l c)) = same_routing h h'"
  by (simp add: watch_stop_def Let_def case_prod_beta)

lemma same_routing_deliver [simp]: "same_routing h (fst (deliver h' orig m)) = same_routing h h'"
  by (cases orig) (auto simp: deliver_def watch_receive_def Let_def case_prod_beta split: message.split option.split)

lemma same_routing_park [simp]: "same_routing h (snd (park cfg now h' entry)) = same_routing h h'"
  by (simp add: park_def same_routing_def Let_def)

lemma same_routing_reply [simp]: "same_routing h (fst (reply_error cfg h' orig i code msg)) = same_routing h h'"
  by (simp add: reply_error_def Let_def)

lemma same_routing_message:
  "same_routing h (fst (on_message cfg now h from m))"
  by (cases m)
    (auto simp: on_message_def demux_def route_request_def route_stream_def Let_def case_prod_beta
      split: option.split)

lemma same_routing_own:
  "same_routing h (fst (request_on_link cfg now h l meth params))"
  "same_routing h (fst (watch_on_link cfg now h l meth params))"
  "same_routing h (fst (watch_ping cfg now h k l nonce))"
  "same_routing h (fst (on_idle_timeout cfg h key))"
  "same_routing h (fst (request_timeout h k l ms))"
  "same_routing h (fst (route_send_failed cfg h key l err))"
  "same_routing h (fst (request_send_failed h k l err))"
  by (auto simp: request_on_link_def watch_on_link_def watch_ping_def on_idle_timeout_def request_timeout_def
      route_send_failed_def request_send_failed_def Let_def case_prod_beta split: option.split)

section \<open>Claims stay within what was granted\<close>

text \<open>The host attaches links of its own, numbered below \<open>n\<close>, and leaves those of accepted connections alone.\<close>

definition host_event :: "nat \<Rightarrow> hub_event \<Rightarrow> bool" where
  "host_event n ev = (case ev of
     Attach l _ \<Rightarrow> l < n | Detach l \<Rightarrow> l < n | SetUplink (Some l) \<Rightarrow> l < n | SetLoopback (Some l) \<Rightarrow> l < n | _ \<Rightarrow> True)"

definition no_new_claims :: "nat \<Rightarrow> hub \<Rightarrow> hub \<Rightarrow> bool" where
  "no_new_claims n h h' \<longleftrightarrow>
     (\<forall>p l. ft_get (h_table h') p = Some l \<longrightarrow> l < n \<or> ft_get (h_table h) p = Some l) \<and>
     (\<forall>l\<in>set (h_links h'). l < n \<or> l \<in> set (h_links h))"

lemma no_new_claims_same: "same_routing h h' \<Longrightarrow> no_new_claims n h h'"
  by (simp add: same_routing_def no_new_claims_def)

lemma no_new_claims_attach:
  assumes "attach h l opts = Inr (h', out)" "l < n" shows "no_new_claims n h h'"
  using attach_fields(1) [OF assms(1)] attach_fields(7) [OF assms(1)] assms(2)
  by (auto simp: no_new_claims_def split: if_splits)

lemma detach_claims:
  assumes "hub_inv h"
  shows "ft_get (h_table (fst (detach cfg h link))) p = (if ft_get (h_table h) p = Some link then None else ft_get (h_table h) p)"
    "set (h_links (fst (detach cfg h link))) = set (h_links h) - {link}"
proof -
  have "ft_get (h_table h) p \<noteq> Some link" if "link \<notin> set (h_links h)"
    using assms that by (auto simp: hub_inv_def links_inv_def)
  then show "ft_get (h_table (fst (detach cfg h link))) p =
      (if ft_get (h_table h) p = Some link then None else ft_get (h_table h) p)"
    using detach_state(3) [OF assms _ refl, of link cfg p] by (cases "link \<in> set (h_links h)") (simp_all add: detach_def)
  show "set (h_links (fst (detach cfg h link))) = set (h_links h) - {link}"
    using detach_state(1) [OF assms _ refl, of link cfg] by (cases "link \<in> set (h_links h)") (auto simp: detach_def)
qed

lemma no_new_claims_commit:
  "(\<And>h' out. r = Inr (h', out) \<Longrightarrow> no_new_claims n h h') \<Longrightarrow> no_new_claims n h (fst (commit h r))"
  by (auto simp: commit_def no_new_claims_same split: sum.split)

lemma no_new_claims_host:
  assumes "hub_inv h" "host_event n ev" shows "no_new_claims n h (fst (hub_step cfg h (now, ev)))"
proof (cases ev)
  case (Attach l opts)
  then show ?thesis using assms(2) by (auto simp: host_event_def intro!: no_new_claims_commit no_new_claims_attach)
next
  case (Detach l)
  then show ?thesis using detach_claims [OF assms(1)] by (simp add: no_new_claims_def)
next
  case (SetUplink l)
  let ?h = "h\<lparr>h_uplink := l\<rparr>"
  have "no_new_claims n h h'" if "set_uplink h l = Inr (h', out)" for h' out
  proof (cases l)
    case None
    with that show ?thesis by (auto simp: set_uplink_def no_new_claims_same same_routing_def Let_def split: if_splits)
  next
    case (Some k)
    from that obtain out' where "attach ?h k default_attach = Inr (h', out')"
      by (auto simp: set_uplink_def Some Let_def res_bind_Inr_iff split: if_splits)
    from no_new_claims_attach [OF this] show ?thesis
      using assms(2) by (simp add: SetUplink Some host_event_def no_new_claims_def)
  qed
  with SetUplink show ?thesis by (auto intro: no_new_claims_commit)
next
  case (SetLoopback l)
  have "no_new_claims n h h'" if "set_loopback h l = Inr (h', out)" for h' out
    using that no_new_claims_attach [of h "the l" _ h' out n] assms(2)
    by (cases l) (auto simp: SetLoopback host_event_def set_loopback_def no_new_claims_same same_routing_def split: if_splits)
  with SetLoopback show ?thesis by (auto intro: no_new_claims_commit)
next
  case (ReleasePrefix p)
  have "fst (snd (release_prefix h p)) = h\<lparr>h_table := snd (ft_delete (h_table h) p)\<rparr>"
    by (simp add: release_prefix_def case_prod_beta)
  with ReleasePrefix assms(1) show ?thesis
    by (auto simp: no_new_claims_def hub_inv_def links_inv_def fwd.lookup_release split: if_splits)
qed (simp_all add: no_new_claims_same same_routing_message same_routing_own)

definition fixed_provisions :: "acceptor_opts \<Rightarrow> root_provision set" where
  "fixed_provisions opts = {p. \<exists>claims. FixedProvision p claims \<in> set (ao_handlers opts)}"

text \<open>A namespace the configuration grants: a fixed handler's, or one a configured binder may bind.\<close>

definition namespace_granted :: "acceptor_opts \<Rightarrow> string \<Rightarrow> bool" where
  "namespace_granted opts ns \<longleftrightarrow> (\<exists>p\<in>fixed_provisions opts. rp_namespace p = Some ns \<or>
     (\<exists>b. rp_binder p = Some b \<and> list_ex (starts_with ns) (bo_serviceIdPrefixes b)))"

definition binder_granted :: "acceptor_opts \<Rightarrow> binder_opts \<Rightarrow> bool" where
  "binder_granted opts b \<longleftrightarrow> (\<exists>p\<in>fixed_provisions opts. rp_binder p = Some b)"

definition services_granted :: "acceptor_opts \<Rightarrow> root_services \<Rightarrow> bool" where
  "services_granted opts s \<longleftrightarrow> (rs_namespace s = '''' \<or> namespace_granted opts (rs_namespace s)) \<and>
     (\<forall>b. rs_binder s = Some b \<longrightarrow> binder_granted opts b)"

definition store_granted :: "acceptor_opts \<Rightarrow> token_store \<Rightarrow> bool" where
  "store_granted opts s \<longleftrightarrow>
     (\<forall>(t, e)\<in>set (ts_byToken s). \<forall>ns. tb_namespace e = Some ns \<longrightarrow> namespace_granted opts ns)"

definition claim_within :: "acceptor \<Rightarrow> nat \<Rightarrow> string \<Rightarrow> bool" where
  "claim_within a l p \<longleftrightarrow> (\<exists>c. jm_get (ad_accepted a) l = Some c \<and>
     rs_namespace (ac_services c) \<noteq> '''' \<and> is_service_id_under p (rs_namespace (ac_services c)))"

definition admission_inv :: "acceptor_opts \<Rightarrow> nat \<Rightarrow> acceptor \<Rightarrow> bool" where
  "admission_inv opts n a \<longleftrightarrow> hub_inv (ad_hub a) \<and> store_granted opts (ad_store a) \<and>
     n \<le> ad_next a \<and> (\<forall>l\<in>set (h_links (ad_hub a)). l < ad_next a) \<and>
     (\<forall>l c. jm_get (ad_accepted a) l = Some c \<longrightarrow> l < ad_next a \<and> services_granted opts (ac_services c)) \<and>
     (\<forall>p l. ft_get (h_table (ad_hub a)) p = Some l \<longrightarrow> l < n \<or> claim_within a l p)"

lemma store_granted_sub:
  "store_granted opts s \<Longrightarrow> set (ts_byToken s') \<subseteq> set (ts_byToken s) \<Longrightarrow> store_granted opts s'"
  unfolding store_granted_def by blast

lemma token_ops_sub:
  "set (ts_byToken (fst (token_peek now t s))) \<subseteq> set (ts_byToken s)"
  "set (ts_byToken (fst (token_redeem now t s))) \<subseteq> set (ts_byToken s)"
  by (auto simp: token_peek_def token_redeem_def set_jm_delete split: option.split)

lemma resolve_handler_D:
  assumes "resolve_connection_handler now fs token s = (s', r)"
  shows "set (ts_byToken s') \<subseteq> set (ts_byToken s) \<and>
    (r = None \<or> (\<exists>p claims. r = Some (Provision p) \<and> FixedProvision p claims \<in> set fs \<and> claims token) \<or>
     (r = Some (RedeemAndProvision token) \<and> BoundToken \<in> set fs \<and> jm_get (ts_byToken s') (the token) \<noteq> None))"
  using assms
proof (induction fs arbitrary: s)
  case (Cons f fs)
  obtain s1 r1 where f: "factory_handle now f token s = (s1, r1)" by fastforce
  have sub: "set (ts_byToken s1) \<subseteq> set (ts_byToken s)"
    using f token_ops_sub(1) [of now token s] by (auto simp: factory_handle_def case_prod_beta split: handler_factory.splits)
  show ?case
  proof (cases r1)
    case None
    with Cons.prems f have "resolve_connection_handler now fs token s1 = (s', r)" by simp
    from Cons.IH [OF this] sub show ?thesis by auto
  next
    case (Some h)
    with Cons.prems f have "s' = s1" "r = Some h" by auto
    with sub f Some show ?thesis
      by (auto simp: factory_handle_def case_prod_beta token_peek_def
          split: handler_factory.splits option.splits if_splits)
  qed
qed auto

lemma run_handler_granted:
  assumes "run_handler now h s = (s', Inr p)" "store_granted opts s"
    and "(\<exists>q claims. h = Provision q \<and> FixedProvision q claims \<in> set (ao_handlers opts)) \<or> h = RedeemAndProvision token"
  shows "store_granted opts s' \<and> services_granted opts (provision_root opts p)"
  using assms(3)
proof (elim disjE exE conjE)
  fix q claims assume "h = Provision q" "FixedProvision q claims \<in> set (ao_handlers opts)"
  with assms(1,2) show ?thesis
    by (auto simp: run_handler_def services_granted_def provision_root_def namespace_granted_def binder_granted_def
        fixed_provisions_def split: option.splits)
next
  assume h: "h = RedeemAndProvision token"
  with assms(1) obtain b where r: "token_redeem now token s = (s', Some b)" "rp_namespace p = tb_namespace b" "rp_binder p = None"
    by (auto simp: run_handler_def split: prod.splits option.splits)
  then obtain t e where e: "(t, e) \<in> set (ts_byToken s)" "tb_namespace b = tb_namespace e"
    by (auto simp: token_redeem_def dest!: jm_get_SomeD split: option.splits if_splits)
  have "store_granted opts s'" using store_granted_sub [OF assms(2)] token_ops_sub(2) [of now token s] r(1) by simp
  with e r assms(2) show ?thesis
    by (auto simp: services_granted_def provision_root_def store_granted_def split: option.splits)
qed

lemma attach_default:
  assumes "l \<notin> set (h_links h)"
  shows "attach h l default_attach = Inr (h\<lparr>h_links := h_links h @ [l]\<rparr>, [RoutingChanged])"
  using assms by (simp add: attach_def default_attach_def)

lemma accept_cases:
  assumes "hub_inv (ad_hub a)" "ad_next a \<notin> set (h_links (ad_hub a))" "\<not> ad_disposed a"
    and "resolve_connection_handler now1 (ao_handlers opts) token (ad_store a) = (s1, r)"
    and "accept_connection cfg opts now1 now2 key token a = (a', out)"
  obtains h p s2 c where "r = Some h" "run_handler now2 h s1 = (s2, Inr p)" "ac_services c = provision_root opts p"
      "ac_gate c = gate_hub_facing (ao_checking opts)"
      "a' = a\<lparr>ad_store := s2, ad_hub := (ad_hub a)\<lparr>h_links := h_links (ad_hub a) @ [ad_next a]\<rparr>,
         ad_next := Suc (ad_next a), ad_accepted := jm_set (ad_accepted a) (ad_next a) c\<rparr>"
      "out = [HubDid RoutingChanged, DidAttach (ad_next a)]"
  | (refused) "ad_accepted a' = ad_accepted a" "ad_disposed a' = ad_disposed a" "TransportDisposed \<in> set out"
      "ad_next a \<le> ad_next a'" "set (h_links (ad_hub a')) = set (h_links (ad_hub a))" "hub_inv (ad_hub a')"
      "\<forall>p. ft_get (h_table (ad_hub a')) p = ft_get (h_table (ad_hub a)) p"
      "set (ts_byToken (ad_store a')) \<subseteq> set (ts_byToken s1)"
proof -
  let ?l = "ad_next a" and ?h = "ad_hub a"
  let ?h1 = "?h\<lparr>h_links := h_links ?h @ [?l]\<rparr>"
  have at: "attach ?h ?l default_attach = Inr (?h1, [RoutingChanged])" by (rule attach_default [OF assms(2)])
  have inv1: "hub_inv ?h1" by (rule attach_inv [OF assms(1) at])
  show ?thesis
  proof (cases r)
    case None
    with assms(3-5) have "a' = a\<lparr>ad_store := s1\<rparr>" "TransportDisposed \<in> set out"
      by (auto simp: accept_connection_def wire_connection_def Let_def)
    with assms(1) show ?thesis by (intro refused) simp_all
  next
    case (Some h)
    obtain s2 q where q: "run_handler now2 h s1 = (s2, q)" by fastforce
    show ?thesis
    proof (cases q)
      case (Inl e)
      define h2 where "h2 = fst (detach cfg ?h1 ?l)"
      from assms(3-5) Some at q Inl have a': "a' = a\<lparr>ad_store := s2, ad_hub := h2, ad_next := Suc ?l\<rparr>" "TransportDisposed \<in> set out"
        by (auto simp: accept_connection_def wire_connection_def Let_def h2_def case_prod_beta)
      have "ft_get (h_table ?h) p \<noteq> Some ?l" for p using assms(1,2) by (auto simp: hub_inv_def links_inv_def)
      then have "\<forall>p. ft_get (h_table h2) p = ft_get (h_table ?h) p"
        using detach_claims(1) [OF inv1, of cfg ?l] by (simp add: h2_def)
      moreover have "set (h_links h2) = set (h_links ?h)"
        using detach_claims(2) [OF inv1, of cfg ?l] assms(2) by (simp add: h2_def)
      moreover have "hub_inv h2" unfolding h2_def by (rule detach_inv [OF inv1])
      moreover have "set (ts_byToken s2) \<subseteq> set (ts_byToken s1)"
        using q token_ops_sub(2) [of now2 _ s1]
        by (auto simp: run_handler_def split: connection_handler.splits prod.splits option.splits)
          (metis fst_conv subsetD)+
      ultimately show ?thesis using a' by (intro refused) simp_all
    next
      case (Inr p)
      let ?c = "\<lparr>ac_services = provision_root opts p, ac_transportKey = key,
         ac_gate = gate_hub_facing (ao_checking opts), ac_verifySignatures = (ao_checking opts \<noteq> Unchecked)\<rparr>"
      from assms(3-5) Some at q Inr show ?thesis
        by (intro that(1) [of h s2 p ?c]) (auto simp: accept_connection_def wire_connection_def Let_def)
    qed
  qed
qed

text \<open>C14: A connection is taken up whole or not at all.  Either the first handler that claims its token
  provisions its root and the hub has one more link, or the transport is closed and the hub has the links and
  routes it had before, also when the token ran out between being recognised and being redeemed.\<close>

theorem accept_all_or_nothing:
  assumes "hub_inv (ad_hub a)" "ad_next a \<notin> set (h_links (ad_hub a))" "\<not> ad_disposed a"
    and "resolve_connection_handler now1 (ao_handlers opts) token (ad_store a) = (s1, r)"
    and "accept_connection cfg opts now1 now2 key token a = (a', out)"
  shows "(\<exists>h p s2 c. r = Some h \<and> run_handler now2 h s1 = (s2, Inr p) \<and>
      ad_accepted a' = jm_set (ad_accepted a) (ad_next a) c \<and> ac_services c = provision_root opts p \<and>
      ac_gate c = gate_hub_facing (ao_checking opts) \<and>
      h_links (ad_hub a') = h_links (ad_hub a) @ [ad_next a] \<and> DidAttach (ad_next a) \<in> set out) \<or>
    (ad_accepted a' = ad_accepted a \<and> set (h_links (ad_hub a')) = set (h_links (ad_hub a)) \<and>
      (\<forall>p. ft_get (h_table (ad_hub a')) p = ft_get (h_table (ad_hub a)) p) \<and> TransportDisposed \<in> set out)"
  by (rule accept_cases [OF assms]) auto

definition demo_provision :: root_provision where
  "demo_provision = \<lparr>rp_namespace = Some ''svc'', rp_identity = None,
     rp_binder = Some \<lparr>bo_identitySlotPrefixes = [], bo_serviceIdPrefixes = [''docker/''], bo_ttlMs = None\<rparr>\<rparr>"

definition demo_acceptor_opts :: acceptor_opts where
  "demo_acceptor_opts = \<lparr>ao_handlers = [static_token_handler ''secret'' demo_provision, BoundToken], ao_policy = None,
     ao_hubServiceId = None, ao_consent = True, ao_checking = CapabilityRequired [''id:key:AA'']\<rparr>"

definition demo_acceptor :: acceptor where
  "demo_acceptor = \<lparr>ad_hub = hub_init, ad_store = new_token_store None, ad_accepted = [], ad_next = 0,
     ad_disposed = False\<rparr>"

definition demo_hub_cfg :: hub_opts where
  "demo_hub_cfg = \<lparr>ho_debugName = None, ho_nodeId = ''n'', ho_portId = (\<lambda>_. ''p''), ho_idleMs = 0\<rparr>"

lemma accept_all_or_nothing_witness:
  "DidAttach 0 \<in> set (snd (accept_connection demo_hub_cfg demo_acceptor_opts 1 1 None (Some ''secret'') demo_acceptor))"
proof -
  obtain a' out where e: "accept_connection demo_hub_cfg demo_acceptor_opts 1 1 None (Some ''secret'') demo_acceptor = (a', out)"
    by fastforce
  obtain s1 r where s1: "resolve_connection_handler 1 (ao_handlers demo_acceptor_opts) (Some ''secret'')
      (ad_store demo_acceptor) = (s1, r)" by fastforce
  have "hub_inv (ad_hub demo_acceptor)" "ad_next demo_acceptor \<notin> set (h_links (ad_hub demo_acceptor))" "\<not> ad_disposed demo_acceptor"
    by (simp_all add: demo_acceptor_def) (simp add: hub_init_def)
  from accept_all_or_nothing [OF this s1 e]
  have "DidAttach 0 \<in> set out \<or> ad_accepted a' = []" by (auto simp: demo_acceptor_def)
  moreover have "ad_accepted a' \<noteq> []"
    using e by (auto simp: accept_connection_def wire_connection_def demo_acceptor_def demo_acceptor_opts_def
        static_token_handler_def factory_handle_def run_handler_def attach_def default_attach_def hub_init_def Let_def)
  ultimately show ?thesis by (simp add: e)
qed

lemma admission_inv_hub:
  assumes "admission_inv opts n a" "no_new_claims n (ad_hub a) h'" "hub_inv h'"
  shows "admission_inv opts n (a\<lparr>ad_hub := h'\<rparr>)"
proof -
  have "claim_within (a\<lparr>ad_hub := h'\<rparr>) l p = claim_within a l p" for l p by (simp add: claim_within_def)
  moreover have "l < n \<or> claim_within a l p" if "ft_get (h_table h') p = Some l" for p l
    using assms(1,2) that unfolding admission_inv_def no_new_claims_def by blast
  moreover have "l < ad_next a" if "l \<in> set (h_links h')" for l
    using assms(1,2) that unfolding admission_inv_def no_new_claims_def by (meson less_le_trans)
  ultimately show ?thesis using assms(1,3) by (simp add: admission_inv_def)
qed

lemma admission_inv_accept:
  assumes "admission_inv opts n a"
  shows "admission_inv opts n (fst (accept_connection cfg opts now1 now2 key token a))"
proof (cases "ad_disposed a")
  case False
  obtain a' out where e: "accept_connection cfg opts now1 now2 key token a = (a', out)" by fastforce
  obtain s1 r where s1: "resolve_connection_handler now1 (ao_handlers opts) token (ad_store a) = (s1, r)" by fastforce
  note D = resolve_handler_D [OF s1]
  have inv: "hub_inv (ad_hub a)" "ad_next a \<notin> set (h_links (ad_hub a))" "store_granted opts (ad_store a)"
    using assms by (auto simp: admission_inv_def)
  have fresh: "l < n \<or> claim_within a l p \<and> l \<noteq> ad_next a" if "ft_get (h_table (ad_hub a)) p = Some l" for p l
  proof -
    have "l < n \<or> claim_within a l p" using assms that unfolding admission_inv_def by blast
    moreover have "l \<noteq> ad_next a" if "claim_within a l p"
      using assms that unfolding admission_inv_def claim_within_def by (metis less_irrefl)
    ultimately show ?thesis by blast
  qed
  have sg: "store_granted opts s1" using store_granted_sub [OF inv(3)] D by blast
  show ?thesis
  proof (rule accept_cases [OF inv(1,2) False s1 e])
    fix h p s2 c
    assume h: "r = Some h" "run_handler now2 h s1 = (s2, Inr p)" "ac_services c = provision_root opts p"
      and a': "a' = a\<lparr>ad_store := s2, ad_hub := (ad_hub a)\<lparr>h_links := h_links (ad_hub a) @ [ad_next a]\<rparr>,
         ad_next := Suc (ad_next a), ad_accepted := jm_set (ad_accepted a) (ad_next a) c\<rparr>"
    have "store_granted opts s2 \<and> services_granted opts (provision_root opts p)"
      by (rule run_handler_granted [OF h(2) sg]) (use D h(1) in auto)
    moreover have "hub_inv (ad_hub a')" using attach_inv [OF inv(1) attach_default [OF inv(2)]] by (simp add: a')
    moreover have "l < n \<or> claim_within a' l q" if "ft_get (h_table (ad_hub a')) q = Some l" for q l
      using fresh [of q l] that by (auto simp: a' claim_within_def)
    ultimately show ?thesis using assms h(3) by (auto simp: e admission_inv_def a' less_Suc_eq)
  next
    assume r: "ad_accepted a' = ad_accepted a" "ad_next a \<le> ad_next a'" "set (h_links (ad_hub a')) = set (h_links (ad_hub a))"
      "hub_inv (ad_hub a')" "\<forall>p. ft_get (h_table (ad_hub a')) p = ft_get (h_table (ad_hub a)) p"
      "set (ts_byToken (ad_store a')) \<subseteq> set (ts_byToken s1)"
    have "claim_within a' l q = claim_within a l q" for l q by (simp add: claim_within_def r(1))
    moreover have "store_granted opts (ad_store a')" by (rule store_granted_sub [OF sg r(6)])
    moreover have "jm_get (ad_accepted a) l = Some c \<Longrightarrow> l < ad_next a'" for l c
      using assms r(2) by (auto simp: admission_inv_def dest: less_le_trans)
    ultimately show ?thesis using assms r(1-5) by (auto simp: e admission_inv_def dest: less_le_trans)
  qed
qed (use assms in \<open>simp add: accept_connection_def\<close>)
lemma claim_prefix_D:
  assumes "claim_prefix h l p = Inr (h', out)" "hub_inv h"
  shows "hub_inv h' \<and> ft_get (h_table h') q = (if q = p then Some l else ft_get (h_table h) q) \<and>
    set (h_links h') = insert l (set (h_links h))"
proof -
  note at = assms(1) [unfolded claim_prefix_def]
  show ?thesis
    using attach_inv [OF assms(2) at] attach_fields(1) [OF at] attach_fields(7) [OF at, of q] by auto
qed

lemma admission_inv_register:
  assumes "admission_inv opts n a" "ao_policy opts = None"
  shows "admission_inv opts n (fst (register_at_root opts link p a))"
proof (cases "\<exists>c hub' out. jm_get (ad_accepted a) link = Some c \<and> claim_at_root opts c p = ClaimOk \<and>
    claim_prefix (ad_hub a) link p = Inr (hub', out)")
  case True
  then obtain c hub' out where c: "jm_get (ad_accepted a) link = Some c" "claim_at_root opts c p = ClaimOk"
    "claim_prefix (ad_hub a) link p = Inr (hub', out)" by blast
  have "claim_within a link p"
    using c(1,2) assms(2) by (auto simp: claim_within_def claim_at_root_def Let_def split: if_splits)
  moreover have "claim_within (a\<lparr>ad_hub := hub'\<rparr>) l q = claim_within a l q" for l q by (simp add: claim_within_def)
  moreover have "hub_inv (ad_hub a)" using assms(1) by (simp add: admission_inv_def)
  ultimately have "admission_inv opts n (a\<lparr>ad_hub := hub'\<rparr>)"
    using assms(1) c(1) claim_prefix_D [OF c(3)] by (auto simp: admission_inv_def split: if_splits)
  then show ?thesis using c by (simp add: register_at_root_def)
next
  case False
  then have "fst (register_at_root opts link p a) = a"
    by (auto simp: register_at_root_def split: option.split claim_verdict.split sum.split)
  then show ?thesis using assms(1) by simp
qed

lemma store_granted_bind:
  assumes "store_granted opts s" "binder_granted opts b"
  shows "store_granted opts (fst (bind_connection_token b now fresh slot ns s))"
proof -
  have p: "set (ts_byToken (token_prune now s)) \<subseteq> set (ts_byToken s)" by (auto simp: token_prune_def)
  have "namespace_granted opts x" if "ns = Some x" "list_ex (starts_with x) (bo_serviceIdPrefixes b)" for x
    using assms(2) that by (auto simp: namespace_granted_def binder_granted_def)
  moreover have "store_granted opts (fst (token_mint now fresh bnd ttl s))"
    if "\<forall>x. tb_namespace bnd = Some x \<longrightarrow> namespace_granted opts x" for bnd ttl
    using set_jm_set_subset [of "ts_byToken (token_prune now s)" fresh] p that assms(1)
    by (fastforce simp: token_mint_def Let_def store_granted_def)
  ultimately show ?thesis
    using assms(1)
    by (auto simp: bind_connection_token_def assert_under_prefix_def case_prod_beta Let_def split: option.split)
qed

lemma detach_all_inv:
  "hub_inv h \<Longrightarrow> hub_inv (fst (detach_all cfg ls h)) \<and>
     (\<forall>p. ft_get (h_table (fst (detach_all cfg ls h))) p =
       (case ft_get (h_table h) p of Some l \<Rightarrow> if l \<in> set ls then None else Some l | None \<Rightarrow> None)) \<and>
     set (h_links (fst (detach_all cfg ls h))) = set (h_links h) - set ls"
proof (induction ls arbitrary: h)
  case (Cons l ls)
  show ?case
    using Cons.IH [OF detach_inv [OF Cons.prems, of cfg l]] detach_claims [OF Cons.prems, of cfg l]
    by (auto simp: case_prod_beta split: option.split)
qed (simp split: option.split)

lemma admission_step_inv:
  assumes "admission_inv opts n a" "ao_policy opts = None"
    and "case e of HubEvent _ ev \<Rightarrow> host_event n ev | _ \<Rightarrow> True"
  shows "admission_inv opts n (fst (admission_step cfg opts e a))"
proof -
  have inv: "hub_inv (ad_hub a)" using assms(1) by (simp add: admission_inv_def)
  show ?thesis
  proof (cases e)
    case (Accept now1 now2 key token)
    then show ?thesis using admission_inv_accept [OF assms(1)] by (simp add: admission_step_def)
  next
    case (ConnectionClosed link)
    define a' where "a' = fst (connection_closed cfg link a)"
    have f: "ad_accepted a' = jm_delete (ad_accepted a) link" "ad_hub a' = fst (detach cfg (ad_hub a) link)"
      "ad_store a' = ad_store a" "ad_next a' = ad_next a"
      by (simp_all add: a'_def connection_closed_def case_prod_beta)
    have "l < n \<or> claim_within a' l p" if "ft_get (h_table (ad_hub a')) p = Some l" for p l
    proof -
      have "l \<noteq> link" "ft_get (h_table (ad_hub a)) p = Some l"
        using that detach_claims(1) [OF inv, of cfg link p] by (auto simp: f(2) split: if_splits)
      then have "l < n \<or> claim_within a l p" using assms(1) unfolding admission_inv_def by blast
      then show ?thesis using \<open>l \<noteq> link\<close> by (simp add: claim_within_def f(1))
    qed
    moreover have "hub_inv (ad_hub a')" "set (h_links (ad_hub a')) \<subseteq> set (h_links (ad_hub a))"
      using detach_inv [OF inv, of cfg link] detach_claims(2) [OF inv, of cfg link] by (auto simp: f)
    moreover have "l < ad_next a \<and> services_granted opts (ac_services c)" if "jm_get (ad_accepted a') l = Some c" for l c
      using assms(1) that unfolding admission_inv_def by (auto simp: f split: if_splits)
    moreover have "fst (admission_step cfg opts e a) = a'" by (simp add: ConnectionClosed admission_step_def a'_def)
    ultimately show ?thesis using assms(1) by (simp add: admission_inv_def f(3,4)) blast
  next
    case (BindToken link now fresh slot ns)
    have "binder_granted opts b" if "binder_at a link = Some b" for b
      using assms(1) that by (auto simp: binder_at_def admission_inv_def services_granted_def split: option.splits)
    then show ?thesis
      using assms(1) store_granted_bind [of opts "ad_store a"]
      by (auto simp: BindToken admission_step_def admission_inv_def claim_within_def split: option.split)
  next
    case (RegisterAtRoot link p)
    then show ?thesis using admission_inv_register [OF assms(1,2)] by (simp add: admission_step_def case_prod_beta)
  next
    case DisposeAcceptor
    show ?thesis
    proof (cases "ad_disposed a")
      case False
      define h' where "h' = fst (detach_all cfg (map fst (ad_accepted a)) (ad_hub a))"
      note D = detach_all_inv [OF inv, of cfg "map fst (ad_accepted a)", folded h'_def]
      have "l < n" if "ft_get (h_table h') p = Some l" for p l
      proof -
        have "ft_get (h_table (ad_hub a)) p = Some l" "l \<notin> fst ` set (ad_accepted a)"
          using that D by (auto split: option.splits if_splits)
        moreover have "jm_get (ad_accepted a) l = None" using calculation(2) by (simp add: jm_get_None_iff)
        ultimately show ?thesis using assms(1) unfolding admission_inv_def claim_within_def by fastforce
      qed
      moreover have "fst (admission_step cfg opts e a) = a\<lparr>ad_hub := h', ad_accepted := [], ad_disposed := True\<rparr>"
        using False by (simp add: DisposeAcceptor admission_step_def acceptor_dispose_def case_prod_beta h'_def)
      ultimately show ?thesis using assms(1) D by (simp add: admission_inv_def)
    qed (use assms(1) in \<open>simp add: DisposeAcceptor admission_step_def acceptor_dispose_def\<close>)
  next
    case (HubEvent now ev)
    have "no_new_claims n (ad_hub a) (fst (hub_step cfg (ad_hub a) (now, ev)))"
      using assms(3) by (intro no_new_claims_host [OF inv]) (simp add: HubEvent)
    from admission_inv_hub [OF assms(1) this hub_step_inv [OF inv]] show ?thesis
      by (simp add: HubEvent admission_step_def case_prod_beta)
  qed
qed

lemma admission_run_inv:
  "admission_inv opts n a \<Longrightarrow> ao_policy opts = None \<Longrightarrow>
   \<forall>e\<in>set es. case e of HubEvent _ ev \<Rightarrow> host_event n ev | _ \<Rightarrow> True \<Longrightarrow> admission_inv opts n (admission_run cfg opts es a)"
  by (induction es arbitrary: a) (simp_all add: admission_step_inv)

text \<open>C10: Whatever connections come and go, mint tokens, redeem them and register, and whatever passes through the
  hub: a prefix the hub routes to an accepted connection lies under the one namespace that this connection was
  provisioned with when it was accepted, and that namespace is one the configuration gives to a fixed handler, or
  begins with a prefix of a binder the configuration installs.  This is without a claim policy and without the
  capability-gated front door: links of the host may be attached and claim as they like, accepted ones only
  register at their root.\<close>

theorem claims_confined:
  assumes "hub_inv h" "\<forall>l\<in>set (h_links h). l < n" "ao_policy opts = None"
    and "\<forall>e\<in>set es. case e of HubEvent _ ev \<Rightarrow> host_event n ev | _ \<Rightarrow> True"
    and "a = admission_run cfg opts es
      \<lparr>ad_hub = h, ad_store = new_token_store ttl, ad_accepted = [], ad_next = n, ad_disposed = False\<rparr>"
    and "ft_get (h_table (ad_hub a)) p = Some l" "n \<le> l"
  shows "\<exists>c ns. jm_get (ad_accepted a) l = Some c \<and> ns = rs_namespace (ac_services c) \<and> ns \<noteq> '''' \<and>
    is_service_id_under p ns \<and> namespace_granted opts ns"
proof -
  have "admission_inv opts n
      \<lparr>ad_hub = h, ad_store = new_token_store ttl, ad_accepted = [], ad_next = n, ad_disposed = False\<rparr>"
    using assms(1,2)
    by (auto simp: admission_inv_def store_granted_def new_token_store_def hub_inv_def links_inv_def)
  from admission_run_inv [OF this assms(3,4)] have "admission_inv opts n a" by (simp add: assms(5))
  with assms(6,7) have "claim_within a l p"
    "\<forall>c. jm_get (ad_accepted a) l = Some c \<longrightarrow> services_granted opts (ac_services c)"
    unfolding admission_inv_def by (meson not_le)+
  then show ?thesis by (auto simp: claim_within_def services_granted_def)
qed

definition demo_admission :: "admission_event list" where
  "demo_admission = [Accept 1 1 None (Some ''secret''), BindToken 0 2 ''t'' None (Some ''docker/a''),
     Accept 3 3 None (Some ''t''), RegisterAtRoot 1 ''docker/a/x'', RegisterAtRoot 1 ''other'']"

lemma claims_confined_witness:
  "\<exists>c. jm_get (ad_accepted (admission_run demo_hub_cfg demo_acceptor_opts demo_admission
      \<lparr>ad_hub = hub_init, ad_store = new_token_store None, ad_accepted = [], ad_next = 0, ad_disposed = False\<rparr>)) 1 = Some c \<and>
    is_service_id_under ''docker/a/x'' (rs_namespace (ac_services c))"
proof -
  have h: "\<forall>l\<in>set (h_links hub_init). l < 0" "ao_policy demo_acceptor_opts = None"
    by (simp_all add: hub_init_def demo_acceptor_opts_def)
  have e: "\<forall>e\<in>set demo_admission. case e of HubEvent _ ev \<Rightarrow> host_event 0 ev | _ \<Rightarrow> True"
    by (simp add: demo_admission_def)
  have "ft_get (h_table (ad_hub (admission_run demo_hub_cfg demo_acceptor_opts demo_admission
      \<lparr>ad_hub = hub_init, ad_store = new_token_store None, ad_accepted = [], ad_next = 0, ad_disposed = False\<rparr>)))
      ''docker/a/x'' = Some 1"
    by code_simp
  from claims_confined [OF hub_inv_init h e refl this] show ?thesis by auto
qed

end
