(* ===== verification/Proposal.thy ===== *)
theory Proposal
  imports FramingCorrect Chain
begin

text \<open>
  Proposed capabilities, \<^verbatim>\<open>capabilityProposal.ts\<close>: the consent host shows a user the capability it is about
  to sign, hands out the unsigned capability with a signed copy, and redeems what comes back.  The mark that
  tells a proposed capability from one made up elsewhere is a hidden property of the object, so it is lost in
  any copy that went over a wire; here it is a flag beside the value.  The random part of a nonce is an
  argument; decoding of text is the runtime of theory \<open>Framing\<close>.
\<close>

section \<open>Issuing proposals\<close>

record proposal_issuer =
  pi_identity :: signing_identity
  pi_redeemed :: "json option list"
  pi_counter :: nat

record propose_args =
  pa_audience :: string
  pa_permissions :: "json list"
  pa_expiresAtMs :: "jsnum option"

record handled_cap =
  hc_cap :: json
  hc_proposed :: bool

record capability_proposal =
  cpr_capability :: json
  cpr_hubData :: json

definition new_proposal_issuer :: "signing_identity \<Rightarrow> proposal_issuer" where
  "new_proposal_issuer idn = \<lparr>pi_identity = idn, pi_redeemed = [], pi_counter = 0\<rparr>"

definition issuer_principal_id :: "proposal_issuer \<Rightarrow> string" where
  "issuer_principal_id st = si_principal (pi_identity st)"

definition is_hub_proposal_data :: "json \<Rightarrow> bool" where
  "is_hub_proposal_data v = (is_str (field ''payload'' v) \<and> is_str (field ''signature'' v))"

definition canonical_equal :: "json option \<Rightarrow> json option \<Rightarrow> bool" where
  "canonical_equal a b = (case (a, b) of
     (Some x, Some y) \<Rightarrow> (case (jcs_canonicalize x, jcs_canonicalize y) of (Inr s, Inr t) \<Rightarrow> s = t | _ \<Rightarrow> False)
   | _ \<Rightarrow> False)"

definition next_nonce :: "bytes \<Rightarrow> proposal_issuer \<Rightarrow> proposal_issuer \<times> string" where
  "next_nonce randomBytes st =
     (let n = Suc (pi_counter st) in
      (st\<lparr>pi_counter := n\<rparr>, bytes_to_base64url randomBytes @ ''-'' @ show_nat n))"

definition propose :: "bytes \<Rightarrow> propose_args \<Rightarrow> proposal_issuer \<Rightarrow> proposal_issuer \<times> handled_cap" where
  "propose randomBytes args st =
     (case next_nonce randomBytes st of (st', nonce) \<Rightarrow>
       (st', \<lparr>hc_cap = capability_object (issuer_principal_id st) (pa_audience args) (pa_permissions args) nonce
                (pa_expiresAtMs args) None, hc_proposed = True\<rparr>))"

definition sign_proposed :: "json \<Rightarrow> proposal_issuer \<Rightarrow> json res" where
  "sign_proposed cap st = sign_capability cap (pi_identity st)"

definition mint_proposed :: "bytes \<Rightarrow> propose_args \<Rightarrow> proposal_issuer \<Rightarrow> proposal_issuer \<times> json res" where
  "mint_proposed randomBytes args st =
     (case propose randomBytes args st of (st', cap) \<Rightarrow> (st', sign_proposed (hc_cap cap) st'))"

definition proposal_payload :: "json \<Rightarrow> json option \<Rightarrow> json" where
  "proposal_payload cap bind =
     JObj ((''preview'', cap) # (case bind of Some b \<Rightarrow> [(''bind'', b)] | None \<Rightarrow> []))"

definition sign_proposal :: "handled_cap \<Rightarrow> json option \<Rightarrow> proposal_issuer \<Rightarrow> capability_proposal res" where
  "sign_proposal cap bind st =
     (if \<not> hc_proposed cap then Inl (JsError ''signProposal: capability was not produced by propose()'')
      else res_bind (jcs_canonicalize_bytes (proposal_payload (hc_cap cap) bind)) (\<lambda>previewBytes.
        Inr \<lparr>cpr_capability = hc_cap cap,
          cpr_hubData = JObj [(''payload'', JStr (bytes_to_base64url previewBytes)),
            (''signature'', JStr (bytes_to_base64url (si_sign (pi_identity st) previewBytes)))]\<rparr>))"

section \<open>Redeeming\<close>

text \<open>\<^verbatim>\<open>v.k\<close> on a parsed value.\<close>

definition get_property :: "string \<Rightarrow> json \<Rightarrow> json option res" where
  "get_property k v = (case v of
     JNull \<Rightarrow> Inl (JsError (''Cannot read properties of null (reading '' @ [CHR 0x27] @ k @ [CHR 0x27] @ '')''))
   | _ \<Rightarrow> Inr (field k v))"

definition issuer_key :: "proposal_issuer \<Rightarrow> bytes res" where
  "issuer_key st = res_bind (key_id_for_principal (issuer_principal_id st)) public_key_for_key_id"

definition bind_error :: "json option \<Rightarrow> json option \<Rightarrow> string option" where
  "bind_error actual want =
     (case (actual, want) of
        (Some _, None) \<Rightarrow> Some ''redeemProposal: proposal is bound but no expectedBind supplied''
      | (None, Some _) \<Rightarrow> Some ''redeemProposal: expectedBind supplied but proposal has no bind''
      | (None, None) \<Rightarrow> None
      | (Some _, Some _) \<Rightarrow>
          if canonical_equal actual want then None
          else Some ''redeemProposal: bind does not match expectedBind'')"

definition check_payload :: "runtime \<Rightarrow> verifier \<Rightarrow> capability_proposal \<Rightarrow> json option \<Rightarrow> proposal_issuer \<Rightarrow> json res" where
  "check_payload rt verify p expectedBind st =
     (if \<not> is_hub_proposal_data (cpr_hubData p) then Inl (JsError ''redeemProposal: malformed $hubData'')
      else
        res_bind (base64url_to_bytes (str_of (field ''payload'' (cpr_hubData p)))) (\<lambda>payloadBytes.
        res_bind (base64url_to_bytes (str_of (field ''signature'' (cpr_hubData p)))) (\<lambda>sigBytes.
        res_bind (issuer_key st) (\<lambda>pubKey.
          if \<not> verify pubKey payloadBytes sigBytes
          then Inl (JsError ''redeemProposal: $hubData.signature does not verify'')
          else (case json_parse (utf8_text rt payloadBytes) of
              None \<Rightarrow> Inl (JsError (''redeemProposal: malformed payload ('' @ syntax_error rt (utf8_text rt payloadBytes) @ '')''))
            | Some parsed \<Rightarrow>
                res_bind (get_property ''preview'' parsed) (\<lambda>preview.
                if \<not> canonical_equal preview (Some (cpr_capability p))
                then Inl (JsError ''redeemProposal: proposal.capability does not match the signed preview'')
                else res_bind (get_property ''bind'' parsed) (\<lambda>b.
                  case bind_error b expectedBind of
                    Some e \<Rightarrow> Inl (JsError e)
                  | None \<Rightarrow> Inr (the preview))))))))"

definition redeem_proposal ::
    "runtime \<Rightarrow> verifier \<Rightarrow> capability_proposal \<Rightarrow> json option \<Rightarrow> proposal_issuer \<Rightarrow> proposal_issuer \<times> json res" where
  "redeem_proposal rt verify p expectedBind st =
     (case check_payload rt verify p expectedBind st of
        Inl e \<Rightarrow> (st, Inl e)
      | Inr cap \<Rightarrow> (case get_property ''nonce'' cap of
          Inl e \<Rightarrow> (st, Inl e)
        | Inr nonce \<Rightarrow>
            if nonce \<in> set (pi_redeemed st) then (st, Inl (JsError ''redeemProposal: proposal already redeemed''))
            else (let st' = st\<lparr>pi_redeemed := pi_redeemed st @ [nonce]\<rparr> in (st', sign_proposed cap st'))))"

section \<open>The canonical text reads back\<close>

lemma json_ok_jnorm: "json_ok j \<Longrightarrow> json_ok (jnorm j)"
proof (induction j)
  case (JObj kvs)
  let ?m = "map (map_prod id jnorm) kvs"
  have "distinct (map fst (sort_key fst ?m)) = distinct (map fst ?m)"
    by (rule mset_eq_imp_distinct_iff) (simp only: mset_map mset_sort)
  moreover have "map fst ?m = map fst kvs" by simp
  moreover have "list_all snd (map (map_prod id json_ok) ?m)"
    using JObj by (auto simp: list_all_iff)
  ultimately show ?case using JObj.prems by (auto simp: list_all_iff)
qed (auto simp: list_all_iff)

lemma jnorm_idem [simp]: "jnorm (jnorm j) = jnorm j"
proof (induction j)
  case (JObj kvs)
  have "map (map_prod id jnorm) (map (map_prod id jnorm) kvs) = map (map_prod id jnorm) kvs"
    using JObj.IH by fastforce
  then have "sort_key fst (map (map_prod id jnorm) (sort_key fst (map (map_prod id jnorm) kvs))) =
      sort_key fst (sort_key fst (map (map_prod id jnorm) kvs))"
    by (metis sort_key_map_prod)
  also have "\<dots> = sort_key fst (map (map_prod id jnorm) kvs)"
    by (rule sort_key_id_if_sorted) (rule sorted_sort_key)
  finally show ?case by simp
qed simp_all

lemma json_finite_jnorm [simp]: "json_finite (jnorm j) = json_finite j"
  by (induction j) (auto simp: list_all_iff)

lemma stringify_jnorm: "json_finite j \<Longrightarrow> json_stringify (jnorm j) = text_of j"
proof (induction j)
  case (JNum n)
  then show ?case by (cases n) (simp_all add: text_of_simps num_finite_def)
next
  case (JArr xs)
  then have "map (json_stringify \<circ> jnorm) xs = map text_of xs" by (auto simp: list_all_iff)
  then show ?case by (simp only: text_of_JArr [OF JArr.prems] jnorm.simps json_stringify.simps map_map append.simps)
next
  case (JObj kvs)
  have "map (map_prod id json_stringify) (map (map_prod id jnorm) kvs) = map (map_prod id text_of) kvs"
    using JObj by (fastforce simp: list_all_iff)
  then have "map (map_prod id json_stringify) (sort_key fst (map (map_prod id jnorm) kvs)) =
      map (map_prod id text_of) (sort_key fst kvs)"
    by (metis sort_key_map_prod)
  moreover have "stringify_part \<circ> map_prod id text_of = part_of"
    by (simp add: fun_eq_iff part_of_def stringify_part_def)
  ultimately show ?case by (simp add: text_of_JObj [OF JObj.prems])
qed (simp_all add: text_of_simps)

lemma parse_canonical:
  assumes "json_ok j" "canonicalize j = Inr s"
  shows "json_parse s = Some (jnorm j)"
proof -
  have "is_ok (canonicalize j)" using assms(2) by (simp add: is_ok_def)
  then have fin: "json_finite j" by (simp only: canonicalize_ok_iff)
  have "s = json_stringify (jnorm j)" using assms(2) stringify_jnorm [OF fin] by (simp add: text_of_def)
  with parse_stringify [OF json_ok_jnorm [OF assms(1)]] fin show ?thesis by simp
qed

section \<open>What redeeming guarantees\<close>

lemma canonical_equal_iff:
  assumes "json_ok x" "json_ok y"
  shows "canonical_equal (Some x) (Some y) \<longleftrightarrow> json_finite x \<and> jnorm x = jnorm y"
proof -
  have f: "json_finite x = json_finite y" if "jnorm x = jnorm y" using json_finite_jnorm [of x] json_finite_jnorm [of y] that by simp
  show ?thesis
  proof (cases "json_finite x \<and> json_finite y")
    case True
    then have c: "canonicalize x = Inr (text_of x)" "canonicalize y = Inr (text_of y)" by (simp_all add: canonicalize_finite)
    have "text_of x = text_of y \<longleftrightarrow> jnorm x = jnorm y"
    proof
      assume "text_of x = text_of y"
      then show "jnorm x = jnorm y" using text_of_cancel [of x y "[]" "[]"] True assms by (simp add: stops_def)
    next
      assume "jnorm x = jnorm y"
      then show "text_of x = text_of y" by (metis canonicalize_jnorm text_of_def)
    qed
    with True c show ?thesis by (simp add: canonical_equal_def jcs_canonicalize_def)
  next
    case False
    then have "\<not> is_ok (canonicalize x) \<or> \<not> is_ok (canonicalize y)" by (simp add: canonicalize_ok_iff)
    then have "\<not> canonical_equal (Some x) (Some y)"
      by (auto simp: canonical_equal_def jcs_canonicalize_def is_ok_def split: sum.splits)
    with False f show ?thesis by blast
  qed
qed

lemma jnorm_payload:
  "jnorm (proposal_payload cap bind) =
     JObj ((case bind of Some b \<Rightarrow> [(''bind'', jnorm b)] | None \<Rightarrow> []) @ [(''preview'', jnorm cap)])"
  by (cases bind) (simp_all add: proposal_payload_def)

lemma payload_properties:
  "get_property ''preview'' (jnorm (proposal_payload cap bind)) = Inr (Some (jnorm cap))"
  "get_property ''bind'' (jnorm (proposal_payload cap bind)) = Inr (map_option jnorm bind)"
  by (cases bind; simp add: jnorm_payload get_property_def)+

definition opt_jok :: "json option \<Rightarrow> bool" where
  "opt_jok v = (case v of Some j \<Rightarrow> json_ok j \<and> json_finite j | None \<Rightarrow> True)"

lemma payload_ok:
  "json_ok cap \<Longrightarrow> opt_jok bind \<Longrightarrow> json_ok (proposal_payload cap bind)"
  "json_finite cap \<Longrightarrow> opt_jok bind \<Longrightarrow> json_finite (proposal_payload cap bind)"
  by (cases bind; simp add: proposal_payload_def opt_jok_def)+

lemma payload_text:
  assumes "json_ok v" "jcs_canonicalize_bytes v = Inr bs" "reads_utf8 rt"
  shows "json_parse (utf8_text rt bs) = Some (jnorm v)"
  using assms parse_canonical [OF assms(1)]
  by (auto simp: jcs_canonicalize_bytes_def jcs_canonicalize_def res_bind_Inr_iff reads_utf8_def)

text \<open>What the issuer's key signs: proposals, and the signed objects of the other protocols.\<close>

definition signed_by_issuer :: "(json \<times> json option) list \<Rightarrow> bytes \<Rightarrow> bool" where
  "signed_by_issuer proposals m \<longleftrightarrow>
     (\<exists>(cap, bind)\<in>set proposals. jcs_canonicalize_bytes (proposal_payload cap bind) = Inr m) \<or>
     (\<exists>d kvs. json_ok (JObj kvs) \<and> signing_input d (JObj kvs) = Inr m)"

lemma signing_input_no_preview:
  assumes "json_ok (JObj kvs)" "signing_input d (JObj kvs) = Inr m" "reads_utf8 rt"
  shows "\<exists>v. json_parse (utf8_text rt m) = Some v \<and> get_property ''preview'' v = Inr None"
proof -
  let ?v = "JObj [(signing_domain_value d, JObj (signed_part (JObj kvs)))]"
  have "json_ok ?v" using json_ok_signed_part [OF assms(1)] by simp
  from payload_text [OF this _ assms(3)] assms(2) have "json_parse (utf8_text rt m) = Some (jnorm ?v)"
    by (simp add: signing_input_def del: jnorm.simps)
  then show ?thesis by (auto simp: get_property_def signing_domain_value_def)
qed

lemma check_payload_D:
  assumes "check_payload rt verify p want st = Inr cap"
  obtains m sig pk v b where "verify pk m sig" "issuer_key st = Inr pk" "json_parse (utf8_text rt m) = Some v"
    "get_property ''preview'' v = Inr (Some cap)" "canonical_equal (Some cap) (Some (cpr_capability p))"
    "get_property ''bind'' v = Inr b" "bind_error b want = None"
  using assms
  by (auto simp: check_payload_def res_bind_Inr_iff canonical_equal_def split: if_splits option.splits)

lemma jm_delete_jnorm:
  "jm_delete (sort_key fst (map (map_prod id jnorm) kvs)) k = sort_key fst (map (map_prod id jnorm) (jm_delete kvs k))"
proof -
  have "jm_delete (map (map_prod id jnorm) kvs) k = map (map_prod id jnorm) (jm_delete kvs k)"
    by (induction kvs) (auto simp: jm_delete_def)
  then show ?thesis unfolding jm_delete_def by (simp add: filter_sort)
qed

lemma signed_part_jnorm: "JObj (signed_part (jnorm (JObj kvs))) = jnorm (JObj (signed_part (JObj kvs)))"
  by (simp add: signed_part_def jm_delete_jnorm)

lemma signing_input_jnorm: "signing_input d (jnorm (JObj kvs)) = signing_input d (JObj kvs)"
proof -
  have c: "canonicalize (JObj [(k, jnorm v)]) = canonicalize (JObj [(k, v)])" for k v
    by (simp add: canonicalize_jnorm)
  show ?thesis
    unfolding signing_input_def jcs_canonicalize_bytes_def jcs_canonicalize_def signed_part_jnorm c ..
qed

lemma sign_jnorm:
  assumes "sign_capability (jnorm (JObj kvs)) idn = Inr cap"
  shows "signing_input ''capability'' cap = signing_input ''capability'' (JObj kvs)"
proof -
  obtain kvs' where n: "jnorm (JObj kvs) = JObj kvs'" by simp
  from assms obtain e where "cap = with_signature (JObj kvs') ''capability'' e"
    by (auto simp: sign_capability_def sign_object_def n res_bind_Inr_iff simp del: jnorm.simps)
  then show ?thesis using signing_input_jnorm [of "''capability''" kvs] n
    by (simp add: signing_input_with_signature del: jnorm.simps)
qed

lemma bind_error_None:
  assumes "bind_error b want = None" "opt_jok want" "\<forall>x. b = Some x \<longrightarrow> json_ok x"
  shows "map_option jnorm b = map_option jnorm want"
  using assms
  by (cases b; cases want) (auto simp: bind_error_def opt_jok_def canonical_equal_iff split: if_splits)

text \<open>The capabilities \<open>propose\<close> makes and the bindings they are signed with.\<close>

definition proposed_ok :: "(json \<times> json option) list \<Rightarrow> bool" where
  "proposed_ok proposals = list_all (\<lambda>(cap, bind). is_record (Some cap) \<and> json_ok cap \<and> opt_jok bind) proposals"

text \<open>If nothing verifies under the issuer's key but what the issuer signed, then redeeming gives a capability
  only for a proposal the issuer signed, shown unchanged and with the binding asked for.\<close>

lemma redeem_as_shown:
  assumes "reads_utf8 rt" "issuer_key st = Inr pk" "\<forall>m sig. verify pk m sig \<longrightarrow> signed_by_issuer proposals m"
    and "proposed_ok proposals" "json_ok (cpr_capability p)" "opt_jok want"
    and "redeem_proposal rt verify p want st = (st', Inr cap)"
  shows "\<exists>(shown, bind)\<in>set proposals.
    jnorm (cpr_capability p) = jnorm shown \<and> map_option jnorm bind = map_option jnorm want \<and>
    signing_input ''capability'' cap = signing_input ''capability'' (cpr_capability p) \<and>
    field ''nonce'' (jnorm shown) \<notin> set (pi_redeemed st) \<and> field ''nonce'' (jnorm shown) \<in> set (pi_redeemed st')"
proof -
  from assms(7) obtain prv nonce where prv: "check_payload rt verify p want st = Inr prv"
    "get_property ''nonce'' prv = Inr nonce" "nonce \<notin> set (pi_redeemed st)"
    "st' = st\<lparr>pi_redeemed := pi_redeemed st @ [nonce]\<rparr>" "sign_proposed prv st' = Inr cap"
    by (auto simp: redeem_proposal_def Let_def split: sum.splits if_splits)
  obtain m sig b v where m: "verify pk m sig" "json_parse (utf8_text rt m) = Some v"
    "get_property ''preview'' v = Inr (Some prv)" "canonical_equal (Some prv) (Some (cpr_capability p))"
    "get_property ''bind'' v = Inr b" "bind_error b want = None"
    by (rule check_payload_D [OF prv(1)]) (use assms(2) in simp)
  from m(2,3) signing_input_no_preview [OF _ _ assms(1), of _ _ m]
  have "\<not> (\<exists>d kvs. json_ok (JObj kvs) \<and> signing_input d (JObj kvs) = Inr m)" by fastforce
  with assms(3) m(1) obtain shown bind where s: "(shown, bind) \<in> set proposals"
    "jcs_canonicalize_bytes (proposal_payload shown bind) = Inr m"
    unfolding signed_by_issuer_def by blast
  with assms(4) have ok: "json_ok shown" "opt_jok bind" "is_record (Some shown)"
    by (auto simp: proposed_ok_def list_all_iff)
  then obtain kvs where kvs: "shown = JObj kvs" by (auto simp: is_record_def split: json.splits)
  from payload_text [OF payload_ok(1) [OF ok(1,2)] s(2) assms(1)] m(2)
  have v: "v = jnorm (proposal_payload shown bind)" by simp
  with m(3,5) payload_properties have p: "prv = jnorm shown" "b = map_option jnorm bind" by auto
  have n: "jnorm (cpr_capability p) = jnorm shown"
    using m(4) canonical_equal_iff [OF json_ok_jnorm [OF ok(1)] assms(5)] by (simp add: p(1))
  obtain kvs' where kvs': "cpr_capability p = JObj kvs'" using n kvs by (cases "cpr_capability p") auto
  have "map_option jnorm b = map_option jnorm want"
    by (rule bind_error_None [OF m(6) assms(6)]) (use ok(2) json_ok_jnorm in \<open>auto simp: p(2) opt_jok_def\<close>)
  then have "map_option jnorm bind = map_option jnorm want" by (cases bind) (simp_all add: p(2))
  moreover have "signing_input ''capability'' cap = signing_input ''capability'' (cpr_capability p)"
    using prv(5) sign_jnorm [of kvs "pi_identity st'" cap] signing_input_jnorm [of _ kvs] signing_input_jnorm [of _ kvs'] n
    unfolding sign_proposed_def p(1) kvs kvs' by metis
  moreover have "nonce = field ''nonce'' (jnorm shown)"
    using prv(2) by (simp add: p(1) kvs get_property_def)
  ultimately show ?thesis using s(1) n prv(3,4) by auto
qed

text \<open>What happens to an issuer, in order; \<open>redemptions\<close> lists the proposals that were redeemed with the binding
  each was redeemed for and the capability it gave.\<close>

datatype issuer_event =
    Propose bytes propose_args
  | Mint bytes propose_args
  | SignProposal handled_cap "json option"
  | Redeem capability_proposal "json option"

type_synonym redemption = "capability_proposal \<times> json option \<times> json"

definition issuer_step ::
    "runtime \<Rightarrow> verifier \<Rightarrow> issuer_event \<Rightarrow> proposal_issuer \<Rightarrow> proposal_issuer \<times> redemption list" where
  "issuer_step rt verify e st = (case e of
     Propose rb args \<Rightarrow> (fst (propose rb args st), [])
   | Mint rb args \<Rightarrow> (fst (mint_proposed rb args st), [])
   | SignProposal cap bind \<Rightarrow> (st, [])
   | Redeem p want \<Rightarrow> (case redeem_proposal rt verify p want st of
       (st', Inr cap) \<Rightarrow> (st', [(p, want, cap)])
     | (st', Inl _) \<Rightarrow> (st', [])))"

fun redemptions :: "runtime \<Rightarrow> verifier \<Rightarrow> issuer_event list \<Rightarrow> proposal_issuer \<Rightarrow> redemption list" where
  "redemptions rt verify [] st = []"
| "redemptions rt verify (e # es) st =
     (case issuer_step rt verify e st of (st', rs) \<Rightarrow> rs @ redemptions rt verify es st')"

definition redemption_nonce :: "redemption \<Rightarrow> json option" where
  "redemption_nonce r = field ''nonce'' (jnorm (cpr_capability (fst r)))"

definition event_ok :: "issuer_event \<Rightarrow> bool" where
  "event_ok e = (case e of Redeem p want \<Rightarrow> json_ok (cpr_capability p) \<and> opt_jok want | _ \<Rightarrow> True)"

definition shown_as :: "(json \<times> json option) list \<Rightarrow> redemption \<Rightarrow> bool" where
  "shown_as proposals r = (case r of (p, want, cap) \<Rightarrow> \<exists>(shown, bind)\<in>set proposals.
     jnorm (cpr_capability p) = jnorm shown \<and> map_option jnorm bind = map_option jnorm want \<and>
     signing_input ''capability'' cap = signing_input ''capability'' (cpr_capability p))"

lemma propose_keeps:
  "pi_identity (fst (propose rb args st)) = pi_identity st" "pi_redeemed (fst (propose rb args st)) = pi_redeemed st"
  by (simp_all add: propose_def next_nonce_def Let_def)

lemma redeem_keeps:
  "pi_identity (fst (redeem_proposal rt verify p want st)) = pi_identity st"
  "x \<in> set (pi_redeemed st) \<Longrightarrow> x \<in> set (pi_redeemed (fst (redeem_proposal rt verify p want st)))"
  by (auto simp: redeem_proposal_def Let_def split: sum.split)

lemma issuer_step_keeps:
  assumes "issuer_step rt verify e st = (st', rs)"
  shows "pi_identity st' = pi_identity st" "set (pi_redeemed st) \<subseteq> set (pi_redeemed st')"
  using assms
  by (auto simp: issuer_step_def mint_proposed_def case_prod_beta propose_keeps redeem_keeps
      split: issuer_event.splits sum.splits)

lemma issuer_step_redeems:
  assumes "reads_utf8 rt" "issuer_key st = Inr pk" "\<forall>m sig. verify pk m sig \<longrightarrow> signed_by_issuer proposals m"
    and "proposed_ok proposals" "event_ok e" "issuer_step rt verify e st = (st', rs)"
  shows "rs = [] \<or> (\<exists>r. rs = [r] \<and> shown_as proposals r \<and>
    redemption_nonce r \<notin> set (pi_redeemed st) \<and> redemption_nonce r \<in> set (pi_redeemed st'))"
proof (cases e)
  case (Redeem p want)
  with assms(5) have ok: "json_ok (cpr_capability p)" "opt_jok want" by (simp_all add: event_ok_def)
  obtain st'' r where r: "redeem_proposal rt verify p want st = (st'', r)" by fastforce
  show ?thesis
  proof (cases r)
    case (Inr cap)
    from redeem_as_shown [OF assms(1-4) ok r [unfolded Inr]] assms(6) r Inr Redeem show ?thesis
      by (fastforce simp: issuer_step_def shown_as_def redemption_nonce_def)
  qed (use assms(6) r Redeem in \<open>simp add: issuer_step_def\<close>)
qed (use assms(6) in \<open>auto simp: issuer_step_def\<close>)

text \<open>C11: If nothing verifies under the issuer's key but what the issuer signed, then whatever is proposed, minted,
  signed and redeemed, in whatever order: a capability is handed out only for a proposal the issuer signed, shown
  unchanged and with the binding asked for, and its signature is over the very bytes of the capability that was
  shown; and no two redemptions are of one nonce, nor of one redeemed before, so no proposal is redeemed twice.\<close>

theorem redeemed_as_shown:
  assumes "reads_utf8 rt" "issuer_key st = Inr pk" "\<forall>m sig. verify pk m sig \<longrightarrow> signed_by_issuer proposals m"
    and "proposed_ok proposals" "\<forall>e\<in>set es. event_ok e"
  shows "distinct (map redemption_nonce (redemptions rt verify es st)) \<and>
    (\<forall>r\<in>set (redemptions rt verify es st). shown_as proposals r \<and> redemption_nonce r \<notin> set (pi_redeemed st))"
  using assms(2,5)
proof (induction es arbitrary: st)
  case (Cons e es)
  obtain st' rs where s: "issuer_step rt verify e st = (st', rs)" by fastforce
  from issuer_step_keeps [OF s] Cons.prems(1) have k: "issuer_key st' = Inr pk" "set (pi_redeemed st) \<subseteq> set (pi_redeemed st')"
    by (simp_all add: issuer_key_def issuer_principal_id_def)
  from Cons.IH [OF k(1)] Cons.prems(2) have "distinct (map redemption_nonce (redemptions rt verify es st'))"
    "\<forall>r\<in>set (redemptions rt verify es st'). shown_as proposals r \<and> redemption_nonce r \<notin> set (pi_redeemed st')" by auto
  with issuer_step_redeems [OF assms(1) Cons.prems(1) assms(3,4) _ s] Cons.prems(2) k(2) show ?case
    by (auto simp: s image_iff)
qed simp

lemma proposed_cap_ok:
  assumes "propose rb args st = (st1, cap)" "list_all (\<lambda>p. json_ok p \<and> json_finite p) (pa_permissions args)"
    and "\<forall>e. pa_expiresAtMs args = Some e \<longrightarrow> dec_wf e \<and> num_finite e"
  shows "is_record (Some (hc_cap cap)) \<and> json_ok (hc_cap cap) \<and> json_finite (hc_cap cap) \<and> hc_proposed cap \<and>
    pi_identity st1 = pi_identity st \<and> pi_redeemed st1 = pi_redeemed st"
  using assms
  by (auto simp: propose_def next_nonce_def Let_def capability_object_def is_record_def list_all_iff split: option.splits)

lemma signed_by_jcs: "json_finite v \<Longrightarrow> \<exists>bs. jcs_canonicalize_bytes v = Inr bs"
  by (simp add: jcs_canonicalize_bytes_def jcs_canonicalize_def canonicalize_finite)

lemma issuer_key_holds: "holds_key verify (pi_identity st) pk \<Longrightarrow> issuer_key st = Inr pk"
  by (simp add: holds_key_def issuer_key_def issuer_principal_id_def key_id_for_principal_def principal_for_public_key_def
      key_id_for_public_key_def public_key_for_key_id_def)

lemma bind_error_same: "opt_jok bind \<Longrightarrow> bind_error (map_option jnorm bind) bind = None"
  by (cases bind) (simp_all add: bind_error_def opt_jok_def canonical_equal_iff json_ok_jnorm)

lemma check_own_payload:
  assumes "issuer_key st = Inr pk" "verify pk bs (si_sign (pi_identity st) bs)" "reads_utf8 rt"
    and "json_ok c" "json_finite c" "opt_jok bind" "jcs_canonicalize_bytes (proposal_payload c bind) = Inr bs"
  shows "check_payload rt verify \<lparr>cpr_capability = c, cpr_hubData = JObj [(''payload'', JStr (bytes_to_base64url bs)),
      (''signature'', JStr (bytes_to_base64url (si_sign (pi_identity st) bs)))]\<rparr> bind st = Inr (jnorm c)"
proof -
  have "canonical_equal (Some (jnorm c)) (Some c)"
    using canonical_equal_iff [OF json_ok_jnorm [OF assms(4)] assms(4)] assms(5) by simp
  then show ?thesis
    using payload_text [OF payload_ok(1) [OF assms(4,6)] assms(7,3)] bind_error_same [OF assms(6)] assms(1,2)
    by (simp add: check_payload_def is_hub_proposal_data_def is_str_def str_of_def payload_properties)
qed

text \<open>A proposed capability, signed as a proposal with any binding, redeems with that binding once and only
  once, into a capability that verifies as the issuer's and whose signature is over the very bytes of the
  capability that was proposed.\<close>

theorem proposal_roundtrip:
  assumes "holds_key verify (pi_identity st) pk" "reads_utf8 rt" "opt_jok bind"
    and "list_all (\<lambda>p. json_ok p \<and> json_finite p) (pa_permissions args)"
    and "\<forall>e. pa_expiresAtMs args = Some e \<longrightarrow> dec_wf e \<and> num_finite e"
    and "propose rb args st = (st1, cap)" "field ''nonce'' (hc_cap cap) \<notin> set (pi_redeemed st)"
  shows "\<exists>p st2 signed_cap. sign_proposal cap bind st1 = Inr p \<and>
    redeem_proposal rt verify p bind st1 = (st2, Inr signed_cap) \<and>
    verify_object_by_principal verify ''capability'' signed_cap (issuer_principal_id st) = Inr True \<and>
    signing_input ''capability'' signed_cap = signing_input ''capability'' (hc_cap cap) \<and>
    redeem_proposal rt verify p bind st2 = (st2, Inl (JsError ''redeemProposal: proposal already redeemed''))"
proof -
  have c: "is_record (Some (hc_cap cap))" "json_ok (hc_cap cap)" "json_finite (hc_cap cap)" "hc_proposed cap"
    "pi_identity st1 = pi_identity st" "pi_redeemed st1 = pi_redeemed st"
    using proposed_cap_ok [OF assms(6,4,5)] by simp_all
  obtain kvs where kvs: "hc_cap cap = JObj kvs" using c(1) by (auto simp: is_record_def split: json.splits)
  obtain kvs' where kvs': "jnorm (JObj kvs) = JObj kvs'" by simp
  obtain bs where bs: "jcs_canonicalize_bytes (proposal_payload (hc_cap cap) bind) = Inr bs"
    using signed_by_jcs [OF payload_ok(2) [OF c(3) assms(3)]] by blast
  define p where "p = \<lparr>cpr_capability = hc_cap cap, cpr_hubData = JObj [(''payload'', JStr (bytes_to_base64url bs)),
      (''signature'', JStr (bytes_to_base64url (si_sign (pi_identity st) bs)))]\<rparr>"
  have sp: "sign_proposal cap bind st1 = Inr p" using c bs by (simp add: sign_proposal_def p_def)
  have hk: "holds_key verify (pi_identity st1) pk" using assms(1) c(5) by simp
  have chk: "check_payload rt verify p bind s = Inr (jnorm (hc_cap cap))" if "pi_identity s = pi_identity st" for s
    using check_own_payload [of s pk verify bs rt "hc_cap cap" bind] issuer_key_holds [of verify s pk] assms(1-3) c(2,3) bs that
    by (simp add: p_def holds_key_def)
  have fin: "json_finite (JObj kvs')" using c(3) json_finite_jnorm [of "JObj kvs"] by (simp only: kvs kvs')
  obtain sc where sc: "sign_capability (jnorm (hc_cap cap)) (pi_identity st) = Inr sc"
    using sign_object_ok [OF assms(1) fin, of "''capability''"] unfolding sign_capability_def kvs kvs' by blast
  have nonce: "get_property ''nonce'' (jnorm (hc_cap cap)) = Inr (field ''nonce'' (jnorm (hc_cap cap)))"
    by (simp add: kvs get_property_def)
  have same: "field ''nonce'' (jnorm (hc_cap cap)) = field ''nonce'' (hc_cap cap)"
    using assms(6) by (auto simp: propose_def next_nonce_def Let_def capability_object_def split: option.split)
  define st2 where "st2 = st1\<lparr>pi_redeemed := pi_redeemed st1 @ [field ''nonce'' (hc_cap cap)]\<rparr>"
  have r1: "redeem_proposal rt verify p bind st1 = (st2, Inr sc)"
    using chk [OF c(5)] nonce assms(7) c(5,6) sc by (simp add: redeem_proposal_def same st2_def sign_proposed_def Let_def)
  have r2: "redeem_proposal rt verify p bind st2 = (st2, Inl (JsError ''redeemProposal: proposal already redeemed''))"
    using chk [of st2] nonce c(5) by (simp add: redeem_proposal_def same) (simp add: st2_def)
  have v: "verify_object_by_principal verify ''capability'' sc (issuer_principal_id st) = Inr True"
    using sign_object_verifies [OF assms(1) _ fin, of "''capability''" sc] sc
    by (simp add: sign_capability_def kvs kvs' issuer_principal_id_def del: jnorm.simps)
  have "signing_input ''capability'' sc = signing_input ''capability'' (hc_cap cap)"
    using sign_jnorm sc unfolding kvs by blast
  with sp r1 r2 v show ?thesis by blast
qed

definition demo_propose :: propose_args where
  "demo_propose = \<lparr>pa_audience = ''id:key:AA'', pa_permissions = [demo_permission], pa_expiresAtMs = None\<rparr>"

definition demo_proposed :: json where
  "demo_proposed = hc_cap (snd (propose [1] demo_propose (new_proposal_issuer (demo_identity 7))))"

lemma demo_proposed_ok: "json_ok demo_proposed \<and> json_finite demo_proposed \<and> is_record (Some demo_proposed)"
proof -
  have "list_all (\<lambda>p. json_ok p \<and> json_finite p) (pa_permissions demo_propose)"
    by (simp add: demo_propose_def demo_permission_def)
  moreover have "\<forall>e. pa_expiresAtMs demo_propose = Some e \<longrightarrow> dec_wf e \<and> num_finite e" by (simp add: demo_propose_def)
  ultimately show ?thesis
    using proposed_cap_ok [of "[1]" demo_propose "new_proposal_issuer (demo_identity 7)", OF surjective_pairing]
    by (simp add: demo_proposed_def)
qed

lemma demo_issuer_key: "issuer_key (new_proposal_issuer (demo_identity 7)) = Inr [7]"
  using issuer_key_holds [of demo_verify "new_proposal_issuer (demo_identity 7)" "[7]"] demo_holds_key
  by (simp add: new_proposal_issuer_def)

lemma proposal_roundtrip_witness:
  "\<exists>p st2 signed_cap. sign_proposal \<lparr>hc_cap = demo_proposed, hc_proposed = True\<rparr> (Some (JBool True))
      (fst (propose [1] demo_propose (new_proposal_issuer (demo_identity 7)))) = Inr p \<and>
    redeem_proposal latin1 demo_verify p (Some (JBool True))
      (fst (propose [1] demo_propose (new_proposal_issuer (demo_identity 7)))) = (st2, Inr signed_cap)"
proof -
  let ?st = "new_proposal_issuer (demo_identity 7)"
  have "holds_key demo_verify (pi_identity ?st) [7]" using demo_holds_key by (simp add: new_proposal_issuer_def)
  moreover have "list_all (\<lambda>p. json_ok p \<and> json_finite p) (pa_permissions demo_propose)"
    by (simp add: demo_propose_def demo_permission_def)
  moreover have "\<forall>e. pa_expiresAtMs demo_propose = Some e \<longrightarrow> dec_wf e \<and> num_finite e" by (simp add: demo_propose_def)
  moreover have "propose [1] demo_propose ?st = (fst (propose [1] demo_propose ?st), \<lparr>hc_cap = demo_proposed, hc_proposed = True\<rparr>)"
    by (simp add: demo_proposed_def propose_def case_prod_beta)
  moreover have "field ''nonce'' (hc_cap \<lparr>hc_cap = demo_proposed, hc_proposed = True\<rparr>) \<notin> set (pi_redeemed ?st)"
    by (simp add: new_proposal_issuer_def)
  moreover have "opt_jok (Some (JBool True))" by (simp add: opt_jok_def)
  ultimately show ?thesis using proposal_roundtrip reads_utf8_latin1 by blast
qed

lemma redeemed_as_shown_witness:
  "\<exists>p cap. redemptions latin1
      (\<lambda>pk m s. s = pk @ m \<and> jcs_canonicalize_bytes (proposal_payload demo_proposed None) = Inr m)
      [Redeem p None, Redeem p None] (new_proposal_issuer (demo_identity 7)) = [(p, None, cap)] \<and>
    shown_as [(demo_proposed, None)] (p, None, cap)"
proof -
  let ?st = "new_proposal_issuer (demo_identity 7)"
  define verify where "verify = (\<lambda>pk m s :: bytes. s = pk @ m \<and> jcs_canonicalize_bytes (proposal_payload demo_proposed None) = Inr m)"
  obtain kvs where kvs: "demo_proposed = JObj kvs" using demo_proposed_ok by (auto simp: is_record_def split: json.splits)
  have n: "opt_jok None" by (simp add: opt_jok_def)
  obtain bs where bs: "jcs_canonicalize_bytes (proposal_payload demo_proposed None) = Inr bs"
    using signed_by_jcs [OF payload_ok(2)] demo_proposed_ok n by blast
  define p where "p = \<lparr>cpr_capability = demo_proposed, cpr_hubData = JObj [(''payload'', JStr (bytes_to_base64url bs)),
      (''signature'', JStr (bytes_to_base64url (si_sign (pi_identity ?st) bs)))]\<rparr>"
  have "verify [7] bs (si_sign (pi_identity ?st) bs)"
    using bs by (simp add: verify_def new_proposal_issuer_def demo_identity_def)
  then have chk: "check_payload latin1 verify p None ?st = Inr (jnorm demo_proposed)"
    unfolding p_def using check_own_payload [of ?st "[7]" verify bs latin1 demo_proposed None] demo_proposed_ok n bs
    by (simp add: demo_issuer_key reads_utf8_latin1)
  obtain kvs' where kvs': "jnorm (JObj kvs) = JObj kvs'" by simp
  have "json_finite (JObj kvs')" using demo_proposed_ok json_finite_jnorm [of "JObj kvs"] by (simp only: kvs kvs')
  from sign_object_ok [OF demo_holds_key this, of "''capability''" 7] obtain cap where
    cap: "sign_capability (jnorm demo_proposed) (demo_identity 7) = Inr cap"
    unfolding sign_capability_def kvs kvs' by blast
  obtain st' where r: "redeem_proposal latin1 verify p None ?st = (st', Inr cap)"
    using chk cap by (simp add: redeem_proposal_def kvs get_property_def sign_proposed_def Let_def new_proposal_issuer_def)
  have "\<forall>m sig. verify [7] m sig \<longrightarrow> signed_by_issuer [(demo_proposed, None)] m"
    by (simp add: verify_def signed_by_issuer_def)
  note c = redeemed_as_shown [where verify = verify and es = "[Redeem p None, Redeem p None]", OF reads_utf8_latin1 demo_issuer_key this]
  have "proposed_ok [(demo_proposed, None)]" "\<forall>e\<in>set [Redeem p None, Redeem p None]. event_ok e"
    using demo_proposed_ok n by (simp_all add: proposed_ok_def event_ok_def p_def)
  note c = c [OF this]
  obtain st2 r2 where r2: "redeem_proposal latin1 verify p None st' = (st2, r2)" by fastforce
  have "\<exists>e. r2 = Inl e"
  proof (cases r2)
    case (Inr cap2)
    with r r2 have "redemptions latin1 verify [Redeem p None, Redeem p None] ?st = [(p, None, cap), (p, None, cap2)]"
      by (simp add: issuer_step_def)
    with c show ?thesis by (simp add: redemption_nonce_def)
  qed simp
  with r r2 have e: "redemptions latin1 verify [Redeem p None, Redeem p None] ?st = [(p, None, cap)]"
    by (auto simp: issuer_step_def)
  from c [unfolded e] have "shown_as [(demo_proposed, None)] (p, None, cap)" by simp
  with e show ?thesis unfolding verify_def by blast
qed

end
