(* ===== verification/Consent.thy ===== *)
theory Consent
  imports Proposal Gate
begin

text \<open>
  What a consent decision comes to: the lifetime of a grant (\<^verbatim>\<open>accessTypes.ts\<close>), the permissions that are
  signed, pinned to one call for ``allow once'' (\<^verbatim>\<open>consent.ts\<close>), the permissions for a discovered service
  (\<^verbatim>\<open>permissions.ts\<close>) and the services that can fill a requested slot (\<^verbatim>\<open>accessCandidates.ts\<close>).
  Permissions and patterns are wire values.
\<close>

section \<open>Lifetimes and pinned calls\<close>

definition duration_ms :: "string \<Rightarrow> jsnum" where
  "duration_ms d =
     (if d = ''once'' \<or> d = ''shortLived'' then num_of_int (5 * 60 * 1000)
      else if d = ''longLived'' then num_of_int (24 * 60 * 60 * 1000) else NaN)"

definition duration_to_exp :: "jsnum \<Rightarrow> string option \<Rightarrow> jsnum option" where
  "duration_to_exp now duration =
     (let d = (case duration of Some x \<Rightarrow> x | None \<Rightarrow> ''shortLived'') in
      if d = ''persistent'' then None else Some (num_add now (duration_ms d)))"

record access_intent =
  ai_method :: string
  ai_params :: "json option"
  ai_interfaceHash :: "string option"
  ai_nonce :: string
  ai_signedAtMs :: "jsnum option"

record direct_permission =
  dp_permission :: json
  dp_callIntent :: "access_intent option"

definition intent_meta :: "access_intent \<Rightarrow> string \<Rightarrow> call_meta" where
  "intent_meta intent consumer = \<lparr>cm_method = ai_method intent, cm_nonce = ai_nonce intent,
     cm_signedAtMs = (case ai_signedAtMs intent of Some t \<Rightarrow> t | None \<Rightarrow> NaN),
     cm_principal = Some consumer, cm_interfaceHash = ai_interfaceHash intent\<rparr>"

definition bound_params :: "access_intent \<Rightarrow> string \<Rightarrow> (string \<times> json) list \<Rightarrow> json" where
  "bound_params intent consumer userParams =
     JObj (jm_set userParams HUBRPC_META_KEY (call_meta_json (intent_meta intent consumer)))"

definition compute_call_bind_hash :: "access_intent \<Rightarrow> string \<Rightarrow> string res" where
  "compute_call_bind_hash intent consumer =
     res_bind (require_object_params (ai_params intent)) (\<lambda>userParams.
       signed_hash ''call'' (bound_params intent consumer userParams))"

text \<open>Whether a one-shot grant can be pinned to the call it was asked for.\<close>

definition pins_call :: "string option \<Rightarrow> access_intent option \<Rightarrow> bool" where
  "pins_call duration intent = (duration = Some ''once'' \<and> (case intent of
     None \<Rightarrow> False
   | Some i \<Rightarrow> ai_params i \<noteq> None \<and> ai_nonce i \<noteq> [] \<and> ai_signedAtMs i \<noteq> None))"

definition to_signed_permission :: "string \<Rightarrow> string option \<Rightarrow> direct_permission \<Rightarrow> json res" where
  "to_signed_permission consumer duration p =
     (if pins_call duration (dp_callIntent p) then
        res_bind (compute_call_bind_hash (the (dp_callIntent p)) consumer) (\<lambda>h.
          Inr (JObj (jm_set (spread (Some (dp_permission p))) ''callBind''
            (JObj [(''alg'', JStr ''sha256''), (''payloadHash'', JStr h)]))))
      else Inr (dp_permission p))"

definition to_signed_permissions :: "direct_permission list \<Rightarrow> string \<Rightarrow> string option \<Rightarrow> json list res" where
  "to_signed_permissions perms consumer duration = res_all (map (to_signed_permission consumer duration) perms)"

definition pattern_text :: "pattern option \<Rightarrow> string" where
  "pattern_text p = (case p of
     None \<Rightarrow> ''*''
   | Some (Exact e) \<Rightarrow> js_string e
   | Some (Prefix q) \<Rightarrow> (if q = [] then ''*'' else q @ ''*''))"

definition describe_permission :: "permission \<Rightarrow> string" where
  "describe_permission perm =
     (let t = perm_target perm in
      pattern_text (Some (tp_serviceId t)) @ ''::'' @ pattern_text (Some (tp_interfaceId t)) @ '' {''
        @ js_join '','' (map (\<lambda>m. pattern_text (Some m)) (tp_members t)) @ ''}'')"

section \<open>Racing prompts\<close>

datatype consent_decision = ConsentDeny "string option" | ConsentGrant "json list option"

text \<open>The prompts run at once; a prompt's settling, with its decision or its rejection, and the abort of
  the request are events.\<close>

record race =
  ra_outcome :: "consent_decision res option"
  ra_childAborted :: bool

definition race_consent :: "nat \<Rightarrow> bool \<Rightarrow> race" where
  "race_consent prompts aborted =
     (if prompts = 0 then
        \<lparr>ra_outcome = Some (Inr (ConsentDeny (Some ''no consent surface configured''))), ra_childAborted = False\<rparr>
      else \<lparr>ra_outcome = None, ra_childAborted = aborted\<rparr>)"

datatype race_event = PromptSettled "consent_decision res" | OuterAbort

definition race_step :: "race \<Rightarrow> race_event \<Rightarrow> race" where
  "race_step r e = (case e of
     PromptSettled d \<Rightarrow> if ra_outcome r \<noteq> None then r else r\<lparr>ra_outcome := Some d, ra_childAborted := True\<rparr>
   | OuterAbort \<Rightarrow> if ra_outcome r \<noteq> None then r else r\<lparr>ra_childAborted := True\<rparr>)"

section \<open>Permissions for a discovered service\<close>

record interface_requirement =
  ir_id :: string
  ir_hash :: "string option"
  ir_required :: bool

record member_requirement =
  mr_interfaceId :: string
  mr_member :: json
  mr_required :: bool

record bucket =
  bk_interfaceId :: string
  bk_hash :: "string option"
  bk_members :: "json list"

definition exact_pattern :: "string \<Rightarrow> json" where
  "exact_pattern s = JObj [(''exact'', JStr s)]"

definition slot_permission :: "string \<Rightarrow> string \<Rightarrow> json list \<Rightarrow> string option \<Rightarrow> json" where
  "slot_permission serviceId interfaceId members hash =
     JObj [(''target'', JObj ([(''serviceId'', exact_pattern serviceId), (''interfaceId'', exact_pattern interfaceId),
         (''members'', JArr members)] @ (case hash of Some h \<Rightarrow> [(''interfaceHash'', JStr h)] | None \<Rightarrow> []))),
       (''canInvoke'', JBool True)]"

definition hash_by_interface :: "interface_requirement list \<Rightarrow> (string \<times> string option) list" where
  "hash_by_interface is = foldl (\<lambda>m i. jm_set m (ir_id i) (ir_hash i)) [] is"

definition hash_of_interface :: "interface_requirement list \<Rightarrow> string \<Rightarrow> string option" where
  "hash_of_interface is i = (case jm_get (hash_by_interface is) i of Some h \<Rightarrow> h | None \<Rightarrow> None)"

definition add_to_bucket ::
    "interface_requirement list \<Rightarrow> string list \<Rightarrow> (string \<times> bucket) list \<Rightarrow> member_requirement \<Rightarrow> (string \<times> bucket) list" where
  "add_to_bucket is present buckets m =
     (if mr_interfaceId m \<notin> set present then buckets
      else (let hash = hash_of_interface is (mr_interfaceId m);
                key = mr_interfaceId m @ [CHR 0x00] @ (case hash of Some h \<Rightarrow> h | None \<Rightarrow> '''');
                b = (case jm_get buckets key of Some b \<Rightarrow> b
                     | None \<Rightarrow> \<lparr>bk_interfaceId = mr_interfaceId m, bk_hash = hash, bk_members = []\<rparr>) in
            jm_set buckets key (b\<lparr>bk_members := bk_members b @ [mr_member m]\<rparr>)))"

definition build_slot_permissions ::
    "string \<Rightarrow> interface_requirement list \<Rightarrow> member_requirement list \<Rightarrow> string list \<Rightarrow> json list" where
  "build_slot_permissions serviceId is members present =
     (let buckets = foldl (add_to_bucket is present) [] members in
      if buckets = [] then
        map (\<lambda>i. slot_permission serviceId i [JObj [(''prefix'', JStr '''')]] (hash_of_interface is i)) present
      else map (\<lambda>(_, b). slot_permission serviceId (bk_interfaceId b) (bk_members b) (bk_hash b)) buckets)"

section \<open>Candidates for a slot\<close>

record directory_entry =
  de_serviceId :: string
  de_interfaceId :: string
  de_hash :: string
  de_description :: "string option"

record slot_request =
  sl_interfaces :: "interface_requirement list"
  sl_members :: "member_requirement list"

record slot_candidate =
  sc_serviceId :: string
  sc_description :: "string option"
  sc_satisfied :: "interface_requirement list"
  sc_unsatisfied :: "interface_requirement list"

text \<open>The directory grouped by service, in order of first appearance, with the first description given.\<close>

definition add_listing ::
    "(string \<times> (string \<times> string) list \<times> string option) list \<Rightarrow> directory_entry
      \<Rightarrow> (string \<times> (string \<times> string) list \<times> string option) list" where
  "add_listing m d =
     (let (is, desc) = (case jm_get m (de_serviceId d) of Some e \<Rightarrow> e | None \<Rightarrow> ([], None)) in
      jm_set m (de_serviceId d) (is @ [(de_interfaceId d, de_hash d)],
        case desc of Some s \<Rightarrow> Some s | None \<Rightarrow> de_description d))"

definition by_service :: "directory_entry list \<Rightarrow> (string \<times> (string \<times> string) list \<times> string option) list" where
  "by_service directory = foldl add_listing [] directory"

definition requirement_present :: "(string \<times> string) list \<Rightarrow> interface_requirement \<Rightarrow> bool" where
  "requirement_present is req =
     list_ex (\<lambda>(i, h). i = ir_id req \<and> (case ir_hash req of None \<Rightarrow> True | Some want \<Rightarrow> h = want)) is"

definition candidates_for_slot :: "slot_request \<Rightarrow> directory_entry list \<Rightarrow> slot_candidate list" where
  "candidates_for_slot slot directory =
     concat (map (\<lambda>(svc, is, desc).
       (let satisfied = filter (requirement_present is) (sl_interfaces slot);
            unsatisfied = filter (\<lambda>r. \<not> requirement_present is r) (sl_interfaces slot) in
        if list_ex ir_required unsatisfied then []
        else [\<lparr>sc_serviceId = svc, sc_description = desc, sc_satisfied = satisfied, sc_unsatisfied = unsatisfied\<rparr>]))
       (by_service directory))"

record resolved_slot =
  rs_request :: slot_request
  rs_candidates :: "slot_candidate list"

definition resolve_access_candidates ::
    "(string \<times> slot_request) list \<Rightarrow> directory_entry list \<Rightarrow> (string \<times> resolved_slot) list \<times> string list" where
  "resolve_access_candidates slots directory =
     (let deps = map (\<lambda>(i, s). (i, \<lparr>rs_request = s, rs_candidates = candidates_for_slot s directory\<rparr>)) slots in
      (deps, map fst (filter (\<lambda>(_, r). rs_candidates r = []) deps)))"

section \<open>Candidates satisfy what is required\<close>

lemma by_service_get:
  "jm_get (by_service directory) svc = Some (is, desc) \<Longrightarrow>
     is = map (\<lambda>d. (de_interfaceId d, de_hash d)) (filter (\<lambda>d. de_serviceId d = svc) directory) \<and>
     svc \<in> de_serviceId ` set directory"
proof (induction directory arbitrary: "is" desc rule: rev_induct)
  case (snoc d ds)
  have s: "by_service (ds @ [d]) = add_listing (by_service ds) d" by (simp add: by_service_def)
  have none: "filter (\<lambda>x. de_serviceId x = svc) ds = []" if "jm_get (by_service ds) svc = None"
  proof -
    have keep: "jm_get m svc \<noteq> None \<Longrightarrow> jm_get (add_listing m x) svc \<noteq> None" for m x
      by (simp add: add_listing_def Let_def case_prod_beta)
    have keeps: "jm_get m svc \<noteq> None \<Longrightarrow> jm_get (foldl add_listing m xs) svc \<noteq> None" for xs m
    proof (induction xs arbitrary: m)
      case (Cons x xs)
      from Cons.IH [OF keep [OF Cons.prems]] show ?case unfolding foldl_Cons .
    qed simp
    have new: "jm_get (add_listing m x) (de_serviceId x) \<noteq> None" for m x
      by (simp add: add_listing_def Let_def case_prod_beta)
    have "svc \<in> de_serviceId ` set xs \<Longrightarrow> jm_get (foldl add_listing m xs) svc \<noteq> None" for xs m
    proof (induction xs arbitrary: m)
      case (Cons x xs)
      show ?case
      proof (cases "svc = de_serviceId x")
        case True
        with new [of m x] have "jm_get (add_listing m x) svc \<noteq> None" by simp
        from keeps [OF this] show ?thesis unfolding foldl_Cons .
      next
        case False
        with Cons.prems have "svc \<in> de_serviceId ` set xs" by simp
        from Cons.IH [OF this] show ?thesis unfolding foldl_Cons .
      qed
    qed simp
    from this [of ds "[]"] that show ?thesis by (auto simp: by_service_def filter_empty_conv)
  qed
  show ?case
  proof (cases "de_serviceId d = svc")
    case True
    then show ?thesis
      using snoc s none by (cases "jm_get (by_service ds) svc") (auto simp: add_listing_def Let_def)
  next
    case False
    with snoc s show ?thesis by (auto simp: add_listing_def Let_def case_prod_beta)
  qed
qed (simp add: by_service_def)

definition implements :: "directory_entry list \<Rightarrow> string \<Rightarrow> interface_requirement \<Rightarrow> bool" where
  "implements directory svc req = list_ex (\<lambda>d. de_serviceId d = svc \<and> de_interfaceId d = ir_id req \<and>
     (case ir_hash req of None \<Rightarrow> True | Some h \<Rightarrow> de_hash d = h)) directory"

lemma requirement_present_iff:
  "jm_get (by_service directory) svc = Some (is, desc) \<Longrightarrow> requirement_present is req = implements directory svc req"
proof -
  assume "jm_get (by_service directory) svc = Some (is, desc)"
  then have e: "is = map (\<lambda>d. (de_interfaceId d, de_hash d)) (filter (\<lambda>d. de_serviceId d = svc) directory)"
    using by_service_get by blast
  have ex: "list_ex P (map f (filter Q xs)) = list_ex (\<lambda>d. Q d \<and> P (f d)) xs"
    for P :: "string \<times> string \<Rightarrow> bool" and f and Q and xs :: "directory_entry list"
    by (induction xs) auto
  show ?thesis unfolding requirement_present_def implements_def e ex by simp
qed

lemma by_service_wf: "jm_wf (by_service directory)"
proof -
  have "jm_wf m \<Longrightarrow> jm_wf (foldl add_listing m xs)" for xs m
    by (induction xs arbitrary: m) (simp_all add: add_listing_def Let_def case_prod_beta)
  then show ?thesis by (simp add: by_service_def)
qed

lemma candidate_D:
  assumes "c \<in> set (candidates_for_slot slot directory)"
  shows "sc_serviceId c \<in> de_serviceId ` set directory \<and>
    sc_satisfied c = filter (implements directory (sc_serviceId c)) (sl_interfaces slot) \<and>
    (\<forall>r\<in>set (sl_interfaces slot). ir_required r \<longrightarrow> implements directory (sc_serviceId c) r)"
proof -
  from assms obtain svc "is" desc where m: "(svc, is, desc) \<in> set (by_service directory)"
    "c = \<lparr>sc_serviceId = svc, sc_description = desc, sc_satisfied = filter (requirement_present is) (sl_interfaces slot),
       sc_unsatisfied = filter (\<lambda>r. \<not> requirement_present is r) (sl_interfaces slot)\<rparr>"
    "\<not> list_ex ir_required (filter (\<lambda>r. \<not> requirement_present is r) (sl_interfaces slot))"
    by (auto simp: candidates_for_slot_def Let_def split: if_splits)
  from jm_get_wfI [OF by_service_wf m(1)] have g: "jm_get (by_service directory) svc = Some (is, desc)" .
  have rp: "requirement_present is r = implements directory svc r" for r by (rule requirement_present_iff [OF g])
  have "requirement_present is = implements directory svc" by (rule ext) (rule rp)
  then show ?thesis using m(2,3) by_service_get [OF g] by (auto simp: list_ex_iff)
qed

section \<open>What the slot permissions admit\<close>

definition slot_key :: "interface_requirement list \<Rightarrow> string \<Rightarrow> string" where
  "slot_key is i = i @ [CHR 0x00] @ (case hash_of_interface is i of Some h \<Rightarrow> h | None \<Rightarrow> '''')"

lemma slot_key_inj:
  assumes "CHR 0x00 \<notin> set i" "CHR 0x00 \<notin> set j" "slot_key is i = slot_key is j"
  shows "i = j"
proof -
  have tw: "takeWhile (\<lambda>c. c \<noteq> CHR 0x00) (i @ [CHR 0x00] @ r) = i" if "CHR 0x00 \<notin> set i" for i r :: string
    using that by (induction i) auto
  from arg_cong [where f = "takeWhile (\<lambda>c. c \<noteq> CHR 0x00)", OF assms(3)] show ?thesis
    unfolding slot_key_def tw [OF assms(1)] tw [OF assms(2)] .
qed

lemma add_to_bucket_key:
  "add_to_bucket is present buckets m =
     (if mr_interfaceId m \<notin> set present then buckets
      else jm_set buckets (slot_key is (mr_interfaceId m))
        (let b = (case jm_get buckets (slot_key is (mr_interfaceId m)) of Some b \<Rightarrow> b
            | None \<Rightarrow> \<lparr>bk_interfaceId = mr_interfaceId m, bk_hash = hash_of_interface is (mr_interfaceId m), bk_members = []\<rparr>) in
         b\<lparr>bk_members := bk_members b @ [mr_member m]\<rparr>))"
  by (simp add: add_to_bucket_def slot_key_def Let_def)

definition members_on :: "member_requirement list \<Rightarrow> string \<Rightarrow> json list" where
  "members_on members i = map mr_member (filter (\<lambda>m. mr_interfaceId m = i) members)"

abbreviation bucket_for :: "interface_requirement list \<Rightarrow> member_requirement list \<Rightarrow> string \<Rightarrow> bucket" where
  "bucket_for is members i \<equiv> \<lparr>bk_interfaceId = i, bk_hash = hash_of_interface is i, bk_members = members_on members i\<rparr>"

lemma buckets_get:
  assumes "\<forall>m\<in>set members. CHR 0x00 \<notin> set (mr_interfaceId m)"
  shows "jm_wf (foldl (add_to_bucket is present) [] members) \<and>
    (\<forall>i. CHR 0x00 \<notin> set i \<longrightarrow> jm_get (foldl (add_to_bucket is present) [] members) (slot_key is i) =
       (if i \<in> set present \<and> members_on members i \<noteq> [] then Some (bucket_for is members i) else None)) \<and>
    fst ` set (foldl (add_to_bucket is present) [] members) \<subseteq>
      slot_key is ` (mr_interfaceId ` set members \<inter> set present)"
  using assms
proof (induction members rule: rev_induct)
  case Nil
  then show ?case by (simp add: members_on_def)
next
  case (snoc m ms)
  let ?bs = "foldl (add_to_bucket is present) [] ms"
  let ?i = "mr_interfaceId m"
  from snoc have wf: "jm_wf ?bs" and get: "\<And>i. CHR 0x00 \<notin> set i \<Longrightarrow> jm_get ?bs (slot_key is i) =
       (if i \<in> set present \<and> members_on ms i \<noteq> [] then Some (bucket_for is ms i) else None)"
    and sub: "fst ` set ?bs \<subseteq> slot_key is ` (mr_interfaceId ` set ms \<inter> set present)"
    and nz: "CHR 0x00 \<notin> set ?i" by auto
  have fl: "foldl (add_to_bucket is present) [] (ms @ [m]) = add_to_bucket is present ?bs m" by simp
  have on: "members_on (ms @ [m]) i = members_on ms i @ (if ?i = i then [mr_member m] else [])" for i
    by (simp add: members_on_def)
  show ?case
  proof (cases "?i \<in> set present")
    case False
    then have "add_to_bucket is present ?bs m = ?bs" by (simp add: add_to_bucket_key)
    with False wf get sub show ?thesis unfolding fl on by auto
  next
    case True
    then have ab: "add_to_bucket is present ?bs m = jm_set ?bs (slot_key is ?i) (bucket_for is (ms @ [m]) ?i)"
      using get [OF nz] unfolding add_to_bucket_key on by (auto simp: Let_def)
    have "jm_get (jm_set ?bs (slot_key is ?i) (bucket_for is (ms @ [m]) ?i)) (slot_key is i) =
       (if i \<in> set present \<and> members_on (ms @ [m]) i \<noteq> [] then Some (bucket_for is (ms @ [m]) i) else None)"
      if i: "CHR 0x00 \<notin> set i" for i
    proof (cases "i = ?i")
      case True
      with \<open>?i \<in> set present\<close> show ?thesis by (simp add: on)
    next
      case False
      then have "slot_key is i \<noteq> slot_key is ?i" using slot_key_inj [OF i nz] by blast
      with False get [OF i] show ?thesis by (auto simp: on)
    qed
    moreover have "fst ` set (jm_set ?bs (slot_key is ?i) (bucket_for is (ms @ [m]) ?i)) \<subseteq>
        slot_key is ` (mr_interfaceId ` set (ms @ [m]) \<inter> set present)"
      using sub True unfolding keys_jm_set by auto
    ultimately show ?thesis unfolding fl ab using wf by simp
  qed
qed

lemma buckets_empty_iff:
  assumes "\<forall>m\<in>set members. CHR 0x00 \<notin> set (mr_interfaceId m)"
  shows "foldl (add_to_bucket is present) [] members = [] \<longleftrightarrow> mr_interfaceId ` set members \<inter> set present = {}"
proof
  assume e: "foldl (add_to_bucket is present) [] members = []"
  show "mr_interfaceId ` set members \<inter> set present = {}"
  proof (rule ccontr)
    assume "mr_interfaceId ` set members \<inter> set present \<noteq> {}"
    then obtain m where m: "m \<in> set members" "mr_interfaceId m \<in> set present" by blast
    then have "members_on members (mr_interfaceId m) \<noteq> []" by (auto simp: members_on_def filter_empty_conv)
    with buckets_get [OF assms, of "is" present] m assms e show False by auto
  qed
next
  assume "mr_interfaceId ` set members \<inter> set present = {}"
  with buckets_get [OF assms, of "is" present] show "foldl (add_to_bucket is present) [] members = []" by simp
qed

lemma buckets_values:
  assumes "\<forall>m\<in>set members. CHR 0x00 \<notin> set (mr_interfaceId m)"
  shows "snd ` set (foldl (add_to_bucket is present) [] members) =
    bucket_for is members ` (mr_interfaceId ` set members \<inter> set present)"
proof -
  let ?bs = "foldl (add_to_bucket is present) [] members"
  let ?I = "mr_interfaceId ` set members \<inter> set present"
  note g = buckets_get [OF assms, of "is" present]
  have ne: "i \<in> ?I \<Longrightarrow> members_on members i \<noteq> [] \<and> CHR 0x00 \<notin> set i" for i
    using assms by (auto simp: members_on_def filter_empty_conv)
  have got: "i \<in> ?I \<Longrightarrow> jm_get ?bs (slot_key is i) = Some (bucket_for is members i)" for i
    using g ne [of i] by auto
  show ?thesis
  proof (intro set_eqI iffI)
    fix b assume "b \<in> snd ` set ?bs"
    then obtain k where kb: "(k, b) \<in> set ?bs" by auto
    from kb have "k \<in> fst ` set ?bs" by force
    with g have "k \<in> slot_key is ` ?I" by blast
    then obtain i where i: "i \<in> ?I" "k = slot_key is i" by blast
    from g have "jm_wf ?bs" by blast
    from jm_get_wfI [OF this kb] got [OF i(1)] i(2) have "b = bucket_for is members i" by simp
    with i(1) show "b \<in> bucket_for is members ` ?I" by blast
  next
    fix b assume "b \<in> bucket_for is members ` ?I"
    then obtain i where "i \<in> ?I" "b = bucket_for is members i" by blast
    with jm_get_SomeD [OF got] show "b \<in> snd ` set ?bs" by force
  qed
qed

lemma slot_permission_permits_iff:
  "permission_permits c (permission_of (slot_permission svc i ms h)) Invoke = Inr Ok \<longleftrightarrow>
     ct_serviceId (call_target c) = svc \<and> ct_interfaceId (call_target c) = i \<and>
     (h = None \<or> ct_interfaceHash (call_target c) = h) \<and>
     (\<exists>m\<in>set ms. pattern_matches (ct_member (call_target c)) (pattern_of (Some m)) '''')"
  by (cases h) (auto simp: permission_permits_Ok_iff permission_matches_target_iff grants_def permission_of_def
      slot_permission_def target_pattern_of_def pattern_of_def exact_pattern_def opt_bool_def opt_str_def arr_of_def
      pattern_matches_def Let_def)

lemma slot_permissions_admit:
  assumes "\<forall>m\<in>set members. CHR 0x00 \<notin> set (mr_interfaceId m)"
  shows "(\<exists>p\<in>set (build_slot_permissions svc is members present). permission_permits c (permission_of p) Invoke = Inr Ok) \<longleftrightarrow>
    (let t = call_target c; i = ct_interfaceId t in
     ct_serviceId t = svc \<and> i \<in> set present \<and>
     (hash_of_interface is i = None \<or> ct_interfaceHash t = hash_of_interface is i) \<and>
     ((\<exists>m\<in>set members. mr_interfaceId m \<in> set present) \<longrightarrow>
        (\<exists>m\<in>set members. mr_interfaceId m = i \<and> pattern_matches (ct_member t) (pattern_of (Some (mr_member m))) '''')))"
proof (cases "\<exists>m\<in>set members. mr_interfaceId m \<in> set present")
  case False
  then have "mr_interfaceId ` set members \<inter> set present = {}" by blast
  with buckets_empty_iff [OF assms] have "build_slot_permissions svc is members present =
      map (\<lambda>i. slot_permission svc i [JObj [(''prefix'', JStr '''')]] (hash_of_interface is i)) present"
    by (simp add: build_slot_permissions_def)
  moreover have "pattern_matches x (pattern_of (Some (JObj [(''prefix'', JStr '''')]))) ''''" for x
    by (simp add: pattern_matches_def pattern_of_def str_of_def)
  ultimately show ?thesis using False by (auto simp: slot_permission_permits_iff Let_def)
next
  case True
  then have "mr_interfaceId ` set members \<inter> set present \<noteq> {}" by blast
  with buckets_empty_iff [OF assms] have "build_slot_permissions svc is members present =
      map (\<lambda>(_, b). slot_permission svc (bk_interfaceId b) (bk_members b) (bk_hash b))
        (foldl (add_to_bucket is present) [] members)"
    by (simp add: build_slot_permissions_def)
  then have "set (build_slot_permissions svc is members present) =
      (\<lambda>b. slot_permission svc (bk_interfaceId b) (bk_members b) (bk_hash b)) `
        snd ` set (foldl (add_to_bucket is present) [] members)"
    by (simp add: image_image case_prod_beta)
  then have s: "set (build_slot_permissions svc is members present) =
      (\<lambda>i. slot_permission svc i (members_on members i) (hash_of_interface is i)) `
        (mr_interfaceId ` set members \<inter> set present)"
    unfolding buckets_values [OF assms] by (simp add: image_image)
  have "(\<exists>m\<in>set (members_on members i). P m) \<longleftrightarrow> (\<exists>m\<in>set members. mr_interfaceId m = i \<and> P (mr_member m))" for i P
    by (auto simp: members_on_def)
  note on = this
  have im: "i \<in> mr_interfaceId ` set members \<longleftrightarrow> (\<exists>m\<in>set members. mr_interfaceId m = i)" for i by auto
  have "(\<exists>p\<in>set (build_slot_permissions svc is members present). permission_permits c (permission_of p) Invoke = Inr Ok) \<longleftrightarrow>
    (\<exists>i. i \<in> mr_interfaceId ` set members \<and> i \<in> set present \<and>
       permission_permits c (permission_of (slot_permission svc i (members_on members i) (hash_of_interface is i))) Invoke = Inr Ok)"
    unfolding s by blast
  note e = this [unfolded slot_permission_permits_iff on im]
  show ?thesis unfolding e Let_def using True by (intro iffI; elim exE conjE impE; force)
qed

text \<open>C16: The permissions built for a discovered service admit exactly the calls of that service on an interface
  it has, in the version that was asked for and, when some requested member is on such an interface, to a
  requested member of that interface.  When none is, every member of every such interface is admitted, even
  if members of other interfaces were asked for.\<close>

theorem slot_permissions_exact:
  assumes "\<forall>m\<in>set members. CHR 0x00 \<notin> set (mr_interfaceId m)"
  shows "(\<exists>p\<in>set (build_slot_permissions svc is members present). permission_permits c (permission_of p) Invoke = Inr Ok) \<longleftrightarrow>
    (let t = call_target c; i = ct_interfaceId t in
     ct_serviceId t = svc \<and> i \<in> set present \<and>
     (hash_of_interface is i = None \<or> ct_interfaceHash t = hash_of_interface is i) \<and>
     ((\<exists>m\<in>set members. mr_interfaceId m \<in> set present) \<longrightarrow>
        (\<exists>m\<in>set members. mr_interfaceId m = i \<and> pattern_matches (ct_member t) (pattern_of (Some (mr_member m))) '''')))"
  using assms by (rule slot_permissions_admit)

definition demo_member :: "string \<Rightarrow> string \<Rightarrow> member_requirement" where
  "demo_member i m = \<lparr>mr_interfaceId = i, mr_member = exact_pattern m, mr_required = True\<rparr>"

definition slot_call :: "string \<Rightarrow> string \<Rightarrow> string \<Rightarrow> call" where
  "slot_call svc i m = \<lparr>call_target = \<lparr>ct_serviceId = svc, ct_interfaceId = i, ct_member = m, ct_interfaceHash = None\<rparr>,
     call_params = None, call_nonce = [], call_signedAtMs = NaN, call_signer = [], call_callHash = []\<rparr>"

lemma slot_permissions_exact_witness:
  "(\<exists>p\<in>set (build_slot_permissions ''b'' [] [demo_member ''I'' ''get''] [''I'']).
      permission_permits (slot_call ''b'' ''I'' ''get'') (permission_of p) Invoke = Inr Ok) \<and>
   \<not> (\<exists>p\<in>set (build_slot_permissions ''b'' [] [demo_member ''I'' ''get''] [''I'']).
      permission_permits (slot_call ''b'' ''I'' ''put'') (permission_of p) Invoke = Inr Ok)"
proof -
  have nz: "\<forall>m\<in>set [demo_member ''I'' ''get'']. CHR 0x00 \<notin> set (mr_interfaceId m)" by (simp add: demo_member_def)
  show ?thesis unfolding slot_permissions_exact [OF nz]
    by (simp add: demo_member_def slot_call_def hash_of_interface_def hash_by_interface_def exact_pattern_def
        pattern_of_def pattern_matches_def)
qed

text \<open>Asking for \<^verbatim>\<open>J.read\<close> of a service that has only \<open>I\<close> grants the whole of \<open>I\<close>.\<close>

lemma absent_member_widens:
  "\<exists>p\<in>set (build_slot_permissions ''b'' [] [demo_member ''J'' ''read''] [''I'']).
     permission_permits (slot_call ''b'' ''I'' ''wipe'') (permission_of p) Invoke = Inr Ok"
  by (simp add: demo_member_def slot_call_def slot_permission_permits_iff build_slot_permissions_def add_to_bucket_def
      hash_of_interface_def hash_by_interface_def pattern_of_def pattern_matches_def str_of_def)

section \<open>The first prompt to settle decides\<close>

lemma race_settled: "ra_outcome r \<noteq> None \<Longrightarrow> foldl race_step r es = r"
  by (induction es) (auto simp: race_step_def split: race_event.split)

lemma race_first_wins:
  "ra_outcome r = None \<Longrightarrow> ra_outcome (foldl race_step r es) =
     (case filter (\<lambda>e. e \<noteq> OuterAbort) es of PromptSettled d # _ \<Rightarrow> Some d | _ \<Rightarrow> None)"
proof (induction es arbitrary: r)
  case (Cons e es)
  show ?case
  proof (cases e)
    case (PromptSettled d)
    with Cons.prems have "ra_outcome (race_step r e) = Some d" by (simp add: race_step_def)
    then show ?thesis using race_settled [of "race_step r e" es] PromptSettled by simp
  next
    case OuterAbort
    with Cons.prems have "ra_outcome (race_step r e) = None" by (simp add: race_step_def)
    from Cons.IH [OF this] OuterAbort show ?thesis by simp
  qed
qed simp

section \<open>Allow once\<close>

lemma distinct_keys_sort:
  "distinct (map fst kvs) \<Longrightarrow> map_of (sort_key fst kvs) = map_of kvs"
proof -
  assume d: "distinct (map fst kvs)"
  then have "distinct (map fst (sort_key fst kvs))"
    by (metis distinct_map distinct_sort inj_on_def set_sort)
  with d show ?thesis by (intro map_of_eqI) (auto simp: map_of_eq_Some_iff)
qed

lemma jnorm_map_of:
  assumes "distinct (map fst a)" "distinct (map fst b)" "jnorm (JObj a) = jnorm (JObj b)"
  shows "map_option jnorm (map_of a k) = map_option jnorm (map_of b k)"
proof -
  have e: "map_of (sort_key fst (map (map_prod id jnorm) kvs)) k = map_option jnorm (map_of kvs k)"
    if "distinct (map fst kvs)" for kvs
  proof -
    have "distinct (map fst (map (map_prod id jnorm) kvs))" using that by (simp add: comp_def)
    from distinct_keys_sort [OF this] show ?thesis
      using map_of_map [of jnorm kvs] by (simp add: map_prod_def case_prod_beta')
  qed
  from assms(3) e [OF assms(1)] e [OF assms(2)] show ?thesis by simp
qed

text \<open>The fields of a call's metadata do not depend on the order of its keys.\<close>

lemma call_meta_of_jnorm:
  assumes "json_ok (JObj kvs)" "jnorm (JObj kvs) = jnorm (call_meta_json m)"
  shows "call_meta_of (JObj kvs) = Some m"
proof -
  obtain ms where ms: "call_meta_json m = JObj ms" "distinct (map fst ms)"
    by (auto simp: call_meta_json_def split: option.splits)
  have f: "map_option jnorm (map_of kvs k) = map_option jnorm (map_of ms k)" for k
    using jnorm_map_of [of kvs ms k] assms ms by simp
  have str: "jnorm j = JStr s \<longleftrightarrow> j = JStr s" "jnorm j = JNum n \<longleftrightarrow> j = JNum n" for j s n
    by (cases j; simp)+
  have g: "field k (JObj kvs) = field k (call_meta_json m)"
    if "k \<in> {''method'', ''nonce'', ''signedAtMs'', ''principal'', ''interfaceHash''}" for k
    using f [of k] that ms(1)
    by (auto simp: call_meta_json_def str split: option.splits)
  have "call_meta_of (JObj kvs) = call_meta_of (call_meta_json m)"
    unfolding call_meta_of_def by (subst g, simp)+ simp
  then show ?thesis by (simp add: call_meta_roundtrip)
qed

lemma strip_wire_meta_filter:
  "strip_wire_meta (Some (JObj kvs)) = Some (JObj (filter (\<lambda>(key, _). key \<notin> set reserved_keys) kvs))"
proof -
  have "filter (\<lambda>(key, _). key \<notin> set reserved_keys) kvs = kvs" if "\<not> list_ex (\<lambda>key. key \<in> fst ` set kvs) reserved_keys"
    using that by (auto simp: filter_id_conv list_ex_iff)
  then show ?thesis by (auto simp: strip_wire_meta_def)
qed

lemma jnorm_filter_keys:
  "jnorm (JObj (filter (\<lambda>(k, _). P k) kvs)) =
     (case jnorm (JObj kvs) of JObj ns \<Rightarrow> JObj (filter (\<lambda>(k, _). P k) ns) | j \<Rightarrow> j)"
  by (simp add: filter_sort filter_map comp_def case_prod_beta')

lemma strip_signed_part:
  "strip_wire_meta (Some (JObj (signed_part (JObj kvs)))) = strip_wire_meta (Some (JObj kvs))"
  unfolding strip_wire_meta_filter
  by (auto simp: jm_delete_def reserved_keys_def intro!: filter_cong)

lemma strip_jnorm_cong:
  assumes "jnorm (JObj (signed_part (JObj a))) = jnorm (JObj (signed_part (JObj b)))"
  shows "map_option jnorm (strip_wire_meta (Some (JObj a))) = map_option jnorm (strip_wire_meta (Some (JObj b)))"
proof -
  have "map_option jnorm (strip_wire_meta (Some (JObj (signed_part (JObj a))))) =
      map_option jnorm (strip_wire_meta (Some (JObj (signed_part (JObj b)))))"
    unfolding strip_wire_meta_filter option.map(2) jnorm_filter_keys [of "\<lambda>key. key \<notin> set reserved_keys"] assms ..
  then show ?thesis unfolding strip_signed_part .
qed

end
