(* ===== verification/AccessGrant.thy ===== *)
theory AccessGrant
  imports Consent Issuance
begin

text \<open>
  The consent front door of a hub: \<^verbatim>\<open>hubAccessService.ts\<close>, which resolves candidates, asks its handlers and
  checks their answer; \<^verbatim>\<open>engine/hubAccessConfig.ts\<close>, the handlers built from one decider; and
  \<^verbatim>\<open>engine/hubAccessGrantSigner.ts\<close>, the decider that mints with a key of its own.  Handlers and deciders may
  have state and may throw, so they take a state and return it with a result.
\<close>

section \<open>The front door\<close>

record raw_slot =
  rw_interfaces :: "(string \<times> string option \<times> bool option) list"
  rw_members :: "(string \<times> json \<times> bool option) list option"

definition normalize_slot :: "raw_slot \<Rightarrow> slot_request" where
  "normalize_slot raw =
     \<lparr>sl_interfaces = map (\<lambda>(i, h, r). \<lparr>ir_id = i, ir_hash = h, ir_required = (r \<noteq> Some False)\<rparr>) (rw_interfaces raw),
      sl_members = map (\<lambda>(i, m, r). \<lparr>mr_interfaceId = i, mr_member = m, mr_required = (r \<noteq> Some False)\<rparr>)
        (case rw_members raw of Some ms \<Rightarrow> ms | None \<Rightarrow> [])\<rparr>"

text \<open>Slots are given with the service and the interfaces they are bound to.\<close>

type_synonym slot_bindings = "(string \<times> string \<times> string list) list"

datatype access_decision =
    DecisionGranted slot_bindings "json list"
  | DecisionDenied "string option"

datatype access_result =
    NoCandidates "string list"
  | AccessDenied "string option"
  | AccessGranted slot_bindings "json list"

type_synonym 's request_handler = "(string \<times> resolved_slot) list \<Rightarrow> 's \<Rightarrow> 's \<times> access_decision res"

text \<open>A binding is kept when its slot was requested and its service is a candidate for it.\<close>

definition checked_slots :: "(string \<times> resolved_slot) list \<Rightarrow> slot_bindings \<Rightarrow> slot_bindings" where
  "checked_slots deps bindings =
     filter (\<lambda>(slotId, svc, _). case jm_get deps slotId of
         None \<Rightarrow> False
       | Some r \<Rightarrow> list_ex (\<lambda>c. sc_serviceId c = svc) (rs_candidates r)) bindings"

definition access_request ::
    "(string \<times> raw_slot) list \<Rightarrow> directory_entry list \<Rightarrow> 's request_handler \<Rightarrow> 's \<Rightarrow> 's \<times> access_result res" where
  "access_request dependencies directory on_request st =
     (case resolve_access_candidates (map (\<lambda>(i, raw). (i, normalize_slot raw)) dependencies) directory of
        (deps, missing) \<Rightarrow>
          if missing \<noteq> [] then (st, Inr (NoCandidates missing))
          else (case on_request deps st of (st', r) \<Rightarrow> (st', res_bind r (\<lambda>d. Inr (case d of
              DecisionDenied reason \<Rightarrow> AccessDenied reason
            | DecisionGranted bindings caps \<Rightarrow> AccessGranted (checked_slots deps bindings) caps)))))"

datatype extend_decision =
    ExtendGranted string "(string \<times> json) list" "json list option"
  | ExtendDenied "string option"

type_synonym 's extend_handler = "string \<Rightarrow> member_requirement list \<Rightarrow> 's \<Rightarrow> 's \<times> extend_decision res"

definition access_extend ::
    "string \<Rightarrow> (string \<times> json \<times> bool option) list \<Rightarrow> 's extend_handler \<Rightarrow> 's \<Rightarrow> 's \<times> extend_decision res" where
  "access_extend serviceId added on_extend st =
     on_extend serviceId
       (map (\<lambda>(i, m, r). \<lparr>mr_interfaceId = i, mr_member = m, mr_required = (r \<noteq> Some False)\<rparr>) added) st"

datatype direct_decision = DirectGranted "json list" | DirectDenied "string option"

definition access_direct ::
    "direct_permission list \<Rightarrow> (direct_permission list \<Rightarrow> 's \<Rightarrow> 's \<times> direct_decision res) \<Rightarrow> 's \<Rightarrow> 's \<times> direct_decision res" where
  "access_direct permissions on_direct st = on_direct permissions st"

section \<open>Handlers from one decider\<close>

datatype request_kind = KindRequest | KindExtend | KindRequestAccess

text \<open>The consumer's name, origin and purpose are for display and travel as one value.\<close>

record access_context =
  ac_kind :: request_kind
  ac_consumer :: json
  ac_consumerPrincipalId :: string
  ac_permissions :: "direct_permission list"
  ac_duration :: "string option"

type_synonym 's decider = "access_context \<Rightarrow> 's \<Rightarrow> 's \<times> consent_decision res"

text \<open>The error text goes on after a dash that is not a Latin-1 character.\<close>

definition caps_from_decision :: "json list option \<Rightarrow> json list res" where
  "caps_from_decision capabilities = (case capabilities of
     Some (c # cs) \<Rightarrow> Inr (c # cs)
   | _ \<Rightarrow> Inl (JsError ''hubAccess: a grant decision carried no capabilities to relay''))"

definition denied_reason :: "string option \<Rightarrow> string option" where
  "denied_reason reason = Some (case reason of Some r \<Rightarrow> r | None \<Rightarrow> ''user denied'')"

abbreviation plain :: "json \<Rightarrow> direct_permission" where
  "plain p \<equiv> \<lparr>dp_permission = p, dp_callIntent = None\<rparr>"

text \<open>The first candidate of every slot, with the permissions for it; the slot without one is the error.\<close>

fun bind_slots :: "(string \<times> resolved_slot) list \<Rightarrow> string + slot_bindings \<times> json list" where
  "bind_slots [] = Inr ([], [])"
| "bind_slots ((slotId, slot) # rest) = (case rs_candidates slot of
     [] \<Rightarrow> Inl slotId
   | c # _ \<Rightarrow> (let present = map ir_id (sc_satisfied c) in
       case bind_slots rest of
         Inl e \<Rightarrow> Inl e
       | Inr (bindings, perms) \<Rightarrow>
           Inr ((slotId, sc_serviceId c, present) # bindings,
             build_slot_permissions (sc_serviceId c) (sl_interfaces (rs_request slot)) (sl_members (rs_request slot))
               (foldl js_add [] present) @ perms)))"

definition on_access_request ::
    "'s decider \<Rightarrow> json \<Rightarrow> string \<Rightarrow> string option \<Rightarrow> 's request_handler" where
  "on_access_request decide consumer prin duration deps st =
     (if deps = [] then (st, Inr (DecisionDenied (Some ''no slots requested'')))
      else (case bind_slots deps of
          Inl slotId \<Rightarrow> (st, Inr (DecisionDenied (Some (''no candidate for slot '' @ [CHR 0x27] @ slotId @ [CHR 0x27]))))
        | Inr (bindings, permissions) \<Rightarrow>
            (case decide \<lparr>ac_kind = KindRequest, ac_consumer = consumer, ac_consumerPrincipalId = prin,
                   ac_permissions = map plain permissions, ac_duration = duration\<rparr> st of (st', r) \<Rightarrow>
              (st', res_bind r (\<lambda>d. case d of
                 ConsentDeny reason \<Rightarrow> Inr (DecisionDenied (denied_reason reason))
               | ConsentGrant capabilities \<Rightarrow>
                   res_bind (caps_from_decision capabilities) (\<lambda>cs. Inr (DecisionGranted bindings cs)))))))"

definition extend_permission :: "string \<Rightarrow> string \<times> json list \<Rightarrow> json" where
  "extend_permission serviceId e = (case e of (interfaceId, members) \<Rightarrow>
     JObj [(''target'', JObj [(''serviceId'', exact_pattern serviceId), (''interfaceId'', exact_pattern interfaceId),
         (''members'', JArr members)]), (''canInvoke'', JBool True)])"

definition members_by_interface :: "member_requirement list \<Rightarrow> (string \<times> json list) list" where
  "members_by_interface added =
     foldl (\<lambda>m a. jm_set m (mr_interfaceId a)
       ((case jm_get m (mr_interfaceId a) of Some ms \<Rightarrow> ms | None \<Rightarrow> []) @ [mr_member a])) [] added"

definition on_access_extend :: "'s decider \<Rightarrow> json \<Rightarrow> string \<Rightarrow> string option \<Rightarrow> 's extend_handler" where
  "on_access_extend decide consumer prin duration serviceId added st =
     (let permissions = map (extend_permission serviceId) (members_by_interface added) in
      if permissions = [] then (st, Inr (ExtendDenied (Some ''no members requested'')))
      else (case decide \<lparr>ac_kind = KindExtend, ac_consumer = consumer, ac_consumerPrincipalId = prin,
               ac_permissions = map plain permissions, ac_duration = duration\<rparr> st of (st', r) \<Rightarrow>
          (st', res_bind r (\<lambda>d. case d of
             ConsentDeny reason \<Rightarrow> Inr (ExtendDenied (denied_reason reason))
           | ConsentGrant capabilities \<Rightarrow>
               res_bind (caps_from_decision capabilities) (\<lambda>cs.
                 Inr (ExtendGranted serviceId (map (\<lambda>a. (mr_interfaceId a, mr_member a)) added) (Some cs)))))))"

definition on_access_direct ::
    "'s decider \<Rightarrow> json \<Rightarrow> string \<Rightarrow> string option \<Rightarrow> direct_permission list \<Rightarrow> 's \<Rightarrow> 's \<times> direct_decision res" where
  "on_access_direct decide consumer prin duration permissions st =
     (if permissions = [] then (st, Inr (DirectDenied (Some ''no permissions requested'')))
      else (case decide \<lparr>ac_kind = KindRequestAccess, ac_consumer = consumer, ac_consumerPrincipalId = prin,
               ac_permissions = permissions, ac_duration = duration\<rparr> st of (st', r) \<Rightarrow>
          (st', res_bind r (\<lambda>d. case d of
             ConsentDeny reason \<Rightarrow> Inr (DirectDenied (denied_reason reason))
           | ConsentGrant capabilities \<Rightarrow>
               res_bind (caps_from_decision capabilities) (\<lambda>cs. Inr (DirectGranted cs))))))"

definition describe_request :: "string \<Rightarrow> access_context \<Rightarrow> string" where
  "describe_request consumerName ctx =
     ''\"'' @ consumerName @ ''\" (node='' @ ac_consumerPrincipalId ctx @ '') requests [''
       @ js_join '', '' (map (\<lambda>p. describe_permission (permission_of (dp_permission p))) (ac_permissions ctx)) @ '']''
       @ (case ac_duration ctx of
            Some d \<Rightarrow> (if d = [] then [] else '' for '' @ [CHR 0x27] @ d @ [CHR 0x27]) | None \<Rightarrow> [])"

section \<open>The grant signer\<close>

datatype grant_verdict = VerdictPermitted | VerdictRejected "string option"

text \<open>The state is the issuer's; the random bytes of the nonce and the clock are arguments.\<close>

definition grant_signer_mint ::
    "bytes \<Rightarrow> jsnum \<Rightarrow> access_context \<Rightarrow> proposal_issuer \<Rightarrow> proposal_issuer \<times> json res" where
  "grant_signer_mint randomBytes now ctx st =
     (case to_signed_permissions (ac_permissions ctx) (ac_consumerPrincipalId ctx) (ac_duration ctx) of
        Inl e \<Rightarrow> (st, Inl e)
      | Inr permissions \<Rightarrow> mint_proposed randomBytes
          \<lparr>pa_audience = ac_consumerPrincipalId ctx, pa_permissions = permissions,
           pa_expiresAtMs = duration_to_exp now (ac_duration ctx)\<rparr> st)"

definition grant_signer_decide ::
    "(access_context \<Rightarrow> grant_verdict) \<Rightarrow> bytes \<Rightarrow> jsnum \<Rightarrow> proposal_issuer decider" where
  "grant_signer_decide policy randomBytes now ctx st = (case policy ctx of
     VerdictRejected reason \<Rightarrow> (st, Inr (ConsentDeny reason))
   | VerdictPermitted \<Rightarrow> (case grant_signer_mint randomBytes now ctx st of
       (st', r) \<Rightarrow> (st', res_bind r (\<lambda>capability. Inr (ConsentGrant (Some [capability]))))))"

section \<open>Discovery grants what is listed\<close>

text \<open>The slots of a granted answer are requested ones, each bound to a listed service that implements every
  interface the slot requires, in the required version, whatever the consent handler answered; without a
  candidate for some slot the handler is not even asked.\<close>

theorem granted_slots_are_candidates:
  assumes "access_request dependencies directory on_request st = (st', Inr (AccessGranted slots caps))"
  shows "\<forall>(slotId, svc, ifs)\<in>set slots. \<exists>raw. (slotId, raw) \<in> set dependencies \<and>
      svc \<in> de_serviceId ` set directory \<and>
      list_all (\<lambda>r. ir_required r \<longrightarrow> implements directory svc r) (sl_interfaces (normalize_slot raw))"
proof -
  obtain deps missing where r: "resolve_access_candidates (map (\<lambda>(i, raw). (i, normalize_slot raw)) dependencies) directory =
      (deps, missing)" by fastforce
  with assms obtain d where d: "(case d of DecisionDenied reason \<Rightarrow> AccessDenied reason
      | DecisionGranted bindings caps \<Rightarrow> AccessGranted (checked_slots deps bindings) caps) = AccessGranted slots caps"
    unfolding access_request_def by (simp add: res_bind_Inr_iff split: if_split_asm prod.split_asm) blast
  then obtain bindings where s: "slots = checked_slots deps bindings" by (cases d) auto
  show ?thesis
  proof (clarify)
    fix slotId svc ifs
    assume "(slotId, svc, ifs) \<in> set slots"
    then obtain rs c where rs: "jm_get deps slotId = Some rs" "c \<in> set (rs_candidates rs)" "sc_serviceId c = svc"
      by (auto simp: s checked_slots_def list_ex_iff split: option.splits)
    from jm_get_SomeD [OF rs(1)] r obtain raw where raw: "(slotId, raw) \<in> set dependencies"
      "rs_candidates rs = candidates_for_slot (normalize_slot raw) directory"
      by (auto simp: resolve_access_candidates_def Let_def)
    with rs(2,3) candidate_D [of c "normalize_slot raw" directory] show "\<exists>raw. (slotId, raw) \<in> set dependencies \<and>
      svc \<in> de_serviceId ` set directory \<and>
      list_all (\<lambda>r. ir_required r \<longrightarrow> implements directory svc r) (sl_interfaces (normalize_slot raw))"
      by (auto simp: list_all_iff)
  qed
qed

definition demo_directory :: "directory_entry list" where
  "demo_directory = [\<lparr>de_serviceId = ''a'', de_interfaceId = ''I'', de_hash = ''h1'', de_description = None\<rparr>,
     \<lparr>de_serviceId = ''b'', de_interfaceId = ''I'', de_hash = ''h2'', de_description = Some ''B''\<rparr>]"

definition demo_slot :: raw_slot where
  "demo_slot = \<lparr>rw_interfaces = [(''I'', Some ''h2'', None), (''J'', None, Some False)], rw_members = None\<rparr>"

lemma granted_slots_are_candidates_witness:
  "\<exists>slots. access_request [(''s'', demo_slot), (''t'', demo_slot)] demo_directory
     (\<lambda>_ st. (st, Inr (DecisionGranted [(''s'', ''b'', [''I'']), (''t'', ''a'', [''I'']), (''u'', ''b'', [''I''])] []))) () =
       ((), Inr (AccessGranted slots [])) \<and>
     slots = [(''s'', ''b'', [''I''])] \<and> implements demo_directory ''b'' \<lparr>ir_id = ''I'', ir_hash = Some ''h2'', ir_required = True\<rparr>"
proof -
  have e: "access_request [(''s'', demo_slot), (''t'', demo_slot)] demo_directory
     (\<lambda>_ st. (st, Inr (DecisionGranted [(''s'', ''b'', [''I'']), (''t'', ''a'', [''I'']), (''u'', ''b'', [''I''])] []))) () =
       ((), Inr (AccessGranted [(''s'', ''b'', [''I''])] []))" by code_simp
  from granted_slots_are_candidates [OF e] have "implements demo_directory ''b'' \<lparr>ir_id = ''I'', ir_hash = Some ''h2'', ir_required = True\<rparr>"
    by (auto simp: demo_slot_def normalize_slot_def)
  with e show ?thesis by blast
qed

lemma set_js_set: "set (foldl js_add acc xs) = set acc \<union> set xs"
  by (induction xs arbitrary: acc) auto

lemma bind_slots_D:
  assumes "bind_slots deps = Inr (bindings, perms)" "p \<in> set perms"
  shows "\<exists>slotId slot c. (slotId, slot) \<in> set deps \<and> c \<in> set (rs_candidates slot) \<and>
    p \<in> set (build_slot_permissions (sc_serviceId c) (sl_interfaces (rs_request slot)) (sl_members (rs_request slot))
      (foldl js_add [] (map ir_id (sc_satisfied c))))"
  using assms
proof (induction deps arbitrary: bindings perms rule: bind_slots.induct)
  case (2 slotId slot rest)
  from 2(2) obtain c cs bs ps where c: "rs_candidates slot = c # cs" "bind_slots rest = Inr (bs, ps)"
    "perms = build_slot_permissions (sc_serviceId c) (sl_interfaces (rs_request slot)) (sl_members (rs_request slot))
      (foldl js_add [] (map ir_id (sc_satisfied c))) @ ps"
    by (auto simp: Let_def split: list.splits sum.splits)
  show ?case
  proof (cases "p \<in> set ps")
    case True
    from 2(1) [OF c(1) refl c(2) True] show ?thesis by fastforce
  next
    case False
    with 2(3) c show ?thesis by fastforce
  qed
qed simp

text \<open>C15: What a discovery request asks consent for.  Every call that some permission put to the decider admits is
  a call of a listed service on an interface of some requested slot, which the directory says that service
  implements in the version asked for.\<close>

theorem discovery_asks_what_is_listed:
  assumes "resolve_access_candidates (map (\<lambda>(i, raw). (i, normalize_slot raw)) dependencies) directory = (deps, missing)"
    and "bind_slots deps = Inr (bindings, perms)" "p \<in> set perms" "permission_permits c (permission_of p) Invoke = Inr Ok"
    and "\<forall>(i, raw)\<in>set dependencies. \<forall>m\<in>set (sl_members (normalize_slot raw)). CHR 0x00 \<notin> set (mr_interfaceId m)"
  shows "\<exists>slotId raw. (slotId, raw) \<in> set dependencies \<and> (\<exists>r\<in>set (sl_interfaces (normalize_slot raw)).
      ir_id r = ct_interfaceId (call_target c) \<and> implements directory (ct_serviceId (call_target c)) r)"
proof -
  from bind_slots_D [OF assms(2,3)] obtain slotId slot cd where s: "(slotId, slot) \<in> set deps" "cd \<in> set (rs_candidates slot)"
    "p \<in> set (build_slot_permissions (sc_serviceId cd) (sl_interfaces (rs_request slot)) (sl_members (rs_request slot))
      (foldl js_add [] (map ir_id (sc_satisfied cd))))" by blast
  from s(1) assms(1) obtain raw where raw: "(slotId, raw) \<in> set dependencies" "rs_request slot = normalize_slot raw"
    "rs_candidates slot = candidates_for_slot (normalize_slot raw) directory"
    by (auto simp: resolve_access_candidates_def Let_def)
  from raw(1) assms(5) have nz: "\<forall>m\<in>set (sl_members (rs_request slot)). CHR 0x00 \<notin> set (mr_interfaceId m)"
    unfolding raw(2) by blast
  from s(3) assms(4) have "\<exists>p\<in>set (build_slot_permissions (sc_serviceId cd) (sl_interfaces (rs_request slot))
      (sl_members (rs_request slot)) (foldl js_add [] (map ir_id (sc_satisfied cd)))). permission_permits c (permission_of p) Invoke = Inr Ok"
    by blast
  then have t: "ct_serviceId (call_target c) = sc_serviceId cd" "ct_interfaceId (call_target c) \<in> ir_id ` set (sc_satisfied cd)"
    unfolding slot_permissions_admit [OF nz] by (simp_all add: set_js_set Let_def)
  with candidate_D [of cd "normalize_slot raw" directory] s(2) raw show ?thesis by fastforce
qed

lemma discovery_asks_what_is_listed_witness:
  "\<exists>deps bindings p. resolve_access_candidates (map (\<lambda>(i, raw). (i, normalize_slot raw)) [(''s'', demo_slot)]) demo_directory = (deps, []) \<and>
     bind_slots deps = Inr (bindings, [p]) \<and>
     permission_permits (slot_call ''b'' ''I'' ''get''\<lparr>call_target := \<lparr>ct_serviceId = ''b'', ct_interfaceId = ''I'', ct_member = ''get'',
       ct_interfaceHash = Some ''h2''\<rparr>\<rparr>) (permission_of p) Invoke = Inr Ok \<and>
     (\<exists>r\<in>set (sl_interfaces (normalize_slot demo_slot)). ir_id r = ''I'' \<and> implements demo_directory ''b'' r)"
proof -
  let ?c = "slot_call ''b'' ''I'' ''get''\<lparr>call_target := \<lparr>ct_serviceId = ''b'', ct_interfaceId = ''I'', ct_member = ''get'',
       ct_interfaceHash = Some ''h2''\<rparr>\<rparr>"
  let ?p = "slot_permission ''b'' ''I'' [JObj [(''prefix'', JStr '''')]] (Some ''h2'')"
  let ?deps = "fst (resolve_access_candidates (map (\<lambda>(i, raw). (i, normalize_slot raw)) [(''s'', demo_slot)]) demo_directory)"
  have "snd (resolve_access_candidates (map (\<lambda>(i, raw). (i, normalize_slot raw)) [(''s'', demo_slot)]) demo_directory) = []"
    by code_simp
  then have r: "resolve_access_candidates (map (\<lambda>(i, raw). (i, normalize_slot raw)) [(''s'', demo_slot)]) demo_directory = (?deps, [])"
    by (simp add: prod_eq_iff)
  have b: "bind_slots ?deps = Inr ([(''s'', ''b'', [''I''])], [?p])" by code_simp
  have p: "permission_permits ?c (permission_of ?p) Invoke = Inr Ok"
    by (simp add: slot_permission_permits_iff pattern_matches_def pattern_of_def str_of_def slot_call_def)
  have nz: "\<forall>(i, raw)\<in>set [(''s'', demo_slot)]. \<forall>m\<in>set (sl_members (normalize_slot raw)). CHR 0x00 \<notin> set (mr_interfaceId m)"
    by (simp add: demo_slot_def normalize_slot_def)
  have "?p \<in> set [?p]" by simp
  from discovery_asks_what_is_listed [OF r b this p nz] have
    "\<exists>r\<in>set (sl_interfaces (normalize_slot demo_slot)). ir_id r = ''I'' \<and> implements demo_directory ''b'' r" by simp
  with r b p show ?thesis by blast
qed

section \<open>A one-shot grant is honoured\<close>

definition intent_of :: "sign_opts \<Rightarrow> access_intent" where
  "intent_of so = \<lparr>ai_method = so_method so, ai_params = so_params so, ai_interfaceHash = so_interfaceHash so,
     ai_nonce = bytes_to_base64url (so_nonce so), ai_signedAtMs = Some (so_nowMs so)\<rparr>"

lemma intent_hash:
  assumes "sign_rpc_call so = Inr c"
  shows "compute_call_bind_hash (intent_of so) (si_principal (so_identity so)) = Inr (sr_callHash c)"
  using assms by (auto simp: sign_rpc_call_def compute_call_bind_hash_def intent_of_def bound_params_def intent_meta_def
      call_meta_for_def Let_def res_bind_Inr_iff)

definition bound_permission :: "json \<Rightarrow> string \<Rightarrow> json" where
  "bound_permission perm h = JObj (jm_set (spread (Some perm)) ''callBind''
     (JObj [(''alg'', JStr ''sha256''), (''payloadHash'', JStr h)]))"

lemma bound_permission_of:
  "perm = JObj kvs \<Longrightarrow> permission_of (bound_permission perm h) =
     permission_of perm\<lparr>perm_callBind := Some \<lparr>cb_alg = ''sha256'', cb_payloadHash = h\<rparr>\<rparr>"
  by (simp add: permission_of_def bound_permission_def str_of_def)

lemma bound_permission_ok:
  assumes "has_permission_shape perm" "json_finite perm"
  shows "permissions_ok [bound_permission perm h]"
proof -
  from assms(1) obtain kvs where k: "perm = JObj kvs"
    by (auto simp: has_permission_shape_def is_record_def split: json.splits)
  have "has_permission_shape (bound_permission perm h)"
    using assms(1) unfolding k by (simp add: has_permission_shape_def bound_permission_def is_record_def is_str_def)
  moreover have "json_finite (bound_permission perm h)"
    using assms(2) unfolding k bound_permission_def spread_simps by (intro json_finite_jm_set) simp_all
  ultimately show ?thesis by (simp add: permissions_ok_def)
qed

lemma minted_cap_permits:
  assumes "mint_proposed rb args st = (st', Inr cap)" "holds_key verify (pi_identity st) pk" "permissions_ok (pa_permissions args)"
    and "\<forall>e. pa_expiresAtMs args = Some e \<longrightarrow> num_finite e \<and> \<not> e < nowMs" "call_signer c = pa_audience args"
    and "pa_permissions args = [p]" "permission_permits c (permission_of p) Invoke = Inr Ok"
    and "si_principal (pi_identity st) \<in> ar_principal ` set (acc (ct_serviceId (call_target c)))"
  shows "\<exists>nonce. permits verify c [cap] acc nowMs None = Inr (Permitted nonce (si_principal (pi_identity st)))"
proof -
  from assms(1) obtain nonce where s: "sign_capability (capability_object (si_principal (pi_identity st)) (pa_audience args)
      (pa_permissions args) nonce (pa_expiresAtMs args) None) (pi_identity st) = Inr cap"
    by (auto simp: mint_proposed_def propose_def next_nonce_def sign_proposed_def issuer_principal_id_def Let_def)
  have "\<forall>e. pa_expiresAtMs args = Some e \<longrightarrow> num_finite e" using assms(4) by simp
  note f = signed_capability_fields [OF assms(2,3) this s]
  have "capability_permits c (signed_capability_of cap) Invoke = Inr Ok"
    unfolding capability_permits_def
    by (rule permits_go_complete [of _ _ _ "permission_of p"]) (use assms(6,7) f(4) in auto)
  then have chk: "call_check c (signed_capability_of cap) True = Inr Ok" by (simp add: call_check_def)
  have exp: "\<not> link_expired (signed_capability_of cap) nowMs"
    using assms(4) f(4) by (auto simp: link_expired_def split: option.splits)
  have "verify_link verify resolve (call_check c) nowMs (permit_depth None) (signed_capability_of cap)
       (call_signer c) True = Inr (LinkOk (si_principal (pi_identity st)))" for resolve
    unfolding permit_depth_def option.case numeral_eq_Suc pred_numeral_simps verify_link_step
    using chk exp f(3) assms(5) by (simp add: f(4))
  from permits_single [OF f(1,2) this] assms(8) show ?thesis by blast
qed

text \<open>The whole path of ``allow once'': the consumer announces the call it is about to make, the signer grants it
  and mints, the consumer signs the call and attaches what it was given.\<close>

definition once_context :: "sign_opts \<Rightarrow> json \<Rightarrow> access_context" where
  "once_context so perm = \<lparr>ac_kind = KindRequestAccess, ac_consumer = JNull,
     ac_consumerPrincipalId = si_principal (so_identity so),
     ac_permissions = [\<lparr>dp_permission = perm, dp_callIntent = Some (intent_of so)\<rparr>], ac_duration = Some ''once''\<rparr>"

text \<open>The same for any permission that covers the call.\<close>

lemma once_grant_covers:
  assumes "holds_key verify (so_identity so) pk" "so_params so = Some (JObj user)" "user_params_ok user"
    and "num_finite (so_nowMs so)" "\<not> num_of_int 300000 < num_abs (num_sub (so_nowMs so) nowV)"
    and "parse_method_name (so_method so) = Some (Full s i n)" "bytes_to_base64url (so_nonce so) \<noteq> []"
    and "holds_key verify (pi_identity st) pk'" "has_permission_shape perm" "json_finite perm"
    and "permission_of perm = P" "grants P Invoke" "\<forall>d. perm_params P = Some d \<longrightarrow> match_params d (Some (JObj user)) = Inr Ok"
    and "permission_matches_target \<lparr>ct_serviceId = s, ct_interfaceId = i, ct_member = n, ct_interfaceHash = so_interfaceHash so\<rparr> P"
    and "grant_signer_decide policy rb now (once_context so perm) st = (st', Inr (ConsentGrant (Some [cap])))"
    and "num_finite (num_add now (num_of_int 300000))" "\<not> num_add now (num_of_int 300000) < nowP"
    and "si_principal (pi_identity st) \<in> ar_principal ` set (acc s)"
  shows "\<exists>c vc nonce. sign_rpc_call so = Inr c \<and>
    verify_call verify method_name_to_target (so_method so) (Some (attach_capabilities (sr_wireParams c) [cap])) nowV None True =
      Inr (VerifyOk vc) \<and>
    permits verify (vc_call vc) (vc_capabilities vc) acc nowP None = Inr (Permitted nonce (si_principal (pi_identity st)))"
proof -
  have "True \<longrightarrow> [cap] \<noteq> []" by simp
  from verify_call_signed [OF assms(1-6) this] obtain c vc where
    c: "sign_rpc_call so = Inr c" and vc: "verify_call verify method_name_to_target (so_method so)
       (Some (attach_capabilities (sr_wireParams c) [cap])) nowV None True = Inr (VerifyOk vc)" "vc_capabilities vc = [cap]"
      "vc_call vc = \<lparr>call_target = \<lparr>ct_serviceId = s, ct_interfaceId = i, ct_member = n, ct_interfaceHash = so_interfaceHash so\<rparr>,
          call_params = Some (JObj user), call_nonce = bytes_to_base64url (so_nonce so), call_signedAtMs = so_nowMs so,
          call_signer = si_principal (so_identity so), call_callHash = sr_callHash c\<rparr>" by blast
  let ?q = "bound_permission perm (sr_callHash c)"
  from assms(2,7) have pins: "pins_call (Some ''once'') (Some (intent_of so))" by (simp add: pins_call_def intent_of_def)
  have perms: "to_signed_permissions (ac_permissions (once_context so perm)) (si_principal (so_identity so)) (Some ''once'') = Inr [?q]"
    using pins intent_hash [OF c]
    by (simp add: to_signed_permissions_def once_context_def to_signed_permission_def bound_permission_def)
  have dur: "duration_to_exp now (Some ''once'') = Some (num_add now (num_of_int 300000))"
    by (simp add: duration_to_exp_def duration_ms_def)
  let ?args = "\<lparr>pa_audience = si_principal (so_identity so), pa_permissions = [?q],
      pa_expiresAtMs = Some (num_add now (num_of_int 300000))\<rparr>"
  from assms(15) have m: "mint_proposed rb ?args st = (st', Inr cap)"
    using perms dur by (auto simp: grant_signer_decide_def grant_signer_mint_def once_context_def res_bind_Inr_iff
        split: grant_verdict.split_asm prod.split_asm)
  from assms(9) obtain kvs where k: "perm = JObj kvs"
    by (auto simp: has_permission_shape_def is_record_def split: json.splits)
  have "permission_permits (vc_call vc) (permission_of ?q) Invoke = Inr Ok"
    using assms(12-14) unfolding bound_permission_of [OF k] assms(11)
    by (simp add: permission_permits_Ok_iff grants_def vc(3) permission_matches_target_def target_mismatch_reason_def)
  from minted_cap_permits [OF m assms(8) _ _ _ _ this, of nowP acc] bound_permission_ok [OF assms(9,10)] assms(16-18)
  obtain nonce where "permits verify (vc_call vc) [cap] acc nowP None = Inr (Permitted nonce (si_principal (pi_identity st)))"
    by (auto simp: vc(3))
  with c vc show ?thesis by auto
qed

text \<open>What a managed client asks for before a gated call: the method it is about to call with exactly its
  parameters, \<^verbatim>\<open>requestAccessForCall\<close> of \<^verbatim>\<open>managedSigning.ts\<close>.\<close>

definition exact_param_matchers :: "json option \<Rightarrow> (string \<times> json) list" where
  "exact_param_matchers params = (case params of
     Some (JObj kvs) \<Rightarrow> map (\<lambda>(key, v). (key, JObj [(''exact'', v)])) kvs
   | _ \<Rightarrow> [])"

definition requested_permission :: "call_target \<Rightarrow> json option \<Rightarrow> json" where
  "requested_permission call params =
     JObj [(''target'', JObj [(''serviceId'', JObj [(''exact'', JStr (ct_serviceId call))]),
             (''interfaceId'', JObj [(''exact'', JStr (ct_interfaceId call))]),
             (''members'', JArr [JObj [(''exact'', JStr (ct_member call))]])]),
           (''canInvoke'', JBool True),
           (''params'', JObj (exact_param_matchers params))]"

lemma exact_matchers_match:
  assumes "json_finite (JObj user)"
  shows "match_params (exact_param_matchers (Some (JObj user))) (Some (JObj user)) = Inr Ok"
proof -
  have keys: "map fst (exact_param_matchers (Some (JObj user))) = map fst user"
    by (simp add: exact_param_matchers_def comp_def case_prod_beta)
  have exact: "match_param_value (JObj [(''exact'', v)]) v = Inr True" if "json_finite v" for v
    using that by (simp add: match_param_value_def in_obj_def jcs_canonicalize_def canonicalize_finite del: canonicalize.simps)
  have get: "map_of (exact_param_matchers (Some (JObj user))) k = map_option (\<lambda>v. JObj [(''exact'', v)]) (map_of user k)" for k
    by (induction user) (auto simp: exact_param_matchers_def)
  have "match_param_value (the (map_of (exact_param_matchers (Some (JObj user))) k)) (the (map_of user k)) = Inr True"
    if "k \<in> fst ` set user" for k
  proof -
    from that obtain v where v: "map_of user k = Some v" by (metis domIff dom_map_of_conv_image_fst not_None_eq)
    from map_of_SomeD [OF v] assms have "json_finite v" by (auto simp: list_all_iff)
    then show ?thesis by (simp add: get v exact)
  qed
  moreover from keys have "fst ` set (exact_param_matchers (Some (JObj user))) = fst ` set user" by (metis list.set_map)
  ultimately show ?thesis unfolding match_params_Ok_iff using keys by simp
qed

lemma requested_permission_ok:
  assumes "json_finite (JObj user)" "perm = requested_permission target (Some (JObj user))"
  shows "has_permission_shape perm" "json_finite perm" "grants (permission_of perm) Invoke"
    "perm_params (permission_of perm) = Some (exact_param_matchers (Some (JObj user)))"
    "permission_matches_target target (permission_of perm)"
proof -
  have shapes: "list_all (\<lambda>p. has_param_matcher_shape (snd p)) (exact_param_matchers (Some (JObj user)))"
    by (auto simp: exact_param_matchers_def list_all_iff has_param_matcher_shape_def is_record_def in_obj_def)
  have fin: "json_finite (JObj (exact_param_matchers (Some (JObj user))))"
    using assms(1) by (auto simp: exact_param_matchers_def list_all_iff)
  show "has_permission_shape perm"
    using shapes by (simp add: assms(2) has_permission_shape_def requested_permission_def is_record_def has_pattern_shape_def
        is_str_def arr_all_def is_bool_def)
  show "json_finite perm" using fin by (simp add: assms(2) requested_permission_def)
  show "grants (permission_of perm) Invoke"
    by (simp add: assms(2) grants_def permission_of_def requested_permission_def opt_bool_def)
  show "perm_params (permission_of perm) = Some (exact_param_matchers (Some (JObj user)))"
    by (simp add: assms(2) permission_of_def requested_permission_def)
  show "permission_matches_target target (permission_of perm)"
    by (simp add: assms(2) permission_matches_target_iff permission_of_def requested_permission_def target_pattern_of_def
        pattern_of_def pattern_matches_def str_of_def arr_of_def opt_str_def Let_def)
qed

text \<open>C8: An ``allow once'' grant is honoured.  When a managed client announces a qualified call with an object of parameters, none
  of a reserved name, the signer permits it and the client then makes exactly that call with the capability it was
  given, the call verifies within the clock skew and is permitted where the signer is an accepted root, as long as
  the grant has not expired: neither
  binding the grant to the call nor asking for exactly its parameters locks out the call it was asked for.\<close>

theorem once_grant_honoured:
  assumes "holds_key verify (so_identity so) pk" "so_params so = Some (JObj user)" "user_params_ok user"
    and "num_finite (so_nowMs so)" "\<not> num_of_int 300000 < num_abs (num_sub (so_nowMs so) nowV)"
    and "parse_method_name (so_method so) = Some (Full s i n)" "bytes_to_base64url (so_nonce so) \<noteq> []"
    and "holds_key verify (pi_identity st) pk'"
    and "target = \<lparr>ct_serviceId = s, ct_interfaceId = i, ct_member = n, ct_interfaceHash = so_interfaceHash so\<rparr>"
    and "grant_signer_decide policy rb now (once_context so (requested_permission target (so_params so))) st =
      (st', Inr (ConsentGrant (Some [cap])))"
    and "num_finite (num_add now (num_of_int 300000))" "\<not> num_add now (num_of_int 300000) < nowP"
    and "si_principal (pi_identity st) \<in> ar_principal ` set (acc s)"
  shows "\<exists>c vc nonce. sign_rpc_call so = Inr c \<and>
    verify_call verify method_name_to_target (so_method so) (Some (attach_capabilities (sr_wireParams c) [cap])) nowV None True =
      Inr (VerifyOk vc) \<and>
    permits verify (vc_call vc) (vc_capabilities vc) acc nowP None = Inr (Permitted nonce (si_principal (pi_identity st)))"
proof -
  from assms(3) have fin: "json_finite (JObj user)" by (simp add: user_params_ok_def)
  note r = requested_permission_ok [OF fin refl, of target]
  have m: "\<forall>d. perm_params (permission_of (requested_permission target (Some (JObj user)))) = Some d \<longrightarrow>
      match_params d (Some (JObj user)) = Inr Ok"
    using r(4) exact_matchers_match [OF fin] by simp
  have t: "permission_matches_target \<lparr>ct_serviceId = s, ct_interfaceId = i, ct_member = n, ct_interfaceHash = so_interfaceHash so\<rparr>
      (permission_of (requested_permission target (Some (JObj user))))" using r(5) assms(9) by simp
  from assms(10) have g: "grant_signer_decide policy rb now (once_context so (requested_permission target (Some (JObj user)))) st =
      (st', Inr (ConsentGrant (Some [cap])))" by (simp only: assms(2))
  show ?thesis by (rule once_grant_covers [where acc = acc and s = s, OF assms(1-8) r(1,2) refl [of "permission_of (requested_permission target (Some (JObj user)))"] r(3) m t g assms(11-13)])
qed

text \<open>C9: What ``allow once'' allows.  A call that passes verification and falls inside the permission signed for
  a one-shot grant is the call that was shown: the same method, interface version, nonce and time, signed by
  the consumer the grant was for, with the same parameters up to property order, provided the two payloads
  do not collide under SHA-256.\<close>

theorem once_admits_one_call:
  assumes "to_signed_permission consumer (Some ''once'') p = Inr q" "dp_callIntent p = Some i"
    and "pins_call (Some ''once'') (Some i)" "ai_params i = Some (JObj u)" "json_ok (bound_params i consumer u)"
    and "verify_call verify pm meth (Some w) now skew req = Inr (VerifyOk vc)" "json_ok w"
    and "permission_permits (vc_call vc) (permission_of q) ab = Inr Ok"
    and collision_free: "\<forall>m m'. signing_input ''call'' w = Inr m \<and> signing_input ''call'' (bound_params i consumer u) = Inr m' \<and>
        bytes_to_base64url (sha256 m) = bytes_to_base64url (sha256 m') \<longrightarrow> m = m'"
  shows "meth = ai_method i \<and> vc_callMeta vc = intent_meta i consumer \<and> vc_signer vc = consumer \<and>
    map_option jnorm (call_params (vc_call vc)) = map_option jnorm (strip_wire_meta (Some (JObj u)))"
proof -
  let ?b = "bound_params i consumer u"
  from assms(1-4) obtain h where h: "signed_hash ''call'' ?b = Inr h"
    "q = JObj (jm_set (spread (Some (dp_permission p))) ''callBind'' (JObj [(''alg'', JStr ''sha256''), (''payloadHash'', JStr h)]))"
    by (auto simp: to_signed_permission_def res_bind_Inr_iff compute_call_bind_hash_def require_object_params_def)
  from h(2) have "perm_callBind (permission_of q) = Some \<lparr>cb_alg = ''sha256'', cb_payloadHash = h\<rparr>"
    by (simp add: permission_of_def str_of_def)
  with assms(8) have ch: "call_callHash (vc_call vc) = h" by (simp add: permission_permits_Ok_iff)
  from verify_call_VerifyOk_D [OF assms(6)] obtain idn pr t where
    v: "verify_rpc_call verify \<lparr>vo_wireMethod = meth, vo_wireParams = Some w, vo_nowMs = now,
      vo_maxSkewMs = skew, vo_requireSigned = req\<rparr> = Inr (RpcOk (Some idn) pr)"
    and vc: "vc_signer vc = ci_signer idn" "call_params (vc_call vc) = pr" "call_callHash (vc_call vc) = ci_callHash idn"
    by auto
  from assms(6) v have vm: "vc_callMeta vc = ci_callMeta idn"
    by (auto simp: verify_call_def res_bind_Inr_iff Let_def split: if_splits)
  from verify_rpc_call_RpcOk_D [OF v] obtain kvs metaObj where
    k: "w = JObj kvs" "map_of kvs HUBRPC_META_KEY = Some metaObj" "call_meta_of metaObj = Some (ci_callMeta idn)"
    "cm_method (ci_callMeta idn) = meth" "cm_principal (ci_callMeta idn) = Some (ci_signer idn)"
    "signed_hash ''call'' (JObj kvs) = Inr (ci_callHash idn)" "pr = strip_wire_meta (Some (JObj kvs))"
    by auto
  from k(6) h(1) ch vc(3) obtain m m' where m: "signing_input ''call'' w = Inr m" "signing_input ''call'' ?b = Inr m'"
    "bytes_to_base64url (sha256 m) = bytes_to_base64url (sha256 m')"
    unfolding k(1) signed_hash_def by (auto simp: res_bind_Inr_iff)
  with collision_free have "m = m'" by blast
  define bs where "bs = jm_set u HUBRPC_META_KEY (call_meta_json (intent_meta i consumer))"
  have b: "?b = JObj bs" by (simp add: bound_params_def bs_def)
  from assms(7) k(1) have okw: "json_ok (JObj kvs)" by simp
  from assms(5) b have okb: "json_ok (JObj bs)" by simp
  from signing_input_commits [OF okw okb, of "''call''" m "''call''"] m \<open>m = m'\<close>
  have e: "jnorm (JObj (signed_part (JObj bs))) = jnorm (JObj (signed_part (JObj kvs)))" unfolding k(1) b by simp
  have sp: "map_of (signed_part (JObj xs)) HUBRPC_META_KEY = map_of xs HUBRPC_META_KEY" for xs
    by simp
  have "map_option jnorm (map_of bs HUBRPC_META_KEY) = map_option jnorm (map_of kvs HUBRPC_META_KEY)"
    using jnorm_map_of [OF _ _ e, of HUBRPC_META_KEY] json_ok_signed_part [OF okw] json_ok_signed_part [OF okb] by simp
  with k(2) have me: "jnorm metaObj = jnorm (call_meta_json (intent_meta i consumer))" by (simp add: bs_def)
  then obtain mk where mk: "metaObj = JObj mk" by (cases metaObj) (auto simp: call_meta_json_def)
  from okw k(2) have "json_ok metaObj" by (auto dest!: map_of_SomeD simp: list_all_iff)
  with call_meta_of_jnorm me k(3) have cm: "ci_callMeta idn = intent_meta i consumer" unfolding mk by fastforce
  have "strip_wire_meta (Some (JObj bs)) = strip_wire_meta (Some (JObj u))"
    unfolding strip_wire_meta_filter bs_def
    using filter_jm_set [of "\<lambda>key. key \<notin> set reserved_keys" HUBRPC_META_KEY] by (simp add: reserved_keys_def)
  with strip_jnorm_cong [OF e] cm k vc vm show ?thesis by (auto simp: intent_meta_def)
qed
text \<open>The setting of both witnesses: the consumer of the earlier demonstrations and a signer of its own.\<close>

definition demo_signer :: proposal_issuer where
  "demo_signer = new_proposal_issuer (demo_identity 9)"

lemma demo_once_nonce: "bytes_to_base64url (so_nonce demo_opts) \<noteq> []"
  by code_simp

definition demo_request :: json where
  "demo_request = requested_permission \<lparr>ct_serviceId = ''s'', ct_interfaceId = ''i'', ct_member = ''m'', ct_interfaceHash = None\<rparr>
     (so_params demo_opts)"

lemma demo_bound_ok: "permissions_ok [bound_permission demo_request h]"
  by (rule bound_permission_ok) (code_simp+)

lemma demo_grant: "\<exists>st' cap. grant_signer_decide (\<lambda>_. VerdictPermitted) [1] (Dec 6 0) (once_context demo_opts demo_request) demo_signer =
  (st', Inr (ConsentGrant (Some [cap])))"
proof -
  obtain c where c: "sign_rpc_call demo_opts = Inr c" using demo_sign by blast
  have "pins_call (Some ''once'') (Some (intent_of demo_opts))"
    using demo_once_nonce by (simp add: pins_call_def intent_of_def demo_opts_def)
  then have perms: "to_signed_permissions (ac_permissions (once_context demo_opts demo_request))
      (si_principal (so_identity demo_opts)) (Some ''once'') = Inr [bound_permission demo_request (sr_callHash c)]"
    using intent_hash [OF c]
    by (simp add: to_signed_permissions_def once_context_def to_signed_permission_def bound_permission_def)
  have "num_finite (num_add (Dec 6 0) (duration_ms ''once''))" by code_simp
  then have "\<forall>e. duration_to_exp (Dec 6 0) (Some ''once'') = Some e \<longrightarrow> num_finite e"
    by (simp add: duration_to_exp_def)
  from sign_capability_total [OF demo_holds_key [of 9] demo_bound_ok this]
  have "\<exists>cap. sign_capability (capability_object i a [bound_permission demo_request (sr_callHash c)] n
      (duration_to_exp (Dec 6 0) (Some ''once'')) ph) (demo_identity 9) = Inr cap" for i a n ph .
  then obtain cap where cap: "sign_capability (capability_object (si_principal (demo_identity 9)) (si_principal (so_identity demo_opts))
      [bound_permission demo_request (sr_callHash c)] (bytes_to_base64url [1] @ ''-'' @ show_nat (Suc 0))
      (duration_to_exp (Dec 6 0) (Some ''once'')) None) (demo_identity 9) = Inr cap" by blast
  let ?args = "\<lparr>pa_audience = si_principal (so_identity demo_opts), pa_permissions = [bound_permission demo_request (sr_callHash c)],
      pa_expiresAtMs = duration_to_exp (Dec 6 0) (Some ''once'')\<rparr>"
  have m: "mint_proposed [1] ?args demo_signer = (demo_signer\<lparr>pi_counter := Suc 0\<rparr>, Inr cap)"
    using cap by (simp add: mint_proposed_def propose_def next_nonce_def sign_proposed_def issuer_principal_id_def demo_signer_def
        new_proposal_issuer_def Let_def)
  have "grant_signer_mint [1] (Dec 6 0) (once_context demo_opts demo_request) demo_signer = (demo_signer\<lparr>pi_counter := Suc 0\<rparr>, Inr cap)"
    using perms m by (simp add: grant_signer_mint_def once_context_def)
  then show ?thesis by (simp add: grant_signer_decide_def)
qed

lemma once_grant_honoured_witness:
  "\<exists>st' cap c vc nonce. grant_signer_decide (\<lambda>_. VerdictPermitted) [1] (Dec 6 0) (once_context demo_opts demo_request) demo_signer =
      (st', Inr (ConsentGrant (Some [cap]))) \<and>
    sign_rpc_call demo_opts = Inr c \<and>
    verify_call demo_verify method_name_to_target ''s::i::m'' (Some (attach_capabilities (sr_wireParams c) [cap])) (Dec 6 0) None True =
      Inr (VerifyOk vc) \<and>
    permits demo_verify (vc_call vc) (vc_capabilities vc) (\<lambda>_. [\<lparr>ar_principal = si_principal (demo_identity 9), ar_isPublic = True\<rparr>])
      (Dec 6 0) None = Inr (Permitted nonce (si_principal (demo_identity 9)))"
proof -
  obtain st' cap where g: "grant_signer_decide (\<lambda>_. VerdictPermitted) [1] (Dec 6 0) (once_context demo_opts demo_request) demo_signer =
      (st', Inr (ConsentGrant (Some [cap])))" using demo_grant by blast
  have hk: "holds_key demo_verify (pi_identity demo_signer) [9]" by (simp add: demo_signer_def new_proposal_issuer_def demo_holds_key)
  have fin: "num_finite (num_add (Dec 6 0) (num_of_int 300000))" "\<not> num_add (Dec 6 0) (num_of_int 300000) < Dec 6 0"
    by code_simp+
  have demo_target: "\<lparr>ct_serviceId = ''s'', ct_interfaceId = ''i'', ct_member = ''m'', ct_interfaceHash = None\<rparr> =
      \<lparr>ct_serviceId = ''s'', ct_interfaceId = ''i'', ct_member = ''m'', ct_interfaceHash = so_interfaceHash demo_opts\<rparr>"
    by (simp add: demo_opts_def)
  have acc: "si_principal (pi_identity demo_signer) \<in> ar_principal ` set ((\<lambda>_. [\<lparr>ar_principal = si_principal (demo_identity 9),
      ar_isPublic = True\<rparr>]) ''s'')" by (simp add: demo_signer_def new_proposal_issuer_def)
  from once_grant_honoured [OF demo_premises(1,2) demo_user_ok demo_premises(3-5) demo_once_nonce hk demo_target g [unfolded demo_request_def] fin acc]
  obtain c vc nonce where r: "sign_rpc_call demo_opts = Inr c"
    "verify_call demo_verify method_name_to_target (so_method demo_opts) (Some (attach_capabilities (sr_wireParams c) [cap]))
       (Dec 6 0) None True = Inr (VerifyOk vc)"
    "permits demo_verify (vc_call vc) (vc_capabilities vc) (\<lambda>_. [\<lparr>ar_principal = si_principal (demo_identity 9), ar_isPublic = True\<rparr>])
       (Dec 6 0) None = Inr (Permitted nonce (si_principal (pi_identity demo_signer)))" by blast
  have m: "so_method demo_opts = ''s::i::m''" "pi_identity demo_signer = demo_identity 9"
    by (simp_all add: demo_opts_def demo_signer_def new_proposal_issuer_def)
  from g r show ?thesis unfolding m by blast
qed

lemma signed_wire:
  assumes "sign_rpc_call so = Inr c" "so_params so = Some (JObj user)"
  shows "\<exists>e. sr_wireParams c = with_signature (bound_params (intent_of so) (si_principal (so_identity so)) user) ''call'' e"
  using assms by (auto simp: sign_rpc_call_def require_object_params_def Let_def res_bind_Inr_iff sign_object_def
      bound_params_def intent_meta_def intent_of_def call_meta_for_def)

lemma once_admits_one_call_witness:
  "\<exists>q c vc. to_signed_permission (si_principal (so_identity demo_opts)) (Some ''once'')
      \<lparr>dp_permission = demo_permission, dp_callIntent = Some (intent_of demo_opts)\<rparr> = Inr q \<and>
    sign_rpc_call demo_opts = Inr c \<and>
    verify_call demo_verify method_name_to_target ''s::i::m'' (Some (sr_wireParams c)) (Dec 6 0) None False = Inr (VerifyOk vc) \<and>
    permission_permits (vc_call vc) (permission_of q) Invoke = Inr Ok \<and>
    vc_callMeta vc = intent_meta (intent_of demo_opts) (si_principal (so_identity demo_opts))"
proof -
  let ?prin = "si_principal (so_identity demo_opts)"
  let ?b = "bound_params (intent_of demo_opts) ?prin [(''x'', JNull)]"
  let ?p = "\<lparr>dp_permission = demo_permission, dp_callIntent = Some (intent_of demo_opts)\<rparr>"
  have "False \<longrightarrow> [] \<noteq> ([] :: json list)" by simp
  from verify_call_signed [OF demo_premises(1,2) demo_user_ok demo_premises(3-5) this] obtain c vc where
    c: "sign_rpc_call demo_opts = Inr c" and vc: "verify_call demo_verify method_name_to_target (so_method demo_opts)
       (Some (attach_capabilities (sr_wireParams c) [])) (Dec 6 0) None False = Inr (VerifyOk vc)"
      "vc_call vc = \<lparr>call_target = \<lparr>ct_serviceId = ''s'', ct_interfaceId = ''i'', ct_member = ''m'',
          ct_interfaceHash = so_interfaceHash demo_opts\<rparr>,
          call_params = Some (JObj [(''x'', JNull)]), call_nonce = bytes_to_base64url (so_nonce demo_opts),
          call_signedAtMs = so_nowMs demo_opts, call_signer = ?prin, call_callHash = sr_callHash c\<rparr>" by blast
  have v: "verify_call demo_verify method_name_to_target (so_method demo_opts) (Some (sr_wireParams c)) (Dec 6 0) None False
      = Inr (VerifyOk vc)" using vc(1) by (simp add: attach_capabilities_def)
  have pins: "pins_call (Some ''once'') (Some (intent_of demo_opts))"
    using demo_once_nonce by (simp add: pins_call_def intent_of_def demo_opts_def)
  then have q: "to_signed_permission ?prin (Some ''once'') ?p = Inr (bound_permission demo_permission (sr_callHash c))"
    using intent_hash [OF c] by (simp add: to_signed_permission_def bound_permission_def)
  have k: "demo_permission = JObj (spread (Some demo_permission))" by (simp add: demo_permission_def)
  have gr: "grants (permission_of demo_permission) Invoke" "perm_params (permission_of demo_permission) = None"
    "permission_matches_target \<lparr>ct_serviceId = ''s'', ct_interfaceId = ''i'', ct_member = ''m'',
      ct_interfaceHash = so_interfaceHash demo_opts\<rparr> (permission_of demo_permission)" by code_simp+
  have pp: "permission_permits (vc_call vc) (permission_of (bound_permission demo_permission (sr_callHash c))) Invoke = Inr Ok"
    using gr unfolding bound_permission_of [OF k]
    by (simp add: permission_permits_Ok_iff grants_def vc(2) permission_matches_target_def target_mismatch_reason_def)
  from signed_wire [OF c demo_premises(2)] obtain e where w: "sr_wireParams c = with_signature ?b ''call'' e" by blast
  have okb: "json_ok ?b" by code_simp
  obtain bs where bs: "?b = JObj bs" "map_of bs HUBRPC_SIGNATURE_KEY = None"
    by (simp add: bound_params_def hubrpc_keys)
  from json_ok_with_signature [of bs "''call''" e] okb bs have okw: "json_ok (sr_wireParams c)" unfolding w by simp
  have cf: "\<forall>m m'. signing_input ''call'' (sr_wireParams c) = Inr m \<and> signing_input ''call'' ?b = Inr m' \<and>
        bytes_to_base64url (sha256 m) = bytes_to_base64url (sha256 m') \<longrightarrow> m = m'"
    unfolding w bs(1) signing_input_with_signature by auto
  have d: "dp_callIntent ?p = Some (intent_of demo_opts)" "ai_params (intent_of demo_opts) = Some (JObj [(''x'', JNull)])"
    using demo_premises(2) by (simp_all add: intent_of_def)
  from once_admits_one_call [OF q d(1) pins d(2) okb v okw pp cf] q c v pp show ?thesis by (auto simp: demo_opts_def)
qed
end
