(* ===== verification/Scopes.thy ===== *)
theory Scopes
  imports Prelude
begin

text \<open>
  Scopes of service ids, the first part of \<^verbatim>\<open>hub/common/directoryWalk.ts\<close>: a pattern is one id or the
  subtree below one, a scope is a union of patterns.  The lemmas show that normalizing and intersecting
  scopes keep exactly the ids they should, that a normalized scope has no redundant pattern, and that it
  is a canonical form: scopes with the same ids have the same normalized patterns, and the same key.
\<close>

section \<open>Patterns and scopes\<close>

datatype service_id_pattern = ExactId string | PrefixId string

text \<open>\<^verbatim>\<open>localeCompare\<close> is an argument, \<open>lc\<close>; \<^verbatim>\<open>Array.sort\<close> is stable.\<close>

fun insert_by :: "('a \<Rightarrow> 'a \<Rightarrow> int) \<Rightarrow> 'a \<Rightarrow> 'a list \<Rightarrow> 'a list" where
  "insert_by cmp x [] = [x]"
| "insert_by cmp x (y # ys) = (if cmp x y \<le> 0 then x # y # ys else y # insert_by cmp x ys)"

definition sort_by :: "('a \<Rightarrow> 'a \<Rightarrow> int) \<Rightarrow> 'a list \<Rightarrow> 'a list" where
  "sort_by cmp xs = foldr (insert_by cmp) xs []"

definition id_matches_pattern :: "string \<Rightarrow> service_id_pattern \<Rightarrow> bool" where
  "id_matches_pattern serviceId pattern = (case pattern of
     ExactId e \<Rightarrow> serviceId = e
   | PrefixId p \<Rightarrow> p = [] \<or> serviceId = p \<or> starts_with serviceId (p @ ''/''))"

definition id_matches_scopes :: "string \<Rightarrow> service_id_pattern list option \<Rightarrow> bool" where
  "id_matches_scopes serviceId scopes = (case scopes of
     None \<Rightarrow> True | Some ps \<Rightarrow> list_ex (id_matches_pattern serviceId) ps)"

definition pattern_key :: "service_id_pattern \<Rightarrow> string" where
  "pattern_key pattern = (case pattern of ExactId e \<Rightarrow> ''e:'' @ e | PrefixId p \<Rightarrow> ''p:'' @ p)"

definition pattern_contains :: "service_id_pattern \<Rightarrow> service_id_pattern \<Rightarrow> bool" where
  "pattern_contains container candidate = (case container of
     ExactId e \<Rightarrow> candidate = ExactId e
   | PrefixId _ \<Rightarrow> (case candidate of
       ExactId e \<Rightarrow> id_matches_pattern e container
     | PrefixId p \<Rightarrow> id_matches_pattern p container))"

definition normalize_scopes :: "(string \<Rightarrow> string \<Rightarrow> int) \<Rightarrow> service_id_pattern list \<Rightarrow> service_id_pattern list" where
  "normalize_scopes lc scopes =
     (let unique = fold (\<lambda>pattern m. jm_set m (pattern_key pattern) pattern) scopes [];
          patterns = map snd unique;
          kept = filter (\<lambda>(index, candidate). \<not> list_ex (\<lambda>(otherIndex, other).
            index \<noteq> otherIndex \<and> pattern_contains other candidate) (enumerate 0 patterns)) (enumerate 0 patterns) in
      sort_by (\<lambda>a b. lc (pattern_key a) (pattern_key b)) (map snd kept))"

definition intersect_pattern :: "service_id_pattern \<Rightarrow> service_id_pattern \<Rightarrow> service_id_pattern option" where
  "intersect_pattern left right = (case left of
     ExactId e \<Rightarrow> (case right of
       ExactId e' \<Rightarrow> if e = e' then Some left else None
     | PrefixId _ \<Rightarrow> if id_matches_pattern e right then Some left else None)
   | PrefixId p \<Rightarrow> (case right of
       ExactId e' \<Rightarrow> if id_matches_pattern e' left then Some right else None
     | PrefixId q \<Rightarrow>
         if id_matches_pattern p right then Some left
         else if id_matches_pattern q left then Some right
         else None))"

definition intersect_scopes ::
    "(string \<Rightarrow> string \<Rightarrow> int) \<Rightarrow> service_id_pattern list \<Rightarrow> service_id_pattern list \<Rightarrow> service_id_pattern list" where
  "intersect_scopes lc left right =
     normalize_scopes lc (concat (map (\<lambda>a. List.map_filter (intersect_pattern a) right) left))"

definition scopes_key :: "(string \<Rightarrow> string \<Rightarrow> int) \<Rightarrow> service_id_pattern list \<Rightarrow> string" where
  "scopes_key lc scopes = js_join [CHR 0x00] (map pattern_key (normalize_scopes lc scopes))"

section \<open>What a pattern matches\<close>

definition scope_ids :: "service_id_pattern list \<Rightarrow> string set" where
  "scope_ids ps = {i. id_matches_scopes i (Some ps)}"

lemma mem_scope_ids: "i \<in> scope_ids ps \<longleftrightarrow> (\<exists>p \<in> set ps. id_matches_pattern i p)"
  by (simp add: scope_ids_def id_matches_scopes_def list_ex_iff)

lemma set_insert_by [simp]: "set (insert_by cmp x ys) = insert x (set ys)"
  by (induction ys) auto

lemma set_sort_by [simp]: "set (sort_by cmp xs) = set xs"
  by (induction xs) (auto simp: sort_by_def)

lemma distinct_insert_by: "x \<notin> set ys \<Longrightarrow> distinct ys \<Longrightarrow> distinct (insert_by cmp x ys)"
  by (induction ys) auto

lemma distinct_sort_by: "distinct xs \<Longrightarrow> distinct (sort_by cmp xs)"
proof (induction xs)
  case (Cons x xs)
  then have "distinct (insert_by cmp x (sort_by cmp xs))" by (intro distinct_insert_by) auto
  then show ?case by (simp add: sort_by_def)
qed (simp add: sort_by_def)

text \<open>A prefix followed by a slash, as a relation on ids.\<close>

lemma matches_prefix_cases:
  "id_matches_pattern i (PrefixId p) \<longleftrightarrow> p = [] \<or> i = p \<or> (\<exists>r. i = p @ ''/'' @ r)"
  by (auto simp: id_matches_pattern_def starts_with_def prefix_def)

lemma matches_prefix_trans:
  "id_matches_pattern i (PrefixId p) \<Longrightarrow> id_matches_pattern p (PrefixId q) \<Longrightarrow> id_matches_pattern i (PrefixId q)"
  unfolding matches_prefix_cases by (elim disjE exE) auto

lemma matches_prefix_refl [simp]: "id_matches_pattern p (PrefixId p)"
  by (simp add: id_matches_pattern_def)

lemma matches_exact [simp]: "id_matches_pattern i (ExactId e) \<longleftrightarrow> i = e"
  by (simp add: id_matches_pattern_def)

lemma matches_prefix_linear:
  assumes "id_matches_pattern i (PrefixId p)" "id_matches_pattern i (PrefixId q)"
  shows "id_matches_pattern p (PrefixId q) \<or> id_matches_pattern q (PrefixId p)"
proof -
  have two: "id_matches_pattern p (PrefixId q) \<or> id_matches_pattern q (PrefixId p)"
    if "p @ ''/'' @ r = q @ ''/'' @ s" for r s
  proof -
    from that obtain us where "(p = q @ us \<and> us @ ''/'' @ r = ''/'' @ s) \<or> (p @ us = q \<and> ''/'' @ r = us @ ''/'' @ s)"
      by (auto simp: append_eq_append_conv2)
    then show ?thesis
      unfolding matches_prefix_cases by (cases us) auto
  qed
  show ?thesis
  proof (cases "p = [] \<or> q = [] \<or> i = p \<or> i = q")
    case True
    with assms show ?thesis by (auto simp: matches_prefix_cases [of _ "[]"])
  next
    case False
    with assms obtain r s where "i = p @ ''/'' @ r" "i = q @ ''/'' @ s"
      unfolding matches_prefix_cases by blast
    then show ?thesis using two [of r s] by simp
  qed
qed

lemma matches_prefix_antisym:
  assumes "id_matches_pattern p (PrefixId q)" "id_matches_pattern q (PrefixId p)"
  shows "p = q"
proof -
  have "length a \<ge> length b" if "id_matches_pattern a (PrefixId b)" for a b
    using that by (auto simp: matches_prefix_cases)
  with assms have "length p = length q" by (meson le_antisym)
  with assms show ?thesis by (auto simp: matches_prefix_cases)
qed

text \<open>Containment of patterns is inclusion of the ids they match.\<close>

lemma prefix_not_below_exact: "\<exists>i. id_matches_pattern i (PrefixId p) \<and> i \<noteq> e"
proof -
  have "p @ ''/'' @ ''a'' \<noteq> p" by simp
  then show ?thesis by (cases "e = p") (auto simp: matches_prefix_cases intro: exI [of _ "p @ ''/'' @ ''a''"] exI [of _ p])
qed

lemma pattern_contains_iff:
  "pattern_contains a b \<longleftrightarrow> (\<forall>i. id_matches_pattern i b \<longrightarrow> id_matches_pattern i a)"
proof (cases a)
  case (ExactId e)
  show ?thesis
  proof (cases b)
    case (ExactId e')
    with \<open>a = ExactId e\<close> show ?thesis by (auto simp: pattern_contains_def)
  next
    case (PrefixId p)
    with ExactId prefix_not_below_exact [of p e] show ?thesis by (auto simp: pattern_contains_def)
  qed
next
  case (PrefixId p)
  then show ?thesis
    by (cases b) (auto simp: pattern_contains_def intro: matches_prefix_trans)
qed

lemma pattern_contains_refl [simp]: "pattern_contains p p"
  by (simp add: pattern_contains_iff)

lemma pattern_contains_trans: "pattern_contains a b \<Longrightarrow> pattern_contains b c \<Longrightarrow> pattern_contains a c"
  by (simp add: pattern_contains_iff)

lemma pattern_contains_antisym:
  assumes "pattern_contains a b" "pattern_contains b a"
  shows "a = b"
proof (cases a)
  case (ExactId e)
  with assms(1) show ?thesis by (simp add: pattern_contains_def)
next
  case (PrefixId p)
  show ?thesis
  proof (cases b)
    case (ExactId e)
    with assms(2) show ?thesis by (simp add: pattern_contains_def)
  next
    case q: (PrefixId q)
    with assms \<open>a = PrefixId p\<close> have "p = q"
      by (intro matches_prefix_antisym) (simp_all add: pattern_contains_def)
    with q PrefixId show ?thesis by simp
  qed
qed

lemma inj_pattern_key: "inj pattern_key"
  by (auto simp: inj_def pattern_key_def split: service_id_pattern.splits)

section \<open>Normalizing\<close>

lemma jm_set_graph:
  assumes "inj f"
  shows "jm_set (map (\<lambda>x. (f x, x)) ys) (f x) x = map (\<lambda>x. (f x, x)) (js_add ys x)"
proof (induction ys)
  case (Cons y ys)
  then show ?case using assms by (cases "x = y") (auto simp: js_add_def inj_eq)
qed (simp add: js_add_def)

lemma fold_jm_set_graph:
  assumes "inj f"
  shows "fold (\<lambda>x m. jm_set m (f x) x) xs (map (\<lambda>x. (f x, x)) ys) =
    map (\<lambda>x. (f x, x)) (fold (\<lambda>x ys. js_add ys x) xs ys)"
  by (induction xs arbitrary: ys) (simp_all add: jm_set_graph [OF assms])

lemma fold_js_add:
  "set (fold (\<lambda>x ys. js_add ys x) xs ys) = set ys \<union> set xs"
  "distinct ys \<Longrightarrow> distinct (fold (\<lambda>x ys. js_add ys x) xs ys)"
  by (induction xs arbitrary: ys) (auto simp: js_add_def)

text \<open>The patterns that are not contained in another.\<close>

lemma map_snd_filter_enumerate: "map snd (filter (\<lambda>(i, x). P x) (enumerate n xs)) = filter P xs"
  by (induction xs arbitrary: n) simp_all

lemma distinct_other_index:
  assumes "distinct xs"
  shows "map snd (filter (\<lambda>(i, x). \<not> list_ex (\<lambda>(j, y). i \<noteq> j \<and> Q y x) (enumerate 0 xs)) (enumerate 0 xs)) =
    filter (\<lambda>x. \<not> (\<exists>y \<in> set xs. y \<noteq> x \<and> Q y x)) xs"
proof -
  have e: "list_ex (\<lambda>(j, y). i \<noteq> j \<and> Q y x) (enumerate 0 xs) \<longleftrightarrow> (\<exists>y \<in> set xs. y \<noteq> x \<and> Q y x)"
    if "(i, x) \<in> set (enumerate 0 xs)" for i x
  proof -
    from that have x: "i < length xs" "x = xs ! i" by (auto simp: in_set_enumerate_eq)
    have "(\<exists>j < length xs. i \<noteq> j \<and> Q (xs ! j) x) \<longleftrightarrow> (\<exists>j < length xs. xs ! j \<noteq> x \<and> Q (xs ! j) x)"
      using x assms by (metis nth_eq_iff_index_eq)
    moreover have "list_ex (\<lambda>(j, y). i \<noteq> j \<and> Q y x) (enumerate 0 xs) \<longleftrightarrow> (\<exists>j < length xs. i \<noteq> j \<and> Q (xs ! j) x)"
    proof
      assume "list_ex (\<lambda>(j, y). i \<noteq> j \<and> Q y x) (enumerate 0 xs)"
      then obtain p where "p \<in> set (enumerate 0 xs)" "i \<noteq> fst p" "Q (snd p) x" by (auto simp: list_ex_iff)
      then show "\<exists>j < length xs. i \<noteq> j \<and> Q (xs ! j) x" by (auto simp: in_set_enumerate_eq)
    next
      assume "\<exists>j < length xs. i \<noteq> j \<and> Q (xs ! j) x"
      then obtain j where j: "j < length xs" "i \<noteq> j" "Q (xs ! j) x" by blast
      then have "(j, xs ! j) \<in> set (enumerate 0 xs)" by (simp add: in_set_enumerate_eq)
      with j show "list_ex (\<lambda>(j, y). i \<noteq> j \<and> Q y x) (enumerate 0 xs)"
        unfolding list_ex_iff by (intro bexI [of _ "(j, xs ! j)"]) auto
    qed
    moreover have "(\<exists>j < length xs. xs ! j \<noteq> x \<and> Q (xs ! j) x) \<longleftrightarrow> (\<exists>y \<in> set xs. y \<noteq> x \<and> Q y x)"
      unfolding in_set_conv_nth Bex_def by blast
    ultimately show ?thesis by simp
  qed
  have "filter (\<lambda>(i, x). \<not> list_ex (\<lambda>(j, y). i \<noteq> j \<and> Q y x) (enumerate 0 xs)) (enumerate 0 xs) =
      filter (\<lambda>(i, x). \<not> (\<exists>y \<in> set xs. y \<noteq> x \<and> Q y x)) (enumerate 0 xs)"
    by (rule filter_cong [OF refl]) (auto simp: e)
  then show ?thesis by (simp only: map_snd_filter_enumerate)
qed

lemma normalize_scopes_eq:
  obtains ys where "distinct ys" "set ys = set ps"
    "normalize_scopes lc ps = sort_by (\<lambda>a b. lc (pattern_key a) (pattern_key b))
      (filter (\<lambda>x. \<not> (\<exists>y \<in> set ys. y \<noteq> x \<and> pattern_contains y x)) ys)"
proof -
  let ?ys = "fold (\<lambda>x ys. js_add ys x) ps []"
  have "map snd (fold (\<lambda>x m. jm_set m (pattern_key x) x) ps []) = ?ys"
    using fold_jm_set_graph [OF inj_pattern_key, of ps "[]"] by (simp add: comp_def)
  moreover have "distinct ?ys" "set ?ys = set ps" using fold_js_add [of ps "[]"] fold_js_add(2) [of "[]" ps] by auto
  ultimately show ?thesis
    using that [of ?ys] by (simp add: normalize_scopes_def Let_def distinct_other_index)
qed

lemma set_normalize_scopes:
  "set (normalize_scopes lc ps) = {x \<in> set ps. \<not> (\<exists>y \<in> set ps. y \<noteq> x \<and> pattern_contains y x)}"
  by (rule normalize_scopes_eq [of ps lc]) auto

lemma distinct_normalize_scopes [simp]: "distinct (normalize_scopes lc ps)"
  by (rule normalize_scopes_eq [of ps lc]) (simp add: distinct_sort_by)

text \<open>Every pattern is below a maximal one.\<close>

lemma below_maximal:
  assumes "x \<in> set ps"
  shows "\<exists>y \<in> set (normalize_scopes lc ps). pattern_contains y x"
  using assms
proof (induction "card {y \<in> set ps. pattern_contains y x \<and> y \<noteq> x}" arbitrary: x rule: less_induct)
  case less
  show ?case
  proof (cases "x \<in> set (normalize_scopes lc ps)")
    case True
    then show ?thesis using pattern_contains_refl by blast
  next
    case False
    with less.prems obtain y where y: "y \<in> set ps" "y \<noteq> x" "pattern_contains y x"
      by (auto simp: set_normalize_scopes)
    have "{z \<in> set ps. pattern_contains z y \<and> z \<noteq> y} \<subseteq> {z \<in> set ps. pattern_contains z x \<and> z \<noteq> x}"
      using y pattern_contains_trans pattern_contains_antisym by blast
    moreover have "y \<in> {z \<in> set ps. pattern_contains z x \<and> z \<noteq> x}" using y by simp
    ultimately have "card {z \<in> set ps. pattern_contains z y \<and> z \<noteq> y} < card {z \<in> set ps. pattern_contains z x \<and> z \<noteq> x}"
      by (intro psubset_card_mono) auto
    from less.hyps [OF this y(1)] y(3) show ?thesis using pattern_contains_trans by blast
  qed
qed

lemma normalize_scope_ids [simp]: "scope_ids (normalize_scopes lc ps) = scope_ids ps"
proof (rule set_eqI)
  fix i
  show "i \<in> scope_ids (normalize_scopes lc ps) \<longleftrightarrow> i \<in> scope_ids ps"
    using below_maximal [of _ ps lc] by (force simp: mem_scope_ids set_normalize_scopes pattern_contains_iff)
qed

section \<open>Intersecting\<close>

lemma intersect_pattern_iff:
  "id_matches_pattern i a \<and> id_matches_pattern i b \<longleftrightarrow>
   (case intersect_pattern a b of None \<Rightarrow> False | Some c \<Rightarrow> id_matches_pattern i c)"
proof (cases a)
  case (ExactId e)
  then show ?thesis by (cases b) (auto simp: intersect_pattern_def)
next
  case p: (PrefixId p)
  show ?thesis
  proof (cases b)
    case (ExactId e)
    with p show ?thesis by (auto simp: intersect_pattern_def)
  next
    case (PrefixId q)
    with p matches_prefix_linear [of i p q] show ?thesis
      by (auto simp: intersect_pattern_def intro: matches_prefix_trans)
  qed
qed

lemma intersect_scope_ids: "scope_ids (intersect_scopes lc left right) = scope_ids left \<inter> scope_ids right"
proof (rule set_eqI)
  fix i
  have ex: "(\<exists>c. intersect_pattern a b = Some c \<and> id_matches_pattern i c) \<longleftrightarrow>
      id_matches_pattern i a \<and> id_matches_pattern i b" for a b
    by (simp add: intersect_pattern_iff split: option.split)
  have "i \<in> scope_ids (intersect_scopes lc left right) \<longleftrightarrow>
      (\<exists>a \<in> set left. \<exists>b \<in> set right. \<exists>c. intersect_pattern a b = Some c \<and> id_matches_pattern i c)"
    by (auto simp: intersect_scopes_def mem_scope_ids List.map_filter_def)
      (metis option.sel option.distinct(1))+
  also have "\<dots> \<longleftrightarrow> (\<exists>a \<in> set left. \<exists>b \<in> set right. id_matches_pattern i a \<and> id_matches_pattern i b)"
    by (simp add: ex)
  also have "\<dots> \<longleftrightarrow> i \<in> scope_ids left \<inter> scope_ids right" by (auto simp: mem_scope_ids)
  finally show "i \<in> scope_ids (intersect_scopes lc left right) \<longleftrightarrow> i \<in> scope_ids left \<inter> scope_ids right" .
qed

section \<open>The normalized scope is canonical\<close>

text \<open>An id below a prefix that no other of finitely many patterns matches, unless it contains the prefix.\<close>

lemma fresh_below:
  assumes "\<And>q. q \<in> set ps \<Longrightarrow> \<not> pattern_contains q (PrefixId p)"
  shows "\<exists>i. id_matches_pattern i (PrefixId p) \<and> i \<notin> scope_ids ps"
proof -
  define n where "n = Suc (Max (insert 0 ((\<lambda>q. length (pattern_key q)) ` set ps)))"
  have n: "length (pattern_key q) < n" if "q \<in> set ps" for q
    using that by (simp add: n_def less_Suc_eq_le)
  let ?tail = "replicate n CHR ''a''"
  let ?i = "p @ ''/'' @ ?tail"
  have "\<not> id_matches_pattern ?i q" if q: "q \<in> set ps" for q
  proof (cases q)
    case (ExactId e)
    with n [OF q] show ?thesis by (auto simp: pattern_key_def)
  next
    case (PrefixId r)
    have "id_matches_pattern p (PrefixId r)" if "id_matches_pattern ?i (PrefixId r)"
    proof -
      have "length r < n" using n [OF q] PrefixId by (simp add: pattern_key_def)
      with that consider "r = []" | s where "p @ ''/'' @ ?tail = r @ ''/'' @ s"
        unfolding matches_prefix_cases by fastforce
      then show ?thesis
      proof cases
        case 2
        then obtain us where "(p = r @ us \<and> us @ ''/'' @ ?tail = ''/'' @ s) \<or> (p @ us = r \<and> ''/'' @ ?tail = us @ ''/'' @ s)"
          by (auto simp: append_eq_append_conv2)
        moreover have False if "us = CHR ''/'' # vs" "''/'' @ ?tail = us @ ''/'' @ s" for vs
        proof -
          from that have "CHR ''/'' \<in> set ?tail" by (metis append_Cons append_Nil in_set_conv_decomp list.inject)
          then show False by simp
        qed
        ultimately show ?thesis unfolding matches_prefix_cases by (cases us) auto
      qed (simp add: matches_prefix_cases)
    qed
    with assms [OF q] PrefixId show ?thesis by (auto simp: pattern_contains_def)
  qed
  then show ?thesis
    by (intro exI [of _ ?i]) (auto simp: mem_scope_ids matches_prefix_cases)
qed

lemma contained_in_scope:
  assumes "\<And>i. id_matches_pattern i x \<Longrightarrow> i \<in> scope_ids ps"
  shows "\<exists>y \<in> set ps. pattern_contains y x"
proof (cases x)
  case (ExactId e)
  with assms [of e] show ?thesis by (auto simp: mem_scope_ids pattern_contains_iff)
next
  case (PrefixId p)
  with assms fresh_below [of ps p] show ?thesis by blast
qed

lemma normalize_scopes_unique:
  assumes "scope_ids ps = scope_ids qs"
  shows "set (normalize_scopes lc ps) = set (normalize_scopes lc qs)"
proof -
  have sub: "set (normalize_scopes lc ps) \<subseteq> set (normalize_scopes lc qs)" if e: "scope_ids ps = scope_ids qs" for ps qs
  proof
    fix x assume x: "x \<in> set (normalize_scopes lc ps)"
    have up: "\<exists>y \<in> set (normalize_scopes lc bs). pattern_contains y x"
      if "x \<in> set (normalize_scopes lc as)" "scope_ids as = scope_ids bs" for x as bs
      using that contained_in_scope [of x "normalize_scopes lc bs"]
      by (metis mem_scope_ids normalize_scope_ids)
    from up [OF x e] obtain y where y: "y \<in> set (normalize_scopes lc qs)" "pattern_contains y x" by blast
    from up [OF y(1)] e obtain z where z: "z \<in> set (normalize_scopes lc ps)" "pattern_contains z y" by auto
    then have "pattern_contains z x" using y pattern_contains_trans by blast
    with x z have "z = x" by (auto simp: set_normalize_scopes)
    with y z have "y = x" using pattern_contains_antisym by blast
    with y show "x \<in> set (normalize_scopes lc qs)" by simp
  qed
  from sub [OF assms] sub [OF assms [symmetric]] show ?thesis by blast
qed

text \<open>Sorting by a comparison that orders the elements.\<close>

definition orders_on :: "('a \<Rightarrow> 'a \<Rightarrow> int) \<Rightarrow> 'a set \<Rightarrow> bool" where
  "orders_on cmp A \<longleftrightarrow>
     (\<forall>a \<in> A. \<forall>b \<in> A. cmp a b \<le> 0 \<or> cmp b a \<le> 0) \<and>
     (\<forall>a \<in> A. \<forall>b \<in> A. cmp a b \<le> 0 \<longrightarrow> cmp b a \<le> 0 \<longrightarrow> a = b) \<and>
     (\<forall>a \<in> A. \<forall>b \<in> A. \<forall>c \<in> A. cmp a b \<le> 0 \<longrightarrow> cmp b c \<le> 0 \<longrightarrow> cmp a c \<le> 0)"

lemma orders_on_subset: "orders_on cmp A \<Longrightarrow> B \<subseteq> A \<Longrightarrow> orders_on cmp B"
  unfolding orders_on_def by (meson subsetD)

lemma orders_on_total: "orders_on cmp A \<Longrightarrow> a \<in> A \<Longrightarrow> b \<in> A \<Longrightarrow> cmp a b \<le> 0 \<or> cmp b a \<le> 0"
  unfolding orders_on_def by blast

lemma orders_on_antisym: "orders_on cmp A \<Longrightarrow> a \<in> A \<Longrightarrow> b \<in> A \<Longrightarrow> cmp a b \<le> 0 \<Longrightarrow> cmp b a \<le> 0 \<Longrightarrow> a = b"
  unfolding orders_on_def by blast

lemma orders_on_trans:
  "orders_on cmp A \<Longrightarrow> a \<in> A \<Longrightarrow> b \<in> A \<Longrightarrow> c \<in> A \<Longrightarrow> cmp a b \<le> 0 \<Longrightarrow> cmp b c \<le> 0 \<Longrightarrow> cmp a c \<le> 0"
  unfolding orders_on_def by blast

lemma orders_on_image:
  assumes "inj f" "orders_on cmp A" "f ` B \<subseteq> A"
  shows "orders_on (\<lambda>a b. cmp (f a) (f b)) B"
proof -
  have A: "f b \<in> A" if "b \<in> B" for b using assms(3) that by blast
  show ?thesis
    unfolding orders_on_def
  proof (intro conjI ballI impI)
    fix a b assume "a \<in> B" "b \<in> B"
    then show "cmp (f a) (f b) \<le> 0 \<or> cmp (f b) (f a) \<le> 0" using orders_on_total [OF assms(2)] A by blast
  next
    fix a b assume "a \<in> B" "b \<in> B" "cmp (f a) (f b) \<le> 0" "cmp (f b) (f a) \<le> 0"
    then have "f a = f b" using orders_on_antisym [OF assms(2)] A by blast
    then show "a = b" using assms(1) by (simp add: inj_eq)
  next
    fix a b c assume "a \<in> B" "b \<in> B" "c \<in> B" "cmp (f a) (f b) \<le> 0" "cmp (f b) (f c) \<le> 0"
    then show "cmp (f a) (f c) \<le> 0" using orders_on_trans [OF assms(2)] A by blast
  qed
qed

lemma insert_by_sorted:
  assumes "orders_on cmp (insert x (set ys))" "sorted_wrt (\<lambda>a b. cmp a b \<le> 0) ys"
  shows "sorted_wrt (\<lambda>a b. cmp a b \<le> 0) (insert_by cmp x ys)"
  using assms
proof (induction ys)
  case (Cons y ys)
  note o = Cons.prems(1)
  have xy: "cmp x y \<le> 0 \<or> cmp y x \<le> 0" using orders_on_total [OF o] by simp
  have le: "cmp x z \<le> 0" if "cmp x y \<le> 0" "z \<in> set ys" for z
    using orders_on_trans [OF o, of x y z] that Cons.prems(2) by simp
  have "orders_on cmp (insert x (set ys))" using o by (rule orders_on_subset) auto
  with Cons show ?case using xy le by auto
qed simp

lemma sort_by_sorted: "orders_on cmp (set xs) \<Longrightarrow> sorted_wrt (\<lambda>a b. cmp a b \<le> 0) (sort_by cmp xs)"
proof (induction xs)
  case (Cons x xs)
  have "orders_on cmp (set xs)" using Cons.prems by (rule orders_on_subset) auto
  with Cons show ?case
    using insert_by_sorted [of cmp x "sort_by cmp xs"] by (simp add: sort_by_def [of cmp "x # xs"] sort_by_def [symmetric])
qed (simp add: sort_by_def)

lemma sorted_wrt_unique:
  assumes "orders_on cmp (set xs)" "sorted_wrt (\<lambda>a b. cmp a b \<le> 0) xs" "sorted_wrt (\<lambda>a b. cmp a b \<le> 0) ys"
    and "distinct xs" "distinct ys" "set xs = set ys"
  shows "xs = ys"
  using assms
proof (induction xs arbitrary: ys)
  case (Cons x xs)
  from Cons.prems(6) obtain y ys' where ys: "ys = y # ys'" by (cases ys) auto
  have "x = y"
  proof (rule ccontr)
    assume "x \<noteq> y"
    with Cons.prems(6) ys have "y \<in> set xs" "x \<in> set ys'" by auto
    with Cons.prems(2,3) ys have "cmp x y \<le> 0" "cmp y x \<le> 0" by auto
    with orders_on_antisym [OF Cons.prems(1), of x y] \<open>y \<in> set xs\<close> \<open>x \<noteq> y\<close> show False by simp
  qed
  moreover have "set xs = set ys'" using Cons.prems ys \<open>x = y\<close> by auto
  moreover have "orders_on cmp (set xs)" using Cons.prems(1) by (rule orders_on_subset) auto
  ultimately show ?case using Cons.IH [of ys'] Cons.prems ys by simp
qed simp

lemma js_join_inj:
  assumes "\<And>x. x \<in> set xs \<Longrightarrow> c \<notin> set x \<and> x \<noteq> []" "\<And>y. y \<in> set ys \<Longrightarrow> c \<notin> set y \<and> y \<noteq> []"
    and "js_join [c] xs = js_join [c] ys"
  shows "xs = ys"
  using assms
proof (induction xs arbitrary: ys)
  case Nil
  show ?case
  proof (cases ys)
    case (Cons y ys')
    with Nil show ?thesis by (cases ys') auto
  qed simp
next
  case (Cons x xs)
  have "js_join [c] (x # xs) \<noteq> []" using Cons.prems(1) [of x] by (cases xs) auto
  with Cons.prems(3) obtain y ys' where ys: "ys = y # ys'" by (cases ys) auto
  have tw: "takeWhile (\<lambda>d. d \<noteq> c) (js_join [c] (z # zs)) = z"
    and dw: "dropWhile (\<lambda>d. d \<noteq> c) (js_join [c] (z # zs)) = (if zs = [] then [] else c # js_join [c] zs)"
    if "c \<notin> set z" for z zs
    using that by (cases zs; force simp: takeWhile_append dropWhile_append takeWhile_eq_all_conv)+
  have "x = y" using tw [of x xs] tw [of y ys'] Cons.prems ys by simp
  moreover have "xs = ys'"
  proof (cases "xs = [] \<or> ys' = []")
    case True
    then show ?thesis using dw [of x xs] dw [of y ys'] Cons.prems ys by (auto split: if_splits)
  next
    case False
    then have "js_join [c] xs = js_join [c] ys'" using dw [of x xs] dw [of y ys'] Cons.prems ys by (auto split: if_splits)
    then show ?thesis using Cons.IH [of ys'] Cons.prems ys by simp
  qed
  ultimately show ?case by (simp add: ys)
qed

section \<open>Properties\<close>

definition printable :: "string \<Rightarrow> bool" where
  "printable s = list_all (\<lambda>c. 32 \<le> (of_char c :: nat) \<and> (of_char c :: nat) \<le> 126) s"

lemma printable_key:
  assumes "printable (pattern_key x)"
  shows "CHR 0x00 \<notin> set (pattern_key x) \<and> pattern_key x \<noteq> []"
  using assms by (auto simp: printable_def list_all_iff pattern_key_def split: service_id_pattern.splits)

text \<open>C35: Intersecting two scopes keeps exactly the service ids that both match, and what it returns has
  no pattern twice and none that another one covers, whatever the order \<^verbatim>\<open>localeCompare\<close> gives.\<close>

theorem scopes_intersect_exactly:
  "id_matches_scopes i (Some (intersect_scopes lc left right)) =
     (id_matches_scopes i (Some left) \<and> id_matches_scopes i (Some right)) \<and>
   distinct (intersect_scopes lc left right) \<and>
   \<not> (\<exists>p \<in> set (intersect_scopes lc left right). \<exists>q \<in> set (intersect_scopes lc left right).
        p \<noteq> q \<and> pattern_contains p q)"
proof (intro conjI)
  show "id_matches_scopes i (Some (intersect_scopes lc left right)) =
     (id_matches_scopes i (Some left) \<and> id_matches_scopes i (Some right))"
    using intersect_scope_ids [of lc left right] by (auto simp: scope_ids_def)
  show "distinct (intersect_scopes lc left right)" by (simp add: intersect_scopes_def)
  show "\<not> (\<exists>p \<in> set (intersect_scopes lc left right). \<exists>q \<in> set (intersect_scopes lc left right).
        p \<noteq> q \<and> pattern_contains p q)"
    by (auto simp: intersect_scopes_def set_normalize_scopes)
qed

text \<open>The key under which a walk compares scopes is equal exactly when the two scopes match the same
  service ids, for scopes of printable ids and an order that \<^verbatim>\<open>localeCompare\<close> makes total on them.\<close>

theorem scopes_key_decides:
  assumes "\<And>x. x \<in> set ps \<union> set qs \<Longrightarrow> printable (pattern_key x)"
    and "orders_on lc {s. printable s}"
  shows "scopes_key lc ps = scopes_key lc qs \<longleftrightarrow>
    (\<forall>i. id_matches_scopes i (Some ps) = id_matches_scopes i (Some qs))"
proof -
  let ?N = "normalize_scopes lc" and ?cmp = "\<lambda>a b. lc (pattern_key a) (pattern_key b)"
  have in_keys: "printable (pattern_key x)" if "x \<in> set (?N ps) \<union> set (?N qs)" for x
    using that assms(1) by (auto simp: set_normalize_scopes)
  have o: "orders_on ?cmp {x. printable (pattern_key x)}"
    by (rule orders_on_image [OF inj_pattern_key assms(2)]) auto
  have s: "sorted_wrt (\<lambda>a b. ?cmp a b \<le> 0) (?N rs)" if "\<forall>x \<in> set rs. printable (pattern_key x)" for rs
    by (rule normalize_scopes_eq [of rs lc])
      (use that in \<open>auto intro!: sort_by_sorted orders_on_subset [OF o]\<close>)
  have "scopes_key lc ps = scopes_key lc qs \<longleftrightarrow> map pattern_key (?N ps) = map pattern_key (?N qs)"
  proof
    assume "scopes_key lc ps = scopes_key lc qs"
    then show "map pattern_key (?N ps) = map pattern_key (?N qs)"
      unfolding scopes_key_def by (rule js_join_inj [rotated 2]) (use in_keys printable_key in auto)
  qed (simp add: scopes_key_def)
  also have "\<dots> \<longleftrightarrow> ?N ps = ?N qs" using inj_pattern_key by (simp add: inj_map_eq_map)
  also have "\<dots> \<longleftrightarrow> set (?N ps) = set (?N qs)"
  proof
    have "orders_on ?cmp (set (?N ps))" using in_keys by (intro orders_on_subset [OF o]) auto
    moreover have "sorted_wrt (\<lambda>a b. ?cmp a b \<le> 0) (?N ps)" "sorted_wrt (\<lambda>a b. ?cmp a b \<le> 0) (?N qs)"
      using s assms(1) by simp_all
    moreover assume "set (?N ps) = set (?N qs)"
    ultimately show "?N ps = ?N qs" by (intro sorted_wrt_unique [of ?cmp]) simp_all
  qed simp
  also have "\<dots> \<longleftrightarrow> scope_ids ps = scope_ids qs"
  proof
    assume "set (?N ps) = set (?N qs)"
    moreover have "scope_ids as = scope_ids bs" if "set as = set bs" for as bs
      using that by (auto simp: mem_scope_ids)
    ultimately have "scope_ids (?N ps) = scope_ids (?N qs)" by blast
    then show "scope_ids ps = scope_ids qs" by simp
  qed (rule normalize_scopes_unique)
  finally show ?thesis by (auto simp: scope_ids_def)
qed

text \<open>A comparison by character codes, for the witness.\<close>

fun code_compare :: "string \<Rightarrow> string \<Rightarrow> int" where
  "code_compare [] t = (if t = [] then 0 else - 1)"
| "code_compare (c # s) [] = 1"
| "code_compare (c # s) (d # t) =
     (if c = d then code_compare s t else if (of_char c :: int) < of_char d then - 1 else 1)"

lemma code_compare_total: "code_compare s t \<le> 0 \<or> code_compare t s \<le> 0"
  by (induction s t rule: code_compare.induct) auto

lemma code_compare_antisym: "code_compare s t \<le> 0 \<Longrightarrow> code_compare t s \<le> 0 \<Longrightarrow> s = t"
proof (induction s t rule: code_compare.induct)
  case (1 t)
  then show ?case by (cases t) auto
qed (auto split: if_splits)

lemma code_compare_trans: "code_compare s t \<le> 0 \<Longrightarrow> code_compare t u \<le> 0 \<Longrightarrow> code_compare s u \<le> 0"
proof (induction s t arbitrary: u rule: code_compare.induct)
  case (3 c s d t)
  then show ?case by (cases u) (auto split: if_splits)
qed (auto split: if_splits)

lemma code_compare_orders: "orders_on code_compare A"
  unfolding orders_on_def
  by (auto intro: code_compare_antisym code_compare_trans simp: code_compare_total)

lemma scopes_key_decides_witness:
  "scopes_key code_compare [PrefixId ''a'', ExactId ''a/b''] = scopes_key code_compare [PrefixId ''a'']"
proof -
  have "id_matches_scopes i (Some [PrefixId ''a'', ExactId ''a/b'']) = id_matches_scopes i (Some [PrefixId ''a''])" for i
    by (auto simp: id_matches_scopes_def id_matches_pattern_def starts_with_def)
  then show ?thesis
    by (subst scopes_key_decides [OF _ code_compare_orders]) (auto simp: printable_def pattern_key_def)
qed

end
