(* ===== verification/Contracts.thy ===== *)
theory Contracts
  imports Schema Channel Scopes
begin

text \<open>
  The contract of a method, \<^verbatim>\<open>schema/memberTypes.ts\<close>, and how the errors it declares travel:
  \<^verbatim>\<open>schema/errorValidation.ts\<close> and the encoding and decoding functions of
  \<^verbatim>\<open>connection/linkRpcConnection.ts\<close>.  Schemas are zod's: a schema is the function \<^verbatim>\<open>safeParse\<close> applies,
  and the three combinators the code builds error bodies with are a record of arguments, whose documented
  behaviour is \<open>zod_laws\<close>.
\<close>

section \<open>Schemas of zod\<close>

text \<open>An issue with its path, and the JSON it is on the wire.\<close>

datatype zissue =
    InvalidUnion "string list" "zissue list list" json
  | UnrecognizedKeys "string list" "string list" json
  | OtherIssue "string list" string json

fun issue_json :: "zissue \<Rightarrow> json" where
  "issue_json (InvalidUnion _ _ j) = j"
| "issue_json (UnrecognizedKeys _ _ j) = j"
| "issue_json (OtherIssue _ _ j) = j"

type_synonym zschema = "json option \<Rightarrow> zissue list + json option"

type_synonym rpc_issue = "string \<times> string"

record zod =
  z_string :: zschema
  z_literal :: "string \<Rightarrow> zschema"
  z_strictObject :: "(string \<times> zschema) list \<Rightarrow> zschema"

text \<open>What zod documents: \<^verbatim>\<open>string\<close> and \<^verbatim>\<open>literal\<close> accept only what they name and return it; a strict
  object accepts only objects without other keys, and returns each property as its schema parses it.\<close>

definition strict_parse :: "(string \<times> zschema) list \<Rightarrow> (string \<times> json) list \<Rightarrow> (string \<times> json) list \<Rightarrow> bool" where
  "strict_parse shape kvs kvs' \<longleftrightarrow>
     fst ` set kvs \<subseteq> fst ` set shape \<and> fst ` set kvs' \<subseteq> fst ` set shape \<and>
     (\<forall>(k, s) \<in> set shape. s (map_of kvs k) = Inr (map_of kvs' k))"

definition zod_laws :: "zod \<Rightarrow> bool" where
  "zod_laws z \<longleftrightarrow>
     (\<forall>v y. z_string z v = Inr y \<longrightarrow> y = v \<and> (\<exists>s. v = Some (JStr s))) \<and>
     (\<forall>s v y. z_literal z s v = Inr y \<longrightarrow> y = v \<and> v = Some (JStr s)) \<and>
     (\<forall>shape v y. distinct (map fst shape) \<longrightarrow> z_strictObject z shape v = Inr y \<longrightarrow>
        (\<exists>kvs kvs'. v = Some (JObj kvs) \<and> y = Some (JObj kvs') \<and> strict_parse shape kvs kvs'))"

section \<open>Declared errors\<close>

record error_descriptor =
  ed_code :: int
  ed_type :: "string option"
  ed_message :: "string option"
  ed_bodySchema :: "zschema option"
  ed_dataSchema :: "zschema option"

text \<open>A value made by \<^verbatim>\<open>descriptor.create\<close>, and the \<^verbatim>\<open>message\<close> and \<^verbatim>\<open>data\<close> of an error.\<close>

record app_error =
  ae_code :: int
  ae_type :: "string option"
  ae_message :: string
  ae_data :: "json option"

record error_body =
  eb_message :: string
  eb_data :: "json option"

definition opt_field :: "string \<Rightarrow> json option \<Rightarrow> (string \<times> json) list" where
  "opt_field k v = (case v of None \<Rightarrow> [] | Some x \<Rightarrow> [(k, x)])"

definition body_json :: "error_body \<Rightarrow> json" where
  "body_json b = JObj ((''message'', JStr (eb_message b)) # opt_field ''data'' (eb_data b))"

text \<open>Codes are whole numbers here, so only their range is left to check.\<close>

definition assert_error_code :: "int \<Rightarrow> unit res" where
  "assert_error_code code =
     (if code < - 2147483648 \<or> code > 2147483647 then
        Inl (JsError (''Application error code '' @ num_to_string (num_of_int code) @ '' must be a signed 32-bit integer.''))
      else Inr ())"

definition assert_application_error_code :: "int \<Rightarrow> unit res" where
  "assert_application_error_code code =
     res_bind (assert_error_code code) (\<lambda>_.
       if (code \<ge> - 32768 \<and> code \<le> - 32000) \<or> code = - 32800 then
         Inl (JsError (''Application error code '' @ num_to_string (num_of_int code) @ '' is reserved by JSON-RPC or LinkRPC.''))
       else Inr ())"

definition error_key :: "error_descriptor \<Rightarrow> string" where
  "error_key e = (case (ed_bodySchema e, ed_type e) of
     (None, Some t) \<Rightarrow> ''type:'' @ t
   | _ \<Rightarrow> ''code:'' @ num_to_string (num_of_int (ed_code e)))"

text \<open>The constructor of \<^verbatim>\<open>RequestType\<close>: the loop over the declared errors, with the keys seen.  The source
  tells the other errors by object identity, here by their position, so one object listed twice is refused
  in both, with the message on duplicates in the source.\<close>

definition shares_raw_code :: "error_descriptor list \<Rightarrow> nat \<Rightarrow> bool" where
  "shares_raw_code errors i =
     (\<exists>j < length errors. j \<noteq> i \<and> ed_code (errors ! j) = ed_code (errors ! i) \<and>
        (ed_bodySchema (errors ! j) \<noteq> None \<or> ed_bodySchema (errors ! i) \<noteq> None))"

definition check_error :: "error_descriptor list \<Rightarrow> nat \<Rightarrow> string list \<Rightarrow> string list res" where
  "check_error errors i seen =
     (let e = errors ! i; key = error_key e in
      if shares_raw_code errors i then
        Inl (JsError (''Raw error code '' @ num_to_string (num_of_int (ed_code e)) @ '' cannot be shared.''))
      else
        res_bind (if ed_bodySchema e \<noteq> None then assert_error_code (ed_code e)
                  else res_bind (assert_application_error_code (ed_code e)) (\<lambda>_.
                    if ed_message e = None then Inl (JsError ''Application error message must be a string.'')
                    else if ed_type e = Some [] then Inl (JsError ''Application error type must be a nonempty string.'')
                    else Inr ()))
          (\<lambda>_. if key \<in> set seen then Inl (JsError (''Duplicate application error '' @ key @ ''.''))
               else Inr (js_add seen key)))"

fun check_errors_from :: "error_descriptor list \<Rightarrow> nat list \<Rightarrow> string list \<Rightarrow> unit res" where
  "check_errors_from errors [] seen = Inr ()"
| "check_errors_from errors (i # is) seen = res_bind (check_error errors i seen) (check_errors_from errors is)"

definition check_errors :: "error_descriptor list \<Rightarrow> unit res" where
  "check_errors errors = check_errors_from errors [0..<length errors] []"

section \<open>Validating an error body\<close>

function validation_issue :: "string list \<Rightarrow> zissue \<Rightarrow> rpc_issue list" where
  "validation_issue pre (InvalidUnion path alts _) =
     concat (map (\<lambda>alt. concat (map (validation_issue (pre @ path)) alt)) alts)"
| "validation_issue pre (UnrecognizedKeys path keys _) =
     map (\<lambda>key. (concat (map json_pointer_segment (pre @ path @ [key])), ''Unexpected property'')) keys"
| "validation_issue pre (OtherIssue path msg _) = [(concat (map json_pointer_segment (pre @ path)), msg)]"
  by pat_completeness auto
termination
  by (relation "measure (size \<circ> snd)") (auto simp: less_Suc_eq_le elim!: size_list_estimation')

definition validation_issues :: "zissue list \<Rightarrow> rpc_issue list" where
  "validation_issues issues = concat (map (validation_issue []) issues)"

definition parse_error_body :: "zschema \<Rightarrow> error_body \<Rightarrow> rpc_issue list + (string \<times> json) list" where
  "parse_error_body schema b = (case schema (Some (body_json b)) of
     Inl issues \<Rightarrow> Inl (validation_issues issues)
   | Inr (Some (JObj kvs)) \<Rightarrow> (case map_of kvs ''message'' of
         Some (JStr m) \<Rightarrow> Inr (jm_set kvs ''message'' (JStr m))
       | _ \<Rightarrow> Inl [(''/message'', ''Expected a string message'')])
   | Inr _ \<Rightarrow> Inl [(''/message'', ''Expected a string message'')])"

definition error_body_schema :: "zod \<Rightarrow> error_descriptor \<Rightarrow> zschema" where
  "error_body_schema z d =
     (let payload = (case ed_dataSchema d of None \<Rightarrow> [] | Some s \<Rightarrow> [(''data'', s)]) in
      case ed_type d of
        None \<Rightarrow> z_strictObject z ((''message'', z_literal z (the (ed_message d))) # payload)
      | Some t \<Rightarrow> z_strictObject z [(''message'', z_string z),
          (''data'', z_strictObject z ((''type'', z_literal z t) # payload))])"

definition parse_declared_error_body ::
    "zod \<Rightarrow> error_descriptor \<Rightarrow> error_body \<Rightarrow> rpc_issue list + (string \<times> json) list" where
  "parse_declared_error_body z d b =
     parse_error_body (case ed_bodySchema d of Some s \<Rightarrow> s | None \<Rightarrow> error_body_schema z d) b"

text \<open>Whether a value is JSON: a number that is not finite is the only thing that is not.\<close>

function json_issues :: "string list \<Rightarrow> json \<Rightarrow> rpc_issue list" where
  "json_issues path JNull = []"
| "json_issues path (JBool b) = []"
| "json_issues path (JStr s) = []"
| "json_issues path (JNum n) =
     (if num_finite n then [] else [(concat (map json_pointer_segment path), ''Expected a JSON value'')])"
| "json_issues path (JArr xs) =
     concat (map (\<lambda>i. json_issues (path @ [show_nat i]) (xs ! i)) [0..<length xs])"
| "json_issues path (JObj kvs) = concat (map (\<lambda>(k, x). json_issues (path @ [k]) x) kvs)"
  by pat_completeness auto
termination
  by (relation "measure (size \<circ> snd)")
    (auto simp: less_Suc_eq_le intro: size_list_estimation' [OF nth_mem] elim!: size_list_estimation')

section \<open>Descriptors and the values they make\<close>

text \<open>\<^verbatim>\<open>rpcError\<close> with a schema for the whole body; \<^verbatim>\<open>applicationError\<close> by a code or by a name.  \<^verbatim>\<open>create\<close> takes no
  argument or one.\<close>

definition ERR_applicationError :: int where "ERR_applicationError = 1"

definition rpc_error_descriptor :: "int \<Rightarrow> zschema \<Rightarrow> error_descriptor res" where
  "rpc_error_descriptor code bodySchema =
     res_bind (assert_error_code code) (\<lambda>_. Inr \<lparr>ed_code = code, ed_type = None, ed_message = None,
       ed_bodySchema = Some bodySchema, ed_dataSchema = None\<rparr>)"

definition application_error ::
    "int + string \<Rightarrow> string option \<Rightarrow> int option \<Rightarrow> zschema option \<Rightarrow> error_descriptor res" where
  "application_error codeOrType message optCode dataSchema =
     (let type = (case codeOrType of Inl _ \<Rightarrow> None | Inr t \<Rightarrow> Some t);
          code = (case codeOrType of Inl c \<Rightarrow> c | Inr _ \<Rightarrow> (case optCode of None \<Rightarrow> ERR_applicationError | Some c \<Rightarrow> c));
          msg = (case (codeOrType, message) of (Inr t, None) \<Rightarrow> Some t | (_, m) \<Rightarrow> m) in
      if type = Some [] then Inl (JsError ''Application error type must be a nonempty string.'')
      else res_bind (assert_application_error_code code) (\<lambda>_.
        if msg = None then Inl (JsError ''Application error message must be a string.'')
        else Inr \<lparr>ed_code = code, ed_type = type, ed_message = msg, ed_bodySchema = None, ed_dataSchema = dataSchema\<rparr>))"

definition create_error :: "error_descriptor \<Rightarrow> json option \<Rightarrow> app_error res" where
  "create_error d data =
     (if ed_dataSchema d = None \<and> data \<noteq> None then
        Inl (JsError (''Application error '' @ num_to_string (num_of_int (ed_code d)) @ '' does not accept data.''))
      else if ed_dataSchema d \<noteq> None \<and> data = None then
        Inl (JsError (''Application error '' @ num_to_string (num_of_int (ed_code d)) @ '' requires exactly one data value.''))
      else Inr \<lparr>ae_code = ed_code d, ae_type = ed_type d, ae_message = the (ed_message d), ae_data = data\<rparr>)"

definition create_raw_error :: "error_descriptor \<Rightarrow> error_body \<Rightarrow> app_error" where
  "create_raw_error d b = \<lparr>ae_code = ed_code d, ae_type = None, ae_message = eb_message b, ae_data = eb_data b\<rparr>"

text \<open>The body an error value has on the wire: a named error wraps its data together with its name.\<close>

definition body_of :: "string option \<Rightarrow> app_error \<Rightarrow> error_body" where
  "body_of type v = \<lparr>eb_message = ae_message v,
     eb_data = (case type of None \<Rightarrow> ae_data v
       | Some t \<Rightarrow> Some (JObj ((''type'', JStr t) # opt_field ''data'' (ae_data v))))\<rparr>"

definition is_error_of :: "zod \<Rightarrow> error_descriptor \<Rightarrow> app_error \<Rightarrow> bool" where
  "is_error_of z d v =
     (ae_code v = ed_code d \<and> ae_type v = ed_type d \<and>
      is_ok (parse_declared_error_body z d (body_of (ed_type d) v)))"

section \<open>Sending a declared error\<close>

text \<open>What \<^verbatim>\<open>encodeApplicationError\<close> does with a value the handler made with a descriptor: the error to
  answer with, or the \<^verbatim>\<open>RpcError\<close> it throws.\<close>

definition find_descriptor :: "error_descriptor list \<Rightarrow> app_error \<Rightarrow> error_descriptor option" where
  "find_descriptor errors v = find (\<lambda>d. ed_code d = ae_code v \<and> ed_type d = ae_type v \<and>
     (ed_bodySchema d \<noteq> None \<or> ed_type d \<noteq> None \<or> ed_message d = Some (ae_message v))) errors"

definition issues_json :: "rpc_issue list \<Rightarrow> json" where
  "issues_json issues = JObj [(''issues'', JArr (map (\<lambda>(path, msg).
     JObj [(''path'', JStr path), (''message'', JStr msg)]) issues))]"

definition encode_application_error :: "zod \<Rightarrow> error_descriptor list \<Rightarrow> app_error \<Rightarrow> rpc_error + rpc_error" where
  "encode_application_error z errors v = (case find_descriptor errors v of
     None \<Rightarrow> Inl \<lparr>err_code = ERR_internalError,
       err_message = ''Undeclared application error '' @ num_to_string (num_of_int (ae_code v)), err_data = None\<rparr>
   | Some d \<Rightarrow>
       let b = body_of (ed_type d) v;
           issues = (case parse_declared_error_body z d b of Inr _ \<Rightarrow> json_issues [] (body_json b) | Inl is \<Rightarrow> is) in
       if issues \<noteq> [] then
         Inl \<lparr>err_code = ERR_internalError,
           err_message = ''Invalid data for application error '' @ num_to_string (num_of_int (ed_code d)),
           err_data = Some (issues_json issues)\<rparr>
       else Inr \<lparr>err_code = ed_code d, err_message = eb_message b, err_data = eb_data b\<rparr>)"

section \<open>Receiving an error\<close>

text \<open>What is not an answer of the peer is passed on as it is; nothing in the library makes an \<^verbatim>\<open>RpcError\<close> with
  the origin \<^verbatim>\<open>transport\<close>, so the kind is \<^verbatim>\<open>local\<close>.\<close>

datatype checked_error =
    ApplicationError "(string \<times> json) list"
  | RemoteError rpc_error
  | LocalError call_error
  | NonCompliantServer rpc_error "rpc_issue list"

definition candidates_of :: "error_descriptor list \<Rightarrow> int \<Rightarrow> error_descriptor list" where
  "candidates_of errors code =
     sort_by (\<lambda>a b. of_bool (ed_type b \<noteq> None) - of_bool (ed_type a \<noteq> None))
       (filter (\<lambda>d. ed_code d = code) errors)"

definition decoded_error :: "error_descriptor \<Rightarrow> (string \<times> json) list \<Rightarrow> (string \<times> json) list" where
  "decoded_error d kvs = (case ed_type d of
     None \<Rightarrow> jm_set (jm_set kvs ''kind'' (JStr ''application'')) ''code'' (JNum (num_of_int (ed_code d)))
   | Some t \<Rightarrow>
       [(''kind'', JStr ''application''), (''code'', JNum (num_of_int (ed_code d))),
        (''message'', the (map_of kvs ''message'')), (''type'', JStr t)]
       @ (case map_of kvs ''data'' of Some (JObj env) \<Rightarrow> opt_field ''data'' (map_of env ''data'') | _ \<Rightarrow> []))"

fun decode_candidates ::
    "zod \<Rightarrow> error_body \<Rightarrow> error_descriptor list \<Rightarrow> rpc_issue list \<Rightarrow> rpc_issue list + (string \<times> json) list" where
  "decode_candidates z b [] issues = Inl issues"
| "decode_candidates z b (d # ds) issues = (case parse_declared_error_body z d b of
     Inl is \<Rightarrow> decode_candidates z b ds (issues @ is)
   | Inr kvs \<Rightarrow> Inr (decoded_error d kvs))"

definition decode_checked_error :: "zod \<Rightarrow> error_descriptor list \<Rightarrow> call_error \<Rightarrow> checked_error" where
  "decode_checked_error z errors cause = (case cause of
     Remote e \<Rightarrow>
       let candidates = candidates_of errors (err_code e);
           b = \<lparr>eb_message = err_message e, eb_data = err_data e\<rparr> in
       (case decode_candidates z b candidates [] of
          Inr kvs \<Rightarrow> ApplicationError kvs
        | Inl issues \<Rightarrow> if candidates \<noteq> [] then NonCompliantServer e issues else RemoteError e)
   | _ \<Rightarrow> LocalError cause)"

section \<open>What the constructor checks\<close>

lemma check_error_ok:
  assumes "check_error errors i seen = Inr seen'"
  shows "\<not> shares_raw_code errors i" "error_key (errors ! i) \<notin> set seen"
    "set seen' = insert (error_key (errors ! i)) (set seen)"
  using assms by (auto simp: check_error_def Let_def res_bind_def js_add_def split: if_splits sum.splits)

lemma check_errors_from_ok:
  "check_errors_from errors is seen = Inr () \<Longrightarrow>
   (\<forall>i \<in> set is. \<not> shares_raw_code errors i) \<and> distinct (map (\<lambda>i. error_key (errors ! i)) is) \<and>
   (\<forall>i \<in> set is. error_key (errors ! i) \<notin> set seen)"
proof (induction "is" arbitrary: seen)
  case (Cons i "is")
  then obtain seen' where s: "check_error errors i seen = Inr seen'" "check_errors_from errors is seen' = Inr ()"
    by (auto simp: res_bind_Inr_iff)
  from Cons.IH [OF s(2)] check_error_ok [OF s(1)] show ?case by auto
qed simp

lemma check_errors_ok:
  assumes "check_errors errors = Inr ()"
  shows "distinct (map error_key errors)"
    and "\<And>d d'. d \<in> set errors \<Longrightarrow> d' \<in> set errors \<Longrightarrow> ed_code d = ed_code d' \<Longrightarrow> d \<noteq> d' \<Longrightarrow>
      ed_bodySchema d = None"
proof -
  note c = check_errors_from_ok [OF assms [unfolded check_errors_def]]
  have "map (\<lambda>i. error_key (errors ! i)) [0..<length errors] = map error_key errors"
    by (subst (3) map_nth [symmetric]) (simp add: comp_def del: map_nth)
  moreover note c [THEN conjunct2, THEN conjunct1]
  ultimately show "distinct (map error_key errors)" by (simp only:)
  fix d d' assume d: "d \<in> set errors" "d' \<in> set errors" "ed_code d = ed_code d'" "d \<noteq> d'"
  then obtain i j where "i < length errors" "errors ! i = d" "j < length errors" "errors ! j = d'" "i \<noteq> j"
    by (metis in_set_conv_nth)
  moreover from \<open>i < length errors\<close> have "i \<in> set [0..<length errors]" by simp
  with c [THEN conjunct1] have "\<not> shares_raw_code errors i" by blast
  ultimately show "ed_bodySchema d = None" using d(3) unfolding shares_raw_code_def by metis
qed

section \<open>Parsing what a descriptor sent\<close>

definition keeps_values :: "error_descriptor \<Rightarrow> bool" where
  "keeps_values d \<longleftrightarrow> (\<forall>s x y. ed_dataSchema d = Some s \<or> ed_bodySchema d = Some s \<longrightarrow> s x = Inr y \<longrightarrow> y = x)"

lemma strict_object_parses:
  assumes "zod_laws z" "distinct (map fst shape)" "z_strictObject z shape v = Inr y"
  obtains kvs kvs' where "v = Some (JObj kvs)" "y = Some (JObj kvs')" "strict_parse shape kvs kvs'"
  using assms unfolding zod_laws_def by metis

lemma strict_parse_at: "strict_parse shape kvs kvs' \<Longrightarrow> (k, s) \<in> set shape \<Longrightarrow> s (map_of kvs k) = Inr (map_of kvs' k)"
  unfolding strict_parse_def by blast

lemma strict_parse_other:
  assumes "strict_parse shape kvs kvs'" "k \<notin> fst ` set shape"
  shows "map_of kvs k = None" "map_of kvs' k = None"
proof -
  have "k \<notin> fst ` set kvs" "k \<notin> fst ` set kvs'" using assms unfolding strict_parse_def by blast+
  then show "map_of kvs k = None" "map_of kvs' k = None" by (simp_all add: map_of_eq_None_iff)
qed

lemma literal_parses: "zod_laws z \<Longrightarrow> z_literal z s v = Inr y \<Longrightarrow> y = v \<and> v = Some (JStr s)"
  unfolding zod_laws_def by blast

lemma string_parses: "zod_laws z \<Longrightarrow> z_string z v = Inr y \<Longrightarrow> y = v \<and> (\<exists>s. v = Some (JStr s))"
  unfolding zod_laws_def by blast

lemma parse_error_body_ok:
  assumes "parse_error_body s b = Inr kvs"
  obtains kvs0 m where "s (Some (body_json b)) = Inr (Some (JObj kvs0))" "map_of kvs0 ''message'' = Some (JStr m)"
    "kvs = jm_set kvs0 ''message'' (JStr m)"
  using assms by (auto simp: parse_error_body_def split: sum.splits option.splits json.splits)

lemma map_of_jm_set_upd [simp]: "map_of (jm_set m k v) = (map_of m)(k \<mapsto> v)"
  by (induction m) (auto simp: fun_upd_twist)

lemma jm_set_same: "map_of m k = Some v \<Longrightarrow> map_of (jm_set m k v) = map_of m"
  by (simp add: fun_upd_idem)

text \<open>A named error is only accepted with its own name in the data, and its data comes out unchanged.\<close>

lemma parse_named:
  assumes z: "zod_laws z" and d: "ed_bodySchema d = None" "ed_type d = Some t" "keeps_values d"
    and p: "parse_declared_error_body z d b = Inr kvs"
  obtains env env' where "eb_data b = Some (JObj env)" "map_of env ''type'' = Some (JStr t)"
    "map_of kvs ''message'' = Some (JStr (eb_message b))" "map_of kvs ''data'' = Some (JObj env')"
    "map_of env' ''data'' = map_of env ''data''"
proof -
  let ?payload = "case ed_dataSchema d of None \<Rightarrow> [] | Some s \<Rightarrow> [(''data'', s)]"
  let ?inner = "z_strictObject z ((''type'', z_literal z t) # ?payload)"
  have s: "parse_error_body (z_strictObject z [(''message'', z_string z), (''data'', ?inner)]) b = Inr kvs"
    using p d by (simp add: parse_declared_error_body_def error_body_schema_def Let_def)
  from s obtain kvs0 m where k: "z_strictObject z [(''message'', z_string z), (''data'', ?inner)] (Some (body_json b)) =
      Inr (Some (JObj kvs0))" "map_of kvs0 ''message'' = Some (JStr m)" "kvs = jm_set kvs0 ''message'' (JStr m)"
    by (rule parse_error_body_ok)
  obtain bs where bs: "body_json b = JObj bs" "map_of bs ''message'' = Some (JStr (eb_message b))"
      "map_of bs ''data'' = eb_data b"
    by (cases "eb_data b") (auto simp: body_json_def opt_field_def)
  from strict_object_parses [OF z _ k(1)] have sp: "strict_parse [(''message'', z_string z), (''data'', ?inner)] bs kvs0"
    by (auto simp: bs(1))
  have outer: "z_string z (map_of bs ''message'') = Inr (map_of kvs0 ''message'')" "?inner (map_of bs ''data'') = Inr (map_of kvs0 ''data'')"
    by (rule strict_parse_at [OF sp]; simp)+
  have m: "map_of kvs0 ''message'' = Some (JStr (eb_message b))"
    using string_parses [OF z outer(1)] bs(2) by simp
  have dist: "distinct (map fst ((''type'', z_literal z t) # ?payload))" by (auto split: option.splits)
  obtain env env' where e: "map_of bs ''data'' = Some (JObj env)" "map_of kvs0 ''data'' = Some (JObj env')"
      "strict_parse ((''type'', z_literal z t) # ?payload) env env'"
    by (rule strict_object_parses [OF z dist outer(2)])
  have "z_literal z t (map_of env ''type'') = Inr (map_of env' ''type'')" by (rule strict_parse_at [OF e(3)]) simp
  then have ty: "map_of env ''type'' = Some (JStr t)" using literal_parses [OF z] by blast
  have data: "map_of env' ''data'' = map_of env ''data''"
  proof (cases "ed_dataSchema d")
    case None
    then have "''data'' \<notin> fst ` set ((''type'', z_literal z t) # ?payload)" by simp
    from strict_parse_other [OF e(3) this] show ?thesis by simp
  next
    case (Some s)
    then have "(''data'', s) \<in> set ((''type'', z_literal z t) # ?payload)" by simp
    from strict_parse_at [OF e(3) this] d(3) Some show ?thesis unfolding keeps_values_def by blast
  qed
  show ?thesis
    by (rule that [of env env']) (use bs(3) e(1,2) ty data m k in auto)
qed

definition app_error_fields :: "app_error \<Rightarrow> (string \<times> json) list" where
  "app_error_fields v =
     [(''kind'', JStr ''application''), (''code'', JNum (num_of_int (ae_code v))), (''message'', JStr (ae_message v))]
     @ opt_field ''type'' (map_option JStr (ae_type v)) @ opt_field ''data'' (ae_data v)"

lemma map_of_body [simp]:
  "map_of ((''message'', JStr m) # opt_field ''data'' x) =
     (\<lambda>k. if k = ''message'' then Some (JStr m) else if k = ''data'' then x else None)"
  by (cases x) (auto simp: opt_field_def fun_eq_iff)

text \<open>An unnamed error: what it parses to has the message and the data it was sent with.\<close>

lemma parse_unnamed:
  assumes z: "zod_laws z" and d: "ed_type d = None" "keeps_values d"
    and p: "parse_declared_error_body z d b = Inr kvs"
  shows "map_of kvs = map_of ((''message'', JStr (eb_message b)) # opt_field ''data'' (eb_data b))"
proof (cases "ed_bodySchema d")
  case (Some s)
  with p have "parse_error_body s b = Inr kvs" by (simp add: parse_declared_error_body_def)
  then obtain kvs0 m where k: "s (Some (body_json b)) = Inr (Some (JObj kvs0))" "map_of kvs0 ''message'' = Some (JStr m)"
      "kvs = jm_set kvs0 ''message'' (JStr m)"
    by (rule parse_error_body_ok)
  from d(2) Some k(1) have "Some (JObj kvs0) = Some (body_json b)" unfolding keeps_values_def by blast
  then have e: "kvs0 = (''message'', JStr (eb_message b)) # opt_field ''data'' (eb_data b)" by (simp add: body_json_def)
  have "map_of kvs = map_of kvs0" unfolding k(3) using k(2) by (rule jm_set_same)
  then show ?thesis unfolding e .
next
  case None
  let ?payload = "case ed_dataSchema d of None \<Rightarrow> [] | Some s \<Rightarrow> [(''data'', s)]"
  let ?shape = "(''message'', z_literal z (the (ed_message d))) # ?payload"
  have "parse_error_body (z_strictObject z ?shape) b = Inr kvs"
    using p d None by (simp add: parse_declared_error_body_def error_body_schema_def Let_def)
  then obtain kvs0 m where k: "z_strictObject z ?shape (Some (body_json b)) = Inr (Some (JObj kvs0))"
      "map_of kvs0 ''message'' = Some (JStr m)" "kvs = jm_set kvs0 ''message'' (JStr m)"
    by (rule parse_error_body_ok)
  have dist: "distinct (map fst ?shape)" by (auto split: option.splits)
  obtain bs kvs1 where "Some (body_json b) = Some (JObj bs)" "Some (JObj kvs0) = Some (JObj kvs1)" and sp: "strict_parse ?shape bs kvs1"
    by (rule strict_object_parses [OF z dist k(1)])
  then have bs: "bs = (''message'', JStr (eb_message b)) # opt_field ''data'' (eb_data b)" "kvs1 = kvs0"
    by (simp_all add: body_json_def)
  note sp = sp [unfolded bs(2)]
  have "z_literal z (the (ed_message d)) (map_of bs ''message'') = Inr (map_of kvs0 ''message'')"
    by (rule strict_parse_at [OF sp]) simp
  then have msg: "map_of kvs0 ''message'' = map_of bs ''message''" using literal_parses [OF z] by metis
  have dat: "map_of kvs0 ''data'' = map_of bs ''data''"
  proof (cases "ed_dataSchema d")
    case None
    then have "''data'' \<notin> fst ` set ?shape" by simp
    from strict_parse_other [OF sp this] show ?thesis by simp
  next
    case (Some s)
    then have "(''data'', s) \<in> set ?shape" by simp
    from strict_parse_at [OF sp this] d(2) Some show ?thesis unfolding keeps_values_def by blast
  qed
  have "map_of kvs0 k' = map_of bs k'" for k'
  proof (cases "k' = ''message'' \<or> k' = ''data''")
    case False
    then have "k' \<notin> fst ` set ?shape" by (auto split: option.splits)
    from strict_parse_other [OF sp this] show ?thesis by simp
  qed (use msg dat in auto)
  moreover have "map_of kvs = map_of kvs0" unfolding k(3) using k(2) by (rule jm_set_same)
  ultimately show ?thesis unfolding bs(1) by (simp add: fun_eq_iff)
qed

text \<open>A descriptor that accepts what was sent decodes it to the value that was sent.\<close>

lemma decoded_same:
  assumes z: "zod_laws z" and d: "keeps_values d" "ed_type d = ae_type v" "ed_code d = ae_code v"
    and raw: "ed_bodySchema d \<noteq> None \<longrightarrow> ed_type d = None"
    and p: "parse_declared_error_body z d (body_of (ae_type v) v) = Inr kvs"
  shows "map_of (decoded_error d kvs) = map_of (app_error_fields v)"
proof (cases "ae_type v")
  case None
  have "map_of kvs = map_of ((''message'', JStr (ae_message v)) # opt_field ''data'' (ae_data v))"
    using parse_unnamed [OF z _ d(1) p] d(2) None by (simp add: body_of_def)
  with None d(2,3) show ?thesis
    by (auto simp: decoded_error_def app_error_fields_def opt_field_def fun_eq_iff split: option.splits)
next
  case (Some t)
  then have nr: "ed_bodySchema d = None" using raw d(2) by (cases "ed_bodySchema d") auto
  obtain env env' where e: "eb_data (body_of (ae_type v) v) = Some (JObj env)" "map_of env ''type'' = Some (JStr t)"
    "map_of kvs ''message'' = Some (JStr (eb_message (body_of (ae_type v) v)))" "map_of kvs ''data'' = Some (JObj env')"
    "map_of env' ''data'' = map_of env ''data''"
    by (rule parse_named [OF z nr _ d(1) p]) (use Some d(2) in auto)
  have env: "env = (''type'', JStr t) # opt_field ''data'' (ae_data v)" using e(1) Some by (simp add: body_of_def)
  have "map_of env' ''data'' = ae_data v" unfolding e(5) env by (cases "ae_data v") (simp_all add: opt_field_def)
  with e(3,4) Some d(2,3) show ?thesis
    by (cases "ae_data v") (auto simp: decoded_error_def app_error_fields_def body_of_def opt_field_def fun_eq_iff)
qed

section \<open>The order in which declared errors are tried\<close>

lemma insert_named_first:
  assumes "\<forall>y \<in> set T. ed_type y \<noteq> None" "\<forall>y \<in> set U. ed_type y = None"
  shows "insert_by (\<lambda>a b. of_bool (ed_type b \<noteq> None) - of_bool (ed_type a \<noteq> None)) x (T @ U) =
    (if ed_type x \<noteq> None then (x # T) @ U else T @ x # U)"
  using assms
proof (induction T)
  case Nil
  then show ?case by (cases U) auto
qed auto

lemma candidates_eq:
  "candidates_of errors code =
     filter (\<lambda>d. ed_code d = code \<and> ed_type d \<noteq> None) errors @ filter (\<lambda>d. ed_code d = code \<and> ed_type d = None) errors"
proof -
  have "sort_by (\<lambda>a b. of_bool (ed_type b \<noteq> None) - of_bool (ed_type a \<noteq> None)) ds =
      filter (\<lambda>d. ed_type d \<noteq> None) ds @ filter (\<lambda>d. ed_type d = None) ds" for ds :: "error_descriptor list"
  proof (induction ds)
    case (Cons d ds)
    have "sort_by (\<lambda>a b. of_bool (ed_type b \<noteq> None) - of_bool (ed_type a \<noteq> None)) (d # ds) =
        insert_by (\<lambda>a b. of_bool (ed_type b \<noteq> None) - of_bool (ed_type a \<noteq> None)) d
          (filter (\<lambda>d. ed_type d \<noteq> None) ds @ filter (\<lambda>d. ed_type d = None) ds)"
      using Cons.IH by (simp add: sort_by_def)
    also have "\<dots> = filter (\<lambda>d. ed_type d \<noteq> None) (d # ds) @ filter (\<lambda>d. ed_type d = None) (d # ds)"
      by (subst insert_named_first) auto
    finally show ?case .
  qed (simp add: sort_by_def)
  then show ?thesis by (simp add: candidates_of_def conj_commute del: not_None_eq)
qed

lemma decode_candidates_first:
  "d \<in> set ds \<Longrightarrow> is_ok (parse_declared_error_body z d b) \<Longrightarrow>
   \<exists>d' kvs. d' \<in> set ds \<and> parse_declared_error_body z d' b = Inr kvs \<and>
     decode_candidates z b (ds @ ds') issues = Inr (decoded_error d' kvs)"
proof (induction ds arbitrary: issues)
  case (Cons e ds)
  show ?case
  proof (cases "parse_declared_error_body z e b")
    case (Inl js)
    with Cons.prems have "d \<in> set ds" by (auto simp: is_ok_def)
    from Cons.IH [OF this Cons.prems(2)] Inl show ?thesis by fastforce
  qed auto
qed simp

lemma decode_candidates_none:
  "\<forall>d \<in> set ds. \<not> is_ok (parse_declared_error_body z d b) \<Longrightarrow>
   \<exists>js. decode_candidates z b (ds @ ds') issues = decode_candidates z b ds' js"
proof (induction ds arbitrary: issues)
  case (Cons e ds)
  then obtain js where "parse_declared_error_body z e b = Inl js"
    by (cases "parse_declared_error_body z e b") (auto simp: is_ok_def)
  with Cons show ?case by simp
qed auto

definition well_made :: "error_descriptor list \<Rightarrow> bool" where
  "well_made errors \<longleftrightarrow> check_errors errors = Inr () \<and>
     (\<forall>d \<in> set errors. ed_bodySchema d \<noteq> None \<longrightarrow> ed_type d = None)"

text \<open>A failed parse is only noticed by the issues it leaves, so the schemas have to leave some.\<close>

definition reports_issues :: "zod \<Rightarrow> error_descriptor list \<Rightarrow> bool" where
  "reports_issues z errors \<longleftrightarrow> (\<forall>d \<in> set errors. \<forall>b. parse_declared_error_body z d b \<noteq> Inl [])"

text \<open>Two declared errors with one code and one name are the same descriptor.\<close>

lemma declared_unique:
  assumes "well_made errors" "d \<in> set errors" "d' \<in> set errors" "ed_code d = ed_code d'" "ed_type d = ed_type d'"
  shows "d = d'"
proof (rule ccontr)
  assume ne: "d \<noteq> d'"
  note c = check_errors_ok [OF conjunct1 [OF assms(1) [unfolded well_made_def]]]
  have "ed_bodySchema d = None" "ed_bodySchema d' = None" using c(2) assms(2-4) ne by metis+
  then have "error_key d = error_key d'" using assms(4,5) by (cases "ed_type d'") (simp_all add: error_key_def)
  with c(1) assms(2,3) ne show False by (auto simp: distinct_map inj_on_def)
qed

text \<open>C31: An application error that a handler returns reaches the caller as the same error: when the
  server can encode it, the client decodes what was sent to the value the handler returned, code, name,
  message and data.  The errors are declared as \<^verbatim>\<open>RequestType\<close> checks them and raw ones have no name; their
  schemas do not transform values and report an issue when they reject one; zod's string, literal and strict
  object do what they document; and an error without a name does not have a body that one of the named
  errors of its code accepts.\<close>

theorem application_error_roundtrip:
  assumes "zod_laws z" "well_made errors" "\<forall>d \<in> set errors. keeps_values d" "reports_issues z errors"
    and "encode_application_error z errors v = Inr e"
    and "ae_type v = None \<Longrightarrow> \<forall>d \<in> set errors. ed_code d = ae_code v \<and> ed_type d \<noteq> None \<longrightarrow>
      \<not> is_ok (parse_declared_error_body z d (body_of None v))"
  shows "\<exists>kvs. decode_checked_error z errors (Remote e) = ApplicationError kvs \<and> map_of kvs = map_of (app_error_fields v)"
proof -
  obtain d where d: "find_descriptor errors v = Some d"
      "is_ok (parse_declared_error_body z d (body_of (ed_type d) v))" "e = \<lparr>err_code = ed_code d,
        err_message = eb_message (body_of (ed_type d) v), err_data = eb_data (body_of (ed_type d) v)\<rparr>"
  proof -
    from assms(5) obtain d where d: "find_descriptor errors v = Some d"
      by (auto simp: encode_application_error_def split: option.splits)
    then have "d \<in> set errors" by (auto simp: find_descriptor_def find_Some_iff)
    with assms(4) have "parse_declared_error_body z d (body_of (ed_type d) v) \<noteq> Inl []"
      unfolding reports_issues_def by blast
    with d assms(5) that [OF d] show ?thesis
      by (auto simp: encode_application_error_def Let_def is_ok_def split: sum.splits if_splits)
  qed
  then have f: "d \<in> set errors" "ed_code d = ae_code v" "ed_type d = ae_type v"
    by (auto simp: find_descriptor_def find_Some_iff)
  let ?b = "body_of (ae_type v) v"
  have b: "\<lparr>eb_message = err_message e, eb_data = err_data e\<rparr> = ?b" "err_code e = ae_code v"
    using d(3) f by simp_all
  let ?T = "filter (\<lambda>d. ed_code d = ae_code v \<and> ed_type d \<noteq> None) errors"
    and ?U = "filter (\<lambda>d. ed_code d = ae_code v \<and> ed_type d = None) errors"
  have "\<exists>d' kvs. d' \<in> set errors \<and> ed_code d' = ae_code v \<and> ed_type d' = ae_type v \<and>
      parse_declared_error_body z d' ?b = Inr kvs \<and> decode_candidates z ?b (?T @ ?U) [] = Inr (decoded_error d' kvs)"
  proof (cases "ae_type v")
    case None
    with assms(6) f(2) obtain js where i: "decode_candidates z ?b (?T @ ?U) [] = decode_candidates z ?b ?U js"
      using decode_candidates_none [of ?T z ?b ?U "[]"] by auto
    have "d \<in> set ?U" using f None by simp
    from decode_candidates_first [OF this, of z ?b "[]" js] d(2) f(3) i None show ?thesis by auto
  next
    case (Some t)
    then have "d \<in> set ?T" using f by simp
    from decode_candidates_first [OF this, of z ?b ?U "[]"] d(2) f(3) obtain d' kvs where
      d': "d' \<in> set errors" "ed_code d' = ae_code v" "ed_type d' \<noteq> None" "parse_declared_error_body z d' ?b = Inr kvs"
        "decode_candidates z ?b (?T @ ?U) [] = Inr (decoded_error d' kvs)" by auto
    from d'(3) obtain t' where t': "ed_type d' = Some t'" by blast
    have "ed_bodySchema d' = None" using assms(2) d'(1,3) unfolding well_made_def by (cases "ed_bodySchema d'") auto
    then obtain env where "eb_data ?b = Some (JObj env)" "map_of env ''type'' = Some (JStr t')"
      by (rule parse_named [OF assms(1) _ t' _ d'(4)]) (use assms(3) d'(1) in auto)
    then have "t' = t" using Some by (auto simp: body_of_def)
    with d' t' Some show ?thesis by auto
  qed
  then obtain d' kvs where d': "d' \<in> set errors" "ed_code d' = ae_code v" "ed_type d' = ae_type v"
      "parse_declared_error_body z d' ?b = Inr kvs" "decode_candidates z ?b (?T @ ?U) [] = Inr (decoded_error d' kvs)"
    by (elim exE conjE)
  have "map_of (decoded_error d' kvs) = map_of (app_error_fields v)"
  proof (rule decoded_same [OF assms(1) _ d'(3,2) _ d'(4)])
    show "keeps_values d'" using assms(3) d'(1) by blast
    show "ed_bodySchema d' \<noteq> None \<longrightarrow> ed_type d' = None" using assms(2) d'(1) unfolding well_made_def by blast
  qed
  with d'(5) show ?thesis by (simp add: decode_checked_error_def Let_def b candidates_eq)
qed

section \<open>A concrete zod\<close>

definition some_issue :: "zissue list" where
  "some_issue = [OtherIssue [] ''Invalid input'' JNull]"

fun parse_shape :: "(string \<times> zschema) list \<Rightarrow> (string \<times> json) list \<Rightarrow> zissue list + (string \<times> json) list" where
  "parse_shape [] kvs = Inr []"
| "parse_shape ((k, s) # shape) kvs = (case (s (map_of kvs k), parse_shape shape kvs) of
     (Inr y, Inr rest) \<Rightarrow> Inr (opt_field k y @ rest)
   | (Inr _, Inl is) \<Rightarrow> Inl is
   | (Inl is, _) \<Rightarrow> Inl is)"

definition demo_object :: "(string \<times> zschema) list \<Rightarrow> zschema" where
  "demo_object shape v = (case v of
     Some (JObj kvs) \<Rightarrow>
       if fst ` set kvs \<subseteq> fst ` set shape then map_sum (\<lambda>is. is) (\<lambda>kvs'. Some (JObj kvs')) (parse_shape shape kvs)
       else Inl some_issue
   | _ \<Rightarrow> Inl some_issue)"

definition demo_zod :: zod where
  "demo_zod = \<lparr>z_string = (\<lambda>v. case v of Some (JStr s) \<Rightarrow> Inr v | _ \<Rightarrow> Inl some_issue),
     z_literal = (\<lambda>s v. if v = Some (JStr s) then Inr v else Inl some_issue),
     z_strictObject = demo_object\<rparr>"

lemma opt_field_keys: "fst ` set (opt_field k y) \<subseteq> {k}"
  by (cases y) (simp_all add: opt_field_def)

lemma map_of_opt_field [simp]: "map_of (opt_field k y) k' = (if k' = k then y else None)"
  by (cases y) (simp_all add: opt_field_def)

lemma parse_shape_keys: "parse_shape shape kvs = Inr kvs' \<Longrightarrow> fst ` set kvs' \<subseteq> fst ` set shape"
proof (induction shape arbitrary: kvs')
  case (Cons p shape)
  obtain k s where p: "p = (k, s)" by (cases p)
  from Cons.prems p obtain y rest where r: "parse_shape shape kvs = Inr rest" "kvs' = opt_field k y @ rest"
    by (auto split: sum.splits)
  from Cons.IH [OF r(1)] r(2) p opt_field_keys [of k y] show ?case by auto
qed simp

lemma parse_shape_at:
  "parse_shape shape kvs = Inr kvs' \<Longrightarrow> distinct (map fst shape) \<Longrightarrow> (k, s) \<in> set shape \<Longrightarrow> s (map_of kvs k) = Inr (map_of kvs' k)"
proof (induction shape arbitrary: kvs')
  case (Cons p shape)
  obtain k' s' where p: "p = (k', s')" by (cases p)
  from Cons.prems(1) p obtain y rest where r: "s' (map_of kvs k') = Inr y" "parse_shape shape kvs = Inr rest"
      "kvs' = opt_field k' y @ rest"
    by (auto split: sum.splits)
  have nr: "map_of rest k' = None"
    using parse_shape_keys [OF r(2)] Cons.prems(2) p by (auto simp: map_of_eq_None_iff)
  show ?case
  proof (cases "k = k'")
    case True
    then have "s = s'" using Cons.prems(2,3) p by (auto intro: rev_image_eqI)
    with r True nr show ?thesis by (simp add: map_add_def split: option.split)
  next
    case False
    with Cons.prems p have "(k, s) \<in> set shape" by auto
    with Cons.IH [OF r(2)] Cons.prems(2) p r(3) False show ?thesis by (simp add: map_add_def split: option.split)
  qed
qed simp

lemma demo_zod_laws: "zod_laws demo_zod"
  unfolding zod_laws_def
proof (intro conjI allI impI)
  fix shape :: "(string \<times> zschema) list" and v y
  assume d: "distinct (map fst shape)" and "z_strictObject demo_zod shape v = Inr y"
  then have "demo_object shape v = Inr y" by (simp add: demo_zod_def)
  then obtain kvs where kvs: "v = Some (JObj kvs)" "fst ` set kvs \<subseteq> fst ` set shape"
      "map_sum (\<lambda>is. is) (\<lambda>kvs'. Some (JObj kvs')) (parse_shape shape kvs) = Inr y"
    by (auto simp: demo_object_def split: option.splits json.splits if_splits)
  then obtain kvs' where kvs': "parse_shape shape kvs = Inr kvs'" "y = Some (JObj kvs')"
    by (cases "parse_shape shape kvs") auto
  have "strict_parse shape kvs kvs'"
    unfolding strict_parse_def using kvs(2) parse_shape_keys [OF kvs'(1)] parse_shape_at [OF kvs'(1) d] by blast
  with kvs(1) kvs'(2) show "\<exists>kvs kvs'. v = Some (JObj kvs) \<and> y = Some (JObj kvs') \<and> strict_parse shape kvs kvs'" by blast
qed (auto simp: demo_zod_def split: option.splits json.splits if_splits)

definition demo_busy :: error_descriptor where
  "demo_busy = \<lparr>ed_code = 7, ed_type = Some ''busy'', ed_message = Some ''try later'', ed_bodySchema = None,
     ed_dataSchema = Some (z_string demo_zod)\<rparr>"

definition demo_gone :: error_descriptor where
  "demo_gone = \<lparr>ed_code = 7, ed_type = None, ed_message = Some ''gone'', ed_bodySchema = None, ed_dataSchema = None\<rparr>"

definition demo_value :: app_error where
  "demo_value = \<lparr>ae_code = 7, ae_type = Some ''busy'', ae_message = ''try later'', ae_data = Some (JStr ''42'')\<rparr>"

lemma not_shared: "list_all (\<lambda>e. ed_bodySchema e = None) errors \<Longrightarrow> i < length errors \<Longrightarrow> \<not> shares_raw_code errors i"
  by (auto simp: shares_raw_code_def list_all_length)

lemma demo_errors_ok: "well_made [demo_gone, demo_busy]"
proof -
  have "\<not> shares_raw_code [demo_gone, demo_busy] i" if "i < 2" for i
    using that by (intro not_shared) (simp_all add: demo_busy_def demo_gone_def)
  then show ?thesis
    by (simp add: well_made_def check_errors_def check_error_def Let_def assert_application_error_code_def
        assert_error_code_def res_bind_def error_key_def demo_busy_def demo_gone_def js_add_def upt_rec)
qed

definition demo_errors :: "error_descriptor list" where
  "demo_errors = [demo_gone, demo_busy]"

definition demo_plain :: app_error where
  "demo_plain = \<lparr>ae_code = 7, ae_type = None, ae_message = ''gone'', ae_data = None\<rparr>"

lemmas demo_eval = parse_declared_error_body_def parse_error_body_def error_body_schema_def demo_busy_def demo_gone_def
  demo_value_def demo_plain_def body_of_def body_json_def opt_field_def demo_zod_def demo_object_def Let_def is_ok_def

lemma demo_encodes:
  "encode_application_error demo_zod demo_errors demo_value = Inr \<lparr>err_code = 7, err_message = ''try later'',
     err_data = Some (JObj [(''type'', JStr ''busy''), (''data'', JStr ''42'')])\<rparr>"
  "encode_application_error demo_zod demo_errors demo_plain = Inr \<lparr>err_code = 7, err_message = ''gone'', err_data = None\<rparr>"
  by (simp_all add: encode_application_error_def find_descriptor_def demo_errors_def demo_eval)

lemma demo_object_fails:
  assumes "\<forall>(k, s) \<in> set shape. \<forall>v is. s v = Inl is \<longrightarrow> is = some_issue" "demo_object shape v = Inl is"
  shows "is = some_issue"
proof -
  have "parse_shape shape kvs = Inl is \<Longrightarrow> is = some_issue" for kvs "is"
    using assms(1) by (induction shape) (auto split: sum.splits)
  with assms(2) show ?thesis
    by (auto simp: demo_object_def map_sum.simps split: option.splits json.splits if_splits)
      (metis map_sum.simps obj_sumE sum.inject(1) sum.distinct(1))
qed

lemma demo_string_fails: "z_string demo_zod v = Inl is \<Longrightarrow> is = some_issue" "z_literal demo_zod s v = Inl is \<Longrightarrow> is = some_issue"
  by (auto simp: demo_zod_def split: option.splits json.splits if_splits)

lemma demo_reports: "reports_issues demo_zod demo_errors"
proof -
  have obj: "z_strictObject demo_zod = demo_object" by (simp add: demo_zod_def)
  have inner: "demo_object [(''type'', z_literal demo_zod t), (''data'', z_string demo_zod)] v = Inl is \<Longrightarrow> is = some_issue" for t v "is"
    by (rule demo_object_fails) (auto dest: demo_string_fails)
  have gone: "demo_object [(''message'', z_literal demo_zod t)] v = Inl is \<Longrightarrow> is = some_issue" for t v "is"
    by (rule demo_object_fails) (auto dest: demo_string_fails)
  have busy: "demo_object [(''message'', z_string demo_zod), (''data'',
      demo_object [(''type'', z_literal demo_zod t), (''data'', z_string demo_zod)])] v = Inl is \<Longrightarrow> is = some_issue" for t v "is"
    by (rule demo_object_fails) (auto dest: demo_string_fails inner)
  have "error_body_schema demo_zod d v = Inl is \<Longrightarrow> is = some_issue" if "d \<in> set demo_errors" for d v "is"
    using that gone busy by (auto simp: error_body_schema_def obj demo_errors_def demo_busy_def demo_gone_def Let_def)
  moreover have "validation_issues some_issue \<noteq> []" by (simp add: validation_issues_def some_issue_def)
  moreover have "ed_bodySchema d = None" if "d \<in> set demo_errors" for d
    using that by (auto simp: demo_errors_def demo_busy_def demo_gone_def)
  ultimately show ?thesis
    by (auto simp: reports_issues_def parse_declared_error_body_def parse_error_body_def split: sum.splits option.splits json.splits)
qed

lemma demo_keeps: "\<forall>d \<in> set demo_errors. keeps_values d"
  using demo_zod_laws by (auto simp: demo_errors_def demo_busy_def demo_gone_def keeps_values_def zod_laws_def)

theorem application_error_roundtrip_witness:
  "(\<exists>kvs. decode_checked_error demo_zod demo_errors (Remote \<lparr>err_code = 7, err_message = ''try later'',
       err_data = Some (JObj [(''type'', JStr ''busy''), (''data'', JStr ''42'')])\<rparr>) = ApplicationError kvs \<and>
     map_of kvs = map_of (app_error_fields demo_value)) \<and>
   (\<exists>kvs. decode_checked_error demo_zod demo_errors (Remote \<lparr>err_code = 7, err_message = ''gone'', err_data = None\<rparr>) =
       ApplicationError kvs \<and> map_of kvs = map_of (app_error_fields demo_plain))"
proof -
  have made: "well_made demo_errors" by (simp add: demo_errors_def demo_errors_ok)
  note trip = application_error_roundtrip [OF demo_zod_laws made demo_keeps demo_reports]
  have "ae_type demo_value \<noteq> None" by (simp add: demo_value_def)
  moreover have "\<not> is_ok (parse_declared_error_body demo_zod d (body_of None demo_plain))"
    if "d \<in> set demo_errors" "ed_type d \<noteq> None" for d
    using that by (auto simp: demo_errors_def demo_eval some_issue_def)
  ultimately have "ae_type demo_value = None \<Longrightarrow> \<forall>d\<in>set demo_errors. ed_code d = ae_code demo_value \<and> ed_type d \<noteq> None \<longrightarrow>
      \<not> is_ok (parse_declared_error_body demo_zod d (body_of None demo_value))"
    "\<forall>d\<in>set demo_errors. ed_code d = ae_code demo_plain \<and> ed_type d \<noteq> None \<longrightarrow>
      \<not> is_ok (parse_declared_error_body demo_zod d (body_of None demo_plain))" by auto
  from trip [OF demo_encodes(1) this(1)] trip [OF demo_encodes(2) this(2)] show ?thesis by (intro conjI)
qed

end
