(* ===== verification/Spec2Isabelle.thy ===== *)
theory Spec2Isabelle
  imports Gate Issuance HubCorrect Overlay Assignability InterfaceHash Handshake SigningSender Admission AccessGrant
    Contracts
begin

text \<open>
  \<^bold>\<open>linkrpc: the trust core and the routing core\<close>

  linkrpc carries JSON-RPC calls between programs over a tree of hubs.  A call is signed by its
  caller, who attaches signed capabilities; a hub forwards it by the service id in its method name;
  a gate in front of the callee checks the signature and the capabilities.  This development models
  the TypeScript implementation of these parts, under \<^verbatim>\<open>typescript/packages\<close>, each definition from
  the function of the same name.

  \<^bold>\<open>Theories and sources\<close>

  \<^item> \<open>Prelude\<close>: results of code that may throw (\<open>res\<close>), JavaScript's insertion-ordered maps and
    sets as lists, string helpers.
  \<^item> \<open>JsNumber\<close>: finite doubles as decimal numbers with the printing and reading of JavaScript and
    its comparison.
  \<^item> \<open>Jcs\<close>: JSON values and \<^verbatim>\<open>protocol/jcs.ts\<close>, the canonical bytes that are signed.
  \<^item> \<open>Crypto\<close>: \<^verbatim>\<open>crypto/sha256.ts\<close> on 32-bit words, base64url, principals and the key resolver of
    \<^verbatim>\<open>crypto/cryptoProvider.ts\<close>.
  \<^item> \<open>SignedObject\<close>: \<^verbatim>\<open>protocol/signedObject.ts\<close>, \<^verbatim>\<open>identity/signedObject.ts\<close>, \<^verbatim>\<open>identity/identity.ts\<close>.
  \<^item> \<open>Permission\<close>: capability syntax and matching, \<^verbatim>\<open>protocol/capability.ts\<close>; \<open>Coverage\<close>: when one
    permission contains another, \<^verbatim>\<open>identity/permissionCoverage.ts\<close>.
  \<^item> \<open>Wire\<close>: messages, error codes and method names, \<^verbatim>\<open>protocol/jsonRpc.ts\<close>, \<^verbatim>\<open>methodName.ts\<close>;
    \<open>Envelope\<close>: signed calls, \<^verbatim>\<open>linkRpcEnvelope.ts\<close>, \<^verbatim>\<open>signedRpcEnvelope.ts\<close>, \<^verbatim>\<open>metaEnvelope.ts\<close>.
  \<^item> \<open>Chain\<close>: links, chains and \<^verbatim>\<open>permits\<close>; \<open>Issuance\<close>: planning and issuing capabilities, both of
    \<^verbatim>\<open>identity/capability.ts\<close>.
  \<^item> \<open>Gate\<close>: \<^verbatim>\<open>linkrpc-hub/.../forwardedCallGate.ts\<close>.
  \<^item> \<open>Routing\<close>: service ids, the forwarding table and the prefix policy (\<^verbatim>\<open>serviceId.ts\<close>,
    \<^verbatim>\<open>forwardingTable.ts\<close>, \<^verbatim>\<open>prefixPolicy.ts\<close>); \<open>Streaming\<close>: stream frames and ids;
    \<open>Splitter\<close>: \<^verbatim>\<open>overlaySplitter.ts\<close>; \<open>Hub\<close>, \<open>HubInv\<close>, \<open>HubCorrect\<close>: \<^verbatim>\<open>routingHub.ts\<close>, its invariant
    and what it promises.
  \<^item> \<open>Channel\<close>, \<open>ChannelCorrect\<close>: \<^verbatim>\<open>connection/jsonRpcChannel.ts\<close>, the peer that issues calls, serves
    requests and carries their streams; \<open>Overlay\<close>: a participant's channel behind its splitter.
  \<^item> \<open>Schema\<close>, \<open>SchemaRefs\<close>, \<open>Matching\<close>, \<open>Assignability\<close>: \<^verbatim>\<open>schema/assignability.ts\<close>,
    \<^verbatim>\<open>assertSchemaReferences.ts\<close>: schemas, their references, matching values and comparing schemas.
  \<^item> \<open>Normalize\<close>, \<open>Extensions\<close>: \<^verbatim>\<open>schema/normalize.ts\<close>; \<open>InterfaceHash\<close>: \<^verbatim>\<open>schema/hash.ts\<close>.

  \<^item> \<open>JsonText\<close>: \<^verbatim>\<open>JSON.parse\<close>; \<open>Framing\<close>, \<open>FramingCorrect\<close>: \<^verbatim>\<open>node/headerDelimitedTransport.ts\<close>,
    \<^verbatim>\<open>ndjsonTransport.ts\<close>; \<open>Transports\<close>: \<^verbatim>\<open>transport/webSocketTransport.ts\<close>, \<^verbatim>\<open>messageTransport.ts\<close>,
    \<^verbatim>\<open>multiplexedTransport.ts\<close>; \<open>Handshake\<close>: \<^verbatim>\<open>transport/initialize.ts\<close>.
  \<^item> \<open>SigningSender\<close>: \<^verbatim>\<open>identity/capBag.ts\<close>, \<^verbatim>\<open>signingSender.ts\<close>, calls on their way from an intent to a
    signed message; \<open>Admission\<close>: tokens, the token binder, handlers, the acceptor and claims at the root,
    \<^verbatim>\<open>linkrpc-hub/.../hubConnectionAcceptor.ts\<close> and the files it uses.
  \<^item> \<open>Proposal\<close>: \<^verbatim>\<open>capabilityProposalIssuer.ts\<close>; \<open>Consent\<close>: durations, signed permissions, racing prompts,
    slot permissions and access candidates; \<open>AccessGrant\<close>: the access front door and its three handlers
    (\<^verbatim>\<open>hubAccessService.ts\<close>, \<^verbatim>\<open>hubAccessConfig.ts\<close>), the grant signer and the requester of \<^verbatim>\<open>managedSigning.ts\<close>.
  \<^item> \<open>Scopes\<close>: unions of service id patterns, \<^verbatim>\<open>hub/common/directoryWalk.ts\<close>; \<open>Contracts\<close>: declared errors
    of a method and how they travel, \<^verbatim>\<open>schema/memberTypes.ts\<close>, \<^verbatim>\<open>errorValidation.ts\<close> and the encoding and
    decoding in \<^verbatim>\<open>connection/linkRpcConnection.ts\<close>.

  \<^bold>\<open>How the parts interact\<close>

  \<open>Envelope\<close> signs the canonical bytes of \<open>Jcs\<close> through \<open>SignedObject\<close>, with the key \<open>Crypto\<close> resolves
  from the principal.  \<open>Chain\<close> verifies each capability as a signed object and binds it to a call by the
  content hash of its parent; \<open>Issuance\<close> uses \<open>Coverage\<close> to decide what a parent may delegate and its
  theorem says that what it issues \<open>Chain\<close> accepts.  \<open>Gate\<close> composes the verification of a call with
  \<^verbatim>\<open>permits\<close>.  \<open>Hub\<close> routes by the table of \<open>Routing\<close>; a participant is attached through a \<open>Splitter\<close>.
  \<open>Admission\<close> puts a connection behind a gate, attaches it to the \<open>Hub\<close> and claims prefixes for it; what a
  caller lacks, \<open>AccessGrant\<close> asks a person for with the permissions \<open>Consent\<close> builds, and the capability the
  grant signer mints is what \<open>SigningSender\<close> attaches and \<open>Chain\<close> accepts.

  \<^bold>\<open>Style\<close>

  A class is a record with one function per method; a method that may throw returns \<open>Inl\<close> of the
  error.  Callbacks are turned round: a step takes the state and an event and returns the state and the
  list of what the code sends, settles or notifies, in order.  What the code reads from outside is an
  argument: clocks, random nonces, the Ed25519 primitives, a timer firing, a failing send.  What the
  theorems need of the primitives is a named hypothesis (a signature verifies under its own key; hashes of
  different inputs differ where used), with a witness that instantiates it.

  \<^bold>\<open>What the lemmas show\<close>

  \<^item> Signed bytes: the canonical form is injective up to property order, the signed bytes commit to the
    object and the domain, signing and verifying round-trip.
  \<^item> Capabilities: soundness and completeness of \<^verbatim>\<open>permits\<close>, coverage is containment of the admitted
    calls, issuing never exceeds the authority presented and its leaves verify.
  \<^item> The gate: only authenticated and permitted calls pass, no nonce twice, one outcome per message.
  \<^item> Routing: the table is a finite map with an exact reverse index (an interpreted locale gives the
    client lemmas), the walk is the longest-prefix match.
  \<^item> The splitter: requests, responses and stream frames keep to their path; its one table is exact.
  \<^item> The hub: \<open>hub_inv\<close> holds in every reachable state; \<open>evolves\<close> says an id never changes its entry;
    \<open>settles\<close> accounts for every response; from these follow correlation, no lost request, timeouts
    and a clean detach.
  \<^item> The channel: \<open>accounts\<close> and \<open>serves\<close> say what each step does to the calls issued and the requests
    received, so each call settles once and each request is answered once; \<open>stream_inv\<close> says when the
    stream of a call survives, which \<open>Overlay\<close> shows of every participant behind a splitter.
  \<^item> Schemas: the reference check bounds the chains of references and unions (\<open>guarded_in\<close>); the matcher
    decides the declarative \<open>valid\<close>; a comparison that succeeds is an inclusion of the values, by
    induction over \<open>guarded_in\<close> and the size of the value (\<open>memory_sound\<close> for the pairs remembered).
    Normalization lands in \<open>normal\<close> and is the identity there; dropping extensions at once or later is
    the same, so the hash of a stored document is that of the original.

  \<^item> Transports: \<open>drain_push\<close> says that what is left for later chunks loses nothing, so chunking does not
    matter and a stream of frames is heard as sent; \<open>framed_ok\<close> bounds what is held; \<open>mailbox\<close>, a locale
    interpreted on all five transports, says that no message is lost while listeners come and go; the
    handshake takes one message and admits only a judged token.
  \<^item> Sending: a call in flight is counted once (\<open>signed_calls_end_once\<close>), signed with the identity it was
    made under, and carries what the bag, the staging and the provider give at the time each is read.
  \<^item> Admission: a token is spent once; a refused connection leaves nothing behind; what a connection claims
    lies in its namespace.
  \<^item> Consent: the permissions built for a prompt admit exactly the calls shown; an allow-once permission
    admits one call only and is honoured for it; a redeemed proposal is the one that was shown.
  \<^item> Scopes and errors: intersection is intersection of the matched ids, a normalized scope is a canonical
    form; a declared error decodes to the value that was encoded.

  \<^bold>\<open>Bounds\<close>

  Strings are over Latin-1, so that one character is one code unit.  A chain has at most 16 links
  (15 ancestors), as in the source; recursion over chains is bounded by that depth and needs no further
  fuel.  Hub ids count up in the naturals; the source counts in doubles, exact below \<open>2 ^ 53\<close>.
  \<open>parse_value\<close> takes fuel, two per character and one more, and \<open>parse_fuel\<close> shows that more changes nothing.
  SHA-256 is modelled for inputs whose padded length fits the 32-bit rounding of the source.
  Numbers are exact decimals without a negative zero; the double arithmetic of the source rounds, which for
  times and expiries in milliseconds it does not reach.  Timeouts are integers: a delay above
  \<open>2 ^ 31 - 1\<close> ms, which \<^verbatim>\<open>setTimeout\<close> fires after one, is outside the model.  An error text is cut at its first
  character outside Latin-1.

  Steps are atomic: a transport that calls back into the hub, the channel or the handshake while it is being
  sent to is not modelled, nor is an abort between the reply of the handshake and its settling.  Objects filled by
  assignment are lists in the order of assignment: a key \<^verbatim>\<open>__proto__\<close>, which the source loses in wire
  metadata, slots and dependencies, is kept, and integer-like keys, which JavaScript lists first, keep their
  place.  The gate's listener is set once, and requests have an id that is not null.

  \<^bold>\<open>Not modelled\<close>

  Web Crypto, sockets, files, SQLite, zod, the command line, the MCP server, the daemon and the code
  generator: I/O, third-party code or presentation.  In the hub, transits, logs, edge labels and the
  topology graph only observe; attaching a link also starts peer discovery, whose request is an event of
  its own here.  The Rust implementation is another program.

  \<^bold>\<open>Plan\<close>

  What remains of the core is the walk over directories with its merging of answers, the dispatch of requests to
  registered interfaces, topology and peer discovery, endpoint URIs, and the composition of several
  participants with one hub.
\<close>

end
